(* ===== verification/Prelude.thy ===== *)
theory Prelude
  imports Complex_Main "HOL-Library.Word"
begin

text \<open>
  Shared ground of the development: the byte type and little-endian byte strings (what a
  \<open>DataView\<close> reads and writes), integer logarithms, and the generic facts on lists and maps the
  component theories reuse. Facts that evaluate the byte functions are collected in \<open>le_simps\<close>.
\<close>

unbundle bit_operations_syntax

named_theorems le_simps \<open>lengths, bounds and round trips of little-endian byte strings\<close>

section \<open>Types\<close>

type_synonym u8 = "8 word"
type_synonym u16 = "16 word"
type_synonym u32 = "32 word"

text \<open>A \<open>Uint8Array\<close>: its elements, in order.\<close>

type_synonym bytes = "u8 list"

section \<open>Little-endian byte strings\<close>

text \<open>
  \<open>le_bytes n v\<close> is the \<open>n\<close>-byte little-endian representation of \<open>v mod 256 ^ n\<close>; \<open>le_nat\<close>
  reads such a string back as an unsigned number. Every \<open>setUintN\<close> / \<open>getUintN\<close> with the
  little-endian flag, and the 48-bit time stamp loops of the signing code, are instances.
\<close>

primrec le_bytes :: "nat \<Rightarrow> nat \<Rightarrow> bytes" where
  "le_bytes 0 v = []"
| "le_bytes (Suc n) v = of_nat (v mod 256) # le_bytes n (v div 256)"

primrec le_nat :: "bytes \<Rightarrow> nat" where
  "le_nat [] = 0"
| "le_nat (b # bs) = unat b + 256 * le_nat bs"

lemma length_le_bytes [simp, le_simps]: "length (le_bytes n v) = n"
  by (induction n arbitrary: v) auto

lemma unat_of_nat_u8 [simp, le_simps]: "unat (of_nat (v mod 256) :: u8) = v mod 256"
  by (simp add: unat_of_nat take_bit_eq_mod)

lemma unat_u8_less [simp, le_simps]: "unat (b :: u8) < 256"
  using unsigned_less [of b] by simp

lemma le_nat_le_bytes [le_simps]: "le_nat (le_bytes n v) = v mod 256 ^ n"
proof (induction n arbitrary: v)
  case 0
  then show ?case by simp
next
  case (Suc n)
  then show ?case by (simp add: mod_mult2_eq)
qed

lemma le_nat_bound [le_simps]: "le_nat bs < 256 ^ length bs"
proof (induction bs)
  case Nil
  then show ?case by simp
next
  case (Cons b bs)
  have "unat b + 256 * le_nat bs < 256 + 256 * le_nat bs"
    by simp
  also have "\<dots> \<le> 256 * 256 ^ length bs"
    using Cons by (metis Suc_leI mult_Suc_right mult_le_mono2)
  finally show ?case by simp
qed

lemma of_nat_unat_mod_u8 [simp]: "(of_nat ((unat b + 256 * k) mod 256) :: u8) = b"
proof -
  have "(unat b + 256 * k) mod 256 = unat b"
    using unat_u8_less [of b] by (metis mod_less mod_mult_self2)
  then show ?thesis by simp
qed

lemma div_unat_u8 [simp]: "(unat (b :: u8) + 256 * k) div 256 = k"
  using unat_u8_less [of b] by simp

lemma le_bytes_le_nat [le_simps]: "le_bytes (length bs) (le_nat bs) = bs"
  by (induction bs) auto

lemma le_bytes_mod [le_simps]: "le_bytes n (v mod 256 ^ n) = le_bytes n v"
  by (metis le_bytes_le_nat le_nat_le_bytes length_le_bytes)

lemma le_bytes_add: "le_bytes (m + n) v = le_bytes m v @ le_bytes n (v div 256 ^ m)"
  by (induction m arbitrary: v) (simp_all add: div_mult2_eq)

lemma le_nat_append: "le_nat (xs @ ys) = le_nat xs + 256 ^ length xs * le_nat ys"
  by (induction xs) (auto simp: algebra_simps)

lemma le_nat_inj: "length xs = length ys \<Longrightarrow> le_nat xs = le_nat ys \<Longrightarrow> xs = ys"
  by (metis le_bytes_le_nat)

section \<open>Words\<close>

lemma xor_cancel: "a XOR c = b XOR c \<Longrightarrow> a = (b :: 'a::len word)"
proof -
  assume "a XOR c = b XOR c"
  then have "(a XOR c) XOR c = (b XOR c) XOR c" by simp
  then show ?thesis by (simp add: xor.assoc)
qed

text \<open>A word whose set bits are all below \<open>n\<close> is its own \<open>n\<close>-bit truncation.\<close>

lemma fitsD: "take_bit n x = x \<Longrightarrow> bit x m \<Longrightarrow> m < n"
  by (metis bit_take_bit_iff)

lemma fitsI: "(\<And>m. bit (x :: 'a::len word) m \<Longrightarrow> m < n) \<Longrightarrow> take_bit n x = x"
  by (rule bit_word_eqI) (auto simp: bit_take_bit_iff)

lemma fits_xor: "take_bit n x = x \<Longrightarrow> take_bit n y = y \<Longrightarrow> take_bit n (x XOR y) = (x XOR y :: 'a::len word)"
  by (simp only: take_bit_xor)

lemma fits_drop_bit: "take_bit n x = (x :: 'a::len word) \<Longrightarrow> take_bit n (drop_bit k x) = drop_bit k x"
  by (rule fitsI) (auto simp: bit_drop_bit_eq dest!: fitsD)

lemma fits_mono: "take_bit m x = x \<Longrightarrow> m \<le> n \<Longrightarrow> take_bit n x = (x :: 'a::len word)"
  by (rule fitsI) (auto dest!: fitsD)

lemma fits_push_bit:
  "take_bit m x = (x :: 'a::len word) \<Longrightarrow> m + k \<le> n \<Longrightarrow> take_bit n (push_bit k x) = push_bit k x"
  by (rule fitsI) (auto simp: bit_push_bit_iff dest!: fitsD)

section \<open>Integer logarithm\<close>

text \<open>\<open>ilog2 n\<close> is the index of the highest set bit of a positive \<open>n\<close>.\<close>

fun ilog2 :: "nat \<Rightarrow> nat" where
  "ilog2 n = (if n \<le> 1 then 0 else Suc (ilog2 (n div 2)))"

declare ilog2.simps [simp del]

lemma ilog2_bounds: "0 < n \<Longrightarrow> 2 ^ ilog2 n \<le> n \<and> n < 2 ^ Suc (ilog2 n)"
proof (induction n rule: ilog2.induct)
  case (1 n)
  show ?case
  proof (cases "n \<le> 1")
    case True
    with 1 show ?thesis by (simp add: ilog2.simps)
  next
    case False
    then have "2 ^ ilog2 (n div 2) \<le> n div 2 \<and> n div 2 < 2 ^ Suc (ilog2 (n div 2))"
      using 1 by simp
    with False show ?thesis
      by (simp add: ilog2.simps [of n]) linarith
  qed
qed

lemma ilog2_eqI: "2 ^ k \<le> n \<Longrightarrow> n < 2 ^ Suc k \<Longrightarrow> ilog2 n = k"
proof -
  assume a: "2 ^ k \<le> n" and b: "n < 2 ^ Suc k"
  then have "0 < n" by (metis gr_zeroI not_numeral_less_zero pos2 zero_less_power leD)
  from ilog2_bounds [OF this]
  have "2 ^ ilog2 n < (2::nat) ^ Suc k" "2 ^ k < (2::nat) ^ Suc (ilog2 n)"
    using a b by linarith+
  then have "ilog2 n < Suc k" "k < Suc (ilog2 n)"
    by (simp_all only: power_strict_increasing_iff one_less_numeral_iff semiring_norm)
  then show ?thesis by simp
qed

section \<open>Results\<close>

text \<open>A fallible operation returns \<open>Inl\<close> the error it throws or \<open>Inr\<close> its result.\<close>

definition res_bind :: "'e + 'a \<Rightarrow> ('a \<Rightarrow> 'e + 'b) \<Rightarrow> 'e + 'b" where
  "res_bind r f = (case r of Inl e \<Rightarrow> Inl e | Inr a \<Rightarrow> f a)"

lemma res_bind_simps [simp]: "res_bind (Inl e) f = Inl e" "res_bind (Inr a) f = f a"
  by (simp_all add: res_bind_def)

lemma res_bind_Inr_iff: "res_bind r f = Inr b \<longleftrightarrow> (\<exists>a. r = Inr a \<and> f a = Inr b)"
  by (cases r) auto

section \<open>Lists and maps\<close>

text \<open>\<open>subarray i n xs\<close>: the \<open>n\<close> elements from index \<open>i\<close> on, as \<open>subarray (i, i + n)\<close> gives them.\<close>

definition subarray :: "nat \<Rightarrow> nat \<Rightarrow> 'a list \<Rightarrow> 'a list" where
  "subarray i n xs = take n (drop i xs)"

lemma length_subarray [simp]: "length (subarray i n xs) = min n (length xs - i)"
  by (simp add: subarray_def)

lemma subarray_append_left [simp]: "i + n \<le> length xs \<Longrightarrow> subarray i n (xs @ ys) = subarray i n xs"
  by (simp add: subarray_def)

lemma subarray_append_right [simp]:
  "length xs \<le> i \<Longrightarrow> subarray i n (xs @ ys) = subarray (i - length xs) n ys"
  by (simp add: subarray_def)

lemma subarray_0_all [simp]: "length xs \<le> n \<Longrightarrow> subarray 0 n xs = xs"
  by (simp add: subarray_def)

lemma nth_subarray: "k < n \<Longrightarrow> i + k < length xs \<Longrightarrow> subarray i n xs ! k = xs ! (i + k)"
  by (simp add: subarray_def)

lemma foldl_invariant:
  "P a \<Longrightarrow> (\<And>a x. P a \<Longrightarrow> x \<in> set xs \<Longrightarrow> P (f a x)) \<Longrightarrow> P (foldl f a xs)"
  by (induction xs arbitrary: a) auto

end
