(* ===== verification/Crc.thy ===== *)
theory Crc
  imports Prelude
begin

text \<open>
  \<open>src/mavlink/codec/crc.ts\<close>: CRC-16/MCRF4XX, the checksum of MAVLink v1 and v2 frames. JavaScript
  computes it on 32-bit integers, so the accumulator and the data byte are \<open>u32\<close>; the
  final mask makes \<open>>>\<close> and \<open>>>>\<close> agree, so both are \<open>drop_bit\<close>. The reference is the bit-serial
  shift register with the reflected polynomial 0x8408; the theory proves the table-free step of
  the code equal to eight shifts of it, and that a step loses no information.
\<close>

section \<open>The code\<close>

definition CRC_INIT :: u32 where
  "CRC_INIT = 0xffff"

definition crcAccumulate :: "u32 \<Rightarrow> u32 \<Rightarrow> u32" where
  "crcAccumulate data acc =
     (let tmp = (data XOR (acc AND 0xff)) AND 0xff;
          tmp = (tmp XOR push_bit 4 tmp) AND 0xff
      in (drop_bit 8 acc XOR push_bit 8 tmp XOR push_bit 3 tmp XOR drop_bit 4 tmp) AND 0xffff)"

text \<open>The loop over \<open>bytes[start..end)\<close>; an index past the end reads \<open>undefined\<close>, which \<open>^\<close> takes as 0.\<close>

definition crcAccumulateRange :: "bytes \<Rightarrow> nat \<Rightarrow> nat \<Rightarrow> u32 \<Rightarrow> u32" where
  "crcAccumulateRange bs start stop acc =
     foldl (\<lambda>crc i. crcAccumulate (if i < length bs then ucast (bs ! i) else 0) crc)
       acc [start..<stop]"

text \<open>A range inside the buffer is the fold over the subarray.\<close>

definition crc_bytes :: "bytes \<Rightarrow> u32 \<Rightarrow> u32" where
  "crc_bytes bs acc = foldl (\<lambda>crc b. crcAccumulate (ucast b) crc) acc bs"

lemma crcAccumulateRange_subarray:
  "start \<le> stop \<Longrightarrow> stop \<le> length bs \<Longrightarrow>
   crcAccumulateRange bs start stop acc = crc_bytes (subarray start (stop - start) bs) acc"
proof (induction "stop - start" arbitrary: start acc)
  case 0
  then show ?case by (simp add: crcAccumulateRange_def crc_bytes_def subarray_def)
next
  case (Suc n)
  then have l: "start < stop" "start < length bs" by linarith+
  have "[start..<stop] = start # [Suc start..<stop]"
    using l by (simp add: upt_conv_Cons)
  moreover have "subarray start (stop - start) bs = bs ! start # subarray (Suc start) (stop - Suc start) bs"
    using l by (simp add: subarray_def Suc_diff_Suc Cons_nth_drop_Suc [symmetric] take_Cons' del: Cons_nth_drop_Suc)
  ultimately show ?case
    using Suc.hyps(1) [of "Suc start"] Suc l
    by (simp add: crcAccumulateRange_def crc_bytes_def)
qed

section \<open>The bit-serial reference\<close>

definition crc_shift :: "u32 \<Rightarrow> u32" where
  "crc_shift c = (if c AND 1 \<noteq> 0 then drop_bit 1 c XOR 0x8408 else drop_bit 1 c)"

definition crc_ref :: "u32 \<Rightarrow> u32 \<Rightarrow> u32" where
  "crc_ref data acc = (crc_shift ^^ 8) (acc XOR data)"

lemma crc_shift_odd: "crc_shift c = (if odd c then drop_bit 1 c XOR 0x8408 else drop_bit 1 c)"
  by (simp add: crc_shift_def and_one_eq mod_2_eq_odd)

lemma crc_shift_xor: "crc_shift (x XOR y) = crc_shift x XOR crc_shift y"
  by (cases "odd x"; cases "odd y") (simp_all add: crc_shift_odd even_xor_iff ac_simps)

lemma crc_shifts_xor: "(crc_shift ^^ n) (x XOR y) = (crc_shift ^^ n) x XOR (crc_shift ^^ n) y"
  by (induction n) (simp_all add: crc_shift_xor)

lemma crc_shifts_high: "take_bit n x = 0 \<Longrightarrow> (crc_shift ^^ n) x = drop_bit n x"
proof (induction n arbitrary: x)
  case 0
  then show ?case by simp
next
  case (Suc n)
  have "even x"
    using Suc.prems by (metis bit_0 bit_take_bit_iff bit_0_eq bot_apply zero_less_Suc bot_bool_def)
  moreover have "take_bit n (drop_bit 1 x) = 0"
  proof -
    have "take_bit n (drop_bit 1 x) = drop_bit 1 (take_bit (Suc n) x)"
      by (simp add: take_bit_drop_bit)
    with Suc.prems show ?thesis by simp
  qed
  ultimately show ?case
    using Suc.IH [of "drop_bit 1 x"]
    by (simp only: funpow_Suc_right o_apply crc_shift_odd if_not_P not_not drop_bit_drop_bit) simp
qed

text \<open>
  Two maps that respect XOR and agree on the powers of two below \<open>2 ^ n\<close> agree on every word
  of at most \<open>n\<close> bits; the code's step and the reference are such maps.
\<close>

lemma xor_linear_eq:
  fixes f g :: "u32 \<Rightarrow> u32"
  assumes f: "\<And>x y. f (x XOR y) = f x XOR f y" and g: "\<And>x y. g (x XOR y) = g x XOR g y"
    and agree: "\<And>k. k < n \<Longrightarrow> f (push_bit k 1) = g (push_bit k 1)"
  shows "take_bit n x = x \<Longrightarrow> f x = g x"
  using agree
proof (induction n arbitrary: x)
  case 0
  have "f 0 = 0" "g 0 = 0" using f [of 0 0] g [of 0 0] by simp_all
  with 0 show ?case by simp
next
  case (Suc n)
  have hi: "m < Suc n" if "bit x m" for m
    using Suc.prems(1) that by (metis bit_take_bit_iff)
  show ?case
  proof (cases "bit x n")
    case False
    have "take_bit n x = x"
    proof (rule bit_word_eqI)
      fix m
      show "bit (take_bit n x) m = bit x m"
        using False hi [of m] by (cases "m = n") (auto simp: bit_take_bit_iff)
    qed
    then show ?thesis using Suc by simp
  next
    case True
    have "take_bit n (x XOR push_bit n 1) = x XOR push_bit n 1"
    proof (rule bit_word_eqI)
      fix m
      show "bit (take_bit n (x XOR push_bit n 1)) m = bit (x XOR push_bit n 1) m"
        using True hi [of m] bit_imp_le_length [OF True]
        by (cases "m = n") (auto simp: bit_take_bit_iff bit_xor_iff bit_exp_iff)
    qed
    then have "f (x XOR push_bit n 1) = g (x XOR push_bit n 1)"
      using Suc by simp
    then have "f x XOR f (push_bit n 1) = g x XOR f (push_bit n 1)"
      using Suc.prems(2) [of n] by (simp add: f g)
    then show ?thesis by (rule xor_cancel)
  qed
qed

definition crc_low :: "u32 \<Rightarrow> u32" where
  "crc_low b =
     (let tmp = (b XOR push_bit 4 b) AND 0xff
      in push_bit 8 tmp XOR push_bit 3 tmp XOR drop_bit 4 tmp)"

lemma crc_low_xor: "crc_low (x XOR y) = crc_low x XOR crc_low y"
  by (simp only: crc_low_def Let_def push_bit_xor drop_bit_xor bit.conj_xor_distrib2
      xor.assoc xor.commute xor.left_commute)

lemma less_8_cases: "(k::nat) < 8 \<Longrightarrow> k = 0 \<or> k = 1 \<or> k = 2 \<or> k = 3 \<or> k = 4 \<or> k = 5 \<or> k = 6 \<or> k = 7"
  by linarith

lemma crc_shift_8:
  "(crc_shift ^^ 8) x =
   crc_shift (crc_shift (crc_shift (crc_shift (crc_shift (crc_shift (crc_shift (crc_shift x)))))))"
  by (simp add: eval_nat_numeral)

lemma crc_low_shifts:
  assumes "take_bit 8 b = b"
  shows "(crc_shift ^^ 8) b = crc_low b"
proof (rule xor_linear_eq [where n = 8, OF crc_shifts_xor crc_low_xor _ assms])
  fix k :: nat
  assume "k < 8"
  then show "(crc_shift ^^ 8) (push_bit k 1) = crc_low (push_bit k 1)"
    by (elim less_8_cases [THEN disjE] disjE) (simp_all add: crc_shift_8 crc_shift_def crc_low_def Let_def)
qed

section \<open>The step equals eight shifts\<close>

lemma and_ff: "x AND 0xff = take_bit 8 (x :: u32)"
  by (simp add: take_bit_eq_mask mask_eq_exp_minus_1)

lemma and_ffff: "x AND 0xffff = take_bit 16 (x :: u32)"
  by (simp add: take_bit_eq_mask mask_eq_exp_minus_1)

lemma take_bit_crc_low: "take_bit 16 (crc_low b) = crc_low b"
  unfolding crc_low_def Let_def and_ff
  by (intro fits_xor fits_push_bit [where m = 8] fits_drop_bit fits_mono [where m = 8 and n = 16])
    (simp_all only: take_bit_take_bit, simp_all)

lemma crcAccumulate_ref:
  assumes "take_bit 8 data = data" "take_bit 16 acc = acc"
  shows "crcAccumulate data acc = crc_ref data acc"
proof -
  define lo hi where "lo = data XOR take_bit 8 acc" and "hi = acc XOR take_bit 8 acc"
  have lo: "take_bit 8 lo = lo"
    using assms(1) by (simp add: lo_def)
  have "take_bit 8 hi = 0"
    by (simp add: hi_def)
  then have hi: "(crc_shift ^^ 8) hi = drop_bit 8 hi"
    by (rule crc_shifts_high)
  have "drop_bit 8 hi = drop_bit 8 acc"
    by (rule bit_word_eqI) (simp add: hi_def bit_drop_bit_eq bit_xor_iff bit_take_bit_iff)
  moreover have "acc XOR data = hi XOR lo"
    by (simp add: hi_def lo_def xor.assoc xor.commute xor.left_commute)
  ultimately have ref: "crc_ref data acc = drop_bit 8 acc XOR crc_low lo"
    by (simp add: crc_ref_def crc_shifts_xor hi crc_low_shifts [OF lo])
  have "take_bit 16 (drop_bit 8 acc) = drop_bit 8 acc"
    using assms(2) by (rule fits_drop_bit)
  then have "take_bit 16 (drop_bit 8 acc XOR crc_low lo) = drop_bit 8 acc XOR crc_low lo"
    by (simp add: take_bit_crc_low)
  moreover have "crcAccumulate data acc = take_bit 16 (drop_bit 8 acc XOR crc_low (take_bit 8 lo))"
    by (simp only: crcAccumulate_def crc_low_def Let_def and_ff and_ffff lo lo_def [symmetric] xor.assoc)
  ultimately show ?thesis by (simp add: ref lo)
qed

section \<open>No information is lost\<close>

lemma take_bit_crc_shift: "take_bit 16 x = x \<Longrightarrow> take_bit 16 (crc_shift x) = crc_shift x"
proof -
  assume x: "take_bit 16 x = x"
  have "take_bit 16 (drop_bit 1 x) = drop_bit 1 x"
    using x by (rule fits_drop_bit)
  then show ?thesis by (simp add: crc_shift_def)
qed

lemma take_bit_crc_shifts: "take_bit 16 x = x \<Longrightarrow> take_bit 16 ((crc_shift ^^ n) x) = (crc_shift ^^ n) x"
  by (induction n) (simp_all add: take_bit_crc_shift)

lemma crc_shift_kernel:
  assumes "take_bit 16 x = x" "crc_shift x = 0"
  shows "x = 0"
proof (cases "odd x")
  case True
  have "bit (crc_shift x) 15 = (\<not> bit x 16)"
    using True by (simp add: crc_shift_odd bit_xor_iff bit_drop_bit_eq)
  moreover have "\<not> bit x 16" using fitsD [OF assms(1)] by blast
  ultimately show ?thesis using assms(2) by simp
next
  case False
  then have d: "drop_bit 1 x = 0" using assms(2) by (simp add: crc_shift_odd)
  have "\<not> bit x m" for m
  proof (cases m)
    case 0
    with False show ?thesis by (simp add: bit_0)
  next
    case (Suc k)
    have "bit x (1 + k) = bit (drop_bit 1 x) k" by (simp only: bit_drop_bit_eq o_apply)
    with d Suc show ?thesis by simp
  qed
  then show ?thesis by (intro bit_word_eqI) simp
qed

lemma crc_shifts_inj:
  assumes "take_bit 16 x = x" "take_bit 16 y = y" "(crc_shift ^^ n) x = (crc_shift ^^ n) y"
  shows "x = y"
proof -
  have z: "take_bit 16 (x XOR y) = x XOR y"
    using assms by simp
  have "(crc_shift ^^ n) (x XOR y) = 0"
    using assms(3) by (simp add: crc_shifts_xor)
  then have "x XOR y = 0"
    using z
  proof (induction n)
    case 0
    then show ?case by simp
  next
    case (Suc n)
    then show ?case
      using crc_shift_kernel [of "(crc_shift ^^ n) (x XOR y)"] take_bit_crc_shifts [OF z] by simp
  qed
  then have "x XOR y = y XOR y" by simp
  then show ?thesis by (rule xor_cancel)
qed

lemma take_bit_ucast_u8: "8 \<le> n \<Longrightarrow> take_bit n (ucast (b :: u8) :: u32) = ucast b"
  by (rule fitsI) (auto simp: bit_ucast_iff dest!: bit_imp_le_length)

lemma take_bit_crcAccumulate: "take_bit 16 (crcAccumulate data acc) = crcAccumulate data acc"
  by (simp only: crcAccumulate_def Let_def and_ffff take_bit_take_bit min.idem)

lemma crc_bytes_Nil [simp]: "crc_bytes [] acc = acc"
  by (simp add: crc_bytes_def)

lemma crc_bytes_Cons [simp]: "crc_bytes (b # bs) acc = crc_bytes bs (crcAccumulate (ucast b) acc)"
  by (simp add: crc_bytes_def)

lemma crc_bytes_append: "crc_bytes (xs @ ys) acc = crc_bytes ys (crc_bytes xs acc)"
  by (simp add: crc_bytes_def)

lemma take_bit_crc_bytes: "take_bit 16 acc = acc \<Longrightarrow> take_bit 16 (crc_bytes bs acc) = crc_bytes bs acc"
  by (induction bs arbitrary: acc) (simp_all add: take_bit_crcAccumulate)

lemma crcAccumulate_inj_acc:
  assumes "take_bit 16 a = a" "take_bit 16 a' = a'"
    "crcAccumulate (ucast (b :: u8)) a = crcAccumulate (ucast b) a'"
  shows "a = a'"
proof -
  have b: "take_bit 8 (ucast b :: u32) = ucast b" "take_bit 16 (ucast b :: u32) = ucast b"
    by (simp_all add: take_bit_ucast_u8)
  have "(crc_shift ^^ 8) (a XOR ucast b) = (crc_shift ^^ 8) (a' XOR ucast b)"
    using assms by (simp add: crcAccumulate_ref b crc_ref_def)
  then have "a XOR ucast b = a' XOR ucast b"
    by (rule crc_shifts_inj [rotated 2]) (simp_all add: assms b)
  then show ?thesis by (rule xor_cancel)
qed

lemma crc_bytes_inj_acc:
  assumes "take_bit 16 a = a" "take_bit 16 a' = a'" "crc_bytes bs a = crc_bytes bs a'"
  shows "a = a'"
  using assms
proof (induction bs arbitrary: a a')
  case Nil
  then show ?case by simp
next
  case (Cons b bs)
  have "crc_bytes bs (crcAccumulate (ucast b) a) = crc_bytes bs (crcAccumulate (ucast b) a')"
    using Cons.prems(3) by simp
  then have "crcAccumulate (ucast b) a = crcAccumulate (ucast b) a'"
    by (rule Cons.IH [OF take_bit_crcAccumulate take_bit_crcAccumulate])
  with Cons.prems(1,2) show ?case by (rule crcAccumulate_inj_acc)
qed

text \<open>Two consecutive bytes enter the register as one 16-bit word, so a burst of two is seen.\<close>

lemma crc_bytes_pair:
  assumes "take_bit 16 acc = acc"
  shows "crc_bytes [b, c] acc = (crc_shift ^^ 16) (acc XOR (ucast b XOR push_bit 8 (ucast c)))"
proof -
  have b: "take_bit 8 (ucast b :: u32) = ucast b" and c: "take_bit 8 (ucast c :: u32) = ucast c"
    by (simp_all add: take_bit_ucast_u8)
  have high: "(crc_shift ^^ 8) (push_bit 8 (ucast c :: u32)) = ucast c"
  proof -
    have "take_bit 8 (push_bit 8 (ucast c :: u32)) = 0"
      by (rule bit_word_eqI) (simp add: bit_take_bit_iff bit_push_bit_iff)
    then have "(crc_shift ^^ 8) (push_bit 8 (ucast c :: u32)) = drop_bit 8 (push_bit 8 (ucast c))"
      by (rule crc_shifts_high)
    also have "\<dots> = ucast c"
      by (rule bit_word_eqI)
        (auto simp: bit_drop_bit_eq bit_push_bit_iff bit_ucast_iff dest: bit_imp_le_length)
    finally show ?thesis .
  qed
  have "crc_bytes [b, c] acc = (crc_shift ^^ 8) ((crc_shift ^^ 8) (acc XOR ucast b) XOR ucast c)"
    using assms b c by (simp add: crcAccumulate_ref crc_ref_def [symmetric])
      (simp add: crc_ref_def crcAccumulate_ref take_bit_crc_shifts take_bit_ucast_u8)
  also have "\<dots> = (crc_shift ^^ 8) ((crc_shift ^^ 8) (acc XOR ucast b XOR push_bit 8 (ucast c)))"
    by (simp only: crc_shifts_xor high xor.assoc)
  also have "\<dots> = (crc_shift ^^ (8 + 8)) (acc XOR ucast b XOR push_bit 8 (ucast c))"
    by (simp only: funpow_add o_apply)
  finally show ?thesis by (simp add: xor.assoc)
qed

lemma pair_word_inj:
  assumes "(ucast (b :: u8) XOR push_bit 8 (ucast (c :: u8)) :: u32) = ucast b' XOR push_bit 8 (ucast c')"
  shows "b = b' \<and> c = c'"
proof -
  have "bit b k = bit b' k \<and> bit c k = bit c' k" if "k < 8" for k
  proof -
    have "bit (ucast b XOR push_bit 8 (ucast c) :: u32) j = bit (ucast b' XOR push_bit 8 (ucast c') :: u32) j" for j
      by (simp add: assms)
    from this [of k] this [of "k + 8"] that show ?thesis
      by (auto simp: bit_xor_iff bit_push_bit_iff bit_ucast_iff dest: bit_imp_le_length)
  qed
  then show ?thesis by (auto intro!: bit_word_eqI)
qed

lemma crc_bytes_burst:
  assumes "take_bit 16 acc = acc" "[b, c] \<noteq> [b', c']"
  shows "crc_bytes (xs @ [b, c] @ ys) acc \<noteq> crc_bytes (xs @ [b', c'] @ ys) acc"
proof
  let ?a = "crc_bytes xs acc"
  have a: "take_bit 16 ?a = ?a" using assms(1) by (rule take_bit_crc_bytes)
  have w: "take_bit 16 (ucast b XOR push_bit 8 (ucast c) :: u32) = ucast b XOR push_bit 8 (ucast c)" for b c :: u8
    by (intro fits_xor fits_push_bit [where m = 8]) (simp_all add: take_bit_ucast_u8)
  assume "crc_bytes (xs @ [b, c] @ ys) acc = crc_bytes (xs @ [b', c'] @ ys) acc"
  then have "crc_bytes ys (crc_bytes [b, c] ?a) = crc_bytes ys (crc_bytes [b', c'] ?a)"
    by (simp only: crc_bytes_append)
  then have "crc_bytes [b, c] ?a = crc_bytes [b', c'] ?a"
    by (rule crc_bytes_inj_acc [rotated 2]) (simp_all only: take_bit_crc_bytes a)
  then have "?a XOR (ucast b XOR push_bit 8 (ucast c)) = ?a XOR (ucast b' XOR push_bit 8 (ucast c'))"
    unfolding crc_bytes_pair [OF a] by (rule crc_shifts_inj [rotated 2]) (rule fits_xor [OF a w])+
  then have "(ucast b XOR push_bit 8 (ucast c) :: u32) = ucast b' XOR push_bit 8 (ucast c')"
    by (metis xor_cancel xor.commute)
  then show False using pair_word_inj assms(2) by blast
qed

end
