(* ===== verification/Js_Number.thy ===== *)
theory Js_Number
  imports Prelude "HOL-Library.Product_Lexorder"
begin

text \<open>
  The JavaScript values the program computes with. A \<open>number\<close> is an IEEE-754 double: a finite
  value is kept as the rational it denotes, and the negative zero, the infinities and NaN are
  constructors of their own. The binary32 and binary64 encodings that a \<open>DataView\<close> reads and
  writes are defined for any mantissa and exponent width, with round-to-nearest-even, and every
  arithmetic operation rounds its exact result to binary64. A NaN is written as the canonical
  quiet pattern (ECMAScript leaves the choice to the engine).
\<close>

section \<open>Numbers\<close>

datatype jsnum = Num rat | NegZero | NaN | PosInf | NegInf

definition js_int :: "int \<Rightarrow> jsnum" where
  "js_int i = Num (of_int i)"

definition js_nat :: "nat \<Rightarrow> jsnum" where
  "js_nat n = Num (of_nat n)"

text \<open>The value of a finite number; the infinities and NaN have none.\<close>

fun js_val :: "jsnum \<Rightarrow> rat option" where
  "js_val (Num q) = Some q"
| "js_val NegZero = Some 0"
| "js_val NaN = None"
| "js_val PosInf = None"
| "js_val NegInf = None"

definition js_is_nan :: "jsnum \<Rightarrow> bool" where
  "js_is_nan x = (x = NaN)"

text \<open>Strict equality: NaN differs from itself, the two zeros are equal.\<close>

fun js_eq :: "jsnum \<Rightarrow> jsnum \<Rightarrow> bool" where
  "js_eq NaN y = False"
| "js_eq x NaN = False"
| "js_eq x y = (x = y \<or> (js_val x = Some 0 \<and> js_val y = Some 0))"

fun js_lt :: "jsnum \<Rightarrow> jsnum \<Rightarrow> bool" where
  "js_lt NaN y = False"
| "js_lt x NaN = False"
| "js_lt x PosInf = (x \<noteq> PosInf)"
| "js_lt NegInf y = (y \<noteq> NegInf)"
| "js_lt x y = (case (js_val x, js_val y) of (Some a, Some b) \<Rightarrow> a < b | _ \<Rightarrow> False)"

definition js_le :: "jsnum \<Rightarrow> jsnum \<Rightarrow> bool" where
  "js_le x y = (js_lt x y \<or> js_eq x y)"

text \<open>The sign bit, as the multiplication rule uses it.\<close>

fun js_neg :: "jsnum \<Rightarrow> bool" where
  "js_neg (Num q) = (q < 0)"
| "js_neg NegZero = True"
| "js_neg NegInf = True"
| "js_neg _ = False"

text \<open>
  Truncation towards zero, with 0 for NaN and the infinities: what \<open>ToInt32\<close>, \<open>ToUint8\<close> and
  their kin reduce modulo the width.
\<close>

definition rat_trunc :: "rat \<Rightarrow> int" where
  "rat_trunc q = (if 0 \<le> q then \<lfloor>q\<rfloor> else \<lceil>q\<rceil>)"

definition js_trunc :: "jsnum \<Rightarrow> int" where
  "js_trunc x = (case js_val x of Some q \<Rightarrow> rat_trunc q | None \<Rightarrow> 0)"

definition js_word :: "jsnum \<Rightarrow> 'a::len word" where
  "js_word x = word_of_int (js_trunc x)"

section \<open>Order\<close>

text \<open>
  The order numbers are sorted in: by value, the negative zero just below zero, NaN last. On distinct
  finite numbers it is the comparator \<open>(a, b) => a - b\<close>.
\<close>

definition js_rank :: "jsnum \<Rightarrow> nat \<times> rat \<times> nat" where
  "js_rank x =
     (case x of
        NegInf \<Rightarrow> (0, 0, 0) | NegZero \<Rightarrow> (1, 0, 0) | Num q \<Rightarrow> (1, q, 1) | PosInf \<Rightarrow> (2, 0, 0) | NaN \<Rightarrow> (3, 0, 0))"

lemma js_rank_inj: "js_rank x = js_rank y \<Longrightarrow> x = y"
  by (cases x; cases y) (auto simp: js_rank_def)

instantiation jsnum :: linorder
begin

definition less_eq_jsnum :: "jsnum \<Rightarrow> jsnum \<Rightarrow> bool" where
  "less_eq_jsnum x y = (js_rank x \<le> js_rank y)"

definition less_jsnum :: "jsnum \<Rightarrow> jsnum \<Rightarrow> bool" where
  "less_jsnum x y = (js_rank x < js_rank y)"

instance
  by standard (auto simp: less_eq_jsnum_def less_jsnum_def intro: js_rank_inj)

end

lemma js_less_Num [simp]: "Num a < Num b \<longleftrightarrow> a < b" "Num a \<le> Num b \<longleftrightarrow> a \<le> b"
  by (auto simp: less_jsnum_def less_eq_jsnum_def js_rank_def)

lemma js_nat_order [simp]: "js_nat m < js_nat n \<longleftrightarrow> m < n" "js_nat m \<le> js_nat n \<longleftrightarrow> m \<le> n" "js_nat m = js_nat n \<longleftrightarrow> m = n"
  by (simp_all add: js_nat_def)

lemma js_lt_nat [simp]: "js_lt (js_nat m) (js_nat n) \<longleftrightarrow> m < n" "js_eq (js_nat m) (js_nat n) \<longleftrightarrow> m = n"
  "js_le (js_nat m) (js_nat n) \<longleftrightarrow> m \<le> n"
  by (auto simp: js_nat_def js_le_def)

section \<open>IEEE-754 encodings\<close>

definition floor_log2 :: "rat \<Rightarrow> int" where
  "floor_log2 q =
     (let (a, b) = quotient_of q;
          k = int (ilog2 (nat a)) - int (ilog2 (nat b))
      in if 2 powi k \<le> q then k else k - 1)"

definition round_half_even :: "rat \<Rightarrow> int" where
  "round_half_even q =
     (let f = \<lfloor>q\<rfloor>; d = q - of_int f
      in if d < 1 / 2 then f else if 1 / 2 < d then f + 1 else if even f then f else f + 1)"

text \<open>
  A format has \<open>p\<close> fraction bits and \<open>w\<close> exponent bits. The magnitude bits of a positive
  rational are the biased exponent and the fraction taken as one number, so that a rounding
  carry moves into the exponent; a value that rounds above the largest finite one saturates at
  the pattern of the infinity.
\<close>

definition f_bias :: "nat \<Rightarrow> int" where
  "f_bias w = 2 ^ (w - 1) - 1"

definition f_inf :: "nat \<Rightarrow> nat \<Rightarrow> nat" where
  "f_inf p w = (2 ^ w - 1) * 2 ^ p"

definition enc_mag :: "nat \<Rightarrow> nat \<Rightarrow> rat \<Rightarrow> nat" where
  "enc_mag p w q =
     (let e = max (floor_log2 q) (1 - f_bias w);
          m = round_half_even (q * 2 powi (int p - e))
      in min (nat ((e + f_bias w - 1) * 2 ^ p + m)) (f_inf p w))"

definition dec_mag :: "nat \<Rightarrow> nat \<Rightarrow> nat \<Rightarrow> rat" where
  "dec_mag p w b =
     (let e = b div 2 ^ p; m = b mod 2 ^ p
      in if e = 0 then of_nat m * 2 powi (1 - f_bias w - int p)
         else of_nat (2 ^ p + m) * 2 powi (int e - f_bias w - int p))"

definition enc_float :: "nat \<Rightarrow> nat \<Rightarrow> jsnum \<Rightarrow> nat" where
  "enc_float p w x =
     (case x of
        NaN \<Rightarrow> f_inf p w + 2 ^ (p - 1)
      | PosInf \<Rightarrow> f_inf p w
      | NegInf \<Rightarrow> 2 ^ (p + w) + f_inf p w
      | NegZero \<Rightarrow> 2 ^ (p + w)
      | Num q \<Rightarrow> (if q = 0 then 0
                  else if 0 < q then enc_mag p w q
                  else 2 ^ (p + w) + enc_mag p w (- q)))"

definition dec_float :: "nat \<Rightarrow> nat \<Rightarrow> nat \<Rightarrow> jsnum" where
  "dec_float p w b =
     (let s = (2 ^ (p + w) \<le> b); r = b mod 2 ^ (p + w)
      in if r = f_inf p w then (if s then NegInf else PosInf)
         else if f_inf p w < r then NaN
         else if r = 0 then (if s then NegZero else Num 0)
         else Num (if s then - dec_mag p w r else dec_mag p w r))"

definition f32_bits :: "jsnum \<Rightarrow> nat" where "f32_bits = enc_float 23 8"
definition f32_of_bits :: "nat \<Rightarrow> jsnum" where "f32_of_bits = dec_float 23 8"
definition f64_bits :: "jsnum \<Rightarrow> nat" where "f64_bits = enc_float 52 11"
definition f64_of_bits :: "nat \<Rightarrow> jsnum" where "f64_of_bits = dec_float 52 11"

text \<open>Rounding of an exact result to the nearest double.\<close>

definition fl :: "rat \<Rightarrow> jsnum" where
  "fl q = f64_of_bits (f64_bits (Num q))"

section \<open>Arithmetic\<close>

fun js_add :: "jsnum \<Rightarrow> jsnum \<Rightarrow> jsnum" where
  "js_add NaN y = NaN"
| "js_add x NaN = NaN"
| "js_add PosInf y = (if y = NegInf then NaN else PosInf)"
| "js_add NegInf y = (if y = PosInf then NaN else NegInf)"
| "js_add x PosInf = PosInf"
| "js_add x NegInf = NegInf"
| "js_add NegZero NegZero = NegZero"
| "js_add NegZero (Num b) = Num b"
| "js_add (Num a) NegZero = Num a"
| "js_add (Num a) (Num b) = fl (a + b)"

fun js_uminus :: "jsnum \<Rightarrow> jsnum" where
  "js_uminus NaN = NaN"
| "js_uminus PosInf = NegInf"
| "js_uminus NegInf = PosInf"
| "js_uminus NegZero = Num 0"
| "js_uminus (Num q) = (if q = 0 then NegZero else Num (- q))"

definition js_sub :: "jsnum \<Rightarrow> jsnum \<Rightarrow> jsnum" where
  "js_sub x y = js_add x (js_uminus y)"

definition js_mul :: "jsnum \<Rightarrow> jsnum \<Rightarrow> jsnum" where
  "js_mul x y =
     (if x = NaN \<or> y = NaN then NaN
      else let s = (js_neg x \<noteq> js_neg y)
           in case (js_val x, js_val y) of
                (Some a, Some b) \<Rightarrow>
                  if a = 0 \<or> b = 0 then (if s then NegZero else Num 0) else fl (a * b)
              | (Some a, None) \<Rightarrow> if a = 0 then NaN else if s then NegInf else PosInf
              | (None, Some b) \<Rightarrow> if b = 0 then NaN else if s then NegInf else PosInf
              | (None, None) \<Rightarrow> if s then NegInf else PosInf)"

definition js_abs :: "jsnum \<Rightarrow> jsnum" where
  "js_abs x = (if js_neg x then js_uminus x else x)"

text \<open>\<open>Math.max\<close> of two numbers: NaN wins, and +0 is larger than -0.\<close>

definition js_max :: "jsnum \<Rightarrow> jsnum \<Rightarrow> jsnum" where
  "js_max x y =
     (if x = NaN \<or> y = NaN then NaN
      else if js_lt x y then y else if js_lt y x then x else if x = NegZero then y else x)"

text \<open>\<open>Math.round\<close>: the nearest integer, ties upwards, keeping the sign of a zero result.\<close>

definition js_round :: "jsnum \<Rightarrow> jsnum" where
  "js_round x =
     (case x of Num q \<Rightarrow> let r = \<lfloor>q + 1 / 2\<rfloor> in if r = 0 \<and> q < 0 then NegZero else js_int r
      | _ \<Rightarrow> x)"

text \<open>\<open>Number (b)\<close> of a bigint rounds to the nearest double.\<close>

definition js_of_bigint :: "int \<Rightarrow> jsnum" where
  "js_of_bigint i = fl (of_int i)"

section \<open>Facts on the integer logarithm and the rounding\<close>

lemma powi_mono_less: "(2::rat) powi j < 2 powi (k + 1) \<Longrightarrow> j \<le> k"
proof (rule ccontr)
  assume lt: "(2::rat) powi j < 2 powi (k + 1)" and "\<not> j \<le> k"
  then have "k + 1 \<le> j" by simp
  then have "(2::rat) powi (k + 1) \<le> 2 powi j"
    by (intro power_int_increasing) auto
  with lt show False by simp
qed

lemma powi_unique:
  assumes "2 powi j \<le> q" "q < 2 powi (j + 1)" "2 powi k \<le> q" "q < (2::rat) powi (k + 1)"
  shows "j = k"
  using powi_mono_less [of j k] powi_mono_less [of k j] assms by linarith

lemma nat_power_of_nat_rat:
  "(2 ^ k \<le> (of_nat n :: rat)) = (2 ^ k \<le> n)" "((of_nat n :: rat) < 2 ^ k) = (n < 2 ^ k)"
  by (metis of_nat_le_iff of_nat_numeral of_nat_power, metis of_nat_less_iff of_nat_numeral of_nat_power)

lemma floor_log2_bounds:
  assumes "0 < q"
  shows "2 powi floor_log2 q \<le> q \<and> q < 2 powi (floor_log2 q + 1)"
proof -
  obtain a b where ab: "quotient_of q = (a, b)" by (cases "quotient_of q")
  have b: "0 < b" using quotient_of_denom_pos [OF ab] .
  have q: "q = of_int a / of_int b" using quotient_of_div [OF ab] .
  with b assms have a: "0 < a" by (simp add: zero_less_divide_iff)
  define la lb where "la = ilog2 (nat a)" and "lb = ilog2 (nat b)"
  have A: "2 ^ la \<le> nat a" "nat a < 2 ^ Suc la" and B: "2 ^ lb \<le> nat b" "nat b < 2 ^ Suc lb"
    unfolding la_def lb_def using ilog2_bounds [of "nat a"] ilog2_bounds [of "nat b"] a b by auto
  have na: "(of_int a :: rat) = of_nat (nat a)" "(of_int b :: rat) = of_nat (nat b)"
    using a b by simp_all
  have A': "2 ^ la \<le> (of_int a :: rat)" "(of_int a :: rat) < 2 ^ Suc la"
    and B': "2 ^ lb \<le> (of_int b :: rat)" "(of_int b :: rat) < 2 ^ Suc lb"
    unfolding na using A B by (simp_all only: nat_power_of_nat_rat)
  have bpos: "(0::rat) < of_int b" using b by simp
  define k where "k = int la - int lb"
  have up: "q < 2 powi (k + 1)"
  proof -
    have "q < 2 ^ Suc la / of_int b" using A' bpos q by (simp add: divide_strict_right_mono)
    also have "\<dots> \<le> 2 ^ Suc la / 2 ^ lb" using B' bpos by (intro divide_left_mono) auto
    also have "\<dots> = 2 powi (k + 1)"
      by (simp add: k_def power_int_add power_int_diff)
    finally show ?thesis .
  qed
  have low: "2 powi (k - 1) < q"
  proof -
    have "2 powi (k - 1) = (2::rat) ^ la / 2 ^ Suc lb"
      by (simp add: k_def power_int_diff)
    also have "\<dots> < 2 ^ la / of_int b" using B' bpos by (intro divide_strict_left_mono) auto
    also have "\<dots> \<le> q" using A' bpos q by (simp add: divide_right_mono)
    finally show ?thesis .
  qed
  show ?thesis
    using up low unfolding floor_log2_def ab by (simp add: Let_def k_def [symmetric] flip: la_def lb_def)
qed

lemma floor_log2_eqI:
  assumes "2 powi k \<le> q" "q < 2 powi (k + 1)"
  shows "floor_log2 q = k"
proof -
  have "0 < (2::rat) powi k" by simp
  with assms have "0 < q" by linarith
  from floor_log2_bounds [OF this] assms show ?thesis
    using powi_unique by blast
qed

lemma floor_log2_scaled:
  assumes "2 ^ k \<le> m" "m < 2 ^ Suc k"
  shows "floor_log2 (of_nat m * 2 powi j) = int k + j"
proof (rule floor_log2_eqI)
  have m: "(2::rat) ^ k \<le> of_nat m" "of_nat m < (2::rat) ^ Suc k"
    using assms by (simp_all only: nat_power_of_nat_rat)
  have p: "(0::rat) < 2 powi j" by simp
  have "2 powi (int k + j) = (2::rat) ^ k * 2 powi j" by (simp add: power_int_add)
  also have "\<dots> \<le> of_nat m * 2 powi j" using m p by (simp add: mult_right_mono)
  finally show "2 powi (int k + j) \<le> of_nat m * (2::rat) powi j" .
  have "of_nat m * 2 powi j < (2::rat) ^ Suc k * 2 powi j"
    using m p by (intro mult_strict_right_mono) auto
  also have "\<dots> = 2 powi (int k + j + 1)" by (simp add: power_int_add)
  finally show "of_nat m * (2::rat) powi j < 2 powi (int k + j + 1)" .
qed

lemma round_half_even_int [simp]: "round_half_even (of_int i) = i"
  by (simp add: round_half_even_def Let_def)

lemma round_half_even_nat [simp]: "round_half_even (of_nat n) = int n"
  using round_half_even_int [of "int n"] by simp

section \<open>A bit pattern survives decoding and encoding\<close>

lemma dec_mag_pos: "b \<noteq> 0 \<Longrightarrow> 0 < dec_mag p w b"
proof -
  assume "b \<noteq> 0"
  then have "b div 2 ^ p = 0 \<Longrightarrow> 0 < b mod 2 ^ p"
    by (metis div_mult_mod_eq gr0I mult_is_0 add.right_neutral)
  then show ?thesis
    by (auto simp: dec_mag_def Let_def zero_less_mult_iff add_pos_nonneg)
qed

lemma enc_dec_mag:
  assumes "b \<noteq> 0" "b < f_inf p w" "0 < w"
  shows "enc_mag p w (dec_mag p w b) = b"
proof -
  define e m where "e = b div 2 ^ p" and "m = b mod 2 ^ p"
  have b: "b = e * 2 ^ p + m" and m: "m < 2 ^ p"
    unfolding e_def m_def by (rule div_mult_mod_eq [symmetric]) simp
  show ?thesis
  proof (cases "e = 0")
    case True
    with assms b have "0 < m" by simp
    have q: "dec_mag p w b = of_nat m * 2 powi (1 - f_bias w - int p)"
      using True by (simp add: dec_mag_def Let_def flip: e_def m_def)
    define k where "k = ilog2 m"
    have k: "2 ^ k \<le> m" "m < 2 ^ Suc k" using ilog2_bounds [OF \<open>0 < m\<close>] by (auto simp: k_def)
    then have "(2::nat) ^ k < 2 ^ p" using m by linarith
    then have "k < p" by simp
    have "floor_log2 (dec_mag p w b) = int k + (1 - f_bias w - int p)"
      unfolding q by (rule floor_log2_scaled [OF k])
    with \<open>k < p\<close> have e1: "max (floor_log2 (dec_mag p w b)) (1 - f_bias w) = 1 - f_bias w"
      by simp
    have "dec_mag p w b * 2 powi (int p - (1 - f_bias w)) = of_nat m"
      unfolding q by (simp add: mult.assoc flip: power_int_add)
    then show ?thesis
      using e1 b True assms by (simp add: enc_mag_def Let_def)
  next
    case False
    have q: "dec_mag p w b = of_nat (2 ^ p + m) * 2 powi (int e - f_bias w - int p)"
      using False by (simp add: dec_mag_def Let_def flip: e_def m_def)
    have "floor_log2 (dec_mag p w b) = int p + (int e - f_bias w - int p)"
      unfolding q using m by (intro floor_log2_scaled) auto
    with False have e1: "max (floor_log2 (dec_mag p w b)) (1 - f_bias w) = int e - f_bias w"
      by simp
    have "dec_mag p w b * 2 powi (int p - (int e - f_bias w)) = of_nat (2 ^ p + m)"
      unfolding q by (simp add: mult.assoc flip: power_int_add)
    then have "enc_mag p w (dec_mag p w b) = min (nat ((int e - 1) * 2 ^ p + int (2 ^ p + m))) (f_inf p w)"
      using e1 unfolding enc_mag_def Let_def by (simp only: round_half_even_nat) simp
    also have "(int e - 1) * 2 ^ p + int (2 ^ p + m) = int b"
      by (simp add: b algebra_simps)
    finally show ?thesis using assms by simp
  qed
qed

lemma f_inf_less: "f_inf p w < 2 ^ (p + w)"
proof -
  have "f_inf p w = 2 ^ (p + w) - 2 ^ p"
    by (simp only: f_inf_def diff_mult_distrib power_add mult.commute [of "2 ^ w"] mult_1)
  then show ?thesis by (simp add: diff_less)
qed

theorem enc_dec_float:
  assumes "b < 2 ^ (p + w + 1)" "dec_float p w b \<noteq> NaN" "0 < w"
  shows "enc_float p w (dec_float p w b) = b"
proof -
  define s r where "s = (2 ^ (p + w) \<le> b)" and "r = b mod 2 ^ (p + w)"
  have b: "b = (if s then 2 ^ (p + w) + r else r)"
    using assms(1) by (auto simp: s_def r_def mod_if le_mod_geq)
  have r: "r \<le> f_inf p w"
    using assms(2) unfolding dec_float_def Let_def s_def [symmetric] r_def [symmetric]
    by (auto split: if_splits)
  consider "r = f_inf p w" | "r < f_inf p w" "r = 0" | "r < f_inf p w" "r \<noteq> 0"
    using r by linarith
  then show ?thesis
  proof cases
    case 1
    then show ?thesis
      unfolding dec_float_def Let_def s_def [symmetric] r_def [symmetric]
      by (simp add: enc_float_def b)
  next
    case 2
    then show ?thesis
      unfolding dec_float_def Let_def s_def [symmetric] r_def [symmetric]
      by (simp add: enc_float_def b)
  next
    case 3
    then have "0 < dec_mag p w r" "enc_mag p w (dec_mag p w r) = r"
      using dec_mag_pos enc_dec_mag assms(3) by blast+
    with 3 show ?thesis
      unfolding dec_float_def Let_def s_def [symmetric] r_def [symmetric]
      by (simp add: enc_float_def b)
  qed
qed

lemma f32_round_trip: "b < 2 ^ 32 \<Longrightarrow> f32_of_bits b \<noteq> NaN \<Longrightarrow> f32_bits (f32_of_bits b) = b"
  unfolding f32_bits_def f32_of_bits_def by (rule enc_dec_float) auto

lemma f64_round_trip: "b < 2 ^ 64 \<Longrightarrow> f64_of_bits b \<noteq> NaN \<Longrightarrow> f64_bits (f64_of_bits b) = b"
  unfolding f64_bits_def f64_of_bits_def by (rule enc_dec_float) auto

lemma enc_mag_le: "enc_mag p w q \<le> f_inf p w"
  by (simp add: enc_mag_def Let_def)

lemma enc_float_bound:
  assumes "0 < p"
  shows "enc_float p w x < 2 ^ (p + w + 1)"
proof -
  have i: "f_inf p w < 2 ^ (p + w)" by (rule f_inf_less)
  have m: "enc_mag p w q < 2 ^ (p + w)" for q
    using enc_mag_le [of p w q] i by linarith
  have "2 ^ (p - 1) \<le> (2 ^ p :: nat)" by (rule power_increasing) auto
  moreover have "(2 ^ p :: nat) \<le> 2 ^ (p + w)" by (rule power_increasing) auto
  ultimately have "2 ^ (p - 1) \<le> (2 ^ (p + w) :: nat)" by linarith
  then have n: "f_inf p w + 2 ^ (p - 1) < 2 * 2 ^ (p + w)"
    using i by linarith
  show ?thesis
  proof (cases x)
    case (Num q)
    with m [of q] m [of "- q"] show ?thesis by (simp add: enc_float_def)
  qed (use i n in \<open>simp_all add: enc_float_def\<close>)
qed

lemma f32_bits_less: "f32_bits x < 2 ^ 32"
  using enc_float_bound [of 23 8 x] by (simp add: f32_bits_def)

lemma f64_bits_less: "f64_bits x < 2 ^ 64"
  using enc_float_bound [of 52 11 x] by (simp add: f64_bits_def)

end
