(* ===== verification/Js_Text.thy ===== *)
theory Js_Text
  imports Js_Number
begin

text \<open>
  JavaScript strings and the conversions between them and numbers that the program calls:
  \<open>Number (s)\<close>, \<open>BigInt (s)\<close>, \<open>String (v)\<close> and \<open>trim\<close>, after ECMA-262. A string is a \<open>string\<close>, one
  character for each code unit below 256 (what the codec's byte-wise strings hold). The dynamic
  values that the API takes as \<open>unknown\<close> are \<open>js_val\<close>.
\<close>

datatype js_val =
    JUndef
  | JNull
  | JBool bool
  | JNumber jsnum
  | JBig int
  | JStr string
  | JArr "js_val list"

section \<open>Characters\<close>

definition char_code :: "char \<Rightarrow> nat" where
  "char_code c = of_char c"

definition is_digit :: "char \<Rightarrow> bool" where
  "is_digit c = (48 \<le> char_code c \<and> char_code c \<le> 57)"

definition is_space :: "char \<Rightarrow> bool" where
  "is_space c = (char_code c \<in> {9, 10, 11, 12, 13, 32, 160})"

definition str_trim :: "string \<Rightarrow> string" where
  "str_trim s = rev (dropWhile is_space (rev (dropWhile is_space s)))"

text \<open>The value of a digit in a radix up to 16, if it is one.\<close>

definition digit_val :: "nat \<Rightarrow> char \<Rightarrow> nat option" where
  "digit_val radix c =
     (let k = char_code c;
          v = (if 48 \<le> k \<and> k \<le> 57 then Some (k - 48)
               else if 97 \<le> k \<and> k \<le> 102 then Some (k - 87)
               else if 65 \<le> k \<and> k \<le> 70 then Some (k - 55) else None)
      in case v of Some d \<Rightarrow> if d < radix then Some d else None | None \<Rightarrow> None)"

text \<open>A non-empty string of digits and nothing else.\<close>

fun digits_acc :: "nat \<Rightarrow> nat \<Rightarrow> string \<Rightarrow> nat option" where
  "digits_acc radix acc [] = Some acc"
| "digits_acc radix acc (c # cs) =
     (case digit_val radix c of None \<Rightarrow> None | Some d \<Rightarrow> digits_acc radix (acc * radix + d) cs)"

definition parse_digits :: "nat \<Rightarrow> string \<Rightarrow> nat option" where
  "parse_digits radix s = (if s = [] then None else digits_acc radix 0 s)"

section \<open>Decimal representation of natural numbers\<close>

fun nat_to_string :: "nat \<Rightarrow> string" where
  "nat_to_string n =
     (if n < 10 then [char_of (48 + n)] else nat_to_string (n div 10) @ [char_of (48 + n mod 10)])"

declare nat_to_string.simps [simp del]

definition int_to_string :: "int \<Rightarrow> string" where
  "int_to_string i = (if i < 0 then ''-'' @ nat_to_string (nat (- i)) else nat_to_string (nat i))"

lemma char_code_of [simp]: "char_code (char_of n) = n mod 256"
  by (simp add: char_code_def)

lemma digit_val_decimal: "d < 10 \<Longrightarrow> digit_val 10 (char_of (48 + d)) = Some d"
  by (simp add: digit_val_def Let_def)

lemma digits_acc_append:
  "digits_acc r a (xs @ ys) = (case digits_acc r a xs of None \<Rightarrow> None | Some b \<Rightarrow> digits_acc r b ys)"
  by (induction xs arbitrary: a) (auto split: option.splits)

lemma nat_to_string_nonempty [simp]: "nat_to_string n \<noteq> []"
  by (subst nat_to_string.simps) simp

lemma digits_nat_to_string: "digits_acc 10 0 (nat_to_string n) = Some n"
proof (induction n rule: nat_to_string.induct)
  case (1 n)
  show ?case
  proof (cases "n < 10")
    case True
    then show ?thesis by (simp add: nat_to_string.simps [of n] digit_val_decimal)
  next
    case False
    with 1 have "digits_acc 10 0 (nat_to_string (n div 10)) = Some (n div 10)" by simp
    with False show ?thesis
      by (simp add: nat_to_string.simps [of n] digits_acc_append digit_val_decimal)
  qed
qed

lemma parse_nat_to_string: "parse_digits 10 (nat_to_string n) = Some n"
  by (simp add: parse_digits_def digits_nat_to_string)

lemma nat_to_string_inj: "nat_to_string m = nat_to_string n \<Longrightarrow> m = n"
  by (metis digits_nat_to_string option.inject)

section \<open>\<open>Number (s)\<close>\<close>

definition pow10 :: "int \<Rightarrow> rat" where
  "pow10 k = 10 powi k"

text \<open>\<open>StrUnsignedDecimalLiteral\<close>: digits, a fraction, an exponent; the exact value.\<close>

definition parse_exponent :: "string \<Rightarrow> int option" where
  "parse_exponent s =
     (case s of
        [] \<Rightarrow> Some 0
      | c # r \<Rightarrow>
          if c = CHR ''e'' \<or> c = CHR ''E'' then
            (case r of
               CHR ''-'' # ds \<Rightarrow> map_option (\<lambda>n. - int n) (parse_digits 10 ds)
             | CHR ''+'' # ds \<Rightarrow> map_option int (parse_digits 10 ds)
             | ds \<Rightarrow> map_option int (parse_digits 10 ds))
          else None)"

definition parse_udecimal :: "string \<Rightarrow> rat option" where
  "parse_udecimal s =
     (let ip = takeWhile is_digit s; r = dropWhile is_digit s;
          dot = (r \<noteq> [] \<and> hd r = CHR ''.'');
          fp = (if dot then takeWhile is_digit (tl r) else []);
          rest = (if dot then dropWhile is_digit (tl r) else r)
      in if ip = [] \<and> fp = [] then None
         else case (digits_acc 10 0 (ip @ fp), parse_exponent rest) of
           (Some m, Some e) \<Rightarrow> Some (of_nat m * pow10 (e - int (length fp)))
         | _ \<Rightarrow> None)"

definition parse_radix :: "string \<Rightarrow> nat option" where
  "parse_radix s =
     (case s of
        CHR ''0'' # c # ds \<Rightarrow>
          if c = CHR ''x'' \<or> c = CHR ''X'' then parse_digits 16 ds
          else if c = CHR ''o'' \<or> c = CHR ''O'' then parse_digits 8 ds
          else if c = CHR ''b'' \<or> c = CHR ''B'' then parse_digits 2 ds
          else None
      | _ \<Rightarrow> None)"

definition parse_unsigned :: "string \<Rightarrow> jsnum" where
  "parse_unsigned s =
     (if s = ''Infinity'' then PosInf
      else case parse_udecimal s of Some q \<Rightarrow> fl q | None \<Rightarrow> NaN)"

definition str_to_num :: "string \<Rightarrow> jsnum" where
  "str_to_num s =
     (let t = str_trim s
      in case t of
           [] \<Rightarrow> Num 0
         | CHR ''-'' # u \<Rightarrow> js_uminus (parse_unsigned u)
         | CHR ''+'' # u \<Rightarrow> parse_unsigned u
         | _ \<Rightarrow> (case parse_radix t of Some n \<Rightarrow> fl (of_nat n) | None \<Rightarrow> parse_unsigned t))"

section \<open>\<open>BigInt (s)\<close>\<close>

text \<open>\<open>None\<close> is the \<open>SyntaxError\<close>.\<close>

definition str_to_bigint :: "string \<Rightarrow> int option" where
  "str_to_bigint s =
     (let t = str_trim s
      in case t of
           [] \<Rightarrow> Some 0
         | CHR ''-'' # u \<Rightarrow> map_option (\<lambda>n. - int n) (parse_digits 10 u)
         | CHR ''+'' # u \<Rightarrow> map_option int (parse_digits 10 u)
         | _ \<Rightarrow> (case parse_radix t of Some n \<Rightarrow> Some (int n)
                 | None \<Rightarrow> map_option int (parse_digits 10 t)))"

section \<open>\<open>String (v)\<close>\<close>

text \<open>
  \<open>Number::toString\<close>: the fewest digits \<open>k\<close> and the closest digit string \<open>s\<close> for which
  \<open>s * 10 ^ (n - k)\<close> rounds to the number; 17 digits always do.
\<close>

definition floor_log10 :: "rat \<Rightarrow> int" where
  "floor_log10 q =
     (let (a, b) = quotient_of q;
          k = int (length (nat_to_string (nat a))) - int (length (nat_to_string (nat b)))
      in if pow10 k \<le> q then k else k - 1)"

fun shortest_from :: "rat \<Rightarrow> int \<Rightarrow> nat \<Rightarrow> nat \<Rightarrow> nat \<times> nat \<times> int" where
  "shortest_from q n k fuel =
     (let s = nat (round_half_even (q / pow10 (n - int k)));
          (s', n') = (if s = 10 ^ k then (10 ^ (k - 1), n + 1) else (s, n))
      in case fuel of
           0 \<Rightarrow> (s', k, n')
         | Suc f \<Rightarrow> if fl (of_nat s' * pow10 (n' - int k)) = Num q then (s', k, n')
                    else shortest_from q n (Suc k) f)"

declare shortest_from.simps [simp del]

definition pos_to_string :: "rat \<Rightarrow> string" where
  "pos_to_string q =
     (let (s, k, n) = shortest_from q (floor_log10 q + 1) 1 16;
          ds = nat_to_string s;
          e = n - 1;
          es = (if e < 0 then ''-'' else ''+'') @ nat_to_string (nat \<bar>e\<bar>)
      in if int k \<le> n \<and> n \<le> 21 then ds @ replicate (nat n - k) (CHR ''0'')
         else if 0 < n \<and> n \<le> 21 then take (nat n) ds @ ''.'' @ drop (nat n) ds
         else if - 6 < n \<and> n \<le> 0 then ''0.'' @ replicate (nat (- n)) (CHR ''0'') @ ds
         else if k = 1 then ds @ ''e'' @ es
         else take 1 ds @ ''.'' @ drop 1 ds @ ''e'' @ es)"

definition num_to_string :: "jsnum \<Rightarrow> string" where
  "num_to_string x =
     (case x of
        NaN \<Rightarrow> ''NaN'' | PosInf \<Rightarrow> ''Infinity'' | NegInf \<Rightarrow> ''-Infinity'' | NegZero \<Rightarrow> ''0''
      | Num q \<Rightarrow> (if q = 0 then ''0'' else if q < 0 then ''-'' @ pos_to_string (- q)
                  else pos_to_string q))"

fun str_join :: "string \<Rightarrow> string list \<Rightarrow> string" where
  "str_join sep [] = []"
| "str_join sep [s] = s"
| "str_join sep (s # t # ss) = s @ sep @ str_join sep (t # ss)"

fun js_to_string :: "js_val \<Rightarrow> string" where
  "js_to_string JUndef = ''undefined''"
| "js_to_string JNull = ''null''"
| "js_to_string (JBool b) = (if b then ''true'' else ''false'')"
| "js_to_string (JNumber x) = num_to_string x"
| "js_to_string (JBig i) = int_to_string i"
| "js_to_string (JStr s) = s"
| "js_to_string (JArr vs) =
     str_join '','' (map (\<lambda>v. case v of JUndef \<Rightarrow> '''' | JNull \<Rightarrow> '''' | _ \<Rightarrow> js_to_string v) vs)"

end
