(* ===== verification/Field_Codec.thy ===== *)
theory Field_Codec
  imports Js_Text
begin

text \<open>
  \<open>src/mavlink/codec/field-codec.ts\<close>: the layout of MAVLink payload fields. Buffers are byte lists;
  a \<open>DataView\<close> write replaces the bytes at its offset and throws a \<open>RangeError\<close> outside the
  buffer, as a read does. Thrown errors are \<open>Inl\<close> values. The theory ends with the round trip: a
  field packed from a canonical value is unpacked to that value.
\<close>

section \<open>Data\<close>

record field_meta =
  fm_name :: string
  fm_type :: string
  fm_arrayLen :: "nat option"

record message_meta =
  mm_id :: nat
  mm_name :: string
  mm_crcExtra :: nat
  mm_fields :: "field_meta list"
  mm_extensionIndex :: "nat option"

text \<open>\<open>FieldValue\<close>: what the decoder produces.\<close>

datatype field_value =
    FNum jsnum
  | FBig int
  | FArr "jsnum list"
  | FStr string

datatype codec_error =
    UnsupportedType string
  | ExpectedNumber string
  | ExpectedBigint string
  | Invalid64 string string
  | UnknownMessage string
  | JsRangeError
  | JsTypeError

datatype field_kind = U8 | I8 | U16 | I16 | U32 | I32 | U64 | I64 | F32 | F64 | CharK

definition TYPE_INFO :: "(string \<times> field_kind \<times> nat) list" where
  "TYPE_INFO =
     [(''uint8_t'', U8, 1), (''int8_t'', I8, 1), (''char'', CharK, 1),
      (''uint16_t'', U16, 2), (''int16_t'', I16, 2),
      (''uint32_t'', U32, 4), (''int32_t'', I32, 4), (''float'', F32, 4),
      (''uint64_t'', U64, 8), (''int64_t'', I64, 8), (''double'', F64, 8)]"

definition typeInfo :: "string \<Rightarrow> codec_error + field_kind \<times> nat" where
  "typeInfo t = (case map_of TYPE_INFO t of None \<Rightarrow> Inl (UnsupportedType t) | Some i \<Rightarrow> Inr i)"

definition isArray :: "field_meta \<Rightarrow> bool" where
  "isArray field = (case fm_arrayLen field of Some n \<Rightarrow> 0 < n | None \<Rightarrow> False)"

definition elementCount :: "field_meta \<Rightarrow> nat" where
  "elementCount field = (case fm_arrayLen field of Some n \<Rightarrow> if 0 < n then n else 1 | None \<Rightarrow> 1)"

definition fieldSize :: "field_meta \<Rightarrow> codec_error + nat" where
  "fieldSize field = res_bind (typeInfo (fm_type field)) (\<lambda>(kind, sz). Inr (sz * elementCount field))"

text \<open>Past the end of the field list the loop reads \<open>undefined.type\<close>, a \<open>TypeError\<close>.\<close>

primrec payloadLength :: "field_meta list \<Rightarrow> nat \<Rightarrow> codec_error + nat" where
  "payloadLength fs 0 = Inr 0"
| "payloadLength fs (Suc i) =
     res_bind (payloadLength fs i) (\<lambda>total.
       if i < length fs then res_bind (fieldSize (fs ! i)) (\<lambda>n. Inr (total + n))
       else Inl JsTypeError)"

definition fieldCount :: "message_meta \<Rightarrow> nat \<Rightarrow> nat" where
  "fieldCount meta version =
     (if version = 2 then length (mm_fields meta)
      else case mm_extensionIndex meta of None \<Rightarrow> length (mm_fields meta) | Some n \<Rightarrow> n)"

section \<open>Coercions\<close>

definition toNumber :: "js_val \<Rightarrow> field_meta \<Rightarrow> codec_error + jsnum" where
  "toNumber value field =
     (case value of
        JNumber x \<Rightarrow> Inr x
      | JBig b \<Rightarrow> Inr (js_of_bigint b)
      | JBool b \<Rightarrow> Inr (if b then Num 1 else Num 0)
      | JStr s \<Rightarrow>
          if s = ''NaN'' then Inr NaN
          else if s = ''Infinity'' then Inr PosInf
          else if s = ''-Infinity'' then Inr NegInf
          else let n = str_to_num s
               in if \<not> js_is_nan n \<or> str_trim s = ''NaN'' then Inr n
                  else Inl (ExpectedNumber (fm_name field))
      | _ \<Rightarrow> Inl (ExpectedNumber (fm_name field)))"

text \<open>\<open>BigInt (Math.trunc (x))\<close> throws a \<open>RangeError\<close> on NaN and the infinities.\<close>

definition toBigInt :: "js_val \<Rightarrow> field_meta \<Rightarrow> codec_error + int" where
  "toBigInt value field =
     (case value of
        JBig b \<Rightarrow> Inr b
      | JNumber x \<Rightarrow> (case js_val x of Some q \<Rightarrow> Inr (rat_trunc q) | None \<Rightarrow> Inl JsRangeError)
      | JStr s \<Rightarrow> (case str_to_bigint s of Some b \<Rightarrow> Inr b
                  | None \<Rightarrow> Inl (Invalid64 (fm_name field) s))
      | _ \<Rightarrow> Inl (ExpectedBigint (fm_name field)))"

section \<open>DataView accesses\<close>

text \<open>The bitwise operators on numbers: \<open>& m\<close>, \<open>>>> 0\<close>, \<open>| 0\<close>.\<close>

definition js_and :: "jsnum \<Rightarrow> int \<Rightarrow> jsnum" where
  "js_and x m = js_int (sint ((js_word x :: u32) AND word_of_int m))"

definition js_ushr0 :: "jsnum \<Rightarrow> jsnum" where
  "js_ushr0 x = js_int (uint (js_word x :: u32))"

definition js_or0 :: "jsnum \<Rightarrow> jsnum" where
  "js_or0 x = js_int (sint (js_word x :: u32))"

text \<open>\<open>setUintN\<close> and \<open>setIntN\<close> store the truncated number modulo \<open>2 ^ N\<close>.\<close>

definition int_bytes :: "nat \<Rightarrow> jsnum \<Rightarrow> bytes" where
  "int_bytes n x = le_bytes n (nat (js_trunc x mod 256 ^ n))"

definition signed :: "nat \<Rightarrow> nat \<Rightarrow> int" where
  "signed n v = (if 2 * v < 256 ^ n then int v else int v - 256 ^ n)"

definition put_bytes :: "bytes \<Rightarrow> nat \<Rightarrow> bytes \<Rightarrow> codec_error + bytes" where
  "put_bytes dv off bs =
     (if off + length bs \<le> length dv then Inr (take off dv @ bs @ drop (off + length bs) dv)
      else Inl JsRangeError)"

definition get_bytes :: "bytes \<Rightarrow> nat \<Rightarrow> nat \<Rightarrow> codec_error + bytes" where
  "get_bytes dv off n = (if off + n \<le> length dv then Inr (subarray off n dv) else Inl JsRangeError)"

section \<open>Scalars\<close>

definition scalar_bytes :: "field_kind \<Rightarrow> js_val \<Rightarrow> field_meta \<Rightarrow> codec_error + bytes" where
  "scalar_bytes kind value field =
     (case kind of
        U8 \<Rightarrow> res_bind (toNumber value field) (\<lambda>x. Inr (int_bytes 1 (js_and x 0xff)))
      | CharK \<Rightarrow> res_bind (toNumber value field) (\<lambda>x. Inr (int_bytes 1 (js_and x 0xff)))
      | I8 \<Rightarrow> res_bind (toNumber value field) (\<lambda>x. Inr (int_bytes 1 x))
      | U16 \<Rightarrow> res_bind (toNumber value field) (\<lambda>x. Inr (int_bytes 2 (js_and x 0xffff)))
      | I16 \<Rightarrow> res_bind (toNumber value field) (\<lambda>x. Inr (int_bytes 2 x))
      | U32 \<Rightarrow> res_bind (toNumber value field) (\<lambda>x. Inr (int_bytes 4 (js_ushr0 x)))
      | I32 \<Rightarrow> res_bind (toNumber value field) (\<lambda>x. Inr (int_bytes 4 (js_or0 x)))
      | F32 \<Rightarrow> res_bind (toNumber value field) (\<lambda>x. Inr (le_bytes 4 (f32_bits x)))
      | F64 \<Rightarrow> res_bind (toNumber value field) (\<lambda>x. Inr (le_bytes 8 (f64_bits x)))
      | U64 \<Rightarrow> res_bind (toBigInt value field) (\<lambda>b. Inr (le_bytes 8 (nat (b mod 2 ^ 64))))
      | I64 \<Rightarrow> res_bind (toBigInt value field) (\<lambda>b. Inr (le_bytes 8 (nat (b mod 2 ^ 64)))))"

definition writeScalar :: "bytes \<Rightarrow> nat \<Rightarrow> field_kind \<Rightarrow> js_val \<Rightarrow> field_meta \<Rightarrow> codec_error + bytes" where
  "writeScalar dv off kind value field = res_bind (scalar_bytes kind value field) (put_bytes dv off)"

definition scalar_of_bytes :: "field_kind \<Rightarrow> bytes \<Rightarrow> field_value" where
  "scalar_of_bytes kind bs =
     (case kind of
        U8 \<Rightarrow> FNum (js_nat (le_nat bs))
      | CharK \<Rightarrow> FNum (js_nat (le_nat bs))
      | I8 \<Rightarrow> FNum (js_int (signed 1 (le_nat bs)))
      | U16 \<Rightarrow> FNum (js_nat (le_nat bs))
      | I16 \<Rightarrow> FNum (js_int (signed 2 (le_nat bs)))
      | U32 \<Rightarrow> FNum (js_nat (le_nat bs))
      | I32 \<Rightarrow> FNum (js_int (signed 4 (le_nat bs)))
      | F32 \<Rightarrow> FNum (f32_of_bits (le_nat bs))
      | F64 \<Rightarrow> FNum (f64_of_bits (le_nat bs))
      | U64 \<Rightarrow> FBig (int (le_nat bs))
      | I64 \<Rightarrow> FBig (signed 8 (le_nat bs)))"

definition kind_size :: "field_kind \<Rightarrow> nat" where
  "kind_size kind =
     (case kind of U8 \<Rightarrow> 1 | I8 \<Rightarrow> 1 | CharK \<Rightarrow> 1 | U16 \<Rightarrow> 2 | I16 \<Rightarrow> 2
      | U32 \<Rightarrow> 4 | I32 \<Rightarrow> 4 | F32 \<Rightarrow> 4 | U64 \<Rightarrow> 8 | I64 \<Rightarrow> 8 | F64 \<Rightarrow> 8)"

definition readScalar :: "bytes \<Rightarrow> nat \<Rightarrow> field_kind \<Rightarrow> codec_error + field_value" where
  "readScalar dv off kind =
     res_bind (get_bytes dv off (kind_size kind)) (\<lambda>bs. Inr (scalar_of_bytes kind bs))"

section \<open>Fields\<close>

text \<open>
  The loops over the elements of an array field. \<open>charCodeAt (i) & 0xff\<close> of a character below
  256 is its code; a missing element is written as 0.
\<close>

definition char_bytes :: "string \<Rightarrow> nat \<Rightarrow> bytes" where
  "char_bytes text n =
     map (\<lambda>i. if i < length text then of_nat (char_code (text ! i)) else 0) [0..<n]"

fun packElems ::
  "bytes \<Rightarrow> nat \<Rightarrow> nat \<Rightarrow> field_kind \<Rightarrow> js_val list \<Rightarrow> nat \<Rightarrow> field_meta \<Rightarrow> codec_error + bytes" where
  "packElems dv off sz kind arr 0 field = Inr dv"
| "packElems dv off sz kind arr (Suc i) field =
     res_bind (packElems dv off sz kind arr i field) (\<lambda>dv.
       writeScalar dv (off + i * sz) kind (if i < length arr then arr ! i else JNumber (Num 0)) field)"

definition packField :: "bytes \<Rightarrow> nat \<Rightarrow> field_meta \<Rightarrow> js_val \<Rightarrow> codec_error + bytes \<times> nat" where
  "packField dv off field value =
     res_bind (typeInfo (fm_type field)) (\<lambda>(kind, sz).
       let count = elementCount field
       in if kind = CharK \<and> isArray field then
            let text = (if value = JUndef \<or> value = JNull then '''' else js_to_string value)
            in res_bind (put_bytes dv off (char_bytes text count)) (\<lambda>dv. Inr (dv, off + sz * count))
          else if isArray field then
            let arr = (case value of JArr vs \<Rightarrow> vs | _ \<Rightarrow> [])
            in res_bind (packElems dv off sz kind arr count field) (\<lambda>dv. Inr (dv, off + sz * count))
          else
            res_bind (writeScalar dv off kind (if value = JUndef then JNumber (Num 0) else value) field)
              (\<lambda>dv. Inr (dv, off + sz)))"

text \<open>A \<open>char\<close> field is a C string: the loop ends at the first NUL.\<close>

primrec c_string_at :: "bytes \<Rightarrow> nat \<Rightarrow> nat \<Rightarrow> codec_error + string" where
  "c_string_at dv off 0 = Inr []"
| "c_string_at dv off (Suc n) =
     (if off < length dv then
        if dv ! off = 0 then Inr []
        else res_bind (c_string_at dv (Suc off) n) (\<lambda>t. Inr (char_of (unat (dv ! off)) # t))
      else Inl JsRangeError)"

text \<open>Array elements of 64 bits are converted with \<open>Number (v)\<close>.\<close>

definition elem_number :: "field_value \<Rightarrow> jsnum" where
  "elem_number v = (case v of FBig b \<Rightarrow> js_of_bigint b | FNum x \<Rightarrow> x | _ \<Rightarrow> NaN)"

fun unpackElems :: "bytes \<Rightarrow> nat \<Rightarrow> nat \<Rightarrow> field_kind \<Rightarrow> nat \<Rightarrow> codec_error + jsnum list" where
  "unpackElems dv off sz kind 0 = Inr []"
| "unpackElems dv off sz kind (Suc i) =
     res_bind (unpackElems dv off sz kind i) (\<lambda>arr.
       res_bind (readScalar dv (off + i * sz) kind) (\<lambda>v. Inr (arr @ [elem_number v])))"

definition unpackField :: "bytes \<Rightarrow> nat \<Rightarrow> field_meta \<Rightarrow> codec_error + field_value \<times> nat" where
  "unpackField dv off field =
     res_bind (typeInfo (fm_type field)) (\<lambda>(kind, sz).
       let count = elementCount field
       in if kind = CharK then
            res_bind (c_string_at dv off count) (\<lambda>text. Inr (FStr text, off + sz * count))
          else if isArray field then
            res_bind (unpackElems dv off sz kind count) (\<lambda>arr. Inr (FArr arr, off + sz * count))
          else
            res_bind (readScalar dv off kind) (\<lambda>v. Inr (v, off + sz)))"

section \<open>The layout without the buffer\<close>

text \<open>
  What a field contributes to the payload, and what it reads from its own bytes. The buffer
  operations above are these functions at an offset.
\<close>

primrec elems_bytes :: "field_kind \<Rightarrow> js_val list \<Rightarrow> nat \<Rightarrow> field_meta \<Rightarrow> codec_error + bytes" where
  "elems_bytes kind arr 0 field = Inr []"
| "elems_bytes kind arr (Suc i) field =
     res_bind (elems_bytes kind arr i field) (\<lambda>bs.
       res_bind (scalar_bytes kind (if i < length arr then arr ! i else JNumber (Num 0)) field)
         (\<lambda>b. Inr (bs @ b)))"

definition field_bytes :: "field_meta \<Rightarrow> js_val \<Rightarrow> codec_error + bytes" where
  "field_bytes field value =
     res_bind (typeInfo (fm_type field)) (\<lambda>(kind, sz).
       if kind = CharK \<and> isArray field then
         Inr (char_bytes (if value = JUndef \<or> value = JNull then '''' else js_to_string value)
                (elementCount field))
       else if isArray field then
         elems_bytes kind (case value of JArr vs \<Rightarrow> vs | _ \<Rightarrow> []) (elementCount field) field
       else scalar_bytes kind (if value = JUndef then JNumber (Num 0) else value) field)"

fun c_string :: "bytes \<Rightarrow> string" where
  "c_string [] = []"
| "c_string (b # bs) = (if b = 0 then [] else char_of (unat b) # c_string bs)"

definition field_of_bytes :: "field_meta \<Rightarrow> bytes \<Rightarrow> field_value" where
  "field_of_bytes field bs =
     (case typeInfo (fm_type field) of
        Inr (kind, sz) \<Rightarrow>
          if kind = CharK then FStr (c_string bs)
          else if isArray field then
            FArr (map (\<lambda>i. elem_number (scalar_of_bytes kind (subarray (i * sz) sz bs)))
                   [0..<elementCount field])
          else scalar_of_bytes kind bs
      | Inl _ \<Rightarrow> FStr [])"

lemma typeInfo_size: "typeInfo t = Inr (kind, sz) \<Longrightarrow> sz = kind_size kind"
  by (auto simp: typeInfo_def TYPE_INFO_def kind_size_def split: if_splits option.splits)

lemma kind_size_pos [simp]: "0 < kind_size kind"
  by (cases kind) (simp_all add: kind_size_def)

lemma elementCount_pos [simp]: "0 < elementCount field"
  by (simp add: elementCount_def split: option.split)

lemma elementCount_scalar: "\<not> isArray field \<Longrightarrow> elementCount field = 1"
  by (auto simp: isArray_def elementCount_def split: option.splits)

lemma length_int_bytes [simp]: "length (int_bytes n x) = n"
  by (simp add: int_bytes_def)

lemma length_scalar_bytes: "scalar_bytes kind v field = Inr bs \<Longrightarrow> length bs = kind_size kind"
  by (cases kind) (auto simp: scalar_bytes_def kind_size_def res_bind_Inr_iff)

lemma length_elems_bytes: "elems_bytes kind arr n field = Inr bs \<Longrightarrow> length bs = n * kind_size kind"
  by (induction n arbitrary: bs) (auto simp: res_bind_Inr_iff dest!: length_scalar_bytes)

lemma length_char_bytes [simp]: "length (char_bytes text n) = n"
  by (simp add: char_bytes_def)

lemma fieldSize_eq:
  "typeInfo (fm_type field) = Inr (kind, sz) \<Longrightarrow> fieldSize field = Inr (sz * elementCount field)"
  by (simp add: fieldSize_def)

lemma length_field_bytes:
  "field_bytes field v = Inr bs \<Longrightarrow> fieldSize field = Inr (length bs)"
proof -
  assume f: "field_bytes field v = Inr bs"
  then obtain kind sz where t: "typeInfo (fm_type field) = Inr (kind, sz)"
    by (auto simp: field_bytes_def res_bind_Inr_iff)
  have sz: "sz = kind_size kind" using t by (rule typeInfo_size)
  from f t sz show ?thesis
    by (auto simp: field_bytes_def fieldSize_def elementCount_scalar kind_size_def mult.commute
        split: if_splits dest!: length_scalar_bytes length_elems_bytes)
qed

lemma put_bytes_Inr: "put_bytes dv off bs = Inr dv' \<Longrightarrow> length dv' = length dv"
  by (auto simp: put_bytes_def split: if_splits)

lemma put_bytes_append:
  "off + length xs + length ys \<le> length dv \<Longrightarrow>
   res_bind (put_bytes dv off xs) (\<lambda>dv. put_bytes dv (off + length xs) ys) = put_bytes dv off (xs @ ys)"
  by (simp add: put_bytes_def ac_simps)

lemma packElems_eq:
  assumes "sz = kind_size kind" "off + n * sz \<le> length dv"
  shows "packElems dv off sz kind arr n field = res_bind (elems_bytes kind arr n field) (put_bytes dv off)"
  using assms(2)
proof (induction n)
  case 0
  then show ?case by (simp add: put_bytes_def)
next
  case (Suc n)
  then have IH: "packElems dv off sz kind arr n field = res_bind (elems_bytes kind arr n field) (put_bytes dv off)"
    by simp
  show ?case
  proof (cases "elems_bytes kind arr n field")
    case (Inl e)
    then show ?thesis by (simp add: IH)
  next
    case (Inr bs)
    then have bs: "length bs = n * sz" using assms(1) length_elems_bytes by simp
    let ?v = "if n < length arr then arr ! n else JNumber (Num 0)"
    show ?thesis
    proof (cases "scalar_bytes kind ?v field")
      case Inl': (Inl e)
      have "off + length bs \<le> length dv" using Suc.prems bs by simp
      then have "\<exists>d. put_bytes dv off bs = Inr d" by (simp add: put_bytes_def)
      with Inl' Inr show ?thesis by (auto simp: IH writeScalar_def)
    next
      case Inr': (Inr b)
      then have "length b = sz" using assms(1) length_scalar_bytes by simp
      then have "res_bind (put_bytes dv off bs) (\<lambda>dv. put_bytes dv (off + n * sz) b) = put_bytes dv off (bs @ b)"
        using put_bytes_append [of off bs b dv] Suc.prems bs by simp
      with Inr Inr' show ?thesis by (simp add: IH writeScalar_def)
    qed
  qed
qed

lemma res_bind_assoc: "res_bind (res_bind r f) g = res_bind r (\<lambda>x. res_bind (f x) g)"
  by (cases r) simp_all

lemma packField_eq:
  assumes "fieldSize field = Inr n" "off + n \<le> length dv"
  shows "packField dv off field v =
    res_bind (field_bytes field v) (\<lambda>bs. res_bind (put_bytes dv off bs) (\<lambda>dv. Inr (dv, off + n)))"
proof -
  obtain kind sz where t: "typeInfo (fm_type field) = Inr (kind, sz)"
    using assms(1) by (auto simp: fieldSize_def res_bind_Inr_iff)
  have n: "n = sz * elementCount field" using assms(1) t by (simp add: fieldSize_eq)
  have sz: "sz = kind_size kind" using t by (rule typeInfo_size)
  show ?thesis
    using assms(2) n sz
    by (simp add: packField_def field_bytes_def t Let_def packElems_eq mult.commute res_bind_assoc
        writeScalar_def elementCount_scalar)
qed

lemma readScalar_eq:
  "off + kind_size kind \<le> length dv \<Longrightarrow>
   readScalar dv off kind = Inr (scalar_of_bytes kind (subarray off (kind_size kind) dv))"
  by (simp add: readScalar_def get_bytes_def)

lemma unpackElems_eq:
  "sz = kind_size kind \<Longrightarrow> off + n * sz \<le> length dv \<Longrightarrow>
   unpackElems dv off sz kind n =
     Inr (map (\<lambda>i. elem_number (scalar_of_bytes kind (subarray (off + i * sz) sz dv))) [0..<n])"
  by (induction n) (simp_all add: readScalar_eq)

lemma subarray_Suc: "off < length dv \<Longrightarrow> subarray off (Suc n) dv = dv ! off # subarray (Suc off) n dv"
  by (simp add: subarray_def Cons_nth_drop_Suc [symmetric] del: Cons_nth_drop_Suc)

lemma c_string_at_eq:
  "off + n \<le> length dv \<Longrightarrow> c_string_at dv off n = Inr (c_string (subarray off n dv))"
proof (induction n arbitrary: off)
  case 0
  then show ?case by (simp add: subarray_def)
next
  case (Suc n)
  then show ?case by (simp add: subarray_Suc)
qed

lemma subarray_subarray: "i + n \<le> m \<Longrightarrow> subarray i n (subarray off m dv) = subarray (off + i) n dv"
  by (simp add: subarray_def drop_take min_def add.commute)

lemma unpackField_eq:
  assumes "fieldSize field = Inr n" "off + n \<le> length dv"
  shows "unpackField dv off field = Inr (field_of_bytes field (subarray off n dv), off + n)"
proof -
  obtain kind sz where t: "typeInfo (fm_type field) = Inr (kind, sz)"
    using assms(1) by (auto simp: fieldSize_def res_bind_Inr_iff)
  have n: "n = sz * elementCount field" using assms(1) t by (simp add: fieldSize_eq)
  have sz: "sz = kind_size kind" using t by (rule typeInfo_size)
  have in_n: "i * sz + sz \<le> n" if "i < elementCount field" for i
    using mult_le_mono1 [OF Suc_leI [OF that], of sz] by (simp add: n mult.commute)
  consider "kind = CharK" | "kind \<noteq> CharK" "isArray field" | "kind \<noteq> CharK" "\<not> isArray field" by blast
  then show ?thesis
  proof cases
    case 1
    then have "sz = 1" using sz by (simp add: kind_size_def)
    with 1 t n assms(2) show ?thesis
      by (simp add: unpackField_def field_of_bytes_def c_string_at_eq Let_def)
  next
    case 2
    then show ?thesis
      using t n sz assms(2) in_n
      by (simp add: unpackField_def field_of_bytes_def unpackElems_eq subarray_subarray mult.commute Let_def)
  next
    case 3
    then show ?thesis
      using t n sz assms(2)
      by (simp add: unpackField_def field_of_bytes_def readScalar_eq elementCount_scalar)
  qed
qed

section \<open>Round trip\<close>

text \<open>
  The canonical values of a field, the ones a decoder produces: an integer in the range of its
  type, a number its floating-point width represents exactly, a text without NUL that fits, and an
  array of as many elements as the field declares. \<open>embed\<close> is the input value a caller passes for
  a decoded one.
\<close>

definition int_in :: "int \<Rightarrow> int \<Rightarrow> jsnum \<Rightarrow> bool" where
  "int_in lo hi x = (case x of Num q \<Rightarrow> of_int \<lfloor>q\<rfloor> = q \<and> lo \<le> \<lfloor>q\<rfloor> \<and> \<lfloor>q\<rfloor> < hi | _ \<Rightarrow> False)"

definition num_ok :: "field_kind \<Rightarrow> jsnum \<Rightarrow> bool" where
  "num_ok kind x =
     (case kind of
        U8 \<Rightarrow> int_in 0 (2 ^ 8) x | CharK \<Rightarrow> int_in 0 (2 ^ 8) x | I8 \<Rightarrow> int_in (- (2 ^ 7)) (2 ^ 7) x
      | U16 \<Rightarrow> int_in 0 (2 ^ 16) x | I16 \<Rightarrow> int_in (- (2 ^ 15)) (2 ^ 15) x
      | U32 \<Rightarrow> int_in 0 (2 ^ 32) x | I32 \<Rightarrow> int_in (- (2 ^ 31)) (2 ^ 31) x
      | F32 \<Rightarrow> f32_of_bits (f32_bits x) = x | F64 \<Rightarrow> f64_of_bits (f64_bits x) = x
      | U64 \<Rightarrow> int_in 0 (2 ^ 64) x \<and> js_of_bigint (js_trunc x) = x
      | I64 \<Rightarrow> int_in (- (2 ^ 63)) (2 ^ 63) x \<and> js_of_bigint (js_trunc x) = x)"

definition scalar_ok :: "field_kind \<Rightarrow> field_value \<Rightarrow> bool" where
  "scalar_ok kind v =
     (case v of
        FNum x \<Rightarrow> kind \<notin> {U64, I64, CharK} \<and> num_ok kind x
      | FBig b \<Rightarrow> (kind = U64 \<and> 0 \<le> b \<and> b < 2 ^ 64) \<or> (kind = I64 \<and> - (2 ^ 63) \<le> b \<and> b < 2 ^ 63)
      | _ \<Rightarrow> False)"

definition field_ok :: "field_meta \<Rightarrow> field_value \<Rightarrow> bool" where
  "field_ok field v =
     (case typeInfo (fm_type field) of
        Inl _ \<Rightarrow> False
      | Inr (kind, _) \<Rightarrow>
          if isArray field then
            (case v of
               FStr s \<Rightarrow> kind = CharK \<and> length s \<le> elementCount field \<and> list_all (\<lambda>c. char_code c \<noteq> 0) s
             | FArr xs \<Rightarrow> kind \<noteq> CharK \<and> length xs = elementCount field \<and> list_all (num_ok kind) xs
             | _ \<Rightarrow> False)
          else scalar_ok kind v)"

fun embed :: "field_value \<Rightarrow> js_val" where
  "embed (FNum x) = JNumber x"
| "embed (FBig b) = JBig b"
| "embed (FArr xs) = JArr (map JNumber xs)"
| "embed (FStr s) = JStr s"

subsection \<open>Integers\<close>

lemma int_in_Num: "int_in lo hi x \<Longrightarrow> \<exists>i. x = js_int i \<and> lo \<le> i \<and> i < hi"
  by (auto simp: int_in_def js_int_def split: jsnum.splits intro!: exI [where x = "\<lfloor>q\<rfloor>" for q])

lemma int_in_js_int [simp]: "int_in lo hi (js_int i) = (lo \<le> i \<and> i < hi)"
  by (simp add: int_in_def js_int_def)

lemma js_trunc_int [simp]: "js_trunc (js_int i) = i"
  by (simp add: js_trunc_def js_int_def rat_trunc_def)

lemma js_word_int [simp]: "js_word (js_int i) = word_of_int i"
  by (simp add: js_word_def)

lemma mod_of_take_bit: "take_bit n (a :: int) mod 2 ^ n = a mod 2 ^ n"
  by (simp add: take_bit_eq_mod)

text \<open>Masking to at least \<open>n\<close> bits does not change the low \<open>n\<close> bits.\<close>

lemma sint_mod: "sint (w :: u32) mod 2 ^ n = uint w mod 2 ^ n" if "n \<le> 32"
proof -
  have "take_bit n (sint w) = take_bit n (uint w)"
    using that by (intro bit_eqI) (auto simp: bit_take_bit_iff bit_sint_iff bit_uint_iff)
  then show ?thesis by (simp add: take_bit_eq_mod)
qed

lemma uint_word_of_int_mod: "n \<le> 32 \<Longrightarrow> uint (word_of_int i :: u32) mod 2 ^ n = i mod 2 ^ n"
proof -
  assume "n \<le> 32"
  then have "take_bit n (uint (word_of_int i :: u32)) = take_bit n i"
    by (simp add: unsigned_of_int)
  then show ?thesis by (simp add: take_bit_eq_mod)
qed

lemma js_and_mod:
  assumes "n \<le> 32" "m = 2 ^ n - 1"
  shows "js_trunc (js_and x m) mod 2 ^ n = js_trunc x mod 2 ^ n"
proof -
  have m: "word_of_int m = (mask n :: u32)"
    using assms(2) by (simp add: mask_eq_exp_minus_1)
  have "js_trunc (js_and x m) mod 2 ^ n = sint ((js_word x :: u32) AND mask n) mod 2 ^ n"
    by (simp add: js_and_def m)
  also have "\<dots> = uint (take_bit n (js_word x :: u32)) mod 2 ^ n"
    using assms(1) by (simp add: sint_mod take_bit_eq_mask)
  also have "\<dots> = uint (js_word x :: u32) mod 2 ^ n"
    by (simp only: unsigned_take_bit_eq) (simp add: take_bit_eq_mod)
  also have "\<dots> = js_trunc x mod 2 ^ n"
    using assms(1) by (simp add: js_word_def uint_word_of_int_mod)
  finally show ?thesis .
qed

lemma int_bytes_and: "n \<le> 4 \<Longrightarrow> m = 2 ^ (8 * n) - 1 \<Longrightarrow> int_bytes n (js_and x m) = int_bytes n x"
  using js_and_mod [of "8 * n" m x] by (simp add: int_bytes_def power_mult)

lemma int_bytes_ushr0: "int_bytes 4 (js_ushr0 x) = int_bytes 4 x"
  using uint_word_of_int_mod [of 32 "js_trunc x"]
  by (simp add: int_bytes_def js_ushr0_def js_word_def)

lemma int_bytes_or0: "int_bytes 4 (js_or0 x) = int_bytes 4 x"
  using uint_word_of_int_mod [of 32 "js_trunc x"] sint_mod [of 32 "js_word x"]
  by (simp add: int_bytes_def js_or0_def js_word_def)

lemma int_bytes_255 [simp]: "int_bytes (Suc 0) (js_and x 255) = int_bytes (Suc 0) x"
  by (rule int_bytes_and) simp_all

lemma int_bytes_65535 [simp]: "int_bytes 2 (js_and x 65535) = int_bytes 2 x"
  by (rule int_bytes_and) simp_all

lemmas int_bytes_simps = int_bytes_ushr0 int_bytes_or0

lemma le_nat_int_bytes: "le_nat (int_bytes n x) = nat (js_trunc x mod 256 ^ n)"
proof -
  have "nat (js_trunc x mod 256 ^ n) < 256 ^ n"
    by (simp add: nat_less_iff)
  then show ?thesis by (simp add: int_bytes_def le_nat_le_bytes)
qed

lemma unsigned_read: "0 \<le> i \<Longrightarrow> i < 256 ^ n \<Longrightarrow> js_nat (le_nat (int_bytes n (js_int i))) = js_int i"
  by (simp add: le_nat_int_bytes) (simp add: js_nat_def js_int_def)

lemma signed_nat_mod:
  assumes "- (256 ^ n) \<le> 2 * i" "2 * i < 256 ^ n"
  shows "signed n (nat (i mod 256 ^ n)) = i"
proof (cases "0 \<le> i")
  case True
  then have "i mod 256 ^ n = i" using assms by simp
  then show ?thesis using True assms by (simp add: signed_def flip: of_nat_less_iff [where ?'a = int])
next
  case False
  have "i mod 256 ^ n = i + 256 ^ n"
  proof -
    have "(i + 256 ^ n) mod 256 ^ n = i + 256 ^ n" using False assms by (intro mod_pos_pos_trivial) auto
    then show ?thesis by simp
  qed
  then show ?thesis using False assms by (simp add: signed_def flip: of_nat_less_iff [where ?'a = int])
qed

lemma signed_read:
  "- (256 ^ n) \<le> 2 * i \<Longrightarrow> 2 * i < 256 ^ n \<Longrightarrow> js_int (signed n (le_nat (int_bytes n (js_int i)))) = js_int i"
  by (simp add: le_nat_int_bytes signed_nat_mod)

subsection \<open>Scalars and fields\<close>

lemma toNumber_number [simp]: "toNumber (JNumber x) field = Inr x"
  by (simp add: toNumber_def)

lemma f32_read: "f32_of_bits (f32_bits x) = x \<Longrightarrow> f32_of_bits (le_nat (le_bytes 4 (f32_bits x))) = x"
  using f32_bits_less [of x] by (simp add: le_nat_le_bytes)

lemma f64_read: "f64_of_bits (f64_bits x) = x \<Longrightarrow> f64_of_bits (le_nat (le_bytes 8 (f64_bits x))) = x"
  using f64_bits_less [of x] by (simp add: le_nat_le_bytes)

lemma big_read:
  "0 \<le> b \<Longrightarrow> b < 2 ^ 64 \<Longrightarrow> int (le_nat (le_bytes 8 (nat (b mod 2 ^ 64)))) = b"
  by (simp add: le_nat_le_bytes nat_less_iff)

lemma signed_big_read:
  assumes "- (2 ^ 63) \<le> b" "b < 2 ^ 63"
  shows "signed 8 (le_nat (le_bytes 8 (nat (b mod 2 ^ 64)))) = b"
proof -
  have "nat (b mod 2 ^ 64) < 256 ^ 8" by (simp add: nat_less_iff)
  then have "le_nat (le_bytes 8 (nat (b mod 2 ^ 64))) = nat (b mod 256 ^ 8)"
    by (simp add: le_nat_le_bytes)
  then show ?thesis using assms signed_nat_mod [of 8 b] by simp
qed

lemma js_val_js_int [simp]: "js_val (js_int i) = Some (of_int i)"
  by (simp add: js_int_def)

lemma rat_trunc_of_int [simp]: "rat_trunc (of_int i) = i"
  by (simp add: rat_trunc_def)

text \<open>Every numeric kind reads back the number it wrote.\<close>

lemma int_kind_round_trip:
  assumes "num_ok kind x" "kind \<in> {U8, I8, U16, I16, U32, I32}"
  shows "\<exists>bs. scalar_bytes kind (JNumber x) field = Inr bs \<and> scalar_of_bytes kind bs = FNum x"
proof -
  from assms obtain i where x: "x = js_int i" by (auto simp: num_ok_def dest!: int_in_Num)
  from assms show ?thesis
    unfolding x
    by (auto simp: num_ok_def scalar_bytes_def scalar_of_bytes_def int_bytes_simps
        intro!: unsigned_read signed_read)
qed

lemma float_kind_round_trip:
  assumes "num_ok kind x" "kind \<in> {F32, F64}"
  shows "\<exists>bs. scalar_bytes kind (JNumber x) field = Inr bs \<and> scalar_of_bytes kind bs = FNum x"
  using assms by (auto simp: num_ok_def scalar_bytes_def scalar_of_bytes_def f32_read f64_read)

lemma big_kind_round_trip:
  assumes "scalar_ok kind (FBig b)"
  shows "\<exists>bs. scalar_bytes kind (JBig b) field = Inr bs \<and> scalar_of_bytes kind bs = FBig b"
  using assms big_read [of b] signed_big_read [of b]
  by (auto simp: scalar_ok_def scalar_bytes_def scalar_of_bytes_def toBigInt_def)

lemma big_elem_round_trip:
  assumes "num_ok kind x" "kind \<in> {U64, I64}"
  shows "\<exists>bs. scalar_bytes kind (JNumber x) field = Inr bs \<and> elem_number (scalar_of_bytes kind bs) = x"
proof -
  from assms obtain i where x: "x = js_int i" by (auto simp: num_ok_def dest!: int_in_Num)
  with assms have "scalar_ok kind (FBig i)" and "js_of_bigint i = x"
    by (auto simp: num_ok_def scalar_ok_def)
  then show ?thesis
    using big_kind_round_trip [of kind i field]
    by (auto simp: x scalar_bytes_def toBigInt_def elem_number_def scalar_ok_def split: field_kind.splits)
qed

lemma elem_round_trip:
  assumes "num_ok kind x" "kind \<noteq> CharK"
  shows "\<exists>bs. scalar_bytes kind (JNumber x) field = Inr bs \<and> elem_number (scalar_of_bytes kind bs) = x"
proof -
  consider "kind \<in> {U8, I8, U16, I16, U32, I32}" | "kind \<in> {F32, F64}" | "kind \<in> {U64, I64}"
    using assms(2) by (cases kind) auto
  then show ?thesis
    using assms int_kind_round_trip float_kind_round_trip big_elem_round_trip
    by cases (fastforce simp: elem_number_def)+
qed

lemma scalar_round_trip:
  assumes "scalar_ok kind v"
  shows "\<exists>bs. scalar_bytes kind (embed v) field = Inr bs \<and> scalar_of_bytes kind bs = v"
proof (cases v)
  case (FNum x)
  with assms have "num_ok kind x" "kind \<in> {U8, I8, U16, I16, U32, I32} \<or> kind \<in> {F32, F64}"
    by (auto simp: scalar_ok_def) (cases kind; simp)
  then show ?thesis
    using int_kind_round_trip float_kind_round_trip FNum by fastforce
next
  case (FBig b)
  with assms show ?thesis using big_kind_round_trip by fastforce
qed (use assms in \<open>auto simp: scalar_ok_def\<close>)

lemma elems_round_trip:
  assumes "list_all (num_ok kind) xs" "kind \<noteq> CharK" "n \<le> length xs"
  shows "\<exists>bs. elems_bytes kind (map JNumber xs) n field = Inr bs \<and>
    map (\<lambda>i. elem_number (scalar_of_bytes kind (subarray (i * kind_size kind) (kind_size kind) bs))) [0..<n] = take n xs"
  using assms(3)
proof (induction n)
  case 0
  then show ?case by simp
next
  case (Suc n)
  then obtain bs where bs: "elems_bytes kind (map JNumber xs) n field = Inr bs"
    and IH: "map (\<lambda>i. elem_number (scalar_of_bytes kind (subarray (i * kind_size kind) (kind_size kind) bs))) [0..<n] = take n xs"
    by auto
  have "num_ok kind (xs ! n)" using assms(1) Suc.prems by (simp add: list_all_length)
  then obtain b where b: "scalar_bytes kind (JNumber (xs ! n)) field = Inr b"
    and read: "elem_number (scalar_of_bytes kind b) = xs ! n"
    using elem_round_trip assms(2) by blast
  have len: "length bs = n * kind_size kind" "length b = kind_size kind"
    using bs b length_elems_bytes length_scalar_bytes by blast+
  have "i * kind_size kind + kind_size kind \<le> length bs" if "i < n" for i
    using mult_le_mono1 [OF Suc_leI [OF that], of "kind_size kind"] by (simp add: len)
  then have "map (\<lambda>i. elem_number (scalar_of_bytes kind (subarray (i * kind_size kind) (kind_size kind) (bs @ b)))) [0..<n] = take n xs"
    unfolding IH [symmetric] by (intro map_cong) auto
  then show ?case
    using bs b read len Suc.prems by (simp add: take_Suc_conv_app_nth)
qed

lemma c_string_chars:
  assumes "list_all (\<lambda>c. char_code c \<noteq> 0) s"
  shows "c_string (map (\<lambda>c. of_nat (char_code c)) s @ replicate k 0) = s"
  using assms
proof (induction s)
  case Nil
  then show ?case by (cases k) simp_all
next
  case (Cons c s)
  have code: "char_code c < 256" by (simp add: char_code_def)
  then have u: "unat (of_nat (char_code c) :: u8) = char_code c"
    by (simp add: unat_of_nat take_bit_eq_mod)
  then have "(of_nat (char_code c) :: u8) \<noteq> 0"
    using Cons.prems by auto
  with Cons u show ?case by (simp add: char_code_def)
qed

lemma char_bytes_split:
  "length s \<le> n \<Longrightarrow> char_bytes s n = map (\<lambda>c. of_nat (char_code c)) s @ replicate (n - length s) 0"
  by (rule nth_equalityI) (auto simp: char_bytes_def nth_append)

lemma field_bytes_round_trip:
  assumes "field_ok field v"
  shows "\<exists>bs. field_bytes field (embed v) = Inr bs \<and> field_of_bytes field bs = v"
proof -
  obtain kind sz where t: "typeInfo (fm_type field) = Inr (kind, sz)"
    using assms by (cases "typeInfo (fm_type field)") (auto simp: field_ok_def)
  have sz: "sz = kind_size kind" using t by (rule typeInfo_size)
  show ?thesis
  proof (cases "isArray field")
    case False
    then have s: "scalar_ok kind v" using assms t by (simp add: field_ok_def)
    then have "kind \<noteq> CharK" by (auto simp: scalar_ok_def split: field_value.splits)
    moreover have "embed v \<noteq> JUndef" by (cases v) simp_all
    ultimately show ?thesis
      using scalar_round_trip [OF s, of field] False t by (auto simp: field_bytes_def field_of_bytes_def)
  next
    case True
    note arr = True
    show ?thesis
    proof (cases v)
      case (FStr s)
      with assms arr t have "kind = CharK" "length s \<le> elementCount field" "list_all (\<lambda>c. char_code c \<noteq> 0) s"
        by (simp_all add: field_ok_def)
      then show ?thesis
        using FStr arr t by (simp add: field_bytes_def field_of_bytes_def char_bytes_split c_string_chars)
    next
      case (FArr xs)
      with assms arr t have "kind \<noteq> CharK" "length xs = elementCount field" "list_all (num_ok kind) xs"
        by (simp_all add: field_ok_def)
      then show ?thesis
        using FArr arr t sz elems_round_trip [of kind xs "elementCount field" field]
        by (auto simp: field_bytes_def field_of_bytes_def)
    qed (use assms arr t in \<open>auto simp: field_ok_def\<close>)
  qed
qed

end
