(* ===== verification/Fips_Sha.thy ===== *)
theory Fips_Sha
  imports Prelude Complex_Main
begin

text \<open>
  SHA-256 as FIPS 180-4 states it, to compare \<open>src/mavlink/codec/sha256.ts\<close> with. Nothing here is taken from the code: the
  constants are what section 4.2.2 and section 5.3.3 say of them (the first thirty-two bits of the fractional parts of the cube
  roots of the first sixty-four primes, and of the square roots of the first eight), the hash value is a list of words, and the
  big-endian reading and writing of words are written with powers of 256.
\<close>

section \<open>Constants\<close>

definition fips_primes :: "nat list" where
  "fips_primes = filter (\<lambda>n. list_all (\<lambda>d. n mod d \<noteq> 0) [2..<n]) [2..<312]"

definition fips_fraction :: "nat \<Rightarrow> nat \<Rightarrow> u32" where
  "fips_fraction k p = of_int \<lfloor>2 ^ 32 * frac (root k (real p))\<rfloor>"

definition fips_K :: "nat \<Rightarrow> u32" where
  "fips_K t = fips_fraction 3 (fips_primes ! t)"

definition fips_H0 :: "u32 list" where
  "fips_H0 = map (fips_fraction 2) (take 8 fips_primes)"

section \<open>Functions\<close>

definition fips_Ch :: "u32 \<Rightarrow> u32 \<Rightarrow> u32 \<Rightarrow> u32" where
  "fips_Ch x y z = (x AND y) XOR (NOT x AND z)"

definition fips_Maj :: "u32 \<Rightarrow> u32 \<Rightarrow> u32 \<Rightarrow> u32" where
  "fips_Maj x y z = (x AND y) XOR (x AND z) XOR (y AND z)"

definition fips_Sigma0 :: "u32 \<Rightarrow> u32" where
  "fips_Sigma0 x = word_rotr 2 x XOR word_rotr 13 x XOR word_rotr 22 x"

definition fips_Sigma1 :: "u32 \<Rightarrow> u32" where
  "fips_Sigma1 x = word_rotr 6 x XOR word_rotr 11 x XOR word_rotr 25 x"

definition fips_sigma0 :: "u32 \<Rightarrow> u32" where
  "fips_sigma0 x = word_rotr 7 x XOR word_rotr 18 x XOR drop_bit 3 x"

definition fips_sigma1 :: "u32 \<Rightarrow> u32" where
  "fips_sigma1 x = word_rotr 17 x XOR word_rotr 19 x XOR drop_bit 10 x"

section \<open>Padding and parsing\<close>

text \<open>The most significant byte first.\<close>

definition fips_octets :: "nat \<Rightarrow> nat \<Rightarrow> bytes" where
  "fips_octets n v = map (\<lambda>j. of_nat (v div 256 ^ (n - 1 - j) mod 256)) [0..<n]"

text \<open>
  Padding: the bit 1, the least number of zero bits that makes the length 448 modulo 512, and
  the message length as a 64-bit big-endian number; in bytes, the zeros fill up to 56 modulo 64.
\<close>

definition fips_pad :: "bytes \<Rightarrow> bytes" where
  "fips_pad M = M @ [0x80] @ replicate (nat ((55 - int (length M)) mod 64)) 0 @ fips_octets 8 (8 * length M)"

text \<open>The word \<open>t\<close> of the block \<open>i\<close> of a padded message.\<close>

definition fips_M :: "bytes \<Rightarrow> nat \<Rightarrow> nat \<Rightarrow> u32" where
  "fips_M P i t = (\<Sum>j<4. of_nat (unat (P ! (64 * i + 4 * t + j)) * 256 ^ (3 - j)))"

section \<open>Hash computation\<close>

text \<open>The message schedule, by recursion on the word index.\<close>

fun fips_W :: "bytes \<Rightarrow> nat \<Rightarrow> nat \<Rightarrow> u32" where
  "fips_W P i t =
     (if t < 16 then fips_M P i t
      else fips_sigma1 (fips_W P i (t - 2)) + fips_W P i (t - 7) + fips_sigma0 (fips_W P i (t - 15)) + fips_W P i (t - 16))"

declare fips_W.simps [simp del]

text \<open>The eight working variables a to h are the positions 0 to 7.\<close>

primrec fips_rounds :: "bytes \<Rightarrow> nat \<Rightarrow> u32 list \<Rightarrow> nat \<Rightarrow> u32 list" where
  "fips_rounds P i H 0 = H"
| "fips_rounds P i H (Suc t) =
     (let v = fips_rounds P i H t;
          T1 = v ! 7 + fips_Sigma1 (v ! 4) + fips_Ch (v ! 4) (v ! 5) (v ! 6) + fips_K t + fips_W P i t;
          T2 = fips_Sigma0 (v ! 0) + fips_Maj (v ! 0) (v ! 1) (v ! 2)
      in [T1 + T2, v ! 0, v ! 1, v ! 2, v ! 3 + T1, v ! 4, v ! 5, v ! 6])"

primrec fips_hash :: "bytes \<Rightarrow> nat \<Rightarrow> u32 list" where
  "fips_hash P 0 = fips_H0"
| "fips_hash P (Suc i) = map2 (\<lambda>x y. x + y) (fips_rounds P i (fips_hash P i) 64) (fips_hash P i)"

definition fips_sha256 :: "bytes \<Rightarrow> bytes" where
  "fips_sha256 M = concat (map (\<lambda>w. fips_octets 4 (unat w)) (fips_hash (fips_pad M) (length (fips_pad M) div 64)))"

section \<open>The constants in digits\<close>

text \<open>A word is the fraction of the root when it is the low half of the integer root of the scaled number.\<close>

definition is_fraction :: "nat \<Rightarrow> nat \<Rightarrow> nat \<Rightarrow> bool" where
  "is_fraction k p w = list_ex (\<lambda>n. let r = 2 ^ 32 * n + w in r ^ k \<le> p * 2 ^ (32 * k) \<and> p * 2 ^ (32 * k) < (r + 1) ^ k) [1, 2, 3, 4, 5, 6]"

lemma floor_root:
  assumes "0 < k" "r ^ k \<le> p * 2 ^ (32 * k)" "p * 2 ^ (32 * k) < (r + 1) ^ k"
  shows "\<lfloor>2 ^ 32 * root k (real p)\<rfloor> = int r"
proof -
  have scaled: "2 ^ 32 * root k (real p) = root k (real (p * 2 ^ (32 * k)))"
    using assms(1) by (simp add: real_root_mult power_mult real_root_power_cancel)
  have "real r = root k (real (r ^ k))" "real (r + 1) = root k (real ((r + 1) ^ k))"
    using assms(1) by (simp_all add: real_root_power_cancel)
  then have "real r \<le> 2 ^ 32 * root k (real p)" "2 ^ 32 * root k (real p) < real (r + 1)"
    unfolding scaled using assms real_root_le_mono [of k] real_root_less_mono [of k] by (metis of_nat_le_iff, metis of_nat_less_iff)
  then show ?thesis by (intro floor_unique) simp_all
qed

lemma two_32 [simp]: "(4294967296 :: u32) = 0"
  by (simp add: word_eq_iff_unsigned flip: word_unat_eq_iff)

lemma of_int_scaled_frac: "(of_int \<lfloor>2 ^ 32 * frac x\<rfloor> :: u32) = of_int \<lfloor>2 ^ 32 * x\<rfloor>" for x :: real
proof -
  have "2 ^ 32 * frac x = 2 ^ 32 * x - of_int (2 ^ 32 * \<lfloor>x\<rfloor>)" by (simp add: frac_def algebra_simps)
  then have "\<lfloor>2 ^ 32 * frac x\<rfloor> = \<lfloor>2 ^ 32 * x\<rfloor> - 2 ^ 32 * \<lfloor>x\<rfloor>" by (simp only: floor_diff_of_int)
  moreover have "(of_int (2 ^ 32 * z) :: u32) = 0" for z by simp
  ultimately show ?thesis by (simp del: of_int_mult)
qed

lemma fips_fraction_digits:
  assumes "0 < k" "is_fraction k p w"
  shows "fips_fraction k p = of_nat w"
proof -
  obtain n where "(2 ^ 32 * n + w) ^ k \<le> p * 2 ^ (32 * k)" "p * 2 ^ (32 * k) < (2 ^ 32 * n + w + 1) ^ k"
    using assms(2) unfolding is_fraction_def list_ex_iff Let_def by blast
  from floor_root [OF assms(1) this] have "fips_fraction k p = of_int (int (2 ^ 32 * n + w))"
    by (simp only: fips_fraction_def of_int_scaled_frac)
  then show ?thesis by simp
qed

lemma small_prime:
  assumes "n < 324"
  shows "list_all (\<lambda>d. n mod d \<noteq> 0) [2..<n] \<longleftrightarrow> list_all (\<lambda>d. n mod d \<noteq> 0 \<or> n \<le> d) [2..<18]"
  unfolding list_all_iff set_upt
proof
  assume r: "\<forall>d\<in>{2..<18}. n mod d \<noteq> 0 \<or> n \<le> d"
  have small: "\<not> d dvd n" if "2 \<le> d" "d < n" "d < 18" for d
    using that r [rule_format, of d] by auto
  have "\<not> d dvd n" if d: "2 \<le> d" "d < n" for d
  proof
    assume "d dvd n"
    then obtain e where e: "n = d * e" by blast
    have "2 \<le> e" "e < n" using d unfolding e by (cases "e = 0"; cases "e = 1"; simp)+
    moreover have "\<not> (18 \<le> d \<and> 18 \<le> e)" using mult_le_mono [of 18 d 18 e] e assms by linarith
    ultimately show False using small [of d] small [of e] d e by auto
  qed
  then show "\<forall>d\<in>{2..<n}. n mod d \<noteq> 0" by (auto simp: dvd_eq_mod_eq_0)
qed (meson atLeastLessThan_iff not_le)

lemma fips_primes_digits: "fips_primes =
  [2, 3, 5, 7, 11, 13, 17, 19, 23, 29, 31, 37, 41, 43, 47, 53, 59, 61, 67, 71, 73, 79, 83, 89, 97, 101, 103, 107, 109, 113, 127, 131,
   137, 139, 149, 151, 157, 163, 167, 173, 179, 181, 191, 193, 197, 199, 211, 223, 227, 229, 233, 239, 241, 251, 257, 263, 269, 271,
   277, 281, 283, 293, 307, 311]"
proof -
  have "fips_primes = filter (\<lambda>n. list_all (\<lambda>d. n mod d \<noteq> 0 \<or> n \<le> d) [2..<18]) [2..<312]"
    unfolding fips_primes_def by (intro filter_cong refl small_prime) auto
  then show ?thesis by simp
qed

lemma length_fips_primes [simp]: "length fips_primes = 64"
  by (simp add: fips_primes_digits)

lemma nth_le_bytes: "k < n \<Longrightarrow> le_bytes n v ! k = of_nat (v div 256 ^ k mod 256)"
  by (induction n arbitrary: v k) (auto simp: nth_Cons div_mult2_eq split: nat.split)

lemma rev_le_bytes: "rev (le_bytes n v) = fips_octets n v"
  by (intro nth_equalityI) (simp_all add: fips_octets_def rev_nth nth_le_bytes)

end
