(* ===== verification/Sha256.thy ===== *)
theory Sha256
  imports Fips_Sha
begin

text \<open>
  \<open>src/mavlink/codec/sha256.ts\<close>: the synchronous SHA-256 behind MAVLink 2 signing. The code keeps
  every variable as an unsigned 32-bit number (\<open>>>> 0\<close>), so the model uses \<open>u32\<close>. The
  \<open>DataView\<close> big-endian accesses are \<open>be32\<close> and \<open>be32_word\<close>. The second half of the theory proves
  that the code computes the function of FIPS 180-4, which \<open>Fips_Sha\<close> states without the code's
  constants, readers, writers and loops.
\<close>

section \<open>The code\<close>

definition sha_K :: "u32 list" where
  "sha_K = concat
    [[0x428a2f98, 0x71374491, 0xb5c0fbcf, 0xe9b5dba5, 0x3956c25b, 0x59f111f1, 0x923f82a4, 0xab1c5ed5],
     [0xd807aa98, 0x12835b01, 0x243185be, 0x550c7dc3, 0x72be5d74, 0x80deb1fe, 0x9bdc06a7, 0xc19bf174],
     [0xe49b69c1, 0xefbe4786, 0x0fc19dc6, 0x240ca1cc, 0x2de92c6f, 0x4a7484aa, 0x5cb0a9dc, 0x76f988da],
     [0x983e5152, 0xa831c66d, 0xb00327c8, 0xbf597fc7, 0xc6e00bf3, 0xd5a79147, 0x06ca6351, 0x14292967],
     [0x27b70a85, 0x2e1b2138, 0x4d2c6dfc, 0x53380d13, 0x650a7354, 0x766a0abb, 0x81c2c92e, 0x92722c85],
     [0xa2bfe8a1, 0xa81a664b, 0xc24b8b70, 0xc76c51a3, 0xd192e819, 0xd6990624, 0xf40e3585, 0x106aa070],
     [0x19a4c116, 0x1e376c08, 0x2748774c, 0x34b0bcb5, 0x391c0cb3, 0x4ed8aa4a, 0x5b9cca4f, 0x682e6ff3],
     [0x748f82ee, 0x78a5636f, 0x84c87814, 0x8cc70208, 0x90befffa, 0xa4506ceb, 0xbef9a3f7, 0xc67178f2]]"

definition rotr :: "u32 \<Rightarrow> nat \<Rightarrow> u32" where
  "rotr x n = drop_bit n x OR push_bit (32 - n) x"

definition be32 :: "u32 \<Rightarrow> bytes" where
  "be32 w = rev (le_bytes 4 (unat w))"

definition be32_word :: "bytes \<Rightarrow> u32" where
  "be32_word bs = of_nat (le_nat (rev bs))"

text \<open>
  The padded buffer: \<open>Math.ceil ((len + 9) / 64) * 64\<close> zero bytes, then the data, the byte 0x80
  after it, and the bit length as two big-endian words at the end.
\<close>

definition sha_padded_len :: "nat \<Rightarrow> nat" where
  "sha_padded_len len = (len + 1 + 8 + 63) div 64 * 64"

definition sha_pad :: "bytes \<Rightarrow> bytes" where
  "sha_pad data =
     (let bitLen = length data * 8; plen = sha_padded_len (length data)
      in data @ [0x80] @ replicate (plen - length data - 9) 0
         @ be32 (of_nat (bitLen div 0x100000000)) @ be32 (of_nat bitLen))"

definition sha_sched_word :: "u32 list \<Rightarrow> nat \<Rightarrow> u32" where
  "sha_sched_word w i =
     (let a = w ! (i - 15); b = w ! (i - 2);
          s0 = rotr a 7 XOR rotr a 18 XOR drop_bit 3 a;
          s1 = rotr b 17 XOR rotr b 19 XOR drop_bit 10 b
      in w ! (i - 16) + s0 + w ! (i - 7) + s1)"

definition sha_schedule :: "bytes \<Rightarrow> u32 list" where
  "sha_schedule block =
     foldl (\<lambda>w i. w @ [sha_sched_word w i])
       (map (\<lambda>i. be32_word (subarray (i * 4) 4 block)) [0..<16]) [16..<64]"

type_synonym sha_state = "u32 \<times> u32 \<times> u32 \<times> u32 \<times> u32 \<times> u32 \<times> u32 \<times> u32"

definition sha_round :: "u32 list \<Rightarrow> sha_state \<Rightarrow> nat \<Rightarrow> sha_state" where
  "sha_round w st i =
     (case st of (a, b, c, d, e, f, g, h) \<Rightarrow>
        let S1 = rotr e 6 XOR rotr e 11 XOR rotr e 25;
            ch = (e AND f) XOR (NOT e AND g);
            t1 = h + S1 + ch + sha_K ! i + w ! i;
            S0 = rotr a 2 XOR rotr a 13 XOR rotr a 22;
            maj = (a AND b) XOR (a AND c) XOR (b AND c);
            t2 = S0 + maj
        in (t1 + t2, a, b, c, d + t1, e, f, g))"

definition sha_add :: "sha_state \<Rightarrow> sha_state \<Rightarrow> sha_state" where
  "sha_add s t =
     (case s of (h0, h1, h2, h3, h4, h5, h6, h7) \<Rightarrow> case t of (a, b, c, d, e, f, g, h) \<Rightarrow>
        (h0 + a, h1 + b, h2 + c, h3 + d, h4 + e, h5 + f, h6 + g, h7 + h))"

definition sha_block :: "sha_state \<Rightarrow> bytes \<Rightarrow> sha_state" where
  "sha_block s block = sha_add s (foldl (sha_round (sha_schedule block)) s [0..<64])"

definition sha_init :: sha_state where
  "sha_init = (0x6a09e667, 0xbb67ae85, 0x3c6ef372, 0xa54ff53a,
               0x510e527f, 0x9b05688c, 0x1f83d9ab, 0x5be0cd19)"

definition sha_out :: "sha_state \<Rightarrow> bytes" where
  "sha_out s =
     (case s of (h0, h1, h2, h3, h4, h5, h6, h7) \<Rightarrow>
        be32 h0 @ be32 h1 @ be32 h2 @ be32 h3 @ be32 h4 @ be32 h5 @ be32 h6 @ be32 h7)"

definition sha256 :: "bytes \<Rightarrow> bytes" where
  "sha256 data =
     (let padded = sha_pad data
      in sha_out (foldl (\<lambda>s k. sha_block s (subarray (k * 64) 64 padded))
           sha_init [0..<length padded div 64]))"

section \<open>The code computes FIPS 180-4\<close>

text \<open>The constants of the code are the fractions of the roots.\<close>

fun roots_check :: "nat \<Rightarrow> nat list \<Rightarrow> u32 list \<Rightarrow> bool" where
  "roots_check k (p # ps) (w # ws) = (is_fraction k p (unat w) \<and> roots_check k ps ws)"
| "roots_check k ps ws = True"

lemma roots_checked: "roots_check k ps ws \<Longrightarrow> 0 < k \<Longrightarrow> t < length ps \<Longrightarrow> t < length ws \<Longrightarrow> ws ! t = fips_fraction k (ps ! t)"
  by (induction k ps ws arbitrary: t rule: roots_check.induct) (auto simp: nth_Cons fips_fraction_digits split: nat.split)

lemma sha_K_roots: "roots_check 3 fips_primes sha_K"
  unfolding fips_primes_digits by (simp add: sha_K_def is_fraction_def Let_def)

lemma sha_K_fips: "t < 64 \<Longrightarrow> sha_K ! t = fips_K t"
  unfolding fips_K_def using sha_K_roots by (rule roots_checked) (simp_all add: fips_primes_digits sha_K_def)

text \<open>The eight variables of the code as the list of the standard.\<close>

definition state_list :: "sha_state \<Rightarrow> u32 list" where
  "state_list s = (case s of (a, b, c, d, e, f, g, h) \<Rightarrow> [a, b, c, d, e, f, g, h])"

lemma sha_init_roots: "roots_check 2 (take 8 fips_primes) (state_list sha_init)"
  unfolding fips_primes_digits by (simp add: sha_init_def state_list_def is_fraction_def Let_def)

lemma state_list_tuple [simp]: "state_list (a, b, c, d, e, f, g, h) = [a, b, c, d, e, f, g, h]"
  by (simp add: state_list_def)

lemma state_cases:
  fixes s :: sha_state
  obtains a b c d e f g h where "s = (a, b, c, d, e, f, g, h)"
  by (cases s) (auto intro: prod.exhaust)

lemma length_state_list [simp]: "length (state_list s) = 8"
  by (cases s rule: state_cases) simp

lemma sha_init_fips: "state_list sha_init = fips_H0"
proof (rule nth_equalityI)
  show "length (state_list sha_init) = length fips_H0" by (simp add: fips_H0_def)
  show "state_list sha_init ! t = fips_H0 ! t" if "t < length (state_list sha_init)" for t
    using that roots_checked [OF sha_init_roots, of t] by (simp add: fips_H0_def)
qed

text \<open>Reading and writing words.\<close>

lemma be32_octets: "be32 w = fips_octets 4 (unat w)"
  by (simp add: be32_def rev_le_bytes)

lemma be32_word_fips:
  assumes "64 * i + 64 \<le> length P" "t < 16"
  shows "be32_word (subarray (t * 4) 4 (subarray (i * 64) 64 P)) = fips_M P i t"
proof -
  have "subarray (t * 4) 4 (subarray (i * 64) 64 P) = map (\<lambda>j. P ! (64 * i + 4 * t + j)) [0..<4]"
    using assms by (intro nth_equalityI) (simp_all add: nth_subarray algebra_simps)
  moreover have "[0..<4] = [0, 1, 2, 3 :: nat]" by (simp add: upt_rec)
  ultimately have w: "be32_word (subarray (t * 4) 4 (subarray (i * 64) 64 P)) =
      of_nat (le_nat (rev (map (\<lambda>j. P ! (64 * i + 4 * t + j)) [0, 1, 2, 3])))" by (simp only: be32_word_def)
  have "{..<4} = {0, 1, 2, 3 :: nat}" by auto
  then show ?thesis by (simp add: w fips_M_def algebra_simps)
qed

lemma rotr_word_rotr: "0 < n \<Longrightarrow> n < 32 \<Longrightarrow> rotr x n = word_rotr n x"
proof (rule bit_word_eqI)
  fix k
  assume n: "0 < n" "n < 32" and k: "k < LENGTH(32)"
  have "(k + n) mod 32 = (if k + n < 32 then k + n else k + n - 32)"
    using n k by (simp add: mod_if)
  then show "bit (rotr x n) k = bit (word_rotr n x) k"
    using n k
    by (auto simp: rotr_def bit_or_iff bit_drop_bit_eq bit_push_bit_iff bit_word_rotr_iff add.commute
        dest: bit_imp_le_length)
qed

lemma sha_sched_word_fips:
  assumes "16 \<le> n" "w = map (fips_W P i) [0..<n]"
  shows "sha_sched_word w n = fips_W P i n"
  using assms
  by (simp add: sha_sched_word_def fips_W.simps [of P i n] fips_sigma0_def fips_sigma1_def
      rotr_word_rotr Let_def algebra_simps)

lemma sha_schedule_upto:
  assumes "64 * i + 64 \<le> length P" "16 \<le> n"
  shows "foldl (\<lambda>w i. w @ [sha_sched_word w i]) (map (\<lambda>t. be32_word (subarray (t * 4) 4 (subarray (i * 64) 64 P))) [0..<16]) [16..<n]
   = map (fips_W P i) [0..<n]"
  using assms(2)
proof (induction n rule: nat_induct_at_least)
  case base
  have "fips_W P i t = be32_word (subarray (t * 4) 4 (subarray (i * 64) 64 P))" if "t < 16" for t
    using that be32_word_fips [OF assms(1) that] by (subst fips_W.simps) simp
  then show ?case by (simp del: upt_rec_numeral)
next
  case (Suc n)
  then show ?case by (simp add: sha_sched_word_fips)
qed

lemma sha_schedule_fips: "64 * i + 64 \<le> length P \<Longrightarrow> sha_schedule (subarray (i * 64) 64 P) = map (fips_W P i) [0..<64]"
  unfolding sha_schedule_def by (rule sha_schedule_upto) simp_all

lemma sha_rounds_fips:
  assumes "64 * i + 64 \<le> length P"
  shows "n \<le> 64 \<Longrightarrow> state_list (foldl (sha_round (sha_schedule (subarray (i * 64) 64 P))) s [0..<n]) = fips_rounds P i (state_list s) n"
proof (induction n)
  case 0
  then show ?case by simp
next
  case (Suc n)
  define r where "r = foldl (sha_round (sha_schedule (subarray (i * 64) 64 P))) s [0..<n]"
  have w: "sha_schedule (subarray (i * 64) 64 P) ! n = fips_W P i n" "sha_K ! n = fips_K n"
    using Suc.prems by (simp_all add: sha_schedule_fips [OF assms] sha_K_fips)
  have IH: "fips_rounds P i (state_list s) n = state_list r" using Suc by (simp add: r_def)
  obtain a b c d e f g h where r: "r = (a, b, c, d, e, f, g, h)" by (rule state_cases)
  have "fips_rounds P i (state_list s) (Suc n) = state_list (sha_round (sha_schedule (subarray (i * 64) 64 P)) r n)"
    by (simp add: IH r w sha_round_def fips_Sigma0_def fips_Sigma1_def fips_Ch_def fips_Maj_def rotr_word_rotr Let_def)
  then show ?case by (simp add: r_def)
qed

lemma be32_pair: "be32 (of_nat (n div 0x100000000)) @ be32 (of_nat n) = fips_octets 8 n"
proof -
  have split: "le_bytes 8 n = le_bytes 4 n @ le_bytes 4 (n div 256 ^ 4)"
    using le_bytes_add [of 4 4 n] by simp
  have "le_bytes 4 (unat (of_nat m :: u32)) = le_bytes 4 m" for m
    using le_bytes_mod [of 4 m] by (simp add: unat_of_nat take_bit_eq_mod)
  then show ?thesis by (simp add: be32_def split flip: rev_le_bytes)
qed

lemma sha_pad_zeros: "sha_padded_len n - (n + 9) = nat ((55 - int n) mod 64)"
proof -
  define q r where "q = (n + 72) div 64" and "r = (n + 72) mod 64"
  have n: "n + 72 = 64 * q + r" and r: "r < 64"
    by (simp_all add: q_def r_def)
  have "sha_padded_len n = 64 * q"
    by (simp add: sha_padded_len_def q_def)
  then have l: "sha_padded_len n - (n + 9) = 63 - r" using n r by linarith
  have "int n + 72 = 64 * int q + int r"
    using n by (metis of_nat_add of_nat_mult of_nat_numeral)
  then have "55 - int n = (63 - int r) + (1 - int q) * 64" by (simp add: algebra_simps)
  then have "(55 - int n) mod 64 = (63 - int r) mod 64" by (simp only: mod_mult_self1)
  then show ?thesis using l r by simp
qed

lemma sha_pad_fips: "sha_pad M = fips_pad M"
  by (simp add: sha_pad_def fips_pad_def sha_pad_zeros be32_pair Let_def mult.commute)

lemma sha_add_list: "state_list (sha_add s t) = map2 (\<lambda>x y. x + y) (state_list t) (state_list s)"
  by (cases s rule: state_cases; cases t rule: state_cases) (simp add: sha_add_def add.commute)

lemma sha_blocks_fips:
  "64 * n \<le> length P \<Longrightarrow>
   state_list (foldl (\<lambda>s k. sha_block s (subarray (k * 64) 64 P)) sha_init [0..<n]) = fips_hash P n"
  by (induction n) (simp_all add: sha_init_fips sha_block_def sha_add_list sha_rounds_fips)

lemma sha_out_list: "sha_out s = concat (map (\<lambda>w. fips_octets 4 (unat w)) (state_list s))"
  by (cases s rule: state_cases) (simp add: sha_out_def be32_octets)

lemma sha256_fips: "sha256 M = fips_sha256 M"
  by (simp add: sha256_def fips_sha256_def sha_pad_fips sha_out_list sha_blocks_fips Let_def)

section \<open>Lengths\<close>

lemma length_be32 [simp]: "length (be32 w) = 4"
  by (simp add: be32_def)

lemma length_sha256 [simp]: "length (sha256 M) = 32"
  by (simp add: sha256_def sha_out_def Let_def split: prod.splits)

lemma length_sha_pad: "length (sha_pad M) = sha_padded_len (length M)"
proof -
  have "length M + 9 \<le> sha_padded_len (length M)"
    unfolding sha_padded_len_def by linarith
  then show ?thesis by (simp add: sha_pad_def Let_def)
qed

end
