(* ===== verification/Signing.thy ===== *)
theory Signing
  imports Js_Text Sha256
begin

text \<open>
  \<open>src/mavlink/codec/signing.ts\<close>: the 13-byte signature block of a MAVLink 2 frame, the acceptance
  policy for unsigned frames, and the per-link time stamp state. Time stamps are bigints (\<open>int\<close>)
  written in 48 bits. Writes past the end of a \<open>Uint8Array\<close> are dropped, as list update drops them.
\<close>

section \<open>The code\<close>

record signing_config =
  sc_enabled :: bool
  sc_key :: "bytes option"
  sc_linkId :: "nat option"
  sc_allowUnsigned :: "bool option"

definition SIGNATURE_LEN :: nat where "SIGNATURE_LEN = 13"
definition MAVLINK_IFLAG_SIGNED :: u8 where "MAVLINK_IFLAG_SIGNED = 1"

definition unsignedAllowed :: "signing_config option \<Rightarrow> bool" where
  "unsignedAllowed signing =
     (case signing of
        None \<Rightarrow> True
      | Some s \<Rightarrow> if \<not> sc_enabled s then True else sc_allowUnsigned s = Some True)"

text \<open>\<open>Date.UTC (2015, 0, 1)\<close> in milliseconds; the clock reading is an argument.\<close>

definition MAVLINK_EPOCH_MS :: int where "MAVLINK_EPOCH_MS = 1420070400000"

definition signingTimestampNow :: "int \<Rightarrow> int" where
  "signingTimestampNow now = max 0 ((now - MAVLINK_EPOCH_MS) * 100)"

definition writeTimestamp48 :: "bytes \<Rightarrow> nat \<Rightarrow> int \<Rightarrow> bytes" where
  "writeTimestamp48 out off ts =
     fst (foldl (\<lambda>(out, v) i. (out[off + i := of_nat (v mod 256)], v div 256))
            (out, nat (ts mod 2 ^ 48)) [0..<6])"

definition readTimestamp48 :: "bytes \<Rightarrow> nat \<Rightarrow> int" where
  "readTimestamp48 bs off =
     int (foldl (\<lambda>v i. v * 256 + unat (bs ! (off + i))) 0 [5, 4, 3, 2, 1, 0])"

definition computeSignature :: "bytes \<Rightarrow> bytes \<Rightarrow> nat \<Rightarrow> int \<Rightarrow> bytes" where
  "computeSignature key frameThroughCrc linkId ts =
     (let p = length key + length frameThroughCrc;
          buf = key @ frameThroughCrc @ replicate 7 0;
          buf = buf[p := of_nat linkId];
          buf = writeTimestamp48 buf (p + 1) ts
      in subarray 0 6 (sha256 buf))"

record signing_state =
  lastTx :: int
  lastRx :: "string \<rightharpoonup> int"

definition signing_init :: signing_state where
  "signing_init = \<lparr>lastTx = 0, lastRx = Map.empty\<rparr>"

definition nextTxTimestamp :: "signing_state \<Rightarrow> int \<Rightarrow> int \<times> signing_state" where
  "nextTxTimestamp s clock =
     (let ts = (if lastTx s < clock then clock else lastTx s + 1) in (ts, s\<lparr>lastTx := ts\<rparr>))"

definition rx_key :: "nat \<Rightarrow> nat \<Rightarrow> nat \<Rightarrow> string" where
  "rx_key linkId sysid compid =
     nat_to_string linkId @ '':'' @ nat_to_string sysid @ '':'' @ nat_to_string compid"

definition acceptRxTimestamp ::
  "signing_state \<Rightarrow> nat \<Rightarrow> nat \<Rightarrow> nat \<Rightarrow> int \<Rightarrow> bool \<times> signing_state" where
  "acceptRxTimestamp s linkId sysid compid ts =
     (let key = rx_key linkId sysid compid
      in case lastRx s key of
           Some prev \<Rightarrow> if ts \<le> prev then (False, s) else (True, s\<lparr>lastRx := (lastRx s)(key \<mapsto> ts)\<rparr>)
         | None \<Rightarrow> (True, s\<lparr>lastRx := (lastRx s)(key \<mapsto> ts)\<rparr>))"

definition signing_reset :: "signing_state \<Rightarrow> signing_state" where
  "signing_reset s = s\<lparr>lastTx := 0, lastRx := Map.empty\<rparr>"

definition signaturesEqual :: "bytes \<Rightarrow> bytes \<Rightarrow> bool" where
  "signaturesEqual a b =
     (if length a \<noteq> length b then False
      else foldl (\<lambda>diff i. diff OR (a ! i XOR b ! i)) 0 [0..<length a] = 0)"

section \<open>Time stamps on the wire\<close>

lemma writeTimestamp48_eq:
  assumes "off + 6 \<le> length out"
  shows "writeTimestamp48 out off ts = take off out @ le_bytes 6 (nat (ts mod 2 ^ 48)) @ drop (off + 6) out"
proof -
  have loop: "fst (foldl (\<lambda>(out, v) i. (out[off + i := of_nat (v mod 256)], v div 256)) (out, v) [k..<k + n])
    = take (off + k) out @ le_bytes n v @ drop (off + k + n) out"
    if "off + k + n \<le> length out" for out :: bytes and v k n
    using that
  proof (induction n arbitrary: k v out)
    case 0
    then show ?case by simp
  next
    case (Suc n)
    have "[k..<k + Suc n] = k # [Suc k..<Suc k + n]" by (simp add: upt_conv_Cons)
    moreover have "take (off + Suc k) (out[off + k := w]) = take (off + k) out @ [w]" for w
      using Suc.prems by (simp add: upd_conv_take_nth_drop)
    ultimately show ?case
      using Suc.IH [of "Suc k" "out[off + k := of_nat (v mod 256)]" "v div 256"] Suc.prems
      by (simp add: drop_update_cancel)
  qed
  show ?thesis
    unfolding writeTimestamp48_def using loop [of 0 6 out] assms by simp
qed

lemma length_writeTimestamp48 [simp]: "off + 6 \<le> length out \<Longrightarrow> length (writeTimestamp48 out off ts) = length out"
  by (simp add: writeTimestamp48_eq)

lemma readTimestamp48_eq:
  assumes "off + 6 \<le> length bs"
  shows "readTimestamp48 bs off = int (le_nat (subarray off 6 bs))"
proof -
  have "subarray off 6 bs = map (\<lambda>i. bs ! (off + i)) [0..<6]"
    using assms by (intro nth_equalityI) (auto simp: nth_subarray)
  also have "\<dots> = map (\<lambda>i. bs ! (off + i)) [0, 1, 2, 3, 4, 5]"
    by (simp add: upt_rec numeral_eq_Suc)
  finally show ?thesis by (simp add: readTimestamp48_def algebra_simps)
qed

lemma computeSignature_eq:
  "computeSignature key frame linkId ts =
   take 6 (sha256 (key @ frame @ [of_nat linkId] @ le_bytes 6 (nat (ts mod 2 ^ 48))))"
proof -
  let ?p = "length key + length frame"
  have "(key @ frame @ replicate 7 0)[?p := of_nat linkId] = key @ frame @ [of_nat linkId] @ replicate 6 (0 :: u8)"
    by (simp add: list_update_append numeral_eq_Suc)
  then show ?thesis
    by (simp add: computeSignature_def Let_def writeTimestamp48_eq subarray_def)
qed

lemma length_computeSignature [simp]: "length (computeSignature key frame linkId ts) = 6"
  by (simp add: computeSignature_eq)

section \<open>The state\<close>

lemma foldl_or_zero:
  "foldl (\<lambda>diff i. diff OR (f i :: u8)) d xs = 0 \<longleftrightarrow> d = 0 \<and> (\<forall>i\<in>set xs. f i = 0)"
  by (induction xs arbitrary: d) (auto simp: or_eq_0_iff)

lemma xor_zero_iff: "a XOR b = 0 \<longleftrightarrow> a = (b :: u8)"
proof
  assume "a XOR b = 0"
  then have "a XOR b = b XOR b" by simp
  then show "a = b" by (rule xor_cancel)
qed simp

lemma signaturesEqual_iff: "signaturesEqual a b \<longleftrightarrow> a = b"
proof -
  have "signaturesEqual a b \<longleftrightarrow> length a = length b \<and> (\<forall>i<length a. a ! i = b ! i)"
    unfolding signaturesEqual_def foldl_or_zero xor_zero_iff by auto
  then show ?thesis by (simp add: list_eq_iff_nth_eq)
qed

text \<open>The colons separate decimal numbers, so different sources have different keys.\<close>

lemma nat_to_string_digits: "c \<in> set (nat_to_string n) \<Longrightarrow> 48 \<le> char_code c \<and> char_code c \<le> 57"
proof (induction n rule: nat_to_string.induct)
  case (1 n)
  then show ?case
    by (cases "n < 10") (auto simp: nat_to_string.simps [of n])
qed

lemma split_at_colon:
  assumes "nat_to_string a @ CHR '':'' # r = nat_to_string b @ CHR '':'' # r'"
  shows "a = b \<and> r = r'"
proof -
  have d: "char_code c \<noteq> 58" if "c \<in> set (nat_to_string n)" for c n
    using nat_to_string_digits [OF that] by simp
  have tw: "takeWhile (\<lambda>c. char_code c \<noteq> 58) (nat_to_string n @ CHR '':'' # r) = nat_to_string n" for n r
    using d by (simp add: takeWhile_append char_code_def)
  from assms have "nat_to_string a = nat_to_string b" by (metis tw)
  with assms show ?thesis by (auto dest: nat_to_string_inj)
qed

lemma rx_key_inj: "rx_key l s c = rx_key l' s' c' \<Longrightarrow> l = l' \<and> s = s' \<and> c = c'"
  by (auto simp: rx_key_def dest!: split_at_colon dest: nat_to_string_inj)

text \<open>A run of the outgoing side over successive clock readings.\<close>

fun tx_run :: "signing_state \<Rightarrow> int list \<Rightarrow> int list" where
  "tx_run s [] = []"
| "tx_run s (clock # cs) = (case nextTxTimestamp s clock of (ts, s') \<Rightarrow> ts # tx_run s' cs)"

lemma tx_run_increasing: "sorted_wrt (<) (tx_run s cs) \<and> (\<forall>t\<in>set (tx_run s cs). lastTx s < t)"
proof (induction cs arbitrary: s)
  case Nil
  then show ?case by simp
next
  case (Cons clock cs)
  define ts where "ts = fst (nextTxTimestamp s clock)"
  define s' where "s' = snd (nextTxTimestamp s clock)"
  have eq: "nextTxTimestamp s clock = (ts, s')" by (simp add: ts_def s'_def)
  have "lastTx s < ts" "lastTx s' = ts"
    by (auto simp: ts_def s'_def nextTxTimestamp_def Let_def)
  with Cons.IH [of s'] show ?case by (auto simp: eq)
qed

text \<open>A run of the incoming side: the time stamps accepted, with their sources.\<close>

type_synonym rx_event = "nat \<times> nat \<times> nat \<times> int"

fun rx_run :: "signing_state \<Rightarrow> rx_event list \<Rightarrow> rx_event list" where
  "rx_run s [] = []"
| "rx_run s ((l, sy, c, ts) # es) =
     (case acceptRxTimestamp s l sy c ts of (ok, s') \<Rightarrow>
        if ok then (l, sy, c, ts) # rx_run s' es else rx_run s' es)"

definition rx_of :: "nat \<Rightarrow> nat \<Rightarrow> nat \<Rightarrow> rx_event list \<Rightarrow> int list" where
  "rx_of l sy c es = map (\<lambda>(_, _, _, ts). ts) (filter (\<lambda>(l', sy', c', _). (l', sy', c') = (l, sy, c)) es)"

lemma rx_of_simps [simp]:
  "rx_of l sy c [] = []"
  "rx_of l sy c ((l', sy', c', ts) # es) =
     (if (l', sy', c') = (l, sy, c) then ts # rx_of l sy c es else rx_of l sy c es)"
  by (simp_all add: rx_of_def)

lemma acceptRx_cases:
  "acceptRxTimestamp s l sy c ts =
   (if (\<exists>prev. lastRx s (rx_key l sy c) = Some prev \<and> ts \<le> prev) then (False, s)
    else (True, s\<lparr>lastRx := (lastRx s)(rx_key l sy c \<mapsto> ts)\<rparr>))"
  by (auto simp: acceptRxTimestamp_def Let_def split: option.splits)

lemma rx_run_increasing:
  "sorted_wrt (<) (rx_of l sy c (rx_run s es)) \<and>
   (\<forall>prev. lastRx s (rx_key l sy c) = Some prev \<longrightarrow> (\<forall>t\<in>set (rx_of l sy c (rx_run s es)). prev < t))"
proof (induction es arbitrary: s)
  case Nil
  then show ?case by simp
next
  case (Cons e es)
  obtain l' sy' c' ts where e: "e = (l', sy', c', ts)" by (cases e)
  show ?case
  proof (cases "\<exists>prev. lastRx s (rx_key l' sy' c') = Some prev \<and> ts \<le> prev")
    case True
    with Cons.IH [of s] show ?thesis by (simp add: e acceptRx_cases)
  next
    case False
    let ?s = "s\<lparr>lastRx := (lastRx s)(rx_key l' sy' c' \<mapsto> ts)\<rparr>"
    have run: "rx_run s (e # es) = (l', sy', c', ts) # rx_run ?s es"
      using False by (auto simp: e acceptRx_cases)
    show ?thesis
    proof (cases "(l', sy', c') = (l, sy, c)")
      case True
      have "prev < ts" if "lastRx s (rx_key l sy c) = Some prev" for prev
        using False True that by (metis not_le prod.inject)
      with True Cons.IH [of ?s] show ?thesis unfolding run by auto
    next
      case neq: False
      then have "rx_key l sy c \<noteq> rx_key l' sy' c'" using rx_key_inj by blast
      with Cons.IH [of ?s] neq show ?thesis unfolding run by auto
    qed
  qed
qed

end
