(* ===== verification/Encode_Frame.thy ===== *)
theory Encode_Frame
  imports Crc Field_Codec Signing
begin

text \<open>
  \<open>src/mavlink/codec/encode.ts\<close>: serialisation of one MAVLink 1 or 2 frame. Stores into the frame,
  a \<open>Uint8Array\<close>, reduce modulo 256 (\<open>of_nat\<close>). An input field that is absent is \<open>JUndef\<close>.
\<close>

definition MAGIC_V1 :: u8 where "MAGIC_V1 = 0xfe"
definition MAGIC_V2 :: u8 where "MAGIC_V2 = 0xfd"

record message_input =
  mi_name :: string
  mi_fields :: "string \<Rightarrow> js_val"
  mi_sysid :: nat
  mi_compid :: nat

record frame_signing =
  fsg_key :: bytes
  fsg_linkId :: nat
  fsg_timestamp :: int

record encode_frame_options =
  eo_version :: nat
  eo_seq :: nat
  eo_signing :: "frame_signing option"

text \<open>The loop \<open>while (len > 1 && payload[len - 1] === 0) len--\<close>.\<close>

fun trunc_from :: "bytes \<Rightarrow> nat \<Rightarrow> nat" where
  "trunc_from payload len =
     (if 1 < len \<and> payload ! (len - 1) = 0 then trunc_from payload (len - 1) else len)"

declare trunc_from.simps [simp del]

definition truncatedLength :: "bytes \<Rightarrow> nat" where
  "truncatedLength payload = trunc_from payload (length payload)"

text \<open>The packing loop: each field at the offset the previous one returned.\<close>

primrec pack_fields :: "(string \<Rightarrow> js_val) \<Rightarrow> bytes \<Rightarrow> nat \<Rightarrow> field_meta list \<Rightarrow> codec_error + bytes" where
  "pack_fields vals pdv off [] = Inr pdv"
| "pack_fields vals pdv off (field # fs) =
     res_bind (packField pdv off field (vals (fm_name field))) (\<lambda>(pdv, off). pack_fields vals pdv off fs)"

definition frame_header :: "message_meta \<Rightarrow> message_input \<Rightarrow> encode_frame_options \<Rightarrow> nat \<Rightarrow> bytes" where
  "frame_header meta input opts payloadLen =
     (if eo_version opts = 2 then
        [MAGIC_V2, of_nat payloadLen,
         (case eo_signing opts of Some _ \<Rightarrow> MAVLINK_IFLAG_SIGNED | None \<Rightarrow> 0), 0,
         of_nat (eo_seq opts), of_nat (mi_sysid input), of_nat (mi_compid input),
         of_nat (mm_id meta), of_nat (mm_id meta div 2 ^ 8), of_nat (mm_id meta div 2 ^ 16)]
      else
        [MAGIC_V1, of_nat payloadLen, of_nat (eo_seq opts), of_nat (mi_sysid input),
         of_nat (mi_compid input), of_nat (mm_id meta)])"

definition encodeFrame ::
  "message_meta \<Rightarrow> message_input \<Rightarrow> encode_frame_options \<Rightarrow> codec_error + bytes" where
  "encodeFrame meta input opts =
     (let count = fieldCount meta (eo_version opts)
      in res_bind (payloadLength (mm_fields meta) count) (\<lambda>fullLen.
         res_bind (pack_fields (mi_fields input) (replicate fullLen 0) 0 (take count (mm_fields meta)))
           (\<lambda>payload.
             let payloadLen = (if eo_version opts = 2 then truncatedLength payload else fullLen);
                 body = frame_header meta input opts payloadLen @ subarray 0 payloadLen payload;
                 crc = crcAccumulateRange body 1 (length body) CRC_INIT;
                 crc = crcAccumulate (of_nat (mm_crcExtra meta) AND 0xff) crc;
                 frame = body @ [ucast crc, ucast (drop_bit 8 crc)]
             in Inr (case if eo_version opts = 2 then eo_signing opts else None of
                       None \<Rightarrow> frame
                     | Some s \<Rightarrow>
                         frame @ [of_nat (fsg_linkId s)]
                         @ writeTimestamp48 (replicate 6 0) 0 (fsg_timestamp s)
                         @ computeSignature (fsg_key s) frame (fsg_linkId s) (fsg_timestamp s)))))"

section \<open>Truncation\<close>

lemma trunc_from_le: "trunc_from payload len \<le> len"
  by (induction payload len rule: trunc_from.induct) (subst trunc_from.simps, auto)

lemma trunc_from_pos: "0 < len \<Longrightarrow> 0 < trunc_from payload len"
  by (induction payload len rule: trunc_from.induct) (subst trunc_from.simps, auto)

lemma trunc_from_zeros: "trunc_from payload len \<le> i \<Longrightarrow> i < len \<Longrightarrow> payload ! i = 0"
proof (induction payload len rule: trunc_from.induct)
  case (1 payload len)
  show ?case
  proof (cases "1 < len \<and> payload ! (len - 1) = 0")
    case True
    with 1 show ?thesis by (cases "i = len - 1") (auto simp: trunc_from.simps [of payload len])
  next
    case False
    with "1.prems" show ?thesis by (auto simp: trunc_from.simps [of payload len])
  qed
qed

text \<open>Zero-filling the truncated payload restores it.\<close>

lemma truncated_restore:
  "take (truncatedLength p) p @ replicate (length p - truncatedLength p) 0 = p"
proof (rule nth_equalityI)
  have le: "truncatedLength p \<le> length p" by (simp add: truncatedLength_def trunc_from_le)
  then show "length (take (truncatedLength p) p @ replicate (length p - truncatedLength p) 0) = length p"
    by simp
  fix i
  assume "i < length (take (truncatedLength p) p @ replicate (length p - truncatedLength p) 0)"
  then show "(take (truncatedLength p) p @ replicate (length p - truncatedLength p) 0) ! i = p ! i"
    using le trunc_from_zeros [of p "length p" i] by (auto simp: nth_append truncatedLength_def)
qed

section \<open>The payload\<close>

text \<open>The fields' bytes one after the other.\<close>

primrec payload_bytes :: "(string \<Rightarrow> js_val) \<Rightarrow> field_meta list \<Rightarrow> codec_error + bytes" where
  "payload_bytes vals [] = Inr []"
| "payload_bytes vals (field # fs) =
     res_bind (field_bytes field (vals (fm_name field))) (\<lambda>bs.
       res_bind (payload_bytes vals fs) (\<lambda>rest. Inr (bs @ rest)))"

text \<open>The size of a field whose type is known.\<close>

definition size_of :: "field_meta \<Rightarrow> nat" where
  "size_of field = (case fieldSize field of Inr n \<Rightarrow> n | Inl _ \<Rightarrow> 0)"

definition sized :: "field_meta \<Rightarrow> bool" where
  "sized field = (fieldSize field = Inr (size_of field))"

lemma payload_bytes_sized:
  "payload_bytes vals fs = Inr bs \<Longrightarrow> list_all sized fs \<and> length bs = sum_list (map size_of fs)"
  by (induction fs arbitrary: bs)
    (auto simp: res_bind_Inr_iff sized_def size_of_def dest!: length_field_bytes)

lemma payloadLength_sized:
  "count \<le> length fs \<Longrightarrow> list_all sized (take count fs) \<Longrightarrow>
   payloadLength fs count = Inr (sum_list (map size_of (take count fs)))"
proof (induction count)
  case 0
  then show ?case by simp
next
  case (Suc k)
  then have "take (Suc k) fs = take k fs @ [fs ! k]" by (simp add: take_Suc_conv_app_nth)
  with Suc show ?case by (simp add: sized_def)
qed

text \<open>Packing into a large enough buffer writes the fields' bytes at the offset.\<close>

lemma pack_fields_eq:
  "payload_bytes vals fs = Inr bs \<Longrightarrow> off + length bs \<le> length pdv \<Longrightarrow>
   pack_fields vals pdv off fs = put_bytes pdv off bs"
proof (induction fs arbitrary: bs off pdv)
  case Nil
  then show ?case by (simp add: put_bytes_def)
next
  case (Cons f fs)
  then obtain b r where b: "field_bytes f (vals (fm_name f)) = Inr b" and r: "payload_bytes vals fs = Inr r"
    and bs: "bs = b @ r" by (auto simp: res_bind_Inr_iff)
  have size: "fieldSize f = Inr (length b)" using b by (rule length_field_bytes)
  have fits: "off + length b \<le> length pdv" using Cons.prems bs by simp
  then obtain d where d: "put_bytes pdv off b = Inr d" by (simp add: put_bytes_def)
  then have "length d = length pdv" by (rule put_bytes_Inr)
  then have "pack_fields vals d (off + length b) fs = put_bytes d (off + length b) r"
    using Cons.IH r Cons.prems bs by simp
  moreover have "put_bytes d (off + length b) r = put_bytes pdv off bs"
    using put_bytes_append [of off b r pdv] Cons.prems bs d by simp
  ultimately show ?case by (simp add: packField_eq [OF size fits] b d)
qed

lemma pack_payload:
  assumes "payload_bytes vals (take count fs) = Inr bs" "count \<le> length fs"
  shows "payloadLength fs count = Inr (length bs)"
    and "pack_fields vals (replicate (length bs) 0) 0 (take count fs) = Inr bs"
proof -
  have "list_all sized (take count fs)" "length bs = sum_list (map size_of (take count fs))"
    using payload_bytes_sized [OF assms(1)] by simp_all
  then show "payloadLength fs count = Inr (length bs)"
    using payloadLength_sized assms(2) by simp
  show "pack_fields vals (replicate (length bs) 0) 0 (take count fs) = Inr bs"
    using pack_fields_eq [OF assms(1), of 0 "replicate (length bs) 0"] by (simp add: put_bytes_def)
qed

end
