(* ===== verification/Stream_Parser.thy ===== *)
theory Stream_Parser
  imports Encode_Frame
begin

text \<open>
  \<open>src/mavlink/codec/parser.ts\<close>: the streaming parser. Its state is the retained buffer and the
  signing state; \<open>push\<close> appends the new bytes, scans for frames and keeps the earliest incomplete
  candidate. \<open>scan\<close> is the \<open>while\<close> loop of \<open>push\<close>, one equation for all of its exits. The clock
  behind \<open>rxTimeUs\<close> is an argument: its reading when the frame at a given index is decoded.
\<close>

section \<open>The code\<close>

definition V1_HEADER :: nat where "V1_HEADER = 6"
definition V2_HEADER :: nat where "V2_HEADER = 10"

record dialect_table =
  dt_name :: string
  dt_messages :: "(nat \<times> message_meta) list"

record decoded_message =
  dm_sysid :: nat
  dm_compid :: nat
  dm_seq :: nat
  dm_msgId :: nat
  dm_name :: string
  dm_fields :: "string \<rightharpoonup> field_value"
  dm_crcOk :: bool
  dm_signed :: bool
  dm_linkId :: "nat option"
  dm_rxTimeUs :: int
  dm_raw :: bytes

record parser =
  ps_index :: "nat \<rightharpoonup> message_meta"
  ps_signing :: "signing_config option"
  ps_enforceMonotonic :: bool
  ps_signingState :: signing_state
  ps_buf :: bytes

text \<open>\<open>Object.values\<close> of a table runs over its entries; the first message of an id wins.\<close>

definition index_table :: "(nat \<rightharpoonup> message_meta) \<Rightarrow> dialect_table \<Rightarrow> (nat \<rightharpoonup> message_meta)" where
  "index_table index dialect =
     foldl (\<lambda>index (_, meta). if mm_id meta \<in> dom index then index else index(mm_id meta \<mapsto> meta))
       index (dt_messages dialect)"

definition buildIndex :: "dialect_table list \<Rightarrow> (nat \<rightharpoonup> message_meta)" where
  "buildIndex dialects = foldl index_table Map.empty dialects"

definition new_parser :: "dialect_table list \<Rightarrow> signing_config option \<Rightarrow> bool \<Rightarrow> parser" where
  "new_parser dialects signing enforce =
     \<lparr>ps_index = buildIndex dialects, ps_signing = signing, ps_enforceMonotonic = enforce,
      ps_signingState = signing_init, ps_buf = []\<rparr>"

definition parser_reset :: "parser \<Rightarrow> parser" where
  "parser_reset P = P\<lparr>ps_buf := [], ps_signingState := signing_reset (ps_signingState P)\<rparr>"

primrec unpack_fields ::
  "bytes \<Rightarrow> nat \<Rightarrow> field_meta list \<Rightarrow> (string \<rightharpoonup> field_value) \<Rightarrow> codec_error + (string \<rightharpoonup> field_value)" where
  "unpack_fields wdv off [] vals = Inr vals"
| "unpack_fields wdv off (field # fs) vals =
     res_bind (unpackField wdv off field) (\<lambda>(value, next).
       unpack_fields wdv next fs (vals(fm_name field \<mapsto> value)))"

text \<open>
  The signature check of a frame: \<open>None\<close> rejects it, \<open>Some\<close> carries whether the frame counts as
  signed and its link id, with the new signing state.
\<close>

definition check_signature ::
  "parser \<Rightarrow> signing_state \<Rightarrow> bytes \<Rightarrow> nat \<Rightarrow> nat \<Rightarrow> bool \<Rightarrow> (bool \<times> nat option) option \<times> signing_state" where
  "check_signature P sg buf start sigStart has_sig =
     (if has_sig then
        let linkId = unat (buf ! sigStart);
            ts = readTimestamp48 buf (sigStart + 1);
            frameSig = subarray (sigStart + 7) 6 buf
        in case ps_signing P of
             Some cfg \<Rightarrow>
               (case (sc_enabled cfg, sc_key cfg) of
                  (True, Some key) \<Rightarrow>
                    let expected = computeSignature key (subarray start (sigStart - start) buf) linkId ts
                    in if \<not> signaturesEqual expected frameSig then (None, sg)
                       else if ps_enforceMonotonic P then
                         (case acceptRxTimestamp sg linkId (unat (buf ! (start + 5)))
                                 (unat (buf ! (start + 6))) ts of
                            (ok, sg') \<Rightarrow> (if ok then Some (True, Some linkId) else None, sg'))
                       else (Some (True, Some linkId), sg)
                | _ \<Rightarrow> (Some (False, Some linkId), sg))
           | None \<Rightarrow> (Some (False, Some linkId), sg)
      else if \<not> unsignedAllowed (ps_signing P) then (None, sg)
      else (Some (False, None), sg))"

definition decode_fields :: "message_meta \<Rightarrow> nat \<Rightarrow> bytes \<Rightarrow> codec_error + (string \<rightharpoonup> field_value)" where
  "decode_fields meta version payload =
     (let count = fieldCount meta version
      in res_bind (payloadLength (mm_fields meta) count) (\<lambda>neededLen.
           let kept = take neededLen payload;
               work = kept @ replicate (neededLen - length kept) 0
           in unpack_fields work 0 (take count (mm_fields meta)) Map.empty))"

definition frame_msgId :: "bytes \<Rightarrow> nat \<Rightarrow> bool \<Rightarrow> nat" where
  "frame_msgId buf start isV2 =
     (if isV2 then le_nat (subarray (start + 7) 3 buf) else unat (buf ! (start + 5)))"

definition tryDecode ::
  "parser \<Rightarrow> (nat \<Rightarrow> int) \<Rightarrow> signing_state \<Rightarrow> bytes \<Rightarrow> nat \<Rightarrow> nat \<Rightarrow> bool \<Rightarrow> nat \<Rightarrow> bool
   \<Rightarrow> (codec_error + decoded_message option) \<times> signing_state" where
  "tryDecode P now sg buf start frameLen isV2 payloadLen has_sig =
     (let headerLen = (if isV2 then V2_HEADER else V1_HEADER);
          msgId = frame_msgId buf start isV2
      in case ps_index P msgId of
           None \<Rightarrow> (Inr None, sg)
         | Some meta \<Rightarrow>
             let crcEnd = start + headerLen + payloadLen;
                 crc = crcAccumulateRange buf (start + 1) crcEnd CRC_INIT;
                 crc = crcAccumulate (of_nat (mm_crcExtra meta) AND 0xff) crc;
                 frameCrc = ucast (buf ! crcEnd) OR push_bit 8 (ucast (buf ! (crcEnd + 1)))
             in if crc \<noteq> frameCrc then (Inr None, sg)
                else (case check_signature P sg buf start (crcEnd + 2) has_sig of
                        (None, sg') \<Rightarrow> (Inr None, sg')
                      | (Some (isSigned, linkId), sg') \<Rightarrow>
                          (res_bind (decode_fields meta (if isV2 then 2 else 1)
                                       (subarray (start + headerLen) payloadLen buf))
                             (\<lambda>fs. Inr (Some
                               \<lparr>dm_sysid = unat (buf ! (start + (if isV2 then 5 else 3))),
                                dm_compid = unat (buf ! (start + (if isV2 then 6 else 4))),
                                dm_seq = unat (buf ! (start + (if isV2 then 4 else 2))),
                                dm_msgId = msgId, dm_name = mm_name meta, dm_fields = fs,
                                dm_crcOk = True, dm_signed = isSigned, dm_linkId = linkId,
                                dm_rxTimeUs = now start,
                                dm_raw = subarray start frameLen buf\<rparr>)), sg')))"

text \<open>
  The loop. Its result is the messages in order, the final index and the position of the earliest
  incomplete candidate.
\<close>

type_synonym scan_result = "codec_error + decoded_message list \<times> nat \<times> nat option"

definition frame_length :: "bool \<Rightarrow> nat \<Rightarrow> bool \<Rightarrow> nat" where
  "frame_length isV2 payloadLen has_sig =
     (if isV2 then V2_HEADER else V1_HEADER) + payloadLen + 2 + (if has_sig then SIGNATURE_LEN else 0)"

definition cons_msg :: "decoded_message \<Rightarrow> scan_result \<times> signing_state \<Rightarrow> scan_result \<times> signing_state" where
  "cons_msg m r =
     (case r of (Inr (ms, i, w), sg) \<Rightarrow> (Inr (m # ms, i, w), sg) | (Inl e, sg) \<Rightarrow> (Inl e, sg))"

function scan ::
  "parser \<Rightarrow> (nat \<Rightarrow> int) \<Rightarrow> bytes \<Rightarrow> nat \<Rightarrow> nat option \<Rightarrow> signing_state \<Rightarrow> scan_result \<times> signing_state" where
  "scan P now buf i waitPos sg =
     (if \<not> i < length buf then (Inr ([], i, waitPos), sg)
      else if buf ! i \<noteq> MAGIC_V1 \<and> buf ! i \<noteq> MAGIC_V2 then scan P now buf (i + 1) waitPos sg
      else
        let isV2 = (buf ! i = MAGIC_V2);
            waiting = (case waitPos of None \<Rightarrow> Some i | Some w \<Rightarrow> Some w)
        in if length buf - i < (if isV2 then 3 else 2) then (Inr ([], i, waiting), sg)
           else
             let payloadLen = unat (buf ! (i + 1));
                 incompat = (if isV2 then buf ! (i + 2) else 0)
             in if incompat AND NOT MAVLINK_IFLAG_SIGNED \<noteq> 0 then scan P now buf (i + 1) waitPos sg
                else
                  let has_sig = (isV2 \<and> incompat AND MAVLINK_IFLAG_SIGNED \<noteq> 0);
                      frameLen = frame_length isV2 payloadLen has_sig
                  in if length buf - i < frameLen then scan P now buf (i + 1) waiting sg
                     else (case tryDecode P now sg buf i frameLen isV2 payloadLen has_sig of
                             (Inl e, sg') \<Rightarrow> (Inl e, sg')
                           | (Inr (Some m), sg') \<Rightarrow> cons_msg m (scan P now buf (i + frameLen) None sg')
                           | (Inr None, sg') \<Rightarrow> scan P now buf (i + 1) waitPos sg'))"
  by pat_completeness auto
termination
  by (relation "measure (\<lambda>(P, now, buf, i, w, sg). length buf - i)")
    (auto simp: frame_length_def V1_HEADER_def V2_HEADER_def)

declare scan.simps [simp del]

text \<open>A thrown error leaves the merged buffer in place.\<close>

definition push :: "parser \<Rightarrow> (nat \<Rightarrow> int) \<Rightarrow> bytes \<Rightarrow> (codec_error + decoded_message list) \<times> parser" where
  "push P now bs =
     (let buf = ps_buf P @ bs
      in case scan P now buf 0 None (ps_signingState P) of
           (Inl e, sg) \<Rightarrow> (Inl e, P\<lparr>ps_buf := buf, ps_signingState := sg\<rparr>)
         | (Inr (out, i, waitPos), sg) \<Rightarrow>
             let retain = (case waitPos of Some w \<Rightarrow> w | None \<Rightarrow> i)
             in (Inr out, P\<lparr>ps_buf := (if length buf \<le> retain then [] else drop retain buf),
                            ps_signingState := sg\<rparr>))"

section \<open>Induction over the scan\<close>

text \<open>
  The exits of one iteration, as an induction rule for properties of \<open>scan\<close>: stop, advance by one
  (remembering the candidate or not), reject, accept, or throw.
\<close>

definition candidate :: "bytes \<Rightarrow> nat \<Rightarrow> nat \<Rightarrow> bool \<Rightarrow> nat \<Rightarrow> bool \<Rightarrow> bool" where
  "candidate buf i frameLen isV2 payloadLen has_sig =
     (i + frameLen \<le> length buf \<and> isV2 = (buf ! i = MAGIC_V2) \<and> buf ! i \<in> {MAGIC_V1, MAGIC_V2} \<and>
      payloadLen = unat (buf ! (i + 1)) \<and> frameLen = frame_length isV2 payloadLen has_sig \<and>
      has_sig = (isV2 \<and> buf ! (i + 2) AND MAVLINK_IFLAG_SIGNED \<noteq> 0) \<and>
      (isV2 \<longrightarrow> buf ! (i + 2) AND NOT MAVLINK_IFLAG_SIGNED = 0))"

lemma frame_length_bounds: "payloadLen < 256 \<Longrightarrow> 8 \<le> frame_length isV2 payloadLen has_sig \<and>
  frame_length isV2 payloadLen has_sig \<le> 280"
  by (auto simp: frame_length_def V1_HEADER_def V2_HEADER_def SIGNATURE_LEN_def)

lemma scan_rule:
  assumes stop: "\<And>i w sg. length buf \<le> i \<Longrightarrow> Q i w sg (Inr ([], i, w), sg)"
    and short: "\<And>i w sg. i < length buf \<Longrightarrow> length buf < i + 3 \<Longrightarrow>
      Q i w sg (Inr ([], i, Some (case w of None \<Rightarrow> i | Some w \<Rightarrow> w)), sg)"
    and skip: "\<And>i w sg r. i < length buf \<Longrightarrow> Q (i + 1) w sg r \<Longrightarrow> Q i w sg r"
    and wait: "\<And>i w sg r. i < length buf \<Longrightarrow> length buf < i + 280 \<Longrightarrow>
      Q (i + 1) (Some (case w of None \<Rightarrow> i | Some w \<Rightarrow> w)) sg r \<Longrightarrow> Q i w sg r"
    and reject: "\<And>i w sg n v2 pl s sg' r. candidate buf i n v2 pl s \<Longrightarrow>
      tryDecode P now sg buf i n v2 pl s = (Inr None, sg') \<Longrightarrow> Q (i + 1) w sg' r \<Longrightarrow> Q i w sg r"
    and accept: "\<And>i w sg n v2 pl s m sg' r. candidate buf i n v2 pl s \<Longrightarrow>
      tryDecode P now sg buf i n v2 pl s = (Inr (Some m), sg') \<Longrightarrow> Q (i + n) None sg' r \<Longrightarrow> Q i w sg (cons_msg m r)"
    and throw: "\<And>i w sg n v2 pl s e sg'. candidate buf i n v2 pl s \<Longrightarrow>
      tryDecode P now sg buf i n v2 pl s = (Inl e, sg') \<Longrightarrow> Q i w sg (Inl e, sg')"
  shows "Q i w sg (scan P now buf i w sg)"
proof (induction "length buf - i" arbitrary: i w sg rule: less_induct)
  case less
  have next1: "Q (i + 1) w sg (scan P now buf (i + 1) w sg)" if "i < length buf" for w sg
    using that by (intro less) simp
  consider (ended) "length buf \<le> i"
    | (plain) "i < length buf" "buf ! i \<noteq> MAGIC_V1" "buf ! i \<noteq> MAGIC_V2"
    | (magic) "i < length buf" "buf ! i \<in> {MAGIC_V1, MAGIC_V2}"
    by fastforce
  then show ?case
  proof cases
    case ended
    then show ?thesis using stop by (simp add: scan.simps)
  next
    case plain
    then show ?thesis
      using skip [OF plain(1) next1] by (subst scan.simps) simp
  next
    case magic
    define v2 where "v2 = (buf ! i = MAGIC_V2)"
    define pl where "pl = unat (buf ! (i + 1))"
    define flags where "flags = (if v2 then buf ! (i + 2) else 0)"
    define s where "s = (v2 \<and> flags AND MAVLINK_IFLAG_SIGNED \<noteq> 0)"
    define n where "n = frame_length v2 pl s"
    have waiting: "(case w of None \<Rightarrow> Some i | Some w \<Rightarrow> Some w) = Some (case w of None \<Rightarrow> i | Some w \<Rightarrow> w)"
      by (cases w) simp_all
    have bounds: "8 \<le> n" "n \<le> 280"
      using frame_length_bounds [of pl v2 s] by (simp_all add: n_def pl_def)
    have eq: "scan P now buf i w sg =
      (if length buf - i < (if v2 then 3 else 2) then (Inr ([], i, Some (case w of None \<Rightarrow> i | Some w \<Rightarrow> w)), sg)
       else if flags AND NOT MAVLINK_IFLAG_SIGNED \<noteq> 0 then scan P now buf (i + 1) w sg
       else if length buf - i < n then scan P now buf (i + 1) (Some (case w of None \<Rightarrow> i | Some w \<Rightarrow> w)) sg
       else (case tryDecode P now sg buf i n v2 pl s of
               (Inl e, sg') \<Rightarrow> (Inl e, sg')
             | (Inr (Some m), sg') \<Rightarrow> cons_msg m (scan P now buf (i + n) None sg')
             | (Inr None, sg') \<Rightarrow> scan P now buf (i + 1) w sg'))"
      using magic by (subst scan.simps) (simp only: Let_def v2_def pl_def flags_def s_def n_def waiting, auto)
    show ?thesis
    proof (cases "length buf - i < (if v2 then 3 else 2)")
      case True
      then show ?thesis using short [of i w sg] magic(1) unfolding eq by (simp split: if_splits)
    next
      case long: False
      show ?thesis
      proof (cases "flags AND NOT MAVLINK_IFLAG_SIGNED \<noteq> 0")
        case True
        then show ?thesis using long skip [OF magic(1) next1 [OF magic(1)]] unfolding eq by simp
      next
        case flags: False
        show ?thesis
        proof (cases "length buf - i < n")
          case True
          then show ?thesis
            using long flags wait [OF magic(1) _ next1 [OF magic(1)]] bounds unfolding eq by simp
        next
          case complete: False
          then have cand: "candidate buf i n v2 pl s"
            using magic flags by (auto simp: candidate_def n_def pl_def v2_def s_def flags_def split: if_splits)
          obtain r sg' where td: "tryDecode P now sg buf i n v2 pl s = (r, sg')"
            by (cases "tryDecode P now sg buf i n v2 pl s")
          have eq: "scan P now buf i w sg =
             (case r of Inl e \<Rightarrow> (Inl e, sg') | Inr (Some m) \<Rightarrow> cons_msg m (scan P now buf (i + n) None sg')
              | Inr None \<Rightarrow> scan P now buf (i + 1) w sg')"
            using long flags complete unfolding eq td by (simp split: sum.split option.split)
          have next_n: "Q (i + n) None sg' (scan P now buf (i + n) None sg')"
            using complete bounds magic(1) by (intro less) simp
          show ?thesis
            unfolding eq
            using throw [OF cand] accept [OF cand _ next_n] reject [OF cand _ next1 [OF magic(1)]] td
            by (auto split: sum.split option.split)
        qed
      qed
    qed
  qed
qed

section \<open>The retained buffer\<close>

lemma scan_wait_bound:
  "case fst (scan P now buf i w sg) of
     Inl _ \<Rightarrow> True
   | Inr (_, i', w') \<Rightarrow> (\<forall>k. w = Some k \<longrightarrow> length buf < k + 280) \<longrightarrow>
       length buf < (case w' of None \<Rightarrow> i' | Some k \<Rightarrow> k) + 280"
  by (rule scan_rule [where Q = "\<lambda>i w sg r. case fst r of
     Inl _ \<Rightarrow> True
   | Inr (_, i', w') \<Rightarrow> (\<forall>k. w = Some k \<longrightarrow> length buf < k + 280) \<longrightarrow>
       length buf < (case w' of None \<Rightarrow> i' | Some k \<Rightarrow> k) + 280"])
    (auto simp: cons_msg_def split: option.splits sum.splits prod.splits)

lemma push_retained: "push P now bs = (Inr ms, P') \<Longrightarrow> length (ps_buf P') < 280"
  using scan_wait_bound [where P = P and now = now and buf = "ps_buf P @ bs" and i = 0 and w = None
      and sg = "ps_signingState P"]
  by (auto simp: push_def Let_def split: prod.splits sum.splits option.splits if_splits)

section \<open>Totality\<close>

text \<open>A message definition whose types are known and whose extension index is within the fields.\<close>

definition meta_ok :: "message_meta \<Rightarrow> bool" where
  "meta_ok meta =
     (list_all sized (mm_fields meta) \<and> (\<forall>n. mm_extensionIndex meta = Some n \<longrightarrow> n \<le> length (mm_fields meta)))"

lemma unpack_fields_total:
  "list_all sized fs \<Longrightarrow> off + sum_list (map size_of fs) \<le> length wdv \<Longrightarrow>
   \<exists>vals'. unpack_fields wdv off fs vals = Inr vals'"
proof (induction fs arbitrary: off vals)
  case Nil
  then show ?case by simp
next
  case (Cons f fs)
  then have "fieldSize f = Inr (size_of f)" by (simp add: sized_def)
  then show ?case
    using Cons unpackField_eq [of f "size_of f" off wdv] by simp
qed

lemma decode_fields_total:
  assumes "meta_ok meta"
  shows "\<exists>fs. decode_fields meta version payload = Inr fs"
proof -
  define count where "count = fieldCount meta version"
  have count: "count \<le> length (mm_fields meta)"
    using assms by (auto simp: count_def fieldCount_def meta_ok_def split: option.splits)
  have sized: "list_all sized (take count (mm_fields meta))"
    using assms by (auto simp: meta_ok_def list_all_iff dest: in_set_takeD)
  let ?n = "sum_list (map size_of (take count (mm_fields meta)))"
  have "payloadLength (mm_fields meta) count = Inr ?n"
    using payloadLength_sized [OF count sized] .
  then show ?thesis
    using unpack_fields_total [OF sized, of 0] by (simp add: decode_fields_def count_def Let_def)
qed

lemma tryDecode_total:
  assumes "\<And>meta. meta \<in> ran (ps_index P) \<Longrightarrow> meta_ok meta"
  shows "\<exists>m sg'. tryDecode P now sg buf start n v2 pl s = (Inr m, sg')"
proof (cases "ps_index P (frame_msgId buf start v2)")
  case None
  then show ?thesis by (simp add: tryDecode_def Let_def)
next
  case (Some meta)
  then have "meta_ok meta" using assms by (simp add: ranI)
  then have "\<exists>fs. decode_fields meta v payload = Inr fs" for v payload
    by (rule decode_fields_total)
  then obtain fs where "decode_fields meta (if v2 then 2 else 1)
      (subarray (start + (if v2 then V2_HEADER else V1_HEADER)) pl buf) = Inr fs" by blast
  then show ?thesis
    by (auto simp: tryDecode_def Let_def Some split: option.splits prod.splits)
qed

lemma scan_total:
  assumes "\<And>meta. meta \<in> ran (ps_index P) \<Longrightarrow> meta_ok meta"
  shows "\<exists>out. fst (scan P now buf i w sg) = Inr out"
proof (rule scan_rule [where Q = "\<lambda>i w sg r. \<exists>out. fst r = Inr out"])
  fix i w sg n v2 pl s e sg'
  assume "tryDecode P now sg buf i n v2 pl s = (Inl e, sg')"
  then show "\<exists>out. fst (Inl e, sg') = Inr out"
    using tryDecode_total [of P now sg buf i n v2 pl s] assms by auto
qed (auto simp: cons_msg_def split: sum.splits prod.splits)

text \<open>\<open>buildIndex\<close> only holds definitions of its dialects.\<close>

lemma ran_index_table: "ran (index_table index d) \<subseteq> ran index \<union> snd ` set (dt_messages d)"
proof -
  have "ran (foldl (\<lambda>index (_, meta). if mm_id meta \<in> dom index then index else index(mm_id meta \<mapsto> meta)) index ms)
    \<subseteq> ran index \<union> snd ` set ms" for ms :: "(nat \<times> message_meta) list"
  proof (induction ms arbitrary: index)
    case Nil
    then show ?case by simp
  next
    case (Cons m ms)
    obtain k meta where m: "m = (k, meta)" by (cases m)
    have "ran (index(mm_id meta \<mapsto> meta)) \<subseteq> ran index \<union> {meta}"
      by (auto simp: ran_def)
    then show ?case
      using Cons.IH [of index] Cons.IH [of "index(mm_id meta \<mapsto> meta)"]
      unfolding m by (simp add: fun_upd_def [symmetric] del: fun_upd_apply) blast
  qed
  then show ?thesis by (simp add: index_table_def)
qed

lemma ran_buildIndex: "ran (buildIndex ds) \<subseteq> (\<Union>d\<in>set ds. snd ` set (dt_messages d))"
proof -
  have "ran (foldl index_table index ds) \<subseteq> ran index \<union> (\<Union>d\<in>set ds. snd ` set (dt_messages d))" for index
  proof (induction ds arbitrary: index)
    case Nil
    then show ?case by simp
  next
    case (Cons d ds)
    show ?case using Cons.IH [of "index_table index d"] ran_index_table [of index d] by auto
  qed
  from this [of Map.empty] show ?thesis by (simp add: buildIndex_def)
qed

lemma push_index [simp]: "ps_index (snd (push P now bs)) = ps_index P"
  by (auto simp: push_def Let_def split: prod.splits sum.splits)

lemma push_total_index:
  assumes "\<And>meta. meta \<in> ran (ps_index P) \<Longrightarrow> meta_ok meta"
  shows "\<exists>ms P'. push P now bs = (Inr ms, P')"
  using scan_total [where P = P and now = now and buf = "ps_buf P @ bs" and i = 0 and w = None
      and sg = "ps_signingState P"] assms
  by (auto simp: push_def Let_def split: prod.splits sum.splits)

section \<open>What an emitted message witnesses\<close>

definition frame_body :: "decoded_message \<Rightarrow> bytes" where
  "frame_body m =
     (let v2 = (dm_raw m ! 0 = MAGIC_V2)
      in take ((if v2 then V2_HEADER else V1_HEADER) + unat (dm_raw m ! 1)) (dm_raw m))"

definition frame_flagged :: "decoded_message \<Rightarrow> bool" where
  "frame_flagged m = (dm_raw m ! 0 = MAGIC_V2 \<and> dm_raw m ! 2 AND MAVLINK_IFLAG_SIGNED \<noteq> 0)"

text \<open>
  The message is a contiguous part of the stream that starts with a magic byte; its id is known; the
  two bytes after the payload are the checksum over header, payload and the definition's extra byte;
  and with signing enabled and a key, a frame with a signature block carries the right signature and
  one without a block is only there if unsigned frames are allowed.
\<close>

definition authentic :: "parser \<Rightarrow> decoded_message \<Rightarrow> bool" where
  "authentic P m =
     (dm_raw m ! 0 \<in> {MAGIC_V1, MAGIC_V2} \<and>
      (\<exists>meta. ps_index P (dm_msgId m) = Some meta \<and> dm_name m = mm_name meta \<and>
        (let body = frame_body m; n = length body;
             crc = crcAccumulate (of_nat (mm_crcExtra meta) AND 0xff) (crc_bytes (tl body) CRC_INIT)
         in crc = ucast (dm_raw m ! n) OR push_bit 8 (ucast (dm_raw m ! (n + 1))) \<and>
            length (dm_raw m) = n + 2 + (if frame_flagged m then SIGNATURE_LEN else 0) \<and>
            (frame_flagged m \<longrightarrow>
              (\<forall>cfg key. ps_signing P = Some cfg \<longrightarrow> sc_enabled cfg \<longrightarrow> sc_key cfg = Some key \<longrightarrow>
                dm_signed m \<and>
                subarray (n + 9) 6 (dm_raw m) =
                  computeSignature key (take (n + 2) (dm_raw m)) (unat (dm_raw m ! (n + 2)))
                    (int (le_nat (subarray (n + 3) 6 (dm_raw m)))))) \<and>
            (\<not> frame_flagged m \<longrightarrow> unsignedAllowed (ps_signing P) \<and> \<not> dm_signed m))))"

lemma tryDecode_authentic:
  assumes c: "candidate buf i n v2 pl s" and m: "tryDecode P now sg buf i n v2 pl s = (Inr (Some m), sg')"
  shows "authentic P m \<and> dm_raw m = subarray i n buf"
proof -
  let ?h = "if v2 then V2_HEADER else V1_HEADER"
  let ?stop = "i + ?h + pl"
  obtain meta isSigned linkId where meta: "ps_index P (frame_msgId buf i v2) = Some meta"
    and crc: "crcAccumulate (of_nat (mm_crcExtra meta) AND 0xff) (crcAccumulateRange buf (i + 1) ?stop CRC_INIT)
      = ucast (buf ! ?stop) OR push_bit 8 (ucast (buf ! (?stop + 1)))"
    and sig: "check_signature P sg buf i (?stop + 2) s = (Some (isSigned, linkId), sg')"
    and fs: "dm_msgId m = frame_msgId buf i v2" "dm_name m = mm_name meta" "dm_signed m = isSigned"
      "dm_raw m = subarray i n buf"
    using m by (auto simp: tryDecode_def Let_def res_bind_Inr_iff split: option.splits prod.splits if_splits)
  have len: "i + n \<le> length buf" "n = ?h + pl + 2 + (if s then SIGNATURE_LEN else 0)"
    and hd: "v2 = (buf ! i = MAGIC_V2)" "buf ! i \<in> {MAGIC_V1, MAGIC_V2}" "pl = unat (buf ! (i + 1))"
      "s = (v2 \<and> buf ! (i + 2) AND MAVLINK_IFLAG_SIGNED \<noteq> 0)"
    using c by (auto simp: candidate_def frame_length_def)
  have h: "6 \<le> ?h" by (simp add: V1_HEADER_def V2_HEADER_def)
  have nth: "dm_raw m ! k = buf ! (i + k)" if "k < n" for k
    using that len by (simp add: fs nth_subarray)
  have nth': "dm_raw m ! 0 = buf ! i" "dm_raw m ! Suc 0 = buf ! Suc i" "dm_raw m ! 2 = buf ! Suc (Suc i)"
    using nth [of 0] nth [of 1] nth [of 2] h len by simp_all
  have body: "frame_body m = subarray i (?h + pl) buf"
    using len hd by (simp add: frame_body_def nth' fs subarray_def Let_def)
  have lenb: "length (frame_body m) = ?h + pl"
    using len by (simp add: body)
  have flagged: "frame_flagged m = s"
    using hd by (simp add: frame_flagged_def nth')
  have tl: "tl (frame_body m) = subarray (i + 1) (?h + pl - 1) buf"
    by (simp add: body subarray_def drop_Suc tl_drop tl_take)
  have crc': "crcAccumulateRange buf (i + 1) ?stop CRC_INIT = crc_bytes (tl (frame_body m)) CRC_INIT"
    using crcAccumulateRange_subarray [of "i + 1" ?stop buf CRC_INIT] len h by (simp add: tl add.assoc)
  have crc_ok: "crcAccumulate (of_nat (mm_crcExtra meta) AND 0xff) (crc_bytes (tl (frame_body m)) CRC_INIT)
      = ucast (dm_raw m ! length (frame_body m)) OR push_bit 8 (ucast (dm_raw m ! (length (frame_body m) + 1)))"
    using crc len unfolding crc' lenb by (simp add: nth add.assoc)
  have signed: "dm_signed m \<and> subarray (length (frame_body m) + 9) 6 (dm_raw m) =
      computeSignature key (take (length (frame_body m) + 2) (dm_raw m)) (unat (dm_raw m ! (length (frame_body m) + 2)))
        (int (le_nat (subarray (length (frame_body m) + 3) 6 (dm_raw m))))"
    if "s" "ps_signing P = Some cfg" "sc_enabled cfg" "sc_key cfg = Some key" for cfg key
  proof -
    have n: "n = ?h + pl + 15" using len(2) that(1) by (simp add: SIGNATURE_LEN_def)
    have "isSigned \<and> subarray (?stop + 2 + 7) 6 buf =
      computeSignature key (subarray i (?stop + 2 - i) buf) (unat (buf ! (?stop + 2)))
        (readTimestamp48 buf (?stop + 2 + 1))"
      using sig that by (auto simp: check_signature_def Let_def signaturesEqual_iff split: if_splits prod.splits)
    moreover have "readTimestamp48 buf (?stop + 2 + 1) = int (le_nat (subarray (?stop + 2 + 1) 6 buf))"
      using len n by (intro readTimestamp48_eq) simp
    moreover have "subarray (?stop + 2 + 1) 6 buf = subarray (length (frame_body m) + 3) 6 (dm_raw m)"
      "subarray (?stop + 2 + 7) 6 buf = subarray (length (frame_body m) + 9) 6 (dm_raw m)"
      "subarray i (?stop + 2 - i) buf = take (length (frame_body m) + 2) (dm_raw m)"
      "buf ! (?stop + 2) = dm_raw m ! (length (frame_body m) + 2)"
      using n nth [of "?h + pl + 2"] by (simp_all add: lenb fs subarray_def add.commute add.left_commute drop_take eval_nat_numeral)
    ultimately show ?thesis by (simp add: fs)
  qed
  have unsigned: "unsignedAllowed (ps_signing P) \<and> \<not> dm_signed m" if "\<not> s"
    using sig that by (auto simp: check_signature_def fs split: if_splits)
  have rawlen: "length (dm_raw m) = length (frame_body m) + 2 + (if s then SIGNATURE_LEN else 0)"
    using len lenb by (simp add: fs)
  have magic: "dm_raw m ! 0 \<in> {MAGIC_V1, MAGIC_V2}" using hd by (simp add: nth')
  show ?thesis
    unfolding authentic_def Let_def flagged
    using magic meta fs crc_ok rawlen signed unsigned by (intro conjI exI [of _ meta]) simp_all
qed

lemma scan_authentic:
  "case fst (scan P now buf i w sg) of Inl _ \<Rightarrow> True
   | Inr (ms, _) \<Rightarrow> \<forall>m\<in>set ms. authentic P m \<and> (\<exists>i n. dm_raw m = subarray i n buf)"
proof (rule scan_rule [where Q = "\<lambda>i w sg r. case fst r of Inl _ \<Rightarrow> True
   | Inr (ms, _) \<Rightarrow> \<forall>m\<in>set ms. authentic P m \<and> (\<exists>i n. dm_raw m = subarray i n buf)"])
  fix i w sg n v2 pl s m sg' and r :: "scan_result \<times> signing_state"
  assume c: "candidate buf i n v2 pl s" and m: "tryDecode P now sg buf i n v2 pl s = (Inr (Some m), sg')"
    and r: "case fst r of Inl _ \<Rightarrow> True
      | Inr (ms, _) \<Rightarrow> \<forall>m\<in>set ms. authentic P m \<and> (\<exists>i n. dm_raw m = subarray i n buf)"
  have "authentic P m \<and> (\<exists>i n. dm_raw m = subarray i n buf)"
    using tryDecode_authentic [OF c m] by blast
  with r show "case fst (cons_msg m r) of Inl _ \<Rightarrow> True
      | Inr (ms, _) \<Rightarrow> \<forall>m\<in>set ms. authentic P m \<and> (\<exists>i n. dm_raw m = subarray i n buf)"
    by (auto simp: cons_msg_def split: sum.splits prod.splits)
qed auto

lemma push_authentic_slice:
  assumes "push P now bs = (Inr ms, P')" "m \<in> set ms"
  shows "authentic P m \<and> (\<exists>i n. dm_raw m = subarray i n (ps_buf P @ bs))"
  using scan_authentic [where P = P and now = now and buf = "ps_buf P @ bs" and i = 0 and w = None
      and sg = "ps_signingState P"] assms
  by (auto simp: push_def Let_def split: prod.splits sum.splits)

end
