(* ===== verification/Frame_Round_Trip.thy ===== *)
theory Frame_Round_Trip
  imports Stream_Parser
begin

text \<open>
  The encoder and the parser together: the layout of an encoded frame, the decoding of its payload
  (zero-filled after truncation), of its checksum and of its signature block, and the run of the
  scan loop over a buffer that begins with encoded frames.
\<close>

section \<open>The payload\<close>

text \<open>Canonical values \<open>v\<close> of the fields, and the input object that carries them.\<close>

definition fields_ok :: "field_meta list \<Rightarrow> (string \<Rightarrow> field_value) \<Rightarrow> bool" where
  "fields_ok fs v = list_all (\<lambda>f. field_ok f (v (fm_name f))) fs"

definition fields_map :: "field_meta list \<Rightarrow> (string \<Rightarrow> field_value) \<Rightarrow> (string \<rightharpoonup> field_value)" where
  "fields_map fs v = (\<lambda>n. if n \<in> fm_name ` set fs then Some (v n) else None)"

lemma payload_bytes_ok:
  "fields_ok fs v \<Longrightarrow> \<exists>bs. payload_bytes (\<lambda>n. embed (v n)) fs = Inr bs"
proof (induction fs)
  case Nil
  then show ?case by simp
next
  case (Cons f fs)
  then obtain bs b where "payload_bytes (\<lambda>n. embed (v n)) fs = Inr bs" "field_bytes f (embed (v (fm_name f))) = Inr b"
    using field_bytes_round_trip by (fastforce simp: fields_ok_def)
  then show ?case by simp
qed

lemma unpack_fields_eq:
  "fields_ok fs v \<Longrightarrow> payload_bytes (\<lambda>n. embed (v n)) fs = Inr bs \<Longrightarrow>
   unpack_fields (pre @ bs) (length pre) fs m = Inr (m ++ fields_map fs v)"
proof (induction fs arbitrary: pre bs m)
  case Nil
  then show ?case by (simp add: fields_map_def map_add_def)
next
  case (Cons f fs)
  then obtain b r where b: "field_bytes f (embed (v (fm_name f))) = Inr b"
    and r: "payload_bytes (\<lambda>n. embed (v n)) fs = Inr r" and bs: "bs = b @ r"
    by (auto simp: res_bind_Inr_iff)
  have ok: "field_ok f (v (fm_name f))" "fields_ok fs v"
    using Cons.prems by (simp_all add: fields_ok_def)
  have read: "field_of_bytes f b = v (fm_name f)"
    using field_bytes_round_trip [OF ok(1)] b by auto
  have "unpackField (pre @ bs) (length pre) f = Inr (v (fm_name f), length pre + length b)"
    using unpackField_eq [OF length_field_bytes [OF b], of "length pre" "pre @ bs"] read bs
    by (simp add: subarray_def)
  moreover have "unpack_fields ((pre @ b) @ r) (length (pre @ b)) fs (m(fm_name f \<mapsto> v (fm_name f)))
      = Inr (m(fm_name f \<mapsto> v (fm_name f)) ++ fields_map fs v)"
    using Cons.IH ok(2) r by blast
  moreover have "m(fm_name f \<mapsto> v (fm_name f)) ++ fields_map fs v = m ++ fields_map (f # fs) v"
    by (auto simp: fields_map_def map_add_def fun_eq_iff)
  ultimately show ?case by (simp add: bs)
qed

lemma decode_fields_eq:
  assumes ok: "fields_ok (take (fieldCount meta version) (mm_fields meta)) v"
    and count: "fieldCount meta version \<le> length (mm_fields meta)"
    and bs: "payload_bytes (\<lambda>n. embed (v n)) (take (fieldCount meta version) (mm_fields meta)) = Inr bs"
    and zeros: "pl @ replicate (length bs - length pl) 0 = bs" "length pl \<le> length bs"
  shows "decode_fields meta version pl
    = Inr (fields_map (take (fieldCount meta version) (mm_fields meta)) v)"
proof -
  have "payloadLength (mm_fields meta) (fieldCount meta version) = Inr (length bs)"
    using pack_payload(1) [OF bs count] .
  then show ?thesis
    using unpack_fields_eq [OF ok bs, of "[]" Map.empty] zeros
    by (simp add: decode_fields_def)
qed

section \<open>The frame\<close>

definition frame_crc :: "message_meta \<Rightarrow> bytes \<Rightarrow> u32" where
  "frame_crc meta body = crcAccumulate (of_nat (mm_crcExtra meta) AND 0xff) (crc_bytes (tl body) CRC_INIT)"

definition crc_wire :: "u32 \<Rightarrow> bytes" where
  "crc_wire c = [ucast c, ucast (drop_bit 8 c)]"

definition sig_block :: "bytes \<Rightarrow> frame_signing option \<Rightarrow> bytes" where
  "sig_block frame s =
     (case s of None \<Rightarrow> []
      | Some s \<Rightarrow> [of_nat (fsg_linkId s)] @ le_bytes 6 (nat (fsg_timestamp s mod 2 ^ 48))
          @ computeSignature (fsg_key s) frame (fsg_linkId s) (fsg_timestamp s))"

definition wire_payload :: "nat \<Rightarrow> bytes \<Rightarrow> bytes" where
  "wire_payload version bs = (if version = 2 then take (truncatedLength bs) bs else bs)"

lemma length_wire_payload: "length (wire_payload version bs) =
  (if version = 2 then truncatedLength bs else length bs)"
  using trunc_from_le [of bs "length bs"] by (simp add: wire_payload_def truncatedLength_def)

lemma wire_payload_restore:
  "wire_payload version bs @ replicate (length bs - length (wire_payload version bs)) 0 = bs"
  "length (wire_payload version bs) \<le> length bs"
  using truncated_restore [of bs] trunc_from_le [of bs "length bs"]
  by (auto simp: wire_payload_def truncatedLength_def min_def)

lemma subarray_all: "subarray 0 n xs = take n xs"
  by (simp add: subarray_def)

lemma crcAccumulateRange_tl: "body \<noteq> [] \<Longrightarrow> crcAccumulateRange body 1 (length body) acc = crc_bytes (tl body) acc"
  using crcAccumulateRange_subarray [of 1 "length body" body acc]
  by (cases body) (simp_all add: subarray_def)

lemma frame_header_length:
  "length (frame_header meta input opts n) = (if eo_version opts = 2 then V2_HEADER else V1_HEADER)"
  by (simp add: frame_header_def V1_HEADER_def V2_HEADER_def)

lemma encodeFrame_eq:
  assumes bs: "payload_bytes (mi_fields input) (take (fieldCount meta (eo_version opts)) (mm_fields meta)) = Inr bs"
    and count: "fieldCount meta (eo_version opts) \<le> length (mm_fields meta)"
  defines "pl \<equiv> wire_payload (eo_version opts) bs"
  defines "body \<equiv> frame_header meta input opts (length pl) @ pl"
  defines "frame \<equiv> body @ crc_wire (frame_crc meta body)"
  shows "encodeFrame meta input opts =
    Inr (frame @ sig_block frame (if eo_version opts = 2 then eo_signing opts else None))"
proof -
  have "body \<noteq> []" by (simp add: body_def frame_header_def)
  then have crc: "crcAccumulateRange body 1 (length body) acc = crc_bytes (tl body) acc" for acc
    by (rule crcAccumulateRange_tl)
  have pl: "(if eo_version opts = 2 then truncatedLength bs else length bs) = length pl"
    by (simp add: pl_def length_wire_payload)
  have sub: "subarray 0 (length pl) bs = pl"
    using wire_payload_restore [of "eo_version opts" bs] unfolding subarray_all pl_def
    by (metis append_eq_conv_conj)
  have ts: "writeTimestamp48 (replicate 6 0) 0 t = le_bytes 6 (nat (t mod 2 ^ 48))" for t
    by (simp add: writeTimestamp48_eq)
  show ?thesis
    unfolding encodeFrame_def Let_def pack_payload(1) [OF bs count] res_bind_simps
      pack_payload(2) [OF bs count] pl sub body_def [symmetric] crc frame_crc_def [symmetric]
      crc_wire_def [symmetric] frame_def [symmetric] ts
    by (auto simp: sig_block_def split: option.splits)
qed

lemma crc_wire_read:
  assumes "take_bit 16 c = (c :: u32)"
  shows "(ucast (ucast c :: u8) :: u32) OR push_bit 8 (ucast (ucast (drop_bit 8 c) :: u8)) = c"
proof (rule bit_word_eqI)
  fix n
  assume "n < LENGTH(32)"
  have "n < 16" if "bit c n" using fitsD [OF assms that] .
  then show "bit ((ucast (ucast c :: u8) :: u32) OR push_bit 8 (ucast (ucast (drop_bit 8 c) :: u8))) n = bit c n"
    by (auto simp: bit_or_iff bit_push_bit_iff bit_ucast_iff bit_drop_bit_eq)
qed

lemma take_bit_frame_crc: "take_bit 16 (frame_crc meta body) = frame_crc meta body"
  by (simp add: frame_crc_def take_bit_crcAccumulate)

section \<open>Decoding one frame\<close>

definition message_of ::
  "(nat \<Rightarrow> int) \<Rightarrow> nat \<Rightarrow> message_meta \<Rightarrow> bool \<Rightarrow> bytes \<Rightarrow> nat \<Rightarrow> (string \<rightharpoonup> field_value) \<Rightarrow> bool \<Rightarrow> nat option \<Rightarrow> decoded_message" where
  "message_of now start meta isV2 frame msgId fs isSigned linkId =
     \<lparr>dm_sysid = unat (frame ! (if isV2 then 5 else 3)),
      dm_compid = unat (frame ! (if isV2 then 6 else 4)),
      dm_seq = unat (frame ! (if isV2 then 4 else 2)),
      dm_msgId = msgId, dm_name = mm_name meta, dm_fields = fs, dm_crcOk = True,
      dm_signed = isSigned, dm_linkId = linkId, dm_rxTimeUs = now start, dm_raw = frame\<rparr>"

lemma nth_pre: "(pre @ xs) ! (length pre + k) = xs ! k"
  by (simp add: nth_append)

lemma tryDecode_frame:
  assumes buf: "buf = pre @ (body @ crc_wire (frame_crc meta body) @ sgb) @ post"
    and body: "body = hdr @ pl" "length hdr = (if isV2 then V2_HEADER else V1_HEADER)"
    and meta: "ps_index P (frame_msgId hdr 0 isV2) = Some meta"
    and sig: "check_signature P sg buf (length pre) (length pre + length body + 2) has_sig = (Some (isSigned, linkId), sg')"
    and fs: "decode_fields meta (if isV2 then 2 else 1) pl = Inr fs"
    and len: "frameLen = length body + 2 + length sgb"
  shows "tryDecode P now sg buf (length pre) frameLen isV2 (length pl) has_sig =
    (Inr (Some (message_of now (length pre) meta isV2 (body @ crc_wire (frame_crc meta body) @ sgb)
       (frame_msgId hdr 0 isV2) fs isSigned linkId)), sg')"
proof -
  let ?s = "length pre" and ?frame = "body @ crc_wire (frame_crc meta body) @ sgb"
  let ?hl = "if isV2 then V2_HEADER else V1_HEADER"
  have hl: "length hdr = ?hl" by (rule body(2))
  have hpos: "6 \<le> length hdr" "isV2 \<Longrightarrow> length hdr = 10"
    using hl by (auto simp: V1_HEADER_def V2_HEADER_def split: if_splits)
  have bufn: "buf ! (?s + k) = ?frame ! k" if "k < length ?frame" for k
    using that unfolding buf by (simp add: nth_append del: append_assoc)
  have sub: "subarray (?s + k) n buf = subarray k n ?frame" if "k + n \<le> length ?frame" for k n
    using that unfolding buf by (simp add: subarray_def)
  have lenb: "length body = length hdr + length pl" by (simp add: body(1))
  have id: "frame_msgId buf ?s isV2 = frame_msgId hdr 0 isV2"
    using hpos bufn [of 5] sub [of 7 3]
    by (auto simp: frame_msgId_def body(1) nth_append subarray_def)
  have crcEnd: "?s + ?hl + length pl = ?s + length body" using hl lenb by simp
  have "subarray (?s + 1) (length body - 1) buf = subarray 1 (length body - 1) ?frame"
    using hpos lenb by (intro sub) simp
  also have "\<dots> = tl body" using hpos body(1) by (cases hdr) (simp_all add: subarray_def)
  finally have crc: "crcAccumulateRange buf (?s + 1) (?s + length body) acc = crc_bytes (tl body) acc" for acc
    using crcAccumulateRange_subarray [of "?s + 1" "?s + length body" buf acc] hpos lenb buf by simp
  then have crc': "crcAccumulate (of_nat (mm_crcExtra meta) AND 0xff)
      (crcAccumulateRange buf (Suc ?s) (?s + length body) CRC_INIT) = frame_crc meta body"
    by (simp add: frame_crc_def)
  have c0: "buf ! (?s + length body) = ucast (frame_crc meta body)"
    using bufn [of "length body"] by (simp add: crc_wire_def)
  have c1: "buf ! (?s + length body + 1) = ucast (drop_bit 8 (frame_crc meta body))"
    using bufn [of "length body + 1"] by (simp add: crc_wire_def nth_append)
  have "subarray (length hdr) (length pl) ?frame = pl"
    unfolding body(1) by (simp add: subarray_def)
  then have payload: "subarray (?s + ?hl) (length pl) buf = pl"
    using sub [of "length hdr" "length pl"] lenb by (simp add: hl)
  have raw: "subarray ?s frameLen buf = ?frame"
    using sub [of 0 frameLen] len by (simp add: subarray_def crc_wire_def)
  have ids: "buf ! (?s + k) = ?frame ! k" if "k < 6 \<or> isV2 \<and> k = 6" for k
    using that hpos lenb by (intro bufn) (auto simp: crc_wire_def)
  show ?thesis
    using meta sig fs
    by (simp add: tryDecode_def Let_def id crcEnd crc' c0 c1 c1 [simplified]
        crc_wire_read take_bit_frame_crc payload raw message_of_def ids)
qed

section \<open>The signature block\<close>

lemma of_nat_mod_u8: "(of_nat (n mod 256) :: u8) = of_nat n"
  by (simp add: word_unat_eq_iff unat_of_nat take_bit_eq_mod)

lemma computeSignature_wire:
  "computeSignature key frame (l mod 256) (t mod 2 ^ 48) = computeSignature key frame l t"
  by (simp add: computeSignature_eq of_nat_mod_u8)

text \<open>
  What the parser decides on a frame sent with the signature parameters \<open>s\<close>: the policy of
  \<open>check_signature\<close> without the buffer.
\<close>

definition verdict ::
  "parser \<Rightarrow> signing_state \<Rightarrow> bytes \<Rightarrow> frame_signing option \<Rightarrow> nat \<Rightarrow> nat \<Rightarrow> (bool \<times> nat option) option \<times> signing_state" where
  "verdict P sg frame s sysid compid =
     (case s of
        None \<Rightarrow> (if unsignedAllowed (ps_signing P) then Some (False, None) else None, sg)
      | Some s \<Rightarrow>
          let linkId = fsg_linkId s mod 256; ts = fsg_timestamp s mod 2 ^ 48
          in case ps_signing P of
               Some cfg \<Rightarrow>
                 (case (sc_enabled cfg, sc_key cfg) of
                    (True, Some key) \<Rightarrow>
                      if computeSignature key frame linkId ts \<noteq> computeSignature (fsg_key s) frame linkId ts
                      then (None, sg)
                      else if ps_enforceMonotonic P then
                        (case acceptRxTimestamp sg linkId sysid compid ts of
                           (ok, sg') \<Rightarrow> (if ok then Some (True, Some linkId) else None, sg'))
                      else (Some (True, Some linkId), sg)
                  | _ \<Rightarrow> (Some (False, Some linkId), sg))
             | None \<Rightarrow> (Some (False, Some linkId), sg))"

lemma check_signature_block:
  assumes buf: "buf = pre @ (frame @ sig_block frame s) @ post" and len: "6 < length frame"
  shows "check_signature P sg buf (length pre) (length pre + length frame) (s \<noteq> None)
    = verdict P sg frame s (unat (frame ! 5)) (unat (frame ! 6))"
proof (cases s)
  case None
  then show ?thesis by (simp add: check_signature_def verdict_def)
next
  case (Some sig)
  let ?n = "length pre + length frame"
  have n: "buf ! ?n = of_nat (fsg_linkId sig)"
    unfolding buf Some sig_block_def by (simp add: nth_append)
  have link: "unat (buf ! ?n) = fsg_linkId sig mod 256"
    unfolding n by (simp add: unat_of_nat take_bit_eq_mod)
  have "subarray (?n + 1) 6 buf = le_bytes 6 (nat (fsg_timestamp sig mod 2 ^ 48))"
    unfolding buf Some sig_block_def by (simp add: subarray_def)
  moreover have "?n + 1 + 6 \<le> length buf"
    unfolding buf Some sig_block_def by simp
  ultimately have ts: "readTimestamp48 buf (Suc ?n) = fsg_timestamp sig mod 2 ^ 48"
    using readTimestamp48_eq [of "?n + 1" buf] by (simp add: le_nat_le_bytes nat_less_iff)
  have sg: "subarray (?n + 7) 6 buf = computeSignature (fsg_key sig) frame (fsg_linkId sig) (fsg_timestamp sig)"
    unfolding buf Some sig_block_def by (simp add: subarray_def)
  have fr: "subarray (length pre) (?n - length pre) buf = frame"
    unfolding buf by (simp add: subarray_def)
  have ids: "buf ! (length pre + 5) = frame ! 5" "buf ! (length pre + 6) = frame ! 6"
    unfolding buf using len by (simp_all add: nth_append)
  show ?thesis
    unfolding Some
    by (simp add: check_signature_def verdict_def Let_def link ts ts [simplified] sg fr fr [simplified] ids
        signaturesEqual_iff computeSignature_wire [simplified] split: option.splits prod.splits bool.splits)
qed

section \<open>Scanning encoded frames\<close>

text \<open>A message to send: its definition, its canonical values, its sender and the encoding options.\<close>

record sent =
  st_meta :: message_meta
  st_vals :: "string \<Rightarrow> field_value"
  st_sysid :: nat
  st_compid :: nat
  st_opts :: encode_frame_options

definition sent_v2 :: "sent \<Rightarrow> bool" where
  "sent_v2 t = (eo_version (st_opts t) = 2)"

definition sent_input :: "sent \<Rightarrow> message_input" where
  "sent_input t =
     \<lparr>mi_name = mm_name (st_meta t), mi_fields = \<lambda>n. embed (st_vals t n),
      mi_sysid = st_sysid t, mi_compid = st_compid t\<rparr>"

definition sent_bytes :: "sent \<Rightarrow> bytes" where
  "sent_bytes t = (case encodeFrame (st_meta t) (sent_input t) (st_opts t) of Inr bs \<Rightarrow> bs | Inl _ \<Rightarrow> [])"

definition sent_fields :: "sent \<Rightarrow> field_meta list" where
  "sent_fields t = take (fieldCount (st_meta t) (eo_version (st_opts t))) (mm_fields (st_meta t))"

definition sent_signing :: "sent \<Rightarrow> frame_signing option" where
  "sent_signing t = (if sent_v2 t then eo_signing (st_opts t) else None)"

text \<open>
  What the encoder's caller ensures: a known message of the dialect whose id fits the header of its
  version, canonical values, identifiers of one byte, and a payload of at most 255 bytes.
\<close>

definition sendable :: "parser \<Rightarrow> sent \<Rightarrow> bool" where
  "sendable P t =
     (ps_index P (mm_id (st_meta t)) = Some (st_meta t) \<and>
      eo_version (st_opts t) \<in> {1, 2} \<and>
      mm_id (st_meta t) < (if sent_v2 t then 2 ^ 24 else 2 ^ 8) \<and>
      fieldCount (st_meta t) (eo_version (st_opts t)) \<le> length (mm_fields (st_meta t)) \<and>
      fields_ok (sent_fields t) (st_vals t) \<and>
      sum_list (map size_of (sent_fields t)) \<le> 255 \<and>
      st_sysid t < 256 \<and> st_compid t < 256 \<and> eo_seq (st_opts t) < 256)"

text \<open>The frame up to its checksum.\<close>

definition sent_frame :: "sent \<Rightarrow> bytes" where
  "sent_frame t = (if sent_signing t = None then sent_bytes t else take (length (sent_bytes t) - SIGNATURE_LEN) (sent_bytes t))"

definition expected :: "(nat \<Rightarrow> int) \<Rightarrow> nat \<Rightarrow> sent \<Rightarrow> bool \<Rightarrow> nat option \<Rightarrow> decoded_message" where
  "expected now start t isSigned linkId =
     \<lparr>dm_sysid = st_sysid t, dm_compid = st_compid t, dm_seq = eo_seq (st_opts t),
      dm_msgId = mm_id (st_meta t), dm_name = mm_name (st_meta t),
      dm_fields = fields_map (sent_fields t) (st_vals t), dm_crcOk = True,
      dm_signed = isSigned, dm_linkId = linkId, dm_rxTimeUs = now start, dm_raw = sent_bytes t\<rparr>"

definition sent_verdict :: "parser \<Rightarrow> signing_state \<Rightarrow> sent \<Rightarrow> (bool \<times> nat option) option \<times> signing_state" where
  "sent_verdict P sg t = verdict P sg (sent_frame t) (sent_signing t) (st_sysid t) (st_compid t)"

lemma length_sig_block: "length (sig_block frame s) = (if s = None then 0 else SIGNATURE_LEN)"
  by (auto simp: sig_block_def SIGNATURE_LEN_def)

lemma sent_layout:
  assumes "sendable P t"
  obtains hdr pl bs where
    "payload_bytes (\<lambda>n. embed (st_vals t n)) (sent_fields t) = Inr bs"
    "pl = wire_payload (eo_version (st_opts t)) bs" "length pl \<le> 255"
    "hdr = frame_header (st_meta t) (sent_input t) (st_opts t) (length pl)"
    "sent_frame t = (hdr @ pl) @ crc_wire (frame_crc (st_meta t) (hdr @ pl))"
    "sent_bytes t = sent_frame t @ sig_block (sent_frame t) (sent_signing t)"
    "encodeFrame (st_meta t) (sent_input t) (st_opts t) = Inr (sent_bytes t)"
proof -
  have ok: "fields_ok (sent_fields t) (st_vals t)" and sum: "sum_list (map size_of (sent_fields t)) \<le> 255"
    and count: "fieldCount (st_meta t) (eo_version (st_opts t)) \<le> length (mm_fields (st_meta t))"
    using assms by (simp_all add: sendable_def)
  obtain bs where bs: "payload_bytes (\<lambda>n. embed (st_vals t n)) (sent_fields t) = Inr bs"
    using payload_bytes_ok [OF ok] by blast
  define pl where "pl = wire_payload (eo_version (st_opts t)) bs"
  define hdr where "hdr = frame_header (st_meta t) (sent_input t) (st_opts t) (length pl)"
  define frame where "frame = (hdr @ pl) @ crc_wire (frame_crc (st_meta t) (hdr @ pl))"
  have "length bs = sum_list (map size_of (sent_fields t))"
    using payload_bytes_sized [OF bs] by simp
  then have len: "length pl \<le> 255"
    using sum wire_payload_restore(2) [of "eo_version (st_opts t)" bs] by (simp add: pl_def)
  have bs': "payload_bytes (mi_fields (sent_input t))
      (take (fieldCount (st_meta t) (eo_version (st_opts t))) (mm_fields (st_meta t))) = Inr bs"
    using bs by (simp add: sent_fields_def sent_input_def)
  have enc: "encodeFrame (st_meta t) (sent_input t) (st_opts t) = Inr (frame @ sig_block frame (sent_signing t))"
    using encodeFrame_eq [OF bs' count] by (simp add: frame_def hdr_def pl_def sent_signing_def sent_v2_def)
  have bytes: "sent_bytes t = frame @ sig_block frame (sent_signing t)"
    by (simp add: sent_bytes_def enc)
  then have frame: "sent_frame t = frame"
    by (simp add: sent_frame_def length_sig_block) (simp add: sig_block_def)
  show ?thesis
    using that [OF bs pl_def len hdr_def] frame bytes enc by (simp add: frame_def)
qed

lemma le_nat_id3:
  assumes "i < 2 ^ 24"
  shows "le_nat [of_nat i, of_nat (i div 2 ^ 8), of_nat (i div 2 ^ 16)] = i"
proof -
  have "[of_nat i, of_nat (i div 2 ^ 8), of_nat (i div 2 ^ 16)] = le_bytes 3 i"
    by (simp add: numeral_3_eq_3 of_nat_mod_u8 div_mult2_eq [symmetric])
  then show ?thesis using assms by (simp add: le_nat_le_bytes)
qed

lemma unat_of_nat_small: "n < 256 \<Longrightarrow> unat (of_nat n :: u8) = n"
  by (simp add: unat_of_nat take_bit_eq_mod)

lemma tryDecode_sent:
  assumes t: "sendable P t" and buf: "buf = pre @ sent_bytes t @ post"
    and ok: "sent_verdict P sg t = (Some (isSigned, linkId), sg')"
  obtains n where "n < 256" "frame_length (sent_v2 t) n (sent_signing t \<noteq> None) = length (sent_bytes t)"
    "unat (sent_bytes t ! 1) = n" "sent_bytes t ! 0 = (if sent_v2 t then MAGIC_V2 else MAGIC_V1)"
    "sent_v2 t \<Longrightarrow> sent_bytes t ! 2 = (if sent_signing t = None then 0 else MAVLINK_IFLAG_SIGNED)"
    "tryDecode P now sg buf (length pre) (length (sent_bytes t)) (sent_v2 t) n (sent_signing t \<noteq> None)
      = (Inr (Some (expected now (length pre) t isSigned linkId)), sg')"
proof -
  obtain hdr pl bs where bs: "payload_bytes (\<lambda>n. embed (st_vals t n)) (sent_fields t) = Inr bs"
    and pl: "pl = wire_payload (eo_version (st_opts t)) bs" and len: "length pl \<le> 255"
    and hdr: "hdr = frame_header (st_meta t) (sent_input t) (st_opts t) (length pl)"
    and frame: "sent_frame t = (hdr @ pl) @ crc_wire (frame_crc (st_meta t) (hdr @ pl))"
    and bytes: "sent_bytes t = sent_frame t @ sig_block (sent_frame t) (sent_signing t)"
    and enc: "encodeFrame (st_meta t) (sent_input t) (st_opts t) = Inr (sent_bytes t)"
    using sent_layout [OF t] .
  let ?v2 = "sent_v2 t" and ?body = "hdr @ pl" and ?sgb = "sig_block (sent_frame t) (sent_signing t)"
  have hlen: "length hdr = (if ?v2 then V2_HEADER else V1_HEADER)"
    by (simp add: hdr frame_header_length sent_v2_def)
  then have hpos: "6 \<le> length hdr" "?v2 \<Longrightarrow> 10 \<le> length hdr"
    by (auto simp: V1_HEADER_def V2_HEADER_def)
  have nth: "sent_bytes t ! k = hdr ! k" if "k < 6 \<or> ?v2 \<and> k < 10" for k
    using that hpos by (auto simp: bytes frame nth_append)
  have small: "st_sysid t < 256" "st_compid t < 256" "eo_seq (st_opts t) < 256"
    using t by (simp_all add: sendable_def)
  have id: "frame_msgId hdr 0 ?v2 = mm_id (st_meta t)"
  proof (cases ?v2)
    case True
    then have "subarray (0 + 7) 3 hdr
        = [of_nat (mm_id (st_meta t)), of_nat (mm_id (st_meta t) div 2 ^ 8), of_nat (mm_id (st_meta t) div 2 ^ 16)]"
      by (simp add: hdr frame_header_def sent_v2_def subarray_def)
    with True t show ?thesis
      by (simp only: frame_msgId_def if_True le_nat_id3 sendable_def)
  next
    case False
    with t show ?thesis
      by (simp add: hdr frame_msgId_def frame_header_def sendable_def sent_v2_def unat_of_nat_small)
  qed
  have meta: "ps_index P (frame_msgId hdr 0 ?v2) = Some (st_meta t)"
    using t by (simp add: id sendable_def)
  have fields: "decode_fields (st_meta t) (if ?v2 then 2 else 1) pl = Inr (fields_map (sent_fields t) (st_vals t))"
  proof -
    have v: "(if ?v2 then 2 else 1) = eo_version (st_opts t)" using t by (auto simp: sendable_def sent_v2_def)
    show ?thesis
      unfolding v sent_fields_def
      using t bs wire_payload_restore [of "eo_version (st_opts t)" bs]
      by (intro decode_fields_eq) (simp_all add: sendable_def sent_fields_def pl)
  qed
  have flen: "length (sent_frame t) = length ?body + 2" by (simp add: frame crc_wire_def)
  have src: "unat (sent_frame t ! 5) = st_sysid t \<and> unat (sent_frame t ! 6) = st_compid t" if "?v2"
  proof -
    have "sent_frame t ! 5 = hdr ! 5" "sent_frame t ! 6 = hdr ! 6"
      using hpos(2) [OF that] by (simp_all add: frame nth_append)
    then show ?thesis
      using that small by (simp add: hdr frame_header_def sent_v2_def sent_input_def unat_of_nat_small)
  qed
  have "check_signature P sg buf (length pre) (length pre + length (sent_frame t)) (sent_signing t \<noteq> None)
      = verdict P sg (sent_frame t) (sent_signing t) (unat (sent_frame t ! 5)) (unat (sent_frame t ! 6))"
    using hpos flen by (intro check_signature_block) (simp_all add: buf bytes)
  also have "\<dots> = (Some (isSigned, linkId), sg')"
  proof (cases ?v2)
    case True
    with ok src show ?thesis by (simp add: sent_verdict_def)
  next
    case False
    with ok show ?thesis by (simp add: sent_verdict_def sent_signing_def verdict_def)
  qed
  finally have sig: "check_signature P sg buf (length pre) (length pre + length ?body + 2) (sent_signing t \<noteq> None)
      = (Some (isSigned, linkId), sg')"
    unfolding flen by (simp add: add.assoc)
  have buf': "buf = pre @ (?body @ crc_wire (frame_crc (st_meta t) ?body) @ ?sgb) @ post"
    by (simp add: buf bytes frame)
  have "tryDecode P now sg buf (length pre) (length (sent_bytes t)) ?v2 (length pl) (sent_signing t \<noteq> None)
      = (Inr (Some (message_of now (length pre) (st_meta t) ?v2 (?body @ crc_wire (frame_crc (st_meta t) ?body) @ ?sgb)
          (frame_msgId hdr 0 ?v2) (fields_map (sent_fields t) (st_vals t)) isSigned linkId)), sg')"
    by (rule tryDecode_frame [OF buf' refl hlen meta sig fields]) (simp add: bytes flen)
  also have "?body @ crc_wire (frame_crc (st_meta t) ?body) @ ?sgb = sent_bytes t"
    by (simp add: bytes frame)
  also have "message_of now (length pre) (st_meta t) ?v2 (sent_bytes t) (frame_msgId hdr 0 ?v2)
      (fields_map (sent_fields t) (st_vals t)) isSigned linkId = expected now (length pre) t isSigned linkId"
    using small unfolding message_of_def expected_def id by (auto simp: nth hdr frame_header_def sent_v2_def sent_input_def
        unat_of_nat_small)
  finally have dec: "tryDecode P now sg buf (length pre) (length (sent_bytes t)) ?v2 (length pl) (sent_signing t \<noteq> None)
      = (Inr (Some (expected now (length pre) t isSigned linkId)), sg')" .
  show ?thesis
  proof (rule that [of "length pl", OF _ _ _ _ _ dec])
    show "length pl < 256" using len by simp
    show "frame_length ?v2 (length pl) (sent_signing t \<noteq> None) = length (sent_bytes t)"
      by (simp add: frame_length_def bytes flen length_sig_block hlen)
    show "unat (sent_bytes t ! 1) = length pl"
      using len by (simp add: nth hdr frame_header_def unat_of_nat_small)
    show "sent_bytes t ! 0 = (if ?v2 then MAGIC_V2 else MAGIC_V1)"
      by (simp add: nth hdr frame_header_def sent_v2_def)
    show "sent_bytes t ! 2 = (if sent_signing t = None then 0 else MAVLINK_IFLAG_SIGNED)" if ?v2
      using that by (auto simp: nth hdr frame_header_def sent_v2_def sent_signing_def split: option.splits)
  qed
qed

lemma scan_sent:
  assumes "sendable P t" "buf = pre @ sent_bytes t @ post"
    and "sent_verdict P sg t = (Some (isSigned, linkId), sg')"
  shows "scan P now buf (length pre) w sg
    = cons_msg (expected now (length pre) t isSigned linkId)
        (scan P now buf (length pre + length (sent_bytes t)) None sg')"
proof -
  obtain n where n: "n < 256" "frame_length (sent_v2 t) n (sent_signing t \<noteq> None) = length (sent_bytes t)"
    "unat (sent_bytes t ! 1) = n" "sent_bytes t ! 0 = (if sent_v2 t then MAGIC_V2 else MAGIC_V1)"
    and flags: "sent_v2 t \<Longrightarrow> sent_bytes t ! 2 = (if sent_signing t = None then 0 else MAVLINK_IFLAG_SIGNED)"
    and dec: "tryDecode P now sg buf (length pre) (length (sent_bytes t)) (sent_v2 t) n (sent_signing t \<noteq> None)
      = (Inr (Some (expected now (length pre) t isSigned linkId)), sg')"
    using tryDecode_sent [OF assms, of now] by metis
  have len: "8 \<le> length (sent_bytes t)" "sent_v2 t \<Longrightarrow> 12 \<le> length (sent_bytes t)"
    using n(2) by (auto simp: frame_length_def V1_HEADER_def V2_HEADER_def split: if_splits)
  have nth: "buf ! (length pre + k) = sent_bytes t ! k" if "k < length (sent_bytes t)" for k
    using that by (simp add: assms(2) nth_append)
  have nth0: "buf ! length pre = sent_bytes t ! 0" and nth1: "buf ! Suc (length pre) = sent_bytes t ! 1"
    and nth2: "buf ! Suc (Suc (length pre)) = sent_bytes t ! 2"
    using nth [of 0] nth [of 1] nth [of 2] len by (auto simp del: length_greater_0_conv)
  have blen: "length buf - length pre = length (sent_bytes t) + length post"
    by (simp add: assms(2))
  have magic: "MAGIC_V1 \<noteq> MAGIC_V2" by (simp add: MAGIC_V1_def MAGIC_V2_def)
  have v1: "sent_signing t = None" if "\<not> sent_v2 t"
    using that by (simp add: sent_signing_def)
  have inside: "length pre < length buf" using len by (cases "sent_bytes t") (simp_all add: assms(2))
  show ?thesis
  proof (cases "sent_v2 t")
    case True
    then have "buf ! length pre = MAGIC_V2" using n(4) nth0 by simp
    with True show ?thesis
      using n(2) n(3) dec flags [OF True] len inside magic
      by (cases "sent_signing t = None"; subst scan.simps)
        (simp_all add: Let_def nth1 nth2 blen MAVLINK_IFLAG_SIGNED_def del: not_None_eq)
  next
    case False
    then have "buf ! length pre = MAGIC_V1" using n(4) nth0 by simp
    with False show ?thesis
      using n(2) n(3) dec v1 [OF False] len inside magic
      by (subst scan.simps) (simp add: Let_def nth1 nth2 blen del: not_None_eq)
  qed
qed

text \<open>
  The parser's decisions on a sequence of frames, each with the signing state the previous one left,
  and the messages it then emits.
\<close>

fun receive ::
  "parser \<Rightarrow> signing_state \<Rightarrow> sent list \<Rightarrow> ((bool \<times> nat option) list \<times> signing_state) option" where
  "receive P sg [] = Some ([], sg)"
| "receive P sg (t # ts) =
     (case sent_verdict P sg t of
        (None, _) \<Rightarrow> None
      | (Some r, sg') \<Rightarrow> map_option (\<lambda>(rs, sg''). (r # rs, sg'')) (receive P sg' ts))"

fun expected_run :: "(nat \<Rightarrow> int) \<Rightarrow> nat \<Rightarrow> sent list \<Rightarrow> (bool \<times> nat option) list \<Rightarrow> decoded_message list" where
  "expected_run now start (t # ts) ((isSigned, linkId) # rs) =
     expected now start t isSigned linkId # expected_run now (start + length (sent_bytes t)) ts rs"
| "expected_run now start _ _ = []"

lemma scan_sent_run:
  "list_all (sendable P) ts \<Longrightarrow> receive P sg ts = Some (rs, sg') \<Longrightarrow>
   buf = pre @ concat (map sent_bytes ts) \<Longrightarrow>
   scan P now buf (length pre) None sg = (Inr (expected_run now (length pre) ts rs, length buf, None), sg')"
proof (induction ts arbitrary: pre sg rs)
  case Nil
  then show ?case by (simp add: scan.simps)
next
  case (Cons t ts)
  obtain isSigned linkId sg1 rs1 where v: "sent_verdict P sg t = (Some (isSigned, linkId), sg1)"
    and rest: "receive P sg1 ts = Some (rs1, sg')" and rs: "rs = (isSigned, linkId) # rs1"
    using Cons.prems(2) by (auto split: prod.splits option.splits)
  have "scan P now buf (length (pre @ sent_bytes t)) None sg1
      = (Inr (expected_run now (length (pre @ sent_bytes t)) ts rs1, length buf, None), sg')"
    using Cons.IH [of sg1 rs1 "pre @ sent_bytes t"] Cons.prems rest by simp
  moreover have "scan P now buf (length pre) None sg
    = cons_msg (expected now (length pre) t isSigned linkId) (scan P now buf (length pre + length (sent_bytes t)) None sg1)"
    using Cons.prems v by (intro scan_sent) auto
  ultimately show ?case by (simp add: rs cons_msg_def)
qed

lemma push_sent_run:
  assumes "list_all (sendable P) ts" "receive P (ps_signingState P) ts = Some (rs, sg')" "ps_buf P = []"
  shows "push P now (concat (map sent_bytes ts))
    = (Inr (expected_run now 0 ts rs), P\<lparr>ps_buf := [], ps_signingState := sg'\<rparr>)"
  using scan_sent_run [OF assms(1,2), of "concat (map sent_bytes ts)" "[]"] assms(3)
  by (simp add: push_def Let_def)

end
