(* ===== verification/Mav_Codec.thy ===== *)
theory Mav_Codec
  imports Frame_Round_Trip
begin

text \<open>
  \<open>src/mavlink/codec/codec.ts\<close>: the codec object \<open>createMavCodec\<close> returns. Its state is the name
  index, the outgoing sequence number and the outgoing signing state; \<open>encode\<close> returns the frame (or
  the error) and the new state. The clock behind the signing time stamp is an argument. The theory
  ends with the session theorem: what one codec signs, a replay-rejecting parser accepts.
\<close>

section \<open>The code\<close>

record mav_codec =
  mc_nameIndex :: "string \<rightharpoonup> message_meta"
  mc_signingState :: signing_state
  mc_txSeq :: nat

record encode_options =
  op_version :: nat
  op_signing :: "signing_config option"
  op_seq :: "nat option"
  op_timestamp :: "int option"

definition index_names :: "(string \<rightharpoonup> message_meta) \<Rightarrow> dialect_table \<Rightarrow> (string \<rightharpoonup> message_meta)" where
  "index_names index dialect =
     foldl (\<lambda>index (_, meta). if mm_name meta \<in> dom index then index else index(mm_name meta \<mapsto> meta))
       index (dt_messages dialect)"

definition createMavCodec :: "dialect_table list \<Rightarrow> mav_codec" where
  "createMavCodec dialects =
     \<lparr>mc_nameIndex = foldl index_names Map.empty dialects, mc_signingState = signing_init, mc_txSeq = 0\<rparr>"

definition codec_seq :: "mav_codec \<Rightarrow> encode_options \<Rightarrow> nat \<times> mav_codec" where
  "codec_seq C opts =
     (case op_seq opts of
        Some s \<Rightarrow> (s mod 256, C)
      | None \<Rightarrow> (mc_txSeq C, C\<lparr>mc_txSeq := (mc_txSeq C + 1) mod 256\<rparr>))"

definition codec_signing :: "mav_codec \<Rightarrow> encode_options \<Rightarrow> int \<Rightarrow> frame_signing option \<times> mav_codec" where
  "codec_signing C opts clock =
     (if op_version opts = 2 then
        (case op_signing opts of
           Some cfg \<Rightarrow>
             (case (sc_enabled cfg, sc_key cfg) of
                (True, Some key) \<Rightarrow>
                  (let (ts, sg) = (case op_timestamp opts of
                          Some ts \<Rightarrow> (ts, mc_signingState C)
                        | None \<Rightarrow> nextTxTimestamp (mc_signingState C) clock)
                   in (Some \<lparr>fsg_key = key,
                             fsg_linkId = (case sc_linkId cfg of Some l \<Rightarrow> l | None \<Rightarrow> 0),
                             fsg_timestamp = ts\<rparr>,
                       C\<lparr>mc_signingState := sg\<rparr>))
              | _ \<Rightarrow> (None, C))
         | None \<Rightarrow> (None, C))
      else (None, C))"

definition codec_encode ::
  "mav_codec \<Rightarrow> message_input \<Rightarrow> encode_options \<Rightarrow> int \<Rightarrow> (codec_error + bytes) \<times> mav_codec" where
  "codec_encode C input opts clock =
     (case mc_nameIndex C (mi_name input) of
        None \<Rightarrow> (Inl (UnknownMessage (mi_name input)), C)
      | Some meta \<Rightarrow>
          let (s, C) = codec_seq C opts;
              (signing, C) = codec_signing C opts clock
          in (encodeFrame meta input \<lparr>eo_version = op_version opts, eo_seq = s, eo_signing = signing\<rparr>, C))"

definition codec_parser :: "dialect_table list \<Rightarrow> signing_config option \<Rightarrow> bool option \<Rightarrow> parser" where
  "codec_parser dialects signing enforce =
     new_parser dialects signing (case enforce of Some b \<Rightarrow> b | None \<Rightarrow> False)"

section \<open>The name index\<close>

lemma index_names_entry:
  "index_names index d n = Some meta \<Longrightarrow> index n = Some meta \<or> (mm_name meta = n \<and> meta \<in> snd ` set (dt_messages d))"
proof -
  have "foldl (\<lambda>index (_, meta). if mm_name meta \<in> dom index then index else index(mm_name meta \<mapsto> meta)) index ms n = Some meta
    \<Longrightarrow> index n = Some meta \<or> (mm_name meta = n \<and> meta \<in> snd ` set ms)" for ms :: "(nat \<times> message_meta) list"
    by (induction ms arbitrary: index) (fastforce split: prod.splits if_splits)+
  then show "index_names index d n = Some meta \<Longrightarrow> ?thesis" by (simp add: index_names_def)
qed

lemma createMavCodec_entry:
  assumes "mc_nameIndex (createMavCodec ds) n = Some meta"
  shows "mm_name meta = n \<and> (\<exists>d\<in>set ds. meta \<in> snd ` set (dt_messages d))"
proof -
  have "foldl index_names index ds n = Some meta \<Longrightarrow>
    index n = Some meta \<or> (mm_name meta = n \<and> (\<exists>d\<in>set ds. meta \<in> snd ` set (dt_messages d)))" for index
    by (induction ds arbitrary: index) (auto dest!: index_names_entry)
  from this [of Map.empty] assms show ?thesis by (simp add: createMavCodec_def)
qed

section \<open>A signed session\<close>

text \<open>A request of a sender: the definition, canonical values, the sender's ids and the clock reading.\<close>

record request =
  rq_meta :: message_meta
  rq_vals :: "string \<Rightarrow> field_value"
  rq_sysid :: nat
  rq_compid :: nat
  rq_clock :: int

definition request_input :: "request \<Rightarrow> message_input" where
  "request_input r =
     \<lparr>mi_name = mm_name (rq_meta r), mi_fields = \<lambda>n. embed (rq_vals r n),
      mi_sysid = rq_sysid r, mi_compid = rq_compid r\<rparr>"

definition signed_opts :: "signing_config \<Rightarrow> encode_options" where
  "signed_opts cfg = \<lparr>op_version = 2, op_signing = Some cfg, op_seq = None, op_timestamp = None\<rparr>"

text \<open>The frames of a run of \<open>encode\<close>, and the codec it leaves.\<close>

fun codec_run :: "mav_codec \<Rightarrow> signing_config \<Rightarrow> request list \<Rightarrow> (codec_error + bytes list) \<times> mav_codec" where
  "codec_run C cfg [] = (Inr [], C)"
| "codec_run C cfg (r # rs) =
     (case codec_encode C (request_input r) (signed_opts cfg) (rq_clock r) of
        (Inl e, C') \<Rightarrow> (Inl e, C')
      | (Inr f, C') \<Rightarrow>
          (case codec_run C' cfg rs of (Inl e, C'') \<Rightarrow> (Inl e, C'') | (Inr fs, C'') \<Rightarrow> (Inr (f # fs), C'')))"

text \<open>The frames as \<open>sent\<close> records, numbered and stamped as the codec does.\<close>

definition next_stamp :: "int \<Rightarrow> int \<Rightarrow> int" where
  "next_stamp prev_ts clock = (if prev_ts < clock then clock else prev_ts + 1)"

definition session_sent :: "bytes \<Rightarrow> nat \<Rightarrow> nat \<Rightarrow> int \<Rightarrow> request \<Rightarrow> sent" where
  "session_sent key linkId txSeq ts r =
     \<lparr>st_meta = rq_meta r, st_vals = rq_vals r, st_sysid = rq_sysid r, st_compid = rq_compid r,
      st_opts = \<lparr>eo_version = 2, eo_seq = txSeq,
                 eo_signing = Some \<lparr>fsg_key = key, fsg_linkId = linkId, fsg_timestamp = ts\<rparr>\<rparr>\<rparr>"

fun session :: "bytes \<Rightarrow> nat \<Rightarrow> nat \<Rightarrow> int \<Rightarrow> request list \<Rightarrow> sent list" where
  "session key linkId txSeq prev_ts [] = []"
| "session key linkId txSeq prev_ts (r # rs) =
     session_sent key linkId txSeq (next_stamp prev_ts (rq_clock r)) r
     # session key linkId ((txSeq + 1) mod 256) (next_stamp prev_ts (rq_clock r)) rs"

definition request_ok :: "parser \<Rightarrow> mav_codec \<Rightarrow> request \<Rightarrow> bool" where
  "request_ok P C r =
     (mc_nameIndex C (mm_name (rq_meta r)) = Some (rq_meta r) \<and>
      ps_index P (mm_id (rq_meta r)) = Some (rq_meta r) \<and>
      mm_id (rq_meta r) < 2 ^ 24 \<and>
      fields_ok (mm_fields (rq_meta r)) (rq_vals r) \<and>
      sum_list (map size_of (mm_fields (rq_meta r))) \<le> 255 \<and>
      rq_sysid r < 256 \<and> rq_compid r < 256)"

lemma fieldCount_v2 [simp]: "fieldCount meta 2 = length (mm_fields meta)"
  by (simp add: fieldCount_def)

lemma session_sendable:
  "request_ok P C r \<Longrightarrow> txSeq < 256 \<Longrightarrow> sendable P (session_sent key linkId txSeq ts r)"
  by (simp add: session_sent_def request_ok_def sendable_def sent_v2_def sent_fields_def)

lemma codec_encode_session:
  assumes r: "request_ok P C r" and cfg: "sc_enabled cfg" "sc_key cfg = Some key"
    and link: "linkId = (case sc_linkId cfg of Some l \<Rightarrow> l | None \<Rightarrow> 0)"
    and sq: "mc_txSeq C < 256"
  defines "ts \<equiv> next_stamp (lastTx (mc_signingState C)) (rq_clock r)"
  shows "codec_encode C (request_input r) (signed_opts cfg) (rq_clock r) =
    (Inr (sent_bytes (session_sent key linkId (mc_txSeq C) ts r)),
     C\<lparr>mc_txSeq := (mc_txSeq C + 1) mod 256, mc_signingState := (mc_signingState C)\<lparr>lastTx := ts\<rparr>\<rparr>)"
proof -
  define t where "t = session_sent key linkId (mc_txSeq C) ts r"
  have "sendable P t" unfolding t_def using r sq by (rule session_sendable)
  then have "encodeFrame (st_meta t) (sent_input t) (st_opts t) = Inr (sent_bytes t)"
    using sent_layout by metis
  moreover have "sent_input t = request_input r" "st_meta t = rq_meta r"
    "st_opts t = \<lparr>eo_version = 2, eo_seq = mc_txSeq C,
       eo_signing = Some \<lparr>fsg_key = key, fsg_linkId = linkId, fsg_timestamp = ts\<rparr>\<rparr>"
    by (simp_all add: t_def session_sent_def sent_input_def request_input_def)
  ultimately have enc: "encodeFrame (rq_meta r) (request_input r) \<lparr>eo_version = 2, eo_seq = mc_txSeq C,
       eo_signing = Some \<lparr>fsg_key = key, fsg_linkId = linkId, fsg_timestamp = ts\<rparr>\<rparr> = Inr (sent_bytes t)"
    by simp
  have sg: "codec_signing C' (signed_opts cfg) (rq_clock r) =
      (Some \<lparr>fsg_key = key, fsg_linkId = linkId, fsg_timestamp = ts\<rparr>,
       C'\<lparr>mc_signingState := (mc_signingState C)\<lparr>lastTx := ts\<rparr>\<rparr>)"
    if "mc_signingState C' = mc_signingState C" for C'
    using cfg that
    by (simp add: codec_signing_def signed_opts_def nextTxTimestamp_def Let_def link ts_def next_stamp_def)
  have "mc_nameIndex C (mi_name (request_input r)) = Some (rq_meta r)"
    using r by (simp add: request_ok_def request_input_def)
  moreover have "op_seq (signed_opts cfg) = None" "op_version (signed_opts cfg) = 2"
    by (simp_all add: signed_opts_def)
  ultimately show ?thesis
    using enc by (simp add: codec_encode_def codec_seq_def Let_def sg t_def [symmetric])
qed

lemma codec_run_session:
  "list_all (request_ok P C) rs \<Longrightarrow> sc_enabled cfg \<Longrightarrow> sc_key cfg = Some key \<Longrightarrow>
   linkId = (case sc_linkId cfg of Some l \<Rightarrow> l | None \<Rightarrow> 0) \<Longrightarrow> mc_txSeq C < 256 \<Longrightarrow>
   fst (codec_run C cfg rs) = Inr (map sent_bytes (session key linkId (mc_txSeq C) (lastTx (mc_signingState C)) rs))"
proof (induction rs arbitrary: C)
  case Nil
  then show ?case by simp
next
  case (Cons r rs)
  define ts where "ts = next_stamp (lastTx (mc_signingState C)) (rq_clock r)"
  define C' where "C' = C\<lparr>mc_txSeq := (mc_txSeq C + 1) mod 256, mc_signingState := (mc_signingState C)\<lparr>lastTx := ts\<rparr>\<rparr>"
  have "request_ok P C r" using Cons.prems by simp
  note enc = codec_encode_session [OF this Cons.prems(2-5), folded ts_def, folded C'_def]
  have "list_all (request_ok P C') rs"
    using Cons.prems(1) by (simp add: list_all_iff request_ok_def C'_def)
  then have "fst (codec_run C' cfg rs) = Inr (map sent_bytes (session key linkId ((mc_txSeq C + 1) mod 256) ts rs))"
    using Cons.IH [of C'] Cons.prems by (simp add: C'_def)
  then show ?case by (auto simp: enc ts_def split: prod.splits sum.splits)
qed

text \<open>The time stamp after the run: the state's last one, moved on by every request.\<close>

fun last_stamp :: "int \<Rightarrow> request list \<Rightarrow> int" where
  "last_stamp prev_ts [] = prev_ts"
| "last_stamp prev_ts (r # rs) = last_stamp (next_stamp prev_ts (rq_clock r)) rs"

lemma next_stamp_greater: "prev_ts < next_stamp prev_ts clock"
  by (simp add: next_stamp_def)

lemma last_stamp_ge: "prev_ts \<le> last_stamp prev_ts rs"
proof (induction rs arbitrary: prev_ts)
  case Nil
  then show ?case by simp
next
  case (Cons r rs)
  show ?case
    using Cons [of "next_stamp prev_ts (rq_clock r)"] next_stamp_greater [of prev_ts "rq_clock r"] by simp
qed

lemma session_receive:
  assumes "ps_signing P = Some cfg" "sc_enabled cfg" "sc_key cfg = Some key" "linkId < 256"
  shows "list_all (request_ok P C) rs \<Longrightarrow> txSeq < 256 \<Longrightarrow> 0 \<le> prev_ts \<Longrightarrow> last_stamp prev_ts rs < 2 ^ 48 \<Longrightarrow>
   (\<And>k prev. lastRx sg k = Some prev \<Longrightarrow> prev \<le> prev_ts) \<Longrightarrow>
   \<exists>sg'. receive P sg (session key linkId txSeq prev_ts rs) = Some (replicate (length rs) (True, Some linkId), sg')"
proof (induction rs arbitrary: sg txSeq prev_ts)
  case Nil
  then show ?case by simp
next
  case (Cons r rs)
  define ts where "ts = next_stamp prev_ts (rq_clock r)"
  define t where "t = session_sent key linkId txSeq ts r"
  have ts: "prev_ts < ts" "0 \<le> ts" "ts < 2 ^ 48"
    using Cons.prems(3,4) last_stamp_ge [of ts rs] next_stamp_greater [of prev_ts "rq_clock r"]
    by (simp_all add: ts_def)
  define sg1 where "sg1 = (if ps_enforceMonotonic P
      then sg\<lparr>lastRx := (lastRx sg)(rx_key linkId (rq_sysid r) (rq_compid r) \<mapsto> ts)\<rparr> else sg)"
  have fresh: "acceptRxTimestamp sg linkId (rq_sysid r) (rq_compid r) ts
      = (True, sg\<lparr>lastRx := (lastRx sg)(rx_key linkId (rq_sysid r) (rq_compid r) \<mapsto> ts)\<rparr>)"
    using Cons.prems(5) ts by (fastforce simp: acceptRx_cases)
  have "ts mod 2 ^ 48 = ts" using ts by simp
  then have verdict: "sent_verdict P sg t = (Some (True, Some linkId), sg1)"
    using assms fresh
    by (simp add: sent_verdict_def verdict_def sent_signing_def sent_v2_def t_def session_sent_def sg1_def Let_def)
  have "prev \<le> ts" if "lastRx sg1 k = Some prev" for k prev
    using that Cons.prems(5) [of k prev] ts by (auto simp: sg1_def split: if_splits)
  then obtain sg' where "receive P sg1 (session key linkId ((txSeq + 1) mod 256) ts rs)
      = Some (replicate (length rs) (True, Some linkId), sg')"
    using Cons.IH [of "(txSeq + 1) mod 256" ts sg1] Cons.prems ts by (auto simp: ts_def)
  then show ?case
    using verdict by (simp add: ts_def [symmetric] t_def [symmetric])
qed

lemma session_list_sendable:
  "list_all (request_ok P C) rs \<Longrightarrow> txSeq < 256 \<Longrightarrow> list_all (sendable P) (session key linkId txSeq prev_ts rs)"
  by (induction rs arbitrary: txSeq prev_ts) (auto intro: session_sendable)

lemma length_session [simp]: "length (session key linkId txSeq prev_ts rs) = length rs"
  by (induction rs arbitrary: txSeq prev_ts) simp_all

text \<open>What is delivered: one message per request, in order, with its values, numbered, signed.\<close>

definition delivers :: "request list \<Rightarrow> nat \<Rightarrow> decoded_message list \<Rightarrow> bool" where
  "delivers rs linkId ms =
     (map dm_name ms = map (\<lambda>r. mm_name (rq_meta r)) rs \<and>
      map dm_fields ms = map (\<lambda>r. fields_map (mm_fields (rq_meta r)) (rq_vals r)) rs \<and>
      map dm_sysid ms = map rq_sysid rs \<and> map dm_compid ms = map rq_compid rs \<and>
      list_all (\<lambda>m. dm_signed m \<and> dm_crcOk m \<and> dm_linkId m = Some linkId) ms)"

lemma expected_run_delivers:
  "delivers rs linkId (expected_run now start (session key linkId txSeq prev_ts rs)
     (replicate (length rs) (True, Some linkId)))"
  by (induction rs arbitrary: start txSeq prev_ts)
    (auto simp: delivers_def expected_def session_sent_def sent_fields_def)

lemma signed_session_delivers:
  assumes "list_all (request_ok (codec_parser ds (Some cfg) enforce) (createMavCodec ds')) rs"
    and "sc_enabled cfg" "sc_key cfg = Some key"
    and "linkId = (case sc_linkId cfg of Some l \<Rightarrow> l | None \<Rightarrow> 0)" "linkId < 256"
    and "last_stamp 0 rs < 2 ^ 48"
  shows "\<exists>frames ms P'. fst (codec_run (createMavCodec ds') cfg rs) = Inr frames \<and>
    push (codec_parser ds (Some cfg) enforce) now (concat frames) = (Inr ms, P') \<and> delivers rs linkId ms"
proof -
  let ?P = "codec_parser ds (Some cfg) enforce" and ?C = "createMavCodec ds'"
  let ?S = "session key linkId 0 0 rs"
  have P: "ps_signing ?P = Some cfg" "ps_buf ?P = []" "ps_signingState ?P = signing_init"
    by (simp_all add: codec_parser_def new_parser_def)
  have C: "mc_txSeq ?C = 0" "lastTx (mc_signingState ?C) = 0"
    by (simp_all add: createMavCodec_def signing_init_def)
  have frames: "fst (codec_run ?C cfg rs) = Inr (map sent_bytes ?S)"
    using codec_run_session [OF assms(1-4)] C by simp
  obtain sg' where "receive ?P (ps_signingState ?P) ?S = Some (replicate (length rs) (True, Some linkId), sg')"
    using session_receive [OF P(1) assms(2,3,5,1), of 0 0 signing_init] assms(6) P(3)
    by (auto simp: signing_init_def)
  then have "push ?P now (concat (map sent_bytes ?S))
      = (Inr (expected_run now 0 ?S (replicate (length rs) (True, Some linkId))),
         ?P\<lparr>ps_buf := [], ps_signingState := sg'\<rparr>)"
    using session_list_sendable [OF assms(1), of 0] P(2) by (intro push_sent_run) simp_all
  with frames expected_run_delivers show ?thesis by blast
qed

end
