(* ===== verification/Codec_Properties.thy ===== *)
theory Codec_Properties
  imports Mav_Codec
begin

text \<open>
  The properties of the codec: integrity (checksum, digest), losslessness (floats, fields, frames),
  the parser's safety and totality, and the signing layer from end to end. Each follows from the
  lemmas of the theory that models its part. The witnesses use the HEARTBEAT of the bundled dialect.
\<close>

section \<open>A dialect\<close>

definition scalar_field :: "string \<Rightarrow> string \<Rightarrow> field_meta" where
  "scalar_field n t = \<lparr>fm_name = n, fm_type = t, fm_arrayLen = None\<rparr>"

definition heartbeat_meta :: message_meta where
  "heartbeat_meta =
     \<lparr>mm_id = 0, mm_name = ''HEARTBEAT'', mm_crcExtra = 50,
      mm_fields = [scalar_field ''custom_mode'' ''uint32_t'', scalar_field ''type'' ''uint8_t'',
        scalar_field ''autopilot'' ''uint8_t'', scalar_field ''base_mode'' ''uint8_t'',
        scalar_field ''system_status'' ''uint8_t'', scalar_field ''mavlink_version'' ''uint8_t''],
      mm_extensionIndex = None\<rparr>"

definition heartbeat_dialect :: dialect_table where
  "heartbeat_dialect = \<lparr>dt_name = ''heartbeat'', dt_messages = [(0, heartbeat_meta)]\<rparr>"

definition heartbeat_vals :: "string \<Rightarrow> field_value" where
  "heartbeat_vals n = FNum (if n = ''custom_mode'' then js_int 65536 else js_int 3)"

definition secret :: signing_config where
  "secret = \<lparr>sc_enabled = True, sc_key = Some (replicate 32 7), sc_linkId = Some 1, sc_allowUnsigned = None\<rparr>"

lemma heartbeat_ok:
  "fields_ok (mm_fields heartbeat_meta) heartbeat_vals"
  "sum_list (map size_of (mm_fields heartbeat_meta)) = 9"
  "list_all sized (mm_fields heartbeat_meta)"
  by (simp_all add: fields_ok_def heartbeat_meta_def heartbeat_vals_def scalar_field_def field_ok_def
      typeInfo_def TYPE_INFO_def isArray_def scalar_ok_def num_ok_def size_of_def sized_def fieldSize_def
      elementCount_def)

lemma heartbeat_index: "buildIndex [heartbeat_dialect] = [0 \<mapsto> heartbeat_meta]"
  by (simp add: buildIndex_def index_table_def heartbeat_dialect_def heartbeat_meta_def)

lemma heartbeat_names: "mc_nameIndex (createMavCodec [heartbeat_dialect]) = [''HEARTBEAT'' \<mapsto> heartbeat_meta]"
  by (simp add: createMavCodec_def index_names_def heartbeat_dialect_def heartbeat_meta_def)

lemma heartbeat_id: "mm_id heartbeat_meta = 0" "mm_name heartbeat_meta = ''HEARTBEAT''"
  by (simp_all add: heartbeat_meta_def)

definition heartbeat_requests :: "request list" where
  "heartbeat_requests =
     map (\<lambda>clock. \<lparr>rq_meta = heartbeat_meta, rq_vals = heartbeat_vals, rq_sysid = 255, rq_compid = 190,
                 rq_clock = clock\<rparr>) [5000, 4000]"

definition heartbeat_sent :: sent where
  "heartbeat_sent =
     \<lparr>st_meta = heartbeat_meta, st_vals = heartbeat_vals, st_sysid = 255, st_compid = 190,
      st_opts = \<lparr>eo_version = 1, eo_seq = 9, eo_signing = None\<rparr>\<rparr>"

section \<open>End to end\<close>

text \<open>
  C1. Signing from end to end: whatever a codec encodes in a session with an enabled key, a parser
  with the same configuration accepts, one message for each request in order, with the values given,
  marked signed, whether or not it rejects replays. So the time stamps the sender invents when its
  clock stands still or runs backwards never make the receiver drop its frames.
\<close>

theorem codec_signed_session:
  assumes "list_all (request_ok (codec_parser ds (Some cfg) enforce) (createMavCodec ds')) rs"
    and "sc_enabled cfg" "sc_key cfg = Some key"
    and "linkId = (case sc_linkId cfg of Some l \<Rightarrow> l | None \<Rightarrow> 0)" "linkId < 256"
    and "last_stamp 0 rs < 2 ^ 48"
  shows "\<exists>frames ms P'. fst (codec_run (createMavCodec ds') cfg rs) = Inr frames \<and>
    push (codec_parser ds (Some cfg) enforce) now (concat frames) = (Inr ms, P') \<and> delivers rs linkId ms"
  using assms by (rule signed_session_delivers)

theorem codec_signed_session_witness:
  "\<exists>frames ms P'. fst (codec_run (createMavCodec [heartbeat_dialect]) secret heartbeat_requests) = Inr frames \<and>
    push (codec_parser [heartbeat_dialect] (Some secret) (Some True)) (\<lambda>_. 0) (concat frames) = (Inr ms, P') \<and>
    delivers heartbeat_requests 1 ms"
proof (rule codec_signed_session)
  show "list_all (request_ok (codec_parser [heartbeat_dialect] (Some secret) (Some True)) (createMavCodec [heartbeat_dialect]))
      heartbeat_requests"
    using heartbeat_ok
    by (simp add: heartbeat_requests_def request_ok_def heartbeat_names heartbeat_id codec_parser_def new_parser_def heartbeat_index)
  show "last_stamp 0 heartbeat_requests < 2 ^ 48"
    by (simp add: heartbeat_requests_def next_stamp_def)
qed (simp_all add: secret_def)

text \<open>
  C2. Losslessness of the wire format: for a sequence of sendable messages, of either version, signed
  or not, that the parser's policy accepts one after the other, pushing the concatenated frames into a
  parser with an empty buffer yields exactly those messages in order, each with all its fields, ids,
  sequence number and raw bytes, and leaves the buffer empty.
\<close>

theorem push_encoded_frames:
  assumes "list_all (sendable P) ts" "receive P (ps_signingState P) ts = Some (rs, sg')" "ps_buf P = []"
  shows "push P now (concat (map sent_bytes ts))
    = (Inr (expected_run now 0 ts rs), P\<lparr>ps_buf := [], ps_signingState := sg'\<rparr>)"
  using assms by (rule push_sent_run)

theorem push_encoded_frames_witness:
  "push (new_parser [heartbeat_dialect] None False) (\<lambda>_. 0) (concat (map sent_bytes [heartbeat_sent, heartbeat_sent]))
    = (Inr (expected_run (\<lambda>_. 0) 0 [heartbeat_sent, heartbeat_sent] [(False, None), (False, None)]),
       (new_parser [heartbeat_dialect] None False)\<lparr>ps_buf := [], ps_signingState := signing_init\<rparr>)"
proof (rule push_encoded_frames)
  show "list_all (sendable (new_parser [heartbeat_dialect] None False)) [heartbeat_sent, heartbeat_sent]"
    using heartbeat_ok
    by (simp add: sendable_def new_parser_def heartbeat_index heartbeat_sent_def heartbeat_id sent_v2_def
        sent_fields_def fieldCount_def heartbeat_meta_def)
qed (simp_all add: new_parser_def sent_verdict_def verdict_def sent_signing_def heartbeat_sent_def sent_v2_def
    unsignedAllowed_def)

section \<open>The parser\<close>

text \<open>
  C3. Authenticity: every message the parser emits is a contiguous part of the retained buffer followed
  by the new bytes, starts with a magic byte, has a known id and name, and carries the checksum of its
  header, payload and extra byte. With signing enabled and a key, a frame with a signature block is
  emitted only when its signature is the one the key gives; an unsigned frame is emitted only when the
  policy allows unsigned frames, and is never marked signed. (With signing enabled and no key, the code emits a frame
  with a signature block unverified.)
\<close>

theorem push_authentic:
  assumes "push P now bs = (Inr ms, P')" "m \<in> set ms"
  shows "authentic P m \<and> (\<exists>i n. dm_raw m = subarray i n (ps_buf P @ bs))"
  using assms by (rule push_authentic_slice)

theorem push_authentic_witness:
  "authentic (new_parser [heartbeat_dialect] None False) (expected (\<lambda>_. 0) 0 heartbeat_sent False None) \<and>
   (\<exists>i n. dm_raw (expected (\<lambda>_. 0) 0 heartbeat_sent False None)
      = subarray i n (ps_buf (new_parser [heartbeat_dialect] None False) @ sent_bytes heartbeat_sent))"
proof (rule push_authentic)
  show "push (new_parser [heartbeat_dialect] None False) (\<lambda>_. 0) (sent_bytes heartbeat_sent)
    = (Inr [expected (\<lambda>_. 0) 0 heartbeat_sent False None],
       (new_parser [heartbeat_dialect] None False)\<lparr>ps_buf := [], ps_signingState := signing_init\<rparr>)"
    using push_sent_run [of "new_parser [heartbeat_dialect] None False" "[heartbeat_sent]" "[(False, None)]"
        signing_init "\<lambda>_. 0"] heartbeat_ok
    by (simp add: sendable_def new_parser_def heartbeat_index heartbeat_sent_def heartbeat_id sent_v2_def
        sent_fields_def fieldCount_def heartbeat_meta_def sent_verdict_def verdict_def sent_signing_def unsignedAllowed_def)
qed simp

text \<open>
  C4. Totality: with dialects whose field types are all known and whose extension indexes are within the
  fields, the parser never throws, whatever bytes arrive: garbage, truncated or forged frames included.
\<close>

theorem push_total:
  assumes "\<And>d meta. d \<in> set ds \<Longrightarrow> meta \<in> snd ` set (dt_messages d) \<Longrightarrow> meta_ok meta"
    and "ps_index P = buildIndex ds"
  shows "\<exists>ms P'. push P now bs = (Inr ms, P')"
  using ran_buildIndex [of ds] assms by (intro push_total_index) auto

theorem push_total_witness:
  "\<exists>ms P'. push (new_parser [heartbeat_dialect] None False) (\<lambda>_. 0) [0xfe, 9, 0] = (Inr ms, P')"
  by (rule push_total [of "[heartbeat_dialect]"])
    (use heartbeat_ok(3) in \<open>auto simp: heartbeat_dialect_def meta_ok_def heartbeat_meta_def new_parser_def\<close>)

text \<open>
  Bounded memory: after any successful push the parser keeps fewer than 280 bytes, the length of the
  longest frame, however much was pushed.
\<close>

theorem push_bounded: "push P now bs = (Inr ms, P') \<Longrightarrow> length (ps_buf P') < 280"
  by (rule push_retained)

theorem push_bounded_witness:
  "length (ps_buf ((new_parser [heartbeat_dialect] None False)\<lparr>ps_buf := [], ps_signingState := signing_init\<rparr>)) < 280"
proof (rule push_bounded)
  show "push (new_parser [heartbeat_dialect] None False) (\<lambda>_. 0) [0, 1]
    = (Inr [], (new_parser [heartbeat_dialect] None False)\<lparr>ps_buf := [], ps_signingState := signing_init\<rparr>)"
    by (simp add: push_def new_parser_def scan.simps MAGIC_V1_def MAGIC_V2_def Let_def)
qed

section \<open>Integrity\<close>

text \<open>
  The checksum step of the code, one shift-and-xor expression, is eight shifts of the reflected
  CRC-16 register with polynomial 0x8408, for every data byte and every 16-bit accumulator.
\<close>

theorem crc_step_reference:
  assumes "take_bit 8 data = data" "take_bit 16 acc = acc"
  shows "crcAccumulate data acc = crc_ref data acc"
  using assms by (rule crcAccumulate_ref)

theorem crc_step_reference_witness: "crcAccumulate 0x31 0xffff = crc_ref 0x31 0xffff"
  by (rule crc_step_reference) (simp_all add: take_bit_eq_mask mask_numeral)

text \<open>
  Burst detection: replacing any two adjacent bytes of a frame's checked range by two others changes
  the checksum, wherever they stand and whatever follows them.
\<close>

theorem crc_detects_bursts:
  assumes "[b, c] \<noteq> [b', c']"
  shows "crc_bytes (xs @ [b, c] @ ys) CRC_INIT \<noteq> crc_bytes (xs @ [b', c'] @ ys) CRC_INIT"
  using assms by (intro crc_bytes_burst) (simp_all add: CRC_INIT_def take_bit_eq_mask mask_numeral)

theorem crc_detects_bursts_witness:
  "crc_bytes ([9] @ [1, 2] @ [7]) CRC_INIT \<noteq> crc_bytes ([9] @ [2, 1] @ [7]) CRC_INIT"
  by (rule crc_detects_bursts) simp

text \<open>
  C38. The SHA-256 of the code is the function of FIPS 180-4 on every message: its table and its initial words are the first
  thirty-two bits of the fractional parts of the cube roots of the first sixty-four primes and of the square roots of the first
  eight, its padding by lengths, its schedule array, its eight working variables and its reading and writing of words compute the
  standard's padding, message schedule, compression and digest.
\<close>

theorem sha256_is_fips: "sha256 M = fips_sha256 M"
  by (rule sha256_fips)

section \<open>Losslessness of fields\<close>

text \<open>
  C39. Field round trip: every canonical value of a field (integers in range, exactly representable
  floats, 64-bit bigints, texts without NUL that fit, arrays of the declared length) is packed without
  error and unpacked from its bytes unchanged.
\<close>

theorem field_round_trip:
  assumes "field_ok field v" "fieldSize field = Inr n" "off + n \<le> length dv"
  shows "\<exists>dv'. packField dv off field (embed v) = Inr (dv', off + n) \<and> length dv' = length dv \<and>
    unpackField dv' off field = Inr (v, off + n)"
proof -
  obtain bs where bs: "field_bytes field (embed v) = Inr bs" "field_of_bytes field bs = v"
    using field_bytes_round_trip [OF assms(1)] by blast
  then have n: "length bs = n" using length_field_bytes assms(2) by fastforce
  then obtain dv' where dv': "put_bytes dv off bs = Inr dv'" using assms(3) by (simp add: put_bytes_def)
  then have len: "length dv' = length dv" by (rule put_bytes_Inr)
  have "subarray off n dv' = bs" using dv' n assms(3) by (auto simp: put_bytes_def subarray_def)
  then show ?thesis
    using packField_eq [OF assms(2,3)] unpackField_eq [OF assms(2), of off dv'] assms(3) bs dv' len by simp
qed

theorem field_round_trip_witness:
  "\<exists>dv'. packField (replicate 9 0) 0 (scalar_field ''custom_mode'' ''uint32_t'') (embed (FNum (js_int 65536))) = Inr (dv', 0 + 4) \<and>
    length dv' = length (replicate 9 (0 :: u8)) \<and>
    unpackField dv' 0 (scalar_field ''custom_mode'' ''uint32_t'') = Inr (FNum (js_int 65536), 0 + 4)"
  by (rule field_round_trip)
    (simp_all add: field_ok_def scalar_field_def typeInfo_def TYPE_INFO_def isArray_def scalar_ok_def num_ok_def
      fieldSize_def elementCount_def)

text \<open>
  The binary32 codec used for \<open>float\<close> fields inverts on every bit pattern that is not a NaN:
  reading a pattern and writing it back gives the same pattern.
\<close>

theorem float32_round_trip: "b < 2 ^ 32 \<Longrightarrow> f32_of_bits b \<noteq> NaN \<Longrightarrow> f32_bits (f32_of_bits b) = b"
  by (rule f32_round_trip)

theorem float32_round_trip_witness: "f32_bits (f32_of_bits 0) = 0"
  by (rule float32_round_trip) (simp_all add: f32_of_bits_def dec_float_def f_inf_def)

text \<open>
  MAVLink 2 truncation drops only zero bytes: filling the truncated payload with zeros to its full
  length restores it, and at least one byte of a non-empty payload is sent.
\<close>

theorem truncation_restores:
  "take (truncatedLength p) p @ replicate (length p - truncatedLength p) 0 = p \<and>
   (p = [] \<longleftrightarrow> truncatedLength p = 0)"
proof -
  have "0 < len \<Longrightarrow> 0 < trunc_from p len" for len
    by (induction p len rule: trunc_from.induct) (subst trunc_from.simps, auto)
  from this [of "length p"] have "p = [] \<longleftrightarrow> truncatedLength p = 0"
    by (cases "p = []") (auto simp: truncatedLength_def trunc_from.simps)
  with truncated_restore [of p] show ?thesis by blast
qed

section \<open>Signing\<close>

text \<open>
  Freshness: the time stamps of successive outgoing frames strictly increase and exceed the state's
  last one, for every sequence of clock readings, backward steps included.
\<close>

theorem tx_timestamps_increase:
  "sorted_wrt (<) (tx_run s cs) \<and> list_all (\<lambda>t. lastTx s < t) (tx_run s cs)"
  using tx_run_increasing [of s cs] by (simp add: list_all_iff)

text \<open>
  No replay: of the frames of one source (link, system, component) accepted in any run, each has a
  larger time stamp than the one before; a repeated or older frame is never accepted, and sources do
  not disturb each other (their map keys, joined with colons, never collide).
\<close>

theorem rx_rejects_replays:
  "sorted_wrt (<) (rx_of linkId sysid compid (rx_run s es))"
  using rx_run_increasing by blast

text \<open>
  The comparison of signatures, written without an early exit, holds exactly for equal byte strings.
\<close>

theorem signature_comparison: "signaturesEqual a b \<longleftrightarrow> a = b"
  by (rule signaturesEqual_iff)

end
