(* ===== verification/Client_Base.thy ===== *)
theory Client_Base
  imports Stream_Parser "HOL-Library.Multiset"
begin

text \<open>
  What the protocol clients share: \<open>src/mavlink/microservices/fields.ts\<close>, the injected timer source
  (\<open>CommandClock\<close>, \<open>ParamClock\<close>, \dots: \<open>setTimeout (handler, ms)\<close> returning a cancel function),
  messages handed to the injected \<open>sendMessage\<close>, and the ledger of promises. A timer fires only
  while it is active; which active timer fires next is left open, so nothing here depends on delays
  being kept. \<open>sendMessage\<close> may throw, and its promise may be rejected later: both are events of the
  clients' step functions. Handlers run to completion; \<open>sendMessage\<close> does not call back.
\<close>

section \<open>Decoded fields\<close>

definition numField :: "(string \<rightharpoonup> field_value) \<Rightarrow> string \<Rightarrow> jsnum option" where
  "numField fs key =
     (case fs key of
        Some (FNum x) \<Rightarrow> Some x
      | Some (FBig b) \<Rightarrow> Some (js_of_bigint b)
      | _ \<Rightarrow> None)"

text \<open>A message given to \<open>sendMessage\<close>: its name and its fields.\<close>

type_synonym out_fields = "(string \<times> js_val) list"

abbreviation num :: "nat \<Rightarrow> js_val" where
  "num n \<equiv> JNumber (js_nat n)"

text \<open>The system and component a client talks to.\<close>

record target =
  tg_sysid :: nat
  tg_compid :: nat

definition target_fields :: "target \<Rightarrow> out_fields" where
  "target_fields t = [(''target_system'', num (tg_sysid t)), (''target_component'', num (tg_compid t))]"

section \<open>Lists of open operations\<close>

text \<open>
  The open operations of a client are a list of records with distinct numbers \<open>k\<close>: looking one up,
  changing one in place, and taking one out.
\<close>

lemma find_SomeD: "find P t = Some x \<Longrightarrow> x \<in> set t \<and> P x"
  by (induction t) (auto split: if_splits)

lemma find_modify:
  assumes "\<And>x. k (f x) = k x"
  shows "find (\<lambda>x. k x = j) (map (\<lambda>x. if k x = i then f x else x) xs)
    = (if j = i then map_option f (find (\<lambda>x. k x = j) xs) else find (\<lambda>x. k x = j) xs)"
  using assms by (induction xs) auto

lemma find_remove:
  "find (\<lambda>x. k x = i) (filter (\<lambda>x. k x \<noteq> j) xs) = (if i = j then None else find (\<lambda>x. k x = i) xs)"
  by (induction xs) auto

lemma find_append: "find P (xs @ ys) = (case find P xs of None \<Rightarrow> find P ys | Some x \<Rightarrow> Some x)"
  by (induction xs) auto

lemma filter_remove_one:
  "distinct (map k xs) \<Longrightarrow> p \<in> set xs \<Longrightarrow> filter (\<lambda>q. k q \<noteq> k p) xs = remove1 p xs"
proof (induction xs)
  case Nil
  then show ?case by simp
next
  case (Cons x xs)
  show ?case
  proof (cases "x = p")
    case True
    with Cons.prems have "k p \<notin> k ` set xs" by simp
    then have "filter (\<lambda>q. k q \<noteq> k p) xs = xs" by (intro filter_True ballI) (metis imageI)
    with True show ?thesis by simp
  next
    case False
    with Cons.prems have "k x \<noteq> k p" by auto
    with False Cons show ?thesis by simp
  qed
qed

lemma mset_remove_one:
  assumes "distinct (map k xs)" "p \<in> set xs"
  shows "add_mset (k p) (mset (map k (filter (\<lambda>q. k q \<noteq> k p) xs))) = mset (map k xs)"
proof -
  have "mset xs = add_mset p (mset (remove1 p xs))" using assms(2) by simp
  then have "image_mset k (mset xs) = image_mset k (add_mset p (mset (remove1 p xs)))" by simp
  then show ?thesis using filter_remove_one [OF assms] by (simp del: mset_remove1)
qed

lemma mset_filter_neq: "distinct xs \<Longrightarrow> i \<in> set xs \<Longrightarrow> add_mset i {#x \<in># mset xs. x \<noteq> i#} = mset xs"
  by (induction xs) (auto simp: filter_mset_eq_conv)

lemma map_filter_simps' [simp]:
  "List.map_filter f [] = []"
  "List.map_filter f (x # xs) = (case f x of None \<Rightarrow> List.map_filter f xs | Some y \<Rightarrow> y # List.map_filter f xs)"
  "List.map_filter f (xs @ ys) = List.map_filter f xs @ List.map_filter f ys"
  by (simp_all add: map_filter_def split: option.split)

section \<open>Timers\<close>

record 'h timers =
  tm_next :: nat
  tm_active :: "(nat \<times> nat \<times> 'h) list"

definition no_timers :: "'h timers" where
  "no_timers = \<lparr>tm_next = 0, tm_active = []\<rparr>"

definition set_timer :: "'h \<Rightarrow> nat \<Rightarrow> 'h timers \<Rightarrow> nat \<times> 'h timers" where
  "set_timer h ms T =
     (tm_next T, T\<lparr>tm_next := tm_next T + 1, tm_active := tm_active T @ [(tm_next T, ms, h)]\<rparr>)"

definition cancel_timer :: "nat option \<Rightarrow> 'h timers \<Rightarrow> 'h timers" where
  "cancel_timer t T =
     (case t of None \<Rightarrow> T | Some t \<Rightarrow> T\<lparr>tm_active := filter (\<lambda>(i, _). i \<noteq> t) (tm_active T)\<rparr>)"

text \<open>The handler of an active timer; firing deactivates it.\<close>

definition timer_handler :: "nat \<Rightarrow> 'h timers \<Rightarrow> 'h option" where
  "timer_handler t T = map_option snd (map_of (tm_active T) t)"

definition timer_ok :: "'h timers \<Rightarrow> bool" where
  "timer_ok T = (distinct (map fst (tm_active T)) \<and> (\<forall>t\<in>fst ` set (tm_active T). t < tm_next T))"

lemma timer_ok_init [simp]: "timer_ok no_timers"
  by (simp add: timer_ok_def no_timers_def)

lemma timer_ok_set [simp]: "timer_ok T \<Longrightarrow> timer_ok (snd (set_timer h ms T))"
  by (auto simp: timer_ok_def set_timer_def)

lemma timer_ok_cancel [simp]: "timer_ok T \<Longrightarrow> timer_ok (cancel_timer t T)"
  by (auto simp: timer_ok_def cancel_timer_def distinct_map_filter split: option.splits)

lemma handler_set:
  "timer_ok T \<Longrightarrow> set_timer h ms T = (t, T') \<Longrightarrow>
   timer_handler t' T' = (if t' = t then Some h else timer_handler t' T)"
  by (fastforce simp: timer_ok_def set_timer_def timer_handler_def map_add_def
      split: option.splits dest!: map_of_SomeD)

lemma handler_cancel:
  "timer_handler t' (cancel_timer t T) = (if t = Some t' then None else timer_handler t' T)"
proof (cases t)
  case None
  then show ?thesis by (simp add: cancel_timer_def)
next
  case (Some k)
  have "map_of (filter (\<lambda>(i, _). i \<noteq> k) xs) t' = (if t' = k then None else map_of xs t')"
    for xs :: "(nat \<times> nat \<times> 'a) list"
    by (induction xs) auto
  then show ?thesis by (simp add: Some cancel_timer_def timer_handler_def)
qed

section \<open>Armed operations\<close>

text \<open>
  A client keeps a list of open operations, each with the handler of its timer and the cancel function
  of the timer set last: its slots. \<open>armed None\<close>: every slot has an active timer, its own, and there
  is no other active timer. \<open>armed (Some h)\<close>: the same, but the timer of \<open>h\<close> has fired or was
  cancelled.
\<close>

type_synonym 'h slots = "('h \<times> nat option) list"

definition armed :: "'h option \<Rightarrow> 'h slots \<Rightarrow> 'h timers \<Rightarrow> bool" where
  "armed x S T =
     (timer_ok T \<and> distinct (map fst S) \<and>
      (\<forall>(h, c)\<in>set S. \<exists>t. c = Some t \<and> timer_handler t T = (if x = Some h then None else Some h)) \<and>
      (\<forall>t h. timer_handler t T = Some h \<longrightarrow> (h, Some t) \<in> set S))"

named_theorems armed_intros \<open>operations that keep every open operation armed\<close>

lemma armed_init [armed_intros]: "armed None [] no_timers"
  by (simp add: armed_def timer_handler_def no_timers_def timer_ok_def)

lemma armed_slot:
  assumes "armed x S T" "(h, c) \<in> set S"
  obtains t where "c = Some t" "timer_handler t T = (if x = Some h then None else Some h)"
  using assms unfolding armed_def by fastforce

lemma armed_active: "armed x S T \<Longrightarrow> timer_handler t T = Some h \<Longrightarrow> (h, Some t) \<in> set S"
  by (simp add: armed_def)

lemma armed_inj: "armed x S T \<Longrightarrow> (h, c) \<in> set S \<Longrightarrow> (h, c') \<in> set S \<Longrightarrow> c = c'"
  unfolding armed_def by (meson eq_key_imp_eq_value)

lemma armedI:
  assumes "timer_ok T" "distinct (map fst S)"
    and "\<And>h c. (h, c) \<in> set S \<Longrightarrow> \<exists>t. c = Some t \<and> timer_handler t T = (if x = Some h then None else Some h)"
    and "\<And>t h. timer_handler t T = Some h \<Longrightarrow> (h, Some t) \<in> set S"
  shows "armed x S T"
  using assms unfolding armed_def by auto

lemma set_timer_fresh: "timer_ok T \<Longrightarrow> set_timer h ms T = (t, T') \<Longrightarrow> timer_handler t T = None"
  by (auto simp: timer_ok_def set_timer_def timer_handler_def map_of_eq_None_iff)

text \<open>An operation leaves: its timer is cancelled, its slot removed.\<close>

lemma armed_remove:
  assumes A: "armed x S T" and h: "(h, c) \<in> set S" and x: "x = None \<or> x = Some h"
  shows "armed None (filter (\<lambda>(h', _). h' \<noteq> h) S) (cancel_timer c T)"
proof (rule armedI)
  obtain k where k: "c = Some k" "timer_handler k T = (if x = Some h then None else Some h)"
    using armed_slot [OF A h] .
  show "timer_ok (cancel_timer c T)" using A by (simp add: armed_def)
  show "distinct (map fst (filter (\<lambda>(h', _). h' \<noteq> h) S))" using A by (simp add: armed_def distinct_map_filter)
  show "\<exists>t. c' = Some t \<and> timer_handler t (cancel_timer c T) = (if None = Some h' then None else Some h')"
    if h': "(h', c') \<in> set (filter (\<lambda>(h', _). h' \<noteq> h) S)" for h' c'
  proof -
    have S: "(h', c') \<in> set S" "h' \<noteq> h" using h' by auto
    obtain t where t: "c' = Some t" "timer_handler t T = (if x = Some h' then None else Some h')"
      using armed_slot [OF A S(1)] .
    have "x \<noteq> Some h'" using x S(2) by auto
    with t have t': "timer_handler t T = Some h'" by simp
    have "t \<noteq> k" using k(2) t' S(2) by (auto split: if_splits)
    with t(1) t' k(1) show ?thesis by (simp add: handler_cancel)
  qed
  show "(h', Some t) \<in> set (filter (\<lambda>(h', _). h' \<noteq> h) S)" if t: "timer_handler t (cancel_timer c T) = Some h'" for t h'
  proof -
    have t': "t \<noteq> k" "timer_handler t T = Some h'" using t k by (simp_all add: handler_cancel split: if_splits)
    then have S: "(h', Some t) \<in> set S" using armed_active [OF A] by blast
    moreover have "h' \<noteq> h" using armed_inj [OF A h, of "Some t"] S t' k by auto
    ultimately show ?thesis by simp
  qed
qed

text \<open>The order of the slots does not matter.\<close>

lemma armed_perm:
  assumes "armed x S T" "mset S = mset S'"
  shows "armed x S' T"
proof -
  have "set S = set S'" using assms(2) by (rule mset_eq_setD)
  moreover have "mset (map fst S) = mset (map fst S')" using assms(2) by simp
  then have "distinct (map fst S) = distinct (map fst S')" by (rule mset_eq_imp_distinct_iff)
  ultimately show ?thesis using assms(1) by (simp add: armed_def del: split_paired_All)
qed

text \<open>A timer fires.\<close>

lemma armed_fire:
  assumes A: "armed None S T" and h: "timer_handler t T = Some h"
  shows "armed (Some h) S (cancel_timer (Some t) T)" and "(h, Some t) \<in> set S"
proof -
  show S: "(h, Some t) \<in> set S" using armed_active [OF A h] .
  show "armed (Some h) S (cancel_timer (Some t) T)"
  proof (rule armedI)
    show "timer_ok (cancel_timer (Some t) T)" "distinct (map fst S)" using A by (simp_all add: armed_def)
    show "\<exists>t'. c = Some t' \<and> timer_handler t' (cancel_timer (Some t) T) = (if Some h = Some h' then None else Some h')"
      if h': "(h', c) \<in> set S" for h' c
    proof -
      obtain k where k: "c = Some k" "timer_handler k T = Some h'"
        using armed_slot [OF A h'] by auto
      have 1: "k = t" if "h' = h" using armed_inj [OF A S, of c] h' that k(1) by simp
      have 2: "h' = h" if "k = t" using k(2) h that by simp
      show ?thesis
      proof (cases "k = t")
        case True
        then show ?thesis using 2 k(1) by (simp add: handler_cancel)
      next
        case False
        then have "h' \<noteq> h" using 1 by blast
        with False k show ?thesis by (simp add: handler_cancel)
      qed
    qed
    show "(h', Some t') \<in> set S" if "timer_handler t' (cancel_timer (Some t) T) = Some h'" for t' h'
      using that armed_active [OF A] by (simp add: handler_cancel split: if_splits)
  qed
qed

lemma armed_cancel:
  assumes A: "armed None S T" and h: "(h, c) \<in> set S"
  shows "armed (Some h) S (cancel_timer c T)"
proof -
  obtain t where "c = Some t" "timer_handler t T = Some h" using armed_slot [OF A h] by auto
  then show ?thesis using armed_fire(1) [OF A] by simp
qed

text \<open>Its timer is set anew.\<close>

definition rearm :: "'h \<Rightarrow> nat \<Rightarrow> 'h slots \<Rightarrow> 'h slots" where
  "rearm h t S = map (\<lambda>(h', c). (h', if h' = h then Some t else c)) S"

lemma armed_reset:
  assumes A: "armed (Some h) S T" and st: "set_timer h ms T = (t, T')" and h: "h \<in> fst ` set S"
  shows "armed None (rearm h t S) T'"
proof (rule armedI)
  have tok: "timer_ok T" using A by (simp add: armed_def)
  note H = handler_set [OF tok st]
  note fresh = set_timer_fresh [OF tok st]
  show "timer_ok T'" using timer_ok_set [OF tok, of h ms] st by simp
  have "map fst (rearm h t S) = map fst S" by (simp add: rearm_def split_beta)
  then show "distinct (map fst (rearm h t S))" using A by (simp add: armed_def)
  show "\<exists>t'. c = Some t' \<and> timer_handler t' T' = (if None = Some h' then None else Some h')"
    if h': "(h', c) \<in> set (rearm h t S)" for h' c
  proof (cases "h' = h")
    case True
    then show ?thesis using h' H by (auto simp: rearm_def)
  next
    case False
    then have S: "(h', c) \<in> set S" using h' by (auto simp: rearm_def)
    obtain k where "c = Some k" "timer_handler k T = Some h'" using armed_slot [OF A S] False by auto
    with fresh show ?thesis by (auto simp: H)
  qed
  show "(h', Some t') \<in> set (rearm h t S)" if t': "timer_handler t' T' = Some h'" for t' h'
  proof (cases "t' = t")
    case True
    then have "h' = h" using t' H by simp
    moreover obtain c where "(h, c) \<in> set S" using h by auto
    ultimately show ?thesis using True by (force simp: rearm_def)
  next
    case False
    then have S: "(h', Some t') \<in> set S" using t' H armed_active [OF A] by simp
    obtain k where "Some t' = Some k" "timer_handler k T = (if Some h = Some h' then None else Some h')"
      using armed_slot [OF A S] .
    then have "h' \<noteq> h" using t' H False by auto
    with S show ?thesis by (force simp: rearm_def)
  qed
qed

text \<open>A new operation with its timer.\<close>

lemma armed_add:
  assumes A: "armed None S T" and st: "set_timer h ms T = (t, T')" and h: "h \<notin> fst ` set S"
  shows "armed None (S @ [(h, Some t)]) T'"
proof (rule armedI)
  have tok: "timer_ok T" using A by (simp add: armed_def)
  note H = handler_set [OF tok st]
  note fresh = set_timer_fresh [OF tok st]
  show "timer_ok T'" using timer_ok_set [OF tok, of h ms] st by simp
  show "distinct (map fst (S @ [(h, Some t)]))" using A h by (simp add: armed_def)
  show "\<exists>t'. c = Some t' \<and> timer_handler t' T' = (if None = Some h' then None else Some h')"
    if h': "(h', c) \<in> set (S @ [(h, Some t)])" for h' c
  proof (cases "(h', c) \<in> set S")
    case True
    obtain k where "c = Some k" "timer_handler k T = Some h'" using armed_slot [OF A True] by auto
    with fresh show ?thesis by (auto simp: H)
  next
    case False
    then show ?thesis using h' H by simp
  qed
  show "(h', Some t') \<in> set (S @ [(h, Some t)])" if "timer_handler t' T' = Some h'" for t' h'
    using that H armed_active [OF A] by (auto split: if_splits)
qed

section \<open>The ledger of promises\<close>

text \<open>
  A client is a step function on states and events; every call opens one promise, numbered from
  \<open>nextId\<close>, and an effect may settle one. The contract: in each step, the promises settled together
  with those still open are exactly those open before together with the new ones. Then over any run
  every promise issued is either still open or has been settled, and settled exactly once.
\<close>

fun run_steps :: "('s \<Rightarrow> 'e \<Rightarrow> 's \<times> 'f list) \<Rightarrow> 's \<Rightarrow> 'e list \<Rightarrow> 's \<times> 'f list" where
  "run_steps stp s [] = (s, [])"
| "run_steps stp s (e # es) =
     (let (s', fs) = stp s e; (s'', fs') = run_steps stp s' es in (s'', fs @ fs'))"

lemma run_steps_append:
  "run_steps stp s (es @ es') =
     (let (s', fs) = run_steps stp s es; (s'', fs') = run_steps stp s' es' in (s'', fs @ fs'))"
  by (induction es arbitrary: s) (simp_all add: Let_def split_beta)

locale promise_ledger =
  fixes step :: "'s \<Rightarrow> 'e \<Rightarrow> 's \<times> 'f list"
    and inv :: "'s \<Rightarrow> bool"
    and open_ids :: "'s \<Rightarrow> nat list"
    and nextId :: "'s \<Rightarrow> nat"
    and settles :: "'f \<Rightarrow> nat option"
  assumes inv_step: "inv s \<Longrightarrow> inv (fst (step s e))"
    and next_step: "inv s \<Longrightarrow> nextId s \<le> nextId (fst (step s e))"
    and ledger_step: "inv s \<Longrightarrow>
      mset (List.map_filter settles (snd (step s e))) + mset (open_ids (fst (step s e)))
      = mset (open_ids s) + mset [nextId s..<nextId (fst (step s e))]"
begin

lemma run_inv: "inv s \<Longrightarrow> inv (fst (run_steps step s es))"
proof (induction es arbitrary: s)
  case (Cons e es)
  then show ?case using inv_step [of s e] by (simp add: split_beta Let_def)
qed simp

lemma run_next: "inv s \<Longrightarrow> nextId s \<le> nextId (fst (run_steps step s es))"
proof (induction es arbitrary: s)
  case (Cons e es)
  show ?case
    using Cons.IH [OF inv_step [OF Cons.prems, of e]] next_step [OF Cons.prems, of e]
    by (simp add: split_beta Let_def)
qed simp

lemma run_ledger:
  "inv s \<Longrightarrow>
   mset (List.map_filter settles (snd (run_steps step s es))) + mset (open_ids (fst (run_steps step s es)))
   = mset (open_ids s) + mset [nextId s..<nextId (fst (run_steps step s es))]"
proof (induction es arbitrary: s)
  case Nil
  then show ?case by (simp add: List.map_filter_def)
next
  case (Cons e es)
  define s1 where "s1 = fst (step s e)"
  have inv: "inv s1" unfolding s1_def using Cons.prems by (rule inv_step)
  have le: "nextId s \<le> nextId s1" "nextId s1 \<le> nextId (fst (run_steps step s1 es))"
    using next_step [OF Cons.prems, of e] run_next [OF inv, of es] by (simp_all add: s1_def)
  then have "[nextId s..<nextId (fst (run_steps step s1 es))] = [nextId s..<nextId s1] @ [nextId s1..<nextId (fst (run_steps step s1 es))]"
    by (metis le_add_diff_inverse upt_add_eq_append)
  then show ?case
    using ledger_step [OF Cons.prems, of e] Cons.IH [OF inv]
    by (simp add: split_beta Let_def s1_def [symmetric] map_filter_def add.assoc)
qed

text \<open>From a state without open promises: how often each number is settled.\<close>

lemma settled_once:
  assumes "inv s" "open_ids s = []" "nextId s = 0"
  shows "count (mset (List.map_filter settles (snd (run_steps step s es)))) i + count (mset (open_ids (fst (run_steps step s es)))) i
    = (if i < nextId (fst (run_steps step s es)) then 1 else 0)"
proof -
  have "count (mset (List.map_filter settles (snd (run_steps step s es))) + mset (open_ids (fst (run_steps step s es)))) i
      = count (mset [0..<nextId (fst (run_steps step s es))]) i"
    using run_ledger [OF assms(1), of es] assms by simp
  also have "\<dots> = (if i < nextId (fst (run_steps step s es)) then 1 else 0)"
    using distinct_count_atmost_1 [of "[0..<nextId (fst (run_steps step s es))]"] by (simp del: mset_upt)
  finally show ?thesis by simp
qed

text \<open>A promise that was open and no longer is has been settled.\<close>

lemma left_settled:
  assumes "inv s" "i \<in> set (open_ids s)" "i \<notin> set (open_ids (fst (run_steps step s es)))"
  shows "i \<in> set (List.map_filter settles (snd (run_steps step s es)))"
proof -
  have "i \<in># mset (List.map_filter settles (snd (run_steps step s es))) + mset (open_ids (fst (run_steps step s es)))"
    using run_ledger [OF assms(1), of es] assms(2) by simp
  with assms(3) show ?thesis by simp
qed

end

section \<open>Patience\<close>

text \<open>
  An operation left alone: as long as it is open, its own timer fires. A client is patient but not
  forever when each firing that does not end the operation uses up some of a budget; then the
  operation ends.
\<close>

fun idle :: "('s \<Rightarrow> 's \<times> 'f list) \<Rightarrow> ('s \<Rightarrow> bool) \<Rightarrow> nat \<Rightarrow> 's \<Rightarrow> 's \<times> 'f list" where
  "idle fire live 0 s = (s, [])"
| "idle fire live (Suc n) s =
     (if live s then let (s1, f1) = fire s; (s2, f2) = idle fire live n s1 in (s2, f1 @ f2) else (s, []))"

text \<open>When the timer is an event of the client, idling is one of its runs.\<close>

lemma idle_run:
  assumes "\<And>s. \<exists>e. fire s = stp s e"
  shows "\<exists>es. idle fire live n s = run_steps stp s es"
proof (induction n arbitrary: s)
  case 0
  show ?case by (rule exI [of _ "[]"]) simp
next
  case (Suc n)
  obtain e where e: "fire s = stp s e" using assms by blast
  obtain es where "idle fire live n (fst (stp s e)) = run_steps stp (fst (stp s e)) es" using Suc.IH by blast
  then have "idle fire live (Suc n) s = run_steps stp s (e # es)" if "live s"
    using that e by (simp add: Let_def split_beta)
  moreover have "idle fire live (Suc n) s = run_steps stp s []" if "\<not> live s" using that by simp
  ultimately show ?case by blast
qed

locale patience =
  fixes fire :: "'s \<Rightarrow> 's \<times> 'f list"
    and live :: "'s \<Rightarrow> bool"
    and inv :: "'s \<Rightarrow> bool"
    and budget :: "'s \<Rightarrow> nat"
  assumes fire_inv: "inv s \<Longrightarrow> live s \<Longrightarrow> inv (fst (fire s))"
    and fire_budget: "inv s \<Longrightarrow> live s \<Longrightarrow> live (fst (fire s)) \<Longrightarrow> budget (fst (fire s)) < budget s"
begin

lemma ends: "inv s \<Longrightarrow> budget s < n \<Longrightarrow> \<not> live (fst (idle fire live n s))"
proof (induction n arbitrary: s)
  case 0
  then show ?case by simp
next
  case (Suc n)
  show ?case
  proof (cases "live s \<and> live (fst (fire s))")
    case True
    then have "budget (fst (fire s)) < n" "inv (fst (fire s))"
      using Suc.prems fire_budget [of s] fire_inv [of s] by simp_all
    then show ?thesis using Suc.IH True by (simp add: Let_def split_beta)
  next
    case False
    have "idle fire live n s' = (s', [])" if "\<not> live s'" for s' using that by (cases n) simp_all
    then show ?thesis using False by (auto simp: Let_def split_beta)
  qed
qed

lemma keeps:
  assumes "\<And>s. inv s \<Longrightarrow> live s \<Longrightarrow> Q s \<Longrightarrow> Q (fst (fire s))" "inv s" "Q s"
  shows "Q (fst (idle fire live n s))"
  using assms(2,3)
proof (induction n arbitrary: s)
  case (Suc n)
  then show ?case using assms(1) fire_inv by (simp add: Let_def split_beta)
qed simp

end

end
