(* ===== verification/Mode_Maps.thy ===== *)
theory Mode_Maps
  imports Client_Base
begin

text \<open>
  \<open>src/vehicle/mode-maps.ts\<close>: vehicle classes and the flight-mode tables. A table is an object with
  integer keys, so its entries are listed in ascending order of the keys, as \<open>Object.entries\<close> runs
  over them. A mode number is a non-negative integer; \<open>>>> 0\<close> reduces it modulo \<open>2 ^ 32\<close>.
\<close>

datatype vehicle_class = Copter | Plane | Rover | Boat | Sub | Tracker | UnknownClass

definition MAV_AUTOPILOT_ARDUPILOTMEGA :: nat where "MAV_AUTOPILOT_ARDUPILOTMEGA = 3"
definition MAV_AUTOPILOT_PX4 :: nat where "MAV_AUTOPILOT_PX4 = 12"

definition MAV_TYPE_TO_CLASS :: "(nat \<times> vehicle_class) list" where
  "MAV_TYPE_TO_CLASS =
     [(1, Plane), (2, Copter), (3, Copter), (4, Copter), (5, Tracker),
      (10, Rover), (11, Boat), (12, Sub), (13, Copter), (14, Copter),
      (15, Copter), (19, Plane), (20, Plane), (21, Plane), (22, Plane),
      (23, Plane), (24, Plane), (25, Plane), (29, Copter)]"

definition classifyMavType :: "nat \<Rightarrow> vehicle_class" where
  "classifyMavType mavType =
     (case map_of MAV_TYPE_TO_CLASS mavType of Some c \<Rightarrow> c | None \<Rightarrow> UnknownClass)"

definition COPTER_MODES :: "(nat \<times> string) list" where
  "COPTER_MODES =
     [(0, ''STABILIZE''), (1, ''ACRO''), (2, ''ALT_HOLD''), (3, ''AUTO''),
      (4, ''GUIDED''), (5, ''LOITER''), (6, ''RTL''), (7, ''CIRCLE''),
      (9, ''LAND''), (11, ''DRIFT''), (13, ''SPORT''), (14, ''FLIP''),
      (15, ''AUTOTUNE''), (16, ''POSHOLD''), (17, ''BRAKE''), (18, ''THROW''),
      (19, ''AVOID_ADSB''), (20, ''GUIDED_NOGPS''), (21, ''SMART_RTL''), (22, ''FLOWHOLD''),
      (23, ''FOLLOW''), (24, ''ZIGZAG''), (25, ''SYSTEMID''), (26, ''AUTOROTATE''),
      (27, ''AUTO_RTL'')]"

definition PLANE_MODES :: "(nat \<times> string) list" where
  "PLANE_MODES =
     [(0, ''MANUAL''), (1, ''CIRCLE''), (2, ''STABILIZE''), (3, ''TRAINING''),
      (4, ''ACRO''), (5, ''FBWA''), (6, ''FBWB''), (7, ''CRUISE''),
      (8, ''AUTOTUNE''), (10, ''AUTO''), (11, ''RTL''), (12, ''LOITER''),
      (13, ''TAKEOFF''), (14, ''AVOID_ADSB''), (15, ''GUIDED''), (16, ''INITIALISING''),
      (17, ''QSTABILIZE''), (18, ''QHOVER''), (19, ''QLOITER''), (20, ''QLAND''),
      (21, ''QRTL''), (22, ''QAUTOTUNE''), (23, ''QACRO''), (24, ''THERMAL''),
      (25, ''LOITER_ALT_QLAND'')]"

definition ROVER_MODES :: "(nat \<times> string) list" where
  "ROVER_MODES =
     [(0, ''MANUAL''), (1, ''ACRO''), (3, ''STEERING''), (4, ''HOLD''),
      (5, ''LOITER''), (6, ''FOLLOW''), (7, ''SIMPLE''), (8, ''DOCK''),
      (9, ''CIRCLE''), (10, ''AUTO''), (11, ''RTL''), (12, ''SMART_RTL''),
      (15, ''GUIDED''), (16, ''INITIALISING'')]"

definition SUB_MODES :: "(nat \<times> string) list" where
  "SUB_MODES =
     [(0, ''STABILIZE''), (1, ''ACRO''), (2, ''ALT_HOLD''), (3, ''AUTO''),
      (4, ''GUIDED''), (7, ''CIRCLE''), (9, ''SURFACE''), (16, ''POSHOLD''),
      (19, ''MANUAL''), (20, ''MOTORDETECT'')]"

definition TRACKER_MODES :: "(nat \<times> string) list" where
  "TRACKER_MODES =
     [(0, ''MANUAL''), (1, ''STOP''), (2, ''SCAN''), (3, ''SERVO_TEST''),
      (4, ''GUIDED''), (10, ''AUTO''), (16, ''INITIALISING'')]"

definition arduMapForClass :: "vehicle_class \<Rightarrow> (nat \<times> string) list option" where
  "arduMapForClass cls =
     (case cls of
        Copter \<Rightarrow> Some COPTER_MODES
      | Plane \<Rightarrow> Some PLANE_MODES
      | Rover \<Rightarrow> Some ROVER_MODES
      | Boat \<Rightarrow> Some ROVER_MODES
      | Sub \<Rightarrow> Some SUB_MODES
      | Tracker \<Rightarrow> Some TRACKER_MODES
      | UnknownClass \<Rightarrow> None)"

definition PX4_MAIN_MODES :: "(nat \<times> string) list" where
  "PX4_MAIN_MODES =
     [(1, ''MANUAL''), (2, ''ALTCTL''), (3, ''POSCTL''), (4, ''AUTO''),
      (5, ''ACRO''), (6, ''OFFBOARD''), (7, ''STABILIZED''), (8, ''RATTITUDE''),
      (9, ''SIMPLE'')]"

definition PX4_AUTO_SUB_MODES :: "(nat \<times> string) list" where
  "PX4_AUTO_SUB_MODES =
     [(1, ''READY''), (2, ''TAKEOFF''), (3, ''LOITER''), (4, ''MISSION''),
      (5, ''RTL''), (6, ''LAND''), (7, ''RTGS''), (8, ''FOLLOW_TARGET''),
      (9, ''PRECLAND'')]"

definition decodePx4Mode :: "nat \<Rightarrow> string" where
  "decodePx4Mode customMode =
     (let u = customMode mod 2 ^ 32;
          mainMode = (u div 2 ^ 16) mod 256;
          subMode = (u div 2 ^ 24) mod 256
      in case map_of PX4_MAIN_MODES mainMode of
           None \<Rightarrow> nat_to_string u
         | Some main \<Rightarrow>
             if mainMode = 4 \<and> subMode \<noteq> 0 then
               (case map_of PX4_AUTO_SUB_MODES subMode of
                  Some sub \<Rightarrow> ''AUTO.'' @ sub
                | None \<Rightarrow> main)
             else main)"

definition decodeMode :: "vehicle_class \<Rightarrow> nat \<Rightarrow> nat \<Rightarrow> string" where
  "decodeMode cls autopilot customMode =
     (let numeric = nat_to_string (customMode mod 2 ^ 32)
      in if autopilot = MAV_AUTOPILOT_ARDUPILOTMEGA then
           (case arduMapForClass cls of
              None \<Rightarrow> numeric
            | Some m \<Rightarrow> (case map_of m customMode of Some name \<Rightarrow> name | None \<Rightarrow> numeric))
         else if autopilot = MAV_AUTOPILOT_PX4 then decodePx4Mode customMode
         else numeric)"

text \<open>
  The reverse lookup of \<open>CommandClient.resolveCustomMode\<close> (\<open>command-client.ts\<close>): the first entry with
  the name. \<open>None\<close> is the thrown error.
\<close>

definition resolveCustomMode :: "vehicle_class \<Rightarrow> string \<Rightarrow> nat option" where
  "resolveCustomMode cls mode =
     (case arduMapForClass cls of
        None \<Rightarrow> None
      | Some t \<Rightarrow> map_option fst (find (\<lambda>(value, name). name = mode) t))"

section \<open>The tables\<close>

text \<open>In every table the numbers and the names are distinct, and no name reads as a number.\<close>

definition modes_ok :: "(nat \<times> string) list \<Rightarrow> bool" where
  "modes_ok t = (distinct (map fst t) \<and> distinct (map snd t) \<and>
     list_all (\<lambda>(value, name). value < 2 ^ 32 \<and> name \<noteq> [] \<and> 65 \<le> char_code (hd name)) t)"

lemmas mode_tables = COPTER_MODES_def PLANE_MODES_def ROVER_MODES_def SUB_MODES_def TRACKER_MODES_def

lemma tables_ok: "arduMapForClass cls = Some t \<Longrightarrow> modes_ok t"
  by (cases cls) (auto simp: arduMapForClass_def modes_ok_def mode_tables char_code_def)

lemma find_entry:
  "distinct (map snd t) \<Longrightarrow> (v, n) \<in> set t \<Longrightarrow> find (\<lambda>(value, name). name = n) t = Some (v, n)"
  by (induction t) (force split: prod.splits)+

lemma name_not_number:
  assumes "modes_ok t" "(v, n) \<in> set t"
  shows "n \<noteq> nat_to_string k"
proof
  assume "n = nat_to_string k"
  moreover have "n \<noteq> []" "65 \<le> char_code (hd n)" using assms by (auto simp: modes_ok_def list_all_iff)
  ultimately have "char_code (hd n) \<le> 57"
    using nat_to_string_digits [of "hd n" k] by simp
  with \<open>65 \<le> char_code (hd n)\<close> show False by simp
qed

lemma decode_resolve:
  "resolveCustomMode cls mode = Some v \<longleftrightarrow>
   decodeMode cls MAV_AUTOPILOT_ARDUPILOTMEGA v = mode \<and>
   (\<exists>t. arduMapForClass cls = Some t \<and> v \<in> fst ` set t)"
proof (cases "arduMapForClass cls")
  case None
  then show ?thesis by (simp add: resolveCustomMode_def)
next
  case (Some t)
  then have ok: "modes_ok t" by (rule tables_ok)
  then have d: "distinct (map fst t)" "distinct (map snd t)" by (simp_all add: modes_ok_def)
  show ?thesis
  proof
    assume "resolveCustomMode cls mode = Some v"
    then have "(v, mode) \<in> set t"
      by (auto simp: resolveCustomMode_def Some dest!: find_SomeD)
    then have "map_of t v = Some mode" "v \<in> fst ` set t" using d(1) by force+
    with Some show "decodeMode cls MAV_AUTOPILOT_ARDUPILOTMEGA v = mode \<and>
       (\<exists>t. arduMapForClass cls = Some t \<and> v \<in> fst ` set t)"
      by (simp add: decodeMode_def Let_def)
  next
    assume r: "decodeMode cls MAV_AUTOPILOT_ARDUPILOTMEGA v = mode \<and>
       (\<exists>t. arduMapForClass cls = Some t \<and> v \<in> fst ` set t)"
    then obtain n where n: "(v, n) \<in> set t" using Some by auto
    then have "map_of t v = Some n" using d(1) by simp
    then have "mode = n" using r Some by (simp add: decodeMode_def Let_def)
    then show "resolveCustomMode cls mode = Some v"
      using find_entry [OF d(2) n] by (simp add: resolveCustomMode_def Some)
  qed
qed

lemma decode_injective:
  assumes "decodeMode cls MAV_AUTOPILOT_ARDUPILOTMEGA v = decodeMode cls MAV_AUTOPILOT_ARDUPILOTMEGA w"
    and "v < 2 ^ 32" "w < 2 ^ 32"
  shows "v = w"
proof (cases "arduMapForClass cls")
  case None
  then show ?thesis using assms by (auto simp: decodeMode_def Let_def dest: nat_to_string_inj)
next
  case (Some t)
  then have ok: "modes_ok t" by (rule tables_ok)
  then have d: "distinct (map fst t)" "distinct (map snd t)" by (simp_all add: modes_ok_def)
  have same: "v' = w'" if "(v', n) \<in> set t" "(w', n) \<in> set t" for v' w' n
    using d(2) that by (metis find_entry fst_conv option.inject)
  show ?thesis
    using assms Some same name_not_number [OF ok]
    by (auto simp: decodeMode_def Let_def split: option.splits dest!: map_of_SomeD dest: nat_to_string_inj)
      (metis name_not_number [OF ok])+
qed

end
