(* ===== verification/Command_Client.thy ===== *)
theory Command_Client
  imports Mode_Maps
begin

text \<open>
  \<open>src/mavlink/microservices/command/command-client.ts\<close> with its \<open>constants.ts\<close>: the
  COMMAND_LONG/COMMAND_INT and COMMAND_ACK state machine and the mode, arm and guided helpers. A call
  is an event; its promise is numbered by \<open>cc_nextId\<close>, and the pending command it creates carries the
  same number. The async helpers await the promise of \<open>send\<close>: what they do with its outcome is the
  tag \<open>kont\<close> of the pending command, run in the step that settles it. Each event that sends carries
  whether \<open>sendMessage\<close> returned (True) or threw (False); a later rejection of its promise is an
  event of its own. Error texts are not modelled.
\<close>

section \<open>Constants\<close>

definition CMD_COMPONENT_ARM_DISARM :: jsnum where "CMD_COMPONENT_ARM_DISARM = js_nat 400"
definition CMD_DO_SET_MODE :: jsnum where "CMD_DO_SET_MODE = js_nat 176"
definition CMD_NAV_TAKEOFF :: jsnum where "CMD_NAV_TAKEOFF = js_nat 22"
definition CMD_NAV_LAND :: jsnum where "CMD_NAV_LAND = js_nat 21"
definition CMD_DO_SET_ROI_LOCATION :: jsnum where "CMD_DO_SET_ROI_LOCATION = js_nat 195"
definition CMD_DO_SET_ROI_NONE :: jsnum where "CMD_DO_SET_ROI_NONE = js_nat 197"

definition RESULT_ACCEPTED :: jsnum where "RESULT_ACCEPTED = js_nat 0"
definition RESULT_TEMPORARILY_REJECTED :: jsnum where "RESULT_TEMPORARILY_REJECTED = js_nat 1"
definition RESULT_UNSUPPORTED :: jsnum where "RESULT_UNSUPPORTED = js_nat 3"
definition RESULT_IN_PROGRESS :: jsnum where "RESULT_IN_PROGRESS = js_nat 5"

definition MAV_MODE_FLAG_CUSTOM_MODE_ENABLED :: jsnum where "MAV_MODE_FLAG_CUSTOM_MODE_ENABLED = js_nat 1"
definition MAV_FRAME_GLOBAL :: jsnum where "MAV_FRAME_GLOBAL = js_nat 0"
definition MAV_FRAME_GLOBAL_RELATIVE_ALT_INT :: jsnum where "MAV_FRAME_GLOBAL_RELATIVE_ALT_INT = js_nat 6"
definition ARM_FORCE_MAGIC :: jsnum where "ARM_FORCE_MAGIC = js_nat 21196"
definition POSITION_ONLY_TYPE_MASK :: jsnum where
  "POSITION_ONLY_TYPE_MASK = js_nat (8 OR 16 OR 32 OR 64 OR 128 OR 256 OR 1024 OR 2048)"
definition LATLON_SCALE :: jsnum where "LATLON_SCALE = js_nat 10000000"

section \<open>State\<close>

record active_vehicle =
  av_sysid :: nat
  av_compid :: nat
  av_vehicleClass :: vehicle_class
  av_mavType :: "nat option"

definition isVtolMavType :: "nat option \<Rightarrow> bool" where
  "isVtolMavType mavType = (case mavType of None \<Rightarrow> False | Some t \<Rightarrow> 19 \<le> t \<and> t \<le> 25)"

datatype command_error_reason = NoVehicle | Aborted | TimedOut | Rejected | SendFailed

text \<open>\<open>HostError\<close> is whatever \<open>sendMessage\<close> threw.\<close>

datatype command_error =
    CommandError command_error_reason jsnum "jsnum option"
  | HostError

text \<open>Options of \<open>send\<close>; a signal is its identity and whether it is aborted at the call.\<close>

record send_opts =
  so_int :: "bool option"
  so_frame :: "jsnum option"
  so_confirm :: "jsnum option"
  so_signal :: "(nat \<times> bool) option"

definition no_opts :: send_opts where
  "no_opts = \<lparr>so_int = None, so_frame = None, so_confirm = None, so_signal = None\<rparr>"

definition params7 :: "jsnum list \<Rightarrow> jsnum list" where
  "params7 params = map (\<lambda>i. if i < length params then params ! i else Num 0) [0..<7]"

text \<open>
  What the caller's async function does with the outcome of \<open>send\<close>: \<open>KSend\<close> is the caller of \<open>send\<close>
  itself, \<open>KVoid\<close> awaits it and returns nothing, \<open>KSetMode\<close> is \<open>setMode\<close> with its \<open>catch\<close> block,
  and \<open>KDead\<close> marks a promise already rejected because \<open>sendMessage\<close> threw in its executor.
\<close>

datatype kont = KSend | KVoid | KSetMode nat jsnum | KDead

record pending =
  pc_id :: nat
  pc_kont :: kont
  pc_cmd :: jsnum
  pc_sysid :: nat
  pc_compid :: nat
  pc_int :: bool
  pc_frame :: jsnum
  pc_params :: "jsnum list"
  pc_confirm :: jsnum
  pc_attempts :: nat
  pc_inProgress :: bool
  pc_progressPct :: "jsnum option"
  pc_cancelTimer :: "nat option"
  pc_signal :: "nat option"

text \<open>\<open>cc_sending\<close>: the calls awaiting the promise of \<open>sendMessage\<close> itself.\<close>

record command_client =
  cc_maxAttempts :: nat
  cc_resendMs :: nat
  cc_progressTimeoutMs :: nat
  cc_pending :: "pending list"
  cc_disposed :: bool
  cc_timers :: "nat timers"
  cc_sending :: "nat list"
  cc_nextId :: nat

definition createCommandClient :: "nat option \<Rightarrow> nat option \<Rightarrow> nat option \<Rightarrow> command_client" where
  "createCommandClient maxAttempts resendMs progressTimeoutMs =
     \<lparr>cc_maxAttempts = (case maxAttempts of Some n \<Rightarrow> n | None \<Rightarrow> 5),
      cc_resendMs = (case resendMs of Some n \<Rightarrow> n | None \<Rightarrow> 1000),
      cc_progressTimeoutMs = (case progressTimeoutMs of Some n \<Rightarrow> n | None \<Rightarrow> 5000),
      cc_pending = [], cc_disposed = False, cc_timers = no_timers, cc_sending = [], cc_nextId = 0\<rparr>"

datatype command_effect =
    Transmit nat string out_fields
  | SendHost string out_fields
  | ResolveResult nat jsnum "jsnum option"
  | ResolveVoid nat
  | RejectCall nat command_error

type_synonym command_result = "command_client \<times> command_effect list"

section \<open>Operations\<close>

definition transmit_message :: "pending \<Rightarrow> string \<times> out_fields" where
  "transmit_message p =
     (let q = pc_params p
      in if pc_int p then
           (''COMMAND_INT'',
            [(''target_system'', num (pc_sysid p)), (''target_component'', num (pc_compid p)),
             (''frame'', JNumber (pc_frame p)), (''command'', JNumber (pc_cmd p)),
             (''current'', num 0), (''autocontinue'', num 0),
             (''param1'', JNumber (q ! 0)), (''param2'', JNumber (q ! 1)),
             (''param3'', JNumber (q ! 2)), (''param4'', JNumber (q ! 3)),
             (''x'', JNumber (js_round (q ! 4))), (''y'', JNumber (js_round (q ! 5))),
             (''z'', JNumber (q ! 6))])
         else
           (''COMMAND_LONG'',
            [(''target_system'', num (pc_sysid p)), (''target_component'', num (pc_compid p)),
             (''command'', JNumber (pc_cmd p)), (''confirmation'', JNumber (pc_confirm p)),
             (''param1'', JNumber (q ! 0)), (''param2'', JNumber (q ! 1)),
             (''param3'', JNumber (q ! 2)), (''param4'', JNumber (q ! 3)),
             (''param5'', JNumber (q ! 4)), (''param6'', JNumber (q ! 5)),
             (''param7'', JNumber (q ! 6))]))"

definition transmit :: "pending \<Rightarrow> command_effect list" where
  "transmit p = (case transmit_message p of (name, fs) \<Rightarrow> [Transmit (pc_id p) name fs])"

definition find_pending :: "command_client \<Rightarrow> nat \<Rightarrow> pending option" where
  "find_pending C i = find (\<lambda>p. pc_id p = i) (cc_pending C)"

definition update_pending :: "nat \<Rightarrow> (pending \<Rightarrow> pending) \<Rightarrow> command_client \<Rightarrow> command_client" where
  "update_pending i f C = C\<lparr>cc_pending := map (\<lambda>p. if pc_id p = i then f p else p) (cc_pending C)\<rparr>"

text \<open>The part of \<open>settle\<close> before \<open>done\<close>: cancel the timer, drop the listener, leave the list.\<close>

definition detach :: "pending \<Rightarrow> command_client \<Rightarrow> command_client" where
  "detach p C =
     C\<lparr>cc_timers := cancel_timer (pc_cancelTimer p) (cc_timers C),
       cc_pending := filter (\<lambda>q. pc_id q \<noteq> pc_id p) (cc_pending C)\<rparr>"

definition is_unsupported :: "command_error \<Rightarrow> bool" where
  "is_unsupported e =
     (case e of CommandError _ _ (Some r) \<Rightarrow> js_eq r RESULT_UNSUPPORTED | _ \<Rightarrow> False)"

text \<open>Awaiting \<open>Promise.resolve (sendMessage (\<dots>))\<close> in an async function.\<close>

definition await_host :: "command_client \<Rightarrow> nat \<Rightarrow> bool \<Rightarrow> string \<Rightarrow> out_fields \<Rightarrow> command_result" where
  "await_host C i sent name fs =
     (if sent then (C\<lparr>cc_sending := cc_sending C @ [i]\<rparr>, [SendHost name fs])
      else (C, [RejectCall i HostError]))"

definition settle_reject :: "command_client \<Rightarrow> pending \<Rightarrow> command_error \<Rightarrow> bool \<Rightarrow> command_result" where
  "settle_reject C p e sent =
     (let C = detach p C
      in case pc_kont p of
           KDead \<Rightarrow> (C, [])
         | KSetMode sysid customMode \<Rightarrow>
             if is_unsupported e then
               await_host C (pc_id p) sent ''SET_MODE''
                 [(''target_system'', num sysid), (''base_mode'', JNumber MAV_MODE_FLAG_CUSTOM_MODE_ENABLED),
                  (''custom_mode'', JNumber customMode)]
             else (C, [RejectCall (pc_id p) e])
         | _ \<Rightarrow> (C, [RejectCall (pc_id p) e]))"

definition settle_resolve :: "command_client \<Rightarrow> pending \<Rightarrow> jsnum \<Rightarrow> command_result" where
  "settle_resolve C p r =
     (let C = detach p C
      in case pc_kont p of
           KDead \<Rightarrow> (C, [])
         | KSend \<Rightarrow> (C, [ResolveResult (pc_id p) r (pc_progressPct p)])
         | _ \<Rightarrow> (C, [ResolveVoid (pc_id p)]))"

definition send ::
  "command_client \<Rightarrow> nat \<Rightarrow> active_vehicle option \<Rightarrow> bool \<Rightarrow> jsnum \<Rightarrow> jsnum list \<Rightarrow> send_opts \<Rightarrow> kont \<Rightarrow> command_result" where
  "send C i vehicle sent cmd params opts k =
     (if cc_disposed C then (C, [RejectCall i (CommandError Aborted cmd None)])
      else case vehicle of
        None \<Rightarrow> (C, [RejectCall i (CommandError NoVehicle cmd None)])
      | Some v \<Rightarrow>
          if (case so_signal opts of Some (_, aborted) \<Rightarrow> aborted | None \<Rightarrow> False) then
            (C, [RejectCall i (CommandError Aborted cmd None)])
          else
            let p = \<lparr>pc_id = i, pc_kont = k, pc_cmd = cmd, pc_sysid = av_sysid v, pc_compid = av_compid v,
                     pc_int = (case so_int opts of Some b \<Rightarrow> b | None \<Rightarrow> False),
                     pc_frame = (case so_frame opts of Some f \<Rightarrow> f | None \<Rightarrow> MAV_FRAME_GLOBAL),
                     pc_params = params7 params,
                     pc_confirm = (case so_confirm opts of Some c \<Rightarrow> c | None \<Rightarrow> Num 0),
                     pc_attempts = 1, pc_inProgress = False, pc_progressPct = None,
                     pc_cancelTimer = None, pc_signal = map_option fst (so_signal opts)\<rparr>
            in if sent then
                 (case set_timer i (cc_resendMs C) (cc_timers C) of (t, T) \<Rightarrow>
                    (C\<lparr>cc_pending := cc_pending C @ [p\<lparr>pc_cancelTimer := Some t\<rparr>], cc_timers := T\<rparr>, transmit p))
               else (C\<lparr>cc_pending := cc_pending C @ [p\<lparr>pc_kont := KDead\<rparr>]\<rparr>, [RejectCall i HostError]))"

definition setMode :: "command_client \<Rightarrow> nat \<Rightarrow> active_vehicle option \<Rightarrow> bool \<Rightarrow> string \<Rightarrow> command_result" where
  "setMode C i vehicle sent mode =
     (case vehicle of
        None \<Rightarrow> (C, [RejectCall i (CommandError NoVehicle CMD_DO_SET_MODE None)])
      | Some v \<Rightarrow>
          (case resolveCustomMode (av_vehicleClass v) mode of
             None \<Rightarrow> (C, [RejectCall i (CommandError Rejected CMD_DO_SET_MODE None)])
           | Some customMode \<Rightarrow>
               send C i vehicle sent CMD_DO_SET_MODE
                 [MAV_MODE_FLAG_CUSTOM_MODE_ENABLED, js_nat customMode] no_opts
                 (KSetMode (av_sysid v) (js_nat customMode))))"

definition land :: "command_client \<Rightarrow> nat \<Rightarrow> active_vehicle option \<Rightarrow> bool \<Rightarrow> command_result" where
  "land C i vehicle sent =
     (case vehicle of
        None \<Rightarrow> (C, [RejectCall i (CommandError NoVehicle CMD_NAV_LAND None)])
      | Some v \<Rightarrow>
          if av_vehicleClass v = Copter then setMode C i vehicle sent ''LAND''
          else if av_vehicleClass v = Plane \<and> isVtolMavType (av_mavType v) then
            setMode C i vehicle sent ''QLAND''
          else send C i vehicle sent CMD_NAV_LAND (replicate 7 (Num 0)) no_opts KVoid)"

definition guidedGoto ::
  "command_client \<Rightarrow> nat \<Rightarrow> active_vehicle option \<Rightarrow> bool \<Rightarrow> jsnum \<Rightarrow> jsnum \<Rightarrow> jsnum \<Rightarrow> command_result" where
  "guidedGoto C i vehicle sent lat lon altM =
     (case vehicle of
        None \<Rightarrow> (C, [RejectCall i (CommandError NoVehicle (Num 0) None)])
      | Some v \<Rightarrow>
          await_host C i sent ''SET_POSITION_TARGET_GLOBAL_INT''
            [(''time_boot_ms'', num 0), (''target_system'', num (av_sysid v)),
             (''target_component'', num (av_compid v)),
             (''coordinate_frame'', JNumber MAV_FRAME_GLOBAL_RELATIVE_ALT_INT),
             (''type_mask'', JNumber POSITION_ONLY_TYPE_MASK),
             (''lat_int'', JNumber (js_round (js_mul lat LATLON_SCALE))),
             (''lon_int'', JNumber (js_round (js_mul lon LATLON_SCALE))),
             (''alt'', JNumber altM), (''vx'', num 0), (''vy'', num 0), (''vz'', num 0),
             (''afx'', num 0), (''afy'', num 0), (''afz'', num 0), (''yaw'', num 0), (''yaw_rate'', num 0)])"

definition setCurrentWp ::
  "command_client \<Rightarrow> nat \<Rightarrow> active_vehicle option \<Rightarrow> bool \<Rightarrow> jsnum \<Rightarrow> command_result" where
  "setCurrentWp C i vehicle sent wp =
     (case vehicle of
        None \<Rightarrow> (C, [RejectCall i (CommandError NoVehicle (Num 0) None)])
      | Some v \<Rightarrow>
          await_host C i sent ''MISSION_SET_CURRENT''
            [(''target_system'', num (av_sysid v)), (''target_component'', num (av_compid v)),
             (''seq'', JNumber wp)])"

text \<open>The calls of the public interface.\<close>

datatype api_call =
    ApiSend jsnum "jsnum list" send_opts
  | ApiArm bool bool
  | ApiSetMode string
  | ApiTakeoff jsnum
  | ApiLand
  | ApiRtl
  | ApiGuidedGoto jsnum jsnum jsnum
  | ApiSetRoi jsnum jsnum jsnum
  | ApiClearRoi
  | ApiSetCurrentWp jsnum

definition call :: "command_client \<Rightarrow> nat \<Rightarrow> active_vehicle option \<Rightarrow> bool \<Rightarrow> api_call \<Rightarrow> command_result" where
  "call C i vehicle sent a =
     (case a of
        ApiSend cmd params opts \<Rightarrow> send C i vehicle sent cmd params opts KSend
      | ApiArm arm force \<Rightarrow>
          send C i vehicle sent CMD_COMPONENT_ARM_DISARM
            [if arm then Num 1 else Num 0, if force then ARM_FORCE_MAGIC else Num 0] no_opts KVoid
      | ApiSetMode mode \<Rightarrow> setMode C i vehicle sent mode
      | ApiTakeoff altM \<Rightarrow>
          send C i vehicle sent CMD_NAV_TAKEOFF (replicate 6 (Num 0) @ [altM]) no_opts KVoid
      | ApiLand \<Rightarrow> land C i vehicle sent
      | ApiRtl \<Rightarrow> setMode C i vehicle sent ''RTL''
      | ApiGuidedGoto lat lon altM \<Rightarrow> guidedGoto C i vehicle sent lat lon altM
      | ApiSetRoi lat lon altM \<Rightarrow>
          send C i vehicle sent CMD_DO_SET_ROI_LOCATION
            (replicate 4 (Num 0) @ [js_round (js_mul lat LATLON_SCALE), js_round (js_mul lon LATLON_SCALE), altM])
            (no_opts\<lparr>so_int := Some True, so_frame := Some MAV_FRAME_GLOBAL\<rparr>) KVoid
      | ApiClearRoi \<Rightarrow> send C i vehicle sent CMD_DO_SET_ROI_NONE (replicate 7 (Num 0)) no_opts KVoid
      | ApiSetCurrentWp wp \<Rightarrow> setCurrentWp C i vehicle sent wp)"

definition bump :: "pending \<Rightarrow> pending" where
  "bump p = p\<lparr>pc_attempts := pc_attempts p + 1, pc_confirm := js_add (pc_confirm p) (Num 1)\<rparr>"

text \<open>The timer's handler; after a throw the counters have moved and no timer is set.\<close>

definition tick :: "command_client \<Rightarrow> nat \<Rightarrow> bool \<Rightarrow> command_result" where
  "tick C i sent =
     (case find_pending C i of
        None \<Rightarrow> (C, [])
      | Some p \<Rightarrow>
          if pc_inProgress p then settle_reject C p (CommandError TimedOut (pc_cmd p) None) sent
          else if cc_maxAttempts C \<le> pc_attempts p then
            settle_reject C p (CommandError TimedOut (pc_cmd p) None) sent
          else
            let C = update_pending i bump C
            in if sent then
                 (case set_timer i (cc_resendMs C) (cc_timers C) of (t, T) \<Rightarrow>
                    (update_pending i (pc_cancelTimer_update (\<lambda>_. Some t)) (C\<lparr>cc_timers := T\<rparr>), transmit (bump p)))
               else (C, []))"

definition ack_candidate :: "command_client \<Rightarrow> jsnum \<Rightarrow> nat \<Rightarrow> nat \<Rightarrow> pending option" where
  "ack_candidate C cmd sysid compid =
     (let candidates = filter (\<lambda>p. js_eq (pc_cmd p) cmd \<and> pc_sysid p = sysid) (cc_pending C)
      in case find (\<lambda>p. pc_compid p = compid) candidates of
           Some p \<Rightarrow> Some p
         | None \<Rightarrow> (case candidates of [] \<Rightarrow> None | p # _ \<Rightarrow> Some p))"

definition onAck :: "command_client \<Rightarrow> decoded_message \<Rightarrow> bool \<Rightarrow> command_result" where
  "onAck C msg sent =
     (case (numField (dm_fields msg) ''command'', numField (dm_fields msg) ''result'') of
        (Some cmd, Some result) \<Rightarrow>
          (case ack_candidate C cmd (dm_sysid msg) (dm_compid msg) of
             None \<Rightarrow> (C, [])
           | Some p \<Rightarrow>
               if js_eq result RESULT_IN_PROGRESS then
                 let pct = (case numField (dm_fields msg) ''progress'' of
                              Some x \<Rightarrow> if js_le (Num 0) x \<and> js_le x (Num 100) then Some x else pc_progressPct p
                            | None \<Rightarrow> pc_progressPct p)
                 in (case set_timer (pc_id p) (cc_progressTimeoutMs C) (cancel_timer (pc_cancelTimer p) (cc_timers C)) of
                       (t, T) \<Rightarrow>
                         (update_pending (pc_id p)
                            (\<lambda>q. q\<lparr>pc_inProgress := True, pc_progressPct := pct, pc_cancelTimer := Some t\<rparr>)
                            (C\<lparr>cc_timers := T\<rparr>), []))
               else if js_eq result RESULT_ACCEPTED then settle_resolve C p result
               else if js_eq result RESULT_TEMPORARILY_REJECTED then (C, [])
               else settle_reject C p (CommandError Rejected cmd (Some result)) sent)
      | _ \<Rightarrow> (C, []))"

text \<open>The loops over copies of the pending list in \<open>dispose\<close> and over a signal's listeners.\<close>

fun abort_all :: "command_client \<Rightarrow> nat list \<Rightarrow> command_result" where
  "abort_all C [] = (C, [])"
| "abort_all C (i # is) =
     (case find_pending C i of
        None \<Rightarrow> abort_all C is
      | Some p \<Rightarrow>
          (let (C1, f1) = settle_reject C p (CommandError Aborted (pc_cmd p) None) True;
               (C2, f2) = abort_all C1 is
           in (C2, f1 @ f2)))"

definition dispose :: "command_client \<Rightarrow> command_result" where
  "dispose C =
     (if cc_disposed C then (C, [])
      else abort_all (C\<lparr>cc_disposed := True\<rparr>) (map pc_id (cc_pending C)))"

datatype command_event =
    Call api_call "active_vehicle option" bool
  | AckIn decoded_message bool
  | Fire nat bool
  | TransmitFailed nat
  | HostDone nat
  | HostFailed nat
  | AbortSignal nat
  | Dispose

text \<open>The message tap is gone after \<open>dispose\<close>.\<close>

definition command_step :: "command_client \<Rightarrow> command_event \<Rightarrow> command_result" where
  "command_step C e =
     (case e of
        Call a vehicle sent \<Rightarrow> call (C\<lparr>cc_nextId := cc_nextId C + 1\<rparr>) (cc_nextId C) vehicle sent a
      | AckIn msg sent \<Rightarrow> if cc_disposed C then (C, []) else onAck C msg sent
      | Fire t sent \<Rightarrow>
          (case timer_handler t (cc_timers C) of
             None \<Rightarrow> (C, [])
           | Some i \<Rightarrow> tick (C\<lparr>cc_timers := cancel_timer (Some t) (cc_timers C)\<rparr>) i sent)
      | TransmitFailed i \<Rightarrow>
          (case find_pending C i of
             None \<Rightarrow> (C, [])
           | Some p \<Rightarrow> settle_reject C p (CommandError SendFailed (pc_cmd p) None) True)
      | HostDone i \<Rightarrow>
          if i \<in> set (cc_sending C) then (C\<lparr>cc_sending := filter (\<lambda>j. j \<noteq> i) (cc_sending C)\<rparr>, [ResolveVoid i])
          else (C, [])
      | HostFailed i \<Rightarrow>
          if i \<in> set (cc_sending C) then
            (C\<lparr>cc_sending := filter (\<lambda>j. j \<noteq> i) (cc_sending C)\<rparr>, [RejectCall i HostError])
          else (C, [])
      | AbortSignal s \<Rightarrow> abort_all C (map pc_id (filter (\<lambda>p. pc_signal p = Some s) (cc_pending C)))
      | Dispose \<Rightarrow> dispose C)"

section \<open>The ledger\<close>

fun command_settles :: "command_effect \<Rightarrow> nat option" where
  "command_settles (Transmit _ _ _) = None"
| "command_settles (SendHost _ _) = None"
| "command_settles (ResolveResult i _ _) = Some i"
| "command_settles (ResolveVoid i) = Some i"
| "command_settles (RejectCall i _) = Some i"

definition command_open :: "command_client \<Rightarrow> nat list" where
  "command_open C = map pc_id (filter (\<lambda>p. pc_kont p \<noteq> KDead) (cc_pending C)) @ cc_sending C"

definition command_ids :: "command_client \<Rightarrow> nat list" where
  "command_ids C = map pc_id (cc_pending C) @ cc_sending C"

definition command_inv :: "command_client \<Rightarrow> bool" where
  "command_inv C = (distinct (command_ids C) \<and> (\<forall>i\<in>set (command_ids C). i < cc_nextId C))"

text \<open>The ledger of one operation, with the promises \<open>new\<close> it opens.\<close>

definition balanced :: "nat list \<Rightarrow> command_client \<Rightarrow> command_result \<Rightarrow> bool" where
  "balanced new C r =
     (command_inv (fst r) \<and> cc_nextId (fst r) = cc_nextId C \<and>
      mset (List.map_filter command_settles (snd r)) + mset (command_open (fst r))
      = mset (command_open C) + mset new)"

lemmas ledger_defs = balanced_def command_inv_def command_open_def command_ids_def

lemma transmit_settles [simp]: "List.map_filter command_settles (transmit p) = []"
  by (simp add: transmit_def split: prod.split)

lemma balanced_refl: "command_inv C \<Longrightarrow> balanced [] C (C, [])"
  by (simp add: balanced_def)

lemma detach_open:
  assumes "command_inv C" "p \<in> set (cc_pending C)"
  shows "mset (command_open C) = mset (command_open (detach p C)) + (if pc_kont p = KDead then {#} else {#pc_id p#})"
    and "command_inv (detach p C)" and "pc_id p \<notin> set (command_ids (detach p C))"
    and "cc_nextId (detach p C) = cc_nextId C" and "pc_id p < cc_nextId C"
proof -
  have d: "distinct (map pc_id (cc_pending C))" using assms by (simp add: command_inv_def command_ids_def)
  have f: "filter (\<lambda>q. pc_id q \<noteq> pc_id p) (cc_pending C) = remove1 p (cc_pending C)"
    using d assms(2) by (rule filter_remove_one)
  have "mset (filter P (cc_pending C)) = mset (filter P (remove1 p (cc_pending C))) + (if P p then {#p#} else {#})" for P
  proof -
    have "mset (cc_pending C) = add_mset p (mset (remove1 p (cc_pending C)))"
      using assms(2) by simp
    then have "filter_mset P (mset (cc_pending C)) = filter_mset P (add_mset p (mset (remove1 p (cc_pending C))))"
      by simp
    then show ?thesis by (simp del: mset_remove1)
  qed
  then have "image_mset pc_id (mset (filter (\<lambda>p. pc_kont p \<noteq> KDead) (cc_pending C)))
      = image_mset pc_id (mset (filter (\<lambda>p. pc_kont p \<noteq> KDead) (remove1 p (cc_pending C)))
          + (if pc_kont p \<noteq> KDead then {#p#} else {#}))"
    by presburger
  then show "mset (command_open C) = mset (command_open (detach p C)) + (if pc_kont p = KDead then {#} else {#pc_id p#})"
    by (simp add: command_open_def detach_def f del: mset_remove1 mset_filter)
  show "command_inv (detach p C)"
    using assms by (auto simp: command_inv_def command_ids_def detach_def distinct_map_filter)
  show "pc_id p \<notin> set (command_ids (detach p C))"
    using assms by (auto simp: command_inv_def command_ids_def detach_def)
  show "cc_nextId (detach p C) = cc_nextId C" by (simp add: detach_def)
  show "pc_id p < cc_nextId C" using assms by (auto simp: command_inv_def command_ids_def)
qed

lemma await_host_balanced:
  "command_inv C \<Longrightarrow> i < cc_nextId C \<Longrightarrow> i \<notin> set (command_ids C) \<Longrightarrow> balanced [i] C (await_host C i sent name fs)"
  by (auto simp: await_host_def ledger_defs)

lemma settle_reject_balanced:
  assumes "command_inv C" "p \<in> set (cc_pending C)"
  shows "balanced [] C (settle_reject C p e sent)"
proof -
  note d = detach_open [OF assms]
  have "balanced [pc_id p] (detach p C) (await_host (detach p C) (pc_id p) sent name fs)" for name fs
    using d by (intro await_host_balanced) auto
  with d show ?thesis
    by (auto simp: settle_reject_def Let_def balanced_def split: kont.splits)
qed

lemma settle_resolve_balanced:
  assumes "command_inv C" "p \<in> set (cc_pending C)"
  shows "balanced [] C (settle_resolve C p r)"
  using detach_open [OF assms]
  by (auto simp: settle_resolve_def Let_def balanced_def split: kont.splits)

lemma find_pendingD: "find_pending C i = Some p \<Longrightarrow> p \<in> set (cc_pending C) \<and> pc_id p = i"
  by (auto simp: find_pending_def dest: find_SomeD)

lemma update_pending_ids:
  assumes "\<And>p. pc_id (f p) = pc_id p" "\<And>p. pc_kont (f p) = pc_kont p"
  shows "map pc_id (cc_pending (update_pending i f C)) = map pc_id (cc_pending C)"
    and "command_open (update_pending i f C) = command_open C"
    and "command_ids (update_pending i f C) = command_ids C"
    and "cc_nextId (update_pending i f C) = cc_nextId C"
proof -
  show ids: "map pc_id (cc_pending (update_pending i f C)) = map pc_id (cc_pending C)"
    using assms by (simp add: update_pending_def)
  have "map pc_id (filter (\<lambda>p. pc_kont p \<noteq> KDead) (map (\<lambda>p. if pc_id p = i then f p else p) xs))
      = map pc_id (filter (\<lambda>p. pc_kont p \<noteq> KDead) xs)" for xs
    using assms by (induction xs) auto
  then show "command_open (update_pending i f C) = command_open C"
    by (simp add: command_open_def update_pending_def)
  show "command_ids (update_pending i f C) = command_ids C"
    using ids by (simp add: command_ids_def update_pending_def)
  show "cc_nextId (update_pending i f C) = cc_nextId C"
    by (simp add: update_pending_def)
qed

lemma update_inv:
  assumes "\<And>p. pc_id (f p) = pc_id p" "\<And>p. pc_kont (f p) = pc_kont p" "command_inv C"
  shows "balanced [] C (update_pending i f C, [])"
  using update_pending_ids [where f = f, OF assms(1,2)] assms(3) by (simp add: balanced_def command_inv_def)

lemma balanced_same:
  assumes "command_inv C" "command_open C' = command_open C" "command_ids C' = command_ids C"
    "cc_nextId C' = cc_nextId C" "List.map_filter command_settles fs = []"
  shows "balanced [] C (C', fs)"
  using assms by (simp add: balanced_def command_inv_def)

lemma timers_open [simp]:
  "command_open (C\<lparr>cc_timers := T\<rparr>) = command_open C" "command_ids (C\<lparr>cc_timers := T\<rparr>) = command_ids C"
  by (simp_all add: command_open_def command_ids_def)

lemma update_pending_simps [simp]:
  assumes "\<And>p. pc_id (f p) = pc_id p" "\<And>p. pc_kont (f p) = pc_kont p"
  shows "command_open (update_pending i f C) = command_open C"
    and "command_ids (update_pending i f C) = command_ids C"
    and "cc_nextId (update_pending i f C) = cc_nextId C"
  using update_pending_ids [OF assms] by blast+

lemma bump_simps [simp]: "pc_id (bump p) = pc_id p" "pc_kont (bump p) = pc_kont p"
  by (simp_all add: bump_def)

lemma tick_balanced: "command_inv C \<Longrightarrow> balanced [] C (tick C i sent)"
  unfolding tick_def Let_def
  by (auto split: option.splits if_splits prod.splits dest!: find_pendingD
      intro: settle_reject_balanced balanced_refl intro!: balanced_same)

lemma ack_candidateD:
  assumes "ack_candidate C cmd sysid compid = Some p"
  shows "p \<in> set (cc_pending C) \<and> js_eq (pc_cmd p) cmd \<and> pc_sysid p = sysid"
proof -
  define cs where "cs = filter (\<lambda>p. js_eq (pc_cmd p) cmd \<and> pc_sysid p = sysid) (cc_pending C)"
  have "p \<in> set cs"
  proof (cases "find (\<lambda>p. pc_compid p = compid) cs")
    case None
    with assms show ?thesis by (simp add: ack_candidate_def cs_def [symmetric] split: list.splits)
  next
    case (Some q)
    with assms show ?thesis by (simp add: ack_candidate_def cs_def [symmetric]) (metis find_SomeD)
  qed
  then show ?thesis by (simp add: cs_def)
qed

lemma onAck_balanced: "command_inv C \<Longrightarrow> balanced [] C (onAck C msg sent)"
  unfolding onAck_def Let_def
  by (auto split: option.splits if_splits prod.splits dest!: ack_candidateD
      intro: settle_reject_balanced settle_resolve_balanced balanced_refl intro!: balanced_same)

lemma abort_all_balanced: "command_inv C \<Longrightarrow> balanced [] C (abort_all C is)"
proof (induction "is" arbitrary: C)
  case Nil
  then show ?case by (simp add: balanced_refl)
next
  case (Cons i "is")
  show ?case
  proof (cases "find_pending C i")
    case None
    then show ?thesis using Cons by simp
  next
    case (Some p)
    let ?r = "settle_reject C p (CommandError Aborted (pc_cmd p) None) True"
    have r: "balanced [] C ?r" using Cons.prems find_pendingD [OF Some] by (intro settle_reject_balanced) auto
    then have "balanced [] (fst ?r) (abort_all (fst ?r) is)" by (intro Cons.IH) (simp add: balanced_def)
    with r show ?thesis
      by (simp add: Some balanced_def Let_def split_beta) (metis add.assoc)
  qed
qed

lemma send_balanced:
  "command_inv C \<Longrightarrow> i < cc_nextId C \<Longrightarrow> i \<notin> set (command_ids C) \<Longrightarrow> k \<noteq> KDead \<Longrightarrow>
   balanced [i] C (send C i vehicle sent cmd params opts k)"
  by (auto simp: send_def Let_def ledger_defs split: option.splits prod.splits)

lemma reject_balanced: "command_inv C \<Longrightarrow> balanced [i] C (C, [RejectCall i e])"
  by (simp add: balanced_def)

lemma setMode_balanced:
  "command_inv C \<Longrightarrow> i < cc_nextId C \<Longrightarrow> i \<notin> set (command_ids C) \<Longrightarrow> balanced [i] C (setMode C i vehicle sent mode)"
  by (auto simp: setMode_def send_balanced reject_balanced split: option.split)

lemma call_balanced:
  "command_inv C \<Longrightarrow> i < cc_nextId C \<Longrightarrow> i \<notin> set (command_ids C) \<Longrightarrow> balanced [i] C (call C i vehicle sent a)"
  by (cases a)
    (auto simp: call_def land_def guidedGoto_def setCurrentWp_def send_balanced setMode_balanced reject_balanced
      await_host_balanced split: option.split)

lemma command_step_balanced:
  assumes "command_inv C"
  shows "case e of
      Call _ _ _ \<Rightarrow> balanced [cc_nextId C] (C\<lparr>cc_nextId := cc_nextId C + 1\<rparr>) (command_step C e)
    | _ \<Rightarrow> balanced [] C (command_step C e)"
proof (cases e)
  case (Call a vehicle sent)
  have "command_inv (C\<lparr>cc_nextId := cc_nextId C + 1\<rparr>)" "cc_nextId C \<notin> set (command_ids (C\<lparr>cc_nextId := cc_nextId C + 1\<rparr>))"
    using assms by (auto simp: command_inv_def command_ids_def less_Suc_eq)
  then show ?thesis by (simp add: Call command_step_def call_balanced)
next
  case (Fire t sent)
  have "command_inv (C\<lparr>cc_timers := T\<rparr>)" for T using assms by (simp add: command_inv_def)
  from tick_balanced [OF this] show ?thesis
    using assms by (auto simp: Fire command_step_def balanced_def split: option.split)
next
  case Dispose
  have "balanced [] (C\<lparr>cc_disposed := True\<rparr>) (abort_all (C\<lparr>cc_disposed := True\<rparr>) is)" for "is"
    using assms by (intro abort_all_balanced) (simp add: command_inv_def command_ids_def)
  then have "balanced [] C (abort_all (C\<lparr>cc_disposed := True\<rparr>) is)" for "is"
    by (simp add: balanced_def command_open_def)
  with assms show ?thesis by (simp add: Dispose command_step_def dispose_def balanced_refl)
next
  case (HostDone i)
  show ?thesis
    using assms by (auto simp: HostDone command_step_def ledger_defs mset_filter_neq balanced_refl)
next
  case (HostFailed i)
  show ?thesis
    using assms by (auto simp: HostFailed command_step_def ledger_defs mset_filter_neq)
qed (use assms in \<open>auto simp: command_step_def onAck_balanced abort_all_balanced balanced_refl
    split: option.splits dest!: find_pendingD intro: settle_reject_balanced\<close>)

end
