(* ===== verification/Command_Safety.thy ===== *)
theory Command_Safety
  imports Command_Client
begin

text \<open>
  Behaviour of the command client over runs: the ledger of its promises (an interpretation of
  \<open>promise_ledger\<close>), the timer that every pending command keeps, retries until the time-out, and the
  correlation of acknowledgements.
\<close>

section \<open>The ledger\<close>

interpretation cmd: promise_ledger command_step command_inv command_open cc_nextId command_settles
proof
  fix C :: command_client and e
  assume inv: "command_inv C"
  note b = command_step_balanced [OF inv, of e]
  show "command_inv (fst (command_step C e))"
    using b by (cases e) (simp_all add: balanced_def)
  show "cc_nextId C \<le> cc_nextId (fst (command_step C e))"
    using b by (cases e) (simp_all add: balanced_def)
  show "mset (List.map_filter command_settles (snd (command_step C e))) + mset (command_open (fst (command_step C e)))
      = mset (command_open C) + mset [cc_nextId C..<cc_nextId (fst (command_step C e))]"
    using b by (cases e) (simp_all add: balanced_def command_open_def)
qed

lemma createCommandClient_inv [simp]:
  "command_inv (createCommandClient a b c)" "command_open (createCommandClient a b c) = []"
  "cc_nextId (createCommandClient a b c) = 0"
  by (simp_all add: createCommandClient_def command_inv_def command_open_def command_ids_def)

section \<open>Timers\<close>

definition cmd_slots :: "command_client \<Rightarrow> nat slots" where
  "cmd_slots C = map (\<lambda>p. (pc_id p, pc_cancelTimer p)) (cc_pending C)"

definition armed_but :: "nat option \<Rightarrow> command_client \<Rightarrow> bool" where
  "armed_but x C = armed x (cmd_slots C) (cc_timers C)"

text \<open>Every pending command has an active timer, its own, and there are no others.\<close>

abbreviation cmd_armed :: "command_client \<Rightarrow> bool" where
  "cmd_armed C \<equiv> armed_but None C"

lemma cmd_slot_iff: "(i, c) \<in> set (cmd_slots C) \<longleftrightarrow> (\<exists>p\<in>set (cc_pending C). pc_id p = i \<and> pc_cancelTimer p = c)"
  by (auto simp: cmd_slots_def)

lemma cmd_slots_ids [simp]: "fst ` set (cmd_slots C) = pc_id ` set (cc_pending C)"
  by (simp add: cmd_slots_def image_image)

lemma slots_detach: "cmd_slots (detach p C) = filter (\<lambda>(h, _). h \<noteq> pc_id p) (cmd_slots C)"
  by (simp add: cmd_slots_def detach_def filter_map comp_def)

lemma slots_update:
  assumes "\<And>p. pc_id (f p) = pc_id p"
  shows "(\<And>p. pc_cancelTimer (f p) = Some t) \<Longrightarrow> cmd_slots (update_pending i f C) = rearm i t (cmd_slots C)"
    and "(\<And>p. pc_cancelTimer (f p) = pc_cancelTimer p) \<Longrightarrow> cmd_slots (update_pending i f C) = cmd_slots C"
  using assms by (simp_all add: cmd_slots_def update_pending_def rearm_def)

lemma armed_timer:
  assumes "armed_but x C" "p \<in> set (cc_pending C)"
  obtains t where "pc_cancelTimer p = Some t"
    "timer_handler t (cc_timers C) = (if x = Some (pc_id p) then None else Some (pc_id p))"
  using assms armed_slot [of x "cmd_slots C" "cc_timers C" "pc_id p" "pc_cancelTimer p"]
  unfolding armed_but_def cmd_slot_iff by blast

lemma armed_detach:
  assumes "armed_but x C" "p \<in> set (cc_pending C)" "x = None \<or> x = Some (pc_id p)"
  shows "cmd_armed (detach p C)"
  using armed_remove [of x "cmd_slots C" "cc_timers C" "pc_id p" "pc_cancelTimer p"] assms
  unfolding armed_but_def slots_detach cmd_slot_iff by (simp add: detach_def) blast

lemma armed_sending [simp]: "armed_but x (C\<lparr>cc_sending := l\<rparr>) = armed_but x C"
  by (simp add: armed_but_def cmd_slots_def)

lemma armed_settle_reject: "cmd_armed (detach p C) \<Longrightarrow> cmd_armed (fst (settle_reject C p e sent))"
  by (simp add: settle_reject_def Let_def await_host_def split: kont.split)

lemma armed_settle_resolve: "cmd_armed (detach p C) \<Longrightarrow> cmd_armed (fst (settle_resolve C p r))"
  by (simp add: settle_resolve_def Let_def split: kont.split)

lemma armed_abort_all: "cmd_armed C \<Longrightarrow> cmd_armed (fst (abort_all C is))"
proof (induction "is" arbitrary: C)
  case Nil
  then show ?case by simp
next
  case (Cons i "is")
  show ?case
  proof (cases "find_pending C i")
    case None
    then show ?thesis using Cons by simp
  next
    case (Some p)
    then have p: "p \<in> set (cc_pending C)" using find_pendingD by blast
    then have "cmd_armed (detach p C)" using armed_detach [OF Cons.prems p] by blast
    then have "cmd_armed (fst (settle_reject C p (CommandError Aborted (pc_cmd p) None) True))"
      by (rule armed_settle_reject)
    then show ?thesis using Cons.IH by (simp add: Some Let_def split_beta)
  qed
qed

text \<open>Setting the timer of \<open>i\<close> anew.\<close>

lemma slots_timers: "cmd_slots (C\<lparr>cc_timers := T\<rparr>) = cmd_slots C" "cc_timers (update_pending i f C) = cc_timers C"
  by (simp_all add: cmd_slots_def update_pending_def)

lemma armed_set_timer:
  assumes A: "armed_but (Some i) C" and st: "set_timer i ms (cc_timers C) = (t, T)"
    and i: "i \<in> pc_id ` set (cc_pending C)"
    and f: "\<And>p. pc_id (f p) = pc_id p" "\<And>p. pc_cancelTimer (f p) = Some t"
  shows "cmd_armed (update_pending i f (C\<lparr>cc_timers := T\<rparr>))"
proof -
  have "armed None (rearm i t (cmd_slots C)) T"
    using A st i unfolding armed_but_def by (intro armed_reset) simp_all
  moreover have "cmd_slots (update_pending i f (C\<lparr>cc_timers := T\<rparr>)) = rearm i t (cmd_slots C)"
    using slots_update(1) [OF f] by (simp add: slots_timers)
  ultimately show ?thesis by (simp add: armed_but_def slots_timers)
qed

lemma armed_update:
  assumes "armed_but x C" "\<And>p. pc_id (f p) = pc_id p" "\<And>p. pc_cancelTimer (f p) = pc_cancelTimer p"
  shows "armed_but x (update_pending i f C)"
  using assms(1) slots_update(2) [OF assms(2,3)] by (simp add: armed_but_def slots_timers)

lemma armed_fired:
  assumes "cmd_armed C" "timer_handler t (cc_timers C) = Some i"
  shows "armed_but (Some i) (C\<lparr>cc_timers := cancel_timer (Some t) (cc_timers C)\<rparr>)"
    and "i \<in> pc_id ` set (cc_pending C)"
  using armed_fire [OF assms(1) [unfolded armed_but_def] assms(2)]
  by (auto simp: armed_but_def slots_timers cmd_slot_iff)

lemma ids_update_pending:
  "(\<And>p. pc_id (f p) = pc_id p) \<Longrightarrow> map pc_id (cc_pending (update_pending i f C)) = map pc_id (cc_pending C)"
  by (simp add: update_pending_def)

lemma armed_tick:
  assumes A: "armed_but (Some i) C" and i: "i \<in> pc_id ` set (cc_pending C)"
  shows "cmd_armed (fst (tick C i True))"
proof -
  obtain p where fp: "find_pending C i = Some p"
    using i by (cases "find_pending C i") (auto simp: find_pending_def find_None_iff)
  then have p: "p \<in> set (cc_pending C)" "pc_id p = i" using find_pendingD by blast+
  have "cmd_armed (detach p C)" using armed_detach [OF A p(1)] p by simp
  then have rej: "cmd_armed (fst (settle_reject C p e True))" for e by (rule armed_settle_reject)
  obtain t T where st: "set_timer i (cc_resendMs C) (cc_timers C) = (t, T)" by fastforce
  have ids: "pc_id ` set (cc_pending (update_pending i bump C)) = pc_id ` set (cc_pending C)"
    using ids_update_pending [of bump i C] by (metis bump_simps(1) list.set_map)
  have "cmd_armed (update_pending i (pc_cancelTimer_update (\<lambda>_. Some t)) ((update_pending i bump C)\<lparr>cc_timers := T\<rparr>))"
  proof (rule armed_set_timer)
    show "armed_but (Some i) (update_pending i bump C)"
      using A by (rule armed_update) (simp_all add: bump_def)
    show "set_timer i (cc_resendMs C) (cc_timers (update_pending i bump C)) = (t, T)"
      using st by (simp add: update_pending_def)
  qed (use i ids in simp_all)
  with rej show ?thesis
    by (simp add: tick_def fp Let_def) (simp add: update_pending_def st)
qed

text \<open>Events in which every \<open>sendMessage\<close> returns.\<close>

fun no_throw :: "command_event \<Rightarrow> bool" where
  "no_throw (Call _ _ sent) = sent"
| "no_throw (AckIn _ sent) = sent"
| "no_throw (Fire _ sent) = sent"
| "no_throw _ = True"

lemma armed_onAck:
  assumes A: "cmd_armed C"
  shows "cmd_armed (fst (onAck C msg True))"
proof -
  have d: "cmd_armed (detach p C)" if "p \<in> set (cc_pending C)" for p
    using armed_detach [OF A that] by blast
  have prog: "cmd_armed (update_pending (pc_id p)
        (\<lambda>q. q\<lparr>pc_inProgress := True, pc_progressPct := pct, pc_cancelTimer := Some t\<rparr>) (C\<lparr>cc_timers := T\<rparr>))"
    if p: "p \<in> set (cc_pending C)"
      and st: "set_timer (pc_id p) (cc_progressTimeoutMs C) (cancel_timer (pc_cancelTimer p) (cc_timers C)) = (t, T)"
    for p pct t T
  proof -
    have "armed_but (Some (pc_id p)) (C\<lparr>cc_timers := cancel_timer (pc_cancelTimer p) (cc_timers C)\<rparr>)"
      using A p armed_cancel [of "cmd_slots C" "cc_timers C" "pc_id p" "pc_cancelTimer p"]
      unfolding armed_but_def slots_timers cmd_slot_iff by auto
    from armed_set_timer [OF this, of "cc_progressTimeoutMs C" t T
        "\<lambda>q. q\<lparr>pc_inProgress := True, pc_progressPct := pct, pc_cancelTimer := Some t\<rparr>"]
    show ?thesis using st p by simp
  qed
  show ?thesis
    using A
    by (auto simp: onAck_def Let_def prog d armed_settle_reject armed_settle_resolve
        split: option.split prod.split dest!: ack_candidateD)
qed

lemma armed_send:
  assumes A: "cmd_armed C" and i: "i \<notin> pc_id ` set (cc_pending C)"
  shows "cmd_armed (fst (send C i vehicle True cmd params opts k))"
proof -
  have "cmd_armed (C\<lparr>cc_pending := cc_pending C @ [p], cc_timers := T\<rparr>)"
    if "set_timer i (cc_resendMs C) (cc_timers C) = (t, T)" "pc_id p = i" "pc_cancelTimer p = Some t" for p t T
    using armed_add [OF A [unfolded armed_but_def] that(1)] i that(2,3)
    by (simp add: armed_but_def cmd_slots_def image_image)
  then show ?thesis
    using A by (auto simp: send_def Let_def split: option.split prod.split)
qed

lemma armed_call:
  assumes "cmd_armed C" "i \<notin> pc_id ` set (cc_pending C)"
  shows "cmd_armed (fst (call C i vehicle True a))"
  using assms
  by (cases a)
    (auto simp: call_def setMode_def land_def guidedGoto_def setCurrentWp_def await_host_def armed_send split: option.split)

lemma armed_step:
  assumes "command_inv C" "cmd_armed C" "no_throw e"
  shows "cmd_armed (fst (command_step C e))"
proof (cases e)
  case (Call a vehicle sent)
  have "cmd_armed (C\<lparr>cc_nextId := n\<rparr>)" for n using assms(2) by (simp add: armed_but_def cmd_slots_def)
  moreover have "cc_nextId C \<notin> pc_id ` set (cc_pending C)"
    using assms(1) by (auto simp: command_inv_def command_ids_def)
  ultimately have "cmd_armed (fst (call (C\<lparr>cc_nextId := cc_nextId C + 1\<rparr>) (cc_nextId C) vehicle True a))"
    by (intro armed_call) simp_all
  with Call assms(3) show ?thesis by (simp add: command_step_def)
next
  case (AckIn msg sent)
  with assms armed_onAck show ?thesis by (simp add: command_step_def)
next
  case (Fire t sent)
  show ?thesis
  proof (cases "timer_handler t (cc_timers C)")
    case None
    with assms Fire show ?thesis by (simp add: command_step_def)
  next
    case (Some i)
    then have "cmd_armed (fst (tick (C\<lparr>cc_timers := cancel_timer (Some t) (cc_timers C)\<rparr>) i True))"
      using armed_fired [OF assms(2) Some] by (intro armed_tick) simp_all
    with Some assms(3) Fire show ?thesis by (simp add: command_step_def)
  qed
next
  case (TransmitFailed i)
  have "cmd_armed (fst (settle_reject C p e True))" if "find_pending C i = Some p" for p e
    using armed_detach [OF assms(2)] find_pendingD [OF that] by (blast intro: armed_settle_reject)
  with TransmitFailed assms(2) show ?thesis by (simp add: command_step_def split: option.split)
next
  case Dispose
  have "cmd_armed (C\<lparr>cc_disposed := True\<rparr>)" using assms(2) by (simp add: armed_but_def cmd_slots_def)
  with Dispose assms(2) show ?thesis by (simp add: command_step_def dispose_def armed_abort_all)
qed (use assms in \<open>auto simp: command_step_def armed_abort_all\<close>)

lemma createCommandClient_armed [simp]: "cmd_armed (createCommandClient a b c)"
  by (simp add: createCommandClient_def armed_but_def cmd_slots_def armed_init)

text \<open>The invariant over runs without a throwing \<open>sendMessage\<close>.\<close>

lemma armed_run: "command_inv C \<Longrightarrow> cmd_armed C \<Longrightarrow> list_all no_throw es \<Longrightarrow> cmd_armed (fst (run_steps command_step C es))"
proof (induction es arbitrary: C)
  case Nil
  then show ?case by simp
next
  case (Cons e es)
  have "command_inv (fst (command_step C e))" using Cons.prems cmd.inv_step by blast
  moreover have "cmd_armed (fst (command_step C e))" using Cons.prems by (intro armed_step) simp_all
  ultimately show ?case using Cons by (simp add: split_beta Let_def)
qed

section \<open>Silence\<close>

text \<open>\<open>silence i n C\<close>: no acknowledgement arrives and the timer of \<open>i\<close> fires \<open>n\<close> times.\<close>

fun silence :: "nat \<Rightarrow> nat \<Rightarrow> command_client \<Rightarrow> command_result" where
  "silence i 0 C = (C, [])"
| "silence i (Suc n) C =
     (case find_pending C i of
        None \<Rightarrow> (C, [])
      | Some p \<Rightarrow>
          (case pc_cancelTimer p of
             None \<Rightarrow> (C, [])
           | Some t \<Rightarrow>
               (let (C1, f1) = command_step C (Fire t True); (C2, f2) = silence i n C1 in (C2, f1 @ f2))))"

text \<open>The resends: the same message with the next confirmation numbers.\<close>

primrec retries :: "pending \<Rightarrow> nat \<Rightarrow> command_effect list" where
  "retries p 0 = []"
| "retries p (Suc n) = transmit (bump p) @ retries (bump p) n"

lemma transmit_timer [simp]: "transmit (p\<lparr>pc_cancelTimer := t\<rparr>) = transmit p"
  by (simp add: transmit_def transmit_message_def Let_def)

lemma bump_timer [simp]: "bump (p\<lparr>pc_cancelTimer := t\<rparr>) = (bump p)\<lparr>pc_cancelTimer := t\<rparr>"
  by (simp add: bump_def)

lemma retries_timer [simp]: "retries (p\<lparr>pc_cancelTimer := t\<rparr>) n = retries p n"
  by (induction n arbitrary: p) simp_all

lemma find_pending_timers [simp]: "find_pending (C\<lparr>cc_timers := T\<rparr>) i = find_pending C i"
  by (simp add: find_pending_def)

lemma find_detach: "find_pending (detach p C) i = (if i = pc_id p then None else find_pending C i)"
  using find_remove [of pc_id i "pc_id p" "cc_pending C"] by (simp add: find_pending_def detach_def)

lemma find_update:
  assumes "\<And>p. pc_id (f p) = pc_id p"
  shows "find_pending (update_pending i f C) j = (if j = i then map_option f (find_pending C j) else find_pending C j)"
  using find_modify [where k = pc_id and f = f, OF assms] by (simp add: find_pending_def update_pending_def)

lemma settle_timeout:
  "pc_kont p \<noteq> KDead \<Longrightarrow>
   settle_reject C p (CommandError TimedOut (pc_cmd p) None) sent
   = (detach p C, [RejectCall (pc_id p) (CommandError TimedOut (pc_cmd p) None)])"
  by (simp add: settle_reject_def Let_def is_unsupported_def split: kont.split)

lemma fire_own:
  assumes "cmd_armed C" "find_pending C i = Some p" "pc_cancelTimer p = Some t"
  shows "command_step C (Fire t True) = tick (C\<lparr>cc_timers := cancel_timer (Some t) (cc_timers C)\<rparr>) i True"
proof -
  have p: "p \<in> set (cc_pending C)" "pc_id p = i" using find_pendingD [OF assms(2)] by blast+
  then have "timer_handler t (cc_timers C) = Some i"
    using assms(3) by (metis armed_timer [OF assms(1) p(1)] option.distinct(1) option.inject)
  then show ?thesis by (simp add: command_step_def)
qed

lemma silence_gives_up:
  assumes "cmd_armed C" "find_pending C i = Some p" "pc_kont p \<noteq> KDead"
    "pc_inProgress p \<or> cc_maxAttempts C \<le> pc_attempts p"
  shows "\<exists>C'. silence i (Suc n) C = (C', [RejectCall i (CommandError TimedOut (pc_cmd p) None)])
    \<and> find_pending C' i = None"
proof -
  have p: "p \<in> set (cc_pending C)" "pc_id p = i" using find_pendingD [OF assms(2)] by blast+
  obtain t where t: "pc_cancelTimer p = Some t" using armed_timer [OF assms(1) p(1)] by blast
  have step: "command_step C (Fire t True)
      = (detach p (C\<lparr>cc_timers := cancel_timer (Some t) (cc_timers C)\<rparr>), [RejectCall i (CommandError TimedOut (pc_cmd p) None)])"
    using assms settle_timeout [OF assms(3)] p by (auto simp: fire_own [OF assms(1,2) t] tick_def)
  have none: "find_pending (detach p (C\<lparr>cc_timers := T\<rparr>)) i = None" for T
    using p by (simp add: find_detach)
  have "silence i n C' = (C', [])" if "find_pending C' i = None" for C'
    using that by (cases n) simp_all
  with none step show ?thesis by (simp add: assms(2) t)
qed

lemma silence_times_out:
  assumes "command_inv C" "cmd_armed C" "find_pending C i = Some p" "pc_kont p \<noteq> KDead" "\<not> pc_inProgress p"
    and "cc_maxAttempts C - pc_attempts p = n"
  shows "\<exists>C'. silence i (Suc n) C = (C', retries p n @ [RejectCall i (CommandError TimedOut (pc_cmd p) None)])
    \<and> find_pending C' i = None"
  using assms
proof (induction n arbitrary: C p)
  case 0
  then show ?case using silence_gives_up [of C i p 0] by simp
next
  case (Suc n)
  have p: "p \<in> set (cc_pending C)" "pc_id p = i" using find_pendingD [OF Suc.prems(3)] by blast+
  obtain t where t: "pc_cancelTimer p = Some t" using armed_timer [OF Suc.prems(2) p(1)] by blast
  let ?T = "cancel_timer (Some t) (cc_timers C)"
  obtain k T where st: "set_timer i (cc_resendMs C) ?T = (k, T)" by fastforce
  let ?C = "update_pending i (pc_cancelTimer_update (\<lambda>_. Some k)) ((update_pending i bump C)\<lparr>cc_timers := T\<rparr>)"
  let ?p = "(bump p)\<lparr>pc_cancelTimer := Some k\<rparr>"
  have "\<not> cc_maxAttempts C \<le> pc_attempts p" using Suc.prems(6) by simp
  then have step: "command_step C (Fire t True) = (?C, transmit (bump p))"
    using Suc.prems st unfolding fire_own [OF Suc.prems(2,3) t]
    by (simp add: tick_def Let_def) (simp add: update_pending_def)
  have find: "find_pending ?C i = Some ?p"
    using Suc.prems(3) by (simp add: find_update)
  have "command_inv ?C" "cmd_armed ?C"
    using cmd.inv_step [OF Suc.prems(1), of "Fire t True"] armed_step [OF Suc.prems(1,2), of "Fire t True"] step
    by simp_all
  moreover have "cc_maxAttempts ?C = cc_maxAttempts C" by (simp add: update_pending_def)
  moreover have "pc_kont ?p \<noteq> KDead" "\<not> pc_inProgress ?p" "pc_attempts ?p = pc_attempts p + 1" "pc_cmd ?p = pc_cmd p"
    using Suc.prems by (simp_all add: bump_def)
  ultimately obtain C' where C': "silence i (Suc n) ?C
      = (C', retries ?p n @ [RejectCall i (CommandError TimedOut (pc_cmd ?p) None)])" "find_pending C' i = None"
    using Suc.IH [of ?C ?p, OF _ _ find] Suc.prems(6) by (metis Suc_eq_plus1 diff_Suc_eq_diff_pred diff_diff_left diff_Suc_1)
  have cmdp: "pc_cmd ?p = pc_cmd p" by (simp add: bump_def)
  have "silence i (Suc (Suc n)) C = (C', transmit (bump p) @ retries ?p n @ [RejectCall i (CommandError TimedOut (pc_cmd p) None)])"
    using C'(1) step cmdp by (simp only: silence.simps(2) [of i "Suc n"] Suc.prems(3) t option.case Let_def split_conv)
  with C'(2) show ?case by simp
qed

section \<open>How often a command is sent\<close>

definition transmissions :: "nat \<Rightarrow> command_effect list \<Rightarrow> nat" where
  "transmissions i fs = length (filter (\<lambda>f. case f of Transmit j _ _ \<Rightarrow> j = i | _ \<Rightarrow> False) fs)"

lemma transmissions_simps [simp]:
  "transmissions i [] = 0"
  "transmissions i (xs @ ys) = transmissions i xs + transmissions i ys"
  "transmissions i [RejectCall j e] = 0" "transmissions i [ResolveVoid j] = 0"
  "transmissions i [ResolveResult j r q] = 0" "transmissions i [SendHost name fs] = 0"
  "transmissions i (transmit p) = (if pc_id p = i then 1 else 0)"
  by (simp_all add: transmissions_def transmit_def split: prod.split)

text \<open>How many transmissions the state still allows for promise \<open>i\<close>.\<close>

definition budget :: "command_client \<Rightarrow> nat \<Rightarrow> nat" where
  "budget C i =
     (case find_pending C i of
        Some p \<Rightarrow> cc_maxAttempts C - pc_attempts p
      | None \<Rightarrow> if cc_nextId C \<le> i then max 1 (cc_maxAttempts C) else 0)"

definition spends :: "nat \<Rightarrow> command_client \<Rightarrow> command_result \<Rightarrow> bool" where
  "spends i C r =
     (transmissions i (snd r) + budget (fst r) i \<le> budget C i \<and> cc_nextId C \<le> cc_nextId (fst r) \<and>
      cc_maxAttempts (fst r) = cc_maxAttempts C)"

lemma spends_refl: "transmissions i fs = 0 \<Longrightarrow> spends i C (C, fs)"
  by (simp add: spends_def)

lemma budget_timers [simp]: "budget (C\<lparr>cc_timers := T\<rparr>) i = budget C i"
  by (simp add: budget_def split: option.split)

lemma budget_sending [simp]: "budget (C\<lparr>cc_sending := l\<rparr>) i = budget C i"
  by (simp add: budget_def find_pending_def split: option.split)

lemma detach_simps [simp]: "cc_nextId (detach p C) = cc_nextId C" "cc_maxAttempts (detach p C) = cc_maxAttempts C"
  by (simp_all add: detach_def)

lemma budget_detach: "pc_id p < cc_nextId C \<Longrightarrow> budget (detach p C) i \<le> budget C i"
  by (auto simp: budget_def find_detach split: option.split)

lemma settle_reject_spends: "pc_id p < cc_nextId C \<Longrightarrow> spends i C (settle_reject C p e sent)"
  by (simp add: spends_def settle_reject_def Let_def await_host_def budget_detach split: kont.split)

lemma settle_resolve_spends: "pc_id p < cc_nextId C \<Longrightarrow> spends i C (settle_resolve C p r)"
  by (simp add: spends_def settle_resolve_def Let_def budget_detach split: kont.split)

lemma inv_less: "command_inv C \<Longrightarrow> p \<in> set (cc_pending C) \<Longrightarrow> pc_id p < cc_nextId C"
  by (auto simp: command_inv_def command_ids_def)

lemma abort_all_spends: "command_inv C \<Longrightarrow> spends i C (abort_all C is)"
proof (induction "is" arbitrary: C)
  case Nil
  then show ?case by (simp add: spends_refl)
next
  case (Cons j "is")
  show ?case
  proof (cases "find_pending C j")
    case None
    then show ?thesis using Cons by simp
  next
    case (Some p)
    let ?r = "settle_reject C p (CommandError Aborted (pc_cmd p) None) True"
    have p: "p \<in> set (cc_pending C)" using find_pendingD [OF Some] by blast
    have "spends i C ?r" using inv_less [OF Cons.prems p] by (rule settle_reject_spends)
    moreover have "spends i (fst ?r) (abort_all (fst ?r) is)"
      using settle_reject_balanced [OF Cons.prems p] by (intro Cons.IH) (simp add: balanced_def)
    ultimately show ?thesis by (simp add: Some spends_def Let_def split_beta)
  qed
qed

lemma tick_spends:
  assumes "command_inv C"
  shows "spends i C (tick C j sent)"
proof (cases "find_pending C j")
  case None
  then show ?thesis by (simp add: tick_def spends_refl)
next
  case (Some p)
  then have p: "p \<in> set (cc_pending C)" "pc_id p = j" using find_pendingD by blast+
  have rej: "spends i C (settle_reject C p e sent)" for e
    using inv_less [OF assms p(1)] by (rule settle_reject_spends)
  have nid: "cc_nextId (update_pending j f C) = cc_nextId C" "cc_maxAttempts (update_pending j f C) = cc_maxAttempts C"
    "cc_timers (update_pending j f C) = cc_timers C" "cc_resendMs (update_pending j f C) = cc_resendMs C" for f C
    by (simp_all add: update_pending_def)
  have b: "budget (update_pending j bump C) i = (if i = j then cc_maxAttempts C - (pc_attempts p + 1) else budget C i)"
    by (simp add: budget_def find_update nid Some split: option.split) (simp add: bump_def)
  have b2: "budget (update_pending j (pc_cancelTimer_update g) C') i = budget C' i" for g C'
    by (simp add: budget_def find_update nid split: option.split)
  have bi: "budget C j = cc_maxAttempts C - pc_attempts p" by (simp add: budget_def Some)
  obtain t T where st: "set_timer j (cc_resendMs C) (cc_timers C) = (t, T)" by fastforce
  have resend: "spends i C (update_pending j (pc_cancelTimer_update g) ((update_pending j bump C)\<lparr>cc_timers := T\<rparr>), transmit (bump p))"
    if "pc_attempts p < cc_maxAttempts C" for g
    using that bi by (simp add: spends_def b b2 nid p(2) Suc_diff_Suc)
  have throw: "spends i C (update_pending j bump C, [])"
    using bi by (simp add: spends_def b nid) linarith
  show ?thesis
    using rej resend throw by (simp add: tick_def Some Let_def nid st)
qed

lemma onAck_spends:
  assumes "command_inv C"
  shows "spends i C (onAck C msg sent)"
proof -
  have "budget (update_pending j (\<lambda>q. q\<lparr>pc_inProgress := True, pc_progressPct := pct, pc_cancelTimer := t\<rparr>) C') i = budget C' i"
    "cc_nextId (update_pending j f C') = cc_nextId C'" "cc_maxAttempts (update_pending j f C') = cc_maxAttempts C'"
    for j pct t C' f
    by (simp_all add: budget_def find_update update_pending_def find_pending_def split: option.split)
      (use find_update [of "\<lambda>q. q\<lparr>pc_inProgress := True, pc_progressPct := pct, pc_cancelTimer := t\<rparr>" j C' i]
        in \<open>auto simp: find_pending_def update_pending_def split: option.splits\<close>)
  then have "spends i C (update_pending j (\<lambda>q. q\<lparr>pc_inProgress := True, pc_progressPct := pct, pc_cancelTimer := t\<rparr>)
      (C\<lparr>cc_timers := T\<rparr>), [])" for j pct t T
    by (simp add: spends_def)
  then show ?thesis
    using settle_reject_spends settle_resolve_spends inv_less [OF assms]
    by (auto simp: onAck_def Let_def spends_refl split: option.split prod.split dest!: ack_candidateD)
qed

text \<open>A call moves the counter on: its own promise gets the budget of a new command.\<close>

lemma budget_new:
  assumes "command_inv C"
  shows "budget (C\<lparr>cc_nextId := cc_nextId C + 1\<rparr>) i \<le> budget C i"
    and "budget (C\<lparr>cc_nextId := cc_nextId C + 1\<rparr>) (cc_nextId C) = 0"
    and "budget C (cc_nextId C) = max 1 (cc_maxAttempts C)"
    and "find_pending C (cc_nextId C) = None"
proof -
  have fp: "find_pending (C\<lparr>cc_nextId := n\<rparr>) j = find_pending C j" for n j
    by (simp add: find_pending_def)
  show none: "find_pending C (cc_nextId C) = None"
    using inv_less [OF assms] find_pendingD [of C "cc_nextId C"]
    by (cases "find_pending C (cc_nextId C)") fastforce+
  show "budget (C\<lparr>cc_nextId := cc_nextId C + 1\<rparr>) i \<le> budget C i"
    by (simp add: budget_def fp split: option.split)
  show "budget (C\<lparr>cc_nextId := cc_nextId C + 1\<rparr>) (cc_nextId C) = 0"
    by (simp add: budget_def fp none)
  show "budget C (cc_nextId C) = max 1 (cc_maxAttempts C)"
    by (simp add: budget_def none)
qed

definition frugal :: "command_client \<Rightarrow> nat \<Rightarrow> command_result \<Rightarrow> bool" where
  "frugal C j r =
     (cc_nextId (fst r) = cc_nextId C \<and> cc_maxAttempts (fst r) = cc_maxAttempts C \<and>
      (\<forall>i. transmissions i (snd r) + budget (fst r) i
        \<le> (if i = j then max 1 (cc_maxAttempts C) else budget C i)))"

lemma send_frugal:
  assumes "find_pending C i = None" "i < cc_nextId C"
  shows "frugal C i (send C i vehicle sent cmd params opts k)"
proof -
  have rej: "frugal C i (C, [RejectCall i e])" for e
    using assms by (simp add: frugal_def) (simp add: budget_def)
  have fp: "find_pending (C\<lparr>cc_pending := cc_pending C @ [p]\<rparr>) j
      = (if j = i then Some p else find_pending C j)" if "pc_id p = i" for p j
    using that assms(1) by (simp add: find_pending_def find_append split: option.split)
  have "frugal C i (C\<lparr>cc_pending := cc_pending C @ [p], cc_timers := T\<rparr>, fs)"
    if "pc_id p = i" "pc_attempts p = 1" "\<And>j. transmissions j fs = (if j = i then 1 else 0)" for p T fs
    using fp [OF that(1)] that(2,3) assms by (auto simp: frugal_def budget_def split: option.split)
  moreover have "frugal C i (C\<lparr>cc_pending := cc_pending C @ [p]\<rparr>, [RejectCall i e])"
    if "pc_id p = i" "pc_attempts p = 1" for p e
    using fp [OF that(1)] that(2) assms by (auto simp: frugal_def budget_def split: option.split)
  ultimately show ?thesis
    using rej by (simp add: send_def Let_def split: option.split prod.split)
qed

lemma await_frugal:
  assumes "find_pending C i = None" "i < cc_nextId C"
  shows "frugal C i (await_host C i sent name fs)" "frugal C i (C, [RejectCall i e])"
  using assms by (simp_all add: await_host_def frugal_def) (simp_all add: budget_def)

lemma call_frugal:
  assumes "find_pending C i = None" "i < cc_nextId C"
  shows "frugal C i (call C i vehicle sent a)"
  using send_frugal [OF assms] await_frugal [OF assms]
  by (cases a) (simp_all add: call_def setMode_def land_def guidedGoto_def setCurrentWp_def split: option.split)

lemma command_step_spends:
  assumes "command_inv C"
  shows "spends i C (command_step C e)"
proof (cases e)
  case (Call a vehicle sent)
  let ?C = "C\<lparr>cc_nextId := cc_nextId C + 1\<rparr>"
  have "find_pending ?C (cc_nextId C) = None"
    using budget_new(4) [OF assms] by (simp add: find_pending_def)
  then have f: "frugal ?C (cc_nextId C) (call ?C (cc_nextId C) vehicle sent a)"
    by (intro call_frugal) simp_all
  then have "transmissions i (snd (call ?C (cc_nextId C) vehicle sent a)) + budget (fst (call ?C (cc_nextId C) vehicle sent a)) i
      \<le> (if i = cc_nextId C then max 1 (cc_maxAttempts ?C) else budget ?C i)"
    unfolding frugal_def by blast
  also have "\<dots> \<le> budget C i" using budget_new [OF assms] by (cases "i = cc_nextId C") simp_all
  finally show ?thesis using f by (simp add: Call command_step_def spends_def frugal_def)
next
  case (Fire t sent)
  have "command_inv (C\<lparr>cc_timers := T\<rparr>)" for T using assms by (simp add: command_inv_def)
  from tick_spends [OF this] show ?thesis
    by (simp add: Fire command_step_def spends_def split: option.split)
next
  case (TransmitFailed j)
  then show ?thesis
    using settle_reject_spends inv_less [OF assms]
    by (auto simp: command_step_def spends_refl split: option.split dest!: find_pendingD)
next
  case Dispose
  have "command_inv (C\<lparr>cc_disposed := True\<rparr>)" using assms by (simp add: command_inv_def command_ids_def)
  moreover have "budget (C\<lparr>cc_disposed := True\<rparr>) i = budget C i" by (simp add: budget_def find_pending_def split: option.split)
  ultimately have "spends i C (abort_all (C\<lparr>cc_disposed := True\<rparr>) is)" for "is"
    using abort_all_spends [of "C\<lparr>cc_disposed := True\<rparr>" i "is"] by (simp add: spends_def)
  then show ?thesis by (simp add: Dispose command_step_def dispose_def spends_refl)
next
  case (HostDone j)
  then show ?thesis by (simp add: command_step_def spends_def)
next
  case (HostFailed j)
  then show ?thesis by (simp add: command_step_def spends_def)
qed (use assms in \<open>auto simp: command_step_def onAck_spends abort_all_spends spends_refl\<close>)

lemma run_spends:
  "command_inv C \<Longrightarrow> transmissions i (snd (run_steps command_step C es)) + budget (fst (run_steps command_step C es)) i \<le> budget C i"
proof (induction es arbitrary: C)
  case Nil
  then show ?case by simp
next
  case (Cons e es)
  have "spends i C (command_step C e)" using Cons.prems by (rule command_step_spends)
  moreover have "command_inv (fst (command_step C e))" using Cons.prems by (rule cmd.inv_step)
  ultimately show ?case using Cons.IH [of "fst (command_step C e)"]
    by (simp add: split_beta Let_def spends_def)
qed

section \<open>Acknowledgements\<close>

lemma ack_settles:
  assumes "f \<in> set (snd (onAck C msg sent))" "command_settles f = Some i"
  shows "\<exists>p cmd. p \<in> set (cc_pending C) \<and> pc_id p = i \<and> numField (dm_fields msg) ''command'' = Some cmd \<and>
    js_eq (pc_cmd p) cmd \<and> pc_sysid p = dm_sysid msg"
proof -
  have "command_settles f = Some i \<Longrightarrow> f \<in> set (snd (settle_reject C p e sent)) \<Longrightarrow> pc_id p = i" for p e
    by (auto simp: settle_reject_def await_host_def Let_def split: kont.splits if_splits)
  moreover have "command_settles f = Some i \<Longrightarrow> f \<in> set (snd (settle_resolve C p r)) \<Longrightarrow> pc_id p = i" for p r
    by (auto simp: settle_resolve_def Let_def split: kont.splits)
  ultimately show ?thesis
    using assms
    by (auto simp: onAck_def Let_def split: option.splits prod.splits if_splits dest!: ack_candidateD)
qed

end
