(* ===== verification/Command_Properties.thy ===== *)
theory Command_Properties
  imports Command_Safety
begin

text \<open>
  The properties of the command client and of the mode tables, over runs of \<open>command_step\<close> from a
  fresh client. A fault found on the way, the pending entry a throwing \<open>sendMessage\<close> leaves behind,
  is stated as a theorem too.
\<close>

text \<open>The COMMAND_ACK of a system for a command, as the parser decodes it.\<close>

definition ack_message :: "nat \<Rightarrow> nat \<Rightarrow> nat \<Rightarrow> jsnum \<Rightarrow> decoded_message" where
  "ack_message sysid compid cmd result =
     \<lparr>dm_sysid = sysid, dm_compid = compid, dm_seq = 0, dm_msgId = 77, dm_name = ''COMMAND_ACK'',
      dm_fields = [''command'' \<mapsto> FNum (js_nat cmd), ''result'' \<mapsto> FNum result],
      dm_crcOk = True, dm_signed = False, dm_linkId = None, dm_rxTimeUs = 0, dm_raw = []\<rparr>"

definition quad :: active_vehicle where
  "quad = \<lparr>av_sysid = 1, av_compid = 1, av_vehicleClass = Copter, av_mavType = Some 2\<rparr>"

lemma ack_fields [simp]:
  "numField (dm_fields (ack_message s c n r)) ''command'' = Some (js_nat n)"
  "numField (dm_fields (ack_message s c n r)) ''result'' = Some r"
  "dm_sysid (ack_message s c n r) = s" "dm_compid (ack_message s c n r) = c"
  by (simp_all add: ack_message_def numField_def)

section \<open>Promises\<close>

text \<open>
  C5. Every call of the command client settles at most once and is never lost: over any interleaving of
  calls, acknowledgements, timers, send failures, aborts and disposal, the promise of call number \<open>i\<close> has
  either been settled exactly once and is no longer open, or is open and has not been settled.
\<close>

theorem command_promises_settle_once:
  "count (mset (List.map_filter command_settles (snd (run_steps command_step (createCommandClient a b c) es)))) i
   + count (mset (command_open (fst (run_steps command_step (createCommandClient a b c) es)))) i
   = (if i < cc_nextId (fst (run_steps command_step (createCommandClient a b c) es)) then 1 else 0)"
  by (rule cmd.settled_once) simp_all

text \<open>
  No command hangs: as long as \<open>sendMessage\<close> does not throw, every pending command of every reachable
  state has an active timer of its own, so it is retried or timed out even if the vehicle stays silent.
\<close>

theorem pending_commands_have_timers:
  assumes "list_all no_throw es"
    and "p \<in> set (cc_pending (fst (run_steps command_step (createCommandClient a b c) es)))"
  shows "\<exists>t. pc_cancelTimer p = Some t \<and>
    timer_handler t (cc_timers (fst (run_steps command_step (createCommandClient a b c) es))) = Some (pc_id p)"
proof -
  have "cmd_armed (fst (run_steps command_step (createCommandClient a b c) es))"
    using assms(1) by (intro armed_run) simp_all
  from armed_timer [OF this assms(2)] show ?thesis by (metis option.distinct(1))
qed

theorem pending_commands_have_timers_witness:
  "\<exists>t. pc_cancelTimer (hd (cc_pending (fst (run_steps command_step (createCommandClient None None None)
         [Call ApiClearRoi (Some quad) True])))) = Some t \<and>
    timer_handler t (cc_timers (fst (run_steps command_step (createCommandClient None None None)
         [Call ApiClearRoi (Some quad) True])))
    = Some (pc_id (hd (cc_pending (fst (run_steps command_step (createCommandClient None None None)
         [Call ApiClearRoi (Some quad) True])))))"
  by (rule pending_commands_have_timers)
    (simp_all add: command_step_def call_def send_def createCommandClient_def no_opts_def set_timer_def no_timers_def)

text \<open>
  C6. Retry until time-out: when a command is sent in any state reached without a throw and no
  acknowledgement arrives, the client transmits the message once and then once per timer, with the
  confirmation number counted up, \<open>max 1 maxAttempts\<close> times in all, and then rejects with a time-out; the
  command is gone afterwards.
\<close>

theorem silent_command_times_out:
  assumes C: "C = fst (run_steps command_step (createCommandClient a b c) es)" "list_all no_throw es"
    and live: "\<not> cc_disposed C" "\<not> (case so_signal opts of Some (_, aborted) \<Rightarrow> aborted | None \<Rightarrow> False)"
    and step: "command_step C (Call (ApiSend cmd params opts) (Some v) True) = (C1, f1)"
  shows "\<exists>p C2. f1 = transmit p \<and> pc_cmd p = cmd \<and> pc_params p = params7 params \<and> pc_sysid p = av_sysid v \<and>
    silence (cc_nextId C) (Suc (cc_maxAttempts C - 1)) C1
      = (C2, retries p (cc_maxAttempts C - 1) @ [RejectCall (cc_nextId C) (CommandError TimedOut cmd None)]) \<and>
    find_pending C2 (cc_nextId C) = None"
proof -
  let ?C = "createCommandClient a b c" and ?i = "cc_nextId C"
  have inv: "command_inv C" unfolding C(1) by (rule cmd.run_inv) simp
  have arm: "cmd_armed C" unfolding C(1) using C(2) by (intro armed_run) simp_all
  have inv1: "command_inv C1" and arm1: "cmd_armed C1"
    using cmd.inv_step [OF inv, of "Call (ApiSend cmd params opts) (Some v) True"]
      armed_step [OF inv arm, of "Call (ApiSend cmd params opts) (Some v) True"] step by simp_all
  obtain t T where st: "set_timer ?i (cc_resendMs C) (cc_timers C) = (t, T)" by fastforce
  define p where "p = \<lparr>pc_id = ?i, pc_kont = KSend, pc_cmd = cmd, pc_sysid = av_sysid v, pc_compid = av_compid v,
      pc_int = (case so_int opts of Some b \<Rightarrow> b | None \<Rightarrow> False),
      pc_frame = (case so_frame opts of Some f \<Rightarrow> f | None \<Rightarrow> MAV_FRAME_GLOBAL),
      pc_params = params7 params, pc_confirm = (case so_confirm opts of Some c \<Rightarrow> c | None \<Rightarrow> Num 0),
      pc_attempts = 1, pc_inProgress = False, pc_progressPct = None,
      pc_cancelTimer = Some t, pc_signal = map_option fst (so_signal opts)\<rparr>"
  have C1: "cc_pending C1 = cc_pending C @ [p]" "cc_maxAttempts C1 = cc_maxAttempts C" and f1: "f1 = transmit p"
    using step live st
    by (auto simp: command_step_def call_def send_def Let_def p_def transmit_def transmit_message_def)
  have "find_pending C1 ?i = Some p"
    using budget_new(4) [OF inv] C1(1) by (simp add: find_pending_def find_append p_def)
  then obtain C2 where "silence ?i (Suc (cc_maxAttempts C - 1)) C1
      = (C2, retries p (cc_maxAttempts C - 1) @ [RejectCall ?i (CommandError TimedOut (pc_cmd p) None)])"
      "find_pending C2 ?i = None"
    using silence_times_out [OF inv1 arm1, of ?i p "cc_maxAttempts C - 1"] C1(2) by (auto simp: p_def)
  with f1 show ?thesis by (auto simp: p_def)
qed

theorem silent_command_times_out_witness:
  "\<exists>p C2. snd (command_step (createCommandClient None None None) (Call (ApiSend (js_nat 400) [Num 1] no_opts) (Some quad) True)) = transmit p \<and>
    pc_cmd p = js_nat 400 \<and> pc_params p = params7 [Num 1] \<and> pc_sysid p = av_sysid quad \<and>
    silence (cc_nextId (createCommandClient None None None)) (Suc (cc_maxAttempts (createCommandClient None None None) - 1))
      (fst (command_step (createCommandClient None None None) (Call (ApiSend (js_nat 400) [Num 1] no_opts) (Some quad) True)))
      = (C2, retries p (cc_maxAttempts (createCommandClient None None None) - 1) @
           [RejectCall (cc_nextId (createCommandClient None None None)) (CommandError TimedOut (js_nat 400) None)]) \<and>
    find_pending C2 (cc_nextId (createCommandClient None None None)) = None"
  by (rule silent_command_times_out [where a = None and b = None and c = None and es = "[]" and opts = no_opts])
    (simp_all add: createCommandClient_def no_opts_def)

text \<open>
  Bounded traffic: over any run, throwing sends included, the message of one command is transmitted at
  most \<open>max 1 maxAttempts\<close> times.
\<close>

theorem command_transmissions_bounded:
  "transmissions i (snd (run_steps command_step (createCommandClient (Some n) b c) es)) \<le> max 1 n"
proof -
  have "budget (createCommandClient (Some n) b c) i = max 1 n"
    by (simp add: budget_def find_pending_def createCommandClient_def)
  then show ?thesis
    using run_spends [of "createCommandClient (Some n) b c" i es] by simp
qed

section \<open>Acknowledgements\<close>

text \<open>
  C7. An acknowledgement settles only the command it is for: whenever a COMMAND_ACK settles the promise of
  call \<open>i\<close>, a pending command with that number has the acknowledged command id and was addressed to the
  system the acknowledgement comes from.
\<close>

theorem ack_settles_its_command:
  assumes "f \<in> set (snd (onAck C msg sent))" "command_settles f = Some i"
  shows "\<exists>p cmd. p \<in> set (cc_pending C) \<and> pc_id p = i \<and> numField (dm_fields msg) ''command'' = Some cmd \<and>
    js_eq (pc_cmd p) cmd \<and> pc_sysid p = dm_sysid msg"
  using assms by (rule ack_settles)

theorem ack_settles_its_command_witness:
  "\<exists>p cmd. p \<in> set (cc_pending (fst (command_step (createCommandClient None None None) (Call ApiClearRoi (Some quad) True)))) \<and>
    pc_id p = 0 \<and> numField (dm_fields (ack_message 1 1 197 RESULT_ACCEPTED)) ''command'' = Some cmd \<and>
    js_eq (pc_cmd p) cmd \<and> pc_sysid p = dm_sysid (ack_message 1 1 197 RESULT_ACCEPTED)"
  by (rule ack_settles_its_command [where f = "ResolveVoid 0" and sent = True])
    (simp_all add: onAck_def ack_candidate_def command_step_def call_def send_def createCommandClient_def no_opts_def
      set_timer_def no_timers_def quad_def CMD_DO_SET_ROI_NONE_def RESULT_ACCEPTED_def RESULT_IN_PROGRESS_def
      settle_resolve_def detach_def)

text \<open>
  Mode fall-back: when the vehicle answers DO_SET_MODE with UNSUPPORTED, \<open>setMode\<close> does not fail but
  sends the legacy SET_MODE with the same custom mode to the same system, and resolves once that is sent.
\<close>

theorem unsupported_mode_falls_back:
  assumes "resolveCustomMode (av_vehicleClass v) mode = Some m"
  shows "\<exists>p. snd (run_steps command_step (createCommandClient a b c)
      [Call (ApiSetMode mode) (Some v) True,
       AckIn (ack_message (av_sysid v) (av_compid v) 176 RESULT_UNSUPPORTED) True, HostDone 0])
    = transmit p @
      [SendHost ''SET_MODE'' [(''target_system'', num (av_sysid v)),
         (''base_mode'', JNumber MAV_MODE_FLAG_CUSTOM_MODE_ENABLED), (''custom_mode'', num m)], ResolveVoid 0]"
  using assms
  by (auto simp: command_step_def call_def setMode_def send_def createCommandClient_def no_opts_def set_timer_def
      no_timers_def onAck_def ack_candidate_def CMD_DO_SET_MODE_def RESULT_ACCEPTED_def RESULT_IN_PROGRESS_def
      RESULT_TEMPORARILY_REJECTED_def RESULT_UNSUPPORTED_def settle_reject_def detach_def is_unsupported_def await_host_def)

theorem unsupported_mode_falls_back_witness:
  "\<exists>p. snd (run_steps command_step (createCommandClient None None None)
      [Call (ApiSetMode ''LAND'') (Some quad) True,
       AckIn (ack_message (av_sysid quad) (av_compid quad) 176 RESULT_UNSUPPORTED) True, HostDone 0])
    = transmit p @
      [SendHost ''SET_MODE'' [(''target_system'', num (av_sysid quad)),
         (''base_mode'', JNumber MAV_MODE_FLAG_CUSTOM_MODE_ENABLED), (''custom_mode'', num 9)], ResolveVoid 0]"
  by (rule unsupported_mode_falls_back)
    (simp add: quad_def resolveCustomMode_def arduMapForClass_def COPTER_MODES_def)

text \<open>
  A throwing \<open>sendMessage\<close> leaves a pending command behind that no timer ever removes: a retry of the
  same command then loses its acknowledgement to it and stays open.
\<close>

theorem thrown_send_swallows_next_ack:
  "1 \<in> set (command_open (fst (run_steps command_step (createCommandClient a b c)
      [Call (ApiSend (js_nat n) params no_opts) (Some v) False,
       Call (ApiSend (js_nat n) params no_opts) (Some v) True,
       AckIn (ack_message (av_sysid v) (av_compid v) n RESULT_ACCEPTED) True])))"
  by (simp add: command_step_def call_def send_def createCommandClient_def no_opts_def set_timer_def no_timers_def
      onAck_def ack_candidate_def RESULT_ACCEPTED_def RESULT_IN_PROGRESS_def settle_resolve_def detach_def
      command_open_def)

section \<open>Flight modes\<close>

text \<open>
  Setting and showing a mode agree: for ArduPilot, a mode name resolves to a number exactly when that
  number is in the class's table and is shown as that name.
\<close>

theorem mode_names_round_trip:
  "resolveCustomMode cls mode = Some v \<longleftrightarrow>
   decodeMode cls MAV_AUTOPILOT_ARDUPILOTMEGA v = mode \<and>
   list_ex (\<lambda>t. v \<in> fst ` set t) (case arduMapForClass cls of Some t \<Rightarrow> [t] | None \<Rightarrow> [])"
  by (auto simp: decode_resolve split: option.split)

text \<open>
  The mode shown is never ambiguous: for ArduPilot two custom modes of one class are shown alike only if
  they are the same 32-bit number, named and unnamed ones included.
\<close>

theorem mode_display_injective:
  assumes "v < 2 ^ 32" "w < 2 ^ 32"
  shows "decodeMode cls MAV_AUTOPILOT_ARDUPILOTMEGA v = decodeMode cls MAV_AUTOPILOT_ARDUPILOTMEGA w \<longleftrightarrow> v = w"
  using assms by (auto dest: decode_injective)

theorem mode_display_injective_witness:
  "decodeMode Copter MAV_AUTOPILOT_ARDUPILOTMEGA 9 = decodeMode Copter MAV_AUTOPILOT_ARDUPILOTMEGA 33 \<longleftrightarrow> (9 :: nat) = 33"
  by (rule mode_display_injective) simp_all

end
