(* ===== verification/Param_Client.thy ===== *)
theory Param_Client
  imports Client_Base "HOL-Library.AList"
begin

text \<open>
  \<open>src/mavlink/microservices/param/param-client.ts\<close> with its \<open>constants.ts\<close>: fetching the parameter
  set (list request, quiet windows, gap re-requests, stall bound), confirmed writes with resends, the
  cache and the change notifications. Maps with iteration order are association lists. An operation
  carries the number of its promise. \<open>emit\<close> catches a throwing \<open>sendMessage\<close>; that and a rejected
  send matter only for PARAM_SET. The registered callbacks are taken not to throw.
\<close>

section \<open>State\<close>

definition PARAM_TYPE_REAL32 :: jsnum where "PARAM_TYPE_REAL32 = js_nat 9"
definition PARAM_ID_LEN :: nat where "PARAM_ID_LEN = 16"
definition PARAM_INDEX_NONE :: jsnum where "PARAM_INDEX_NONE = js_nat 0xffff"

record param =
  pm_name :: string
  pm_value :: jsnum
  pm_type :: jsnum

datatype param_error_reason = ParamNoTarget | ParamAborted | ParamTimeout | ParamDisposed | ParamSendFailed

record fetch_op =
  fo_id :: nat
  fo_target :: target
  fo_received :: "(jsnum \<times> param) list"
  fo_extras :: "(string \<times> param) list"
  fo_total :: "jsnum option"
  fo_lastCheckedCount :: nat
  fo_stallRounds :: nat
  fo_cancelTimer :: "nat option"
  fo_signal :: "nat option"
  fo_onProgress :: bool

record set_op =
  sv_id :: nat
  sv_target :: target
  sv_name :: string
  sv_value :: jsnum
  sv_type :: jsnum
  sv_attempts :: nat
  sv_cancelTimer :: "nat option"

datatype param_timer = FetchQuiet nat | SetTick nat

record param_client =
  px_fetchQuietMs :: nat
  px_fetchMaxStallRounds :: nat
  px_setResendMs :: nat
  px_setMaxAttempts :: nat
  px_confirmTolerance :: jsnum
  px_cache :: "string \<rightharpoonup> param"
  px_changeListeners :: "nat list"
  px_fetches :: "fetch_op list"
  px_sets :: "set_op list"
  px_disposed :: bool
  px_timers :: "param_timer timers"
  px_nextId :: nat

record param_deps =
  pd_fetchQuietMs :: "nat option"
  pd_fetchMaxStallRounds :: "nat option"
  pd_setResendMs :: "nat option"
  pd_setMaxAttempts :: "nat option"
  pd_confirmTolerance :: "jsnum option"

abbreviation or_default :: "'a option \<Rightarrow> 'a \<Rightarrow> 'a" where
  "or_default x d \<equiv> (case x of Some a \<Rightarrow> a | None \<Rightarrow> d)"

definition createParamClient :: "param_deps \<Rightarrow> param_client" where
  "createParamClient deps =
     \<lparr>px_fetchQuietMs = or_default (pd_fetchQuietMs deps) 800,
      px_fetchMaxStallRounds = or_default (pd_fetchMaxStallRounds deps) 12,
      px_setResendMs = or_default (pd_setResendMs deps) 1000,
      px_setMaxAttempts = or_default (pd_setMaxAttempts deps) 5,
      px_confirmTolerance = or_default (pd_confirmTolerance deps) (fl (1 / 10000)),
      px_cache = Map.empty, px_changeListeners = [], px_fetches = [], px_sets = [],
      px_disposed = False, px_timers = no_timers, px_nextId = 0\<rparr>"

datatype param_effect =
    Emit string out_fields
  | ResolveParams nat "param list"
  | ResolveSet nat
  | RejectParam nat param_error_reason
  | Progress nat nat jsnum
  | Notify nat param

type_synonym param_result = "param_client \<times> param_effect list"

section \<open>Helpers\<close>

definition fromTarget :: "decoded_message \<Rightarrow> target \<Rightarrow> bool" where
  "fromTarget msg target = (dm_sysid msg = tg_sysid target \<and> dm_compid msg = tg_compid target)"

definition trimParamId :: "string \<Rightarrow> string" where
  "trimParamId s = takeWhile (\<lambda>c. char_code c \<noteq> 0) (take PARAM_ID_LEN s)"

definition paramId :: "(string \<rightharpoonup> field_value) \<Rightarrow> string \<Rightarrow> string option" where
  "paramId fs key =
     (case fs key of
        Some (FStr s) \<Rightarrow> Some (trimParamId s)
      | Some (FArr codes) \<Rightarrow> Some (trimParamId (map (\<lambda>x. char_of (nat (js_trunc (js_and x 0xff)))) codes))
      | _ \<Rightarrow> None)"

text \<open>A \<open>Map\<close> key: the two zeros are one key.\<close>

definition map_key :: "jsnum \<Rightarrow> jsnum" where
  "map_key x = (if x = NegZero then Num 0 else x)"

text \<open>\<open>for (let i = 0; i < tot; i++)\<close>: the number of rounds, for the finite totals a field can carry.\<close>

definition loop_count :: "jsnum \<Rightarrow> nat" where
  "loop_count tot = (case js_val tot of Some q \<Rightarrow> nat \<lceil>q\<rceil> | None \<Rightarrow> 0)"

definition valuesMatch :: "param_client \<Rightarrow> jsnum \<Rightarrow> jsnum \<Rightarrow> bool" where
  "valuesMatch P expected actual =
     (let tol = js_max (px_confirmTolerance P) (js_mul (js_abs expected) (px_confirmTolerance P))
      in js_le (js_abs (js_sub expected actual)) tol)"

definition buildResult :: "fetch_op \<Rightarrow> param list" where
  "buildResult op =
     (let indices = sort (map fst (fo_received op));
          out = map (\<lambda>i. the (map_of (fo_received op) i)) indices
      in foldl (\<lambda>out (_, p). if pm_name p \<in> pm_name ` set out then out else out @ [p])
           out (fo_extras op))"

definition emitChange :: "param_client \<Rightarrow> param \<Rightarrow> param_effect list" where
  "emitChange P p = map (\<lambda>cb. Notify cb p) (px_changeListeners P)"

definition sendRequestList :: "target \<Rightarrow> param_effect list" where
  "sendRequestList t = [Emit ''PARAM_REQUEST_LIST'' (target_fields t)]"

definition sendRequestRead :: "target \<Rightarrow> nat \<Rightarrow> param_effect list" where
  "sendRequestRead t index =
     (if 0x7fff < index then []
      else [Emit ''PARAM_REQUEST_READ'' (target_fields t @ [(''param_id'', JStr ''''), (''param_index'', num index)])])"

definition set_message :: "set_op \<Rightarrow> param_effect list" where
  "set_message op =
     [Emit ''PARAM_SET'' (target_fields (sv_target op) @
        [(''param_id'', JStr (sv_name op)), (''param_value'', JNumber (sv_value op)),
         (''param_type'', JNumber (sv_type op))])]"

section \<open>Settling\<close>

definition detach_fetch :: "fetch_op \<Rightarrow> param_client \<Rightarrow> param_client" where
  "detach_fetch op P =
     P\<lparr>px_timers := cancel_timer (fo_cancelTimer op) (px_timers P),
       px_fetches := filter (\<lambda>o'. fo_id o' \<noteq> fo_id op) (px_fetches P)\<rparr>"

definition detach_set :: "set_op \<Rightarrow> param_client \<Rightarrow> param_client" where
  "detach_set op P =
     P\<lparr>px_timers := cancel_timer (sv_cancelTimer op) (px_timers P),
       px_sets := filter (\<lambda>o'. sv_id o' \<noteq> sv_id op) (px_sets P)\<rparr>"

definition find_fetch :: "param_client \<Rightarrow> nat \<Rightarrow> fetch_op option" where
  "find_fetch P i = find (\<lambda>op. fo_id op = i) (px_fetches P)"

definition find_set :: "param_client \<Rightarrow> nat \<Rightarrow> set_op option" where
  "find_set P i = find (\<lambda>op. sv_id op = i) (px_sets P)"

text \<open>\<open>this.sets.get (name)\<close>.\<close>

definition lookup_set :: "param_client \<Rightarrow> string \<Rightarrow> set_op option" where
  "lookup_set P name = find (\<lambda>op. sv_name op = name) (px_sets P)"

definition update_fetch :: "nat \<Rightarrow> (fetch_op \<Rightarrow> fetch_op) \<Rightarrow> param_client \<Rightarrow> param_client" where
  "update_fetch i f P = P\<lparr>px_fetches := map (\<lambda>op. if fo_id op = i then f op else op) (px_fetches P)\<rparr>"

definition update_set :: "nat \<Rightarrow> (set_op \<Rightarrow> set_op) \<Rightarrow> param_client \<Rightarrow> param_client" where
  "update_set i f P = P\<lparr>px_sets := map (\<lambda>op. if sv_id op = i then f op else op) (px_sets P)\<rparr>"

text \<open>The error handler of \<open>emit\<close> for a PARAM_SET: it looks the operation up by name.\<close>

definition emit_failed :: "param_client \<Rightarrow> string \<Rightarrow> param_result" where
  "emit_failed P name =
     (case lookup_set P name of
        None \<Rightarrow> (P, [])
      | Some op \<Rightarrow> (detach_set op P, [RejectParam (sv_id op) ParamSendFailed]))"

definition sendParamSet :: "param_client \<Rightarrow> set_op \<Rightarrow> bool \<Rightarrow> param_result" where
  "sendParamSet P op sent = (if sent then (P, set_message op) else emit_failed P (sv_name op))"

text \<open>Setting an operation's timer, if it is still there.\<close>

definition arm_set :: "param_client \<Rightarrow> nat \<Rightarrow> param_client" where
  "arm_set P i =
     (case find_set P i of
        None \<Rightarrow> P
      | Some _ \<Rightarrow>
          (case set_timer (SetTick i) (px_setResendMs P) (px_timers P) of (t, T) \<Rightarrow>
             update_set i (sv_cancelTimer_update (\<lambda>_. Some t)) (P\<lparr>px_timers := T\<rparr>)))"

definition arm_fetch :: "param_client \<Rightarrow> nat \<Rightarrow> param_client" where
  "arm_fetch P i =
     (case set_timer (FetchQuiet i) (px_fetchQuietMs P) (px_timers P) of (t, T) \<Rightarrow>
        update_fetch i (fo_cancelTimer_update (\<lambda>_. Some t)) (P\<lparr>px_timers := T\<rparr>))"

section \<open>Operations\<close>

definition fetchAll ::
  "param_client \<Rightarrow> nat \<Rightarrow> bool \<Rightarrow> (nat \<times> bool) option \<Rightarrow> target option \<Rightarrow> param_result" where
  "fetchAll P i onProgress signal target =
     (if px_disposed P then (P, [RejectParam i ParamDisposed])
      else case target of
        None \<Rightarrow> (P, [RejectParam i ParamNoTarget])
      | Some t \<Rightarrow>
          if (case signal of Some (_, aborted) \<Rightarrow> aborted | None \<Rightarrow> False) then (P, [RejectParam i ParamAborted])
          else
            let op = \<lparr>fo_id = i, fo_target = t, fo_received = [], fo_extras = [], fo_total = None,
                      fo_lastCheckedCount = 0, fo_stallRounds = 0, fo_cancelTimer = None,
                      fo_signal = map_option fst signal, fo_onProgress = onProgress\<rparr>;
                P = P\<lparr>px_fetches := px_fetches P @ [op]\<rparr>
            in (arm_fetch P i, sendRequestList t))"

definition get_param :: "param_client \<Rightarrow> string \<Rightarrow> param option" where
  "get_param P name = px_cache P name"

definition set_param ::
  "param_client \<Rightarrow> nat \<Rightarrow> string \<Rightarrow> jsnum \<Rightarrow> target option \<Rightarrow> bool \<Rightarrow> param_result" where
  "set_param P i name value target sent =
     (if px_disposed P then (P, [RejectParam i ParamDisposed])
      else case target of
        None \<Rightarrow> (P, [RejectParam i ParamNoTarget])
      | Some t \<Rightarrow>
          let (P, superseded) = (case lookup_set P name of
                  Some existing \<Rightarrow> (detach_set existing P, [RejectParam (sv_id existing) ParamAborted])
                | None \<Rightarrow> (P, []));
              op = \<lparr>sv_id = i, sv_target = t, sv_name = name, sv_value = value,
                    sv_type = (case px_cache P name of Some p \<Rightarrow> pm_type p | None \<Rightarrow> PARAM_TYPE_REAL32),
                    sv_attempts = 1, sv_cancelTimer = None\<rparr>;
              (P, fs) = sendParamSet (P\<lparr>px_sets := px_sets P @ [op]\<rparr>) op sent
          in (arm_set P i, superseded @ fs))"

definition record_value :: "fetch_op \<Rightarrow> param \<Rightarrow> jsnum option \<Rightarrow> jsnum option \<Rightarrow> fetch_op" where
  "record_value op p index cnt =
     (let op = (case cnt of
                  Some c \<Rightarrow> if js_lt (Num 0) c \<and> fo_total op = None then op\<lparr>fo_total := Some c\<rparr> else op
                | None \<Rightarrow> op)
      in case index of
           Some k \<Rightarrow>
             if js_le (Num 0) k \<and> \<not> js_eq k PARAM_INDEX_NONE
             then op\<lparr>fo_received := AList.update (map_key k) p (fo_received op)\<rparr>
             else op\<lparr>fo_extras := AList.update (pm_name p) p (fo_extras op)\<rparr>
         | None \<Rightarrow> op\<lparr>fo_extras := AList.update (pm_name p) p (fo_extras op)\<rparr>)"

definition is_complete :: "fetch_op \<Rightarrow> bool" where
  "is_complete op =
     (case fo_total op of None \<Rightarrow> False | Some tot \<Rightarrow> js_le tot (js_nat (length (fo_received op))))"

definition reportProgress :: "fetch_op \<Rightarrow> param_effect list" where
  "reportProgress op =
     (if fo_onProgress op then
        let n = length (fo_received op)
        in [Progress (fo_id op) n (case fo_total op of Some tot \<Rightarrow> tot | None \<Rightarrow> js_nat n)]
      else [])"

definition recordFetch ::
  "param_client \<Rightarrow> nat \<Rightarrow> param \<Rightarrow> jsnum option \<Rightarrow> jsnum option \<Rightarrow> param_result" where
  "recordFetch P i p index cnt =
     (case find_fetch P i of
        None \<Rightarrow> (P, [])
      | Some op0 \<Rightarrow>
          let op = record_value op0 p index cnt;
              P = update_fetch i (\<lambda>o'. record_value o' p index cnt) P;
              P = arm_fetch (P\<lparr>px_timers := cancel_timer (fo_cancelTimer op0) (px_timers P)\<rparr>) i
          in case find_fetch P i of
               None \<Rightarrow> (P, reportProgress op)
             | Some op1 \<Rightarrow>
                 if is_complete op1 then
                   (detach_fetch op1 P, reportProgress op @ [ResolveParams i (buildResult op1)])
                 else (P, reportProgress op))"

fun record_all ::
  "param_client \<Rightarrow> nat list \<Rightarrow> param \<Rightarrow> jsnum option \<Rightarrow> jsnum option \<Rightarrow> param_result" where
  "record_all P [] p index cnt = (P, [])"
| "record_all P (i # is) p index cnt =
     (let (P1, f1) = recordFetch P i p index cnt; (P2, f2) = record_all P1 is p index cnt
      in (P2, f1 @ f2))"

text \<open>Which open operations a PARAM_VALUE is for, and whether it may change the cache at all.\<close>

definition matching_fetches :: "param_client \<Rightarrow> decoded_message \<Rightarrow> fetch_op list" where
  "matching_fetches P msg = filter (\<lambda>op. fromTarget msg (fo_target op)) (px_fetches P)"

definition pending_set :: "param_client \<Rightarrow> decoded_message \<Rightarrow> string \<Rightarrow> set_op option" where
  "pending_set P msg name =
     (case lookup_set P name of
        Some op \<Rightarrow> if fromTarget msg (sv_target op) then Some op else None
      | None \<Rightarrow> None)"

definition allowed_target :: "param_client \<Rightarrow> decoded_message \<Rightarrow> target option \<Rightarrow> bool" where
  "allowed_target P msg currentTarget =
     (let activeTargets = map fo_target (px_fetches P) @ map sv_target (px_sets P)
      in if activeTargets \<noteq> [] then list_ex (fromTarget msg) activeTargets
         else case currentTarget of Some t \<Rightarrow> fromTarget msg t | None \<Rightarrow> False)"

definition param_changed :: "param option \<Rightarrow> param \<Rightarrow> bool" where
  "param_changed prev p =
     (case prev of
        None \<Rightarrow> True
      | Some q \<Rightarrow> \<not> js_eq (pm_value q) (pm_value p) \<or> \<not> js_eq (pm_type q) (pm_type p))"

definition accept_value ::
  "param_client \<Rightarrow> decoded_message \<Rightarrow> param \<Rightarrow> jsnum option \<Rightarrow> jsnum option \<Rightarrow> param_result" where
  "accept_value P msg p index cnt =
     (let matching = matching_fetches P msg;
          prev = px_cache P (pm_name p);
          (P1, fs) = record_all (P\<lparr>px_cache := (px_cache P)(pm_name p \<mapsto> p)\<rparr>) (map fo_id matching) p index cnt;
          spontaneous = (if matching = [] \<and> param_changed prev p then emitChange P p else [])
      in case pending_set P msg (pm_name p) of
           None \<Rightarrow> (P1, fs @ spontaneous)
         | Some op \<Rightarrow>
             if valuesMatch P (sv_value op) (pm_value p) then
               (detach_set op P1, fs @ [ResolveSet (sv_id op)] @ emitChange P p)
             else (P1, fs @ spontaneous))"

definition onParamValue :: "param_client \<Rightarrow> decoded_message \<Rightarrow> target option \<Rightarrow> param_result" where
  "onParamValue P msg currentTarget =
     (case (paramId (dm_fields msg) ''param_id'', numField (dm_fields msg) ''param_value'') of
        (Some name, Some value) \<Rightarrow>
          if name = [] then (P, [])
          else
            let type = (case numField (dm_fields msg) ''param_type'' of
                          Some t \<Rightarrow> t
                        | None \<Rightarrow> (case px_cache P name of Some p \<Rightarrow> pm_type p | None \<Rightarrow> PARAM_TYPE_REAL32))
            in if matching_fetches P msg = [] \<and> pending_set P msg name = None \<and> \<not> allowed_target P msg currentTarget
               then (P, [])
               else accept_value P msg \<lparr>pm_name = name, pm_value = value, pm_type = type\<rparr>
                      (numField (dm_fields msg) ''param_index'') (numField (dm_fields msg) ''param_count'')
      | _ \<Rightarrow> (P, []))"

text \<open>The messages of a quiet round: the list again, or each missing index.\<close>

definition gap_requests :: "fetch_op \<Rightarrow> param_effect list" where
  "gap_requests op =
     (case fo_total op of
        None \<Rightarrow> sendRequestList (fo_target op)
      | Some tot \<Rightarrow>
          concat (map (\<lambda>i. if js_nat i \<in> set (map fst (fo_received op)) then [] else sendRequestRead (fo_target op) i)
            [0..<loop_count tot]))"

definition stall_step :: "fetch_op \<Rightarrow> fetch_op" where
  "stall_step op =
     (let cnt = length (fo_received op)
      in op\<lparr>fo_lastCheckedCount := cnt,
           fo_stallRounds := (if fo_lastCheckedCount op < cnt then 0 else fo_stallRounds op + 1)\<rparr>)"

definition onFetchQuiet :: "param_client \<Rightarrow> nat \<Rightarrow> param_result" where
  "onFetchQuiet P i =
     (case find_fetch P i of
        None \<Rightarrow> (P, [])
      | Some op \<Rightarrow>
          if is_complete op then (detach_fetch op P, [ResolveParams i (buildResult op)])
          else if px_fetchMaxStallRounds P < fo_stallRounds (stall_step op) then
            (detach_fetch op P, [RejectParam i ParamTimeout])
          else (arm_fetch (update_fetch i stall_step P) i, gap_requests op))"

definition onSetTick :: "param_client \<Rightarrow> nat \<Rightarrow> bool \<Rightarrow> param_result" where
  "onSetTick P i sent =
     (case find_set P i of
        None \<Rightarrow> (P, [])
      | Some op \<Rightarrow>
          if px_setMaxAttempts P \<le> sv_attempts op then (detach_set op P, [RejectParam i ParamTimeout])
          else
            let (P, fs) = sendParamSet (update_set i (sv_attempts_update Suc) P) op sent
            in (arm_set P i, fs))"

fun reject_fetches :: "param_client \<Rightarrow> nat list \<Rightarrow> param_error_reason \<Rightarrow> param_result" where
  "reject_fetches P [] r = (P, [])"
| "reject_fetches P (i # is) r =
     (case find_fetch P i of
        None \<Rightarrow> reject_fetches P is r
      | Some op \<Rightarrow>
          (let (P', fs) = reject_fetches (detach_fetch op P) is r in (P', RejectParam i r # fs)))"

fun reject_sets :: "param_client \<Rightarrow> nat list \<Rightarrow> param_error_reason \<Rightarrow> param_result" where
  "reject_sets P [] r = (P, [])"
| "reject_sets P (i # is) r =
     (case find_set P i of
        None \<Rightarrow> reject_sets P is r
      | Some op \<Rightarrow>
          (let (P', fs) = reject_sets (detach_set op P) is r in (P', RejectParam i r # fs)))"

definition param_dispose :: "param_client \<Rightarrow> param_result" where
  "param_dispose P =
     (if px_disposed P then (P, [])
      else
        let (P1, f1) = reject_fetches (P\<lparr>px_disposed := True\<rparr>) (map fo_id (px_fetches P)) ParamDisposed;
            (P2, f2) = reject_sets P1 (map sv_id (px_sets P1)) ParamDisposed
        in (P2\<lparr>px_changeListeners := []\<rparr>, f1 @ f2))"

datatype param_event =
    FetchAll bool "(nat \<times> bool) option" "target option"
  | SetParam string jsnum "target option" bool
  | OnChange nat
  | OffChange nat
  | ParamValueIn decoded_message "target option"
  | ParamFire nat bool
  | SetSendFailed string
  | ParamAbort nat
  | ParamDispose

definition param_step :: "param_client \<Rightarrow> param_event \<Rightarrow> param_result" where
  "param_step P e =
     (case e of
        FetchAll prog signal target \<Rightarrow>
          fetchAll (P\<lparr>px_nextId := px_nextId P + 1\<rparr>) (px_nextId P) prog signal target
      | SetParam name value target sent \<Rightarrow>
          set_param (P\<lparr>px_nextId := px_nextId P + 1\<rparr>) (px_nextId P) name value target sent
      | OnChange cb \<Rightarrow>
          (P\<lparr>px_changeListeners := (if cb \<in> set (px_changeListeners P) then px_changeListeners P
                                  else px_changeListeners P @ [cb])\<rparr>, [])
      | OffChange cb \<Rightarrow> (P\<lparr>px_changeListeners := filter (\<lambda>c. c \<noteq> cb) (px_changeListeners P)\<rparr>, [])
      | ParamValueIn msg target \<Rightarrow> if px_disposed P then (P, []) else onParamValue P msg target
      | ParamFire t sent \<Rightarrow>
          (case timer_handler t (px_timers P) of
             None \<Rightarrow> (P, [])
           | Some (FetchQuiet i) \<Rightarrow> onFetchQuiet (P\<lparr>px_timers := cancel_timer (Some t) (px_timers P)\<rparr>) i
           | Some (SetTick i) \<Rightarrow> onSetTick (P\<lparr>px_timers := cancel_timer (Some t) (px_timers P)\<rparr>) i sent)
      | SetSendFailed name \<Rightarrow> emit_failed P name
      | ParamAbort s \<Rightarrow>
          reject_fetches P (map fo_id (filter (\<lambda>op. fo_signal op = Some s) (px_fetches P))) ParamAborted
      | ParamDispose \<Rightarrow> param_dispose P)"

end
