(* ===== verification/Param_Safety.thy ===== *)
theory Param_Safety
  imports Param_Client
begin

text \<open>
  The parameter client over runs: the ledger of its promises (an interpretation of
  \<open>promise_ledger\<close>) with the timer every open operation keeps, the bounds of fetching and
  writing, and what a completed fetch contains.
\<close>

section \<open>Invariant\<close>

fun param_settles :: "param_effect \<Rightarrow> nat option" where
  "param_settles (ResolveParams i _) = Some i"
| "param_settles (ResolveSet i) = Some i"
| "param_settles (RejectParam i _) = Some i"
| "param_settles _ = None"

definition param_open :: "param_client \<Rightarrow> nat list" where
  "param_open P = map fo_id (px_fetches P) @ map sv_id (px_sets P)"

definition param_slots :: "param_client \<Rightarrow> param_timer slots" where
  "param_slots P =
     map (\<lambda>op. (FetchQuiet (fo_id op), fo_cancelTimer op)) (px_fetches P) @
     map (\<lambda>op. (SetTick (sv_id op), sv_cancelTimer op)) (px_sets P)"

definition param_ok :: "param_timer option \<Rightarrow> param_client \<Rightarrow> bool" where
  "param_ok x P =
     (distinct (param_open P) \<and> (\<forall>i\<in>set (param_open P). i < px_nextId P) \<and>
      distinct (map sv_name (px_sets P)) \<and>
      armed x (param_slots P) (px_timers P))"

text \<open>The ledger of one operation, with the promises \<open>new\<close> it opens, and the timers it leaves.\<close>

definition param_balanced :: "nat list \<Rightarrow> param_client \<Rightarrow> param_result \<Rightarrow> bool" where
  "param_balanced new P r =
     (param_ok None (fst r) \<and> px_nextId (fst r) = px_nextId P \<and>
      mset (List.map_filter param_settles (snd r)) + mset (param_open (fst r))
      = mset (param_open P) + mset new)"

lemma emits_settle_nothing [simp]:
  "List.map_filter param_settles (sendRequestList t) = []"
  "List.map_filter param_settles (sendRequestRead t n) = []"
  "List.map_filter param_settles (set_message s) = []"
  "List.map_filter param_settles (reportProgress op) = []"
  "List.map_filter param_settles (map (\<lambda>cb. Notify cb p) cbs) = []"
  by (simp_all add: sendRequestList_def sendRequestRead_def set_message_def reportProgress_def Let_def)
    (simp add: map_filter_def comp_def)

lemma change_settles_nothing [simp]: "List.map_filter param_settles (emitChange P p) = []"
  by (simp add: emitChange_def)

lemma gaps_settle_nothing [simp]: "List.map_filter param_settles (gap_requests op) = []"
proof -
  have "List.map_filter param_settles (concat (map (\<lambda>i. if Q i then [] else sendRequestRead t i) is)) = []" for Q t "is"
    by (induction "is") auto
  then show ?thesis by (simp add: gap_requests_def split: option.split)
qed

lemma slot_heads:
  "fst ` set (param_slots P) = FetchQuiet ` fo_id ` set (px_fetches P) \<union> SetTick ` sv_id ` set (px_sets P)"
  by (simp add: param_slots_def image_Un image_image)

lemma find_fetchD: "find_fetch P i = Some op \<Longrightarrow> op \<in> set (px_fetches P) \<and> fo_id op = i"
  by (auto simp: find_fetch_def dest: find_SomeD)

lemma find_setD: "find_set P i = Some op \<Longrightarrow> op \<in> set (px_sets P) \<and> sv_id op = i"
  by (auto simp: find_set_def dest: find_SomeD)

lemma lookup_setD: "lookup_set P n = Some op \<Longrightarrow> op \<in> set (px_sets P) \<and> sv_name op = n"
  by (auto simp: lookup_set_def dest: find_SomeD)

lemma detach_fetch_ok:
  assumes P: "param_ok x P" and op: "op \<in> set (px_fetches P)" and x: "x = None \<or> x = Some (FetchQuiet (fo_id op))"
  shows "param_ok None (detach_fetch op P)"
    and "add_mset (fo_id op) (mset (param_open (detach_fetch op P))) = mset (param_open P)"
    and "px_nextId (detach_fetch op P) = px_nextId P"
proof -
  let ?h = "FetchQuiet (fo_id op)"
  have d: "distinct (map fo_id (px_fetches P))" using P by (simp add: param_ok_def param_open_def)
  have "param_slots (detach_fetch op P) = filter (\<lambda>(h, _). h \<noteq> ?h) (param_slots P)"
    by (simp add: param_slots_def detach_fetch_def filter_map comp_def)
  moreover have "(?h, fo_cancelTimer op) \<in> set (param_slots P)"
    using op by (auto simp: param_slots_def)
  ultimately have "armed None (param_slots (detach_fetch op P)) (px_timers (detach_fetch op P))"
    using P x armed_remove [of x "param_slots P" "px_timers P" ?h "fo_cancelTimer op"]
    by (simp add: param_ok_def) (simp add: detach_fetch_def)
  then show "param_ok None (detach_fetch op P)"
    using P by (auto simp: param_ok_def param_open_def detach_fetch_def distinct_map_filter)
  show "add_mset (fo_id op) (mset (param_open (detach_fetch op P))) = mset (param_open P)"
    using mset_remove_one [OF d op] by (simp add: param_open_def detach_fetch_def)
  show "px_nextId (detach_fetch op P) = px_nextId P" by (simp add: detach_fetch_def)
qed

lemma detach_set_ok:
  assumes P: "param_ok x P" and op: "op \<in> set (px_sets P)" and x: "x = None \<or> x = Some (SetTick (sv_id op))"
  shows "param_ok None (detach_set op P)"
    and "add_mset (sv_id op) (mset (param_open (detach_set op P))) = mset (param_open P)"
    and "px_nextId (detach_set op P) = px_nextId P"
proof -
  let ?h = "SetTick (sv_id op)"
  have d: "distinct (map sv_id (px_sets P))" using P by (simp add: param_ok_def param_open_def)
  have "param_slots (detach_set op P) = filter (\<lambda>(h, _). h \<noteq> ?h) (param_slots P)"
    by (simp add: param_slots_def detach_set_def filter_map comp_def)
  moreover have "(?h, sv_cancelTimer op) \<in> set (param_slots P)"
    using op by (auto simp: param_slots_def)
  ultimately have "armed None (param_slots (detach_set op P)) (px_timers (detach_set op P))"
    using P x armed_remove [of x "param_slots P" "px_timers P" ?h "sv_cancelTimer op"]
    by (simp add: param_ok_def) (simp add: detach_set_def)
  then show "param_ok None (detach_set op P)"
    using P by (auto simp: param_ok_def param_open_def detach_set_def distinct_map_filter)
  show "add_mset (sv_id op) (mset (param_open (detach_set op P))) = mset (param_open P)"
    using mset_remove_one [OF d op] by (simp add: param_open_def detach_set_def)
  show "px_nextId (detach_set op P) = px_nextId P" by (simp add: detach_set_def)
qed

text \<open>Changing an operation without touching its number or its timer.\<close>

lemma update_fetch_ok:
  assumes "\<And>op. fo_id (f op) = fo_id op" "\<And>op. fo_cancelTimer (f op) = fo_cancelTimer op"
  shows "param_ok x (update_fetch i f P) = param_ok x P" "param_open (update_fetch i f P) = param_open P"
    "px_nextId (update_fetch i f P) = px_nextId P"
    "param_slots (update_fetch i f P) = param_slots P" "px_timers (update_fetch i f P) = px_timers P"
proof -
  have m: "map g (map (\<lambda>op. if fo_id op = i then f op else op) xs) = map g xs"
    if "\<And>op. g (f op) = g op" for g :: "fetch_op \<Rightarrow> 'a" and xs
    using that by simp
  show o: "param_open (update_fetch i f P) = param_open P"
    using m [of fo_id] assms by (simp add: param_open_def update_fetch_def)
  show s: "param_slots (update_fetch i f P) = param_slots P"
    using assms by (simp add: param_slots_def update_fetch_def)
  show n: "px_nextId (update_fetch i f P) = px_nextId P" and t: "px_timers (update_fetch i f P) = px_timers P"
    by (simp_all add: update_fetch_def)
  have "px_sets (update_fetch i f P) = px_sets P" by (simp add: update_fetch_def)
  then show "param_ok x (update_fetch i f P) = param_ok x P"
    by (simp add: param_ok_def o s n t)
qed

lemma update_set_ok:
  assumes "\<And>op. sv_id (f op) = sv_id op" "\<And>op. sv_cancelTimer (f op) = sv_cancelTimer op"
    "\<And>op. sv_name (f op) = sv_name op"
  shows "param_ok x (update_set i f P) = param_ok x P" "param_open (update_set i f P) = param_open P"
    "px_nextId (update_set i f P) = px_nextId P"
proof -
  show o: "param_open (update_set i f P) = param_open P"
    using assms by (simp add: param_open_def update_set_def)
  have s: "param_slots (update_set i f P) = param_slots P"
    using assms by (simp add: param_slots_def update_set_def)
  show n: "px_nextId (update_set i f P) = px_nextId P" by (simp add: update_set_def)
  have t: "px_timers (update_set i f P) = px_timers P" by (simp add: update_set_def)
  have m: "map sv_name (px_sets (update_set i f P)) = map sv_name (px_sets P)"
    using assms(3) by (simp add: update_set_def)
  show "param_ok x (update_set i f P) = param_ok x P"
    unfolding param_ok_def by (simp only: o s n t m)
qed

lemma arm_fetch_ok:
  assumes P: "param_ok (Some (FetchQuiet i)) P" and i: "i \<in> fo_id ` set (px_fetches P)"
  shows "param_ok None (arm_fetch P i)" "param_open (arm_fetch P i) = param_open P"
    "px_nextId (arm_fetch P i) = px_nextId P"
proof -
  obtain t T where st: "set_timer (FetchQuiet i) (px_fetchQuietMs P) (px_timers P) = (t, T)" by fastforce
  have A: "armed None (rearm (FetchQuiet i) t (param_slots P)) T"
    using P st i by (intro armed_reset) (simp_all add: param_ok_def slot_heads)
  have "param_slots (arm_fetch P i) = rearm (FetchQuiet i) t (param_slots P)"
    by (simp add: arm_fetch_def st param_slots_def update_fetch_def rearm_def)
  moreover have "px_timers (arm_fetch P i) = T" by (simp add: arm_fetch_def st update_fetch_def)
  moreover show o: "param_open (arm_fetch P i) = param_open P"
    by (simp add: arm_fetch_def st param_open_def update_fetch_def)
  moreover show n: "px_nextId (arm_fetch P i) = px_nextId P" by (simp add: arm_fetch_def st update_fetch_def)
  moreover have "px_sets (arm_fetch P i) = px_sets P" by (simp add: arm_fetch_def st update_fetch_def)
  ultimately show "param_ok None (arm_fetch P i)" using P A by (simp add: param_ok_def)
qed

lemma arm_set_ok:
  assumes P: "param_ok (Some (SetTick i)) P" and i: "i \<in> sv_id ` set (px_sets P)"
  shows "param_ok None (arm_set P i)" "param_open (arm_set P i) = param_open P"
    "px_nextId (arm_set P i) = px_nextId P"
proof -
  obtain t T where st: "set_timer (SetTick i) (px_setResendMs P) (px_timers P) = (t, T)" by fastforce
  obtain op where op: "find_set P i = Some op"
    using i by (cases "find_set P i") (auto simp: find_set_def find_None_iff)
  have A: "armed None (rearm (SetTick i) t (param_slots P)) T"
    using P st i by (intro armed_reset) (simp_all add: param_ok_def slot_heads)
  have "param_slots (arm_set P i) = rearm (SetTick i) t (param_slots P)"
    by (simp add: arm_set_def op st param_slots_def update_set_def rearm_def)
  moreover have "px_timers (arm_set P i) = T" by (simp add: arm_set_def op st update_set_def)
  moreover show o: "param_open (arm_set P i) = param_open P"
    by (simp add: arm_set_def op st param_open_def update_set_def)
  moreover show n: "px_nextId (arm_set P i) = px_nextId P" by (simp add: arm_set_def op st update_set_def)
  moreover have "map sv_name (px_sets (arm_set P i)) = map sv_name (px_sets P)"
    by (simp add: arm_set_def op st update_set_def)
  ultimately show "param_ok None (arm_set P i)" using P A by (simp add: param_ok_def)
qed

lemma arm_set_gone: "find_set P i = None \<Longrightarrow> arm_set P i = P"
  by (simp add: arm_set_def)

text \<open>A new operation that is then armed.\<close>

lemma new_fetch_ok:
  assumes P: "param_ok None P" and i: "fo_id op = i" "i < px_nextId P" "i \<notin> set (param_open P)"
  shows "param_ok None (arm_fetch (P\<lparr>px_fetches := px_fetches P @ [op]\<rparr>) i)"
    and "mset (param_open (arm_fetch (P\<lparr>px_fetches := px_fetches P @ [op]\<rparr>) i)) = add_mset i (mset (param_open P))"
    and "px_nextId (arm_fetch (P\<lparr>px_fetches := px_fetches P @ [op]\<rparr>) i) = px_nextId P"
proof -
  obtain t T where st: "set_timer (FetchQuiet i) (px_fetchQuietMs P) (px_timers P) = (t, T)" by fastforce
  let ?P = "arm_fetch (P\<lparr>px_fetches := px_fetches P @ [op]\<rparr>) i"
  have notin: "fo_id o' \<noteq> i" if "o' \<in> set (px_fetches P)" for o'
    using i(3) that by (auto simp: param_open_def)
  have fs: "px_fetches ?P = px_fetches P @ [op\<lparr>fo_cancelTimer := Some t\<rparr>]"
    using notin i(1) by (simp add: arm_fetch_def st update_fetch_def map_idI)
  have rest: "px_sets ?P = px_sets P" "px_timers ?P = T" "px_nextId ?P = px_nextId P"
    by (simp_all add: arm_fetch_def st update_fetch_def)
  have "armed None (param_slots P @ [(FetchQuiet i, Some t)]) T"
    using P i st by (intro armed_add) (auto simp: param_ok_def slot_heads param_open_def)
  then have "armed None (param_slots ?P) T"
    by (rule armed_perm) (simp add: param_slots_def fs rest i(1))
  then show "param_ok None ?P"
    using P i notin by (auto simp: param_ok_def param_open_def fs rest)
  show "mset (param_open ?P) = add_mset i (mset (param_open P))" using i(1) by (simp add: param_open_def fs rest)
  show "px_nextId ?P = px_nextId P" by (rule rest(3))
qed

lemma new_set_ok:
  assumes P: "param_ok None P" and i: "sv_id op = i" "i < px_nextId P" "i \<notin> set (param_open P)"
    and name: "sv_name op \<notin> sv_name ` set (px_sets P)"
  shows "param_ok None (arm_set (P\<lparr>px_sets := px_sets P @ [op]\<rparr>) i)"
    and "mset (param_open (arm_set (P\<lparr>px_sets := px_sets P @ [op]\<rparr>) i)) = add_mset i (mset (param_open P))"
    and "px_nextId (arm_set (P\<lparr>px_sets := px_sets P @ [op]\<rparr>) i) = px_nextId P"
proof -
  obtain t T where st: "set_timer (SetTick i) (px_setResendMs P) (px_timers P) = (t, T)" by fastforce
  let ?P = "arm_set (P\<lparr>px_sets := px_sets P @ [op]\<rparr>) i"
  have notin: "sv_id o' \<noteq> i" if "o' \<in> set (px_sets P)" for o'
    using i(3) that by (auto simp: param_open_def)
  have "find_set (P\<lparr>px_sets := px_sets P @ [op]\<rparr>) i = Some op"
    using notin i(1) by (auto simp: find_set_def find_append split: option.split dest!: find_SomeD)
  then have fs: "px_sets ?P = px_sets P @ [op\<lparr>sv_cancelTimer := Some t\<rparr>]"
    and rest: "px_fetches ?P = px_fetches P" "px_timers ?P = T" "px_nextId ?P = px_nextId P"
    using notin i(1) by (simp_all add: arm_set_def st update_set_def map_idI)
  have "armed None (param_slots P @ [(SetTick i, Some t)]) T"
    using P i st by (intro armed_add) (auto simp: param_ok_def slot_heads param_open_def)
  then have "armed None (param_slots ?P) T"
    using i(1) by (simp add: param_slots_def fs rest)
  then show "param_ok None ?P"
    using P i notin name by (auto simp: param_ok_def param_open_def fs rest)
  show "mset (param_open ?P) = add_mset i (mset (param_open P))" using i(1) by (simp add: param_open_def fs rest)
  show "px_nextId ?P = px_nextId P" by (rule rest(3))
qed


section \<open>Every operation keeps the ledger\<close>

lemma param_same:
  "param_ok None P' \<Longrightarrow> px_nextId P' = px_nextId P \<Longrightarrow> param_open P' = param_open P \<Longrightarrow>
   List.map_filter param_settles fs = [] \<Longrightarrow> param_balanced [] P (P', fs)"
  by (simp add: param_balanced_def)

lemma param_then:
  assumes "param_balanced new1 P (P1, f1)" "param_balanced new2 P1 (P2, f2)"
  shows "param_balanced (new1 @ new2) P (P2, f1 @ f2)"
proof -
  let ?s = "\<lambda>fs. mset (List.map_filter param_settles fs)"
  have "?s f1 + (?s f2 + mset (param_open P2)) = ?s f1 + (mset (param_open P1) + mset new2)"
    using assms(2) by (simp add: param_balanced_def)
  also have "\<dots> = mset (param_open P) + mset new1 + mset new2"
    using assms(1) by (simp add: param_balanced_def add.assoc [symmetric])
  finally show ?thesis using assms by (simp add: param_balanced_def add.assoc)
qed

lemma settle_fetch_balanced:
  assumes "param_ok x P" "op \<in> set (px_fetches P)" "x = None \<or> x = Some (FetchQuiet (fo_id op))"
    and "mset (List.map_filter param_settles fs) = {#fo_id op#}"
  shows "param_balanced [] P (detach_fetch op P, fs)"
  using detach_fetch_ok [OF assms(1-3)] assms(4) by (simp add: param_balanced_def)

lemma settle_set_balanced:
  assumes "param_ok x P" "op \<in> set (px_sets P)" "x = None \<or> x = Some (SetTick (sv_id op))"
    and "mset (List.map_filter param_settles fs) = {#sv_id op#}"
  shows "param_balanced [] P (detach_set op P, fs)"
  using detach_set_ok [OF assms(1-3)] assms(4) by (simp add: param_balanced_def)

lemma record_value_simps [simp]:
  "fo_id (record_value op p k c) = fo_id op" "fo_cancelTimer (record_value op p k c) = fo_cancelTimer op"
  "fo_target (record_value op p k c) = fo_target op" "fo_onProgress (record_value op p k c) = fo_onProgress op"
  by (simp_all add: record_value_def Let_def split: option.split)

lemma stall_step_simps [simp]:
  "fo_id (stall_step op) = fo_id op" "fo_cancelTimer (stall_step op) = fo_cancelTimer op"
  "fo_received (stall_step op) = fo_received op" "fo_total (stall_step op) = fo_total op"
  by (simp_all add: stall_step_def Let_def)

lemma find_update_fetch:
  "(\<And>op. fo_id (f op) = fo_id op) \<Longrightarrow> find_fetch (update_fetch i f P) j
     = (if i = j then map_option f (find_fetch P j) else find_fetch P j)"
  by (simp add: find_fetch_def update_fetch_def find_modify)

lemma find_update_set:
  "(\<And>op. sv_id (f op) = sv_id op) \<Longrightarrow> find_set (update_set i f P) j
     = (if i = j then map_option f (find_set P j) else find_set P j)"
  by (simp add: find_set_def update_set_def find_modify)

lemma cancel_fetch_ok:
  assumes "param_ok None P" "op \<in> set (px_fetches P)"
  shows "param_ok (Some (FetchQuiet (fo_id op))) (P\<lparr>px_timers := cancel_timer (fo_cancelTimer op) (px_timers P)\<rparr>)"
proof -
  have "(FetchQuiet (fo_id op), fo_cancelTimer op) \<in> set (param_slots P)"
    using assms(2) by (auto simp: param_slots_def)
  from armed_cancel [OF _ this] assms(1) show ?thesis
    by (simp add: param_ok_def param_open_def) (simp add: param_slots_def)
qed

lemma find_arm_fetch:
  "find_fetch (arm_fetch P i) j = (if i = j
     then map_option (fo_cancelTimer_update (\<lambda>_. Some (tm_next (px_timers P)))) (find_fetch P j) else find_fetch P j)"
  by (simp add: arm_fetch_def set_timer_def find_update_fetch) (simp add: find_fetch_def)

lemma recordFetch_balanced:
  assumes P: "param_ok None P"
  shows "param_balanced [] P (recordFetch P i p k c)"
proof (cases "find_fetch P i")
  case None
  then show ?thesis using P by (simp add: recordFetch_def param_same)
next
  case (Some op0)
  let ?f = "\<lambda>o'. record_value o' p k c"
  let ?U = "update_fetch i ?f P"
  let ?C = "?U\<lparr>px_timers := cancel_timer (fo_cancelTimer op0) (px_timers P)\<rparr>"
  let ?A = "arm_fetch ?C i"
  have id: "fo_id op0 = i" using find_fetchD [OF Some] by simp
  have U: "param_ok None ?U" "param_open ?U = param_open P" "px_nextId ?U = px_nextId P" "px_timers ?U = px_timers P"
    using P by (simp_all add: update_fetch_ok)
  have fU: "find_fetch ?U i = Some (?f op0)" by (simp add: find_update_fetch Some)
  have mem: "?f op0 \<in> set (px_fetches ?U)" using find_fetchD [OF fU] by simp
  have C: "param_ok (Some (FetchQuiet i)) ?C" "param_open ?C = param_open P" "px_nextId ?C = px_nextId P"
    using cancel_fetch_ok [OF U(1) mem] U by (simp_all add: id param_open_def)
  have "i \<in> fo_id ` set (px_fetches ?C)" using imageI [OF mem, of fo_id] id by simp
  note A = arm_fetch_ok [OF C(1) this]
  obtain op1 where op1: "find_fetch ?A i = Some op1"
    using fU by (simp add: find_arm_fetch) (simp add: find_fetch_def)
  have mem1: "op1 \<in> set (px_fetches ?A)" "fo_id op1 = i" using find_fetchD [OF op1] by simp_all
  have same: "param_balanced [] P (?A, reportProgress (?f op0))"
    using A C(2,3) by (intro param_same) simp_all
  show ?thesis
  proof (cases "is_complete op1")
    case True
    have "param_balanced [] ?A (detach_fetch op1 ?A, [ResolveParams i (buildResult op1)])"
      using A(1) mem1 by (intro settle_fetch_balanced [of None]) simp_all
    from param_then [OF same this] show ?thesis
      using True Some op1 by (simp add: recordFetch_def Let_def U(4))
  next
    case False
    then show ?thesis using same Some op1 by (simp add: recordFetch_def Let_def U(4))
  qed
qed

lemma record_all_balanced:
  "param_ok None P \<Longrightarrow> param_balanced [] P (record_all P is p k c)"
proof (induction "is" arbitrary: P)
  case Nil
  then show ?case by (simp add: param_same)
next
  case (Cons i "is")
  obtain P1 f1 where r: "recordFetch P i p k c = (P1, f1)" by fastforce
  have b: "param_balanced [] P (P1, f1)" using recordFetch_balanced [OF Cons.prems, of i p k c] r by simp
  then have "param_ok None P1" by (simp add: param_balanced_def)
  from Cons.IH [OF this] param_then [OF b, of "[]"] r show ?case
    by (cases "record_all P1 is p k c") simp
qed


lemma record_frame [simp]:
  "px_sets (detach_fetch op P) = px_sets P" "px_sets (arm_fetch P i) = px_sets P"
  "px_sets (update_fetch i f P) = px_sets P"
  "px_confirmTolerance (detach_fetch op P) = px_confirmTolerance P"
  "px_confirmTolerance (arm_fetch P i) = px_confirmTolerance P"
  "px_confirmTolerance (update_fetch i f P) = px_confirmTolerance P"
  "px_changeListeners (detach_fetch op P) = px_changeListeners P"
  "px_changeListeners (arm_fetch P i) = px_changeListeners P"
  "px_changeListeners (update_fetch i f P) = px_changeListeners P"
  "px_cache (detach_fetch op P) = px_cache P" "px_cache (arm_fetch P i) = px_cache P"
  "px_cache (update_fetch i f P) = px_cache P"
  by (simp_all add: detach_fetch_def arm_fetch_def update_fetch_def set_timer_def)

lemma recordFetch_frame [simp]:
  "px_sets (fst (recordFetch P i p k c)) = px_sets P"
  "px_cache (fst (recordFetch P i p k c)) = px_cache P"
  by (simp_all add: recordFetch_def Let_def split: option.split)

lemma record_all_frame [simp]:
  "px_sets (fst (record_all P is p k c)) = px_sets P"
  "px_cache (fst (record_all P is p k c)) = px_cache P"
  by (induction "is" arbitrary: P) (simp_all add: Let_def split_beta)

lemma param_ok_cache [simp]: "param_ok x (P\<lparr>px_cache := m\<rparr>) = param_ok x P"
  by (simp add: param_ok_def param_open_def param_slots_def)

lemma param_balanced_cache: "param_balanced new (P\<lparr>px_cache := m\<rparr>) r = param_balanced new P r"
  by (simp add: param_balanced_def param_open_def)

lemma accept_value_balanced:
  assumes P: "param_ok None P"
  shows "param_balanced [] P (accept_value P msg p k c)"
proof -
  let ?P0 = "P\<lparr>px_cache := (px_cache P)(pm_name p \<mapsto> p)\<rparr>"
  obtain P1 fs where r: "record_all ?P0 (map fo_id (matching_fetches P msg)) p k c = (P1, fs)" by fastforce
  have b: "param_balanced [] P (P1, fs)"
    using record_all_balanced [of ?P0 "map fo_id (matching_fetches P msg)" p k c] P r
    by (simp add: param_balanced_cache)
  then have ok: "param_ok None P1" by (simp add: param_balanced_def)
  have more: "param_balanced [] P (P1, fs @ gs)" if "List.map_filter param_settles gs = []" for gs
    using param_then [OF b param_same [OF ok, of P1 gs]] that by simp
  have settle: "param_balanced [] P (detach_set op P1, fs @ ResolveSet (sv_id op) # emitChange P p)"
    if "pending_set P msg (pm_name p) = Some op" for op
  proof -
    have "op \<in> set (px_sets P)"
      using that lookup_setD [of P "pm_name p"] by (auto simp: pending_set_def split: option.splits if_splits)
    then have "op \<in> set (px_sets P1)"
      using record_all_frame(1) [of ?P0 "map fo_id (matching_fetches P msg)" p k c] r by simp
    then have "param_balanced [] P1 (detach_set op P1, ResolveSet (sv_id op) # emitChange P p)"
      using ok by (intro settle_set_balanced [of None]) simp_all
    from param_then [OF b this] show ?thesis by simp
  qed
  show ?thesis
    unfolding accept_value_def Let_def r prod.case
    by (cases "pending_set P msg (pm_name p)") (simp_all add: more settle)
qed

lemma onParamValue_balanced: "param_ok None P \<Longrightarrow> param_balanced [] P (onParamValue P msg t)"
  by (simp add: onParamValue_def Let_def accept_value_balanced param_same split: option.split)

lemma fired_fetch:
  assumes "param_ok (Some (FetchQuiet i)) P" "find_fetch P i = Some op"
  shows "op \<in> set (px_fetches P)" "fo_id op = i" "i \<in> fo_id ` set (px_fetches P)"
  using find_fetchD [OF assms(2)] by auto

lemma onFetchQuiet_balanced:
  assumes P: "param_ok (Some (FetchQuiet i)) P" and i: "i \<in> fo_id ` set (px_fetches P)"
  shows "param_balanced [] P (onFetchQuiet P i)"
proof -
  obtain op where op: "find_fetch P i = Some op"
    using i by (cases "find_fetch P i") (auto simp: find_fetch_def find_None_iff)
  note m = find_fetchD [OF op]
  let ?U = "update_fetch i stall_step P"
  have U: "param_ok (Some (FetchQuiet i)) ?U" "param_open ?U = param_open P" "px_nextId ?U = px_nextId P"
    using P by (simp_all add: update_fetch_ok)
  have "find_fetch ?U i = Some (stall_step op)" by (simp add: find_update_fetch op)
  then have "stall_step op \<in> set (px_fetches ?U)" using find_fetchD by blast
  then have "i \<in> fo_id ` set (px_fetches ?U)" using imageI [of "stall_step op" _ fo_id] m by simp
  note A = arm_fetch_ok [OF U(1) this]
  have "param_balanced [] P (arm_fetch ?U i, gap_requests op)"
    using A U(2,3) by (intro param_same) simp_all
  moreover have "param_balanced [] P (detach_fetch op P, [f])" if "param_settles f = Some i" for f
    using P m that by (intro settle_fetch_balanced [of "Some (FetchQuiet i)"]) simp_all
  ultimately show ?thesis by (simp add: onFetchQuiet_def op)
qed

lemma emit_failed_balanced:
  assumes P: "param_ok x P"
    and x: "x = None \<or> (\<exists>op\<in>set (px_sets P). x = Some (SetTick (sv_id op)) \<and> sv_name op = name)"
  shows "param_balanced [] P (emit_failed P name) \<or> x \<noteq> None \<and> lookup_set P name = None"
proof (cases "lookup_set P name")
  case None
  then show ?thesis using P by (cases x) (simp_all add: emit_failed_def param_same)
next
  case (Some op)
  note m = lookup_setD [OF Some]
  have d: "distinct (map sv_name (px_sets P))" using P by (simp add: param_ok_def)
  have "x = None \<or> x = Some (SetTick (sv_id op))"
    using x m d by (auto simp: distinct_map inj_on_def)
  with P m have "param_balanced [] P (detach_set op P, [RejectParam (sv_id op) ParamSendFailed])"
    by (intro settle_set_balanced) simp_all
  then show ?thesis by (simp add: emit_failed_def Some)
qed

lemma lookup_own_name: "op \<in> set (px_sets P) \<Longrightarrow> lookup_set P (sv_name op) \<noteq> None"
  by (auto simp: lookup_set_def find_None_iff)

lemma find_own: "op \<in> set (px_sets P) \<Longrightarrow> find_set P (sv_id op) \<noteq> None"
  by (auto simp: find_set_def find_None_iff)

lemma emit_failed_gone:
  assumes "distinct (map sv_id (px_sets P))" "distinct (map sv_name (px_sets P))" "op \<in> set (px_sets P)"
  shows "find_set (fst (emit_failed P (sv_name op))) (sv_id op) = None"
proof -
  obtain op' where l: "lookup_set P (sv_name op) = Some op'" using lookup_own_name [OF assms(3)] by blast
  then have "op' = op"
    using lookup_setD [OF l] assms(2,3) by (auto simp: distinct_map inj_on_def)
  then show ?thesis by (simp add: emit_failed_def l find_set_def detach_set_def find_remove)
qed

lemma sets_distinct: "param_ok x P \<Longrightarrow> distinct (map sv_id (px_sets P)) \<and> distinct (map sv_name (px_sets P))"
  by (simp add: param_ok_def param_open_def)

lemma set_param_balanced:
  assumes P: "param_ok None P" and i: "i < px_nextId P" "i \<notin> set (param_open P)"
  shows "param_balanced [i] P (set_param P i name v target sent)"
proof -
  have reject: "param_balanced [i] P (P, [RejectParam i r])" for r
    using P by (simp add: param_balanced_def)
  define Q where "Q = (case lookup_set P name of Some e \<Rightarrow> (detach_set e P, [RejectParam (sv_id e) ParamAborted]) | None \<Rightarrow> (P, []))"
  obtain P1 f1 where Q1: "Q = (P1, f1)" by fastforce
  have b1: "param_balanced [] P (P1, f1)"
  proof (cases "lookup_set P name")
    case None
    then show ?thesis using P Q1 by (auto simp: Q_def param_same)
  next
    case (Some e)
    then have "param_balanced [] P (detach_set e P, [RejectParam (sv_id e) ParamAborted])"
      using P lookup_setD [OF Some] by (intro settle_set_balanced [of None]) simp_all
    then show ?thesis using Q1 by (simp add: Q_def Some)
  qed
  have fresh: "name \<notin> sv_name ` set (px_sets P1)"
  proof (cases "lookup_set P name")
    case None
    then have "P1 = P" using Q1 by (simp add: Q_def)
    with None show ?thesis by (auto simp: lookup_set_def find_None_iff)
  next
    case (Some e)
    then have P1: "P1 = detach_set e P" using Q1 by (simp add: Q_def)
    have e: "e \<in> set (px_sets P)" "sv_name e = name" using lookup_setD [OF Some] by simp_all
    have "inj_on sv_name (set (px_sets P))" using sets_distinct [OF P] by (simp add: distinct_map)
    then have "x = e" if "x \<in> set (px_sets P)" "sv_name x = name" for x
      using that e by (simp add: inj_onD)
    then show ?thesis by (auto simp: P1 detach_set_def)
  qed
  have P1: "param_ok None P1" "px_nextId P1 = px_nextId P" "i \<notin> set (param_open P1)"
    "px_disposed P1 = px_disposed P"
  proof -
    show "param_ok None P1" "px_nextId P1 = px_nextId P" using b1 by (simp_all add: param_balanced_def)
    have "mset (List.map_filter param_settles f1) + mset (param_open P1) = mset (param_open P)"
      using b1 by (simp add: param_balanced_def)
    from arg_cong [OF this, of set_mset] show "i \<notin> set (param_open P1)" using i(2) by auto
    show "px_disposed P1 = px_disposed P"
      using Q1 by (cases "lookup_set P name") (auto simp: Q_def detach_set_def)
  qed
  define op where "op t = \<lparr>sv_id = i, sv_target = t, sv_name = name, sv_value = v,
     sv_type = (case px_cache P1 name of Some p \<Rightarrow> pm_type p | None \<Rightarrow> PARAM_TYPE_REAL32),
     sv_attempts = 1, sv_cancelTimer = None\<rparr>" for t
  have opd: "sv_id (op t) = i" "sv_name (op t) = name" "sv_cancelTimer (op t) = None" for t
    by (simp_all add: op_def)
  let ?N = "\<lambda>t. P1\<lparr>px_sets := px_sets P1 @ [op t]\<rparr>"
  have sent: "param_balanced [i] P (arm_set (?N t) i, f1 @ set_message (op t))" for t
  proof -
    have "param_balanced [i] P1 (arm_set (?N t) i, set_message (op t))"
      using new_set_ok [OF P1(1), of "op t" i] P1 i(1) fresh by (simp add: op_def param_balanced_def)
    from param_then [OF b1 this] show ?thesis by simp
  qed
  have failed: "param_balanced [i] P (arm_set (fst (emit_failed (?N t) name)) i, f1 @ snd (emit_failed (?N t) name))" for t
  proof -
    have l: "lookup_set (?N t) name = Some (op t)"
      using fresh by (auto simp: lookup_set_def find_append op_def split: option.split dest!: find_SomeD)
    have others: "sv_id o' \<noteq> i" if "o' \<in> set (px_sets P1)" for o'
      using that P1(3) by (auto simp: param_open_def)
    have e: "emit_failed (?N t) name = (P1, [RejectParam i ParamSendFailed])"
      using others by (simp add: emit_failed_def l detach_set_def opd cancel_timer_def filter_id_conv)
    have "find_set P1 i = None" using others by (auto simp: find_set_def find_None_iff)
    moreover have "param_balanced [i] P1 (P1, [RejectParam i ParamSendFailed])"
      using P1(1) by (simp add: param_balanced_def)
    ultimately show ?thesis using param_then [OF b1, of "[i]"] by (simp add: e arm_set_gone)
  qed
  show ?thesis
    using reject sent failed Q1
    by (simp add: set_param_def Q_def [symmetric] Let_def sendParamSet_def split_beta op_def split: option.split)
qed

lemma onSetTick_balanced:
  assumes P: "param_ok (Some (SetTick i)) P" and i: "i \<in> sv_id ` set (px_sets P)"
  shows "param_balanced [] P (onSetTick P i sent)"
proof -
  obtain op where op: "find_set P i = Some op" using i find_own by fastforce
  note m = find_setD [OF op]
  let ?U = "update_set i (sv_attempts_update Suc) P"
  have U: "param_ok (Some (SetTick i)) ?U" "param_open ?U = param_open P" "px_nextId ?U = px_nextId P"
    using P by (simp_all add: update_set_ok)
  let ?op = "sv_attempts_update Suc op"
  have "find_set ?U i = Some ?op" by (simp add: find_update_set op)
  then have mem: "?op \<in> set (px_sets ?U)" using find_setD by blast
  then have iU: "i \<in> sv_id ` set (px_sets ?U)" using imageI [OF mem, of sv_id] m by simp
  have stop: "param_balanced [] P (detach_set op P, [RejectParam i ParamTimeout])"
    using P m by (intro settle_set_balanced [of "Some (SetTick i)"]) simp_all
  have resend: "param_balanced [] P (arm_set ?U i, set_message op)"
    using arm_set_ok [OF U(1) iU] U(2,3) by (intro param_same) simp_all
  have failed: "param_balanced [] P (arm_set (fst (emit_failed ?U (sv_name op))) i, snd (emit_failed ?U (sv_name op)))"
  proof -
    have own: "\<exists>o'\<in>set (px_sets ?U). Some (SetTick i) = Some (SetTick (sv_id o')) \<and> sv_name o' = sv_name op"
      by (rule bexI [OF _ mem]) (simp add: m)
    have "param_balanced [] ?U (emit_failed ?U (sv_name op))"
      using emit_failed_balanced [OF U(1) disjI2 [OF own]] lookup_own_name [OF mem] by auto
    moreover have "arm_set (fst (emit_failed ?U (sv_name op))) i = fst (emit_failed ?U (sv_name op))"
      using emit_failed_gone [OF _ _ mem] sets_distinct [OF U(1)] m by (intro arm_set_gone) simp
    ultimately show ?thesis using U(2,3) by (simp add: param_balanced_def)
  qed
  show ?thesis
    using stop resend failed by (simp add: onSetTick_def op sendParamSet_def Let_def split_beta)
qed

lemma reject_fetches_balanced:
  "param_ok None P \<Longrightarrow> param_balanced [] P (reject_fetches P is r)"
proof (induction "is" arbitrary: P)
  case Nil
  then show ?case by (simp add: param_same)
next
  case (Cons i "is")
  show ?case
  proof (cases "find_fetch P i")
    case None
    then show ?thesis using Cons by simp
  next
    case (Some op)
    have b: "param_balanced [] P (detach_fetch op P, [RejectParam i r])"
      using Cons.prems find_fetchD [OF Some] by (intro settle_fetch_balanced [of None]) simp_all
    then have ok: "param_ok None (detach_fetch op P)" by (simp add: param_balanced_def)
    obtain P2 f2 where r2: "reject_fetches (detach_fetch op P) is r = (P2, f2)" by fastforce
    from param_then [OF b Cons.IH [OF ok, unfolded r2]] Some r2 show ?thesis by simp
  qed
qed

lemma reject_sets_balanced:
  "param_ok None P \<Longrightarrow> param_balanced [] P (reject_sets P is r)"
proof (induction "is" arbitrary: P)
  case Nil
  then show ?case by (simp add: param_same)
next
  case (Cons i "is")
  show ?case
  proof (cases "find_set P i")
    case None
    then show ?thesis using Cons by simp
  next
    case (Some op)
    have b: "param_balanced [] P (detach_set op P, [RejectParam i r])"
      using Cons.prems find_setD [OF Some] by (intro settle_set_balanced [of None]) simp_all
    then have ok: "param_ok None (detach_set op P)" by (simp add: param_balanced_def)
    obtain P2 f2 where r2: "reject_sets (detach_set op P) is r = (P2, f2)" by fastforce
    from param_then [OF b Cons.IH [OF ok, unfolded r2]] Some r2 show ?thesis by simp
  qed
qed

lemma param_ok_ext [simp]:
  "param_ok x (P\<lparr>px_disposed := d\<rparr>) = param_ok x P"
  "param_ok x (P\<lparr>px_changeListeners := l\<rparr>) = param_ok x P"
  by (simp_all add: param_ok_def param_open_def param_slots_def)

lemma param_open_ext [simp]:
  "param_open (P\<lparr>px_disposed := d\<rparr>) = param_open P"
  "param_open (P\<lparr>px_changeListeners := l\<rparr>) = param_open P"
  "param_open (P\<lparr>px_nextId := n\<rparr>) = param_open P"
  by (simp_all add: param_open_def)

lemma param_dispose_balanced:
  assumes P: "param_ok None P"
  shows "param_balanced [] P (param_dispose P)"
proof -
  let ?D = "P\<lparr>px_disposed := True\<rparr>"
  obtain P1 f1 where r1: "reject_fetches ?D (map fo_id (px_fetches P)) ParamDisposed = (P1, f1)" by fastforce
  have b1: "param_balanced [] ?D (P1, f1)"
    using reject_fetches_balanced [of ?D "map fo_id (px_fetches P)" ParamDisposed] P r1 by simp
  then have ok1: "param_ok None P1" by (simp add: param_balanced_def)
  obtain P2 f2 where r2: "reject_sets P1 (map sv_id (px_sets P1)) ParamDisposed = (P2, f2)" by fastforce
  have b2: "param_balanced [] P1 (P2, f2)"
    using reject_sets_balanced [OF ok1, of "map sv_id (px_sets P1)" ParamDisposed] r2 by simp
  from param_then [OF b1 b2] P r1 r2 show ?thesis
    by (simp add: param_dispose_def param_balanced_def param_same)
qed

lemma fetchAll_balanced:
  assumes P: "param_ok None P" and i: "i < px_nextId P" "i \<notin> set (param_open P)"
  shows "param_balanced [i] P (fetchAll P i prog signal target)"
proof -
  have reject: "param_balanced [i] P (P, [RejectParam i r])" for r
    using P by (simp add: param_balanced_def)
  have "param_balanced [i] P (arm_fetch (P\<lparr>px_fetches := px_fetches P @ [op]\<rparr>) i, sendRequestList t)"
    if "fo_id op = i" for op t
    using new_fetch_ok [OF P that i] by (simp add: param_balanced_def)
  with reject show ?thesis
    by (simp add: fetchAll_def Let_def split: option.split)
qed

section \<open>The ledger over runs\<close>

lemma param_ok_next: "param_ok x P \<Longrightarrow> px_nextId P \<le> n \<Longrightarrow> param_ok x (P\<lparr>px_nextId := n\<rparr>)"
  by (auto simp: param_ok_def param_slots_def intro: less_le_trans)

lemma fired_timer_ok:
  assumes P: "param_ok None P" and h: "timer_handler t (px_timers P) = Some h"
  shows "param_ok (Some h) (P\<lparr>px_timers := cancel_timer (Some t) (px_timers P)\<rparr>)"
    and "h \<in> fst ` set (param_slots P)"
proof -
  have A: "armed None (param_slots P) (px_timers P)" using P by (simp add: param_ok_def)
  show "param_ok (Some h) (P\<lparr>px_timers := cancel_timer (Some t) (px_timers P)\<rparr>)"
    using armed_fire(1) [OF A h] P by (simp add: param_ok_def param_open_def param_slots_def)
  show "h \<in> fst ` set (param_slots P)" using imageI [OF armed_fire(2) [OF A h], of fst] by simp
qed

lemma param_balanced_timers [simp]:
  "param_balanced new (P\<lparr>px_timers := T\<rparr>) r = param_balanced new P r"
  by (simp add: param_balanced_def param_open_def)

lemma param_step_balanced:
  assumes P: "param_ok None P"
  shows "\<exists>new. param_balanced new (P\<lparr>px_nextId := px_nextId P + length new\<rparr>) (param_step P e) \<and>
    new = [px_nextId P..<px_nextId P + length new]"
proof -
  let ?N = "P\<lparr>px_nextId := px_nextId P + 1\<rparr>"
  have new: "param_ok None ?N" "px_nextId P < px_nextId ?N" "px_nextId P \<notin> set (param_open ?N)"
    using param_ok_next [OF P, of "px_nextId P + 1"] P by (auto simp: param_ok_def)
  have zero: ?thesis if "param_balanced [] P (param_step P e)"
    using that by (intro exI [of _ "[]"]) simp
  have one: ?thesis if "param_balanced [px_nextId P] ?N (param_step P e)"
    using that by (intro exI [of _ "[px_nextId P]"]) simp
  show ?thesis
  proof (cases e)
    case (FetchAll prog signal target)
    then show ?thesis using fetchAll_balanced [OF new] by (intro one) (simp add: param_step_def)
  next
    case (SetParam name v target sent)
    then show ?thesis using set_param_balanced [OF new] by (intro one) (simp add: param_step_def)
  next
    case (ParamFire t sent)
    show ?thesis
    proof (rule zero, cases "timer_handler t (px_timers P)")
      case None
      then show "param_balanced [] P (param_step P e)" using P ParamFire by (simp add: param_step_def param_same)
    next
      case (Some h)
      let ?F = "P\<lparr>px_timers := cancel_timer (Some t) (px_timers P)\<rparr>"
      note F = fired_timer_ok [OF P Some]
      show "param_balanced [] P (param_step P e)"
      proof (cases h)
        case (FetchQuiet i)
        then have "i \<in> fo_id ` set (px_fetches ?F)" using F(2) by (auto simp: slot_heads)
        from onFetchQuiet_balanced [OF F(1) [unfolded FetchQuiet] this] show ?thesis
          using ParamFire Some FetchQuiet by (simp add: param_step_def)
      next
        case (SetTick i)
        then have "i \<in> sv_id ` set (px_sets ?F)" using F(2) by (auto simp: slot_heads)
        from onSetTick_balanced [OF F(1) [unfolded SetTick] this, of sent] show ?thesis
          using ParamFire Some SetTick by (simp add: param_step_def)
      qed
    qed
  next
    case (SetSendFailed name)
    then show ?thesis using emit_failed_balanced [OF P, of name] by (intro zero) (simp add: param_step_def)
  next
    case (OnChange cb)
    then show ?thesis using P by (intro zero) (simp add: param_step_def param_same)
  next
    case (OffChange cb)
    then show ?thesis using P by (intro zero) (simp add: param_step_def param_same)
  next
    case (ParamValueIn msg target)
    then show ?thesis using P by (intro zero) (simp add: param_step_def param_same onParamValue_balanced)
  next
    case (ParamAbort s)
    then show ?thesis using P by (intro zero) (simp add: param_step_def reject_fetches_balanced)
  next
    case ParamDispose
    then show ?thesis using P by (intro zero) (simp add: param_step_def param_dispose_balanced)
  qed
qed

interpretation par: promise_ledger param_step "param_ok None" param_open px_nextId param_settles
proof
  fix P e assume P: "param_ok None P"
  obtain new where b: "param_balanced new (P\<lparr>px_nextId := px_nextId P + length new\<rparr>) (param_step P e)"
    and n: "new = [px_nextId P..<px_nextId P + length new]"
    using param_step_balanced [OF P, of e] by blast
  have nxt: "px_nextId (fst (param_step P e)) = px_nextId P + length new"
    using b by (simp add: param_balanced_def)
  show "param_ok None (fst (param_step P e))" using b by (simp add: param_balanced_def)
  show "px_nextId P \<le> px_nextId (fst (param_step P e))" by (simp add: nxt)
  show "mset (List.map_filter param_settles (snd (param_step P e))) + mset (param_open (fst (param_step P e)))
      = mset (param_open P) + mset [px_nextId P..<px_nextId (fst (param_step P e))]"
    using b unfolding nxt n [symmetric] by (simp add: param_balanced_def)
qed

lemma createParamClient_ok [simp]:
  "param_ok None (createParamClient deps)" "param_open (createParamClient deps) = []"
  "px_nextId (createParamClient deps) = 0"
  by (simp_all add: param_ok_def param_open_def param_slots_def createParamClient_def armed_init)

end
