(* ===== verification/Param_History.thy ===== *)
theory Param_History
  imports Param_Safety
begin

text \<open>
  What a fetch has received, computed from the PARAM_VALUE messages of its vehicle alone, and that the client's own record
  of the fetch agrees with it after every event.
\<close>

section \<open>The parameters a vehicle has told of\<close>

text \<open>A PARAM_VALUE as the fetch sees it: name, value, index and count.\<close>

type_synonym announcement = "string \<times> jsnum \<times> jsnum option \<times> jsnum option"

definition told :: "target \<Rightarrow> param_event \<Rightarrow> announcement list" where
  "told t e =
     (case e of
        ParamValueIn msg _ \<Rightarrow>
          (case (paramId (dm_fields msg) ''param_id'', numField (dm_fields msg) ''param_value'') of
             (Some name, Some value) \<Rightarrow>
               if fromTarget msg t \<and> name \<noteq> []
               then [(name, value, numField (dm_fields msg) ''param_index'', numField (dm_fields msg) ''param_count'')] else []
           | _ \<Rightarrow> [])
      | _ \<Rightarrow> [])"

text \<open>The index an announcement fills, if it has one: not negative and not the one that stands for none.\<close>

definition place :: "announcement \<Rightarrow> jsnum option" where
  "place a =
     (case a of (name, value, Some k, c) \<Rightarrow> if js_le (Num 0) k \<and> \<not> js_eq k (js_nat 65535) then Some (map_key k) else None
      | _ \<Rightarrow> None)"

definition places :: "announcement list \<Rightarrow> jsnum set" where
  "places h = {k. \<exists>a\<in>set h. place a = Some k}"

text \<open>The last parameter told of for an index, and the first positive count.\<close>

fun latest :: "jsnum \<Rightarrow> announcement list \<Rightarrow> (string \<times> jsnum) option" where
  "latest k [] = None"
| "latest k ((name, value, i, c) # h) =
     (case latest k h of Some p \<Rightarrow> Some p | None \<Rightarrow> if place (name, value, i, c) = Some k then Some (name, value) else None)"

fun announced :: "announcement list \<Rightarrow> jsnum option" where
  "announced [] = None"
| "announced ((name, value, i, Some c) # h) = (if js_lt (Num 0) c then Some c else announced h)"
| "announced ((name, value, i, None) # h) = announced h"

definition seen :: "param \<Rightarrow> string \<times> jsnum" where
  "seen p = (pm_name p, pm_value p)"

text \<open>The parameters told of without an index.\<close>

definition spare :: "announcement list \<Rightarrow> (string \<times> jsnum) set" where
  "spare h = {(name, value). \<exists>i c. (name, value, i, c) \<in> set h \<and> place (name, value, i, c) = None}"

lemma latest_snoc:
  "latest k (h @ [(n, v, i, c)]) = (if place (n, v, i, c) = Some k then Some (n, v) else latest k h)"
  by (induction h) (auto split: option.split)

lemma announced_snoc:
  "announced (h @ [(n, v, i, c)]) =
     (case announced h of Some x \<Rightarrow> Some x | None \<Rightarrow> (case c of Some x \<Rightarrow> if js_lt (Num 0) x then Some x else None | None \<Rightarrow> None))"
  by (induction h rule: announced.induct) (auto split: option.split)

lemma places_simps [simp]: "places [] = {}"
  "places (h @ [a]) = (case place a of Some k \<Rightarrow> insert k (places h) | None \<Rightarrow> places h)"
  by (auto simp: places_def split: option.split)

lemma spare_simps [simp]: "spare [] = {}"
  "spare (h @ [(n, v, i, c)]) = (if place (n, v, i, c) = None then insert (n, v) (spare h) else spare h)"
  by (auto simp: spare_def)

section \<open>The record of a fetch\<close>

definition records :: "announcement list \<Rightarrow> fetch_op \<Rightarrow> bool" where
  "records h op \<longleftrightarrow> distinct (map fst (fo_received op)) \<and> fst ` set (fo_received op) = places h \<and>
     (\<forall>k. map_option seen (map_of (fo_received op) k) = latest k h) \<and> fo_total op = announced h \<and>
     seen ` snd ` set (fo_extras op) \<subseteq> spare h"

lemma records_simps [simp]:
  "records h (fo_cancelTimer_update f op) = records h op" "records h (stall_step op) = records h op"
  by (simp_all add: records_def stall_step_def Let_def)

lemma stall_target [simp]: "fo_target (stall_step op) = fo_target op"
  by (simp add: stall_step_def Let_def)

lemma update_members: "snd ` set (AList.update k p xs) \<subseteq> insert p (snd ` set xs)"
  by (induction xs) (auto split: if_splits)

lemma record_value_cases:
  "fo_received (record_value op p i c) =
     (case place (pm_name p, pm_value p, i, c) of Some k \<Rightarrow> AList.update k p (fo_received op) | None \<Rightarrow> fo_received op)"
  "fo_extras (record_value op p i c) =
     (case place (pm_name p, pm_value p, i, c) of Some k \<Rightarrow> fo_extras op | None \<Rightarrow> AList.update (pm_name p) p (fo_extras op))"
  "fo_total (record_value op p i c) =
     (case fo_total op of Some x \<Rightarrow> Some x | None \<Rightarrow> (case c of Some x \<Rightarrow> if js_lt (Num 0) x then Some x else None | None \<Rightarrow> None))"
  by (auto simp: record_value_def place_def PARAM_INDEX_NONE_def Let_def split: option.split)

lemma records_value:
  assumes "records h op"
  shows "records (h @ [(pm_name p, pm_value p, i, c)]) (record_value op p i c)"
proof -
  let ?a = "(pm_name p, pm_value p, i, c)"
  let ?op = "record_value op p i c"
  have total: "fo_total ?op = announced (h @ [?a])" using assms by (simp add: record_value_cases announced_snoc records_def)
  show ?thesis
  proof (cases "place ?a")
    case None
    have "seen ` snd ` set (AList.update (pm_name p) p (fo_extras op)) \<subseteq> insert (seen p) (seen ` snd ` set (fo_extras op))"
      using image_mono [OF update_members [of "pm_name p" p "fo_extras op"], of seen] by simp
    also have "\<dots> \<subseteq> insert (seen p) (spare h)" using assms unfolding records_def by blast
    also have "\<dots> = spare (h @ [?a])" using None by (simp add: seen_def)
    finally have "seen ` snd ` set (fo_extras ?op) \<subseteq> spare (h @ [?a])" using None by (simp add: record_value_cases)
    then show ?thesis using assms None total by (simp add: records_def record_value_cases latest_snoc)
  next
    case (Some k)
    then have "map_option seen (map_of (fo_received ?op) j) = latest j (h @ [?a])" for j
      using assms by (simp add: record_value_cases records_def latest_snoc update_conv seen_def)
    moreover have "fst ` set (fo_received ?op) = places (h @ [?a])"
      using assms Some by (simp add: record_value_cases records_def flip: set_map) (simp add: update_keys insert_absorb)
    ultimately show ?thesis using assms Some total by (simp add: records_def record_value_cases distinct_update)
  qed
qed

section \<open>One operation among the others\<close>

definition resolved :: "nat \<Rightarrow> param_effect list \<Rightarrow> param list set" where
  "resolved i fs = {ps. ResolveParams i ps \<in> set fs}"

lemma resolved_simps [simp]:
  "resolved i [] = {}" "resolved i (fs @ gs) = resolved i fs \<union> resolved i gs"
  "resolved i (RejectParam j r # fs) = resolved i fs" "resolved i (ResolveSet j # fs) = resolved i fs"
  "resolved i (ResolveParams j ps # fs) = (if i = j then insert ps (resolved i fs) else resolved i fs)"
  by (auto simp: resolved_def)

lemma resolved_other [simp]:
  "resolved i (emitChange P p) = {}" "resolved i (reportProgress op) = {}" "resolved i (gap_requests op) = {}"
  "resolved i (set_message so) = {}" "resolved i (sendRequestList t) = {}" "resolved i (snd (emit_failed P n)) = {}"
  by (auto simp: resolved_def emitChange_def reportProgress_def gap_requests_def sendRequestList_def
      sendRequestRead_def set_message_def emit_failed_def Let_def split: option.splits if_splits)

lemma resolved_rejects [simp]:
  "resolved i (snd (reject_fetches P is r)) = {}" "resolved i (snd (reject_sets P is r)) = {}"
  by (induction "is" arbitrary: P) (simp_all add: Let_def split_beta split: option.split)

lemma find_detach_fetch: "find_fetch (detach_fetch op P) i = (if i = fo_id op then None else find_fetch P i)"
  using find_remove [of fo_id i "fo_id op" "px_fetches P"] by (simp add: find_fetch_def detach_fetch_def)

lemma find_fetch_frame [simp]:
  "find_fetch (P\<lparr>px_timers := T\<rparr>) i = find_fetch P i" "find_fetch (P\<lparr>px_cache := m\<rparr>) i = find_fetch P i"
  "find_fetch (P\<lparr>px_nextId := n\<rparr>) i = find_fetch P i" "find_fetch (P\<lparr>px_disposed := d\<rparr>) i = find_fetch P i"
  "find_fetch (P\<lparr>px_changeListeners := l\<rparr>) i = find_fetch P i" "find_fetch (P\<lparr>px_sets := s\<rparr>) i = find_fetch P i"
  "find_fetch (update_set j g P) i = find_fetch P i" "find_fetch (detach_set so P) i = find_fetch P i"
  "find_fetch (arm_set P j) i = find_fetch P i" "find_fetch (fst (emit_failed P name)) i = find_fetch P i"
  by (simp_all add: find_fetch_def update_set_def detach_set_def arm_set_def set_timer_def emit_failed_def
      split: option.split)

lemma find_reject:
  "find_fetch (fst (reject_fetches P is r)) i \<in> {None, find_fetch P i}"
proof (induction "is" arbitrary: P)
  case (Cons j "is")
  show ?case
  proof (cases "find_fetch P j")
    case (Some op)
    then show ?thesis using Cons.IH [of "detach_fetch op P"] by (auto simp: Let_def split_beta find_detach_fetch split: if_splits)
  qed (use Cons.IH [of P] in simp)
qed simp

lemma find_reject_sets [simp]: "find_fetch (fst (reject_sets P is r)) i = find_fetch P i"
  by (induction "is" arbitrary: P) (simp_all add: Let_def split_beta split: option.split)

text \<open>
  \<open>agrees i t h P\<close>: if fetch \<open>i\<close> is still open, its record is that of the announcements \<open>h\<close> of the vehicle \<open>t\<close>; and what
  resolves it is the result of such a record that is complete.
\<close>

definition agrees :: "nat \<Rightarrow> target \<Rightarrow> announcement list \<Rightarrow> param_client \<Rightarrow> bool" where
  "agrees i t h P = (\<forall>op. find_fetch P i = Some op \<longrightarrow> fo_target op = t \<and> records h op)"

definition result_of :: "announcement list \<Rightarrow> param list \<Rightarrow> bool" where
  "result_of h ps = (\<exists>op. records h op \<and> is_complete op \<and> ps = buildResult op)"

lemma result_ofI: "records h op \<Longrightarrow> is_complete op \<Longrightarrow> result_of h (buildResult op)"
  by (auto simp: result_of_def)

definition outcome :: "nat \<Rightarrow> target \<Rightarrow> announcement list \<Rightarrow> param_result \<Rightarrow> bool" where
  "outcome i t h R = (agrees i t h (fst R) \<and> (\<forall>ps\<in>resolved i (snd R). result_of h ps))"

lemma outcome_same: "find_fetch Q i \<in> {None, find_fetch P i} \<Longrightarrow> resolved i fs = {} \<Longrightarrow> agrees i t h P \<Longrightarrow> outcome i t h (Q, fs)"
  by (auto simp: outcome_def agrees_def)

lemma recordFetch_others:
  "i \<noteq> j \<Longrightarrow> find_fetch (fst (recordFetch P j p k c)) i = find_fetch P i \<and> resolved i (snd (recordFetch P j p k c)) = {}"
  by (auto simp: recordFetch_def Let_def find_detach_fetch find_arm_fetch find_update_fetch dest: find_fetchD split: option.split)

lemma recordFetch_own:
  assumes "agrees i t h P"
  shows "outcome i t (h @ [(pm_name p, pm_value p, k, c)]) (recordFetch P i p k c)"
proof (cases "find_fetch P i")
  case None
  then show ?thesis by (simp add: outcome_def agrees_def recordFetch_def)
next
  case (Some op)
  let ?h = "h @ [(pm_name p, pm_value p, k, c)]"
  let ?P = "arm_fetch ((update_fetch i (\<lambda>o'. record_value o' p k c) P)\<lparr>px_timers := cancel_timer (fo_cancelTimer op) (px_timers P)\<rparr>) i"
  have op: "fo_target op = t" "records h op" "fo_id op = i" using assms Some find_fetchD [OF Some] by (simp_all add: agrees_def)
  obtain f where f: "find_fetch ?P i = Some (fo_cancelTimer_update f (record_value op p k c))"
    by (simp add: find_arm_fetch find_update_fetch Some)
  have "px_timers (update_fetch i (\<lambda>o'. record_value o' p k c) P) = px_timers P" by (simp add: update_fetch_def)
  then have "recordFetch P i p k c =
      (if is_complete (fo_cancelTimer_update f (record_value op p k c))
       then (detach_fetch (fo_cancelTimer_update f (record_value op p k c)) ?P,
         reportProgress (record_value op p k c) @ [ResolveParams i (buildResult (fo_cancelTimer_update f (record_value op p k c)))])
       else (?P, reportProgress (record_value op p k c)))"
    using f by (simp add: recordFetch_def Some Let_def)
  moreover have "records ?h (fo_cancelTimer_update f (record_value op p k c))" using records_value [OF op(2)] by simp
  ultimately show ?thesis using f op(1,3) by (auto simp: outcome_def agrees_def find_detach_fetch intro: result_ofI)
qed

lemma record_all_others:
  "i \<notin> set js \<Longrightarrow> find_fetch (fst (record_all P js p k c)) i = find_fetch P i \<and> resolved i (snd (record_all P js p k c)) = {}"
  by (induction js arbitrary: P) (simp_all add: Let_def split_beta recordFetch_others)

lemma record_all_own:
  "\<lbrakk>distinct js; i \<in> set js; agrees i t h P\<rbrakk> \<Longrightarrow> outcome i t (h @ [(pm_name p, pm_value p, k, c)]) (record_all P js p k c)"
proof (induction js arbitrary: P)
  case (Cons j js)
  show ?case
  proof (cases "i = j")
    case True
    obtain Q fs where Q: "recordFetch P j p k c = (Q, fs)" by fastforce
    have "i \<notin> set js" using Cons.prems(1) True by simp
    note rest = record_all_others [OF this, of Q p k c]
    have "outcome i t (h @ [(pm_name p, pm_value p, k, c)]) (Q, fs)" using recordFetch_own [OF Cons.prems(3), of p k c] True Q by simp
    then show ?thesis using Q rest by (simp add: outcome_def agrees_def split_beta)
  next
    case False
    obtain Q fs where Q: "recordFetch P j p k c = (Q, fs)" by fastforce
    have Q': "find_fetch Q i = find_fetch P i" "resolved i fs = {}" using recordFetch_others [OF False, of P p k c] Q by simp_all
    then have "agrees i t h Q" using Cons.prems(3) by (simp add: agrees_def)
    from Cons.IH [OF _ _ this] Cons.prems(1,2) False Q Q' show ?thesis by (simp add: outcome_def split_beta)
  qed
qed simp

section \<open>Every event\<close>

lemma find_mem: "distinct (map fo_id (px_fetches P)) \<Longrightarrow> op \<in> set (px_fetches P) \<Longrightarrow> find_fetch P (fo_id op) = Some op"
proof -
  have "distinct (map fo_id xs) \<Longrightarrow> op \<in> set xs \<Longrightarrow> find (\<lambda>x. fo_id x = fo_id op) xs = Some op" for xs
    by (induction xs) force+
  then show "distinct (map fo_id (px_fetches P)) \<Longrightarrow> op \<in> set (px_fetches P) \<Longrightarrow> find_fetch P (fo_id op) = Some op"
    by (simp add: find_fetch_def)
qed

lemma find_append_other: "\<not> Q y \<Longrightarrow> find Q (xs @ [y]) = find Q xs"
  by (induction xs) simp_all

lemma accept_outcome:
  assumes "distinct (map fo_id (px_fetches P))" "agrees i t h P" "find_fetch P i \<noteq> None"
  shows "outcome i t (if fromTarget msg t then h @ [(pm_name p, pm_value p, k, c)] else h) (accept_value P msg p k c)"
proof -
  let ?js = "map fo_id (matching_fetches P msg)"
  let ?P = "P\<lparr>px_cache := (px_cache P)(pm_name p \<mapsto> p)\<rparr>"
  obtain op where op: "find_fetch P i = Some op" "fo_target op = t" using assms(2,3) by (auto simp: agrees_def)
  have mem: "op \<in> set (px_fetches P)" "fo_id op = i" using find_fetchD [OF op(1)] by simp_all
  have "i \<in> set ?js \<longleftrightarrow> fromTarget msg t"
  proof
    assume "i \<in> set ?js"
    then obtain op' where "op' \<in> set (px_fetches P)" "fo_id op' = i" "fromTarget msg (fo_target op')" by (auto simp: matching_fetches_def)
    then show "fromTarget msg t" using find_mem [OF assms(1), of op'] op by simp
  next
    assume "fromTarget msg t"
    then show "i \<in> set ?js" using mem op(2) by (auto simp: matching_fetches_def)
  qed
  moreover have "distinct ?js" using assms(1) by (simp add: matching_fetches_def distinct_map_filter)
  moreover have "agrees i t h ?P" using assms(2) by (simp add: agrees_def)
  ultimately have all: "outcome i t (if fromTarget msg t then h @ [(pm_name p, pm_value p, k, c)] else h) (record_all ?P ?js p k c)"
    using record_all_own [of ?js i t h ?P p k c] record_all_others [of i ?js ?P p k c]
      outcome_same [of "fst (record_all ?P ?js p k c)" i ?P "snd (record_all ?P ?js p k c)" t h]
    by (cases "fromTarget msg t") simp_all
  obtain P1 fs where R: "record_all ?P ?js p k c = (P1, fs)" by fastforce
  have "find_fetch (fst (accept_value P msg p k c)) i = find_fetch P1 i \<and> resolved i (snd (accept_value P msg p k c)) = resolved i fs"
    by (cases "pending_set P msg (pm_name p)") (simp_all add: accept_value_def Let_def R)
  then show ?thesis using all unfolding R by (simp add: outcome_def agrees_def)
qed

lemma value_outcome:
  assumes "distinct (map fo_id (px_fetches P))" "agrees i t h P"
  shows "outcome i t (h @ told t (ParamValueIn msg cur)) (onParamValue P msg cur)"
proof (cases "find_fetch P i")
  case None
  have "find_fetch (fst (accept_value P msg p k c)) i = None \<and> resolved i (snd (accept_value P msg p k c)) = {}" for p k c
  proof -
    have "i \<notin> set (map fo_id (matching_fetches P msg))"
      using None by (auto simp: matching_fetches_def find_fetch_def find_None_iff)
    from record_all_others [OF this, of "P\<lparr>px_cache := (px_cache P)(pm_name p \<mapsto> p)\<rparr>" p k c] None show ?thesis
      by (simp add: accept_value_def Let_def split_beta split: option.split)
  qed
  then show ?thesis using None by (simp add: onParamValue_def outcome_def agrees_def Let_def split: option.split)
next
  case (Some op)
  then have "fo_target op = t" "op \<in> set (px_fetches P)" using assms(2) find_fetchD by (auto simp: agrees_def)
  then have "matching_fetches P msg \<noteq> []" if "fromTarget msg t" using that by (auto simp: matching_fetches_def filter_empty_conv)
  moreover have "outcome i t h (P, [])" using assms(2) by (simp add: outcome_def)
  ultimately show ?thesis
    using accept_outcome [OF assms, of msg "\<lparr>pm_name = _, pm_value = _, pm_type = _\<rparr>"] Some
    by (auto simp: onParamValue_def told_def Let_def split: option.split)
qed

lemma quiet_outcome:
  assumes "agrees i t h P"
  shows "outcome i t h (onFetchQuiet P j)"
proof (cases "find_fetch P j")
  case None
  then show ?thesis using assms by (simp add: onFetchQuiet_def outcome_def)
next
  case (Some op)
  note own = find_fetchD [OF Some]
  show ?thesis
  proof (cases "i = j")
    case True
    then have "fo_target op = t" "records h op" using assms Some by (simp_all add: agrees_def)
    then show ?thesis using own True
      by (simp add: onFetchQuiet_def Some outcome_def agrees_def find_detach_fetch find_arm_fetch find_update_fetch result_ofI)
  next
    case False
    then show ?thesis using assms own
      by (simp add: onFetchQuiet_def Some outcome_def agrees_def find_detach_fetch find_arm_fetch find_update_fetch)
  qed
qed

lemma step_outcome:
  assumes "param_ok None P" "i < px_nextId P" "agrees i t h P" "px_disposed P \<longrightarrow> find_fetch P i = None"
  shows "outcome i t (h @ told t e) (param_step P e)"
proof (cases e)
  case (FetchAll prog signal target)
  let ?R = "fetchAll (P\<lparr>px_nextId := px_nextId P + 1\<rparr>) (px_nextId P) prog signal target"
  have new: "find_fetch (Q\<lparr>px_fetches := px_fetches P @ [op]\<rparr>) i = find_fetch P i" if "fo_id op \<noteq> i" for Q and op :: fetch_op
    using that by (simp add: find_fetch_def find_append_other)
  have "find_fetch (fst ?R) i = find_fetch P i \<and> resolved i (snd ?R) = {}"
    using assms(2) by (simp add: fetchAll_def Let_def find_arm_fetch new split: option.split)
  then show ?thesis using assms(3) FetchAll by (simp add: param_step_def told_def outcome_def agrees_def)
next
  case (SetParam name v target sent)
  let ?R = "set_param (P\<lparr>px_nextId := px_nextId P + 1\<rparr>) (px_nextId P) name v target sent"
  have "find_fetch (fst ?R) i = find_fetch P i \<and> resolved i (snd ?R) = {}"
    by (simp add: set_param_def sendParamSet_def Let_def split_beta split: option.split)
  then show ?thesis using assms(3) SetParam by (simp add: param_step_def told_def outcome_def agrees_def)
next
  case (ParamValueIn msg cur)
  have "distinct (map fo_id (px_fetches P))" using assms(1) by (simp add: param_ok_def param_open_def)
  from value_outcome [OF this assms(3), of msg cur] ParamValueIn assms(4) show ?thesis
    by (auto simp: param_step_def outcome_def agrees_def)
next
  case (ParamFire tm sent)
  have set_tick: "outcome i t h (onSetTick P j sent)" if "agrees i t h P" for P j
    using that by (simp add: onSetTick_def sendParamSet_def outcome_def agrees_def Let_def split_beta split: option.split)
  have "agrees i t h (P\<lparr>px_timers := T\<rparr>)" for T using assms(3) by (simp add: agrees_def)
  then show ?thesis using ParamFire assms(3) quiet_outcome set_tick
    by (simp add: param_step_def told_def outcome_def [of i t h "(P, [])"] split: option.split param_timer.split)
next
  case (SetSendFailed name)
  then show ?thesis using assms(3) by (simp add: param_step_def told_def outcome_def agrees_def)
next
  case (ParamAbort s)
  then show ?thesis
    using assms(3) find_reject [of P "map fo_id (filter (\<lambda>op. fo_signal op = Some s) (px_fetches P))" ParamAborted i]
    by (auto simp: param_step_def told_def outcome_def agrees_def)
next
  case ParamDispose
  then show ?thesis using assms(3) find_reject [of "P\<lparr>px_disposed := True\<rparr>" "map fo_id (px_fetches P)" ParamDisposed i]
    by (auto simp: param_step_def told_def outcome_def agrees_def param_dispose_def Let_def split_beta)
qed (use assms(3) in \<open>simp_all add: param_step_def told_def outcome_def agrees_def\<close>)

text \<open>A fetch that is settled stays so, and a disposed client has none.\<close>

lemma disposed_frame [simp]:
  "px_disposed (detach_fetch op P) = px_disposed P" "px_disposed (arm_fetch P j) = px_disposed P"
  "px_disposed (update_fetch j f P) = px_disposed P" "px_disposed (detach_set so P) = px_disposed P"
  "px_disposed (arm_set P j) = px_disposed P" "px_disposed (update_set j g P) = px_disposed P"
  "px_disposed (fst (emit_failed P n)) = px_disposed P" "px_disposed (fst (sendParamSet P so b)) = px_disposed P"
  by (simp_all add: detach_fetch_def arm_fetch_def update_fetch_def detach_set_def arm_set_def update_set_def emit_failed_def
      sendParamSet_def set_timer_def split: option.split)

lemma disposed_record [simp]: "px_disposed (fst (recordFetch P j p k c)) = px_disposed P"
  by (simp add: recordFetch_def Let_def split: option.split)

lemma disposed_all [simp]:
  "px_disposed (fst (record_all P js p k c)) = px_disposed P" "px_disposed (fst (reject_fetches P js r)) = px_disposed P"
  by (induction js arbitrary: P) (simp_all add: Let_def split_beta split: option.split)

lemma disposed_step: "e \<noteq> ParamDispose \<Longrightarrow> px_disposed (fst (param_step P e)) = px_disposed P"
  by (cases e)
    (simp_all add: param_step_def fetchAll_def set_param_def onParamValue_def accept_value_def onFetchQuiet_def onSetTick_def
      Let_def split_beta split: option.split param_timer.split)

lemma gone_stays:
  assumes "param_ok None P" "i < px_nextId P" "find_fetch P i = None"
  shows "find_fetch (fst (param_step P e)) i = None"
proof (rule ccontr)
  assume "find_fetch (fst (param_step P e)) i \<noteq> None"
  then obtain op where op: "find_fetch (fst (param_step P e)) i = Some op" by blast
  have "agrees i t (told t e) (fst (param_step P e))" for t
    using step_outcome [of P i t "[]" e] assms by (simp add: outcome_def agrees_def)
  then have "fo_target op = t" for t using op unfolding agrees_def by blast
  from this [of "\<lparr>tg_sysid = 0, tg_compid = 0\<rparr>"] this [of "\<lparr>tg_sysid = 1, tg_compid = 0\<rparr>"] show False by simp
qed

lemma reject_gone: "i \<in> set js \<Longrightarrow> find_fetch (fst (reject_fetches P js r)) i = None"
proof (induction js arbitrary: P)
  case (Cons j js)
  show ?case
  proof (cases "i \<in> set js")
    case True
    then show ?thesis using Cons.IH by (simp add: Let_def split_beta split: option.split)
  next
    case False
    then have j: "j = i" using Cons.prems by simp
    show ?thesis
    proof (cases "find_fetch P i")
      case None
      then show ?thesis using find_reject [of P js r i] j by simp
    next
      case (Some op)
      then show ?thesis using find_reject [of "detach_fetch op P" js r i] find_fetchD [OF Some] j
        by (simp add: Let_def split_beta find_detach_fetch)
    qed
  qed
qed simp

lemma closed_step:
  assumes "param_ok None P" "i < px_nextId P" "px_disposed P \<longrightarrow> find_fetch P i = None"
  shows "px_disposed (fst (param_step P e)) \<longrightarrow> find_fetch (fst (param_step P e)) i = None"
proof (cases "px_disposed P \<or> e \<noteq> ParamDispose")
  case True
  then show ?thesis using gone_stays [OF assms(1,2), of e] assms(3) disposed_step [of e P] by auto
next
  case False
  let ?R = "fst (reject_fetches (P\<lparr>px_disposed := True\<rparr>) (map fo_id (px_fetches P)) ParamDisposed)"
  have "find_fetch ?R i = None"
  proof (cases "find_fetch P i")
    case None
    then show ?thesis using find_reject [of "P\<lparr>px_disposed := True\<rparr>" "map fo_id (px_fetches P)" ParamDisposed i] by simp
  next
    case (Some op)
    then have "i \<in> set (map fo_id (px_fetches P))" using find_fetchD [OF Some] by auto
    then show ?thesis by (rule reject_gone)
  qed
  then show ?thesis using False by (simp add: param_step_def param_dispose_def Let_def split_beta)
qed

lemma run_outcome:
  "\<lbrakk>param_ok None P; i < px_nextId P; agrees i t h P; px_disposed P \<longrightarrow> find_fetch P i = None\<rbrakk> \<Longrightarrow>
   agrees i t (h @ concat (map (told t) es)) (fst (run_steps param_step P es)) \<and> i < px_nextId (fst (run_steps param_step P es)) \<and>
   (px_disposed (fst (run_steps param_step P es)) \<longrightarrow> find_fetch (fst (run_steps param_step P es)) i = None)"
proof (induction es arbitrary: P h)
  case (Cons e es)
  have "i < px_nextId (fst (param_step P e))" using par.next_step [OF Cons.prems(1), of e] Cons.prems(2) by simp
  moreover have "agrees i t (h @ told t e) (fst (param_step P e))" using step_outcome [OF Cons.prems] by (simp add: outcome_def)
  moreover have "px_disposed (fst (param_step P e)) \<longrightarrow> find_fetch (fst (param_step P e)) i = None"
    using Cons.prems by (intro closed_step)
  ultimately show ?case using Cons.IH [OF par.inv_step [OF Cons.prems(1), of e], of "h @ told t e"] by (simp add: split_beta Let_def)
qed simp

text \<open>The call itself starts an empty record.\<close>

lemma fetch_starts:
  assumes "param_ok None P" "e = FetchAll prog signal (Some t)"
  shows "agrees (px_nextId P) t [] (fst (param_step P e))" "px_nextId P < px_nextId (fst (param_step P e))"
    "px_disposed (fst (param_step P e)) \<longrightarrow> find_fetch (fst (param_step P e)) (px_nextId P) = None"
proof -
  have "set (param_open P) \<subseteq> {0..<px_nextId P}" using assms(1) by (auto simp: param_ok_def)
  then have fresh: "px_nextId P \<notin> fo_id ` set (px_fetches P)" by (auto simp: param_open_def)
  then have none: "find_fetch P (px_nextId P) = None" by (force simp: find_fetch_def find_None_iff)
  have "find Q xs = None \<Longrightarrow> Q y \<Longrightarrow> find Q (xs @ [y]) = Some y" for Q and xs and y :: fetch_op
    by (induction xs) (auto split: if_splits)
  then have new: "find_fetch (Q\<lparr>px_fetches := px_fetches P @ [op]\<rparr>) (px_nextId P) = Some op" if "fo_id op = px_nextId P"
    for Q and op :: fetch_op
    using that none by (simp add: find_fetch_def)
  show "agrees (px_nextId P) t [] (fst (param_step P e))"
    using none by (simp add: assms(2) param_step_def fetchAll_def Let_def agrees_def find_arm_fetch new records_def split: option.split)
  show "px_nextId P < px_nextId (fst (param_step P e))"
    by (simp add: assms(2) param_step_def fetchAll_def Let_def arm_fetch_def set_timer_def update_fetch_def split: option.split)
  show "px_disposed (fst (param_step P e)) \<longrightarrow> find_fetch (fst (param_step P e)) (px_nextId P) = None"
    using none by (simp add: assms(2) param_step_def fetchAll_def Let_def split: option.split)
qed

section \<open>The result of a complete record\<close>

lemma foldl_extras:
  "\<exists>zs. foldl (\<lambda>out (_, p). if pm_name p \<in> pm_name ` set out then out else out @ [p]) out xs = out @ zs \<and>
     set zs \<subseteq> snd ` set xs \<and> pm_name ` set zs \<inter> pm_name ` set out = {}"
proof (induction xs arbitrary: out)
  case (Cons x xs)
  obtain k p where x: "x = (k, p)" by fastforce
  show ?case
  proof (cases "pm_name p \<in> pm_name ` set out")
    case True
    obtain zs where "foldl (\<lambda>out (_, p). if pm_name p \<in> pm_name ` set out then out else out @ [p]) out xs = out @ zs"
      "set zs \<subseteq> snd ` set xs" "pm_name ` set zs \<inter> pm_name ` set out = {}" using Cons.IH [of out] by blast
    then show ?thesis using True x by (intro exI [of _ zs]) auto
  next
    case False
    obtain zs where "foldl (\<lambda>out (_, p). if pm_name p \<in> pm_name ` set out then out else out @ [p]) (out @ [p]) xs = (out @ [p]) @ zs"
      "set zs \<subseteq> snd ` set xs" "pm_name ` set zs \<inter> pm_name ` set (out @ [p]) = {}" using Cons.IH [of "out @ [p]"] by blast
    then show ?thesis using False x by (intro exI [of _ "p # zs"]) auto
  qed
qed simp

lemma complete_result:
  assumes "records h op" "is_complete op"
  shows "\<exists>c ks. announced h = Some c \<and> sorted ks \<and> distinct ks \<and> set ks = places h \<and> js_le c (js_nat (length ks)) \<and>
    map seen (take (length ks) (buildResult op)) = map (\<lambda>k. the (latest k h)) ks \<and>
    seen ` set (drop (length ks) (buildResult op)) \<subseteq> spare h \<and>
    pm_name ` set (take (length ks) (buildResult op)) \<inter> pm_name ` set (drop (length ks) (buildResult op)) = {}"
proof -
  define ks where "ks = sort (map fst (fo_received op))"
  define out where "out = map (\<lambda>k. the (map_of (fo_received op) k)) ks"
  note h = assms(1) [unfolded records_def]
  have ks: "sorted ks" "distinct ks" "set ks = places h" "length ks = length (fo_received op)" using h by (simp_all add: ks_def)
  obtain c where c: "announced h = Some c" "js_le c (js_nat (length ks))"
    using assms(2) h ks(4) by (auto simp: is_complete_def split: option.splits)
  obtain zs where zs: "buildResult op = out @ zs" "set zs \<subseteq> snd ` set (fo_extras op)" "pm_name ` set zs \<inter> pm_name ` set out = {}"
    using foldl_extras [of out "fo_extras op"] unfolding buildResult_def Let_def out_def ks_def by blast
  have "seen (the (map_of (fo_received op) k)) = the (latest k h)" if "k \<in> set ks" for k
  proof -
    have "map_of (fo_received op) k \<noteq> None" using that by (simp add: ks_def map_of_eq_None_iff)
    then show ?thesis using h [THEN conjunct2, THEN conjunct2, THEN conjunct1, rule_format, of k] by (metis option.collapse option.map_sel)
  qed
  then have "map seen out = map (\<lambda>k. the (latest k h)) ks" by (simp add: out_def)
  moreover have "seen ` snd ` set (fo_extras op) \<subseteq> spare h" using assms(1) by (simp add: records_def)
  then have "seen ` set zs \<subseteq> spare h" using image_mono [OF zs(2), of seen] by (rule order_trans [rotated])
  moreover have "take (length ks) (buildResult op) = out" "drop (length ks) (buildResult op) = zs" using zs(1) by (simp_all add: out_def)
  moreover have "pm_name ` set out \<inter> pm_name ` set zs = {}" using zs(3) by blast
  ultimately show ?thesis using c ks by (intro exI [of _ c] exI [of _ ks] conjI) simp_all
qed

text \<open>Indices that are all below an announced number are all there.\<close>

lemma all_indices:
  assumes "sorted ks" "distinct ks" "js_le (js_nat n) (js_nat (length ks))" "set ks \<subseteq> js_nat ` {0..<n}"
  shows "ks = map js_nat [0..<n]"
proof -
  have inj: "inj_on js_nat {0..<n}" by (rule inj_onI) (simp add: js_nat_def)
  then have card: "card (js_nat ` {0..<n}) = n" by (simp add: card_image)
  have "n \<le> length ks" using assms(3) by simp
  then have K: "set ks = js_nat ` {0..<n}" using assms(2,4) card distinct_card [of ks] by (intro card_seteq) auto
  have "sorted (map js_nat [0..<n])" by (simp add: sorted_wrt_map sorted_wrt_iff_nth_less js_nat_order)
  moreover have "distinct (map js_nat [0..<n])" using inj by (simp add: distinct_map)
  ultimately show ?thesis using K assms(1,2) by (intro sorted_distinct_set_unique) simp_all
qed

end
