(* ===== verification/Param_Properties.thy ===== *)
theory Param_Properties
  imports Param_History
begin

text \<open>
  The properties of the parameter client: its promises and timers over every run, the bounds of fetching
  and writing, the indices it re-requests, what a completed fetch contains and what confirms a write.
\<close>

section \<open>Fetches left alone\<close>

definition fire_fetch :: "nat \<Rightarrow> param_client \<Rightarrow> param_result" where
  "fire_fetch i P =
     (case find_fetch P i of
        Some op \<Rightarrow> param_step P (ParamFire (case fo_cancelTimer op of Some t \<Rightarrow> t | None \<Rightarrow> 0) True)
      | None \<Rightarrow> param_step P (ParamFire (tm_next (px_timers P)) True))"

definition fetch_live :: "nat \<Rightarrow> param_client \<Rightarrow> bool" where
  "fetch_live i P = (find_fetch P i \<noteq> None)"

definition fetch_budget :: "nat \<Rightarrow> param_client \<Rightarrow> nat" where
  "fetch_budget i P =
     (case find_fetch P i of None \<Rightarrow> 0 | Some op \<Rightarrow> px_fetchMaxStallRounds P + 1 - fo_stallRounds (stall_step op))"

lemma fetch_timer:
  assumes P: "param_ok None P" and op: "find_fetch P i = Some op"
  obtains t where "fo_cancelTimer op = Some t" "timer_handler t (px_timers P) = Some (FetchQuiet i)"
proof -
  note m = find_fetchD [OF op]
  have A: "armed None (param_slots P) (px_timers P)" using P by (simp add: param_ok_def)
  have "(FetchQuiet i, fo_cancelTimer op) \<in> set (param_slots P)" using m by (auto simp: param_slots_def)
  from armed_slot [OF A this] show thesis using that by auto
qed

lemma fire_fetch_step:
  assumes P: "param_ok None P" and op: "find_fetch P i = Some op"
  shows "\<exists>T. fire_fetch i P = onFetchQuiet (P\<lparr>px_timers := T\<rparr>) i"
proof -
  obtain t where "fo_cancelTimer op = Some t" "timer_handler t (px_timers P) = Some (FetchQuiet i)"
    using fetch_timer [OF P op] .
  then show ?thesis by (auto simp: fire_fetch_def op param_step_def)
qed

lemma max_rounds_frame [simp]:
  "px_fetchMaxStallRounds (arm_fetch P i) = px_fetchMaxStallRounds P"
  "px_fetchMaxStallRounds (update_fetch i f P) = px_fetchMaxStallRounds P"
  by (simp_all add: arm_fetch_def update_fetch_def set_timer_def)

lemma stall_again: "fo_stallRounds (stall_step (fo_cancelTimer_update f (stall_step op))) = Suc (fo_stallRounds (stall_step op))"
  by (simp add: stall_step_def Let_def)

interpretation fetch: patience "fire_fetch i" "fetch_live i" "param_ok None" "fetch_budget i" for i
proof
  fix P assume P: "param_ok None P"
  show "param_ok None (fst (fire_fetch i P))"
    using par.inv_step [OF P] by (simp add: fire_fetch_def split: option.split)
  assume "fetch_live i P" and live: "fetch_live i (fst (fire_fetch i P))"
  then obtain op where op: "find_fetch P i = Some op" by (auto simp: fetch_live_def)
  obtain T where T: "fire_fetch i P = onFetchQuiet (P\<lparr>px_timers := T\<rparr>) i" using fire_fetch_step [OF P op] by blast
  have id: "fo_id op = i" using find_fetchD [OF op] by simp
  have go: "\<not> is_complete op" "\<not> px_fetchMaxStallRounds P < fo_stallRounds (stall_step op)"
    using live by (auto simp: T fetch_live_def onFetchQuiet_def op find_detach_fetch id split: if_splits)
  then have "fetch_budget i (fst (fire_fetch i P)) = px_fetchMaxStallRounds P - fo_stallRounds (stall_step op)"
    by (simp add: T onFetchQuiet_def op fetch_budget_def find_arm_fetch find_update_fetch stall_again)
  with go(2) show "fetch_budget i (fst (fire_fetch i P)) < fetch_budget i P"
    by (simp add: fetch_budget_def op)
qed

lemma fetch_idle_run: "\<exists>es. idle (fire_fetch i) (fetch_live i) n P = run_steps param_step P es"
  by (rule idle_run) (auto simp: fire_fetch_def split: option.split)

section \<open>Writes left alone\<close>

definition fire_set :: "nat \<Rightarrow> bool \<Rightarrow> param_client \<Rightarrow> param_result" where
  "fire_set i sent P =
     (case find_set P i of
        Some op \<Rightarrow> param_step P (ParamFire (case sv_cancelTimer op of Some t \<Rightarrow> t | None \<Rightarrow> 0) sent)
      | None \<Rightarrow> param_step P (ParamFire (tm_next (px_timers P)) sent))"

definition set_live :: "nat \<Rightarrow> param_client \<Rightarrow> bool" where
  "set_live i P = (find_set P i \<noteq> None)"

definition set_budget :: "nat \<Rightarrow> param_client \<Rightarrow> nat" where
  "set_budget i P = (case find_set P i of None \<Rightarrow> 0 | Some op \<Rightarrow> px_setMaxAttempts P - sv_attempts op)"

lemma fire_set_step:
  assumes P: "param_ok None P" and op: "find_set P i = Some op"
  shows "\<exists>T. fire_set i sent P = onSetTick (P\<lparr>px_timers := T\<rparr>) i sent"
proof -
  note m = find_setD [OF op]
  have A: "armed None (param_slots P) (px_timers P)" using P by (simp add: param_ok_def)
  have "(SetTick i, sv_cancelTimer op) \<in> set (param_slots P)" using m by (auto simp: param_slots_def)
  then obtain t where "sv_cancelTimer op = Some t" "timer_handler t (px_timers P) = Some (SetTick i)"
    using armed_slot [OF A] by auto
  then show ?thesis by (auto simp: fire_set_def op param_step_def)
qed

lemma find_set_timers [simp]: "find_set (P\<lparr>px_timers := T\<rparr>) i = find_set P i"
  by (simp add: find_set_def)

lemma find_detach_set: "find_set (detach_set op P) i = (if i = sv_id op then None else find_set P i)"
  using find_remove [of sv_id i "sv_id op" "px_sets P"] by (simp add: find_set_def detach_set_def)

lemma set_attempts_frame [simp]:
  "px_setMaxAttempts (update_set i f P) = px_setMaxAttempts P"
  "px_setMaxAttempts (arm_set P i) = px_setMaxAttempts P"
  "px_setMaxAttempts (fst (emit_failed P n)) = px_setMaxAttempts P"
  by (simp_all add: update_set_def arm_set_def set_timer_def emit_failed_def detach_set_def split: option.split)

lemma set_fetches_frame [simp]:
  "px_fetches (update_set i f P) = px_fetches P" "px_fetches (arm_set P i) = px_fetches P"
  "px_fetches (detach_set so P) = px_fetches P" "px_fetches (fst (sendParamSet P so b)) = px_fetches P"
  by (simp_all add: update_set_def arm_set_def set_timer_def emit_failed_def detach_set_def sendParamSet_def
      split: option.split)

lemma emit_failed_find:
  "find_set (fst (emit_failed P n)) i = None \<or> find_set (fst (emit_failed P n)) i = find_set P i"
  by (auto simp: emit_failed_def find_detach_set split: option.split)

lemma find_arm_set:
  "find_set (arm_set P i) i = map_option (sv_cancelTimer_update (\<lambda>_. Some (tm_next (px_timers P)))) (find_set P i)"
proof (cases "find_set P i")
  case (Some op)
  then have "find_set (P\<lparr>px_timers := T\<rparr>) i = Some op" for T by (simp add: find_set_def)
  with Some show ?thesis by (simp add: arm_set_def set_timer_def find_update_set)
qed (simp add: arm_set_def)

interpretation set_op: patience "fire_set i sent" "set_live i" "param_ok None" "set_budget i" for i sent
proof
  fix P assume P: "param_ok None P"
  show "param_ok None (fst (fire_set i sent P))"
    using par.inv_step [OF P] by (simp add: fire_set_def split: option.split)
  assume "set_live i P" and live: "set_live i (fst (fire_set i sent P))"
  then obtain op where op: "find_set P i = Some op" by (auto simp: set_live_def)
  obtain T where T: "fire_set i sent P = onSetTick (P\<lparr>px_timers := T\<rparr>) i sent" using fire_set_step [OF P op] by blast
  have id: "sv_id op = i" using find_setD [OF op] by simp
  let ?U = "update_set i (sv_attempts_update Suc) (P\<lparr>px_timers := T\<rparr>)"
  let ?R = "fst (sendParamSet ?U op sent)"
  have go: "\<not> px_setMaxAttempts P \<le> sv_attempts op"
    using live by (auto simp: T set_live_def onSetTick_def op find_detach_set id split: if_splits)
  then have step: "fst (fire_set i sent P) = arm_set ?R i"
    by (simp add: T onSetTick_def op Let_def split_beta)
  have U: "find_set ?U i = Some (sv_attempts_update Suc op)" by (simp add: find_update_set op)
  have "find_set ?R i = None \<or> find_set ?R i = find_set ?U i"
    using emit_failed_find [of ?U "sv_name op" i] by (simp add: sendParamSet_def)
  moreover have "find_set ?R i \<noteq> None" using live by (auto simp: step set_live_def find_arm_set)
  ultimately have "find_set ?R i = Some (sv_attempts_update Suc op)" by (simp add: U)
  moreover have "px_setMaxAttempts ?R = px_setMaxAttempts P" by (simp add: sendParamSet_def)
  ultimately have "set_budget i (fst (fire_set i sent P)) = px_setMaxAttempts P - Suc (sv_attempts op)"
    by (simp add: step set_budget_def find_arm_set)
  with go show "set_budget i (fst (fire_set i sent P)) < set_budget i P"
    by (simp add: set_budget_def op)
qed

lemma set_idle_run: "\<exists>es. idle (fire_set i sent) (set_live i) n P = run_steps param_step P es"
  by (rule idle_run) (auto simp: fire_set_def split: option.split)

section \<open>What resolves a write\<close>

definition resolves_set :: "nat \<Rightarrow> param_effect list \<Rightarrow> bool" where
  "resolves_set i fs = (ResolveSet i \<in> set fs)"

lemma resolves_set_simps [simp]:
  "\<not> resolves_set i []" "resolves_set i (fs @ gs) = (resolves_set i fs \<or> resolves_set i gs)"
  "resolves_set i (ResolveSet j # fs) = (i = j \<or> resolves_set i fs)"
  "resolves_set i (RejectParam k r # fs) = resolves_set i fs"
  "resolves_set i (ResolveParams k ps # fs) = resolves_set i fs"
  "\<not> resolves_set i (emitChange P p)" "\<not> resolves_set i (reportProgress op)"
  "\<not> resolves_set i (gap_requests op)" "\<not> resolves_set i (set_message so)" "\<not> resolves_set i (sendRequestList t)"
  by (auto simp: resolves_set_def emitChange_def reportProgress_def gap_requests_def sendRequestList_def
      sendRequestRead_def set_message_def Let_def split: option.splits if_splits)

lemma resolves_set_none [simp]:
  "\<not> resolves_set i (snd (emit_failed P n))" "\<not> resolves_set i (snd (recordFetch P j p k c))"
  "\<not> resolves_set i (snd (onFetchQuiet P j))"
  by (simp_all add: emit_failed_def recordFetch_def onFetchQuiet_def Let_def split: option.split)

lemma resolves_set_all [simp]:
  "\<not> resolves_set i (snd (record_all P is p k c))"
  "\<not> resolves_set i (snd (reject_fetches P is r))" "\<not> resolves_set i (snd (reject_sets P is r))"
  by (induction "is" arbitrary: P) (simp_all add: Let_def split_beta split: option.split)

lemma resolves_set_accept:
  "resolves_set i (snd (accept_value P msg p k c)) \<Longrightarrow>
   \<exists>op. pending_set P msg (pm_name p) = Some op \<and> sv_id op = i \<and> valuesMatch P (sv_value op) (pm_value p)"
  by (auto simp: accept_value_def Let_def split_beta split: option.splits if_splits)

lemma resolves_set_step:
  assumes "resolves_set i (snd (param_step P e))"
  shows "\<exists>msg t op v. e = ParamValueIn msg t \<and> op \<in> set (px_sets P) \<and> sv_id op = i \<and>
    fromTarget msg (sv_target op) \<and> paramId (dm_fields msg) ''param_id'' = Some (sv_name op) \<and>
    numField (dm_fields msg) ''param_value'' = Some v \<and> valuesMatch P (sv_value op) v"
proof (cases e)
  case (ParamValueIn msg t)
  then have "resolves_set i (snd (onParamValue P msg t))"
    using assms by (simp add: param_step_def split: if_splits)
  then obtain name v ty where nv: "paramId (dm_fields msg) ''param_id'' = Some name"
      "numField (dm_fields msg) ''param_value'' = Some v"
    and acc: "resolves_set i (snd (accept_value P msg \<lparr>pm_name = name, pm_value = v, pm_type = ty\<rparr>
       (numField (dm_fields msg) ''param_index'') (numField (dm_fields msg) ''param_count'')))"
    by (fastforce simp: onParamValue_def Let_def split: option.splits if_splits)
  obtain op where "pending_set P msg name = Some op" "sv_id op = i" "valuesMatch P (sv_value op) v"
    using resolves_set_accept [OF acc] by auto
  moreover from this have "op \<in> set (px_sets P)" "sv_name op = name" "fromTarget msg (sv_target op)"
    using lookup_setD [of P name op] by (auto simp: pending_set_def split: option.splits if_splits)
  ultimately show ?thesis using ParamValueIn nv by blast
qed (use assms in \<open>simp_all add: param_step_def fetchAll_def set_param_def sendParamSet_def onSetTick_def Let_def
      param_dispose_def split_beta split: option.splits if_splits param_timer.splits\<close>)

section \<open>Properties\<close>

text \<open>The data of the witnesses: a client with the default bounds, and the vehicle it talks to.\<close>

definition plain_deps :: param_deps where
  "plain_deps = \<lparr>pd_fetchQuietMs = None, pd_fetchMaxStallRounds = None, pd_setResendMs = None,
     pd_setMaxAttempts = None, pd_confirmTolerance = Some (Num 0)\<rparr>"

definition autopilot :: target where
  "autopilot = \<lparr>tg_sysid = 1, tg_compid = 1\<rparr>"

text \<open>
  Every call of the parameter client settles at most once and is never lost: over any interleaving of
  calls, PARAM_VALUE messages, timers, failed sends, aborts, superseding writes and disposal, the promise
  of call number \<open>i\<close> has either been settled exactly once and is no longer open, or is open and has not
  been settled.
\<close>

theorem param_promises_settle_once:
  "count (mset (List.map_filter param_settles (snd (run_steps param_step (createParamClient deps) es)))) i
   + count (mset (param_open (fst (run_steps param_step (createParamClient deps) es)))) i
   = (if i < px_nextId (fst (run_steps param_step (createParamClient deps) es)) then 1 else 0)"
  by (rule par.settled_once) simp_all

text \<open>
  No fetch or write hangs: in every reachable state each open operation has an active timer of its
  own, whether or not sends fail.
\<close>

theorem param_operations_have_timers:
  assumes "P = fst (run_steps param_step (createParamClient deps) es)" "(h, c) \<in> set (param_slots P)"
  shows "\<exists>t. c = Some t \<and> timer_handler t (px_timers P) = Some h"
proof -
  have "param_ok None P" unfolding assms(1) by (rule par.run_inv) simp
  then have A: "armed None (param_slots P) (px_timers P)" by (simp add: param_ok_def)
  show ?thesis using armed_slot [OF A assms(2)] by auto
qed

theorem param_operations_have_timers_witness:
  "\<exists>t. Some 0 = Some t \<and>
     timer_handler t (px_timers (fst (run_steps param_step (createParamClient plain_deps) [FetchAll False None (Some autopilot)])))
     = Some (FetchQuiet 0)"
  by (rule param_operations_have_timers [OF refl])
    (simp add: param_step_def fetchAll_def createParamClient_def plain_deps_def arm_fetch_def set_timer_def no_timers_def
      update_fetch_def param_slots_def)

text \<open>
  C8. A fetch ends: if no further parameter arrives, then in any reachable state an open fetch is settled,
  resolved when it has all it was told of and rejected otherwise, after at most
  \<open>fetchMaxStallRounds + 2\<close> of its quiet windows.
\<close>

theorem silent_fetch_ends:
  assumes "P = fst (run_steps param_step (createParamClient deps) es)" "find_fetch P i = Some op"
    and "idle (fire_fetch i) (fetch_live i) (px_fetchMaxStallRounds P + 2) P = (P', fs)"
  shows "find_fetch P' i = None \<and> i \<in> set (List.map_filter param_settles fs)"
proof -
  have ok: "param_ok None P" unfolding assms(1) by (rule par.run_inv) simp
  have "fetch_budget i P < px_fetchMaxStallRounds P + 2" by (simp add: fetch_budget_def less_Suc_eq_le split: option.split)
  from fetch.ends [OF ok this] assms(3) have gone: "find_fetch P' i = None" by (simp add: fetch_live_def del: idle.simps)
  obtain es' where r: "run_steps param_step P es' = (P', fs)" using fetch_idle_run [of i _ P] assms(3) by metis
  have "param_ok None P'" using par.run_inv [OF ok, of es'] r by simp
  have mem: "op \<in> set (px_fetches P)" "fo_id op = i" using find_fetchD [OF assms(2)] by simp_all
  then have "i \<in> set (param_open P)" by (auto simp: param_open_def)
  moreover have "i \<notin> set (param_open P')"
  proof -
    have "px_sets (fst (fire_fetch i s)) = px_sets s" if s: "param_ok None s" and live: "fetch_live i s" for s
    proof -
      obtain o' where o': "find_fetch s i = Some o'" using live by (auto simp: fetch_live_def)
      obtain T where "fire_fetch i s = onFetchQuiet (s\<lparr>px_timers := T\<rparr>) i"
        using fire_fetch_step [OF s o'] by blast
      then show ?thesis by (simp add: onFetchQuiet_def o')
    qed
    then have "px_sets P' = px_sets P"
      using fetch.keeps [where Q = "\<lambda>s. px_sets s = px_sets P", OF _ ok refl] assms(3) by (metis fst_conv)
    moreover have "i \<notin> sv_id ` set (px_sets P)" using ok mem by (auto simp: param_ok_def param_open_def)
    moreover have "i \<notin> fo_id ` set (px_fetches P')" using gone by (auto simp: find_fetch_def find_None_iff)
    ultimately show ?thesis by (simp add: param_open_def)
  qed
  ultimately show ?thesis using par.left_settled [OF ok, of i es'] gone r by simp
qed


text \<open>The state after one \<open>fetchAll\<close> of a fresh client, and its single operation.\<close>

definition one_fetch :: param_client where
  "one_fetch = fst (run_steps param_step (createParamClient plain_deps) [FetchAll False None (Some autopilot)])"

lemma one_fetch_op:
  "find_fetch one_fetch 0 = Some \<lparr>fo_id = 0, fo_target = autopilot, fo_received = [], fo_extras = [], fo_total = None,
     fo_lastCheckedCount = 0, fo_stallRounds = 0, fo_cancelTimer = Some 0, fo_signal = None, fo_onProgress = False\<rparr>"
  by (simp add: one_fetch_def param_step_def fetchAll_def createParamClient_def plain_deps_def find_arm_fetch no_timers_def)
    (simp add: find_fetch_def)

theorem silent_fetch_ends_witness:
  "find_fetch (fst (idle (fire_fetch 0) (fetch_live 0) (px_fetchMaxStallRounds one_fetch + 2) one_fetch)) 0 = None \<and>
   0 \<in> set (List.map_filter param_settles (snd (idle (fire_fetch 0) (fetch_live 0) (px_fetchMaxStallRounds one_fetch + 2) one_fetch)))"
  by (rule silent_fetch_ends [OF one_fetch_def one_fetch_op]) simp

text \<open>
  A write ends: if the vehicle does not echo it, then in any reachable state an open write is settled
  after at most \<open>setMaxAttempts + 1\<close> of its timers, whether its resends succeed or throw.
\<close>

theorem silent_set_ends:
  assumes "P = fst (run_steps param_step (createParamClient deps) es)" "find_set P i = Some op"
    and "idle (fire_set i sent) (set_live i) (px_setMaxAttempts P + 1) P = (P', fs)"
  shows "find_set P' i = None \<and> i \<in> set (List.map_filter param_settles fs)"
proof -
  have ok: "param_ok None P" unfolding assms(1) by (rule par.run_inv) simp
  have "set_budget i P < px_setMaxAttempts P + 1" by (simp add: set_budget_def less_Suc_eq_le split: option.split)
  from set_op.ends [OF ok this, where sent = sent] assms(3) have gone: "find_set P' i = None" by (simp add: set_live_def del: idle.simps)
  obtain es' where r: "run_steps param_step P es' = (P', fs)" using set_idle_run [of i sent _ P] assms(3) by metis
  have mem: "op \<in> set (px_sets P)" "sv_id op = i" using find_setD [OF assms(2)] by simp_all
  then have "i \<in> set (param_open P)" by (auto simp: param_open_def)
  moreover have "i \<notin> set (param_open P')"
  proof -
    have "px_fetches (fst (fire_set i sent s)) = px_fetches s" if s: "param_ok None s" and live: "set_live i s" for s
    proof -
      obtain o' where o': "find_set s i = Some o'" using live by (auto simp: set_live_def)
      obtain T where "fire_set i sent s = onSetTick (s\<lparr>px_timers := T\<rparr>) i sent"
        using fire_set_step [OF s o'] by blast
      then show ?thesis by (simp add: onSetTick_def o' Let_def split_beta)
    qed
    then have "px_fetches P' = px_fetches P"
      using set_op.keeps [where Q = "\<lambda>s. px_fetches s = px_fetches P", OF _ ok refl] assms(3) by (metis fst_conv)
    moreover have "i \<notin> fo_id ` set (px_fetches P)" using ok mem by (auto simp: param_ok_def param_open_def)
    moreover have "i \<notin> sv_id ` set (px_sets P')" using gone by (auto simp: find_set_def find_None_iff)
    ultimately show ?thesis by (simp add: param_open_def)
  qed
  ultimately show ?thesis using par.left_settled [OF ok, of i es'] gone r by simp
qed

definition one_set :: param_client where
  "one_set = fst (run_steps param_step (createParamClient plain_deps) [SetParam ''RTL_ALT'' (Num 0) (Some autopilot) True])"

lemma one_set_ops:
  "px_sets one_set = [\<lparr>sv_id = 0, sv_target = autopilot, sv_name = ''RTL_ALT'', sv_value = Num 0,
     sv_type = PARAM_TYPE_REAL32, sv_attempts = 1, sv_cancelTimer = Some 0\<rparr>]"
  by (simp add: one_set_def param_step_def set_param_def createParamClient_def plain_deps_def lookup_set_def sendParamSet_def
      arm_set_def find_set_def set_timer_def no_timers_def update_set_def)

lemma one_set_state: "px_disposed one_set = False" "px_fetches one_set = []" "px_confirmTolerance one_set = Num 0"
  by (simp_all add: one_set_def param_step_def set_param_def createParamClient_def plain_deps_def lookup_set_def
      sendParamSet_def arm_set_def find_set_def set_timer_def no_timers_def update_set_def)

theorem silent_set_ends_witness:
  "find_set (fst (idle (fire_set 0 True) (set_live 0) (px_setMaxAttempts one_set + 1) one_set)) 0 = None \<and>
   0 \<in> set (List.map_filter param_settles (snd (idle (fire_set 0 True) (set_live 0) (px_setMaxAttempts one_set + 1) one_set)))"
  by (rule silent_set_ends [OF one_set_def, where op = "hd (px_sets one_set)"])
    (simp_all add: one_set_ops find_set_def)

text \<open>
  C9. What \<open>fetchAll\<close> resolves with. Let \<open>h\<close> be the PARAM_VALUE messages that arrived from the vehicle the call was made for, from
  the call to the event that resolves it. The vehicle has announced a count, the first positive one is \<open>c\<close>, and at least \<open>c\<close>
  different indices have arrived; the list starts with one parameter for each of these indices, in increasing order, and each is
  the one told of last for its index, by name and value. What follows was told of without an index, under other names. If
  all indices are below the announced number then none of them is missing.
\<close>

theorem fetch_resolves_complete:
  assumes "P = fst (run_steps param_step (createParamClient deps) es0)"
    "run_steps param_step (fst (param_step P (FetchAll prog signal (Some t)))) es = (Q, fs)"
    "ResolveParams (px_nextId P) ps \<in> set (snd (param_step Q e))" "h = concat (map (told t) (es @ [e]))"
  shows "\<exists>c ks. announced h = Some c \<and> sorted ks \<and> distinct ks \<and> set ks = places h \<and> js_le c (js_nat (length ks)) \<and>
    map seen (take (length ks) ps) = map (\<lambda>k. the (latest k h)) ks \<and>
    seen ` set (drop (length ks) ps) \<subseteq> spare h \<and>
    pm_name ` set (take (length ks) ps) \<inter> pm_name ` set (drop (length ks) ps) = {} \<and>
    (\<forall>n. c = js_nat n \<and> set ks \<subseteq> js_nat ` {0..<n} \<longrightarrow> ks = map js_nat [0..<n])"
proof -
  let ?P = "fst (param_step P (FetchAll prog signal (Some t)))"
  have P: "param_ok None P" unfolding assms(1) by (rule par.run_inv) simp
  note start = fetch_starts [OF P refl, where prog = prog and signal = signal and t = t]
  have P': "param_ok None ?P" using P by (rule par.inv_step)
  have "agrees (px_nextId P) t ([] @ concat (map (told t) es)) Q \<and> px_nextId P < px_nextId Q \<and>
      (px_disposed Q \<longrightarrow> find_fetch Q (px_nextId P) = None)"
    using run_outcome [OF P' start(2,1,3), of es] assms(2) by simp
  moreover have "param_ok None Q" using par.run_inv [OF P', of es] assms(2) by simp
  ultimately have "outcome (px_nextId P) t h (param_step Q e)"
    using step_outcome [of Q "px_nextId P" t "concat (map (told t) es)" e] assms(4) by simp
  then have "result_of h ps" using assms(3) by (simp add: outcome_def resolved_def)
  then obtain op where op: "records h op" "is_complete op" "ps = buildResult op" by (auto simp: result_of_def)
  from complete_result [OF op(1,2)] show ?thesis unfolding op(3) using all_indices by metis
qed

definition value_message :: "string \<Rightarrow> nat \<Rightarrow> nat \<Rightarrow> decoded_message" where
  "value_message name index cnt =
     \<lparr>dm_sysid = 1, dm_compid = 1, dm_seq = 0, dm_msgId = 22, dm_name = ''PARAM_VALUE'',
      dm_fields = [''param_id'' \<mapsto> FStr name, ''param_value'' \<mapsto> FNum (Num 0), ''param_type'' \<mapsto> FNum PARAM_TYPE_REAL32,
        ''param_index'' \<mapsto> FNum (js_nat index), ''param_count'' \<mapsto> FNum (js_nat cnt)],
      dm_crcOk = True, dm_signed = False, dm_linkId = None, dm_rxTimeUs = 0, dm_raw = []\<rparr>"

lemma value_message_simps [simp]:
  "dm_sysid (value_message n k c) = 1" "dm_compid (value_message n k c) = 1"
  "numField (dm_fields (value_message n k c)) ''param_value'' = Some (Num 0)"
  "numField (dm_fields (value_message n k c)) ''param_type'' = Some PARAM_TYPE_REAL32"
  "numField (dm_fields (value_message n k c)) ''param_index'' = Some (js_nat k)"
  "numField (dm_fields (value_message n k c)) ''param_count'' = Some (js_nat c)"
  "paramId (dm_fields (value_message n k c)) ''param_id'' = Some (trimParamId n)"
  by (simp_all add: value_message_def numField_def paramId_def)

lemma one_fetch_state:
  "px_fetches one_fetch = [\<lparr>fo_id = 0, fo_target = autopilot, fo_received = [], fo_extras = [], fo_total = None,
     fo_lastCheckedCount = 0, fo_stallRounds = 0, fo_cancelTimer = Some 0, fo_signal = None, fo_onProgress = False\<rparr>]"
  "px_disposed one_fetch = False" "px_sets one_fetch = []"
  by (simp_all add: one_fetch_def param_step_def fetchAll_def createParamClient_def plain_deps_def arm_fetch_def
      set_timer_def no_timers_def update_fetch_def)

text \<open>The effects of the first answer to that fetch.\<close>

lemma one_fetch_answer:
  "snd (param_step one_fetch (ParamValueIn (value_message ''A'' 0 1) None))
   = [ResolveParams 0 [\<lparr>pm_name = ''A'', pm_value = Num 0, pm_type = PARAM_TYPE_REAL32\<rparr>]]"
  by (simp add: param_step_def onParamValue_def accept_value_def matching_fetches_def one_fetch_state fromTarget_def
      autopilot_def pending_set_def lookup_set_def trimParamId_def PARAM_ID_LEN_def char_code_def
      recordFetch_def find_fetch_def update_fetch_def arm_fetch_def set_timer_def record_value_def is_complete_def
      reportProgress_def buildResult_def detach_fetch_def PARAM_INDEX_NONE_def Let_def js_nat_def js_le_def map_key_def)

lemma one_fetch_told: "told autopilot (ParamValueIn (value_message ''A'' 0 1) None) = [(''A'', Num 0, Some (js_nat 0), Some (js_nat 1))]"
  by (simp add: told_def fromTarget_def autopilot_def trimParamId_def PARAM_ID_LEN_def char_code_def)

theorem fetch_resolves_complete_witness:
  "\<exists>c ks. announced [(''A'', Num 0, Some (js_nat 0), Some (js_nat 1))] = Some c \<and>
    set ks = places [(''A'', Num 0, Some (js_nat 0), Some (js_nat 1))] \<and>
    map seen (take (length ks) [\<lparr>pm_name = ''A'', pm_value = Num 0, pm_type = PARAM_TYPE_REAL32\<rparr>])
      = map (\<lambda>k. the (latest k [(''A'', Num 0, Some (js_nat 0), Some (js_nat 1))])) ks"
proof -
  have start: "fst (param_step (fst (run_steps param_step (createParamClient plain_deps) [])) (FetchAll False None (Some autopilot))) = one_fetch"
    by (simp add: one_fetch_def Let_def split_beta)
  have "ResolveParams (px_nextId (fst (run_steps param_step (createParamClient plain_deps) []))) [\<lparr>pm_name = ''A'', pm_value = Num 0, pm_type = PARAM_TYPE_REAL32\<rparr>]
      \<in> set (snd (param_step one_fetch (ParamValueIn (value_message ''A'' 0 1) None)))"
    unfolding one_fetch_answer by simp
  from fetch_resolves_complete [OF refl _ this refl, where es = "[]" and prog = False and signal = None and t = autopilot,
      unfolded start, OF run_steps.simps(1)] show ?thesis
    unfolding one_fetch_told append_Nil list.map concat.simps append_Nil2 by (elim exE conjE) (intro exI conjI)
qed

text \<open>
  A quiet window of an incomplete fetch asks again for exactly the indices still missing, each of them
  below the announced count and not above the largest index a PARAM_REQUEST_READ can carry.
\<close>

theorem quiet_window_requests_gaps:
  assumes "find_fetch P i = Some op" "fo_total op = Some (js_nat m)" "length (fo_received op) < m"
    and "fo_stallRounds (stall_step op) \<le> px_fetchMaxStallRounds P"
  shows "Emit ''PARAM_REQUEST_READ'' (target_fields (fo_target op) @ [(''param_id'', JStr ''''), (''param_index'', num k)])
      \<in> set (snd (onFetchQuiet P i))
    \<longleftrightarrow> k < m \<and> k \<le> 0x7fff \<and> js_nat k \<notin> fst ` set (fo_received op)"
proof -
  have "loop_count (js_nat m) = m" by (simp add: loop_count_def js_nat_def)
  moreover have "\<not> is_complete op" using assms(2,3) by (simp add: is_complete_def)
  ultimately show ?thesis
    using assms(1,2,4) by (auto simp: onFetchQuiet_def gap_requests_def sendRequestRead_def split: if_splits)
qed

text \<open>That fetch when the count is two and nothing has been received.\<close>

definition told_op :: fetch_op where
  "told_op = \<lparr>fo_id = 0, fo_target = autopilot, fo_received = [], fo_extras = [], fo_total = Some (js_nat 2),
     fo_lastCheckedCount = 0, fo_stallRounds = 0, fo_cancelTimer = Some 0, fo_signal = None, fo_onProgress = False\<rparr>"

definition told_two :: param_client where
  "told_two = update_fetch 0 (fo_total_update (\<lambda>_. Some (js_nat 2))) one_fetch"

lemma told_two_op: "find_fetch told_two 0 = Some told_op" "px_fetchMaxStallRounds told_two = 12"
  by (simp_all add: told_two_def find_update_fetch one_fetch_op told_op_def)
    (simp add: one_fetch_def param_step_def fetchAll_def createParamClient_def plain_deps_def)

theorem quiet_window_requests_gaps_witness:
  "Emit ''PARAM_REQUEST_READ'' (target_fields (fo_target told_op) @ [(''param_id'', JStr ''''), (''param_index'', num 1)])
      \<in> set (snd (onFetchQuiet told_two 0))
    \<longleftrightarrow> (1::nat) < 2 \<and> (1::nat) \<le> 0x7fff \<and> js_nat 1 \<notin> fst ` set (fo_received told_op)"
  by (rule quiet_window_requests_gaps [OF told_two_op(1)])
    (simp_all add: told_two_op(2) told_op_def stall_step_def)

text \<open>
  C10. A write is confirmed only by its own echo: when the promise of a write resolves, the event is a
  PARAM_VALUE from the system and component it was sent to, with its parameter name and a value within
  the tolerance of the one written.
\<close>

theorem set_confirmed_by_echo:
  assumes "ResolveSet i \<in> set (snd (param_step P e))"
  shows "\<exists>msg t op v. e = ParamValueIn msg t \<and> op \<in> set (px_sets P) \<and> sv_id op = i \<and>
    fromTarget msg (sv_target op) \<and> paramId (dm_fields msg) ''param_id'' = Some (sv_name op) \<and>
    numField (dm_fields msg) ''param_value'' = Some v \<and> valuesMatch P (sv_value op) v"
  using assms by (intro resolves_set_step) (simp add: resolves_set_def)

theorem set_confirmed_by_echo_witness:
  "\<exists>msg t op v. ParamValueIn (value_message ''RTL_ALT'' 0 1) None = ParamValueIn msg t \<and> op \<in> set (px_sets one_set) \<and>
    sv_id op = 0 \<and> fromTarget msg (sv_target op) \<and> paramId (dm_fields msg) ''param_id'' = Some (sv_name op) \<and>
    numField (dm_fields msg) ''param_value'' = Some v \<and> valuesMatch one_set (sv_value op) v"
  by (rule set_confirmed_by_echo)
    (simp add: param_step_def onParamValue_def accept_value_def matching_fetches_def one_set_ops one_set_state fromTarget_def
      autopilot_def pending_set_def lookup_set_def trimParamId_def PARAM_ID_LEN_def char_code_def valuesMatch_def
      js_abs_def js_max_def js_mul_def js_sub_def js_le_def js_is_nan_def emitChange_def)

end

