(* ===== verification/Op_Table.thy ===== *)
theory Op_Table
  imports Client_Base
begin

text \<open>
  The table of open operations that the transfer clients share: an operation has the number of its
  promise, the timer set last for it and a body of the client's own; a call may also just wait for the
  host's \<open>sendMessage\<close>. Opening, changing, re-arming and closing operations, with the account each
  keeps: the promises open before and after, the ones settled, and a timer for every operation.
\<close>

record 'b op =
  op_id :: nat
  op_cancelTimer :: "nat option"
  op_body :: 'b

record 'b table =
  tb_ops :: "'b op list"
  tb_timers :: "nat timers"
  tb_waiting :: "nat list"
  tb_next :: nat

definition empty_table :: "'b table" where
  "empty_table = \<lparr>tb_ops = [], tb_timers = no_timers, tb_waiting = [], tb_next = 0\<rparr>"

definition op_ids :: "'b table \<Rightarrow> nat list" where
  "op_ids T = map op_id (tb_ops T)"

definition table_open :: "'b table \<Rightarrow> nat list" where
  "table_open T = op_ids T @ tb_waiting T"

definition op_slots :: "'b table \<Rightarrow> nat slots" where
  "op_slots T = map (\<lambda>op. (op_id op, op_cancelTimer op)) (tb_ops T)"

definition table_ok :: "nat option \<Rightarrow> 'b table \<Rightarrow> bool" where
  "table_ok x T =
     (distinct (table_open T) \<and> (\<forall>i\<in>set (table_open T). i < tb_next T) \<and> armed x (op_slots T) (tb_timers T))"

section \<open>Operations\<close>

definition find_op :: "nat \<Rightarrow> 'b table \<Rightarrow> 'b op option" where
  "find_op i T = find (\<lambda>op. op_id op = i) (tb_ops T)"

definition body_of :: "nat \<Rightarrow> 'b table \<Rightarrow> 'b option" where
  "body_of i T = map_option op_body (find_op i T)"

definition update_body :: "nat \<Rightarrow> ('b \<Rightarrow> 'b) \<Rightarrow> 'b table \<Rightarrow> 'b table" where
  "update_body i f T = T\<lparr>tb_ops := map (\<lambda>op. if op_id op = i then op_body_update f op else op) (tb_ops T)\<rparr>"

text \<open>\<open>op.cancelTimer?.(); op.cancelTimer = clock.setTimeout (\<dots>)\<close>.\<close>

definition arm_op :: "nat \<Rightarrow> nat \<Rightarrow> 'b table \<Rightarrow> 'b table" where
  "arm_op i ms T =
     (case find_op i T of
        None \<Rightarrow> T
      | Some op \<Rightarrow>
          (case set_timer i ms (cancel_timer (op_cancelTimer op) (tb_timers T)) of (t, Ti) \<Rightarrow>
             T\<lparr>tb_timers := Ti,
               tb_ops := map (\<lambda>op. if op_id op = i then op_cancelTimer_update (\<lambda>_. Some t) op else op) (tb_ops T)\<rparr>))"

definition open_op :: "nat \<Rightarrow> 'b \<Rightarrow> nat \<Rightarrow> 'b table \<Rightarrow> 'b table" where
  "open_op i b ms T =
     (case set_timer i ms (tb_timers T) of (t, Ti) \<Rightarrow>
        T\<lparr>tb_timers := Ti, tb_ops := tb_ops T @ [\<lparr>op_id = i, op_cancelTimer = Some t, op_body = b\<rparr>]\<rparr>)"

definition close_op :: "nat \<Rightarrow> 'b table \<Rightarrow> 'b table" where
  "close_op i T =
     (case find_op i T of
        None \<Rightarrow> T
      | Some op \<Rightarrow>
          T\<lparr>tb_timers := cancel_timer (op_cancelTimer op) (tb_timers T),
            tb_ops := filter (\<lambda>op. op_id op \<noteq> i) (tb_ops T)\<rparr>)"

definition wait_op :: "nat \<Rightarrow> 'b table \<Rightarrow> 'b table" where
  "wait_op i T = T\<lparr>tb_waiting := tb_waiting T @ [i]\<rparr>"

definition waited :: "nat \<Rightarrow> 'b table \<Rightarrow> 'b table" where
  "waited i T = T\<lparr>tb_waiting := filter (\<lambda>j. j \<noteq> i) (tb_waiting T)\<rparr>"

definition fired :: "nat \<Rightarrow> 'b table \<Rightarrow> 'b table" where
  "fired t T = T\<lparr>tb_timers := cancel_timer (Some t) (tb_timers T)\<rparr>"

section \<open>Slots\<close>

lemma armed_drop:
  assumes A: "armed x S T" and h: "(h, c) \<in> set S"
  shows "armed (if x = Some h then None else x) (filter (\<lambda>(h', _). h' \<noteq> h) S) (cancel_timer c T)"
proof (cases "x = None \<or> x = Some h")
  case True
  then have "(if x = Some h then None else x) = None" by auto
  with armed_remove [OF A h True] show ?thesis by simp
next
  case False
  then obtain g where x: "x = Some g" "g \<noteq> h" by auto
  obtain k where k: "c = Some k" "timer_handler k T = Some h" using armed_slot [OF A h] x by auto
  have "armed (Some g) (filter (\<lambda>(h', _). h' \<noteq> h) S) (cancel_timer c T)"
  proof (rule armedI)
    show "timer_ok (cancel_timer c T)" "distinct (map fst (filter (\<lambda>(h', _). h' \<noteq> h) S))"
      using A by (simp_all add: armed_def distinct_map_filter)
    show "\<exists>t. c' = Some t \<and> timer_handler t (cancel_timer c T) = (if Some g = Some h' then None else Some h')"
      if "(h', c') \<in> set (filter (\<lambda>(h', _). h' \<noteq> h) S)" for h' c'
    proof -
      have S: "(h', c') \<in> set S" "h' \<noteq> h" using that by auto
      obtain t where "c' = Some t" "timer_handler t T = (if x = Some h' then None else Some h')"
        using armed_slot [OF A S(1)] .
      then show ?thesis using k S(2) x by (auto simp: handler_cancel split: if_splits)
    qed
    show "(h', Some t) \<in> set (filter (\<lambda>(h', _). h' \<noteq> h) S)" if t: "timer_handler t (cancel_timer c T) = Some h'" for t h'
    proof -
      have t': "t \<noteq> k" "timer_handler t T = Some h'" using t k by (simp_all add: handler_cancel split: if_splits)
      then have S: "(h', Some t) \<in> set S" using armed_active [OF A] by blast
      moreover have "h' \<noteq> h" using armed_inj [OF A h, of "Some t"] S t' k by auto
      ultimately show ?thesis by simp
    qed
  qed
  then show ?thesis using x by simp
qed

lemma armed_gone:
  assumes "armed (Some g) S T" "g \<notin> fst ` set S"
  shows "armed None S T"
proof (rule armedI)
  show "timer_ok T" "distinct (map fst S)" using assms(1) by (simp_all add: armed_def)
  show "\<exists>t. c = Some t \<and> timer_handler t T = (if None = Some h then None else Some h)" if S: "(h, c) \<in> set S" for h c
  proof -
    have "g \<noteq> h" using imageI [OF S, of fst] assms(2) by auto
    then show ?thesis using armed_slot [OF assms(1) S] by auto
  qed
  show "(h, Some t) \<in> set S" if "timer_handler t T = Some h" for t h
    using armed_active [OF assms(1) that] .
qed

section \<open>Accounts\<close>

definition accounts :: "nat list \<Rightarrow> 'b table \<Rightarrow> 'b table \<Rightarrow> nat list \<Rightarrow> bool" where
  "accounts new T T' settled =
     (table_ok None T' \<and> tb_next T' = tb_next T \<and>
      mset settled + mset (table_open T') = mset (table_open T) + mset new)"

lemma accounts_refl: "table_ok None T \<Longrightarrow> accounts [] T T []"
  by (simp add: accounts_def)

lemma accounts_trans:
  assumes "accounts new T T1 s1" "accounts new' T1 T2 s2"
  shows "accounts (new @ new') T T2 (s1 @ s2)"
proof -
  have "mset s1 + (mset s2 + mset (table_open T2)) = mset s1 + (mset (table_open T1) + mset new')"
    using assms(2) by (simp add: accounts_def)
  also have "\<dots> = mset (table_open T) + mset new + mset new'"
    using assms(1) by (simp add: accounts_def add.assoc [symmetric])
  finally show ?thesis using assms by (simp add: accounts_def add.assoc)
qed

text \<open>Promises taken out and put back under the same number have not been settled.\<close>

lemma accounts_cancel: "accounts (new @ is) T T' (s @ is) \<Longrightarrow> accounts new T T' s"
  by (simp add: accounts_def add.assoc [symmetric])

lemma accounts_out:
  assumes "table_ok x T" "accounts [] T T' is" "i \<in> set is"
  shows "i < tb_next T'" "i \<notin> set (table_open T')"
proof -
  have m: "mset is + mset (table_open T') = mset (table_open T)" "tb_next T' = tb_next T"
    using assms(2) by (simp_all add: accounts_def)
  have d: "distinct (is @ table_open T')"
    using assms(1) m(1) by (metis mset_append mset_eq_imp_distinct_iff table_ok_def)
  have "i \<in> set (table_open T)" using m(1) assms(3) by (metis UnI1 mset_append set_append set_mset_mset)
  then show "i < tb_next T'" using assms(1) m(2) by (simp add: table_ok_def)
  show "i \<notin> set (table_open T')" using d assms(3) by auto
qed

lemma accounts_out_distinct:
  assumes "table_ok x T" "accounts [] T T' is"
  shows "distinct is"
proof -
  have "mset (is @ table_open T') = mset (table_open T)" using assms(2) by (simp add: accounts_def)
  then have "distinct (is @ table_open T')" using assms(1) by (metis mset_eq_imp_distinct_iff table_ok_def)
  then show ?thesis by simp
qed

lemma accounts_ok: "accounts new T T' s \<Longrightarrow> table_ok None T'"
  by (simp add: accounts_def)

lemma accounts_settled: "accounts new T T' s \<Longrightarrow> mset s = mset s' \<Longrightarrow> accounts new T T' s'"
  by (simp add: accounts_def)

lemma find_opD: "find_op i T = Some op \<Longrightarrow> op \<in> set (tb_ops T) \<and> op_id op = i"
  by (auto simp: find_op_def dest: find_SomeD)

lemma find_op_ids: "find_op i T = None \<longleftrightarrow> i \<notin> set (op_ids T)"
  by (auto simp: find_op_def find_None_iff op_ids_def)

lemma slot_ids: "fst ` set (op_slots T) = set (op_ids T)"
  by (simp add: op_slots_def op_ids_def image_image)

lemma table_simps [simp]:
  "op_ids (update_body i f T) = op_ids T" "tb_waiting (update_body i f T) = tb_waiting T"
  "tb_next (update_body i f T) = tb_next T" "op_slots (update_body i f T) = op_slots T"
  "tb_timers (update_body i f T) = tb_timers T" "table_open (update_body i f T) = table_open T"
  "tb_waiting (arm_op i ms T) = tb_waiting T" "tb_next (arm_op i ms T) = tb_next T"
  "op_ids (arm_op i ms T) = op_ids T" "table_open (arm_op i ms T) = table_open T"
  "op_ids (open_op i b ms T) = op_ids T @ [i]" "tb_waiting (open_op i b ms T) = tb_waiting T"
  "tb_next (open_op i b ms T) = tb_next T"
  "tb_next (close_op i T) = tb_next T" "tb_waiting (close_op i T) = tb_waiting T"
  "op_ids (wait_op i T) = op_ids T" "tb_next (wait_op i T) = tb_next T" "tb_waiting (wait_op i T) = tb_waiting T @ [i]"
  "op_ids (waited i T) = op_ids T" "tb_next (waited i T) = tb_next T"
  "tb_waiting (waited i T) = filter (\<lambda>j. j \<noteq> i) (tb_waiting T)"
  "op_ids (fired t T) = op_ids T" "tb_next (fired t T) = tb_next T" "tb_waiting (fired t T) = tb_waiting T"
  "table_open (fired t T) = table_open T" "find_op i (fired t T) = find_op i T"
  by (simp_all add: update_body_def arm_op_def open_op_def close_op_def wait_op_def waited_def fired_def op_ids_def
      op_slots_def table_open_def set_timer_def find_op_def split: option.split)

lemma close_ids: "op_ids (close_op i T) = filter (\<lambda>j. j \<noteq> i) (op_ids T)"
proof (cases "find_op i T")
  case None
  then have "filter (\<lambda>j. j \<noteq> i) (op_ids T) = op_ids T" using find_op_ids [of i T] by (intro filter_True) auto
  then show ?thesis by (simp add: close_op_def None)
qed (simp add: close_op_def op_ids_def filter_map comp_def)

lemma update_body_ok [simp]: "table_ok x (update_body i f T) = table_ok x T"
  by (simp add: table_ok_def)

lemma arm_slots:
  assumes "find_op i T = Some op" "set_timer i ms (cancel_timer (op_cancelTimer op) (tb_timers T)) = (t, Ti)"
  shows "op_slots (arm_op i ms T) = rearm i t (op_slots T)" "tb_timers (arm_op i ms T) = Ti"
  using assms by (simp_all add: arm_op_def op_slots_def rearm_def)

lemma arm_accounts:
  assumes T: "table_ok x T" and i: "i \<in> set (op_ids T)" and x: "x = None \<or> x = Some i"
  shows "accounts [] T (arm_op i ms T) []"
proof -
  obtain op where op: "find_op i T = Some op" using i find_op_ids [of i T] by auto
  note m = find_opD [OF op]
  let ?C = "cancel_timer (op_cancelTimer op) (tb_timers T)"
  obtain t Ti where st: "set_timer i ms ?C = (t, Ti)" by fastforce
  have slot: "(i, op_cancelTimer op) \<in> set (op_slots T)" using m by (auto simp: op_slots_def)
  have A: "armed x (op_slots T) (tb_timers T)" using T by (simp add: table_ok_def)
  have "armed (Some i) (op_slots T) ?C"
  proof (cases x)
    case None
    then show ?thesis using armed_cancel [OF _ slot] A by simp
  next
    case (Some h)
    then have xi: "x = Some i" using x by simp
    obtain k where k: "op_cancelTimer op = Some k" "timer_handler k (tb_timers T) = None"
      using armed_slot [OF A slot] xi by auto
    have "k \<notin> fst ` set (tm_active (tb_timers T))"
      using k(2) by (simp add: timer_handler_def map_of_eq_None_iff)
    then have "filter (\<lambda>(i, _). i \<noteq> k) (tm_active (tb_timers T)) = tm_active (tb_timers T)"
      by (intro filter_True) force
    then have "?C = tb_timers T" by (simp add: cancel_timer_def k(1))
    with A xi show ?thesis by simp
  qed
  from armed_reset [OF this st] i have "armed None (rearm i t (op_slots T)) Ti" by (simp add: slot_ids)
  then show ?thesis
    using T by (simp add: accounts_def table_ok_def arm_slots [OF op st])
qed

lemma close_slots: "op_slots (close_op i T) = filter (\<lambda>(h, _). h \<noteq> i) (op_slots T)"
proof (cases "find_op i T")
  case None
  then have "\<forall>op\<in>set (tb_ops T). op_id op \<noteq> i" by (auto simp: find_op_def find_None_iff)
  then show ?thesis using None by (auto simp: close_op_def op_slots_def intro!: filter_True [symmetric])
qed (simp add: close_op_def op_slots_def filter_map comp_def)

lemma close_ok:
  assumes T: "table_ok x T" and i: "i \<in> set (op_ids T)"
  shows "table_ok (if x = Some i then None else x) (close_op i T)"
    and "add_mset i (mset (table_open (close_op i T))) = mset (table_open T)"
proof -
  obtain op where op: "find_op i T = Some op" using i find_op_ids [of i T] by auto
  note m = find_opD [OF op]
  have slot: "(i, op_cancelTimer op) \<in> set (op_slots T)" using m by (auto simp: op_slots_def)
  have "tb_timers (close_op i T) = cancel_timer (op_cancelTimer op) (tb_timers T)" by (simp add: close_op_def op)
  then have "armed (if x = Some i then None else x) (op_slots (close_op i T)) (tb_timers (close_op i T))"
    using armed_drop [OF _ slot] T by (simp add: close_slots table_ok_def)
  then show "table_ok (if x = Some i then None else x) (close_op i T)"
    using T by (auto simp: table_ok_def table_open_def close_ids)
  have "distinct (op_ids T)" using T by (simp add: table_ok_def table_open_def)
  then show "add_mset i (mset (table_open (close_op i T))) = mset (table_open T)"
    using mset_filter_neq [of "op_ids T" i] i by (simp add: table_open_def close_ids)
qed

lemma close_accounts:
  assumes "table_ok x T" "i \<in> set (op_ids T)" "x = None \<or> x = Some i"
  shows "accounts [] T (close_op i T) [i]"
  using close_ok [OF assms(1,2)] assms(3) by (auto simp: accounts_def)

text \<open>Closing several operations, the one whose timer has fired among them.\<close>

lemma close_all:
  assumes "table_ok x T" "distinct is" "set is \<subseteq> set (op_ids T)"
  shows "table_ok (if x \<in> Some ` set is then None else x) (fold close_op is T) \<and>
    mset is + mset (table_open (fold close_op is T)) = mset (table_open T) \<and>
    tb_next (fold close_op is T) = tb_next T \<and>
    op_ids (fold close_op is T) = filter (\<lambda>j. j \<notin> set is) (op_ids T)"
  using assms
proof (induction "is" arbitrary: x T)
  case (Cons i "is")
  let ?T = "close_op i T" and ?x = "if x = Some i then None else x"
  have c: "table_ok ?x ?T" "add_mset i (mset (table_open ?T)) = mset (table_open T)"
    using close_ok [OF Cons.prems(1), of i] Cons.prems(3) by simp_all
  have "distinct is" "set is \<subseteq> set (op_ids ?T)" using Cons.prems by (auto simp: close_ids)
  note IH = Cons.IH [OF c(1) this]
  have "(if ?x \<in> Some ` set is then None else ?x) = (if x \<in> Some ` set (i # is) then None else x)"
    by auto
  then show ?case using IH c(2) by (simp add: close_ids conj_comms)
qed simp

lemmas close_all_ok = close_all [THEN conjunct1] close_all [THEN conjunct2, THEN conjunct1]
  close_all [THEN conjunct2, THEN conjunct2, THEN conjunct1] close_all [THEN conjunct2, THEN conjunct2, THEN conjunct2]

lemma close_all_accounts:
  assumes "table_ok x T" "distinct is" "set is \<subseteq> set (op_ids T)" "x = None \<or> (\<exists>i\<in>set is. x = Some i)"
  shows "accounts [] T (fold close_op is T) is"
  using close_all_ok [OF assms(1-3)] assms(4) by (auto simp: accounts_def image_iff)

lemma open_accounts:
  assumes T: "table_ok None T" and i: "i < tb_next T" "i \<notin> set (table_open T)"
  shows "accounts [i] T (open_op i b ms T) []"
proof -
  obtain t Ti where st: "set_timer i ms (tb_timers T) = (t, Ti)" by fastforce
  have "armed None (op_slots T @ [(i, Some t)]) Ti"
    using T i st by (intro armed_add) (auto simp: table_ok_def slot_ids table_open_def)
  moreover have "op_slots (open_op i b ms T) = op_slots T @ [(i, Some t)]" "tb_timers (open_op i b ms T) = Ti"
    by (simp_all add: open_op_def st op_slots_def)
  ultimately show ?thesis
    using T i by (auto simp: accounts_def table_ok_def table_open_def)
qed

lemma wait_accounts:
  assumes "table_ok None T" "i < tb_next T" "i \<notin> set (table_open T)"
  shows "accounts [i] T (wait_op i T) []"
proof -
  have "op_slots (wait_op i T) = op_slots T" "tb_timers (wait_op i T) = tb_timers T"
    by (simp_all add: wait_op_def op_slots_def)
  then show ?thesis using assms by (auto simp: accounts_def table_ok_def table_open_def)
qed

lemma waited_accounts:
  assumes T: "table_ok None T" and i: "i \<in> set (tb_waiting T)"
  shows "accounts [] T (waited i T) [i]"
proof -
  have "op_slots (waited i T) = op_slots T" "tb_timers (waited i T) = tb_timers T"
    by (simp_all add: waited_def op_slots_def)
  moreover have "distinct (tb_waiting T)" using T by (simp add: table_ok_def table_open_def)
  note mset_filter_neq [OF this i]
  ultimately show ?thesis using T by (auto simp: accounts_def table_ok_def table_open_def)
qed

lemma reject_accounts: "table_ok None T \<Longrightarrow> accounts [i] T T [i]"
  by (simp add: accounts_def)

section \<open>Firing\<close>

lemma fired_ok:
  assumes T: "table_ok None T" and h: "timer_handler t (tb_timers T) = Some i"
  shows "table_ok (Some i) (fired t T)" "i \<in> set (op_ids T)"
proof -
  have A: "armed None (op_slots T) (tb_timers T)" using T by (simp add: table_ok_def)
  have "op_slots (fired t T) = op_slots T" "tb_timers (fired t T) = cancel_timer (Some t) (tb_timers T)"
    by (simp_all add: fired_def op_slots_def)
  then show "table_ok (Some i) (fired t T)" using armed_fire(1) [OF A h] T by (simp add: table_ok_def)
  show "i \<in> set (op_ids T)" using imageI [OF armed_fire(2) [OF A h], of fst] by (simp add: slot_ids)
qed

lemma fired_accounts: "accounts new (fired t T) T' s \<Longrightarrow> accounts new T T' s"
  by (simp add: accounts_def)

lemma own_timer:
  assumes T: "table_ok None T" and op: "find_op i T = Some op"
  obtains t where "op_cancelTimer op = Some t" "timer_handler t (tb_timers T) = Some i"
proof -
  have A: "armed None (op_slots T) (tb_timers T)" using T by (simp add: table_ok_def)
  have "(i, op_cancelTimer op) \<in> set (op_slots T)" using find_opD [OF op] by (auto simp: op_slots_def)
  from armed_slot [OF A this] show thesis using that by auto
qed

section \<open>The next number\<close>

definition number :: "'b table \<Rightarrow> 'b table" where
  "number T = T\<lparr>tb_next := tb_next T + 1\<rparr>"

lemma number_simps [simp]:
  "tb_next (number T) = tb_next T + 1" "table_open (number T) = table_open T" "op_ids (number T) = op_ids T"
  "find_op i (number T) = find_op i T" "tb_waiting (number T) = tb_waiting T"
  by (simp_all add: number_def table_open_def op_ids_def find_op_def)

lemma number_ok:
  assumes "table_ok None T"
  shows "table_ok None (number T)" "tb_next T < tb_next (number T)" "tb_next T \<notin> set (table_open (number T))"
proof -
  have "op_slots (number T) = op_slots T" "tb_timers (number T) = tb_timers T" by (simp_all add: number_def op_slots_def)
  then show "table_ok None (number T)" using assms by (auto simp: table_ok_def intro: less_SucI)
  show "tb_next T < tb_next (number T)" by simp
  show "tb_next T \<notin> set (table_open (number T))" using assms by (auto simp: table_ok_def)
qed

text \<open>The three laws of \<open>promise_ledger\<close>, from the account of a step that opens at most one promise.\<close>

definition step_account :: "'b table \<Rightarrow> 'b table \<Rightarrow> nat list \<Rightarrow> bool" where
  "step_account T T' settled = (accounts [] T T' settled \<or> accounts [tb_next T] (number T) T' settled)"

lemma step_account_laws:
  assumes "step_account T T' settled"
  shows "table_ok None T'" "tb_next T \<le> tb_next T'"
    "mset settled + mset (table_open T') = mset (table_open T) + mset [tb_next T..<tb_next T']"
  using assms by (auto simp: step_account_def accounts_def)

section \<open>Bodies\<close>

lemma body_update: "body_of j (update_body i f T) = (if i = j then map_option f (body_of j T) else body_of j T)"
  using find_modify [where k = op_id and f = "op_body_update f" and j = j and i = i and xs = "tb_ops T"]
  by (simp add: body_of_def find_op_def update_body_def option.map_comp comp_def)

lemma body_arm [simp]: "body_of j (arm_op i ms T) = body_of j T"
proof (cases "find_op i T")
  case (Some op)
  have "find (\<lambda>op. op_id op = j) (map (\<lambda>op. if op_id op = i then op_cancelTimer_update (\<lambda>_. Some t) op else op) (tb_ops T))
      = (if j = i then map_option (op_cancelTimer_update (\<lambda>_. Some t)) (find_op j T) else find_op j T)" for t
    using find_modify [where k = op_id and f = "op_cancelTimer_update (\<lambda>_. Some t)" and j = j and i = i and xs = "tb_ops T"]
    by (simp add: find_op_def)
  then show ?thesis
    by (simp add: arm_op_def Some set_timer_def body_of_def) (simp add: find_op_def option.map_comp comp_def)
qed (simp add: arm_op_def)

lemma body_ids: "body_of i T = None \<longleftrightarrow> i \<notin> set (op_ids T)"
  using find_op_ids [of i T] by (simp add: body_of_def)

lemma body_fired [simp]: "body_of i (fired t T) = body_of i T"
  by (simp add: body_of_def)

lemma body_open: "i \<notin> set (op_ids T) \<Longrightarrow> body_of i (open_op i b ms T) = Some b"
  by (simp add: body_of_def find_op_def open_op_def set_timer_def find_append)
    (auto simp: op_ids_def find_None_iff split: option.split dest: find_SomeD)

text \<open>What holds of the body of every open operation.\<close>

definition all_bodies :: "(nat \<Rightarrow> 'b \<Rightarrow> bool) \<Rightarrow> 'b table \<Rightarrow> bool" where
  "all_bodies Q T = list_all (\<lambda>(i, b). Q i b) (map (\<lambda>op. (op_id op, op_body op)) (tb_ops T))"

lemma all_bodies_frame [simp]:
  "all_bodies Q (wait_op i T) = all_bodies Q T" "all_bodies Q (waited i T) = all_bodies Q T"
  "all_bodies Q (fired t T) = all_bodies Q T" "all_bodies Q (number T) = all_bodies Q T"
  "all_bodies Q (open_op i b ms T) = (all_bodies Q T \<and> Q i b)" "all_bodies Q empty_table"
  by (simp_all add: all_bodies_def wait_op_def waited_def fired_def number_def open_op_def set_timer_def empty_table_def)

lemma all_bodies_arm [simp]:
  fixes T :: "'b table"
  shows "all_bodies Q (arm_op i ms T) = all_bodies Q T"
proof -
  have "map (\<lambda>op. (op_id op, op_body op)) (map (\<lambda>op. if op_id op = i then op_cancelTimer_update f op else op) ops)
    = map (\<lambda>op. (op_id op, op_body op)) ops" for f and ops :: "'b op list"
    by (induction ops) auto
  then show ?thesis
    by (simp add: all_bodies_def arm_op_def set_timer_def del: map_map list.map_comp map_eq_conv split: option.split)
qed

lemma close_ops: "tb_ops (close_op i T) = filter (\<lambda>op. op_id op \<noteq> i) (tb_ops T)"
proof (cases "find_op i T")
  case None
  then have "filter (\<lambda>op. op_id op \<noteq> i) (tb_ops T) = tb_ops T"
    by (intro filter_True) (auto simp: find_op_def find_None_iff)
  then show ?thesis using None by (simp add: close_op_def)
qed (simp add: close_op_def)

lemma all_bodies_close: "all_bodies Q T \<Longrightarrow> all_bodies Q (close_op i T)"
  by (auto simp: all_bodies_def close_ops list_all_iff)

lemma all_bodies_close_all: "all_bodies Q T \<Longrightarrow> all_bodies Q (fold close_op is T)"
  by (induction "is" arbitrary: T) (simp_all add: all_bodies_close)

lemma all_bodies_update:
  fixes T :: "'b table"
  shows "all_bodies Q T \<Longrightarrow> Q i b \<Longrightarrow> all_bodies Q (update_body i (\<lambda>_. b) T)"
proof -
  have "list_all (\<lambda>(i, b). Q i b) (map (\<lambda>op. (op_id op, op_body op)) ops) \<Longrightarrow> Q i b \<Longrightarrow>
    list_all (\<lambda>(i, b). Q i b) (map (\<lambda>op. (op_id op, op_body op))
      (map (\<lambda>op. if op_id op = i then op_body_update (\<lambda>_. b) op else op) ops))" for ops :: "'b op list"
    by (induction ops) auto
  then show "all_bodies Q T \<Longrightarrow> Q i b \<Longrightarrow> all_bodies Q (update_body i (\<lambda>_. b) T)"
    by (simp add: all_bodies_def update_body_def del: map_map list.map_comp)
qed

lemma all_bodies_update_close: "all_bodies Q T \<Longrightarrow> all_bodies Q (close_op i (update_body i (\<lambda>_. b) T))"
proof -
  have "filter (\<lambda>op. op_id op \<noteq> i) (map (\<lambda>op. if op_id op = i then op_body_update f op else op) ops)
    = filter (\<lambda>op. op_id op \<noteq> i) ops" for f and ops :: "'a op list"
    by (induction ops) auto
  then show "all_bodies Q T \<Longrightarrow> ?thesis"
    by (auto simp: all_bodies_def close_ops update_body_def list_all_iff)
qed

lemma all_bodies_body: "all_bodies Q T \<Longrightarrow> body_of i T = Some b \<Longrightarrow> Q i b"
  by (auto simp: all_bodies_def body_of_def list_all_iff dest: find_opD)

lemma waiting_fold [simp]: "tb_waiting (fold close_op is T) = tb_waiting T"
  by (induction "is" arbitrary: T) simp_all

end
