(* ===== verification/Mission_Client.thy ===== *)
theory Mission_Client
  imports Op_Table "HOL-Library.AList"
begin

text \<open>
  \<open>src/mavlink/microservices/mission/mission-client.ts\<close> with its \<open>constants.ts\<close>: the transfer of
  missions, fences and rally points. The three \<open>Set\<close>s of operations are one table of tagged
  operations; \<open>ids_where is_download\<close> and so on are the sets. The read-back of a verified upload is a
  download that keeps the number of the upload's promise. A timer that the code sets for an operation
  which a throwing send has just settled is left out: its handler returns at once.
\<close>

section \<open>Data\<close>

datatype mission_type = MissionItems | FenceItems | RallyItems

definition missionTypeValue :: "mission_type \<Rightarrow> nat" where
  "missionTypeValue t = (case t of MissionItems \<Rightarrow> 0 | FenceItems \<Rightarrow> 1 | RallyItems \<Rightarrow> 2)"

definition MAV_MISSION_ACCEPTED :: jsnum where "MAV_MISSION_ACCEPTED = js_nat 0"

record mission_item =
  mi_seq :: jsnum
  mi_frame :: jsnum
  mi_command :: jsnum
  mi_current :: jsnum
  mi_autocontinue :: jsnum
  mi_param1 :: jsnum
  mi_param2 :: jsnum
  mi_param3 :: jsnum
  mi_param4 :: jsnum
  mi_x :: jsnum
  mi_y :: jsnum
  mi_z :: jsnum

definition field_or_0 :: "(string \<rightharpoonup> field_value) \<Rightarrow> string \<Rightarrow> jsnum" where
  "field_or_0 fs key = (case numField fs key of Some x \<Rightarrow> x | None \<Rightarrow> Num 0)"

definition itemFromMessage :: "(string \<rightharpoonup> field_value) \<Rightarrow> mission_item" where
  "itemFromMessage fs =
     \<lparr>mi_seq = field_or_0 fs ''seq'', mi_frame = field_or_0 fs ''frame'', mi_command = field_or_0 fs ''command'',
      mi_current = field_or_0 fs ''current'', mi_autocontinue = field_or_0 fs ''autocontinue'',
      mi_param1 = field_or_0 fs ''param1'', mi_param2 = field_or_0 fs ''param2'',
      mi_param3 = field_or_0 fs ''param3'', mi_param4 = field_or_0 fs ''param4'',
      mi_x = field_or_0 fs ''x'', mi_y = field_or_0 fs ''y'', mi_z = field_or_0 fs ''z''\<rparr>"

definition item_matches :: "mission_item \<Rightarrow> mission_item \<Rightarrow> bool" where
  "item_matches x y =
     (js_eq (mi_seq x) (mi_seq y) \<and> js_eq (mi_frame x) (mi_frame y) \<and> js_eq (mi_command x) (mi_command y) \<and>
      js_eq (mi_autocontinue x) (mi_autocontinue y) \<and> js_eq (mi_x x) (mi_x y) \<and> js_eq (mi_y x) (mi_y y) \<and>
      js_eq (mi_z x) (mi_z y) \<and> js_eq (mi_param1 x) (mi_param1 y) \<and> js_eq (mi_param2 x) (mi_param2 y) \<and>
      js_eq (mi_param3 x) (mi_param3 y) \<and> js_eq (mi_param4 x) (mi_param4 y))"

definition missionsEqual :: "mission_item list \<Rightarrow> mission_item list \<Rightarrow> bool" where
  "missionsEqual a b = (length a = length b \<and> list_all2 item_matches a b)"

datatype mission_error =
    MNoTarget | MAborted | MTimeout | MRejected jsnum | MSendFailed | MVerify | MDisposed | MHostError

datatype mission_phase = CountPhase | ItemsPhase

record download_body =
  db_type :: mission_type
  db_target :: target
  db_phase :: mission_phase
  db_count :: jsnum
  db_expectedSeq :: nat
  db_attempts :: nat
  db_items :: "(nat \<times> mission_item) list"
  db_signal :: "nat option"
  db_onProgress :: bool
  db_verify :: "mission_item list option"

record upload_body =
  ub_type :: mission_type
  ub_target :: target
  ub_items :: "mission_item list"
  ub_verify :: bool
  ub_signal :: "nat option"
  ub_phase :: mission_phase
  ub_lastSeq :: jsnum
  ub_attempts :: nat
  ub_onProgress :: bool

record clear_body =
  cb_type :: mission_type
  cb_target :: target
  cb_attempts :: nat

datatype mission_op = DownloadOp download_body | UploadOp upload_body | ClearOp clear_body

record mission_client =
  ms_resendMs :: nat
  ms_maxAttempts :: nat
  ms_table :: "mission_op table"
  ms_currentListeners :: "nat list"
  ms_reachedListeners :: "nat list"
  ms_disposed :: bool

definition createMissionClient :: "nat option \<Rightarrow> nat option \<Rightarrow> mission_client" where
  "createMissionClient resendMs maxAttempts =
     \<lparr>ms_resendMs = (case resendMs of Some n \<Rightarrow> n | None \<Rightarrow> 1500),
      ms_maxAttempts = (case maxAttempts of Some n \<Rightarrow> n | None \<Rightarrow> 5),
      ms_table = empty_table, ms_currentListeners = [], ms_reachedListeners = [], ms_disposed = False\<rparr>"

datatype mission_effect =
    SendMission string out_fields
  | ResolveMission nat mission_type "mission_item list"
  | ResolveDone nat
  | RejectMission nat mission_error
  | MissionProgress nat jsnum jsnum
  | NotifyCurrent nat jsnum
  | NotifyReached nat jsnum

type_synonym mission_result = "mission_client \<times> mission_effect list"

section \<open>The operations in flight\<close>

definition is_download :: "mission_op \<Rightarrow> bool" where
  "is_download b = (case b of DownloadOp _ \<Rightarrow> True | _ \<Rightarrow> False)"

definition is_upload :: "mission_op \<Rightarrow> bool" where
  "is_upload b = (case b of UploadOp _ \<Rightarrow> True | _ \<Rightarrow> False)"

definition is_clear :: "mission_op \<Rightarrow> bool" where
  "is_clear b = (case b of ClearOp _ \<Rightarrow> True | _ \<Rightarrow> False)"

definition ids_where :: "(mission_op \<Rightarrow> bool) \<Rightarrow> mission_client \<Rightarrow> nat list" where
  "ids_where Q M = map op_id (filter (\<lambda>op. Q (op_body op)) (tb_ops (ms_table M)))"

definition set_body :: "nat \<Rightarrow> mission_op \<Rightarrow> mission_client \<Rightarrow> mission_client" where
  "set_body i b M = M\<lparr>ms_table := update_body i (\<lambda>_. b) (ms_table M)\<rparr>"

definition restart_timer :: "nat \<Rightarrow> mission_client \<Rightarrow> mission_client" where
  "restart_timer i M = M\<lparr>ms_table := arm_op i (ms_resendMs M) (ms_table M)\<rparr>"

text \<open>Settling operations one after the other with the same error, and a single one with given effects.\<close>

definition reject_ids :: "nat list \<Rightarrow> mission_error \<Rightarrow> mission_client \<Rightarrow> mission_result" where
  "reject_ids is e M = (M\<lparr>ms_table := fold close_op is (ms_table M)\<rparr>, map (\<lambda>i. RejectMission i e) is)"

definition settle_op :: "nat \<Rightarrow> mission_effect list \<Rightarrow> mission_client \<Rightarrow> mission_result" where
  "settle_op i fs M =
     (case find_op i (ms_table M) of
        None \<Rightarrow> (M, [])
      | Some _ \<Rightarrow> (M\<lparr>ms_table := close_op i (ms_table M)\<rparr>, fs))"

definition reject_every :: "mission_error \<Rightarrow> mission_client \<Rightarrow> mission_result" where
  "reject_every e M = reject_ids (ids_where is_download M @ ids_where is_upload M @ ids_where is_clear M) e M"

text \<open>\<open>emit\<close>: a failing send, synchronous or not, rejects every operation in flight.\<close>

definition mission_emit :: "string \<times> out_fields \<Rightarrow> bool \<Rightarrow> mission_client \<Rightarrow> mission_result" where
  "mission_emit msg sent M = (if sent then (M, [SendMission (fst msg) (snd msg)]) else reject_every MSendFailed M)"

section \<open>Wire senders\<close>

definition type_field :: "mission_type \<Rightarrow> out_fields" where
  "type_field t = [(''mission_type'', num (missionTypeValue t))]"

definition request_list :: "target \<Rightarrow> mission_type \<Rightarrow> string \<times> out_fields" where
  "request_list g t = (''MISSION_REQUEST_LIST'', target_fields g @ type_field t)"

definition request_int :: "target \<Rightarrow> nat \<Rightarrow> mission_type \<Rightarrow> string \<times> out_fields" where
  "request_int g seq t = (''MISSION_REQUEST_INT'', target_fields g @ [(''seq'', num seq)] @ type_field t)"

definition count_message :: "target \<Rightarrow> nat \<Rightarrow> mission_type \<Rightarrow> string \<times> out_fields" where
  "count_message g n t = (''MISSION_COUNT'', target_fields g @ [(''count'', num n)] @ type_field t)"

definition item_int :: "target \<Rightarrow> mission_item \<Rightarrow> mission_type \<Rightarrow> string \<times> out_fields" where
  "item_int g it t =
     (''MISSION_ITEM_INT'', target_fields g @
       [(''seq'', JNumber (mi_seq it)), (''frame'', JNumber (mi_frame it)), (''command'', JNumber (mi_command it)),
        (''current'', JNumber (mi_current it)), (''autocontinue'', JNumber (mi_autocontinue it)),
        (''param1'', JNumber (mi_param1 it)), (''param2'', JNumber (mi_param2 it)),
        (''param3'', JNumber (mi_param3 it)), (''param4'', JNumber (mi_param4 it)),
        (''x'', JNumber (mi_x it)), (''y'', JNumber (mi_y it)), (''z'', JNumber (mi_z it))] @ type_field t)"

definition ack_out :: "target \<Rightarrow> mission_type \<Rightarrow> string \<times> out_fields" where
  "ack_out g t = (''MISSION_ACK'', target_fields g @ [(''type'', JNumber MAV_MISSION_ACCEPTED)] @ type_field t)"

definition clear_all :: "target \<Rightarrow> mission_type \<Rightarrow> string \<times> out_fields" where
  "clear_all g t = (''MISSION_CLEAR_ALL'', target_fields g @ type_field t)"

section \<open>Calls\<close>

definition start_download ::
  "nat \<Rightarrow> mission_type \<Rightarrow> bool \<Rightarrow> (nat \<times> bool) option \<Rightarrow> mission_item list option \<Rightarrow> target option \<Rightarrow> bool
    \<Rightarrow> mission_client \<Rightarrow> mission_result" where
  "start_download i type onProgress signal verify target sent M =
     (if ms_disposed M then (M, [RejectMission i MDisposed])
      else case target of
        None \<Rightarrow> (M, [RejectMission i MNoTarget])
      | Some g \<Rightarrow>
          if (case signal of Some (_, aborted) \<Rightarrow> aborted | None \<Rightarrow> False) then (M, [RejectMission i MAborted])
          else
            let b = \<lparr>db_type = type, db_target = g, db_phase = CountPhase, db_count = Num 0, db_expectedSeq = 0,
                     db_attempts = 1, db_items = [], db_signal = map_option fst signal,
                     db_onProgress = onProgress, db_verify = verify\<rparr>
            in mission_emit (request_list g type) sent
                 (M\<lparr>ms_table := open_op i (DownloadOp b) (ms_resendMs M) (ms_table M)\<rparr>))"

definition start_upload ::
  "nat \<Rightarrow> mission_type \<Rightarrow> mission_item list \<Rightarrow> bool \<Rightarrow> bool \<Rightarrow> (nat \<times> bool) option \<Rightarrow> target option \<Rightarrow> bool
    \<Rightarrow> mission_client \<Rightarrow> mission_result" where
  "start_upload i type items verify onProgress signal target sent M =
     (if ms_disposed M then (M, [RejectMission i MDisposed])
      else case target of
        None \<Rightarrow> (M, [RejectMission i MNoTarget])
      | Some g \<Rightarrow>
          if (case signal of Some (_, aborted) \<Rightarrow> aborted | None \<Rightarrow> False) then (M, [RejectMission i MAborted])
          else
            let b = \<lparr>ub_type = type, ub_target = g, ub_items = items, ub_verify = verify,
                     ub_signal = map_option fst signal, ub_phase = CountPhase, ub_lastSeq = js_int (- 1),
                     ub_attempts = 1, ub_onProgress = onProgress\<rparr>
            in mission_emit (count_message g (length items) type) sent
                 (M\<lparr>ms_table := open_op i (UploadOp b) (ms_resendMs M) (ms_table M)\<rparr>))"

definition start_clear :: "nat \<Rightarrow> mission_type \<Rightarrow> target option \<Rightarrow> bool \<Rightarrow> mission_client \<Rightarrow> mission_result" where
  "start_clear i type target sent M =
     (if ms_disposed M then (M, [RejectMission i MDisposed])
      else case target of
        None \<Rightarrow> (M, [RejectMission i MNoTarget])
      | Some g \<Rightarrow>
          mission_emit (clear_all g type) sent
            (M\<lparr>ms_table := open_op i (ClearOp \<lparr>cb_type = type, cb_target = g, cb_attempts = 1\<rparr>)
               (ms_resendMs M) (ms_table M)\<rparr>))"

definition setCurrent :: "nat \<Rightarrow> jsnum \<Rightarrow> target option \<Rightarrow> bool \<Rightarrow> mission_client \<Rightarrow> mission_result" where
  "setCurrent i seq target sent M =
     (case target of
        None \<Rightarrow> (M, [RejectMission i MNoTarget])
      | Some g \<Rightarrow>
          if sent then
            (M\<lparr>ms_table := wait_op i (ms_table M)\<rparr>,
             [SendMission ''MISSION_SET_CURRENT'' (target_fields g @ [(''seq'', JNumber seq)])])
          else (M, [RejectMission i MHostError]))"

section \<open>Matching a message\<close>

definition first_byte :: "decoded_message \<Rightarrow> nat" where
  "first_byte msg = (case dm_raw msg of [] \<Rightarrow> 0 | b # _ \<Rightarrow> unat b)"

definition isMavlinkV1 :: "decoded_message \<Rightarrow> bool" where
  "isMavlinkV1 msg = (first_byte msg = 0xfe)"

definition canRelaxMissionType :: "decoded_message \<Rightarrow> jsnum option \<Rightarrow> bool" where
  "canRelaxMissionType msg missionType =
     (isMavlinkV1 msg \<or>
      (case missionType of None \<Rightarrow> True | Some mt \<Rightarrow> first_byte msg = 0xfd \<and> js_eq mt (Num 0)))"

definition from_source :: "decoded_message \<Rightarrow> target \<Rightarrow> bool" where
  "from_source msg g = (tg_sysid g = dm_sysid msg \<and> tg_compid g = dm_compid msg)"

definition type_is :: "mission_type \<Rightarrow> jsnum option \<Rightarrow> bool" where
  "type_is t mt = (case mt of None \<Rightarrow> False | Some m \<Rightarrow> js_eq (js_nat (missionTypeValue t)) m)"

text \<open>The only candidate, when the type may be missing, or the first one of the type.\<close>

definition pick :: "decoded_message \<Rightarrow> ('a \<Rightarrow> mission_type) \<Rightarrow> (nat \<times> 'a) list \<Rightarrow> (nat \<times> 'a) option" where
  "pick msg ty candidates =
     (let mt = numField (dm_fields msg) ''mission_type''
      in if canRelaxMissionType msg mt then (case candidates of [c] \<Rightarrow> Some c | _ \<Rightarrow> None)
         else find (\<lambda>(_, b). type_is (ty b) mt) candidates)"

definition matchDownload :: "mission_client \<Rightarrow> decoded_message \<Rightarrow> (nat \<times> download_body) option" where
  "matchDownload M msg =
     pick msg db_type
       (List.map_filter (\<lambda>op. case op_body op of
            DownloadOp b \<Rightarrow> if from_source msg (db_target b) then Some (op_id op, b) else None
          | _ \<Rightarrow> None) (tb_ops (ms_table M)))"

definition matchUpload :: "mission_client \<Rightarrow> decoded_message \<Rightarrow> (nat \<times> upload_body) option" where
  "matchUpload M msg =
     pick msg ub_type
       (List.map_filter (\<lambda>op. case op_body op of
            UploadOp b \<Rightarrow> if from_source msg (ub_target b) then Some (op_id op, b) else None
          | _ \<Rightarrow> None) (tb_ops (ms_table M)))"

definition matchClear :: "mission_client \<Rightarrow> decoded_message \<Rightarrow> nat option" where
  "matchClear M msg =
     map_option op_id (find (\<lambda>op. case op_body op of
         ClearOp b \<Rightarrow> from_source msg (cb_target b) \<and>
           js_eq (js_nat (missionTypeValue (cb_type b))) (field_or_0 (dm_fields msg) ''mission_type'')
       | _ \<Rightarrow> False) (tb_ops (ms_table M)))"

section \<open>The download state machine\<close>

text \<open>What resolving a download does: a plain one resolves its call, a read-back decides the upload's.\<close>

definition downloaded :: "nat \<Rightarrow> download_body \<Rightarrow> mission_item list \<Rightarrow> mission_effect list" where
  "downloaded i b items =
     (case db_verify b of
        None \<Rightarrow> [ResolveMission i (db_type b) items]
      | Some sent_items \<Rightarrow> if missionsEqual sent_items items then [ResolveDone i] else [RejectMission i MVerify])"

definition buildMission :: "download_body \<Rightarrow> mission_item list" where
  "buildMission b = map (\<lambda>s. the (map_of (db_items b) s)) (sort (map fst (db_items b)))"

definition onCount :: "decoded_message \<Rightarrow> bool \<Rightarrow> mission_client \<Rightarrow> mission_result" where
  "onCount msg sent M =
     (case matchDownload M msg of
        None \<Rightarrow> (M, [])
      | Some (i, b) \<Rightarrow>
          if db_phase b \<noteq> CountPhase then (M, [])
          else
            let b = b\<lparr>db_count := field_or_0 (dm_fields msg) ''count''\<rparr>
            in if js_le (db_count b) (Num 0) then
                 let (M, f1) = mission_emit (ack_out (db_target b) (db_type b)) sent (set_body i (DownloadOp b) M);
                     (M, f2) = settle_op i (downloaded i b []) M
                 in (M, f1 @ f2)
               else
                 let b = b\<lparr>db_phase := ItemsPhase, db_expectedSeq := 0, db_attempts := 1\<rparr>;
                     (M, fs) = mission_emit (request_int (db_target b) 0 (db_type b)) sent (set_body i (DownloadOp b) M)
                 in (restart_timer i M, fs))"

definition onItemInt :: "decoded_message \<Rightarrow> bool \<Rightarrow> mission_client \<Rightarrow> mission_result" where
  "onItemInt msg sent M =
     (case (matchDownload M msg, numField (dm_fields msg) ''seq'') of
        (Some (i, b), Some seq) \<Rightarrow>
          if db_phase b \<noteq> ItemsPhase \<or> \<not> js_eq seq (js_nat (db_expectedSeq b)) then (M, [])
          else
            let b = b\<lparr>db_items := AList.update (db_expectedSeq b) (itemFromMessage (dm_fields msg)) (db_items b)\<rparr>;
                got = js_nat (length (db_items b));
                prog = (if db_onProgress b then [MissionProgress i got (db_count b)] else [])
            in if js_le (db_count b) got then
                 let (M, f1) = mission_emit (ack_out (db_target b) (db_type b)) sent (set_body i (DownloadOp b) M);
                     (M, f2) = settle_op i (downloaded i b (buildMission b)) M
                 in (M, prog @ f1 @ f2)
               else
                 let b = b\<lparr>db_expectedSeq := db_expectedSeq b + 1, db_attempts := 1\<rparr>;
                     (M, fs) = mission_emit (request_int (db_target b) (db_expectedSeq b) (db_type b)) sent
                       (set_body i (DownloadOp b) M)
                 in (restart_timer i M, prog @ fs)
      | _ \<Rightarrow> (M, []))"

definition onDownloadTick :: "nat \<Rightarrow> download_body \<Rightarrow> bool \<Rightarrow> mission_client \<Rightarrow> mission_result" where
  "onDownloadTick i b sent M =
     (if ms_maxAttempts M \<le> db_attempts b then reject_ids [i] MTimeout M
      else
        let b = b\<lparr>db_attempts := db_attempts b + 1\<rparr>;
            (M, fs) = mission_emit
              (case db_phase b of
                 CountPhase \<Rightarrow> request_list (db_target b) (db_type b)
               | ItemsPhase \<Rightarrow> request_int (db_target b) (db_expectedSeq b) (db_type b)) sent (set_body i (DownloadOp b) M)
        in (restart_timer i M, fs))"

section \<open>The upload state machine\<close>

text \<open>\<open>items[seq] ?? items.find (i => i.seq === seq)\<close>.\<close>

definition item_at :: "mission_item list \<Rightarrow> jsnum \<Rightarrow> mission_item option" where
  "item_at items seq =
     (case js_val seq of
        Some q \<Rightarrow>
          if q = of_int \<lfloor>q\<rfloor> \<and> 0 \<le> q \<and> nat \<lfloor>q\<rfloor> < length items then Some (items ! nat \<lfloor>q\<rfloor>)
          else find (\<lambda>it. js_eq (mi_seq it) seq) items
      | None \<Rightarrow> find (\<lambda>it. js_eq (mi_seq it) seq) items)"

definition onItemRequest :: "decoded_message \<Rightarrow> bool \<Rightarrow> mission_client \<Rightarrow> mission_result" where
  "onItemRequest msg sent M =
     (case (matchUpload M msg, numField (dm_fields msg) ''seq'') of
        (Some (i, b), Some seq) \<Rightarrow>
          let cnt = js_nat (length (ub_items b))
          in if js_lt seq (Num 0) \<or> js_le cnt seq then (M, [])
             else (case item_at (ub_items b) seq of
                     None \<Rightarrow> (M, [])
                   | Some it \<Rightarrow>
                       let b = b\<lparr>ub_phase := ItemsPhase, ub_lastSeq := seq, ub_attempts := 1\<rparr>;
                           (M, fs) = mission_emit (item_int (ub_target b) it (ub_type b)) sent (set_body i (UploadOp b) M);
                           prog = (if ub_onProgress b then [MissionProgress i (js_add seq (Num 1)) cnt] else [])
                       in (restart_timer i M, fs @ prog))
      | _ \<Rightarrow> (M, []))"

definition finishUpload :: "nat \<Rightarrow> upload_body \<Rightarrow> target option \<Rightarrow> bool \<Rightarrow> mission_client \<Rightarrow> mission_result" where
  "finishUpload i b target sent M =
     (if \<not> ub_verify b then (M, [ResolveDone i])
      else start_download i (ub_type b) False (map_option (\<lambda>s. (s, False)) (ub_signal b)) (Some (ub_items b)) target sent M)"

definition mission_onAck :: "decoded_message \<Rightarrow> target option \<Rightarrow> bool \<Rightarrow> mission_client \<Rightarrow> mission_result" where
  "mission_onAck msg target sent M =
     (let result = field_or_0 (dm_fields msg) ''type'' in
      case matchUpload M msg of
        Some (i, b) \<Rightarrow>
          if js_eq result MAV_MISSION_ACCEPTED then
            finishUpload i b target sent (M\<lparr>ms_table := close_op i (ms_table M)\<rparr>)
          else reject_ids [i] (MRejected result) M
      | None \<Rightarrow>
          (case matchClear M msg of
             None \<Rightarrow> (M, [])
           | Some i \<Rightarrow>
               if js_eq result MAV_MISSION_ACCEPTED then settle_op i [ResolveDone i] M
               else reject_ids [i] (MRejected result) M))"

definition onUploadTick :: "nat \<Rightarrow> upload_body \<Rightarrow> bool \<Rightarrow> mission_client \<Rightarrow> mission_result" where
  "onUploadTick i b sent M =
     (if ms_maxAttempts M \<le> ub_attempts b then reject_ids [i] MTimeout M
      else
        let b = b\<lparr>ub_attempts := ub_attempts b + 1\<rparr>;
            M = set_body i (UploadOp b) M;
            (M, fs) =
              (if ub_phase b = CountPhase \<or> js_lt (ub_lastSeq b) (Num 0) then
                 mission_emit (count_message (ub_target b) (length (ub_items b)) (ub_type b)) sent M
               else (case item_at (ub_items b) (ub_lastSeq b) of
                       None \<Rightarrow> (M, [])
                     | Some it \<Rightarrow> mission_emit (item_int (ub_target b) it (ub_type b)) sent M))
        in (restart_timer i M, fs))"

section \<open>The clear state machine\<close>

definition onClearTick :: "nat \<Rightarrow> clear_body \<Rightarrow> bool \<Rightarrow> mission_client \<Rightarrow> mission_result" where
  "onClearTick i b sent M =
     (if ms_maxAttempts M \<le> cb_attempts b then reject_ids [i] MTimeout M
      else
        let b = b\<lparr>cb_attempts := cb_attempts b + 1\<rparr>;
            (M, fs) = mission_emit (clear_all (cb_target b) (cb_type b)) sent (set_body i (ClearOp b) M)
        in (restart_timer i M, fs))"

section \<open>Dispatch\<close>

definition mission_onMessage :: "decoded_message \<Rightarrow> target option \<Rightarrow> bool \<Rightarrow> mission_client \<Rightarrow> mission_result" where
  "mission_onMessage msg target sent M =
     (if dm_name msg = ''MISSION_COUNT'' then onCount msg sent M
      else if dm_name msg = ''MISSION_ITEM_INT'' then onItemInt msg sent M
      else if dm_name msg = ''MISSION_ACK'' then mission_onAck msg target sent M
      else if dm_name msg = ''MISSION_REQUEST_INT'' \<or> dm_name msg = ''MISSION_REQUEST'' then onItemRequest msg sent M
      else case numField (dm_fields msg) ''seq'' of
             None \<Rightarrow> (M, [])
           | Some seq \<Rightarrow>
               if dm_name msg = ''MISSION_CURRENT'' then (M, map (\<lambda>cb. NotifyCurrent cb seq) (ms_currentListeners M))
               else if dm_name msg = ''MISSION_ITEM_REACHED'' then (M, map (\<lambda>cb. NotifyReached cb seq) (ms_reachedListeners M))
               else (M, []))"

definition mission_tick :: "nat \<Rightarrow> bool \<Rightarrow> mission_client \<Rightarrow> mission_result" where
  "mission_tick i sent M =
     (case body_of i (ms_table M) of
        None \<Rightarrow> (M, [])
      | Some (DownloadOp b) \<Rightarrow> onDownloadTick i b sent M
      | Some (UploadOp b) \<Rightarrow> onUploadTick i b sent M
      | Some (ClearOp b) \<Rightarrow> onClearTick i b sent M)"

definition mission_dispose :: "mission_client \<Rightarrow> mission_result" where
  "mission_dispose M =
     (if ms_disposed M then (M, [])
      else
        let (M, fs) = reject_every MDisposed (M\<lparr>ms_disposed := True\<rparr>)
        in (M\<lparr>ms_currentListeners := [], ms_reachedListeners := []\<rparr>, fs))"

definition has_signal :: "nat \<Rightarrow> mission_op \<Rightarrow> bool" where
  "has_signal s b =
     (case b of DownloadOp d \<Rightarrow> db_signal d = Some s | UploadOp u \<Rightarrow> ub_signal u = Some s | ClearOp _ \<Rightarrow> False)"

definition add_listener :: "nat \<Rightarrow> nat list \<Rightarrow> nat list" where
  "add_listener cb cbs = (if cb \<in> set cbs then cbs else cbs @ [cb])"

datatype mission_event =
    CallDownload mission_type bool "(nat \<times> bool) option" "target option" bool
  | CallUpload mission_type "mission_item list" bool bool "(nat \<times> bool) option" "target option" bool
  | CallClear mission_type "target option" bool
  | CallSetCurrent jsnum "target option" bool
  | OnCurrent nat
  | OffCurrent nat
  | OnReached nat
  | OffReached nat
  | MissionIn decoded_message "target option" bool
  | MissionFire nat bool
  | MissionSendFailed
  | MissionHostDone nat
  | MissionHostFailed nat
  | MissionAbort nat
  | MissionDispose

definition mission_step :: "mission_client \<Rightarrow> mission_event \<Rightarrow> mission_result" where
  "mission_step M e =
     (let i = tb_next (ms_table M); N = M\<lparr>ms_table := number (ms_table M)\<rparr> in
      case e of
        CallDownload t prog signal target sent \<Rightarrow> start_download i t prog signal None target sent N
      | CallUpload t items verify prog signal target sent \<Rightarrow> start_upload i t items verify prog signal target sent N
      | CallClear t target sent \<Rightarrow> start_clear i t target sent N
      | CallSetCurrent seq target sent \<Rightarrow> setCurrent i seq target sent N
      | OnCurrent cb \<Rightarrow> (M\<lparr>ms_currentListeners := add_listener cb (ms_currentListeners M)\<rparr>, [])
      | OffCurrent cb \<Rightarrow> (M\<lparr>ms_currentListeners := filter (\<lambda>c. c \<noteq> cb) (ms_currentListeners M)\<rparr>, [])
      | OnReached cb \<Rightarrow> (M\<lparr>ms_reachedListeners := add_listener cb (ms_reachedListeners M)\<rparr>, [])
      | OffReached cb \<Rightarrow> (M\<lparr>ms_reachedListeners := filter (\<lambda>c. c \<noteq> cb) (ms_reachedListeners M)\<rparr>, [])
      | MissionIn msg target sent \<Rightarrow> if ms_disposed M then (M, []) else mission_onMessage msg target sent M
      | MissionFire t sent \<Rightarrow>
          (case timer_handler t (tb_timers (ms_table M)) of
             None \<Rightarrow> (M, [])
           | Some i \<Rightarrow> mission_tick i sent (M\<lparr>ms_table := fired t (ms_table M)\<rparr>))
      | MissionSendFailed \<Rightarrow> reject_every MSendFailed M
      | MissionHostDone i \<Rightarrow>
          if i \<in> set (tb_waiting (ms_table M)) then (M\<lparr>ms_table := waited i (ms_table M)\<rparr>, [ResolveDone i]) else (M, [])
      | MissionHostFailed i \<Rightarrow>
          if i \<in> set (tb_waiting (ms_table M))
          then (M\<lparr>ms_table := waited i (ms_table M)\<rparr>, [RejectMission i MHostError]) else (M, [])
      | MissionAbort s \<Rightarrow> reject_ids (ids_where (has_signal s) M) MAborted M
      | MissionDispose \<Rightarrow> mission_dispose M)"

end

