(* ===== verification/Mission_Safety.thy ===== *)
theory Mission_Safety
  imports Mission_Client
begin

text \<open>
  The mission client over runs: the ledger of its promises and the timers of its operations (an
  interpretation of \<open>promise_ledger\<close>), and the end of operations left alone.
\<close>

section \<open>The account of every operation\<close>

fun mission_settles :: "mission_effect \<Rightarrow> nat option" where
  "mission_settles (ResolveMission i _ _) = Some i"
| "mission_settles (ResolveDone i) = Some i"
| "mission_settles (RejectMission i _) = Some i"
| "mission_settles _ = None"

abbreviation settled_ids :: "mission_effect list \<Rightarrow> nat list" where
  "settled_ids fs \<equiv> List.map_filter mission_settles fs"

definition mission_ok :: "nat option \<Rightarrow> mission_client \<Rightarrow> bool" where
  "mission_ok x M = table_ok x (ms_table M)"

definition mission_account :: "nat list \<Rightarrow> mission_client \<Rightarrow> mission_result \<Rightarrow> bool" where
  "mission_account new M r = accounts new (ms_table M) (ms_table (fst r)) (settled_ids (snd r))"

lemma account_then:
  "mission_account new M (M1, f1) \<Longrightarrow> mission_account new' M1 (M2, f2) \<Longrightarrow> mission_account (new @ new') M (M2, f1 @ f2)"
  using accounts_trans by (fastforce simp: mission_account_def)

lemma account_same:
  "mission_ok None M \<Longrightarrow> settled_ids fs = [] \<Longrightarrow> mission_account [] M (M, fs)"
  by (simp add: mission_account_def mission_ok_def accounts_refl)

lemma account_reject: "mission_ok None M \<Longrightarrow> mission_account [i] M (M, [RejectMission i e])"
  by (simp add: mission_account_def mission_ok_def reject_accounts)

lemma settled_map [simp]: "settled_ids (map (\<lambda>i. RejectMission i e) is) = is"
  by (induction "is") simp_all

lemma settled_notify [simp]:
  "settled_ids (map (\<lambda>cb. NotifyCurrent cb s) cbs) = []" "settled_ids (map (\<lambda>cb. NotifyReached cb s) cbs) = []"
  by (induction cbs) simp_all

lemma ids_where_distinct: "mission_ok x M \<Longrightarrow> distinct (ids_where Q M)"
  by (simp add: mission_ok_def table_ok_def table_open_def op_ids_def ids_where_def distinct_map_filter)

lemma ids_where_subset: "set (ids_where Q M) \<subseteq> set (op_ids (ms_table M))"
  by (auto simp: ids_where_def op_ids_def)

text \<open>The three sets together hold every operation once.\<close>

lemma every_id:
  assumes "mission_ok x M"
  defines "every \<equiv> ids_where is_download M @ ids_where is_upload M @ ids_where is_clear M"
  shows "distinct every" "set every = set (op_ids (ms_table M))"
proof -
  have d: "inj_on op_id (set (tb_ops (ms_table M)))" "distinct (op_ids (ms_table M))"
    using assms(1) by (simp_all add: mission_ok_def table_ok_def table_open_def op_ids_def distinct_map)
  have kind: "is_download b \<or> is_upload b \<or> is_clear b" for b
    by (cases b) (simp_all add: is_download_def is_upload_def is_clear_def)
  have "set every = op_id ` {op \<in> set (tb_ops (ms_table M)). is_download (op_body op) \<or> is_upload (op_body op) \<or> is_clear (op_body op)}"
    unfolding every_def ids_where_def by auto
  then show "set every = set (op_ids (ms_table M))" by (simp add: kind op_ids_def)
  have disj: "set (ids_where P M) \<inter> set (ids_where Q M) = {}" if "\<And>b. \<not> (P b \<and> Q b)" for P Q
    using d(1) that by (auto simp: ids_where_def inj_on_def)
  have excl: "\<not> (is_download b \<and> is_upload b)" "\<not> (is_download b \<and> is_clear b)" "\<not> (is_upload b \<and> is_clear b)" for b
    by (cases b; simp add: is_download_def is_upload_def is_clear_def)+
  show "distinct every"
    unfolding every_def distinct_append set_append Int_Un_distrib
    using ids_where_distinct [OF assms(1)] disj [OF excl(1)] disj [OF excl(2)] disj [OF excl(3)]
    by (simp add: Int_Un_distrib)
qed

lemma reject_ids_account:
  assumes "mission_ok x M" "distinct is" "set is \<subseteq> set (op_ids (ms_table M))" "x = None \<or> (\<exists>i\<in>set is. x = Some i)"
  shows "mission_account [] M (reject_ids is e M)"
  using close_all_accounts [of x "ms_table M" "is"] assms by (simp add: mission_account_def reject_ids_def mission_ok_def)

lemma reject_every_account:
  assumes "mission_ok x M" "x = None \<or> (\<exists>i\<in>set (op_ids (ms_table M)). x = Some i)"
  shows "mission_account [] M (reject_every e M)"
  unfolding reject_every_def
  by (rule reject_ids_account [OF assms(1) every_id(1) [OF assms(1)]]) (use every_id(2) [OF assms(1)] assms(2) in auto)

lemma reject_every_empty:
  assumes "mission_ok x M"
  shows "op_ids (ms_table (fst (reject_every e M))) = []"
proof -
  let ?is = "ids_where is_download M @ ids_where is_upload M @ ids_where is_clear M"
  have "op_ids (fold close_op ?is (ms_table M)) = filter (\<lambda>j. j \<notin> set ?is) (op_ids (ms_table M))"
    using every_id [OF assms] assms by (intro close_all_ok(4)) (auto simp: mission_ok_def)
  also have "\<dots> = []" using every_id(2) [OF assms] by (simp add: filter_empty_conv)
  finally show ?thesis by (simp add: reject_every_def reject_ids_def)
qed

text \<open>Sending, then re-arming the operation if it is still there.\<close>

lemma set_body_simps [simp]:
  "mission_ok x (set_body i b M) = mission_ok x M" "op_ids (ms_table (set_body i b M)) = op_ids (ms_table M)"
  "mission_account new (set_body i b M) r = mission_account new M r"
  by (simp_all add: set_body_def mission_ok_def mission_account_def accounts_def)

lemma restart_account:
  assumes "mission_ok x M" "i \<in> set (op_ids (ms_table M))" "x = None \<or> x = Some i"
  shows "mission_account [] M (restart_timer i M, [])"
  using arm_accounts [of x "ms_table M" i] assms by (simp add: mission_account_def restart_timer_def mission_ok_def)

lemma restart_gone: "i \<notin> set (op_ids (ms_table M)) \<Longrightarrow> restart_timer i M = M"
  using find_op_ids [of i "ms_table M"] by (simp add: restart_timer_def arm_op_def)

lemma emit_restart_account:
  assumes M: "mission_ok x M" and i: "i \<in> set (op_ids (ms_table M))" and x: "x = None \<or> x = Some i"
    and e: "mission_emit msg sent M = (M1, fs)"
  shows "mission_account [] M (restart_timer i M1, fs)"
proof (cases sent)
  case True
  with e have "M1 = M" "fs = [SendMission (fst msg) (snd msg)]" by (simp_all add: mission_emit_def)
  then show ?thesis using restart_account [OF M i x] by (simp add: mission_account_def)
next
  case False
  with e have r: "reject_every MSendFailed M = (M1, fs)" by (simp add: mission_emit_def)
  then have "op_ids (ms_table M1) = []" using reject_every_empty [OF M, of MSendFailed] by simp
  then have "restart_timer i M1 = M1" by (intro restart_gone) simp
  then show ?thesis using reject_every_account [OF M, of MSendFailed] i x r by auto
qed

lemma emit_account:
  assumes "mission_ok None M"
  shows "mission_account [] M (mission_emit msg sent M)"
  using reject_every_account [OF assms] assms by (simp add: mission_emit_def account_same)

lemma settle_op_account:
  assumes M: "mission_ok x M" "x = None \<or> x = Some i" and s: "settled_ids fs = [i]"
    and gone: "i \<notin> set (op_ids (ms_table M)) \<Longrightarrow> x = None"
  shows "mission_account [] M (settle_op i fs M)"
proof (cases "i \<in> set (op_ids (ms_table M))")
  case True
  then obtain op where "find_op i (ms_table M) = Some op" using find_op_ids [of i "ms_table M"] by auto
  then show ?thesis
    using close_accounts [of x "ms_table M" i] M True s by (simp add: settle_op_def mission_account_def mission_ok_def)
next
  case False
  then have "find_op i (ms_table M) = None" using find_op_ids by blast
  then show ?thesis using gone [OF False] M by (simp add: settle_op_def account_same)
qed

section \<open>The handlers\<close>

lemma pickD: "pick msg ty cs = Some c \<Longrightarrow> c \<in> set cs"
  by (auto simp: pick_def Let_def split: list.splits if_splits dest: find_SomeD)

lemma map_filter_elem: "y \<in> set (List.map_filter f xs) \<Longrightarrow> \<exists>x\<in>set xs. f x = Some y"
  by (auto simp: map_filter_def)

lemma matchDownloadD:
  assumes "matchDownload M msg = Some (i, b)"
  shows "\<exists>op\<in>set (tb_ops (ms_table M)). op_id op = i \<and> op_body op = DownloadOp b \<and> from_source msg (db_target b)"
proof -
  obtain op where op: "op \<in> set (tb_ops (ms_table M))"
      "(case op_body op of DownloadOp b \<Rightarrow> if from_source msg (db_target b) then Some (op_id op, b) else None | _ \<Rightarrow> None) = Some (i, b)"
    using map_filter_elem [OF pickD [OF assms [unfolded matchDownload_def]]] by blast
  then have "op_id op = i \<and> op_body op = DownloadOp b \<and> from_source msg (db_target b)"
    by (cases "op_body op") (simp_all split: if_splits)
  with op(1) show ?thesis by blast
qed

lemma matchUploadD:
  assumes "matchUpload M msg = Some (i, b)"
  shows "\<exists>op\<in>set (tb_ops (ms_table M)). op_id op = i \<and> op_body op = UploadOp b \<and> from_source msg (ub_target b)"
proof -
  obtain op where op: "op \<in> set (tb_ops (ms_table M))"
      "(case op_body op of UploadOp b \<Rightarrow> if from_source msg (ub_target b) then Some (op_id op, b) else None | _ \<Rightarrow> None) = Some (i, b)"
    using map_filter_elem [OF pickD [OF assms [unfolded matchUpload_def]]] by blast
  then have "op_id op = i \<and> op_body op = UploadOp b \<and> from_source msg (ub_target b)"
    by (cases "op_body op") (simp_all split: if_splits)
  with op(1) show ?thesis by blast
qed

lemma matchClearD:
  assumes "matchClear M msg = Some i"
  shows "\<exists>op\<in>set (tb_ops (ms_table M)). op_id op = i \<and> is_clear (op_body op)"
  using assms by (auto simp: matchClear_def is_clear_def dest!: find_SomeD split: mission_op.splits)

lemma match_ids:
  "matchDownload M msg = Some (i, b) \<Longrightarrow> i \<in> set (op_ids (ms_table M))"
  "matchUpload M msg = Some (i, u) \<Longrightarrow> i \<in> set (op_ids (ms_table M))"
  "matchClear M msg = Some i \<Longrightarrow> i \<in> set (op_ids (ms_table M))"
  by (auto simp: op_ids_def dest: matchDownloadD matchUploadD matchClearD)

lemma settled_downloaded [simp]: "settled_ids (downloaded i b items) = [i]"
  by (simp add: downloaded_def split: option.split)

lemma account_prefix: "settled_ids gs = [] \<Longrightarrow> mission_account new M (M', gs @ fs) = mission_account new M (M', fs)"
  "settled_ids gs = [] \<Longrightarrow> mission_account new M (M', fs @ gs) = mission_account new M (M', fs)"
  by (simp_all add: mission_account_def)

lemma account_okD: "mission_account new M (M', fs) \<Longrightarrow> mission_ok None M'"
  by (simp add: mission_account_def mission_ok_def accounts_ok)

text \<open>Sending and then settling.\<close>

lemma emit_settle_account:
  assumes M: "mission_ok None M" and e: "mission_emit msg sent M = (M1, f1)" and s: "settled_ids fs = [i]"
    and r: "settle_op i fs M1 = (M2, f2)"
  shows "mission_account [] M (M2, f1 @ f2)"
proof -
  have a: "mission_account [] M (M1, f1)" using emit_account [OF M, of msg sent] e by simp
  have "mission_account [] M1 (M2, f2)"
    using settle_op_account [OF account_okD [OF a] _ s] r by simp
  from account_then [OF a this] show ?thesis by simp
qed

lemma onCount_account:
  assumes M: "mission_ok None M"
  shows "mission_account [] M (onCount msg sent M)"
proof (cases "matchDownload M msg")
  case None
  then show ?thesis using M by (simp add: onCount_def account_same)
next
  case (Some ib)
  then obtain i b where m: "matchDownload M msg = Some (i, b)" by (cases ib) simp
  note i = match_ids(1) [OF m]
  define b1 where "b1 = b\<lparr>db_count := field_or_0 (dm_fields msg) ''count''\<rparr>"
  define b2 where "b2 = b1\<lparr>db_phase := ItemsPhase, db_expectedSeq := 0, db_attempts := 1\<rparr>"
  obtain M1 f1 where e1: "mission_emit (ack_out (db_target b1) (db_type b1)) sent (set_body i (DownloadOp b1) M) = (M1, f1)" by fastforce
  obtain M2 f2 where s2: "settle_op i (downloaded i b1 []) M1 = (M2, f2)" by fastforce
  obtain M3 f3 where e3: "mission_emit (request_int (db_target b2) 0 (db_type b2)) sent (set_body i (DownloadOp b2) M) = (M3, f3)" by fastforce
  have A: "mission_account [] M (M2, f1 @ f2)"
    using emit_settle_account [OF _ e1 settled_downloaded s2] M by simp
  have B: "mission_account [] M (restart_timer i M3, f3)"
    using emit_restart_account [OF _ _ _ e3, of None i] M i by simp
  show ?thesis
    unfolding onCount_def m option.case prod.case Let_def b1_def [symmetric] b2_def [symmetric] e1 s2 e3
    using A B M by (simp add: account_same)
qed

lemma onItemInt_account:
  assumes M: "mission_ok None M"
  shows "mission_account [] M (onItemInt msg sent M)"
proof (cases "matchDownload M msg")
  case None
  then show ?thesis using M by (simp add: onItemInt_def account_same)
next
  case (Some ib)
  then obtain i b where m: "matchDownload M msg = Some (i, b)" by (cases ib) simp
  note i = match_ids(1) [OF m]
  show ?thesis
  proof (cases "numField (dm_fields msg) ''seq''")
    case None
    then show ?thesis using M m by (simp add: onItemInt_def account_same)
  next
    case (Some seq)
    define b1 where "b1 = b\<lparr>db_items := AList.update (db_expectedSeq b) (itemFromMessage (dm_fields msg)) (db_items b)\<rparr>"
    define b2 where "b2 = b1\<lparr>db_expectedSeq := db_expectedSeq b1 + 1, db_attempts := 1\<rparr>"
    obtain M1 f1 where e1: "mission_emit (ack_out (db_target b1) (db_type b1)) sent (set_body i (DownloadOp b1) M) = (M1, f1)" by fastforce
    obtain M2 f2 where s2: "settle_op i (downloaded i b1 (buildMission b1)) M1 = (M2, f2)" by fastforce
    obtain M3 f3 where e3: "mission_emit (request_int (db_target b2) (db_expectedSeq b2) (db_type b2)) sent (set_body i (DownloadOp b2) M) = (M3, f3)" by fastforce
    have A: "mission_account [] M (M2, f1 @ f2)"
      using emit_settle_account [OF _ e1 settled_downloaded s2] M by simp
    have B: "mission_account [] M (restart_timer i M3, f3)"
      using emit_restart_account [OF _ _ _ e3, of None i] M i by simp
    show ?thesis
      unfolding onItemInt_def m Some option.case prod.case Let_def b1_def [symmetric] b2_def [symmetric] e1 s2 e3
      using A B M by (simp add: account_same account_prefix)
  qed
qed

lemma onDownloadTick_account:
  assumes "mission_ok (Some i) M" "i \<in> set (op_ids (ms_table M))"
  shows "mission_account [] M (onDownloadTick i b sent M)"
  using reject_ids_account [OF assms(1), of "[i]"] emit_restart_account [of "Some i" "set_body i b' M" i for b'] assms
  by (simp add: onDownloadTick_def Let_def split: prod.split)

lemma onUploadTick_account:
  assumes M: "mission_ok (Some i) M" and i: "i \<in> set (op_ids (ms_table M))"
  shows "mission_account [] M (onUploadTick i b sent M)"
proof -
  have "mission_account [] M (restart_timer i (set_body i b' M), [])" for b'
    using restart_account [of "Some i" "set_body i b' M" i] M i by simp
  then show ?thesis
    using reject_ids_account [OF M, of "[i]"] emit_restart_account [of "Some i" "set_body i b' M" i for b'] M i
    by (simp add: onUploadTick_def Let_def split: prod.split option.split)
qed

lemma onClearTick_account:
  assumes "mission_ok (Some i) M" "i \<in> set (op_ids (ms_table M))"
  shows "mission_account [] M (onClearTick i b sent M)"
  using reject_ids_account [OF assms(1), of "[i]"] emit_restart_account [of "Some i" "set_body i b' M" i for b'] assms
  by (simp add: onClearTick_def Let_def split: prod.split)

lemma mission_tick_account:
  assumes "mission_ok (Some i) M" "i \<in> set (op_ids (ms_table M))"
  shows "mission_account [] M (mission_tick i sent M)"
proof -
  obtain op where "find_op i (ms_table M) = Some op" using assms(2) find_op_ids [of i "ms_table M"] by auto
  then show ?thesis
    using assms onDownloadTick_account onUploadTick_account onClearTick_account
    by (simp add: mission_tick_def body_of_def split: mission_op.split)
qed

lemma onItemRequest_account:
  assumes M: "mission_ok None M"
  shows "mission_account [] M (onItemRequest msg sent M)"
proof (cases "matchUpload M msg")
  case None
  then show ?thesis using M by (simp add: onItemRequest_def account_same)
next
  case (Some ib)
  then obtain i b where m: "matchUpload M msg = Some (i, b)" by (cases ib) simp
  note i = match_ids(2) [OF m]
  have "mission_account [] M (restart_timer i M1, f1)" "mission_account [] M (restart_timer i M1, f1 @ [MissionProgress i s c])"
    if "mission_emit (item_int g it t) sent (set_body i b' M) = (M1, f1)" for g it t b' M1 f1 s c
    using emit_restart_account [OF _ _ _ that, of None i] M i by (simp_all add: account_prefix)
  then show ?thesis
    using M by (auto simp: onItemRequest_def m Let_def account_same split: option.split prod.split)
qed

text \<open>Opening an operation and sending its first message.\<close>

lemma open_emit_account:
  assumes M: "mission_ok None M" and i: "i < tb_next (ms_table M)" "i \<notin> set (table_open (ms_table M))"
  shows "mission_account [i] M (mission_emit msg sent (M\<lparr>ms_table := open_op i b ms (ms_table M)\<rparr>))"
proof -
  let ?M = "M\<lparr>ms_table := open_op i b ms (ms_table M)\<rparr>"
  have a: "mission_account [i] M (?M, [])"
    using open_accounts [of "ms_table M" i b ms] M i by (simp add: mission_account_def mission_ok_def)
  obtain M1 f1 where e: "mission_emit msg sent ?M = (M1, f1)" by fastforce
  have "mission_account [] ?M (M1, f1)" using emit_account [OF account_okD [OF a], of msg sent] e by simp
  from account_then [OF a this] e show ?thesis by simp
qed

lemma start_download_account:
  assumes "mission_ok None M" "i < tb_next (ms_table M)" "i \<notin> set (table_open (ms_table M))"
  shows "mission_account [i] M (start_download i t prog signal verify target sent M)"
  using assms account_reject [OF assms(1)] open_emit_account [OF assms]
  by (simp add: start_download_def Let_def split: option.split)

lemma start_upload_account:
  assumes "mission_ok None M" "i < tb_next (ms_table M)" "i \<notin> set (table_open (ms_table M))"
  shows "mission_account [i] M (start_upload i t items verify prog signal target sent M)"
  using assms account_reject [OF assms(1)] open_emit_account [OF assms]
  by (simp add: start_upload_def Let_def split: option.split)

lemma start_clear_account:
  assumes "mission_ok None M" "i < tb_next (ms_table M)" "i \<notin> set (table_open (ms_table M))"
  shows "mission_account [i] M (start_clear i t target sent M)"
  using assms account_reject [OF assms(1)] open_emit_account [OF assms]
  by (simp add: start_clear_def split: option.split)

lemma setCurrent_account:
  assumes "mission_ok None M" "i < tb_next (ms_table M)" "i \<notin> set (table_open (ms_table M))"
  shows "mission_account [i] M (setCurrent i seq target sent M)"
  using assms account_reject [OF assms(1)] wait_accounts [of "ms_table M" i]
  by (simp add: setCurrent_def mission_account_def mission_ok_def split: option.split)

text \<open>Closing the upload and continuing with its promise.\<close>

lemma finishUpload_account:
  assumes M: "mission_ok None M" and i: "i \<in> set (op_ids (ms_table M))"
  shows "mission_account [] M (finishUpload i b target sent (M\<lparr>ms_table := close_op i (ms_table M)\<rparr>))"
proof -
  let ?C = "M\<lparr>ms_table := close_op i (ms_table M)\<rparr>"
  have c: "accounts [] (ms_table M) (ms_table ?C) [i]"
    using close_accounts [of None "ms_table M" i] M i by (simp add: mission_ok_def)
  then have C: "mission_ok None ?C" by (simp add: mission_ok_def accounts_ok)
  have less: "i < tb_next (ms_table ?C)" using M i by (auto simp: mission_ok_def table_ok_def table_open_def)
  have "i \<notin> set (table_open (ms_table ?C))"
    using M i by (auto simp: mission_ok_def table_ok_def table_open_def close_ids)
  from start_download_account [OF C less this]
  have "mission_account [i] ?C (finishUpload i b target sent ?C)"
    using account_reject [OF C, of i] C by (simp add: finishUpload_def mission_account_def accounts_def)
  then show ?thesis
    using c by (auto simp: mission_account_def accounts_def)
qed

lemma mission_onAck_account:
  assumes M: "mission_ok None M"
  shows "mission_account [] M (mission_onAck msg target sent M)"
proof -
  have r: "mission_account [] M (reject_ids [i] e M)" if "i \<in> set (op_ids (ms_table M))" for i e
    using reject_ids_account [OF M, of "[i]"] that by simp
  have s: "mission_account [] M (settle_op i [ResolveDone i] M)" for i
    using settle_op_account [OF M] by simp
  show ?thesis
    using M r s finishUpload_account [OF M]
    by (simp add: mission_onAck_def Let_def account_same match_ids split: option.split)
qed

lemma mission_onMessage_account:
  "mission_ok None M \<Longrightarrow> mission_account [] M (mission_onMessage msg target sent M)"
  by (simp add: mission_onMessage_def onCount_account onItemInt_account mission_onAck_account onItemRequest_account
      account_same split: option.split)

section \<open>The ledger over runs\<close>

lemma mission_extend [simp]:
  "mission_ok x (M\<lparr>ms_disposed := d\<rparr>) = mission_ok x M"
  "mission_account new (M\<lparr>ms_disposed := d\<rparr>) r = mission_account new M r"
  by (simp_all add: mission_ok_def mission_account_def)

lemma mission_dispose_account: "mission_ok None M \<Longrightarrow> mission_account [] M (mission_dispose M)"
  using reject_every_account [of None "M\<lparr>ms_disposed := True\<rparr>" MDisposed]
  by (auto simp: mission_dispose_def account_same Let_def split_beta) (simp add: mission_account_def)

lemma mission_step_account:
  assumes M: "mission_ok None M"
  shows "step_account (ms_table M) (ms_table (fst (mission_step M e))) (settled_ids (snd (mission_step M e)))"
proof -
  let ?N = "M\<lparr>ms_table := number (ms_table M)\<rparr>" and ?i = "tb_next (ms_table M)"
  have N: "mission_ok None ?N" "?i < tb_next (ms_table ?N)" "?i \<notin> set (table_open (ms_table ?N))"
    using number_ok [of "ms_table M"] M by (simp_all add: mission_ok_def)
  have one: ?thesis if "mission_account [?i] ?N (mission_step M e)"
    using that by (simp add: step_account_def mission_account_def)
  have zero: ?thesis if "mission_account [] M (mission_step M e)"
    using that by (simp add: step_account_def mission_account_def)
  have keep: "mission_account [] M (M', fs)" if "ms_table M' = ms_table M" "settled_ids fs = []" for M' fs
    using that M by (simp add: mission_account_def mission_ok_def accounts_refl)
  show ?thesis
  proof (cases e)
    case (CallDownload t prog signal target sent)
    then show ?thesis using start_download_account [OF N] by (intro one) (simp add: mission_step_def Let_def)
  next
    case (CallUpload t items verify prog signal target sent)
    then show ?thesis using start_upload_account [OF N] by (intro one) (simp add: mission_step_def Let_def)
  next
    case (CallClear t target sent)
    then show ?thesis using start_clear_account [OF N] by (intro one) (simp add: mission_step_def Let_def)
  next
    case (CallSetCurrent seq target sent)
    then show ?thesis using setCurrent_account [OF N] by (intro one) (simp add: mission_step_def Let_def)
  next
    case (MissionIn msg target sent)
    then show ?thesis
      using mission_onMessage_account [OF M] keep by (intro zero) (simp add: mission_step_def Let_def)
  next
    case (MissionFire t sent)
    show ?thesis
    proof (rule zero, cases "timer_handler t (tb_timers (ms_table M))")
      case None
      then show "mission_account [] M (mission_step M e)" using MissionFire keep by (simp add: mission_step_def)
    next
      case (Some i)
      let ?F = "M\<lparr>ms_table := fired t (ms_table M)\<rparr>"
      have "mission_ok (Some i) ?F" "i \<in> set (op_ids (ms_table ?F))"
        using fired_ok [of "ms_table M" t i] M Some by (simp_all add: mission_ok_def)
      from mission_tick_account [OF this, of sent] show "mission_account [] M (mission_step M e)"
        using MissionFire Some by (simp add: mission_step_def mission_account_def accounts_def)
    qed
  next
    case MissionSendFailed
    then show ?thesis using reject_every_account [OF M] by (intro zero) (simp add: mission_step_def)
  next
    case (MissionHostDone i)
    then show ?thesis
      using waited_accounts [of "ms_table M" i] M accounts_refl [of "ms_table M"]
      by (intro zero) (simp add: mission_step_def mission_account_def mission_ok_def)
  next
    case (MissionHostFailed i)
    then show ?thesis
      using waited_accounts [of "ms_table M" i] M accounts_refl [of "ms_table M"]
      by (intro zero) (simp add: mission_step_def mission_account_def mission_ok_def)
  next
    case (MissionAbort s)
    then show ?thesis
      using reject_ids_account [OF M ids_where_distinct [OF M] ids_where_subset]
      by (intro zero) (simp add: mission_step_def)
  next
    case MissionDispose
    then show ?thesis using mission_dispose_account [OF M] by (intro zero) (simp add: mission_step_def)
  qed (use M accounts_refl [of "ms_table M"] in \<open>simp_all add: mission_step_def step_account_def mission_ok_def\<close>)
qed

interpretation mission: promise_ledger mission_step "mission_ok None" "\<lambda>M. table_open (ms_table M)"
  "\<lambda>M. tb_next (ms_table M)" mission_settles
  by unfold_locales (use step_account_laws [OF mission_step_account] in \<open>simp_all add: mission_ok_def\<close>)

lemma createMissionClient_ok [simp]:
  "mission_ok None (createMissionClient a b)" "table_open (ms_table (createMissionClient a b)) = []"
  "tb_next (ms_table (createMissionClient a b)) = 0"
  by (simp_all add: mission_ok_def table_ok_def table_open_def op_ids_def op_slots_def createMissionClient_def
      empty_table_def armed_init)

section \<open>Operations left alone\<close>

definition fire_mission :: "nat \<Rightarrow> bool \<Rightarrow> mission_client \<Rightarrow> mission_result" where
  "fire_mission i sent M =
     mission_step M (MissionFire (case find_op i (ms_table M) of
         Some op \<Rightarrow> (case op_cancelTimer op of Some t \<Rightarrow> t | None \<Rightarrow> 0)
       | None \<Rightarrow> tm_next (tb_timers (ms_table M))) sent)"

definition mission_live :: "nat \<Rightarrow> mission_client \<Rightarrow> bool" where
  "mission_live i M = (i \<in> set (op_ids (ms_table M)))"

definition attempts_of :: "mission_op \<Rightarrow> nat" where
  "attempts_of b = (case b of DownloadOp d \<Rightarrow> db_attempts d | UploadOp u \<Rightarrow> ub_attempts u | ClearOp c \<Rightarrow> cb_attempts c)"

definition mission_budget :: "nat \<Rightarrow> mission_client \<Rightarrow> nat" where
  "mission_budget i M = (case body_of i (ms_table M) of None \<Rightarrow> 0 | Some b \<Rightarrow> ms_maxAttempts M - attempts_of b)"

lemma fire_mission_tick:
  assumes "mission_ok None M" "i \<in> set (op_ids (ms_table M))"
  shows "\<exists>t. fire_mission i sent M = mission_tick i sent (M\<lparr>ms_table := fired t (ms_table M)\<rparr>)"
proof -
  obtain op where op: "find_op i (ms_table M) = Some op" using assms(2) find_op_ids [of i "ms_table M"] by auto
  obtain t where "op_cancelTimer op = Some t" "timer_handler t (tb_timers (ms_table M)) = Some i"
    using own_timer [OF _ op] assms(1) by (auto simp: mission_ok_def)
  then show ?thesis by (auto simp: fire_mission_def op mission_step_def)
qed

lemma reject_close_ids: "set (op_ids (ms_table (fst (reject_ids is e M)))) \<subseteq> set (op_ids (ms_table M))"
proof -
  have "set (op_ids (fold close_op is T)) \<subseteq> set (op_ids T)" for T :: "mission_op table"
  proof (induction "is" arbitrary: T)
    case (Cons i "is")
    then show ?case using Cons.IH [of "close_op i T"] by (auto simp: close_ids)
  qed simp
  then show ?thesis by (simp add: reject_ids_def)
qed

text \<open>A tick that does not end the operation has counted one attempt more.\<close>

lemma emit_keeps:
  assumes "mission_ok x M" "mission_emit msg sent M = (M1, fs)" "i \<in> set (op_ids (ms_table M1))"
  shows "M1 = M"
  using assms reject_every_empty [OF assms(1), of MSendFailed] by (auto simp: mission_emit_def split: if_splits)

lemma tick_shape:
  assumes "body_of i (ms_table M) = Some b" "\<not> ms_maxAttempts M \<le> attempts_of b"
  shows "\<exists>b'. attempts_of b' = Suc (attempts_of b) \<and>
    (fst (mission_tick i sent M) = restart_timer i (set_body i b' M) \<or>
     (\<exists>msg. fst (mission_tick i sent M) = restart_timer i (fst (mission_emit msg sent (set_body i b' M)))))"
proof (cases b)
  case (DownloadOp d)
  have "\<exists>msg. fst (mission_tick i sent M)
      = restart_timer i (fst (mission_emit msg sent (set_body i (DownloadOp (d\<lparr>db_attempts := db_attempts d + 1\<rparr>)) M)))"
    using assms DownloadOp by (auto simp: attempts_of_def mission_tick_def onDownloadTick_def Let_def split_beta
        simp del: split_paired_Ex)
  then show ?thesis
    by (intro exI [of _ "DownloadOp (d\<lparr>db_attempts := db_attempts d + 1\<rparr>)"]) (simp add: attempts_of_def DownloadOp)
next
  case (UploadOp u)
  let ?M = "set_body i (UploadOp (u\<lparr>ub_attempts := ub_attempts u + 1\<rparr>)) M"
  have "fst (mission_tick i sent M) = restart_timer i ?M \<or>
    (\<exists>msg. fst (mission_tick i sent M) = restart_timer i (fst (mission_emit msg sent ?M)))"
    using assms UploadOp
    by (auto simp: attempts_of_def mission_tick_def onUploadTick_def Let_def split_beta
        simp del: split_paired_Ex split_paired_All split: option.split)
  then show ?thesis
    by (intro exI [of _ "UploadOp (u\<lparr>ub_attempts := ub_attempts u + 1\<rparr>)"]) (simp add: attempts_of_def UploadOp)
next
  case (ClearOp c)
  have "\<exists>msg. fst (mission_tick i sent M)
      = restart_timer i (fst (mission_emit msg sent (set_body i (ClearOp (c\<lparr>cb_attempts := cb_attempts c + 1\<rparr>)) M)))"
    using assms ClearOp by (auto simp: attempts_of_def mission_tick_def onClearTick_def Let_def split_beta
        simp del: split_paired_Ex)
  then show ?thesis
    by (intro exI [of _ "ClearOp (c\<lparr>cb_attempts := cb_attempts c + 1\<rparr>)"]) (simp add: attempts_of_def ClearOp)
qed

lemma tick_gives_up:
  "body_of i (ms_table M) = Some b \<Longrightarrow> ms_maxAttempts M \<le> attempts_of b \<Longrightarrow>
   mission_tick i sent M = reject_ids [i] MTimeout M"
  by (cases b)
    (simp_all add: mission_tick_def onDownloadTick_def onUploadTick_def onClearTick_def attempts_of_def)

lemma tick_attempts:
  assumes M: "mission_ok (Some i) M" and b: "body_of i (ms_table M) = Some b"
    and live: "mission_live i (fst (mission_tick i sent M))"
  shows "attempts_of b < ms_maxAttempts M"
    and "\<exists>b'. body_of i (ms_table (fst (mission_tick i sent M))) = Some b' \<and> attempts_of b' = Suc (attempts_of b)"
    and "ms_maxAttempts (fst (mission_tick i sent M)) = ms_maxAttempts M"
proof -
  have go: "\<not> ms_maxAttempts M \<le> attempts_of b"
    using live tick_gives_up [OF b] by (auto simp: mission_live_def reject_ids_def close_ids)
  obtain b' X where X: "attempts_of b' = Suc (attempts_of b)" "fst (mission_tick i sent M) = restart_timer i X"
      "X = set_body i b' M \<or> (\<exists>msg. X = fst (mission_emit msg sent (set_body i b' M)))"
    using tick_shape [OF b go, of sent] by metis
  have "X = set_body i b' M"
  proof -
    have "i \<in> set (op_ids (ms_table X))" using live X(2) by (simp add: mission_live_def restart_timer_def)
    then show ?thesis
      using X(3) emit_keeps [of "Some i" "set_body i b' M"] M by (metis prod.collapse set_body_simps(1))
  qed
  with X have step: "attempts_of b' = Suc (attempts_of b)" "fst (mission_tick i sent M) = restart_timer i (set_body i b' M)"
    by simp_all
  show "attempts_of b < ms_maxAttempts M" using go by simp
  show "\<exists>b'. body_of i (ms_table (fst (mission_tick i sent M))) = Some b' \<and> attempts_of b' = Suc (attempts_of b)"
    using step by (simp add: restart_timer_def set_body_def body_update b)
  show "ms_maxAttempts (fst (mission_tick i sent M)) = ms_maxAttempts M"
    by (simp add: step restart_timer_def set_body_def)
qed

interpretation mission_op: patience "fire_mission i sent" "mission_live i" "mission_ok None" "mission_budget i" for i sent
proof
  fix M assume M: "mission_ok None M"
  show "mission_ok None (fst (fire_mission i sent M))"
    using mission.inv_step [OF M] by (simp add: fire_mission_def)
  assume "mission_live i M" and live: "mission_live i (fst (fire_mission i sent M))"
  then have i: "i \<in> set (op_ids (ms_table M))" by (simp add: mission_live_def)
  obtain op where op: "find_op i (ms_table M) = Some op" using i find_op_ids [of i "ms_table M"] by auto
  obtain t where t: "op_cancelTimer op = Some t" "timer_handler t (tb_timers (ms_table M)) = Some i"
    using own_timer [OF _ op] M by (auto simp: mission_ok_def)
  let ?F = "M\<lparr>ms_table := fired t (ms_table M)\<rparr>"
  have fire: "fire_mission i sent M = mission_tick i sent ?F"
    by (simp add: fire_mission_def op t mission_step_def)
  have F: "mission_ok (Some i) ?F" using fired_ok(1) [of "ms_table M" t i] M t by (simp add: mission_ok_def)
  have b: "body_of i (ms_table ?F) = Some (op_body op)" by (simp add: body_of_def op)
  have bM: "body_of i (ms_table M) = Some (op_body op)" by (simp add: body_of_def op)
  from tick_attempts [OF F b, of sent] live show "mission_budget i (fst (fire_mission i sent M)) < mission_budget i M"
    unfolding fire mission_budget_def bM by auto
qed

lemma mission_idle_run: "\<exists>es. idle (fire_mission i sent) (mission_live i) n M = run_steps mission_step M es"
  by (rule idle_run) (auto simp: fire_mission_def)

end
