(* ===== verification/Mission_Properties.thy ===== *)
theory Mission_Properties
  imports Mission_Safety
begin

text \<open>
  The properties of the mission client: its promises and timers, the end of operations left alone, the
  mission a download returns, the items an upload sends, and an acknowledgement that is attributed to
  the wrong operation.
\<close>

section \<open>A truthful vehicle\<close>

text \<open>
  The vehicle stores the mission \<open>V 0, \<dots>, V (N - 1)\<close>: every MISSION_COUNT that arrives says \<open>N\<close>, every
  MISSION_ITEM_INT with sequence number \<open>k\<close> carries \<open>V k\<close>. Messages may be lost, repeated and reordered.
\<close>

fun truthful :: "(nat \<Rightarrow> mission_item) \<Rightarrow> nat \<Rightarrow> mission_event \<Rightarrow> bool" where
  "truthful V N (MissionIn msg _ _) =
     ((dm_name msg = ''MISSION_COUNT'' \<longrightarrow> field_or_0 (dm_fields msg) ''count'' = js_nat N) \<and>
      (dm_name msg = ''MISSION_ITEM_INT'' \<longrightarrow>
         (\<forall>seq k. numField (dm_fields msg) ''seq'' = Some seq \<longrightarrow> js_eq seq (js_nat k) \<longrightarrow>
            itemFromMessage (dm_fields msg) = V k)))"
| "truthful V N _ = True"

definition download_ok :: "(nat \<Rightarrow> mission_item) \<Rightarrow> nat \<Rightarrow> mission_op \<Rightarrow> bool" where
  "download_ok V N b =
     (case b of
        DownloadOp d \<Rightarrow>
          (case db_phase d of
             CountPhase \<Rightarrow> db_items d = []
           | ItemsPhase \<Rightarrow> db_count d = js_nat N \<and> db_expectedSeq d < N \<and>
               db_items d = map (\<lambda>k. (k, V k)) [0..<db_expectedSeq d])
      | _ \<Rightarrow> True)"

abbreviation downloads_ok :: "(nat \<Rightarrow> mission_item) \<Rightarrow> nat \<Rightarrow> mission_client \<Rightarrow> bool" where
  "downloads_ok V N M \<equiv> all_bodies (\<lambda>_. download_ok V N) (ms_table M)"

text \<open>What resolved downloads and read-backs carry.\<close>

definition tells_truth :: "mission_item list \<Rightarrow> mission_effect list \<Rightarrow> bool" where
  "tells_truth items fs = (\<forall>i t its. ResolveMission i t its \<in> set fs \<longrightarrow> its = items)"

lemma tells_truth_simps [simp]:
  "tells_truth items []" "tells_truth items (fs @ gs) = (tells_truth items fs \<and> tells_truth items gs)"
  "tells_truth items (map (\<lambda>i. RejectMission i e) is)" "tells_truth items (map (\<lambda>cb. NotifyCurrent cb s) cbs)"
  "tells_truth items (map (\<lambda>cb. NotifyReached cb s) cbs)"
  "tells_truth items [SendMission n f]" "tells_truth items [RejectMission i e]" "tells_truth items [ResolveDone i]"
  "tells_truth items [MissionProgress i a b]"
  by (auto simp: tells_truth_def)

lemma tells_downloaded: "tells_truth items (downloaded i b items)"
  by (simp add: tells_truth_def downloaded_def split: option.split)

text \<open>Sending and settling keep the bodies and resolve nothing of their own.\<close>

lemma reject_every_keeps [simp]:
  "downloads_ok V N M \<Longrightarrow> downloads_ok V N (fst (reject_every e M))" "tells_truth items (snd (reject_every e M))"
  by (simp_all add: reject_every_def reject_ids_def all_bodies_close_all)

lemma emit_ok [simp]:
  "downloads_ok V N M \<Longrightarrow> downloads_ok V N (fst (mission_emit msg sent M))"
  "tells_truth items (snd (mission_emit msg sent M))"
  by (simp_all add: mission_emit_def)

lemma settle_ok [simp]:
  "downloads_ok V N M \<Longrightarrow> downloads_ok V N (fst (settle_op i fs M))"
  "tells_truth items fs \<Longrightarrow> tells_truth items (snd (settle_op i fs M))"
  by (simp_all add: settle_op_def all_bodies_close split: option.split)

lemma restart_ok [simp]: "downloads_ok V N (restart_timer i M) = downloads_ok V N M"
  by (simp add: restart_timer_def)

lemma set_body_ok: "downloads_ok V N M \<Longrightarrow> download_ok V N b \<Longrightarrow> downloads_ok V N (set_body i b M)"
  by (simp add: set_body_def all_bodies_update)

lemma reject_ids_ok [simp]:
  "downloads_ok V N M \<Longrightarrow> downloads_ok V N (fst (reject_ids is e M))" "tells_truth items (snd (reject_ids is e M))"
  by (simp_all add: reject_ids_def all_bodies_close_all)

lemma start_download_ok:
  "downloads_ok V N M \<Longrightarrow> downloads_ok V N (fst (start_download i t prog signal verify target sent M))"
  "tells_truth items (snd (start_download i t prog signal verify target sent M))"
  by (simp_all add: start_download_def Let_def download_ok_def split: option.split)

lemma start_other_ok:
  "downloads_ok V N M \<Longrightarrow> downloads_ok V N (fst (start_upload i t its verify prog signal target sent M)) \<and>
     tells_truth items (snd (start_upload i t its verify prog signal target sent M))"
  "downloads_ok V N M \<Longrightarrow> downloads_ok V N (fst (start_clear i t target sent M)) \<and>
     tells_truth items (snd (start_clear i t target sent M))"
  "downloads_ok V N M \<Longrightarrow> downloads_ok V N (fst (setCurrent i seq target sent M)) \<and>
     tells_truth items (snd (setCurrent i seq target sent M))"
  by (simp_all add: start_upload_def start_clear_def setCurrent_def Let_def download_ok_def split: option.split)

lemma matched_download_ok:
  assumes "matchDownload M msg = Some (i, b)" "downloads_ok V N M"
  shows "download_ok V N (DownloadOp b)"
  using matchDownloadD [OF assms(1)] assms(2) by (auto simp: all_bodies_def list_all_iff)

lemma onCount_ok:
  assumes M: "downloads_ok V N M" and c: "field_or_0 (dm_fields msg) ''count'' = js_nat N"
  shows "downloads_ok V N (fst (onCount msg sent M)) \<and> tells_truth (map V [0..<N]) (snd (onCount msg sent M))"
proof (cases "matchDownload M msg")
  case (Some ib)
  then obtain i b where m: "matchDownload M msg = Some (i, b)" by (cases ib) simp
  show ?thesis
  proof (cases "db_phase b = CountPhase")
    case True
    then have b: "db_items b = []" using matched_download_ok [OF m M] by (simp add: download_ok_def)
    show ?thesis
    proof (cases "N = 0")
      case True
      then show ?thesis
        using M b \<open>db_phase b = CountPhase\<close>
        by (simp add: onCount_def m Let_def split_beta c js_nat_def js_le_def set_body_ok download_ok_def
            tells_downloaded [of "[]"])
    next
      case False
      then have "\<not> js_le (js_nat N) (Num 0)" by (simp add: js_nat_def js_le_def)
      then show ?thesis
        using M b False \<open>db_phase b = CountPhase\<close>
        by (simp add: onCount_def m Let_def split_beta c set_body_ok download_ok_def)
    qed
  qed (simp add: onCount_def m M)
qed (simp add: onCount_def M)

lemma update_next: "AList.update n y (map (\<lambda>k. (k, V k)) [0..<n]) = map (\<lambda>k. (k, V k)) [0..<n] @ [(n, y)]"
proof -
  have "AList.update n y xs = xs @ [(n, y)]" if "n \<notin> fst ` set xs" for xs :: "(nat \<times> 'a) list"
    using that by (induction xs) auto
  from this [of "map (\<lambda>k. (k, V k)) [0..<n]"] show ?thesis by (simp add: image_image)
qed

lemma build_all: "map (\<lambda>s. the (map_of (map (\<lambda>k. (k, V k)) [0..<n]) s)) (sort [0..<n]) = map V [0..<n]"
proof -
  have "map_of (map (\<lambda>k. (k, V k)) ks) s = (if s \<in> set ks then Some (V s) else None)" for ks s
    by (induction ks) auto
  then show ?thesis by (simp add: sorted_sort_id)
qed

lemma finish_ok:
  assumes "mission_ok None M" "downloads_ok V N M"
  shows "downloads_ok V N (fst (settle_op i fs (fst (mission_emit msg sent (set_body i b M)))))"
proof (cases sent)
  case True
  let ?T = "update_body i (\<lambda>_. b) (ms_table M)"
  have c: "downloads_ok V N (M\<lparr>ms_table := close_op i ?T\<rparr>)" using assms(2) by (simp add: all_bodies_update_close)
  show ?thesis
  proof (cases "find_op i ?T")
    case None
    then have "close_op i ?T = ?T" by (simp add: close_op_def)
    with c None True show ?thesis by (simp add: mission_emit_def settle_op_def set_body_def)
  next
    case (Some op)
    with c True show ?thesis by (simp add: mission_emit_def settle_op_def set_body_def)
  qed
next
  case False
  have "op_ids (ms_table (fst (reject_every MSendFailed (set_body i b M)))) = []"
    using reject_every_empty assms(1) by simp
  then show ?thesis using False by (simp add: mission_emit_def all_bodies_def op_ids_def settle_op_def find_op_def)
qed

lemma onItemInt_ok:
  assumes ok: "mission_ok None M" and M: "downloads_ok V N M"
    and t: "\<And>seq k. numField (dm_fields msg) ''seq'' = Some seq \<Longrightarrow> js_eq seq (js_nat k) \<Longrightarrow> itemFromMessage (dm_fields msg) = V k"
  shows "downloads_ok V N (fst (onItemInt msg sent M)) \<and> tells_truth (map V [0..<N]) (snd (onItemInt msg sent M))"
proof (cases "matchDownload M msg")
  case (Some ib)
  then obtain i b where m: "matchDownload M msg = Some (i, b)" by (cases ib) simp
  show ?thesis
  proof (cases "numField (dm_fields msg) ''seq''")
    case (Some seq)
    show ?thesis
    proof (cases "db_phase b = ItemsPhase \<and> js_eq seq (js_nat (db_expectedSeq b))")
      case True
      let ?n = "db_expectedSeq b"
      have b: "db_count b = js_nat N" "?n < N" "db_items b = map (\<lambda>k. (k, V k)) [0..<?n]"
        using matched_download_ok [OF m M] True by (simp_all add: download_ok_def)
      have "itemFromMessage (dm_fields msg) = V ?n" using t Some True by blast
      then have items: "AList.update ?n (itemFromMessage (dm_fields msg)) (db_items b) = map (\<lambda>k. (k, V k)) [0..<Suc ?n]"
        by (simp add: b(3) update_next)
      define b1 where "b1 = b\<lparr>db_items := map (\<lambda>k. (k, V k)) [0..<Suc ?n]\<rparr>"
      have b1: "buildMission b1 = map V [0..<Suc ?n]" "db_count b1 = js_nat N" "db_expectedSeq b1 = ?n"
        "db_phase b1 = ItemsPhase" "length (db_items b1) = Suc ?n"
        using build_all [of V "Suc ?n"] b(1) True by (simp_all add: buildMission_def b1_def comp_def del: upt_Suc)
      show ?thesis
      proof (cases "N = Suc ?n")
        case True
        then have go: "js_le (js_nat N) (js_nat (Suc ?n))" by simp
        show ?thesis
          using M True tells_downloaded [of "map V [0..<Suc ?n]" i b1]
          by (simp add: onItemInt_def m Some Let_def split_beta items b1_def [symmetric] b1 go finish_ok [OF ok]
              del: upt_Suc)
      next
        case False
        then have go: "\<not> N \<le> Suc ?n" using b(2) by simp
        have "download_ok V N (DownloadOp (b1\<lparr>db_expectedSeq := Suc ?n, db_attempts := a\<rparr>))" for a
          using b1 b(2) False by (simp add: download_ok_def b1_def del: upt_Suc)
        then show ?thesis
          using M True
          by (simp add: onItemInt_def m Some Let_def split_beta items b1_def [symmetric] b1 go set_body_ok del: upt_Suc)
      qed
    qed (auto simp: onItemInt_def m M Some)
  qed (simp add: onItemInt_def m M)
qed (simp add: onItemInt_def M)

lemma onItemRequest_ok:
  assumes "downloads_ok V N M"
  shows "downloads_ok V N (fst (onItemRequest msg sent M)) \<and> tells_truth items (snd (onItemRequest msg sent M))"
proof -
  have "downloads_ok V N (set_body i (UploadOp b) M)" for i b
    using assms by (simp add: set_body_ok download_ok_def)
  then show ?thesis
    using assms by (simp add: onItemRequest_def Let_def split_beta split: option.split)
qed

lemma mission_onAck_ok:
  assumes "downloads_ok V N M"
  shows "downloads_ok V N (fst (mission_onAck msg target sent M)) \<and> tells_truth items (snd (mission_onAck msg target sent M))"
proof -
  have "downloads_ok V N (M\<lparr>ms_table := close_op i (ms_table M)\<rparr>)" for i
    using assms by (simp add: all_bodies_close)
  then show ?thesis
    using assms start_download_ok
    by (simp add: mission_onAck_def finishUpload_def Let_def split: option.split)
qed

lemma tick_ok:
  assumes "downloads_ok V N M"
  shows "downloads_ok V N (fst (mission_tick i sent M)) \<and> tells_truth items (snd (mission_tick i sent M))"
proof (cases "body_of i (ms_table M)")
  case (Some b)
  have Q: "download_ok V N b" using assms Some by (rule all_bodies_body)
  show ?thesis
  proof (cases b)
    case (DownloadOp d)
    then have "downloads_ok V N (set_body i (DownloadOp (d\<lparr>db_attempts := a\<rparr>)) M)" for a
      using Q by (intro set_body_ok [OF assms]) (simp add: download_ok_def split: mission_phase.splits)
    then show ?thesis
      using assms by (simp add: mission_tick_def Some DownloadOp onDownloadTick_def Let_def split_beta)
  next
    case (UploadOp u)
    have "downloads_ok V N (set_body i (UploadOp u') M)" for u'
      by (intro set_body_ok [OF assms]) (simp add: download_ok_def)
    then show ?thesis
      using assms by (simp add: mission_tick_def Some UploadOp onUploadTick_def Let_def split_beta split: option.split)
  next
    case (ClearOp c)
    have "downloads_ok V N (set_body i (ClearOp c') M)" for c'
      by (intro set_body_ok [OF assms]) (simp add: download_ok_def)
    then show ?thesis
      using assms by (simp add: mission_tick_def Some ClearOp onClearTick_def Let_def split_beta)
  qed
qed (simp add: mission_tick_def assms)

lemma mission_step_ok:
  assumes ok: "mission_ok None M" and M: "downloads_ok V N M" and e: "truthful V N e"
  shows "downloads_ok V N (fst (mission_step M e)) \<and> tells_truth (map V [0..<N]) (snd (mission_step M e))"
proof (cases e)
  case (MissionIn msg target sent)
  have "downloads_ok V N (fst (mission_onMessage msg target sent M)) \<and>
    tells_truth (map V [0..<N]) (snd (mission_onMessage msg target sent M))"
    using onCount_ok [OF M] onItemInt_ok [OF ok M] onItemRequest_ok [OF M] mission_onAck_ok [OF M] M e
    by (simp add: mission_onMessage_def MissionIn split: option.split)
  then show ?thesis using M by (simp add: mission_step_def MissionIn)
next
  case (MissionFire t sent)
  then show ?thesis
    using M tick_ok [of V N "M\<lparr>ms_table := fired t (ms_table M)\<rparr>"] by (simp add: mission_step_def split: option.split)
next
  case MissionDispose
  have "downloads_ok V N (M\<lparr>ms_disposed := True\<rparr>)" using M by simp
  then show ?thesis using M by (simp add: mission_step_def MissionDispose mission_dispose_def Let_def split_beta)
qed (use M start_download_ok start_other_ok in \<open>simp_all add: mission_step_def Let_def\<close>)

lemma mission_run_ok:
  "mission_ok None M \<Longrightarrow> downloads_ok V N M \<Longrightarrow> list_all (truthful V N) es \<Longrightarrow>
   downloads_ok V N (fst (run_steps mission_step M es)) \<and> tells_truth (map V [0..<N]) (snd (run_steps mission_step M es))"
proof (induction es arbitrary: M)
  case (Cons e es)
  have "mission_ok None (fst (mission_step M e))" using Cons.prems(1) by (rule mission.inv_step)
  then show ?case
    using Cons.IH mission_step_ok [OF Cons.prems(1,2), of e] Cons.prems(3) by (simp add: Let_def split_beta)
qed simp

section \<open>Calls awaiting the host are left alone\<close>

lemma waiting_frame [simp]:
  "tb_waiting (ms_table (restart_timer i M)) = tb_waiting (ms_table M)"
  "tb_waiting (ms_table (set_body i b M)) = tb_waiting (ms_table M)"
  "tb_waiting (ms_table (fst (reject_ids is e M))) = tb_waiting (ms_table M)"
  "tb_waiting (ms_table (fst (mission_emit msg sent M))) = tb_waiting (ms_table M)"
  by (simp_all add: restart_timer_def set_body_def reject_ids_def mission_emit_def reject_every_def)

lemma tick_waiting: "tb_waiting (ms_table (fst (mission_tick i sent M))) = tb_waiting (ms_table M)"
  by (simp add: mission_tick_def onDownloadTick_def onUploadTick_def onClearTick_def Let_def split_beta
      split: option.split mission_op.split)

section \<open>Properties\<close>

text \<open>
  Every call of the mission client settles at most once and is never lost: over any interleaving of
  downloads, uploads with and without read-back, clears, messages, timers, failed sends, aborts and disposal,
  the promise of call number \<open>i\<close> has either been settled exactly once and is no longer open, or is open
  and has not been settled. The promise of a verified upload passes to its read-back.
\<close>

theorem mission_promises_settle_once:
  "count (mset (List.map_filter mission_settles (snd (run_steps mission_step (createMissionClient a b) es)))) i
   + count (mset (table_open (ms_table (fst (run_steps mission_step (createMissionClient a b) es))))) i
   = (if i < tb_next (ms_table (fst (run_steps mission_step (createMissionClient a b) es))) then 1 else 0)"
  by (rule mission.settled_once) simp_all

text \<open>
  C12. No transfer hangs: in any reachable state, a download, upload or clear that hears nothing more is
  settled after at most \<open>maxAttempts + 1\<close> of its timers, whether its resends succeed or throw.
\<close>

theorem silent_mission_ends:
  assumes "M = fst (run_steps mission_step (createMissionClient a b) es)" "i \<in> set (op_ids (ms_table M))"
    and "idle (fire_mission i sent) (mission_live i) (ms_maxAttempts M + 1) M = (M', fs)"
  shows "i \<notin> set (op_ids (ms_table M')) \<and> i \<in> set (List.map_filter mission_settles fs)"
proof -
  have ok: "mission_ok None M" unfolding assms(1) by (rule mission.run_inv) simp
  have "mission_budget i M < ms_maxAttempts M + 1" by (simp add: mission_budget_def less_Suc_eq_le split: option.split)
  from mission_op.ends [OF ok this, where sent = sent] assms(3) have gone: "i \<notin> set (op_ids (ms_table M'))"
    by (simp add: mission_live_def del: idle.simps)
  obtain es' where r: "run_steps mission_step M es' = (M', fs)" using mission_idle_run [of i sent _ M] assms(3) by metis
  have "tb_waiting (ms_table (fst (fire_mission i sent s))) = tb_waiting (ms_table s)"
    if s: "mission_ok None s" and live: "mission_live i s" for s
  proof -
    obtain t where "fire_mission i sent s = mission_tick i sent (s\<lparr>ms_table := fired t (ms_table s)\<rparr>)"
      using fire_mission_tick [OF s] live by (auto simp: mission_live_def)
    then show ?thesis by (simp add: tick_waiting)
  qed
  then have "tb_waiting (ms_table M') = tb_waiting (ms_table M)"
    using mission_op.keeps [where Q = "\<lambda>s. tb_waiting (ms_table s) = tb_waiting (ms_table M)", OF _ ok refl] assms(3)
    by (metis fst_conv)
  moreover have "i \<notin> set (tb_waiting (ms_table M))"
    using ok assms(2) by (auto simp: mission_ok_def table_ok_def table_open_def)
  ultimately have "i \<notin> set (table_open (ms_table M'))" using gone by (simp add: table_open_def)
  then show ?thesis using mission.left_settled [OF ok, of i es'] gone assms(2) r by (simp add: table_open_def)
qed

text \<open>The data of the witnesses.\<close>

definition vehicle1 :: target where "vehicle1 = \<lparr>tg_sysid = 1, tg_compid = 1\<rparr>"

definition mission_message :: "string \<Rightarrow> (string \<rightharpoonup> field_value) \<Rightarrow> decoded_message" where
  "mission_message name fs =
     \<lparr>dm_sysid = 1, dm_compid = 1, dm_seq = 0, dm_msgId = 0, dm_name = name, dm_fields = fs,
      dm_crcOk = True, dm_signed = False, dm_linkId = None, dm_rxTimeUs = 0, dm_raw = [0xfd]\<rparr>"

abbreviation fresh :: mission_client where
  "fresh \<equiv> createMissionClient None None"

definition one_clear :: mission_client where
  "one_clear = fst (run_steps mission_step fresh [CallClear FenceItems (Some vehicle1) True])"

lemma one_clear_ids: "op_ids (ms_table one_clear) = [0]"
  by (simp add: one_clear_def mission_step_def Let_def start_clear_def mission_emit_def createMissionClient_def
      empty_table_def op_ids_def number_def open_op_def set_timer_def)

theorem silent_mission_ends_witness:
  "0 \<notin> set (op_ids (ms_table (fst (idle (fire_mission 0 True) (mission_live 0) (ms_maxAttempts one_clear + 1) one_clear)))) \<and>
   0 \<in> set (List.map_filter mission_settles
     (snd (idle (fire_mission 0 True) (mission_live 0) (ms_maxAttempts one_clear + 1) one_clear)))"
  by (rule silent_mission_ends [OF one_clear_def]) (simp_all add: one_clear_ids del: idle.simps)

text \<open>
  C11. A download returns the vehicle's mission: if every count and item that arrives is that of the mission
  \<open>V 0, \<dots>, V (N - 1)\<close>, then whatever is lost, repeated, reordered or retried, a download that resolves
  resolves with exactly these items in order.
\<close>

theorem download_returns_vehicle_mission:
  assumes "list_all (truthful V N) es"
    and "ResolveMission i t items \<in> set (snd (run_steps mission_step (createMissionClient a b) es))"
  shows "items = map V [0..<N]"
proof -
  have "downloads_ok V N (createMissionClient a b)"
    by (simp add: createMissionClient_def empty_table_def all_bodies_def)
  from mission_run_ok [OF _ this assms(1)] assms(2) show ?thesis by (auto simp: tells_truth_def)
qed

definition waypoint :: "(string \<rightharpoonup> field_value)" where
  "waypoint = [''seq'' \<mapsto> FNum (js_nat 0), ''command'' \<mapsto> FNum (js_nat 16)]"

definition one_item_session :: "mission_event list" where
  "one_item_session =
     [CallDownload MissionItems False None (Some vehicle1) True,
      MissionIn (mission_message ''MISSION_COUNT'' [''count'' \<mapsto> FNum (js_nat 1)]) None True,
      MissionIn (mission_message ''MISSION_ITEM_INT'' waypoint) None True]"

lemma one_item_resolves:
  "ResolveMission 0 MissionItems [itemFromMessage waypoint] \<in> set (snd (run_steps mission_step fresh one_item_session))"
  by (simp add: one_item_session_def mission_step_def start_download_def mission_emit_def createMissionClient_def
      empty_table_def number_def open_op_def set_timer_def no_timers_def mission_onMessage_def mission_message_def
      onCount_def matchDownload_def pick_def canRelaxMissionType_def isMavlinkV1_def first_byte_def numField_def
      from_source_def vehicle1_def field_or_0_def js_nat_def js_le_def set_body_def update_body_def restart_timer_def
      arm_op_def find_op_def onItemInt_def settle_op_def downloaded_def buildMission_def waypoint_def Let_def)

theorem download_returns_vehicle_mission_witness:
  "[itemFromMessage waypoint] = map (\<lambda>_. itemFromMessage waypoint) [0..<1]"
  by (rule download_returns_vehicle_mission [OF _ one_item_resolves])
    (simp add: one_item_session_def mission_message_def field_or_0_def numField_def)

text \<open>
  An upload answers each request with the item asked for: a MISSION_REQUEST or MISSION_REQUEST_INT for
  index \<open>k\<close> below the number of items, matched to the upload, sends item \<open>k\<close> to the upload's target with the
  upload's mission type, reports progress, and starts a fresh round of attempts.
\<close>

theorem upload_answers_requests:
  assumes "dm_name msg = ''MISSION_REQUEST_INT'' \<or> dm_name msg = ''MISSION_REQUEST''" "\<not> ms_disposed M"
    and m: "matchUpload M msg = Some (i, b)"
    and k: "numField (dm_fields msg) ''seq'' = Some (js_nat k)" "k < length (ub_items b)"
  shows "snd (mission_step M (MissionIn msg target True))
      = SendMission (fst (item_int (ub_target b) (ub_items b ! k) (ub_type b))) (snd (item_int (ub_target b) (ub_items b ! k) (ub_type b)))
        # (if ub_onProgress b then [MissionProgress i (js_add (js_nat k) (Num 1)) (js_nat (length (ub_items b)))] else [])
    \<and> body_of i (ms_table (fst (mission_step M (MissionIn msg target True))))
      = Some (UploadOp (b\<lparr>ub_phase := ItemsPhase, ub_lastSeq := js_nat k, ub_attempts := 1\<rparr>))"
proof -
  have "i \<in> set (op_ids (ms_table M))" using m by (rule match_ids(2))
  then obtain b' where "body_of i (ms_table M) = Some b'" using body_ids [of i "ms_table M"] by auto
  moreover have "item_at (ub_items b) (js_nat k) = Some (ub_items b ! k)" using k(2) by (simp add: item_at_def js_nat_def)
  moreover have "\<not> js_lt (js_nat k) (Num 0)" "\<not> js_le (js_nat (length (ub_items b))) (js_nat k)"
  proof -
    have "Num 0 = js_nat 0" by (simp add: js_nat_def)
    then show "\<not> js_lt (js_nat k) (Num 0)" by (simp only: js_lt_nat)
    show "\<not> js_le (js_nat (length (ub_items b))) (js_nat k)" using k(2) by simp
  qed
  ultimately show ?thesis
    using assms
    by (auto simp: mission_step_def mission_onMessage_def onItemRequest_def mission_emit_def restart_timer_def set_body_def
        body_update Let_def)
qed

definition one_upload :: mission_client where
  "one_upload = fst (run_steps mission_step fresh
     [CallUpload MissionItems [itemFromMessage waypoint] False True None (Some vehicle1) True])"

definition first_request :: decoded_message where
  "first_request = mission_message ''MISSION_REQUEST_INT'' [''seq'' \<mapsto> FNum (js_nat 0)]"

definition upload_of_one :: upload_body where
  "upload_of_one =
     \<lparr>ub_type = MissionItems, ub_target = vehicle1, ub_items = [itemFromMessage waypoint], ub_verify = False,
      ub_signal = None, ub_phase = CountPhase, ub_lastSeq = js_int (- 1), ub_attempts = 1, ub_onProgress = True\<rparr>"

lemma one_upload_matches:
  "matchUpload one_upload first_request = Some (0, upload_of_one)" "\<not> ms_disposed one_upload"
  by (simp_all add: one_upload_def mission_step_def Let_def start_upload_def mission_emit_def createMissionClient_def
      empty_table_def number_def open_op_def set_timer_def no_timers_def first_request_def upload_of_one_def
      mission_message_def matchUpload_def pick_def canRelaxMissionType_def isMavlinkV1_def first_byte_def numField_def
      from_source_def vehicle1_def)

theorem upload_answers_requests_witness:
  "snd (mission_step one_upload (MissionIn first_request None True))
   = [SendMission (fst (item_int vehicle1 (itemFromMessage waypoint) MissionItems))
        (snd (item_int vehicle1 (itemFromMessage waypoint) MissionItems)),
      MissionProgress 0 (js_add (js_nat 0) (Num 1)) (js_nat 1)]"
proof -
  have "dm_name first_request = ''MISSION_REQUEST_INT''" "numField (dm_fields first_request) ''seq'' = Some (js_nat 0)"
    by (simp_all add: first_request_def mission_message_def numField_def)
  then show ?thesis
    using upload_answers_requests [OF _ one_upload_matches(2,1), of 0 None] by (simp add: upload_of_one_def)
qed

text \<open>
  A fault of the attribution of acknowledgements: with a fence upload and a mission clear in flight, the
  accepting MISSION_ACK for the clear (mission type 0, MAVLink 2) resolves the upload, of which no item has
  been requested, and leaves the clear open.
\<close>

theorem clear_ack_resolves_upload:
  "snd (run_steps mission_step (createMissionClient a b)
     [CallUpload FenceItems items False False None (Some vehicle1) True,
      CallClear MissionItems (Some vehicle1) True,
      MissionIn (mission_message ''MISSION_ACK'' [''type'' \<mapsto> FNum (Num 0), ''mission_type'' \<mapsto> FNum (Num 0)]) None True])
   = [SendMission (fst (count_message vehicle1 (length items) FenceItems)) (snd (count_message vehicle1 (length items) FenceItems)),
      SendMission (fst (clear_all vehicle1 MissionItems)) (snd (clear_all vehicle1 MissionItems)), ResolveDone 0]"
  by (simp add: mission_step_def start_upload_def start_clear_def mission_emit_def createMissionClient_def
      empty_table_def number_def open_op_def set_timer_def no_timers_def mission_onMessage_def mission_message_def
      mission_onAck_def matchUpload_def pick_def canRelaxMissionType_def isMavlinkV1_def first_byte_def numField_def
      from_source_def vehicle1_def field_or_0_def MAV_MISSION_ACCEPTED_def js_nat_def finishUpload_def Let_def)

end
