(* ===== verification/Byte_Ranges.thy ===== *)
theory Byte_Ranges
  imports Prelude
begin

text \<open>
  The received byte ranges of a download, \<open>addRange\<close> and \<open>missingByteRanges\<close> of
  \<open>src/mavlink/microservices/log/log-client.ts\<close>: a sorted list of disjoint, non-adjacent ranges
  \<open>[start, end)\<close>. The contract of such a cover is the locale \<open>byte_cover\<close>.
\<close>

record byte_range =
  rg_start :: nat
  rg_stop :: nat

abbreviation range_of :: "nat \<Rightarrow> nat \<Rightarrow> byte_range" where
  "range_of s e \<equiv> \<lparr>rg_start = s, rg_stop = e\<rparr>"

text \<open>
  The \<open>while\<close> loop of \<open>addRange\<close>: ranges before the new one are passed, ranges it meets are merged into
  it and taken out, and it is inserted before the first range after it. Returns the new list and the
  number of bytes that were covered already.
\<close>

fun merge_range :: "byte_range list \<Rightarrow> nat \<Rightarrow> nat \<Rightarrow> nat \<Rightarrow> byte_range list \<times> nat" where
  "merge_range [] newStart newEnd cov = ([range_of newStart newEnd], cov)"
| "merge_range (r # rs) newStart newEnd cov =
     (if rg_stop r < newStart then (case merge_range rs newStart newEnd cov of (rs', c) \<Rightarrow> (r # rs', c))
      else if newEnd < rg_start r then (range_of newStart newEnd # r # rs, cov)
      else merge_range rs (min newStart (rg_start r)) (max newEnd (rg_stop r))
             (cov + (min newEnd (rg_stop r) - max newStart (rg_start r))))"

definition addRange :: "byte_range list \<Rightarrow> nat \<Rightarrow> nat \<Rightarrow> byte_range list \<times> nat" where
  "addRange rs s e =
     (if e \<le> s then (rs, 0)
      else case merge_range rs s e 0 of (rs', cov) \<Rightarrow> (rs', e - s - cov))"

fun gaps_from :: "nat \<Rightarrow> byte_range list \<Rightarrow> nat \<Rightarrow> byte_range list" where
  "gaps_from pos [] tot = (if pos < tot then [range_of pos tot] else [])"
| "gaps_from pos (r # rs) tot =
     (if pos < rg_start r then [range_of pos (rg_start r)] else []) @ gaps_from (max pos (rg_stop r)) rs tot"

definition missingByteRanges :: "byte_range list \<Rightarrow> nat \<Rightarrow> byte_range list" where
  "missingByteRanges rs tot = gaps_from 0 rs tot"

section \<open>The bytes a list of ranges stands for\<close>

definition range_bytes :: "byte_range \<Rightarrow> nat set" where
  "range_bytes r = {rg_start r..<rg_stop r}"

definition covered :: "byte_range list \<Rightarrow> nat set" where
  "covered rs = (\<Union>r\<in>set rs. range_bytes r)"

text \<open>Sorted, disjoint, not even touching, none empty, all from \<open>lo\<close> on.\<close>

fun ranges_ok :: "nat \<Rightarrow> byte_range list \<Rightarrow> bool" where
  "ranges_ok lo [] = True"
| "ranges_ok lo (r # rs) = (lo \<le> rg_start r \<and> rg_start r < rg_stop r \<and> ranges_ok (Suc (rg_stop r)) rs)"

lemma covered_simps [simp]:
  "covered [] = {}" "covered (r # rs) = range_bytes r \<union> covered rs" "covered (rs @ rs') = covered rs \<union> covered rs'"
  by (auto simp: covered_def)

lemma ranges_ok_lower: "ranges_ok lo rs \<Longrightarrow> lo' \<le> lo \<Longrightarrow> ranges_ok lo' rs"
  by (cases rs) auto

lemma covered_above: "ranges_ok lo rs \<Longrightarrow> x \<in> covered rs \<Longrightarrow> lo \<le> x"
  by (induction rs arbitrary: lo) (fastforce simp: range_bytes_def)+

lemma finite_covered [simp]: "finite (covered rs)"
  by (induction rs) (simp_all add: range_bytes_def)

lemma merge_range_spec:
  assumes "ranges_ok lo rs" "s < e" "lo \<le> s" "merge_range rs s e cov = (rs', c)"
  shows "ranges_ok lo rs' \<and> covered rs' = covered rs \<union> {s..<e} \<and> c = cov + card ({s..<e} \<inter> covered rs)"
  using assms
proof (induction rs s e cov arbitrary: lo rs' c rule: merge_range.induct)
  case (1 s e cov)
  then show ?case by (auto simp: range_bytes_def)
next
  case (2 r rs s e cov)
  have r: "lo \<le> rg_start r" "rg_start r < rg_stop r" "ranges_ok (Suc (rg_stop r)) rs" using "2.prems"(1) by auto
  have above: "x \<in> covered rs \<Longrightarrow> rg_stop r < x" for x using covered_above [OF r(3), of x] by simp
  consider "rg_stop r < s" | "\<not> rg_stop r < s" "e < rg_start r" | "\<not> rg_stop r < s" "\<not> e < rg_start r" by blast
  then show ?case
  proof cases
    case 1
    obtain rs1 where m: "merge_range rs s e cov = (rs1, c)" "rs' = r # rs1"
      using "2.prems"(4) 1 by (auto split: prod.splits)
    have "ranges_ok (Suc (rg_stop r)) rs1 \<and> covered rs1 = covered rs \<union> {s..<e} \<and> c = cov + card ({s..<e} \<inter> covered rs)"
      using "2.IH"(1) [OF 1 r(3) "2.prems"(2) _ m(1)] 1 by simp
    moreover have "{s..<e} \<inter> (range_bytes r \<union> covered rs) = {s..<e} \<inter> covered rs"
      using 1 by (auto simp: range_bytes_def)
    ultimately show ?thesis using r m(2) by auto
  next
    case 2
    have "{s..<e} \<inter> (range_bytes r \<union> covered rs) = {}" using 2 above r by (fastforce simp: range_bytes_def)
    then show ?thesis using 2 "2.prems" r by (auto simp: range_bytes_def)
  next
    case 3
    let ?s = "min s (rg_start r)" and ?e = "max e (rg_stop r)"
    let ?c = "cov + (min e (rg_stop r) - max s (rg_start r))"
    have m: "merge_range rs ?s ?e ?c = (rs', c)" using "2.prems"(4) 3 by simp
    have lo: "ranges_ok lo rs" using ranges_ok_lower [OF r(3)] r by simp
    have IH: "ranges_ok lo rs' \<and> covered rs' = covered rs \<union> {?s..<?e} \<and> c = ?c + card ({?s..<?e} \<inter> covered rs)"
      using "2.IH"(2) [OF 3 lo _ _ m] "2.prems"(2,3) r by simp
    have union: "{?s..<?e} = {s..<e} \<union> range_bytes r" using 3 "2.prems"(2) r by (auto simp: range_bytes_def)
    have rest: "{?s..<?e} \<inter> covered rs = {s..<e} \<inter> covered rs"
      using above by (fastforce simp: union range_bytes_def)
    have "{s..<e} \<inter> range_bytes r = {max s (rg_start r)..<min e (rg_stop r)}" by (auto simp: range_bytes_def)
    then have "card ({s..<e} \<inter> range_bytes r) = min e (rg_stop r) - max s (rg_start r)" by simp
    moreover have "({s..<e} \<inter> range_bytes r) \<inter> ({s..<e} \<inter> covered rs) = {}" using above by (fastforce simp: range_bytes_def)
    then have "card ({s..<e} \<inter> (range_bytes r \<union> covered rs))
        = card ({s..<e} \<inter> range_bytes r) + card ({s..<e} \<inter> covered rs)"
      by (simp add: Int_Un_distrib card_Un_disjoint)
    ultimately show ?thesis using IH union rest by auto
  qed
qed

lemma addRange_spec:
  assumes "ranges_ok 0 rs"
  shows "ranges_ok 0 (fst (addRange rs s e))"
    and "covered (fst (addRange rs s e)) = covered rs \<union> {s..<e}"
    and "snd (addRange rs s e) = card ({s..<e} - covered rs)"
proof -
  obtain rs' c where m: "merge_range rs s e 0 = (rs', c)" by fastforce
  have *: "ranges_ok 0 rs' \<and> covered rs' = covered rs \<union> {s..<e} \<and> c = card ({s..<e} \<inter> covered rs)" if "s < e"
    using merge_range_spec [OF assms that _ m] by simp
  have "card ({s..<e} - covered rs) = card {s..<e} - card ({s..<e} \<inter> covered rs)"
    by (simp add: card_Diff_subset_Int)
  then show "ranges_ok 0 (fst (addRange rs s e))" "covered (fst (addRange rs s e)) = covered rs \<union> {s..<e}"
    "snd (addRange rs s e) = card ({s..<e} - covered rs)"
    using * assms by (simp_all add: addRange_def m)
qed

lemma gaps_spec:
  "ranges_ok lo rs \<Longrightarrow> pos \<le> lo \<Longrightarrow> covered rs \<subseteq> {..<tot} \<Longrightarrow> covered (gaps_from pos rs tot) = {pos..<tot} - covered rs"
proof (induction rs arbitrary: pos lo)
  case Nil
  show ?case by (auto simp: range_bytes_def)
next
  case (Cons r rs)
  have r: "pos \<le> rg_start r" "rg_start r < rg_stop r" "ranges_ok (Suc (rg_stop r)) rs"
    using Cons.prems(1,2) by auto
  have above: "rg_stop r < x" if "x \<in> covered rs" for x using covered_above [OF r(3) that] by simp
  have sub: "covered rs \<subseteq> {..<tot}" "range_bytes r \<subseteq> {..<tot}" using Cons.prems(3) by simp_all
  have "rg_stop r - 1 \<in> range_bytes r" using r(2) by (auto simp: range_bytes_def)
  then have stop: "rg_stop r \<le> tot" using sub(2) r(2) by fastforce
  have tail: "covered (gaps_from (rg_stop r) rs tot) = {rg_stop r..<tot} - covered rs"
    using Cons.IH [OF r(3) _ sub(1), of "rg_stop r"] by simp
  have "covered (gaps_from pos (r # rs) tot) = {pos..<rg_start r} \<union> ({rg_stop r..<tot} - covered rs)"
    using r tail by (simp add: max_absorb2 range_bytes_def)
  also have "\<dots> = {pos..<tot} - (range_bytes r \<union> covered rs)"
    using r stop above by (fastforce simp: range_bytes_def)
  finally show ?case by simp
qed

lemma gaps_positive: "r \<in> set (gaps_from pos rs tot) \<Longrightarrow> rg_start r < rg_stop r"
  by (induction pos rs tot rule: gaps_from.induct) (auto split: if_splits)

section \<open>The contract of a cover\<close>

locale byte_cover =
  fixes cover :: "'r \<Rightarrow> nat set"
    and ok :: "'r \<Rightarrow> bool"
    and none :: 'r
    and add :: "'r \<Rightarrow> nat \<Rightarrow> nat \<Rightarrow> 'r \<times> nat"
    and gaps :: "'r \<Rightarrow> nat \<Rightarrow> byte_range list"
  assumes cover_none: "ok none" "cover none = {}"
    and finite_cover: "ok r \<Longrightarrow> finite (cover r)"
    and add_ok: "ok r \<Longrightarrow> ok (fst (add r s e))"
    and add_cover: "ok r \<Longrightarrow> cover (fst (add r s e)) = cover r \<union> {s..<e}"
    and add_count: "ok r \<Longrightarrow> snd (add r s e) = card ({s..<e} - cover r)"
    and gaps_cover: "ok r \<Longrightarrow> cover r \<subseteq> {..<tot} \<Longrightarrow> covered (gaps r tot) = {..<tot} - cover r"
begin

text \<open>A count kept by adding up what each insertion returns is the number of bytes covered.\<close>

lemma count_step: "ok r \<Longrightarrow> cnt = card (cover r) \<Longrightarrow> cnt + snd (add r s e) = card (cover (fst (add r s e)))"
proof -
  assume r: "ok r" "cnt = card (cover r)"
  have "cover r \<union> {s..<e} = cover r \<union> ({s..<e} - cover r)" by blast
  moreover have "card (cover r \<union> ({s..<e} - cover r)) = card (cover r) + card ({s..<e} - cover r)"
    using finite_cover [OF r(1)] by (intro card_Un_disjoint) auto
  ultimately show ?thesis using r by (simp add: add_cover add_count)
qed

lemma add_inside: "ok r \<Longrightarrow> cover r \<subseteq> {..<tot} \<Longrightarrow> e \<le> tot \<Longrightarrow> cover (fst (add r s e)) \<subseteq> {..<tot}"
  by (auto simp: add_cover)

text \<open>Inside \<open>[0, tot)\<close>, a full count means that every byte is there, and otherwise there is a gap.\<close>

lemma full_count:
  assumes "ok r" "cover r \<subseteq> {..<tot}" "tot \<le> card (cover r)"
  shows "cover r = {..<tot}"
proof (rule card_subset_eq [OF finite_lessThan assms(2)])
  show "card (cover r) = card {..<tot}" using card_mono [OF finite_lessThan assms(2)] assms(3) by simp
qed

lemma gap_left:
  assumes "ok r" "cover r \<subseteq> {..<tot}" "card (cover r) < tot"
  shows "gaps r tot \<noteq> []"
proof
  assume "gaps r tot = []"
  then have "{..<tot} \<subseteq> cover r" using gaps_cover [OF assms(1,2)] by simp
  from card_mono [OF finite_cover [OF assms(1)] this] have "tot \<le> card (cover r)" by simp
  then show False using assms(3) by simp
qed

end

interpretation ranges: byte_cover covered "ranges_ok 0" "[]" addRange missingByteRanges
  by unfold_locales (simp_all add: addRange_spec missingByteRanges_def gaps_spec atLeast0LessThan)

end
