(* ===== verification/Log_Client.thy ===== *)
theory Log_Client
  imports Op_Table Byte_Ranges "HOL-Library.AList"
begin

text \<open>
  \<open>src/mavlink/microservices/log/log-client.ts\<close> with its \<open>constants.ts\<close>: listing, downloading and
  erasing the logs of a vehicle. The two \<open>Set\<close>s of operations are one table of tagged operations. A
  download of a log whose size is not cached lists the logs first: that listing carries the number of
  the download's promise and what to go on with (\<open>lb_wanted\<close>); the continuation runs after the
  handler that ended the listing, as the microtask it is. The fields of the LOG messages are unsigned
  integers of at most 32 bits, which the codec decodes to natural numbers (\<open>unpackField_natural\<close>); \<open>natField\<close> reads them, and anything else counts as absent. A failing send is ignored
  by the code except by \<open>erase\<close>, so there is no flag for it: sending is the effect, and the outcome of
  an erase is an event.
\<close>

section \<open>Data\<close>

definition LOG_DATA_MAX_BYTES :: nat where "LOG_DATA_MAX_BYTES = 90"
definition LOG_LIST_END_ALL :: nat where "LOG_LIST_END_ALL = 0xffff"
definition LOG_DATA_COUNT_ALL :: nat where "LOG_DATA_COUNT_ALL = 0xffffffff"

record log_entry =
  le_id :: nat
  le_sizeBytes :: nat
  le_utc :: "nat option"

datatype log_error = LNoTarget | LAborted | LTimeout | LNotFound | LSendFailed | LDisposed

record list_body =
  lb_target :: target
  lb_entries :: "(nat \<times> log_entry) list"
  lb_total :: "nat option"
  lb_lastLogNum :: "nat option"
  lb_lastCheckedCount :: nat
  lb_stallRounds :: nat
  lb_signal :: "nat option"
  lb_wanted :: "(nat \<times> bool) option"

record data_body =
  da_target :: target
  da_id :: nat
  da_total :: nat
  da_buffer :: bytes
  da_ranges :: "byte_range list"
  da_receivedBytes :: nat
  da_lastCheckedBytes :: nat
  da_stallRounds :: nat
  da_onProgress :: bool
  da_signal :: "nat option"

datatype log_op = ListOp list_body | DataOp data_body

record log_client =
  lc_quietMs :: nat
  lc_maxStallRounds :: nat
  lc_table :: "log_op table"
  lc_cache :: "nat \<rightharpoonup> log_entry"
  lc_disposed :: bool

definition createLogClient :: "nat option \<Rightarrow> nat option \<Rightarrow> log_client" where
  "createLogClient quietMs maxStallRounds =
     \<lparr>lc_quietMs = (case quietMs of Some n \<Rightarrow> n | None \<Rightarrow> 800),
      lc_maxStallRounds = (case maxStallRounds of Some n \<Rightarrow> n | None \<Rightarrow> 8),
      lc_table = empty_table, lc_cache = Map.empty, lc_disposed = False\<rparr>"

text \<open>The number in \<open>ResolveBlob\<close> after the promise is the id of the log, for the statements below.\<close>

datatype log_effect =
    SendLog string out_fields
  | ResolveList nat "log_entry list"
  | ResolveBlob nat nat bytes
  | ResolveErase nat
  | RejectLog nat log_error
  | LogProgress nat nat nat

text \<open>
  A settled listing on whose entries a download waits: the promise, the log, whether progress is
  reported, the abort signal and the entries.
\<close>

type_synonym ready = "nat \<times> nat \<times> bool \<times> nat option \<times> log_entry list"
type_synonym log_result = "log_client \<times> log_effect list"
type_synonym log_progress = "log_client \<times> log_effect list \<times> ready list"

section \<open>Fields\<close>

definition js_natural :: "jsnum \<Rightarrow> nat option" where
  "js_natural x =
     (case js_val x of
        Some q \<Rightarrow> if q = of_int \<lfloor>q\<rfloor> \<and> 0 \<le> q then Some (nat \<lfloor>q\<rfloor>) else None
      | None \<Rightarrow> None)"

definition natField :: "(string \<rightharpoonup> field_value) \<Rightarrow> string \<Rightarrow> nat option" where
  "natField fs key = (case numField fs key of Some x \<Rightarrow> js_natural x | None \<Rightarrow> None)"

lemma js_natural_nat [simp]: "js_natural (js_nat n) = Some n"
  by (simp add: js_natural_def js_nat_def)

lemma unpackField_natural:
  assumes "typeInfo (fm_type f) = Inr (kind, sz)" "kind \<in> {U8, U16, U32}" "\<not> isArray f"
    and "unpackField dv pos f = Inr (v, pos')" "fs key = Some v"
  shows "natField fs key \<noteq> None"
  using assms by (auto simp: unpackField_def readScalar_def scalar_of_bytes_def res_bind_Inr_iff natField_def numField_def)

definition bytes_field :: "(string \<rightharpoonup> field_value) \<Rightarrow> string \<Rightarrow> jsnum list option" where
  "bytes_field fs key = (case fs key of Some (FArr xs) \<Rightarrow> Some xs | _ \<Rightarrow> None)"

definition log_fromTarget :: "decoded_message \<Rightarrow> target \<Rightarrow> bool" where
  "log_fromTarget msg g = (dm_sysid msg = tg_sysid g \<and> dm_compid msg = tg_compid g)"

definition sortedEntries :: "(nat \<times> log_entry) list \<Rightarrow> log_entry list" where
  "sortedEntries entries = sort_key le_id (map snd entries)"

text \<open>The loop of \<open>missingEntryRanges\<close> over the ids of the advertised window.\<close>

fun entry_gaps :: "(nat \<Rightarrow> bool) \<Rightarrow> nat option \<Rightarrow> nat list \<Rightarrow> nat \<Rightarrow> (nat \<times> nat) list" where
  "entry_gaps has start [] lastNum = (case start of Some s \<Rightarrow> [(s, lastNum)] | None \<Rightarrow> [])"
| "entry_gaps has start (i # is) lastNum =
     (if \<not> has i then entry_gaps has (case start of None \<Rightarrow> Some i | Some s \<Rightarrow> Some s) is lastNum
      else case start of
        Some s \<Rightarrow> (s, i - 1) # entry_gaps has None is lastNum
      | None \<Rightarrow> entry_gaps has None is lastNum)"

definition missingEntryRanges :: "list_body \<Rightarrow> (nat \<times> nat) list" where
  "missingEntryRanges b =
     (case (lb_total b, lb_lastLogNum b) of
        (Some tot, Some lastNum) \<Rightarrow>
          if tot \<le> 0 then []
          else entry_gaps (\<lambda>i. map_of (lb_entries b) i \<noteq> None) None [nat (int lastNum - int tot + 1)..<lastNum + 1] lastNum
      | _ \<Rightarrow> [(0, LOG_LIST_END_ALL)])"

section \<open>Wire senders\<close>

definition sendListRequest :: "target \<Rightarrow> nat \<Rightarrow> nat \<Rightarrow> log_effect" where
  "sendListRequest g start stop =
     SendLog ''LOG_REQUEST_LIST'' (target_fields g @ [(''start'', num start), (''end'', num stop)])"

definition sendDataRequest :: "target \<Rightarrow> nat \<Rightarrow> nat \<Rightarrow> nat \<Rightarrow> log_effect" where
  "sendDataRequest g i ofs cnt =
     SendLog ''LOG_REQUEST_DATA'' (target_fields g @ [(''id'', num i), (''ofs'', num ofs), (''count'', num cnt)])"

definition sendRequestEnd :: "target \<Rightarrow> log_effect" where
  "sendRequestEnd g = SendLog ''LOG_REQUEST_END'' (target_fields g)"

section \<open>Settling\<close>

definition log_close :: "nat \<Rightarrow> log_client \<Rightarrow> log_client" where
  "log_close i M = M\<lparr>lc_table := close_op i (lc_table M)\<rparr>"

definition log_body :: "nat \<Rightarrow> log_op \<Rightarrow> log_client \<Rightarrow> log_client" where
  "log_body i b M = M\<lparr>lc_table := update_body i (\<lambda>_. b) (lc_table M)\<rparr>"

definition log_arm :: "nat \<Rightarrow> log_client \<Rightarrow> log_client" where
  "log_arm i M = M\<lparr>lc_table := arm_op i (lc_quietMs M) (lc_table M)\<rparr>"

text \<open>Resolving a listing: for its own call, or for the download that waits for it.\<close>

definition resolveList :: "nat \<Rightarrow> list_body \<Rightarrow> log_entry list \<Rightarrow> log_client \<Rightarrow> log_progress" where
  "resolveList i b entries M =
     (case lb_wanted b of
        None \<Rightarrow> (log_close i M, [ResolveList i entries], [])
      | Some (logId, prog) \<Rightarrow> (log_close i M, [], [(i, logId, prog, lb_signal b, entries)]))"

definition tryResolveList :: "nat \<Rightarrow> list_body \<Rightarrow> log_client \<Rightarrow> log_progress option" where
  "tryResolveList i b M =
     (case lb_total b of
        None \<Rightarrow> None
      | Some tot \<Rightarrow>
          if tot \<le> 0 then Some (resolveList i b [] M)
          else if tot \<le> length (lb_entries b) then Some (resolveList i b (sortedEntries (lb_entries b)) M)
          else None)"

definition completeDownload :: "nat \<Rightarrow> data_body \<Rightarrow> log_client \<Rightarrow> log_result" where
  "completeDownload i b M = (log_close i M, [sendRequestEnd (da_target b), ResolveBlob i (da_id b) (da_buffer b)])"

section \<open>Calls\<close>

definition is_aborted :: "(nat \<times> bool) option \<Rightarrow> bool" where
  "is_aborted signal = (case signal of Some (_, aborted) \<Rightarrow> aborted | None \<Rightarrow> False)"

definition start_list :: "nat \<Rightarrow> (nat \<times> bool) option \<Rightarrow> (nat \<times> bool) option \<Rightarrow> target option \<Rightarrow> log_client \<Rightarrow> log_result" where
  "start_list i signal wanted target M =
     (if lc_disposed M then (M, [RejectLog i LDisposed])
      else case target of
        None \<Rightarrow> (M, [RejectLog i LNoTarget])
      | Some g \<Rightarrow>
          if is_aborted signal then (M, [RejectLog i LAborted])
          else
            let b = \<lparr>lb_target = g, lb_entries = [], lb_total = None, lb_lastLogNum = None, lb_lastCheckedCount = 0,
                     lb_stallRounds = 0, lb_signal = map_option fst signal, lb_wanted = wanted\<rparr>
            in (M\<lparr>lc_table := open_op i (ListOp b) (lc_quietMs M) (lc_table M)\<rparr>,
                [sendListRequest g 0 LOG_LIST_END_ALL]))"

definition downloadEntry ::
  "nat \<Rightarrow> log_entry \<Rightarrow> bool \<Rightarrow> (nat \<times> bool) option \<Rightarrow> target option \<Rightarrow> log_client \<Rightarrow> log_result" where
  "downloadEntry i entry prog signal target M =
     (if lc_disposed M then (M, [RejectLog i LDisposed])
      else case target of
        None \<Rightarrow> (M, [RejectLog i LNoTarget])
      | Some g \<Rightarrow>
          if is_aborted signal then (M, [RejectLog i LAborted])
          else if le_sizeBytes entry = 0 then
            (M, (if prog then [LogProgress i 0 0] else []) @ [sendRequestEnd g, ResolveBlob i (le_id entry) []])
          else
            let b = \<lparr>da_target = g, da_id = le_id entry, da_total = le_sizeBytes entry,
                     da_buffer = replicate (le_sizeBytes entry) 0, da_ranges = [], da_receivedBytes = 0,
                     da_lastCheckedBytes = 0, da_stallRounds = 0, da_onProgress = prog,
                     da_signal = map_option fst signal\<rparr>
            in (M\<lparr>lc_table := open_op i (DataOp b) (lc_quietMs M) (lc_table M)\<rparr>,
                (if prog then [LogProgress i 0 (da_total b)] else []) @
                [sendDataRequest g (da_id b) 0 LOG_DATA_COUNT_ALL]))"

definition log_download :: "nat \<Rightarrow> nat \<Rightarrow> bool \<Rightarrow> (nat \<times> bool) option \<Rightarrow> target option \<Rightarrow> log_client \<Rightarrow> log_result" where
  "log_download i logId prog signal target M =
     (case lc_cache M logId of
        Some entry \<Rightarrow> downloadEntry i entry prog signal target M
      | None \<Rightarrow> start_list i signal (Some (logId, prog)) target M)"

definition erase :: "nat \<Rightarrow> target option \<Rightarrow> log_client \<Rightarrow> log_result" where
  "erase i target M =
     (if lc_disposed M then (M, [RejectLog i LDisposed])
      else case target of
        None \<Rightarrow> (M, [RejectLog i LNoTarget])
      | Some g \<Rightarrow> (M\<lparr>lc_table := wait_op i (lc_table M)\<rparr>, [SendLog ''LOG_ERASE'' (target_fields g)]))"

text \<open>The rest of \<open>findEntryForDownload\<close> and \<open>download\<close> once the entries are there.\<close>

definition findEntryForDownload :: "ready \<Rightarrow> target option \<Rightarrow> log_client \<Rightarrow> log_result" where
  "findEntryForDownload r target M =
     (case r of (i, logId, prog, signal, entries) \<Rightarrow>
        (case find (\<lambda>e. le_id e = logId) entries of
           None \<Rightarrow> (M, [RejectLog i LNotFound])
         | Some entry \<Rightarrow> downloadEntry i entry prog (map_option (\<lambda>s. (s, False)) signal) target M))"

fun run_ready :: "ready list \<Rightarrow> target option \<Rightarrow> log_client \<Rightarrow> log_result" where
  "run_ready [] target M = (M, [])"
| "run_ready (r # rs) target M =
     (let (M1, f1) = findEntryForDownload r target M; (M2, f2) = run_ready rs target M1 in (M2, f1 @ f2))"

definition with_ready :: "target option \<Rightarrow> log_progress \<Rightarrow> log_result" where
  "with_ready target p = (case p of (M1, f1, rs) \<Rightarrow> case run_ready rs target M1 of (M2, f2) \<Rightarrow> (M2, f1 @ f2))"

section \<open>Messages\<close>

definition list_body_of :: "nat \<Rightarrow> log_client \<Rightarrow> list_body option" where
  "list_body_of i M = (case body_of i (lc_table M) of Some (ListOp b) \<Rightarrow> Some b | _ \<Rightarrow> None)"

definition data_body_of :: "nat \<Rightarrow> log_client \<Rightarrow> data_body option" where
  "data_body_of i M = (case body_of i (lc_table M) of Some (DataOp b) \<Rightarrow> Some b | _ \<Rightarrow> None)"

definition utc_of :: "nat option \<Rightarrow> nat option" where
  "utc_of t = (case t of Some u \<Rightarrow> if 0 < u then Some u else None | None \<Rightarrow> None)"

definition entry_for :: "decoded_message \<Rightarrow> nat \<Rightarrow> log_client \<Rightarrow> log_progress" where
  "entry_for msg i M =
     (case list_body_of i M of
        None \<Rightarrow> (M, [], [])
      | Some b \<Rightarrow>
          if \<not> log_fromTarget msg (lb_target b) then (M, [], [])
          else
            let b1 = b\<lparr>lb_total := (case natField (dm_fields msg) ''num_logs'' of Some n \<Rightarrow> Some n | None \<Rightarrow> lb_total b),
                       lb_lastLogNum := (case natField (dm_fields msg) ''last_log_num'' of Some n \<Rightarrow> Some n | None \<Rightarrow> lb_lastLogNum b)\<rparr>;
                M1 = log_body i (ListOp b1) M
            in if lb_total b1 = Some 0 then resolveList i b1 [] M1
               else (case (natField (dm_fields msg) ''id'', natField (dm_fields msg) ''size'') of
                       (Some logId, Some sz) \<Rightarrow>
                         let entry = \<lparr>le_id = logId, le_sizeBytes = sz, le_utc = utc_of (natField (dm_fields msg) ''time_utc'')\<rparr>;
                             b2 = b1\<lparr>lb_entries := AList.update logId entry (lb_entries b1)\<rparr>;
                             M2 = log_arm i (log_body i (ListOp b2) (M1\<lparr>lc_cache := (lc_cache M1)(logId \<mapsto> entry)\<rparr>))
                         in (case tryResolveList i b2 M2 of Some p \<Rightarrow> p | None \<Rightarrow> (M2, [], []))
                     | _ \<Rightarrow> (M1, [], [])))"

fun each_entry :: "decoded_message \<Rightarrow> nat list \<Rightarrow> log_client \<Rightarrow> log_progress" where
  "each_entry msg [] M = (M, [], [])"
| "each_entry msg (i # is) M =
     (let (M1, f1, r1) = entry_for msg i M; (M2, f2, r2) = each_entry msg is M1 in (M2, f1 @ f2, r1 @ r2))"

definition log_ids :: "log_client \<Rightarrow> nat list" where
  "log_ids M = op_ids (lc_table M)"

definition onLogEntry :: "decoded_message \<Rightarrow> target option \<Rightarrow> log_client \<Rightarrow> log_result" where
  "onLogEntry msg target M = with_ready target (each_entry msg (log_ids M) M)"

text \<open>\<open>op.buffer[offset + i] = value & 0xff\<close> for \<open>i < valid\<close>.\<close>

fun write_chunk :: "bytes \<Rightarrow> nat \<Rightarrow> jsnum list \<Rightarrow> bytes" where
  "write_chunk buf pos [] = buf"
| "write_chunk buf pos (v # vs) = write_chunk (buf[pos := js_word v]) (pos + 1) vs"

definition store_chunk :: "nat \<Rightarrow> jsnum list \<Rightarrow> data_body \<Rightarrow> data_body \<times> nat" where
  "store_chunk ofs chunk b =
     (case addRange (da_ranges b) ofs (ofs + length chunk) of (rs, added) \<Rightarrow>
        (b\<lparr>da_buffer := write_chunk (da_buffer b) ofs chunk, da_ranges := rs,
           da_receivedBytes := da_receivedBytes b + added\<rparr>, added))"

definition progressed :: "nat \<Rightarrow> data_body \<Rightarrow> nat \<Rightarrow> log_client \<Rightarrow> log_result" where
  "progressed i b added M =
     (if 0 < added then
        (log_arm i M, if da_onProgress b then [LogProgress i (da_receivedBytes b) (da_total b)] else [])
      else (M, []))"

definition data_for :: "nat \<Rightarrow> nat \<Rightarrow> nat \<Rightarrow> jsnum list \<Rightarrow> decoded_message \<Rightarrow> nat \<Rightarrow> log_client \<Rightarrow> log_result" where
  "data_for logId ofs cnt chunk msg i M =
     (case data_body_of i M of
        None \<Rightarrow> (M, [])
      | Some b \<Rightarrow>
          if \<not> log_fromTarget msg (da_target b) \<or> da_id b \<noteq> logId then (M, [])
          else if da_total b \<le> ofs then (M, [])
          else
            let valid = min (min cnt (length chunk)) (min LOG_DATA_MAX_BYTES (da_total b - ofs))
            in if valid \<le> 0 then (M, [])
               else
                 let (b1, added) = store_chunk ofs (take valid chunk) b;
                     (M1, fs) = progressed i b1 added (log_body i (DataOp b1) M)
                 in if da_total b1 \<le> da_receivedBytes b1 then
                      (case completeDownload i b1 M1 of (M2, f2) \<Rightarrow> (M2, fs @ f2))
                    else (M1, fs))"

fun each_data :: "nat \<Rightarrow> nat \<Rightarrow> nat \<Rightarrow> jsnum list \<Rightarrow> decoded_message \<Rightarrow> nat list \<Rightarrow> log_client \<Rightarrow> log_result" where
  "each_data logId ofs cnt chunk msg [] M = (M, [])"
| "each_data logId ofs cnt chunk msg (i # is) M =
     (let (M1, f1) = data_for logId ofs cnt chunk msg i M; (M2, f2) = each_data logId ofs cnt chunk msg is M1
      in (M2, f1 @ f2))"

definition onLogData :: "decoded_message \<Rightarrow> log_client \<Rightarrow> log_result" where
  "onLogData msg M =
     (case (natField (dm_fields msg) ''id'', natField (dm_fields msg) ''ofs'',
            natField (dm_fields msg) ''count'', bytes_field (dm_fields msg) ''data'') of
        (Some logId, Some ofs, Some cnt, Some chunk) \<Rightarrow> each_data logId ofs cnt chunk msg (log_ids M) M
      | _ \<Rightarrow> (M, []))"

definition log_onMessage :: "decoded_message \<Rightarrow> target option \<Rightarrow> log_client \<Rightarrow> log_result" where
  "log_onMessage msg target M =
     (if dm_name msg = ''LOG_ENTRY'' then onLogEntry msg target M
      else if dm_name msg = ''LOG_DATA'' then onLogData msg M
      else (M, []))"

section \<open>Quiet windows\<close>

definition stalled :: "bool \<Rightarrow> nat \<Rightarrow> nat" where
  "stalled moved rounds = (if moved then 0 else rounds + 1)"

definition onListQuiet :: "nat \<Rightarrow> list_body \<Rightarrow> log_client \<Rightarrow> log_progress" where
  "onListQuiet i b M =
     (case tryResolveList i b M of
        Some p \<Rightarrow> p
      | None \<Rightarrow>
          let cnt = length (lb_entries b);
              b1 = b\<lparr>lb_lastCheckedCount := cnt, lb_stallRounds := stalled (lb_lastCheckedCount b < cnt) (lb_stallRounds b)\<rparr>
          in if lc_maxStallRounds M < lb_stallRounds b1 then (log_close i M, [RejectLog i LTimeout], [])
             else (log_arm i (log_body i (ListOp b1) M),
                   map (\<lambda>(s, e). sendListRequest (lb_target b1) s e) (missingEntryRanges b1), []))"

definition onDownloadQuiet :: "nat \<Rightarrow> data_body \<Rightarrow> log_client \<Rightarrow> log_result" where
  "onDownloadQuiet i b M =
     (if da_total b \<le> da_receivedBytes b then completeDownload i b M
      else
        let b1 = b\<lparr>da_lastCheckedBytes := da_receivedBytes b,
                   da_stallRounds := stalled (da_lastCheckedBytes b < da_receivedBytes b) (da_stallRounds b)\<rparr>
        in if lc_maxStallRounds M < da_stallRounds b1 then
             (log_close i M, [sendRequestEnd (da_target b1), RejectLog i LTimeout])
           else (log_arm i (log_body i (DataOp b1) M),
                 map (\<lambda>g. sendDataRequest (da_target b1) (da_id b1) (rg_start g) (rg_stop g - rg_start g))
                   (missingByteRanges (da_ranges b1) (da_total b1))))"

definition log_tick :: "nat \<Rightarrow> target option \<Rightarrow> log_client \<Rightarrow> log_result" where
  "log_tick i target M =
     (case body_of i (lc_table M) of
        None \<Rightarrow> (M, [])
      | Some (ListOp b) \<Rightarrow> with_ready target (onListQuiet i b M)
      | Some (DataOp b) \<Rightarrow> onDownloadQuiet i b M)"

section \<open>Abort, disposal, events\<close>

definition is_list :: "log_op \<Rightarrow> bool" where
  "is_list b = (case b of ListOp _ \<Rightarrow> True | DataOp _ \<Rightarrow> False)"

definition log_ids_where :: "(log_op \<Rightarrow> bool) \<Rightarrow> log_client \<Rightarrow> nat list" where
  "log_ids_where Q M = map op_id (filter (\<lambda>op. Q (op_body op)) (tb_ops (lc_table M)))"

text \<open>Rejecting operations one after the other; an abort also ends the stream of a download.\<close>

definition reject_logs :: "nat list \<Rightarrow> log_error \<Rightarrow> log_client \<Rightarrow> log_result" where
  "reject_logs is e M = (M\<lparr>lc_table := fold close_op is (lc_table M)\<rparr>, map (\<lambda>i. RejectLog i e) is)"

definition abort_effects :: "nat \<Rightarrow> log_client \<Rightarrow> log_effect list" where
  "abort_effects i M =
     (case data_body_of i M of Some b \<Rightarrow> [sendRequestEnd (da_target b)] | None \<Rightarrow> []) @ [RejectLog i LAborted]"

definition log_has_signal :: "nat \<Rightarrow> log_op \<Rightarrow> bool" where
  "log_has_signal s b = (case b of ListOp l \<Rightarrow> lb_signal l = Some s | DataOp d \<Rightarrow> da_signal d = Some s)"

definition log_abort :: "nat \<Rightarrow> log_client \<Rightarrow> log_result" where
  "log_abort s M =
     (let is = log_ids_where (log_has_signal s) M
      in (fst (reject_logs is LAborted M), concat (map (\<lambda>i. abort_effects i M) is)))"

definition log_dispose :: "log_client \<Rightarrow> log_result" where
  "log_dispose M =
     (if lc_disposed M then (M, [])
      else reject_logs (log_ids_where is_list M @ log_ids_where (\<lambda>b. \<not> is_list b) M) LDisposed (M\<lparr>lc_disposed := True\<rparr>))"

datatype log_event =
    CallList "(nat \<times> bool) option" "target option"
  | CallLogDownload nat bool "(nat \<times> bool) option" "target option"
  | CallErase "target option"
  | LogIn decoded_message "target option"
  | LogFire nat "target option"
  | LogHostDone nat
  | LogHostFailed nat
  | LogAbort nat
  | LogDispose

definition log_step :: "log_client \<Rightarrow> log_event \<Rightarrow> log_result" where
  "log_step M e =
     (let i = tb_next (lc_table M); N = M\<lparr>lc_table := number (lc_table M)\<rparr> in
      case e of
        CallList signal target \<Rightarrow> start_list i signal None target N
      | CallLogDownload logId prog signal target \<Rightarrow> log_download i logId prog signal target N
      | CallErase target \<Rightarrow> erase i target N
      | LogIn msg target \<Rightarrow> if lc_disposed M then (M, []) else log_onMessage msg target M
      | LogFire t target \<Rightarrow>
          (case timer_handler t (tb_timers (lc_table M)) of
             None \<Rightarrow> (M, [])
           | Some i \<Rightarrow> log_tick i target (M\<lparr>lc_table := fired t (lc_table M)\<rparr>))
      | LogHostDone i \<Rightarrow>
          if i \<in> set (tb_waiting (lc_table M))
          then (M\<lparr>lc_table := waited i (lc_table M), lc_cache := Map.empty\<rparr>, [ResolveErase i]) else (M, [])
      | LogHostFailed i \<Rightarrow>
          if i \<in> set (tb_waiting (lc_table M))
          then (M\<lparr>lc_table := waited i (lc_table M)\<rparr>, [RejectLog i LSendFailed]) else (M, [])
      | LogAbort s \<Rightarrow> log_abort s M
      | LogDispose \<Rightarrow> log_dispose M)"

end
