(* ===== verification/Log_Safety.thy ===== *)
theory Log_Safety
  imports Log_Client
begin

text \<open>
  The log client over runs: the ledger of its promises and the timers of its operations (an
  interpretation of \<open>promise_ledger\<close>), and the end of operations left alone.
\<close>

section \<open>The account of every operation\<close>

fun log_settles :: "log_effect \<Rightarrow> nat option" where
  "log_settles (ResolveList i _) = Some i"
| "log_settles (ResolveBlob i _ _) = Some i"
| "log_settles (ResolveErase i) = Some i"
| "log_settles (RejectLog i _) = Some i"
| "log_settles _ = None"

abbreviation log_settled :: "log_effect list \<Rightarrow> nat list" where
  "log_settled fs \<equiv> List.map_filter log_settles fs"

definition log_ok :: "nat option \<Rightarrow> log_client \<Rightarrow> bool" where
  "log_ok x M = table_ok x (lc_table M)"

definition log_account :: "nat list \<Rightarrow> log_client \<Rightarrow> log_result \<Rightarrow> bool" where
  "log_account new M r = accounts new (lc_table M) (lc_table (fst r)) (log_settled (snd r))"

text \<open>The promises of listings that ended for a waiting download are out of the table but not settled.\<close>

definition progress_account :: "log_client \<Rightarrow> log_progress \<Rightarrow> bool" where
  "progress_account M p =
     (case p of (M', fs, rs) \<Rightarrow> accounts [] (lc_table M) (lc_table M') (log_settled fs @ map fst rs))"

lemma log_sends [simp]:
  "log_settles (sendRequestEnd g) = None" "log_settles (sendDataRequest g i a b) = None"
  "log_settles (sendListRequest g a b) = None"
  by (simp_all add: sendRequestEnd_def sendDataRequest_def sendListRequest_def)

lemma log_settled_simps [simp]:
  "log_settled (map (\<lambda>i. RejectLog i e) is) = is"
  "log_settled (map (\<lambda>(s, e). sendListRequest g s e) rs) = []"
  "log_settled (map (\<lambda>r. sendDataRequest g i (f r) (h r)) gs) = []"
proof -
  show "log_settled (map (\<lambda>i. RejectLog i e) is) = is" by (induction "is") simp_all
  show "log_settled (map (\<lambda>(s, e). sendListRequest g s e) rs) = []" by (induction rs) (simp_all add: split_beta)
  show "log_settled (map (\<lambda>r. sendDataRequest g i (f r) (h r)) gs) = []" by (induction gs) simp_all
qed

lemma log_same: "log_ok None M \<Longrightarrow> log_settled fs = [] \<Longrightarrow> log_account [] M (M, fs)"
  by (simp add: log_account_def log_ok_def accounts_refl)

lemma log_reject: "log_ok None M \<Longrightarrow> log_account [i] M (M, [RejectLog i e])"
  by (simp add: log_account_def log_ok_def reject_accounts)

lemma log_then: "log_account new M (M1, f1) \<Longrightarrow> log_account new' M1 (M2, f2) \<Longrightarrow> log_account (new @ new') M (M2, f1 @ f2)"
  using accounts_trans by (fastforce simp: log_account_def)

lemma log_account_okD: "log_account new M r \<Longrightarrow> log_ok None (fst r)"
  by (simp add: log_account_def log_ok_def accounts_ok)

lemma log_frame [simp]:
  "log_ok x (log_body i b M) = log_ok x M" "log_ids (log_body i b M) = log_ids M"
  "log_ok x (M\<lparr>lc_cache := c\<rparr>) = log_ok x M" "log_ids (M\<lparr>lc_cache := c\<rparr>) = log_ids M"
  "log_ok x (M\<lparr>lc_disposed := d\<rparr>) = log_ok x M" "log_ids (M\<lparr>lc_disposed := d\<rparr>) = log_ids M"
  "log_account new (log_body i b M) r = log_account new M r"
  "log_account new (M\<lparr>lc_cache := c\<rparr>) r = log_account new M r"
  "log_account new (M\<lparr>lc_disposed := d\<rparr>) r = log_account new M r"
  by (simp_all add: log_body_def log_ok_def log_account_def accounts_def log_ids_def)

lemma log_close_account:
  assumes "log_ok x M" "i \<in> set (log_ids M)" "x = None \<or> x = Some i" "log_settled fs = [i]"
  shows "log_account [] M (log_close i M, fs)"
  using close_accounts [of x "lc_table M" i] assms by (simp add: log_account_def log_close_def log_ok_def log_ids_def)

lemma log_arm_account:
  assumes "log_ok x M" "i \<in> set (log_ids M)" "x = None \<or> x = Some i" "log_settled fs = []"
  shows "log_account [] M (log_arm i M, fs)"
  using arm_accounts [of x "lc_table M" i] assms by (simp add: log_account_def log_arm_def log_ok_def log_ids_def)

lemma log_arm_ids [simp]: "log_ids (log_arm i M) = log_ids M"
  by (simp add: log_arm_def log_ids_def)

lemma list_body_ids: "list_body_of i M = Some b \<Longrightarrow> i \<in> set (log_ids M)"
  using body_ids [of i "lc_table M"] by (auto simp: list_body_of_def log_ids_def split: option.splits)

lemma data_body_ids: "data_body_of i M = Some b \<Longrightarrow> i \<in> set (log_ids M)"
  using body_ids [of i "lc_table M"] by (auto simp: data_body_of_def log_ids_def split: option.splits)

section \<open>Calls\<close>

definition log_fresh :: "nat \<Rightarrow> log_client \<Rightarrow> bool" where
  "log_fresh i M = (i < tb_next (lc_table M) \<and> i \<notin> set (table_open (lc_table M)))"

lemma log_open_account:
  assumes "log_ok None M" "log_fresh i M" "log_settled fs = []"
  shows "log_account [i] M (M\<lparr>lc_table := open_op i b ms (lc_table M)\<rparr>, fs)"
  using open_accounts [of "lc_table M" i] assms by (simp add: log_account_def log_ok_def log_fresh_def)

lemma start_list_account:
  assumes "log_ok None M" "log_fresh i M"
  shows "log_account [i] M (start_list i signal wanted target M)"
  using assms by (auto simp: start_list_def Let_def log_reject intro!: log_open_account split: option.split)

lemma downloadEntry_account:
  assumes "log_ok None M" "log_fresh i M"
  shows "log_account [i] M (downloadEntry i entry prog signal target M)"
proof -
  have "log_account [i] M (M, [LogProgress i 0 0, sendRequestEnd g, ResolveBlob i l bs])"
    "log_account [i] M (M, [sendRequestEnd g, ResolveBlob i l bs])" for g l bs
    using log_reject [OF assms(1), of i] by (simp_all add: log_account_def)
  then show ?thesis
    using assms by (auto simp: downloadEntry_def Let_def log_reject intro!: log_open_account split: option.split)
qed

lemma log_download_account:
  "log_ok None M \<Longrightarrow> log_fresh i M \<Longrightarrow> log_account [i] M (log_download i logId prog signal target M)"
  by (simp add: log_download_def start_list_account downloadEntry_account split: option.split)

lemma erase_account:
  assumes "log_ok None M" "log_fresh i M"
  shows "log_account [i] M (erase i target M)"
  using wait_accounts [of "lc_table M" i] assms
  by (auto simp: erase_def log_reject log_account_def log_ok_def log_fresh_def split: option.split)
    (simp_all add: reject_accounts)

section \<open>Continuations\<close>

lemma findEntry_account:
  assumes "log_ok None M" "log_fresh (fst r) M"
  shows "log_account [fst r] M (findEntryForDownload r target M)"
  using assms by (cases r) (simp add: findEntryForDownload_def log_reject downloadEntry_account split: option.split)

lemma fresh_after:
  assumes "log_account [i] M r" "log_fresh j M" "j \<noteq> i"
  shows "log_fresh j (fst r)"
proof -
  have m: "mset (log_settled (snd r)) + mset (table_open (lc_table (fst r))) = add_mset i (mset (table_open (lc_table M)))"
    "tb_next (lc_table (fst r)) = tb_next (lc_table M)"
    using assms(1) by (simp_all add: log_account_def accounts_def)
  have "set (table_open (lc_table (fst r))) \<subseteq> set (i # table_open (lc_table M))"
  proof
    fix k assume "k \<in> set (table_open (lc_table (fst r)))"
    then have "k \<in># mset (log_settled (snd r)) + mset (table_open (lc_table (fst r)))" by simp
    then show "k \<in> set (i # table_open (lc_table M))" unfolding m(1) by simp
  qed
  then show ?thesis using assms(2,3) m(2) by (auto simp: log_fresh_def)
qed

lemma run_ready_account:
  assumes "log_ok None M" "distinct (map fst rs)" "\<forall>i\<in>set (map fst rs). log_fresh i M"
  shows "log_account (map fst rs) M (run_ready rs target M)"
  using assms
proof (induction rs arbitrary: M)
  case Nil
  then show ?case by (simp add: log_same)
next
  case (Cons r rs)
  obtain M1 f1 where 1: "findEntryForDownload r target M = (M1, f1)" by fastforce
  have a: "log_account [fst r] M (M1, f1)"
    using findEntry_account [of M r target] Cons.prems 1 by simp
  obtain M2 f2 where 2: "run_ready rs target M1 = (M2, f2)" by fastforce
  have "\<forall>i\<in>set (map fst rs). log_fresh i M1"
  proof
    fix i assume i: "i \<in> set (map fst rs)"
    then have "i \<noteq> fst r" using Cons.prems(2) by (metis distinct.simps(2) list.simps(9))
    then show "log_fresh i M1" using fresh_after [OF a, of i] Cons.prems(3) i by auto
  qed
  then have "log_account (map fst rs) M1 (M2, f2)"
    using Cons.IH [of M1] log_account_okD [OF a] Cons.prems(2) 2 by simp
  from log_then [OF a this] show ?case by (simp add: 1 2)
qed

lemma with_ready_account:
  assumes M: "log_ok x M" and p: "progress_account M p"
  shows "log_account [] M (with_ready target p)"
proof -
  obtain M1 f1 rs where p': "p = (M1, f1, rs)" by (cases p)
  have a: "accounts [] (lc_table M) (lc_table M1) (log_settled f1 @ map fst rs)"
    using p by (simp add: p' progress_account_def)
  have T: "table_ok x (lc_table M)" using M by (simp add: log_ok_def)
  have "distinct (map fst rs)" using accounts_out_distinct [OF T a] by simp
  moreover have "\<forall>i\<in>set (map fst rs). log_fresh i M1"
    using accounts_out [OF T a] by (auto simp: log_fresh_def)
  ultimately have b: "log_account (map fst rs) M1 (run_ready rs target M1)"
    using run_ready_account [of M1 rs] accounts_ok [OF a] by (simp add: log_ok_def)
  obtain M2 f2 where 2: "run_ready rs target M1 = (M2, f2)" by fastforce
  have "accounts ([] @ map fst rs) (lc_table M) (lc_table M2) ((log_settled f1 @ map fst rs) @ log_settled f2)"
    using accounts_trans [OF a, of "map fst rs"] b 2 by (simp add: log_account_def)
  then have "accounts ([] @ map fst rs) (lc_table M) (lc_table M2) ((log_settled f1 @ log_settled f2) @ map fst rs)"
    by (rule accounts_settled) (simp add: ac_simps)
  from accounts_cancel [OF this] show ?thesis by (simp add: with_ready_def p' 2 log_account_def)
qed
section \<open>Handlers\<close>

lemma resolveList_account:
  assumes "log_ok x M" "i \<in> set (log_ids M)" "x = None \<or> x = Some i"
  shows "progress_account M (resolveList i b entries M)"
  using log_close_account [OF assms, of "[ResolveList i entries]"]
  by (simp add: resolveList_def progress_account_def log_account_def split: option.split)

lemma tryResolveList_account:
  assumes "log_ok x M" "i \<in> set (log_ids M)" "x = None \<or> x = Some i" "tryResolveList i b M = Some p"
  shows "progress_account M p"
  using resolveList_account [OF assms(1-3)] assms(4)
  by (auto simp: tryResolveList_def split: option.splits if_splits)

lemma progress_same: "log_ok None M \<Longrightarrow> progress_account M (M, [], [])"
  by (simp add: progress_account_def log_ok_def accounts_refl)

lemma progress_then:
  assumes "progress_account M (M1, f1, r1)" "progress_account M1 (M2, f2, r2)"
  shows "progress_account M (M2, f1 @ f2, r1 @ r2)"
proof -
  have "accounts ([] @ []) (lc_table M) (lc_table M2) ((log_settled f1 @ map fst r1) @ (log_settled f2 @ map fst r2))"
    using assms by (intro accounts_trans) (simp_all add: progress_account_def)
  then show ?thesis by (auto simp: progress_account_def elim!: accounts_settled)
qed

lemma progress_frame [simp]:
  "progress_account (log_body i b M) p = progress_account M p"
  "progress_account (M\<lparr>lc_cache := c\<rparr>) p = progress_account M p"
  by (cases p; simp add: progress_account_def log_body_def accounts_def)+

lemma progress_after_arm:
  assumes M: "log_ok None M" and i: "i \<in> set (log_ids M)" and p: "progress_account (log_arm i M) p"
  shows "progress_account M p"
proof -
  have "progress_account M (log_arm i M, [], [])"
    using log_arm_account [OF M i, of "[]"] by (simp add: log_account_def progress_account_def)
  from progress_then [OF this] p show ?thesis by (cases p) fastforce
qed

lemma entry_for_account:
  assumes M: "log_ok None M"
  shows "progress_account M (entry_for msg i M)"
proof (cases "list_body_of i M")
  case None
  then show ?thesis using M by (simp add: entry_for_def progress_same)
next
  case (Some b)
  note i = list_body_ids [OF Some]
  define b1 where "b1 = b\<lparr>lb_total := (case natField (dm_fields msg) ''num_logs'' of Some n \<Rightarrow> Some n | None \<Rightarrow> lb_total b),
    lb_lastLogNum := (case natField (dm_fields msg) ''last_log_num'' of Some n \<Rightarrow> Some n | None \<Rightarrow> lb_lastLogNum b)\<rparr>"
  define M1 where "M1 = log_body i (ListOp b1) M"
  have M1: "log_ok None M1" "i \<in> set (log_ids M1)" "progress_account M1 p = progress_account M p" for p
    using M i by (simp_all add: M1_def)
  have arm: "progress_account M (case tryResolveList i b2 (log_arm i (log_body i b3 (M1\<lparr>lc_cache := c\<rparr>))) of
      Some p \<Rightarrow> p | None \<Rightarrow> (log_arm i (log_body i b3 (M1\<lparr>lc_cache := c\<rparr>)), [], []))" (is "progress_account M ?p") for b2 b3 c
  proof -
    let ?B = "log_body i b3 (M1\<lparr>lc_cache := c\<rparr>)"
    have B: "log_ok None ?B" "i \<in> set (log_ids ?B)" using M1 by simp_all
    have A: "log_ok None (log_arm i ?B)"
      using log_account_okD [OF log_arm_account [OF B, of "[]"]] by simp
    have "progress_account (log_arm i ?B) ?p"
      using tryResolveList_account [OF A, of i b2] B(2) A by (simp add: progress_same split: option.split)
    from progress_after_arm [OF B this] show ?thesis by (simp add: M1(3))
  qed
  have res: "progress_account M (resolveList i b1 [] M1)"
    using resolveList_account [OF M1(1,2), of b1 "[]"] by (simp add: M1(3))
  have same: "progress_account M (M1, [], [])" using progress_same [OF M1(1)] by (simp add: M1(3))
  show ?thesis
    unfolding entry_for_def Some option.case Let_def b1_def [symmetric] M1_def [symmetric]
    using res arm same progress_same [OF M] by (simp split: option.split)
qed

lemma each_entry_account: "log_ok None M \<Longrightarrow> progress_account M (each_entry msg is M)"
proof (induction "is" arbitrary: M)
  case Nil
  then show ?case by (simp add: progress_same)
next
  case (Cons i "is")
  obtain M1 f1 r1 where 1: "entry_for msg i M = (M1, f1, r1)" by (cases "entry_for msg i M")
  have a: "progress_account M (M1, f1, r1)" using entry_for_account [OF Cons.prems, of msg i] 1 by simp
  then have "log_ok None M1" by (simp add: progress_account_def log_ok_def accounts_ok)
  note b = Cons.IH [OF this]
  obtain M2 f2 r2 where 2: "each_entry msg is M1 = (M2, f2, r2)" by (cases "each_entry msg is M1")
  show ?case using progress_then [OF a] b by (simp add: 1 2)
qed

lemma log_prefix: "log_settled gs = [] \<Longrightarrow> log_account new M (M', gs @ fs) = log_account new M (M', fs)"
  by (simp add: log_account_def)

lemma data_for_account:
  assumes M: "log_ok None M"
  shows "log_account [] M (data_for logId ofs cnt chunk msg i M)"
proof (cases "data_body_of i M")
  case None
  then show ?thesis using M by (simp add: data_for_def log_same)
next
  case (Some b)
  note i = data_body_ids [OF Some]
  have fin: "log_account [] M (case completeDownload i b2 M2 of (M3, f3) \<Rightarrow> (M3, fs @ f3))"
    if a: "log_account [] M (M2, fs)" and ids: "log_ids M2 = log_ids M" for M2 fs b2
  proof -
    have "log_account [] M2 (log_close i M2, [sendRequestEnd (da_target b2), ResolveBlob i (da_id b2) (da_buffer b2)])"
      using log_account_okD [OF a] i ids by (intro log_close_account [where x = None]) simp_all
    from log_then [OF a this] show ?thesis by (simp add: completeDownload_def)
  qed
  have upd: "log_account [] M (progressed i b3 added (log_body i b4 M))"
    "log_ids (fst (progressed i b3 added (log_body i b4 M))) = log_ids M" for added b3 b4
  proof -
    have "log_account [] M (log_arm i (log_body i b4 M), fs)" if "log_settled fs = []" for fs
      using log_arm_account [of None "log_body i b4 M" i fs] M i that by simp
    moreover have "log_account [] M (log_body i b4 M, [])"
      using log_same [OF M, of "[]"] by (simp add: log_account_def log_body_def accounts_def)
    ultimately show "log_account [] M (progressed i b3 added (log_body i b4 M))" by (simp add: progressed_def)
    show "log_ids (fst (progressed i b3 added (log_body i b4 M))) = log_ids M" by (simp add: progressed_def)
  qed
  have "log_account [] M (case progressed i b3 added (log_body i b4 M) of (M1, fs) \<Rightarrow>
      if c then (case completeDownload i b3 M1 of (M2, f2) \<Rightarrow> (M2, fs @ f2)) else (M1, fs))" for b3 b4 added c
    using upd [of b3 added b4] fin by (cases "progressed i b3 added (log_body i b4 M)") simp
  then show ?thesis
    by (simp add: data_for_def Some Let_def log_same [OF M] split: prod.split)
qed

lemma each_data_account: "log_ok None M \<Longrightarrow> log_account [] M (each_data logId ofs cnt chunk msg is M)"
proof (induction "is" arbitrary: M)
  case Nil
  then show ?case by (simp add: log_same)
next
  case (Cons i "is")
  obtain M1 f1 where 1: "data_for logId ofs cnt chunk msg i M = (M1, f1)" by fastforce
  have a: "log_account [] M (M1, f1)" using data_for_account [OF Cons.prems, of logId ofs cnt chunk msg i] 1 by simp
  obtain M2 f2 where 2: "each_data logId ofs cnt chunk msg is M1 = (M2, f2)" by fastforce
  have "log_account [] M1 (M2, f2)" using Cons.IH [of M1] log_account_okD [OF a] 2 by simp
  from log_then [OF a this] show ?case by (simp add: 1 2)
qed

lemma log_onMessage_account: "log_ok None M \<Longrightarrow> log_account [] M (log_onMessage msg target M)"
  by (simp add: log_onMessage_def onLogEntry_def onLogData_def log_same with_ready_account each_entry_account
      each_data_account split: option.split)

lemma onListQuiet_account:
  assumes M: "log_ok (Some i) M" and i: "i \<in> set (log_ids M)"
  shows "progress_account M (onListQuiet i b M)"
proof -
  have out: "log_account [] M (log_close i M, [RejectLog i LTimeout])"
    using log_close_account [OF M i] by simp
  have arm: "log_account [] M (log_arm i (log_body i b3 M), fs)" if "log_settled fs = []" for b3 fs
    using log_arm_account [of "Some i" "log_body i b3 M" i fs] M i that by simp
  show ?thesis
    using out arm [of "[]"] tryResolveList_account [OF M i]
    by (auto simp: onListQuiet_def Let_def progress_account_def log_account_def split: option.split)
qed

lemma onDownloadQuiet_account:
  assumes M: "log_ok (Some i) M" and i: "i \<in> set (log_ids M)"
  shows "log_account [] M (onDownloadQuiet i b M)"
proof -
  have close: "log_account [] M (log_close i M, fs)" if "log_settled fs = [i]" for fs
    using log_close_account [OF M i] that by simp
  have arm: "log_account [] M (log_arm i (log_body i b3 M), fs)" if "log_settled fs = []" for b3 fs
    using log_arm_account [of "Some i" "log_body i b3 M" i fs] M i that by simp
  show ?thesis
    by (auto simp: onDownloadQuiet_def completeDownload_def Let_def intro!: close arm)
qed

lemma log_tick_account:
  assumes M: "log_ok (Some i) M" and i: "i \<in> set (log_ids M)"
  shows "log_account [] M (log_tick i target M)"
proof -
  obtain b where b: "body_of i (lc_table M) = Some b" using i body_ids [of i "lc_table M"] by (auto simp: log_ids_def)
  show ?thesis
    using with_ready_account [OF M onListQuiet_account [OF M i]] onDownloadQuiet_account [OF M i]
    by (simp add: log_tick_def b split: log_op.split)
qed

section \<open>Abort and disposal\<close>

lemma log_where:
  "log_ok x M \<Longrightarrow> distinct (log_ids_where Q M)" "set (log_ids_where Q M) \<subseteq> set (log_ids M)"
  by (auto simp: log_ok_def table_ok_def table_open_def op_ids_def log_ids_where_def log_ids_def distinct_map_filter)

lemma reject_logs_account:
  assumes "log_ok None M" "distinct is" "set is \<subseteq> set (log_ids M)" "log_settled fs = is"
  shows "log_account [] M (fst (reject_logs is e M), fs)"
  using close_all_accounts [of None "lc_table M" "is"] assms
  by (simp add: log_account_def reject_logs_def log_ok_def log_ids_def)

lemma abort_settled: "log_settled (concat (map (\<lambda>i. abort_effects i M) is)) = is"
  by (induction "is") (simp_all add: abort_effects_def split: option.split)

lemma log_abort_account: "log_ok None M \<Longrightarrow> log_account [] M (log_abort s M)"
  by (simp add: log_abort_def Let_def reject_logs_account log_where abort_settled)

lemma two_kinds_distinct:
  assumes "log_ok x M"
  shows "distinct (log_ids_where Q M @ log_ids_where (\<lambda>b. \<not> Q b) M)"
proof -
  have "inj_on op_id (set (tb_ops (lc_table M)))"
    using assms by (simp add: log_ok_def table_ok_def table_open_def op_ids_def distinct_map)
  then show ?thesis using log_where(1) [OF assms] by (auto simp: log_ids_where_def inj_on_def)
qed

lemma log_dispose_account: 
  assumes "log_ok None M"
  shows "log_account [] M (log_dispose M)"
proof (cases "lc_disposed M")
  case False
  let ?M = "M\<lparr>lc_disposed := True\<rparr>" and ?is = "log_ids_where is_list M @ log_ids_where (\<lambda>b. \<not> is_list b) M"
  have "log_account [] ?M (fst (reject_logs ?is LDisposed ?M), snd (reject_logs ?is LDisposed ?M))"
    using two_kinds_distinct [OF assms] log_where(2) assms
    by (intro reject_logs_account) (simp_all add: reject_logs_def)
  then show ?thesis using False by (simp add: log_dispose_def)
qed (simp add: log_dispose_def log_same assms)

section \<open>The ledger over runs\<close>

text \<open>The events that are calls of the client.\<close>

definition is_call :: "log_event \<Rightarrow> bool" where
  "is_call e = (case e of CallList _ _ \<Rightarrow> True | CallLogDownload _ _ _ _ \<Rightarrow> True | CallErase _ \<Rightarrow> True | _ \<Rightarrow> False)"

lemma log_step_exact:
  assumes M: "log_ok None M"
  shows "log_account (if is_call e then [tb_next (lc_table M)] else [])
    (if is_call e then M\<lparr>lc_table := number (lc_table M)\<rparr> else M) (log_step M e)"
proof -
  let ?N = "M\<lparr>lc_table := number (lc_table M)\<rparr>" and ?i = "tb_next (lc_table M)"
  have N: "log_ok None ?N" "log_fresh ?i ?N"
    using number_ok [of "lc_table M"] M by (simp_all add: log_ok_def log_fresh_def)
  have one: ?thesis if "log_account [?i] ?N (log_step M e)" "is_call e"
    using that by simp
  have zero: ?thesis if "log_account [] M (log_step M e)" "\<not> is_call e"
    using that by simp
  show ?thesis
  proof (cases e)
    case (CallList signal target)
    then show ?thesis using start_list_account [OF N] by (intro one) (simp_all add: log_step_def is_call_def Let_def)
  next
    case (CallLogDownload logId prog signal target)
    then show ?thesis using log_download_account [OF N] by (intro one) (simp_all add: log_step_def is_call_def Let_def)
  next
    case (CallErase target)
    then show ?thesis using erase_account [OF N] by (intro one) (simp_all add: log_step_def is_call_def Let_def)
  next
    case (LogIn msg target)
    then show ?thesis using log_onMessage_account [OF M] log_same [OF M] by (intro zero) (simp_all add: log_step_def is_call_def)
  next
    case (LogFire t target)
    show ?thesis
    proof (rule zero)
      show "\<not> is_call e" by (simp add: LogFire is_call_def)
      show "log_account [] M (log_step M e)"
      proof (cases "timer_handler t (tb_timers (lc_table M))")
      case None
      then show ?thesis using LogFire log_same [OF M] by (simp add: log_step_def)
    next
      case (Some i)
      let ?F = "M\<lparr>lc_table := fired t (lc_table M)\<rparr>"
      have "log_ok (Some i) ?F" "i \<in> set (log_ids ?F)"
        using fired_ok [of "lc_table M" t i] M Some by (simp_all add: log_ok_def log_ids_def)
      from log_tick_account [OF this, of target] show ?thesis
        using LogFire Some by (simp add: log_step_def log_account_def accounts_def)
      qed
    qed
  next
    case (LogHostDone i)
    then show ?thesis
      using waited_accounts [of "lc_table M" i] M accounts_refl [of "lc_table M"]
      by (intro zero) (simp_all add: log_step_def is_call_def log_account_def log_ok_def)
  next
    case (LogHostFailed i)
    then show ?thesis
      using waited_accounts [of "lc_table M" i] M accounts_refl [of "lc_table M"]
      by (intro zero) (simp_all add: log_step_def is_call_def log_account_def log_ok_def)
  next
    case (LogAbort s)
    then show ?thesis using log_abort_account [OF M] by (intro zero) (simp_all add: log_step_def is_call_def)
  next
    case LogDispose
    then show ?thesis using log_dispose_account [OF M] by (intro zero) (simp_all add: log_step_def is_call_def)
  qed
qed

lemma log_step_account:
  "log_ok None M \<Longrightarrow> step_account (lc_table M) (lc_table (fst (log_step M e))) (log_settled (snd (log_step M e)))"
  using log_step_exact [of M e] by (auto simp: step_account_def log_account_def split: if_splits)

lemma log_step_next:
  "log_ok None M \<Longrightarrow> tb_next (lc_table (fst (log_step M e))) = tb_next (lc_table M) + (if is_call e then 1 else 0)"
  using log_step_exact [of M e] by (simp add: log_account_def accounts_def split: if_splits)

interpretation log: promise_ledger log_step "log_ok None" "\<lambda>M. table_open (lc_table M)"
  "\<lambda>M. tb_next (lc_table M)" log_settles
  by unfold_locales (use step_account_laws [OF log_step_account] in \<open>simp_all add: log_ok_def\<close>)

lemma createLogClient_ok [simp]:
  "log_ok None (createLogClient a b)" "table_open (lc_table (createLogClient a b)) = []"
  "tb_next (lc_table (createLogClient a b)) = 0"
  by (simp_all add: log_ok_def table_ok_def table_open_def op_ids_def op_slots_def createLogClient_def
      empty_table_def armed_init)

section \<open>Operations left alone\<close>

definition fire_log :: "nat \<Rightarrow> target option \<Rightarrow> log_client \<Rightarrow> log_result" where
  "fire_log i target M =
     log_step M (LogFire (case find_op i (lc_table M) of
         Some op \<Rightarrow> (case op_cancelTimer op of Some t \<Rightarrow> t | None \<Rightarrow> 0)
       | None \<Rightarrow> tm_next (tb_timers (lc_table M))) target)"

definition log_live :: "nat \<Rightarrow> log_client \<Rightarrow> bool" where
  "log_live i M = (i \<in> set (log_ids M))"

text \<open>
  The quiet windows left; a listing a download waits for may still be followed by the download, all of
  whose windows are left.
\<close>

definition log_budget :: "nat \<Rightarrow> log_client \<Rightarrow> nat" where
  "log_budget i M =
     (case body_of i (lc_table M) of
        None \<Rightarrow> 0
      | Some (ListOp b) \<Rightarrow>
          lc_maxStallRounds M + 2 +
          (lc_maxStallRounds M + 1 - stalled (lb_lastCheckedCount b < length (lb_entries b)) (lb_stallRounds b))
      | Some (DataOp b) \<Rightarrow>
          lc_maxStallRounds M + 1 - stalled (da_lastCheckedBytes b < da_receivedBytes b) (da_stallRounds b))"

lemma log_budget_bound: "log_budget i M < 2 * lc_maxStallRounds M + 4"
  by (auto simp: log_budget_def less_Suc_eq_le split: option.split log_op.split)

lemma fire_log_tick:
  assumes "log_ok None M" "i \<in> set (log_ids M)"
  shows "\<exists>t. timer_handler t (tb_timers (lc_table M)) = Some i \<and>
    fire_log i target M = log_tick i target (M\<lparr>lc_table := fired t (lc_table M)\<rparr>)"
proof -
  obtain op where op: "find_op i (lc_table M) = Some op"
    using assms(2) find_op_ids [of i "lc_table M"] by (auto simp: log_ids_def)
  obtain t where "op_cancelTimer op = Some t" "timer_handler t (tb_timers (lc_table M)) = Some i"
    using own_timer [OF _ op] assms(1) by (auto simp: log_ok_def)
  then show ?thesis by (auto simp: fire_log_def op log_step_def)
qed

lemma log_ids_close: "log_ids (log_close i M) = filter (\<lambda>j. j \<noteq> i) (log_ids M)"
  by (simp add: log_ids_def log_close_def close_ids)

lemma log_bodies [simp]:
  "body_of j (lc_table (log_arm i M)) = body_of j (lc_table M)"
  "body_of j (lc_table (log_body i b M)) = (if i = j then map_option (\<lambda>_. b) (body_of j (lc_table M)) else body_of j (lc_table M))"
  by (simp_all add: log_arm_def log_body_def body_update)

lemma log_rounds [simp]:
  "lc_maxStallRounds (log_arm i M) = lc_maxStallRounds M" "lc_maxStallRounds (log_body i b M) = lc_maxStallRounds M"
  "lc_maxStallRounds (log_close i M) = lc_maxStallRounds M"
  by (simp_all add: log_arm_def log_body_def log_close_def)

lemma budget_of_new:
  assumes "i \<notin> set (log_ids M)" "log_live i (fst (findEntryForDownload (i, l, p, s, es) target M))"
  shows "log_budget i (fst (findEntryForDownload (i, l, p, s, es) target M)) < lc_maxStallRounds M + 2"
  using assms by (auto simp: log_live_def log_ids_def findEntryForDownload_def downloadEntry_def Let_def log_budget_def
      body_open stalled_def split: option.splits if_splits)

lemma list_tick_budget:
  assumes b: "body_of i (lc_table M) = Some (ListOp b)" and live: "log_live i (fst (with_ready target (onListQuiet i b M)))"
  shows "log_budget i (fst (with_ready target (onListQuiet i b M))) < log_budget i M"
proof (cases "tryResolveList i b M")
  case None
  let ?s = "stalled (lb_lastCheckedCount b < length (lb_entries b)) (lb_stallRounds b)"
  have gone: "\<not> log_live i (log_close i M)" by (simp add: log_live_def log_ids_close)
  then have go: "?s \<le> lc_maxStallRounds M"
    using live None by (auto simp: onListQuiet_def with_ready_def Let_def split: if_splits)
  have "stalled False n = Suc n" for n by (simp add: stalled_def)
  then show ?thesis using None go b by (simp add: onListQuiet_def with_ready_def Let_def log_budget_def)
next
  case (Some p)
  have gone: "i \<notin> set (log_ids (log_close i M))" by (simp add: log_ids_close)
  obtain es where p: "p = resolveList i b es M"
    using Some by (auto simp: tryResolveList_def split: option.splits if_splits)
  have q: "onListQuiet i b M = p" by (simp add: onListQuiet_def Some)
  have w: "lb_wanted b \<noteq> None"
    using live gone p q by (auto simp: resolveList_def with_ready_def log_live_def split: option.splits)
  then obtain l pr where w: "lb_wanted b = Some (l, pr)" by auto
  have r: "fst (with_ready target (onListQuiet i b M))
      = fst (findEntryForDownload (i, l, pr, lb_signal b, es) target (log_close i M))"
    by (simp add: q p resolveList_def w with_ready_def split_beta)
  have "log_budget i (fst (with_ready target (onListQuiet i b M))) < lc_maxStallRounds M + 2"
    using budget_of_new [OF gone] live unfolding r by simp
  then show ?thesis using b by (simp add: log_budget_def)
qed

lemma data_tick_budget:
  assumes b: "body_of i (lc_table M) = Some (DataOp b)" and live: "log_live i (fst (onDownloadQuiet i b M))"
  shows "log_budget i (fst (onDownloadQuiet i b M)) < log_budget i M"
proof -
  let ?s = "stalled (da_lastCheckedBytes b < da_receivedBytes b) (da_stallRounds b)"
  have gone: "\<not> log_live i (log_close i M)" by (simp add: log_live_def log_ids_close)
  then have go: "\<not> da_total b \<le> da_receivedBytes b" "?s \<le> lc_maxStallRounds M"
    using live by (auto simp: onDownloadQuiet_def completeDownload_def Let_def split: if_splits)
  have "stalled False n = Suc n" for n by (simp add: stalled_def)
  then show ?thesis using go b by (simp add: onDownloadQuiet_def Let_def log_budget_def)
qed

interpretation log_op: patience "fire_log i target" "log_live i" "log_ok None" "log_budget i" for i target
proof
  fix M assume M: "log_ok None M"
  show "log_ok None (fst (fire_log i target M))"
    using log.inv_step [OF M] by (simp add: fire_log_def)
  assume "log_live i M" and live: "log_live i (fst (fire_log i target M))"
  then have i: "i \<in> set (log_ids M)" by (simp add: log_live_def)
  obtain t where fire: "fire_log i target M = log_tick i target (M\<lparr>lc_table := fired t (lc_table M)\<rparr>)"
    using fire_log_tick [OF M i] by blast
  obtain b where b: "body_of i (lc_table M) = Some b" using i body_ids [of i "lc_table M"] by (auto simp: log_ids_def)
  let ?F = "M\<lparr>lc_table := fired t (lc_table M)\<rparr>"
  have "log_budget i (fst (log_tick i target ?F)) < log_budget i ?F"
    using live list_tick_budget [of i ?F _ target] data_tick_budget [of i ?F] unfolding fire
    by (simp add: log_tick_def b split: log_op.splits)
  moreover have "log_budget i ?F = log_budget i M"
    by (simp add: log_budget_def b split: log_op.split)
  ultimately show "log_budget i (fst (fire_log i target M)) < log_budget i M" by (simp add: fire)
qed

lemma log_idle_run: "\<exists>es. idle (fire_log i target) (log_live i) n M = run_steps log_step M es"
  by (rule idle_run) (auto simp: fire_log_def)

text \<open>Timers leave the calls alone that await the host.\<close>

lemma log_waiting [simp]:
  "tb_waiting (lc_table (log_arm i M)) = tb_waiting (lc_table M)"
  "tb_waiting (lc_table (log_body i b M)) = tb_waiting (lc_table M)"
  "tb_waiting (lc_table (log_close i M)) = tb_waiting (lc_table M)"
  by (simp_all add: log_arm_def log_body_def log_close_def)

lemma run_ready_waiting: "tb_waiting (lc_table (fst (run_ready rs target M))) = tb_waiting (lc_table M)"
proof (induction rs arbitrary: M)
  case (Cons r rs)
  have "tb_waiting (lc_table (fst (findEntryForDownload r target M))) = tb_waiting (lc_table M)"
    by (cases r) (simp add: findEntryForDownload_def downloadEntry_def Let_def split: option.split)
  then show ?case using Cons.IH by (simp add: Let_def split_beta)
qed simp

lemma list_quiet_waiting: "tb_waiting (lc_table (fst (onListQuiet i b M))) = tb_waiting (lc_table M)"
  by (simp add: onListQuiet_def tryResolveList_def resolveList_def Let_def split: option.split)

lemma log_tick_waiting: "tb_waiting (lc_table (fst (log_tick i target M))) = tb_waiting (lc_table M)"
  by (simp add: log_tick_def with_ready_def onDownloadQuiet_def completeDownload_def Let_def split_beta run_ready_waiting
      list_quiet_waiting split: option.split log_op.split)

end
