(* ===== verification/Log_Properties.thy ===== *)
theory Log_Properties
  imports Log_Safety
begin

text \<open>
  The properties of the log client: the contents of a downloaded log, the byte ranges it keeps and
  re-requests, its promises, and the end of operations left alone.
\<close>

section \<open>A truthful vehicle\<close>

text \<open>
  The vehicle stores the log \<open>V l\<close> under each id \<open>l\<close>: the sizes announced are those of the logs, and the
  bytes of every chunk are those of its log at its offset. Messages may be lost, repeated, cut short and
  reordered. \<open>A\<close> says which log a call asked for.
\<close>

definition entry_true :: "(nat \<Rightarrow> bytes) \<Rightarrow> log_entry \<Rightarrow> bool" where
  "entry_true V e = (le_sizeBytes e = length (V (le_id e)))"

fun log_truthful :: "(nat \<Rightarrow> bytes) \<Rightarrow> log_event \<Rightarrow> bool" where
  "log_truthful V (LogIn msg _) =
     ((dm_name msg = ''LOG_ENTRY'' \<longrightarrow>
        (\<forall>l sz. natField (dm_fields msg) ''id'' = Some l \<longrightarrow> natField (dm_fields msg) ''size'' = Some sz \<longrightarrow>
           sz = length (V l))) \<and>
      (dm_name msg = ''LOG_DATA'' \<longrightarrow>
        (\<forall>l ofs cnt chunk. natField (dm_fields msg) ''id'' = Some l \<longrightarrow> natField (dm_fields msg) ''ofs'' = Some ofs \<longrightarrow>
           natField (dm_fields msg) ''count'' = Some cnt \<longrightarrow> bytes_field (dm_fields msg) ''data'' = Some chunk \<longrightarrow>
           (\<forall>k < min cnt (length chunk). ofs + k < length (V l) \<longrightarrow> js_word (chunk ! k) = V l ! (ofs + k)))))"
| "log_truthful V _ = True"

definition data_true :: "(nat \<Rightarrow> bytes) \<Rightarrow> data_body \<Rightarrow> bool" where
  "data_true V b =
     (length (V (da_id b)) = da_total b \<and> length (da_buffer b) = da_total b \<and> ranges_ok 0 (da_ranges b) \<and>
      covered (da_ranges b) \<subseteq> {..<da_total b} \<and> da_receivedBytes b = card (covered (da_ranges b)) \<and>
      (\<forall>p\<in>covered (da_ranges b). da_buffer b ! p = V (da_id b) ! p))"

definition op_true :: "(nat \<Rightarrow> bytes) \<Rightarrow> (nat \<Rightarrow> nat option) \<Rightarrow> nat \<Rightarrow> log_op \<Rightarrow> bool" where
  "op_true V A i op =
     (case op of
        DataOp b \<Rightarrow> A i = Some (da_id b) \<and> data_true V b
      | ListOp b \<Rightarrow>
          (\<forall>e\<in>snd ` set (lb_entries b). entry_true V e) \<and>
          (case lb_wanted b of None \<Rightarrow> True | Some (l, _) \<Rightarrow> A i = Some l))"

definition log_true :: "(nat \<Rightarrow> bytes) \<Rightarrow> (nat \<Rightarrow> nat option) \<Rightarrow> log_client \<Rightarrow> bool" where
  "log_true V A M =
     (all_bodies (op_true V A) (lc_table M) \<and>
      (\<forall>l e. lc_cache M l = Some e \<longrightarrow> le_id e = l \<and> entry_true V e))"

definition blobs_true :: "(nat \<Rightarrow> bytes) \<Rightarrow> (nat \<Rightarrow> nat option) \<Rightarrow> log_effect list \<Rightarrow> bool" where
  "blobs_true V A fs = (\<forall>i l bs. ResolveBlob i l bs \<in> set fs \<longrightarrow> A i = Some l \<and> bs = V l)"

definition ready_true :: "(nat \<Rightarrow> bytes) \<Rightarrow> (nat \<Rightarrow> nat option) \<Rightarrow> ready list \<Rightarrow> bool" where
  "ready_true V A rs = (\<forall>(i, l, p, s, es)\<in>set rs. A i = Some l \<and> (\<forall>e\<in>set es. entry_true V e))"

abbreviation result_true :: "(nat \<Rightarrow> bytes) \<Rightarrow> (nat \<Rightarrow> nat option) \<Rightarrow> log_result \<Rightarrow> bool" where
  "result_true V A r \<equiv> log_true V A (fst r) \<and> blobs_true V A (snd r)"

lemma blobs_simps [simp]:
  "blobs_true V A []" "blobs_true V A (fs @ gs) = (blobs_true V A fs \<and> blobs_true V A gs)"
  "blobs_true V A (RejectLog i e # fs) = blobs_true V A fs"
  "blobs_true V A (ResolveList i es # fs) = blobs_true V A fs"
  "blobs_true V A (ResolveErase i # fs) = blobs_true V A fs"
  "blobs_true V A (LogProgress i a b # fs) = blobs_true V A fs"
  "blobs_true V A (SendLog n f # fs) = blobs_true V A fs"
  "blobs_true V A (sendRequestEnd g # fs) = blobs_true V A fs"
  "blobs_true V A (sendDataRequest g i a b # fs) = blobs_true V A fs"
  "blobs_true V A (sendListRequest g a b # fs) = blobs_true V A fs"
  "blobs_true V A (ResolveBlob i l bs # fs) = (A i = Some l \<and> bs = V l \<and> blobs_true V A fs)"
  by (auto simp: blobs_true_def sendRequestEnd_def sendDataRequest_def sendListRequest_def)

lemma blobs_maps [simp]:
  "blobs_true V A (map (\<lambda>i. RejectLog i e) is)" "blobs_true V A (map (\<lambda>(s, e). sendListRequest g s e) rs)"
  "blobs_true V A (map (\<lambda>r. sendDataRequest g i (f r) (h r)) gs)"
  "blobs_true V A (concat (map (\<lambda>i. abort_effects i M) is))"
  by (auto simp: blobs_true_def sendDataRequest_def sendListRequest_def sendRequestEnd_def abort_effects_def
      split: option.splits)

lemma ready_simps [simp]:
  "ready_true V A []" "ready_true V A (rs @ rs') = (ready_true V A rs \<and> ready_true V A rs')"
  by (simp_all add: ready_true_def ball_Un)

lemma true_frame [simp]:
  "log_true V A (log_arm i M) = log_true V A M" "log_true V A (M\<lparr>lc_disposed := d\<rparr>) = log_true V A M"
  "log_true V A (M\<lparr>lc_table := fired t (lc_table M)\<rparr>) = log_true V A M"
  "log_true V A (M\<lparr>lc_table := number (lc_table M)\<rparr>) = log_true V A M"
  "log_true V A (M\<lparr>lc_table := wait_op i (lc_table M)\<rparr>) = log_true V A M"
  "log_true V A (M\<lparr>lc_table := waited i (lc_table M)\<rparr>) = log_true V A M"
  by (simp_all add: log_true_def log_arm_def)

lemma true_close: "log_true V A M \<Longrightarrow> log_true V A (log_close i M)"
  by (simp add: log_true_def log_close_def all_bodies_close)

lemma true_close_all: "log_true V A M \<Longrightarrow> log_true V A (fst (reject_logs is e M))"
  by (simp add: log_true_def reject_logs_def all_bodies_close_all)

lemma blobs_reject [simp]: "blobs_true V A (snd (reject_logs is e M))"
  by (simp add: reject_logs_def)

lemma true_body: "log_true V A M \<Longrightarrow> op_true V A i b \<Longrightarrow> log_true V A (log_body i b M)"
  by (simp add: log_true_def log_body_def all_bodies_update)

lemma true_op: "log_true V A M \<Longrightarrow> body_of i (lc_table M) = Some b \<Longrightarrow> op_true V A i b"
  by (auto simp: log_true_def intro: all_bodies_body)

lemma data_trueD:
  assumes "data_true V b"
  shows "length (V (da_id b)) = da_total b" "length (da_buffer b) = da_total b" "ranges_ok 0 (da_ranges b)"
    "covered (da_ranges b) \<subseteq> {..<da_total b}" "da_receivedBytes b = card (covered (da_ranges b))"
    "p \<in> covered (da_ranges b) \<Longrightarrow> da_buffer b ! p = V (da_id b) ! p"
  using assms unfolding data_true_def by blast+

section \<open>Chunks\<close>

lemma write_chunk_length [simp]: "length (write_chunk buf pos vs) = length buf"
  by (induction buf pos vs rule: write_chunk.induct) simp_all

lemma write_chunk_nth:
  "p < length buf \<Longrightarrow>
   write_chunk buf pos vs ! p = (if pos \<le> p \<and> p < pos + length vs then js_word (vs ! (p - pos)) else buf ! p)"
proof (induction buf pos vs rule: write_chunk.induct)
  case (2 buf pos v vs)
  then show ?case by (auto simp: nth_list_update nth_Cons' Suc_le_eq)
qed auto

lemma store_chunk_true:
  assumes b: "data_true V b" and inside: "ofs + length chunk \<le> da_total b"
    and bytes: "\<And>k. k < length chunk \<Longrightarrow> js_word (chunk ! k) = V (da_id b) ! (ofs + k)"
  shows "data_true V (fst (store_chunk ofs chunk b))"
proof -
  let ?rs = "fst (addRange (da_ranges b) ofs (ofs + length chunk))"
  have ok: "ranges_ok 0 (da_ranges b)" and sub: "covered (da_ranges b) \<subseteq> {..<da_total b}"
    using data_trueD [OF b] by blast+
  have store: "fst (store_chunk ofs chunk b) = b\<lparr>da_buffer := write_chunk (da_buffer b) ofs chunk, da_ranges := ?rs,
      da_receivedBytes := da_receivedBytes b + snd (addRange (da_ranges b) ofs (ofs + length chunk))\<rparr>"
    by (simp add: store_chunk_def split_beta)
  have cover: "covered ?rs = covered (da_ranges b) \<union> {ofs..<ofs + length chunk}" by (rule ranges.add_cover [OF ok])
  have count: "da_receivedBytes b + snd (addRange (da_ranges b) ofs (ofs + length chunk)) = card (covered ?rs)"
    using ranges.count_step [OF ok] b by (simp add: data_true_def)
  have buf: "write_chunk (da_buffer b) ofs chunk ! p = V (da_id b) ! p" if "p \<in> covered ?rs" for p
  proof -
    have "p < length (da_buffer b)" using that sub inside b by (auto simp: cover data_true_def)
    then show ?thesis using that b bytes [of "p - ofs"] by (auto simp: write_chunk_nth cover data_true_def)
  qed
  show ?thesis
    unfolding store data_true_def
    using b count buf ranges.add_ok [OF ok] ranges.add_inside [OF ok sub inside] by (simp add: data_true_def)
qed

lemma store_chunk_frame [simp]:
  "da_total (fst (store_chunk ofs chunk b)) = da_total b" "da_id (fst (store_chunk ofs chunk b)) = da_id b"
  by (simp_all add: store_chunk_def split_beta)

lemma complete_true:
  assumes "data_true V b" "da_total b \<le> da_receivedBytes b"
  shows "da_buffer b = V (da_id b)"
proof (rule nth_equalityI)
  have "da_total b \<le> card (covered (da_ranges b))" using data_trueD(5) [OF assms(1)] assms(2) by simp
  from ranges.full_count [OF data_trueD(3,4) [OF assms(1)] this] show "da_buffer b ! p = V (da_id b) ! p" if "p < length (da_buffer b)" for p
    using that data_trueD(2,6) [OF assms(1)] by simp
qed (use data_trueD [OF assms(1)] in simp)

section \<open>Every step tells the truth\<close>

lemma start_list_true:
  "log_true V A M \<Longrightarrow> (\<And>l p. wanted = Some (l, p) \<Longrightarrow> A i = Some l) \<Longrightarrow>
   result_true V A (start_list i signal wanted target M)"
  by (auto simp: start_list_def Let_def log_true_def op_true_def split: option.split)

lemma downloadEntry_true:
  "log_true V A M \<Longrightarrow> entry_true V e \<Longrightarrow> A i = Some (le_id e) \<Longrightarrow>
   result_true V A (downloadEntry i e prog signal target M)"
  by (auto simp: downloadEntry_def Let_def log_true_def op_true_def data_true_def entry_true_def split: option.split)

lemma findEntry_true:
  "log_true V A M \<Longrightarrow> ready_true V A [r] \<Longrightarrow> result_true V A (findEntryForDownload r target M)"
  by (cases r) (auto simp: findEntryForDownload_def ready_true_def downloadEntry_true dest!: find_SomeD split: option.split)

lemma run_ready_true: "log_true V A M \<Longrightarrow> ready_true V A rs \<Longrightarrow> result_true V A (run_ready rs target M)"
proof (induction rs arbitrary: M)
  case (Cons r rs)
  have "ready_true V A [r]" "ready_true V A rs" using Cons.prems(2) by (auto simp: ready_true_def)
  then show ?case using findEntry_true [OF Cons.prems(1), of r target] Cons.IH by (simp add: Let_def split_beta)
qed simp

definition progress_true :: "(nat \<Rightarrow> bytes) \<Rightarrow> (nat \<Rightarrow> nat option) \<Rightarrow> log_progress \<Rightarrow> bool" where
  "progress_true V A p = (case p of (M, fs, rs) \<Rightarrow> log_true V A M \<and> blobs_true V A fs \<and> ready_true V A rs)"

lemma with_ready_true: "progress_true V A p \<Longrightarrow> result_true V A (with_ready target p)"
  using run_ready_true by (cases p) (simp add: progress_true_def with_ready_def split_beta)

lemma resolveList_true:
  assumes "log_true V A M" "op_true V A i (ListOp b)" "\<forall>e\<in>set es. entry_true V e"
  shows "progress_true V A (resolveList i b es M)"
  using assms
  by (auto simp: resolveList_def progress_true_def ready_true_def op_true_def true_close split: option.split)

lemma sorted_true: "(\<forall>e\<in>set (sortedEntries es). entry_true V e) = (\<forall>e\<in>snd ` set es. entry_true V e)"
  by (simp add: sortedEntries_def)

lemma tryResolveList_true:
  assumes "log_true V A M" "op_true V A i (ListOp b)" "tryResolveList i b M = Some p"
  shows "progress_true V A p"
proof -
  have "\<forall>e\<in>set (sortedEntries (lb_entries b)). entry_true V e"
    using assms(2) by (simp add: sorted_true op_true_def)
  then show ?thesis
    using assms resolveList_true [OF assms(1,2)] by (auto simp: tryResolveList_def split: option.splits if_splits)
qed

lemma update_snds: "snd ` set (AList.update k v xs) \<subseteq> insert v (snd ` set xs)"
  by (induction xs) auto

lemma entry_for_true:
  assumes M: "log_true V A M"
    and e: "\<And>l sz. natField (dm_fields msg) ''id'' = Some l \<Longrightarrow> natField (dm_fields msg) ''size'' = Some sz \<Longrightarrow> sz = length (V l)"
  shows "progress_true V A (entry_for msg i M)"
proof (cases "list_body_of i M")
  case None
  then show ?thesis using M by (simp add: entry_for_def progress_true_def)
next
  case (Some b)
  have b: "op_true V A i (ListOp b)"
    using Some true_op [OF M, of i] by (auto simp: list_body_of_def split: option.splits log_op.splits)
  define b1 where "b1 = b\<lparr>lb_total := (case natField (dm_fields msg) ''num_logs'' of Some n \<Rightarrow> Some n | None \<Rightarrow> lb_total b),
    lb_lastLogNum := (case natField (dm_fields msg) ''last_log_num'' of Some n \<Rightarrow> Some n | None \<Rightarrow> lb_lastLogNum b)\<rparr>"
  have b1: "op_true V A i (ListOp b1)" using b by (simp add: b1_def op_true_def)
  define M1 where "M1 = log_body i (ListOp b1) M"
  have M1: "log_true V A M1" unfolding M1_def by (rule true_body [OF M b1])
  have new: "progress_true V A (case tryResolveList i b2 M2 of Some p \<Rightarrow> p | None \<Rightarrow> (M2, [], []))"
    if l: "natField (dm_fields msg) ''id'' = Some l" "natField (dm_fields msg) ''size'' = Some sz"
      and x: "x = \<lparr>le_id = l, le_sizeBytes = sz, le_utc = u\<rparr>"
      and b2: "b2 = b1\<lparr>lb_entries := AList.update l x (lb_entries b1)\<rparr>"
      and M2: "M2 = log_arm i (log_body i (ListOp b2) (M1\<lparr>lc_cache := (lc_cache M1)(l \<mapsto> x)\<rparr>))" for l sz u x b2 M2
  proof -
    have x': "entry_true V x" "le_id x = l" using e [OF l] by (simp_all add: x entry_true_def)
    have b2': "op_true V A i (ListOp b2)"
    proof -
      have "entry_true V y" if "y \<in> snd ` set (AList.update l x (lb_entries b1))" for y
      proof -
        have "y \<in> insert x (snd ` set (lb_entries b1))" by (rule subsetD [OF update_snds that])
        then show ?thesis using b1 x' by (auto simp: op_true_def)
      qed
      then show ?thesis using b1 by (auto simp: b2 op_true_def)
    qed
    have "log_true V A (M1\<lparr>lc_cache := (lc_cache M1)(l \<mapsto> x)\<rparr>)"
      using M1 x' by (simp add: log_true_def)
    then have "log_true V A M2" using b2' by (simp add: M2 true_body)
    then show ?thesis
      using tryResolveList_true [OF _ b2', of M2] by (simp add: progress_true_def split: option.split)
  qed
  show ?thesis
    unfolding entry_for_def Some option.case Let_def b1_def [symmetric] M1_def [symmetric]
    using resolveList_true [OF M1 b1, of "[]"] M M1 new [OF _ _ refl refl refl]
    by (simp add: progress_true_def split: option.split)
qed

lemma each_entry_true:
  assumes "log_true V A M"
    and "\<And>l sz. natField (dm_fields msg) ''id'' = Some l \<Longrightarrow> natField (dm_fields msg) ''size'' = Some sz \<Longrightarrow> sz = length (V l)"
  shows "progress_true V A (each_entry msg is M)"
  using assms(1)
proof (induction "is" arbitrary: M)
  case (Cons i "is")
  obtain M1 f1 r1 where 1: "entry_for msg i M = (M1, f1, r1)" by (cases "entry_for msg i M")
  have a: "log_true V A M1 \<and> blobs_true V A f1 \<and> ready_true V A r1"
    using entry_for_true [where msg = msg and i = i, OF Cons.prems assms(2)] 1 by (simp add: progress_true_def)
  then show ?case
    using Cons.IH [of M1] by (cases "each_entry msg is M1") (simp add: 1 progress_true_def)
qed (simp add: progress_true_def)

lemma data_for_true:
  assumes M: "log_true V A M"
    and d: "\<And>k. k < min cnt (length chunk) \<Longrightarrow> ofs + k < length (V l) \<Longrightarrow> js_word (chunk ! k) = V l ! (ofs + k)"
  shows "result_true V A (data_for l ofs cnt chunk msg i M)"
proof (cases "data_body_of i M")
  case None
  then show ?thesis using M by (simp add: data_for_def)
next
  case (Some b)
  have b: "A i = Some (da_id b)" "data_true V b"
    using Some true_op [OF M, of i] by (auto simp: data_body_of_def op_true_def split: option.splits log_op.splits)
  define v where "v = min (min cnt (length chunk)) (min LOG_DATA_MAX_BYTES (da_total b - ofs))"
  note unf = data_for_def [of l ofs cnt chunk msg i M, unfolded Some option.case Let_def, folded v_def]
  show ?thesis
  proof (cases "log_fromTarget msg (da_target b) \<and> da_id b = l \<and> \<not> da_total b \<le> ofs \<and> \<not> v \<le> 0")
    case True
    let ?c = "take v chunk"
    have v: "v \<le> length chunk" "v \<le> cnt" "ofs + v \<le> da_total b" using True by (auto simp: v_def)
    obtain b1 added where s: "store_chunk ofs ?c b = (b1, added)" by fastforce
    have "js_word (?c ! k) = V (da_id b) ! (ofs + k)" if "k < length ?c" for k
      using that v d [of k] data_trueD(1) [OF b(2)] True by simp
    from store_chunk_true [OF b(2) _ this] have "data_true V b1" using v s by simp
    moreover have "da_id b1 = l" "da_total b1 = da_total b"
      using store_chunk_frame [of ofs ?c b] True unfolding s by simp_all
    ultimately have b1: "op_true V A i (DataOp b1)" "data_true V b1" "da_id b1 = l" "A i = Some l"
      using b(1) True by (simp_all add: op_true_def)
    have M1: "log_true V A (log_body i (DataOp b1) M)" by (rule true_body [OF M b1(1)])
    obtain M2 fs where p: "progressed i b1 added (log_body i (DataOp b1) M) = (M2, fs)" by fastforce
    have "log_true V A M2" "blobs_true V A fs" using M1 p by (auto simp: progressed_def split: if_splits)
    then show ?thesis
      using True complete_true [OF b1(2)] b1(3,4) by (simp add: unf s p completeDownload_def true_close)
  next
    case False
    then have "data_for l ofs cnt chunk msg i M = (M, [])" unfolding unf by (auto simp del: not_gr_zero)
    then show ?thesis using M by simp
  qed
qed

lemma each_data_true:
  assumes "log_true V A M"
    and "\<And>k. k < min cnt (length chunk) \<Longrightarrow> ofs + k < length (V l) \<Longrightarrow> js_word (chunk ! k) = V l ! (ofs + k)"
  shows "result_true V A (each_data l ofs cnt chunk msg is M)"
  using assms(1)
proof (induction "is" arbitrary: M)
  case (Cons i "is")
  then show ?case using data_for_true [where msg = msg and i = i, OF Cons.prems assms(2)] by (simp add: Let_def split_beta)
qed simp

lemma log_onMessage_true:
  assumes "log_true V A M" "log_truthful V (LogIn msg target)"
  shows "result_true V A (log_onMessage msg target M)"
  using assms with_ready_true [OF each_entry_true [OF assms(1)]] each_data_true [OF assms(1)]
  by (simp add: log_onMessage_def onLogEntry_def onLogData_def split: option.split)

lemma log_tick_true:
  assumes M: "log_true V A M"
  shows "result_true V A (log_tick i target M)"
proof (cases "body_of i (lc_table M)")
  case (Some op)
  have op: "op_true V A i op" using true_op [OF M Some] .
  show ?thesis
  proof (cases op)
    case (ListOp b)
    let ?b = "b\<lparr>lb_lastCheckedCount := c, lb_stallRounds := r\<rparr>"
    have "op_true V A i (ListOp (b\<lparr>lb_lastCheckedCount := c, lb_stallRounds := r\<rparr>))" for c r
      using op ListOp by (simp add: op_true_def)
    then have "progress_true V A (onListQuiet i b M)"
      using tryResolveList_true [OF M, of i b] op ListOp M
      by (auto simp: onListQuiet_def progress_true_def Let_def true_close true_body split: option.split)
    then show ?thesis using with_ready_true by (simp add: log_tick_def Some ListOp)
  next
    case (DataOp b)
    have "op_true V A i (DataOp (b\<lparr>da_lastCheckedBytes := c, da_stallRounds := r\<rparr>))" for c r
      using op DataOp by (simp add: op_true_def data_true_def)
    then show ?thesis
      using op DataOp M complete_true [of V b]
      by (simp add: log_tick_def Some onDownloadQuiet_def completeDownload_def Let_def true_close true_body op_true_def)
  qed
qed (simp add: log_tick_def M)

text \<open>Which log the calls of a run ask for, from the number of the first one on.\<close>

definition asked :: "log_event \<Rightarrow> nat option" where
  "asked e = (case e of CallLogDownload l _ _ _ \<Rightarrow> Some l | _ \<Rightarrow> None)"

lemma log_step_true:
  assumes M: "log_true V A M" and e: "log_truthful V e" and a: "is_call e \<Longrightarrow> A (tb_next (lc_table M)) = asked e"
  shows "result_true V A (log_step M e)"
proof (cases e)
  case (CallLogDownload l p s t)
  then have "A (tb_next (lc_table M)) = Some l" using a by (simp add: is_call_def asked_def)
  moreover have "entry_true V x \<and> le_id x = l" if "lc_cache M l = Some x" for x
    using M that by (simp add: log_true_def)
  ultimately show ?thesis
    using M start_list_true [of V A "M\<lparr>lc_table := number (lc_table M)\<rparr>" "Some (l, p)"]
      downloadEntry_true [of V A "M\<lparr>lc_table := number (lc_table M)\<rparr>"]
    by (simp add: log_step_def CallLogDownload log_download_def Let_def split: option.split)
next
  case (LogIn msg target)
  then show ?thesis using M log_onMessage_true [OF M, of msg target] e by (simp add: log_step_def)
next
  case (LogFire t target)
  then show ?thesis
    using M log_tick_true [of V A "M\<lparr>lc_table := fired t (lc_table M)\<rparr>"] by (simp add: log_step_def split: option.split)
next
  case (LogHostDone i)
  have "log_true V A (M\<lparr>lc_table := waited i (lc_table M), lc_cache := Map.empty\<rparr>)" using M by (simp add: log_true_def)
  then show ?thesis using M by (simp add: log_step_def LogHostDone)
next
  case (LogAbort s)
  then show ?thesis using M true_close_all by (simp add: log_step_def log_abort_def Let_def)
next
  case LogDispose
  have "log_true V A (M\<lparr>lc_disposed := True\<rparr>)" using M by simp
  then show ?thesis using M true_close_all by (simp add: log_step_def LogDispose log_dispose_def)
next
  case (CallList s t)
  then show ?thesis
    using M start_list_true [of V A "M\<lparr>lc_table := number (lc_table M)\<rparr>" None] by (simp add: log_step_def)
next
  case (CallErase t)
  then show ?thesis using M by (simp add: log_step_def Let_def erase_def log_true_def split: option.split)
next
  case (LogHostFailed i)
  then show ?thesis using M by (simp add: log_step_def)
qed

lemma log_run_true:
  assumes "log_ok None M" "log_true V A M" "list_all (log_truthful V) es"
    and "\<And>k. k < length (filter is_call es) \<Longrightarrow> A (tb_next (lc_table M) + k) = asked (filter is_call es ! k)"
  shows "blobs_true V A (snd (run_steps log_step M es))"
  using assms
proof (induction es arbitrary: M)
  case (Cons e es)
  let ?M = "fst (log_step M e)"
  have ok: "log_ok None ?M" using Cons.prems(1) by (rule log.inv_step)
  have "is_call e \<Longrightarrow> A (tb_next (lc_table M)) = asked e" using Cons.prems(4) [of 0] by simp
  then have s: "result_true V A (log_step M e)" using log_step_true [OF Cons.prems(2)] Cons.prems(3) by simp
  have "A (tb_next (lc_table ?M) + k) = asked (filter is_call es ! k)" if "k < length (filter is_call es)" for k
    using Cons.prems(4) [of "if is_call e then Suc k else k"] that log_step_next [OF Cons.prems(1), of e]
    by (simp split: if_splits)
  then have "blobs_true V A (snd (run_steps log_step ?M es))" using Cons.IH [OF ok] s Cons.prems(3) by simp
  with s show ?case by (simp add: Let_def split_beta)
qed simp

section \<open>The ranges of every download\<close>

text \<open>Without any assumption on what arrives, the ranges of a download stay in order and inside the log.\<close>

definition data_shape :: "data_body \<Rightarrow> bool" where
  "data_shape b =
     (ranges_ok 0 (da_ranges b) \<and> covered (da_ranges b) \<subseteq> {..<da_total b} \<and>
      da_receivedBytes b = card (covered (da_ranges b)))"

definition op_shape :: "log_op \<Rightarrow> bool" where
  "op_shape op = (case op of ListOp _ \<Rightarrow> True | DataOp b \<Rightarrow> data_shape b)"

abbreviation shapes :: "log_client \<Rightarrow> bool" where
  "shapes M \<equiv> all_bodies (\<lambda>_. op_shape) (lc_table M)"

lemma shapes_keep:
  "shapes M \<Longrightarrow> shapes (log_arm i M)" "shapes M \<Longrightarrow> shapes (log_close i M)"
  "shapes M \<Longrightarrow> shapes (fst (reject_logs is e M))" "shapes M \<Longrightarrow> op_shape b \<Longrightarrow> shapes (log_body i b M)"
  by (simp_all add: log_arm_def log_close_def log_body_def reject_logs_def all_bodies_close all_bodies_close_all
      all_bodies_update)

lemma start_shapes:
  "shapes M \<Longrightarrow> shapes (fst (start_list i signal wanted target M))"
  "shapes M \<Longrightarrow> shapes (fst (downloadEntry i e prog signal target M))"
  by (simp_all add: start_list_def downloadEntry_def Let_def op_shape_def data_shape_def split: option.split)

lemma run_ready_shapes: "shapes M \<Longrightarrow> shapes (fst (run_ready rs target M))"
proof (induction rs arbitrary: M)
  case (Cons r rs)
  have "shapes (fst (findEntryForDownload r target M))"
    using Cons.prems by (cases r) (simp add: findEntryForDownload_def start_shapes split: option.split)
  then show ?case using Cons.IH by (simp add: Let_def split_beta)
qed simp

lemma with_ready_shapes: "shapes (fst p) \<Longrightarrow> shapes (fst (with_ready target p))"
  by (cases p) (simp add: with_ready_def split_beta run_ready_shapes)

lemma tryResolveList_shapes: "shapes M \<Longrightarrow> tryResolveList i b M = Some p \<Longrightarrow> shapes (fst p)"
  by (auto simp: tryResolveList_def resolveList_def shapes_keep split: option.splits if_splits)

lemma list_shape [simp]: "op_shape (ListOp b)"
  by (simp add: op_shape_def)

lemma entry_for_shapes:
  assumes M: "shapes M"
  shows "shapes (fst (entry_for msg i M))"
proof (cases "list_body_of i M")
  case None
  then show ?thesis using M by (simp add: entry_for_def)
next
  case (Some b)
  define b1 where "b1 = b\<lparr>lb_total := (case natField (dm_fields msg) ''num_logs'' of Some n \<Rightarrow> Some n | None \<Rightarrow> lb_total b),
    lb_lastLogNum := (case natField (dm_fields msg) ''last_log_num'' of Some n \<Rightarrow> Some n | None \<Rightarrow> lb_lastLogNum b)\<rparr>"
  define M1 where "M1 = log_body i (ListOp b1) M"
  have M1: "shapes M1" unfolding M1_def by (rule shapes_keep(4) [OF M list_shape])
  have cached: "shapes (log_arm i (log_body i (ListOp b2) (M1\<lparr>lc_cache := c\<rparr>)))" for b2 c
    using M1 by (intro shapes_keep(1) shapes_keep(4) list_shape) simp
  have new: "shapes (fst (case tryResolveList i b3 M2 of Some p \<Rightarrow> p | None \<Rightarrow> (M2, [], [])))" if "shapes M2" for b3 M2
    using that tryResolveList_shapes [OF that] by (simp split: option.split)
  have res: "shapes (fst (resolveList i b1 [] M1))" by (simp add: resolveList_def M1 shapes_keep(2) split: option.split)
  show ?thesis
    unfolding entry_for_def Some option.case Let_def b1_def [symmetric] M1_def [symmetric]
    using M M1 res new [OF cached] by (simp split: option.split)
qed

lemma each_entry_shapes: "shapes M \<Longrightarrow> shapes (fst (each_entry msg is M))"
proof (induction "is" arbitrary: M)
  case (Cons i "is")
  then show ?case using entry_for_shapes [of M msg i] by (simp add: Let_def split_beta)
qed simp

lemma store_chunk_shape:
  assumes "data_shape b" "ofs + length chunk \<le> da_total b"
  shows "data_shape (fst (store_chunk ofs chunk b))"
proof -
  have ok: "ranges_ok 0 (da_ranges b)" and sub: "covered (da_ranges b) \<subseteq> {..<da_total b}"
    and card: "da_receivedBytes b = card (covered (da_ranges b))"
    using assms(1) by (simp_all add: data_shape_def)
  show ?thesis
    using ranges.add_ok [OF ok] ranges.add_inside [OF ok sub assms(2)] ranges.count_step [OF ok card]
    by (simp add: store_chunk_def split_beta data_shape_def)
qed

lemma data_for_shapes:
  assumes M: "shapes M"
  shows "shapes (fst (data_for l ofs cnt chunk msg i M))"
proof (cases "data_body_of i M")
  case None
  then show ?thesis using M by (simp add: data_for_def)
next
  case (Some b)
  have b: "data_shape b"
    using Some all_bodies_body [OF M, of i] by (auto simp: data_body_of_def op_shape_def split: option.splits log_op.splits)
  define v where "v = min (min cnt (length chunk)) (min LOG_DATA_MAX_BYTES (da_total b - ofs))"
  note unf = data_for_def [of l ofs cnt chunk msg i M, unfolded Some option.case Let_def, folded v_def]
  show ?thesis
  proof (cases "log_fromTarget msg (da_target b) \<and> da_id b = l \<and> \<not> da_total b \<le> ofs \<and> \<not> v \<le> 0")
    case True
    obtain b1 added where s: "store_chunk ofs (take v chunk) b = (b1, added)" by fastforce
    have "v \<le> length chunk" "ofs + v \<le> da_total b" using True by (auto simp: v_def)
    then have "data_shape b1" using store_chunk_shape [OF b, of ofs "take v chunk"] s by simp
    then have "shapes (log_body i (DataOp b1) M)" using M by (intro shapes_keep(4)) (simp_all add: op_shape_def)
    then have "shapes (fst (progressed i b1 added (log_body i (DataOp b1) M)))"
      by (simp add: progressed_def shapes_keep(1))
    then show ?thesis using True by (simp add: unf s completeDownload_def shapes_keep(2) split_beta)
  next
    case False
    then have "data_for l ofs cnt chunk msg i M = (M, [])" unfolding unf by (auto simp del: not_gr_zero)
    then show ?thesis using M by simp
  qed
qed

lemma each_data_shapes: "shapes M \<Longrightarrow> shapes (fst (each_data l ofs cnt chunk msg is M))"
proof (induction "is" arbitrary: M)
  case (Cons i "is")
  then show ?case using data_for_shapes [of M l ofs cnt chunk msg i] by (simp add: Let_def split_beta)
qed simp

lemma log_tick_shapes:
  assumes M: "shapes M"
  shows "shapes (fst (log_tick i target M))"
proof (cases "body_of i (lc_table M)")
  case (Some op)
  have op: "op_shape op" using all_bodies_body [OF M Some] .
  show ?thesis
  proof (cases op)
    case (ListOp b)
    have "shapes (fst (onListQuiet i b M))"
      using M tryResolveList_shapes [OF M, of i b] by (auto simp: onListQuiet_def Let_def shapes_keep split: option.split)
    then show ?thesis by (simp add: log_tick_def Some ListOp with_ready_shapes)
  next
    case (DataOp b)
    then have "op_shape (DataOp (b\<lparr>da_lastCheckedBytes := c, da_stallRounds := r\<rparr>))" for c r
      using op by (simp add: op_shape_def data_shape_def)
    then show ?thesis
      using M by (simp add: log_tick_def Some DataOp onDownloadQuiet_def completeDownload_def Let_def shapes_keep)
  qed
qed (simp add: log_tick_def M)

lemma log_step_shapes:
  assumes M: "shapes M"
  shows "shapes (fst (log_step M e))"
proof (cases e)
  case (LogIn msg target)
  have "shapes (fst (onLogEntry msg target M))" unfolding onLogEntry_def by (intro with_ready_shapes each_entry_shapes M)
  then show ?thesis
    using M by (simp add: log_step_def LogIn log_onMessage_def onLogData_def each_data_shapes split: option.split)
next
  case (LogFire t target)
  then show ?thesis
    using M log_tick_shapes [of "M\<lparr>lc_table := fired t (lc_table M)\<rparr>"] by (simp add: log_step_def split: option.split)
next
  case LogDispose
  have "shapes (M\<lparr>lc_disposed := True\<rparr>)" using M by simp
  then show ?thesis using M by (simp add: log_step_def LogDispose log_dispose_def shapes_keep(3))
qed (use M start_shapes [of "M\<lparr>lc_table := number (lc_table M)\<rparr>"] in
      \<open>simp_all add: log_step_def Let_def log_download_def erase_def log_abort_def shapes_keep split: option.split\<close>)

lemma log_run_shapes: "shapes M \<Longrightarrow> shapes (fst (run_steps log_step M es))"
proof (induction es arbitrary: M)
  case (Cons e es)
  then show ?case using log_step_shapes [of M e] by (simp add: Let_def split_beta)
qed simp

section \<open>Properties\<close>

text \<open>
  C13. A downloaded log is the log: whatever chunks are lost, repeated, cut short or reordered, if the sizes
  and chunks that arrive are those of the vehicle's logs \<open>V\<close>, a resolved download yields exactly the
  bytes of the log its call asked for. The promise with number \<open>i\<close> belongs to the \<open>i\<close>-th call of the run.
\<close>

theorem downloaded_log_is_exact:
  assumes "list_all (log_truthful V) es"
    and "ResolveBlob i l content \<in> set (snd (run_steps log_step (createLogClient a b) es))"
  shows "content = V l \<and> asked (filter is_call es ! i) = Some l"
proof -
  let ?A = "\<lambda>k. asked (filter is_call es ! k)"
  have "log_true V ?A (createLogClient a b)" by (simp add: createLogClient_def log_true_def)
  from log_run_true [OF _ this assms(1)] assms(2) show ?thesis by (simp add: blobs_true_def)
qed

text \<open>
  Every call of the log client settles at most once and is never lost, over any interleaving of calls,
  messages, quiet windows, aborts, failed erases and disposal; a download that lists the logs first keeps
  its promise through the listing.
\<close>

theorem log_promises_settle_once:
  "count (mset (List.map_filter log_settles (snd (run_steps log_step (createLogClient a b) es)))) i
   + count (mset (table_open (lc_table (fst (run_steps log_step (createLogClient a b) es))))) i
   = (if i < length (filter is_call es) then 1 else 0)"
proof -
  have "log_ok None M \<Longrightarrow> tb_next (lc_table (fst (run_steps log_step M es))) = tb_next (lc_table M) + length (filter is_call es)" for M
  proof (induction es arbitrary: M)
    case (Cons e es)
    show ?case
      using Cons.IH [OF log.inv_step [OF Cons.prems]] log_step_next [OF Cons.prems, of e] by (simp add: Let_def split_beta)
  qed simp
  from this [of "createLogClient a b"] show ?thesis
    using log.settled_once [of "createLogClient a b" es i] by simp
qed

text \<open>
  No listing or download hangs: in any reachable state, an operation that hears nothing more is settled
  after at most \<open>2 * maxStallRounds + 4\<close> quiet windows (a download that lists the logs first may
  use up those of both).
\<close>

theorem silent_log_ends:
  assumes "M = fst (run_steps log_step (createLogClient a b) es)" "i \<in> set (log_ids M)"
    and "idle (fire_log i target) (log_live i) (2 * lc_maxStallRounds M + 4) M = (M', fs)"
  shows "i \<notin> set (log_ids M') \<and> i \<in> set (List.map_filter log_settles fs)"
proof -
  have ok: "log_ok None M" unfolding assms(1) by (rule log.run_inv) simp
  from log_op.ends [OF ok log_budget_bound, where i = i and target = target] assms(3) have gone: "i \<notin> set (log_ids M')"
    by (simp add: log_live_def del: idle.simps)
  obtain es' where r: "run_steps log_step M es' = (M', fs)" using log_idle_run [of i target _ M] assms(3) by metis
  have "tb_waiting (lc_table (fst (fire_log i target s))) = tb_waiting (lc_table s)"
    if s: "log_ok None s" and live: "log_live i s" for s
    using fire_log_tick [OF s, of i target] live by (auto simp: log_live_def log_tick_waiting)
  then have "tb_waiting (lc_table M') = tb_waiting (lc_table M)"
    using log_op.keeps [where Q = "\<lambda>s. tb_waiting (lc_table s) = tb_waiting (lc_table M)", OF _ ok refl] assms(3)
    by (metis fst_conv)
  moreover have "i \<notin> set (tb_waiting (lc_table M))"
    using ok assms(2) by (auto simp: log_ok_def table_ok_def table_open_def log_ids_def)
  ultimately have "i \<notin> set (table_open (lc_table M'))" using gone by (simp add: table_open_def log_ids_def)
  then show ?thesis
    using log.left_settled [OF ok, of i es'] gone assms(2) r by (simp add: table_open_def log_ids_def)
qed

text \<open>
  C14. The byte ranges of a download are a set of bytes: inserting a range into a list that is sorted and
  disjoint keeps it so, adds exactly the bytes of the range, and returns how many of them are new; and
  the gaps of a list inside \<open>[0, n)\<close> are exactly the bytes below \<open>n\<close> it does not have.
\<close>

theorem byte_ranges_are_sets:
  assumes "ranges_ok 0 rs"
  shows "ranges_ok 0 (fst (addRange rs s e)) \<and>
    covered (fst (addRange rs s e)) = covered rs \<union> {s..<e} \<and>
    snd (addRange rs s e) = card ({s..<e} - covered rs) \<and>
    (\<forall>n. covered rs \<subseteq> {..<n} \<longrightarrow> covered (missingByteRanges rs n) = {..<n} - covered rs)"
  using ranges.add_ok [OF assms] ranges.add_cover [OF assms] ranges.add_count [OF assms] ranges.gaps_cover [OF assms]
  by simp

theorem byte_ranges_are_sets_witness:
  "covered (fst (addRange [range_of 0 90, range_of 180 270] 80 190)) = covered [range_of 0 90, range_of 180 270] \<union> {80..<190}"
  using byte_ranges_are_sets [of "[range_of 0 90, range_of 180 270]" 80 190] by simp

text \<open>
  A quiet window re-requests exactly what is missing: in any reachable state, when the timer of a
  download fires before its stall bound, every byte of the log not yet received is in exactly the requested
  ranges, none of them is empty, and at least one request is sent.
\<close>

theorem quiet_window_requests_missing_bytes:
  assumes "M = fst (run_steps log_step (createLogClient x y) es)" "data_body_of i M = Some b"
    and "stalled (da_lastCheckedBytes b < da_receivedBytes b) (da_stallRounds b) \<le> lc_maxStallRounds M"
    and "da_receivedBytes b < da_total b"
  shows "\<exists>gs. snd (log_tick i target M)
        = map (\<lambda>g. sendDataRequest (da_target b) (da_id b) (rg_start g) (rg_stop g - rg_start g)) gs \<and>
      gs \<noteq> [] \<and> (\<forall>g\<in>set gs. rg_start g < rg_stop g) \<and>
      covered gs = {..<da_total b} - covered (da_ranges b)"
proof -
  have "shapes (createLogClient x y)" by (simp add: createLogClient_def)
  then have M: "shapes M" unfolding assms(1) by (rule log_run_shapes)
  have op: "body_of i (lc_table M) = Some (DataOp b)"
    using assms(2) by (auto simp: data_body_of_def split: option.splits log_op.splits)
  have b: "data_shape b" using all_bodies_body [OF M op] by (simp add: op_shape_def)
  then have shape: "ranges_ok 0 (da_ranges b)" "covered (da_ranges b) \<subseteq> {..<da_total b}"
    "card (covered (da_ranges b)) < da_total b"
    using assms(4) by (simp_all add: data_shape_def)
  show ?thesis
    using assms(3,4) ranges.gap_left [OF shape] ranges.gaps_cover [OF shape(1,2)]
    by (intro exI [of _ "missingByteRanges (da_ranges b) (da_total b)"])
      (auto simp: log_tick_def op onDownloadQuiet_def Let_def missingByteRanges_def gaps_positive)
qed

text \<open>The data of the witnesses: a vehicle with one log of two bytes, whose chunks arrive out of order.\<close>

definition log_vehicle :: target where "log_vehicle = \<lparr>tg_sysid = 1, tg_compid = 1\<rparr>"

definition log_message :: "string \<Rightarrow> (string \<rightharpoonup> field_value) \<Rightarrow> decoded_message" where
  "log_message name fs =
     \<lparr>dm_sysid = 1, dm_compid = 1, dm_seq = 0, dm_msgId = 0, dm_name = name, dm_fields = fs,
      dm_crcOk = True, dm_signed = False, dm_linkId = None, dm_rxTimeUs = 0, dm_raw = [0xfd]\<rparr>"

definition chunk_message :: "nat \<Rightarrow> nat \<Rightarrow> decoded_message" where
  "chunk_message ofs v =
     log_message ''LOG_DATA'' [''id'' \<mapsto> FNum (js_nat 7), ''ofs'' \<mapsto> FNum (js_nat ofs), ''count'' \<mapsto> FNum (js_nat 1),
       ''data'' \<mapsto> FArr [js_nat v]]"

definition entry_message :: decoded_message where
  "entry_message =
     log_message ''LOG_ENTRY'' [''id'' \<mapsto> FNum (js_nat 7), ''size'' \<mapsto> FNum (js_nat 2),
       ''num_logs'' \<mapsto> FNum (js_nat 1), ''last_log_num'' \<mapsto> FNum (js_nat 7)]"

abbreviation two_bytes :: "nat \<Rightarrow> bytes" where
  "two_bytes l \<equiv> [5, 6]"

lemma chunk_fields:
  "natField (dm_fields (chunk_message ofs v)) ''id'' = Some 7" "natField (dm_fields (chunk_message ofs v)) ''ofs'' = Some ofs"
  "natField (dm_fields (chunk_message ofs v)) ''count'' = Some 1"
  "bytes_field (dm_fields (chunk_message ofs v)) ''data'' = Some [js_nat v]"
  "dm_name (chunk_message ofs v) = ''LOG_DATA''" "log_fromTarget (chunk_message ofs v) log_vehicle"
  by (simp_all add: chunk_message_def log_message_def natField_def numField_def bytes_field_def log_fromTarget_def
      log_vehicle_def)

lemma entry_fields:
  "natField (dm_fields entry_message) ''id'' = Some 7" "natField (dm_fields entry_message) ''size'' = Some 2"
  "natField (dm_fields entry_message) ''num_logs'' = Some 1" "natField (dm_fields entry_message) ''last_log_num'' = Some 7"
  "natField (dm_fields entry_message) ''time_utc'' = None"
  "dm_name entry_message = ''LOG_ENTRY''" "log_fromTarget entry_message log_vehicle"
  by (simp_all add: entry_message_def log_message_def natField_def numField_def log_fromTarget_def log_vehicle_def)

definition log_session :: "log_event list" where
  "log_session =
     [CallLogDownload 7 False None (Some log_vehicle), LogIn entry_message (Some log_vehicle),
      LogIn (chunk_message 1 6) None, LogIn (chunk_message 0 5) None]"

lemmas log_run_simps = log_step_def Let_def log_download_def start_list_def is_aborted_def createLogClient_def
  empty_table_def number_def open_op_def set_timer_def no_timers_def log_onMessage_def onLogEntry_def log_ids_def
  op_ids_def list_body_of_def body_of_def find_op_def entry_fields log_body_def update_body_def utc_of_def log_arm_def
  arm_op_def cancel_timer_def tryResolveList_def resolveList_def log_close_def close_op_def sortedEntries_def
  with_ready_def findEntryForDownload_def downloadEntry_def onLogData_def chunk_fields data_for_def data_body_of_def
  LOG_DATA_MAX_BYTES_def store_chunk_def addRange_def progressed_def completeDownload_def entry_for_def

lemma replicate_two: "replicate 2 x = [x, x]"
  by (simp add: numeral_2_eq_2)

lemma log_session_resolves:
  "ResolveBlob 0 7 [5, 6] \<in> set (snd (run_steps log_step (createLogClient None None) log_session))"
  by (simp add: log_session_def log_run_simps replicate_two js_word_def js_trunc_def js_nat_def rat_trunc_def)

theorem downloaded_log_is_exact_witness:
  "[5, 6] = two_bytes 7 \<and> asked (filter is_call log_session ! 0) = Some 7"
proof (rule downloaded_log_is_exact [OF _ log_session_resolves])
  show "list_all (log_truthful two_bytes) log_session"
    by (simp add: log_session_def entry_fields chunk_fields js_word_def js_trunc_def js_nat_def rat_trunc_def)
qed

definition listing :: log_client where
  "listing = fst (run_steps log_step (createLogClient None None) [CallLogDownload 7 False None (Some log_vehicle)])"

lemma listing_ids: "log_ids listing = [0]"
  by (simp add: listing_def log_run_simps)

theorem silent_log_ends_witness:
  "0 \<notin> set (log_ids (fst (idle (fire_log 0 None) (log_live 0) (2 * lc_maxStallRounds listing + 4) listing))) \<and>
   0 \<in> set (List.map_filter log_settles (snd (idle (fire_log 0 None) (log_live 0) (2 * lc_maxStallRounds listing + 4) listing)))"
  by (rule silent_log_ends [OF listing_def]) (simp_all add: listing_ids del: idle.simps)

definition half_way :: log_client where
  "half_way = fst (run_steps log_step (createLogClient None None) (take 3 log_session))"

definition half_body :: data_body where
  "half_body =
     \<lparr>da_target = log_vehicle, da_id = 7, da_total = 2, da_buffer = [0, 6], da_ranges = [range_of 1 2],
      da_receivedBytes = 1, da_lastCheckedBytes = 0, da_stallRounds = 0, da_onProgress = False, da_signal = None\<rparr>"

lemma half_way_body: "data_body_of 0 half_way = Some half_body" "lc_maxStallRounds half_way = 8"
  by (simp_all add: half_way_def half_body_def log_session_def log_run_simps replicate_two js_word_def js_trunc_def js_nat_def rat_trunc_def)

theorem quiet_window_requests_missing_bytes_witness:
  "\<exists>gs. snd (log_tick 0 None half_way)
        = map (\<lambda>g. sendDataRequest log_vehicle 7 (rg_start g) (rg_stop g - rg_start g)) gs \<and>
      gs \<noteq> [] \<and> (\<forall>g\<in>set gs. rg_start g < rg_stop g) \<and> covered gs = {..<2} - covered [range_of 1 2]"
  using quiet_window_requests_missing_bytes [OF half_way_def half_way_body(1), of None]
  by (simp add: half_body_def half_way_body stalled_def)

end
