(* ===== verification/Utf8.thy ===== *)
theory Utf8
  imports Prelude
begin

text \<open>
  The \<open>TextEncoder\<close> and \<open>TextDecoder\<close> of JavaScript, as the clients use them: text is a list of code
  points, and the decoder is the one of the WHATWG encoding standard with its replacement characters
  and its leading byte order mark.
\<close>

type_synonym text_points = "nat list"

definition REPLACEMENT :: nat where "REPLACEMENT = 0xfffd"

text \<open>A Unicode scalar value; a well-formed string is a list of these.\<close>

definition scalar :: "nat \<Rightarrow> bool" where
  "scalar c = (c < 0x110000 \<and> \<not> (0xd800 \<le> c \<and> c \<le> 0xdfff))"

definition utf8_char :: "nat \<Rightarrow> bytes" where
  "utf8_char c =
     (if c < 0x80 then [of_nat c]
      else if c < 0x800 then [of_nat (0xc0 + c div 64), of_nat (0x80 + c mod 64)]
      else if c < 0x10000 then [of_nat (0xe0 + c div 4096), of_nat (0x80 + c div 64 mod 64), of_nat (0x80 + c mod 64)]
      else [of_nat (0xf0 + c div 262144), of_nat (0x80 + c div 4096 mod 64), of_nat (0x80 + c div 64 mod 64),
            of_nat (0x80 + c mod 64)])"

text \<open>Lone surrogates are encoded as the replacement character.\<close>

definition utf8_encode :: "text_points \<Rightarrow> bytes" where
  "utf8_encode s = concat (map (\<lambda>c. utf8_char (if scalar c then c else REPLACEMENT)) s)"

text \<open>
  The decoder after a lead byte: \<open>need\<close> continuation bytes are to come, the next of them between
  \<open>lo\<close> and \<open>hi\<close>; \<open>cp\<close> holds the bits read so far. A byte out of place ends the sequence with a
  replacement character and is read again.
\<close>

function utf8_from :: "nat \<Rightarrow> nat \<Rightarrow> nat \<Rightarrow> nat \<Rightarrow> bytes \<Rightarrow> text_points" where
  "utf8_from need lo hi cp [] = (if need = 0 then [] else [REPLACEMENT])"
| "utf8_from need lo hi cp (b # bs) =
     (let u = unat b in
      if need = 0 then
        (if u < 0x80 then u # utf8_from 0 0x80 0xbf 0 bs
         else if 0xc2 \<le> u \<and> u \<le> 0xdf then utf8_from 1 0x80 0xbf (u - 0xc0) bs
         else if 0xe0 \<le> u \<and> u \<le> 0xef then
           utf8_from 2 (if u = 0xe0 then 0xa0 else 0x80) (if u = 0xed then 0x9f else 0xbf) (u - 0xe0) bs
         else if 0xf0 \<le> u \<and> u \<le> 0xf4 then
           utf8_from 3 (if u = 0xf0 then 0x90 else 0x80) (if u = 0xf4 then 0x8f else 0xbf) (u - 0xf0) bs
         else REPLACEMENT # utf8_from 0 0x80 0xbf 0 bs)
      else if u < lo \<or> hi < u then REPLACEMENT # utf8_from 0 0x80 0xbf 0 (b # bs)
      else
        let cp = cp * 64 + (u - 0x80)
        in if need = 1 then cp # utf8_from 0 0x80 0xbf 0 bs else utf8_from (need - 1) 0x80 0xbf cp bs)"
  by pat_completeness auto
termination
  by (relation "measures [\<lambda>(need, lo, hi, cp, bs). length bs, \<lambda>(need, lo, hi, cp, bs). need]") auto

definition utf8_decode :: "bytes \<Rightarrow> text_points" where
  "utf8_decode bs =
     utf8_from 0 0x80 0xbf 0 (if take 3 bs = [0xef, 0xbb, 0xbf] then drop 3 bs else bs)"

section \<open>Round trip\<close>

lemma unat_small: "n < 256 \<Longrightarrow> unat (of_nat n :: u8) = n"
  by (simp add: unat_of_nat take_bit_eq_mod)

declare utf8_from.simps(2) [simp del]

lemma utf8_next:
  assumes "n < 64" "lo \<le> 0x80 + n" "0x80 + n \<le> hi"
  shows "utf8_from 1 lo hi cp (of_nat (0x80 + n) # bs) = (cp * 64 + n) # utf8_from 0 0x80 0xbf 0 bs"
    and "utf8_from 2 lo hi cp (of_nat (0x80 + n) # bs) = utf8_from 1 0x80 0xbf (cp * 64 + n) bs"
    and "utf8_from 3 lo hi cp (of_nat (0x80 + n) # bs) = utf8_from 2 0x80 0xbf (cp * 64 + n) bs"
proof -
  obtain b :: u8 where b: "of_nat (0x80 + n) = b" "unat b = 0x80 + n"
    using assms(1) unat_small [of "0x80 + n"] by simp
  show "utf8_from 1 lo hi cp (of_nat (0x80 + n) # bs) = (cp * 64 + n) # utf8_from 0 0x80 0xbf 0 bs"
    unfolding b(1) using utf8_from.simps(2) [of 1 lo hi cp b bs] assms b(2) by (simp add: Let_def)
  show "utf8_from 2 lo hi cp (of_nat (0x80 + n) # bs) = utf8_from 1 0x80 0xbf (cp * 64 + n) bs"
    unfolding b(1) using utf8_from.simps(2) [of 2 lo hi cp b bs] assms b(2) by (simp add: Let_def)
  show "utf8_from 3 lo hi cp (of_nat (0x80 + n) # bs) = utf8_from 2 0x80 0xbf (cp * 64 + n) bs"
    unfolding b(1) using utf8_from.simps(2) [of 3 lo hi cp b bs] assms b(2) by (simp add: Let_def)
qed

lemma utf8_lead:
  "c < 0x80 \<Longrightarrow> utf8_from 0 lo hi cp (of_nat c # bs) = c # utf8_from 0 0x80 0xbf 0 bs"
  "2 \<le> a \<Longrightarrow> a < 32 \<Longrightarrow> utf8_from 0 lo hi cp (of_nat (0xc0 + a) # bs) = utf8_from 1 0x80 0xbf a bs"
  "a < 16 \<Longrightarrow> utf8_from 0 lo hi cp (of_nat (0xe0 + a) # bs)
     = utf8_from 2 (if a = 0 then 0xa0 else 0x80) (if a = 13 then 0x9f else 0xbf) a bs"
  "a < 5 \<Longrightarrow> utf8_from 0 lo hi cp (of_nat (0xf0 + a) # bs)
     = utf8_from 3 (if a = 0 then 0x90 else 0x80) (if a = 4 then 0x8f else 0xbf) a bs"
proof -
  have byte: "\<exists>b :: u8. of_nat n = b \<and> unat b = n" if "n < 256" for n using unat_small [OF that] by simp
  note lead = utf8_from.simps(2) [of 0 lo hi cp _ bs]
  show "utf8_from 0 lo hi cp (of_nat c # bs) = c # utf8_from 0 0x80 0xbf 0 bs" if h: "c < 0x80"
  proof -
    obtain b :: u8 where b: "of_nat c = b" "unat b = c" using byte [of c] h by auto
    show ?thesis unfolding b(1) using lead [of b] b(2) h by (simp add: Let_def)
  qed
  show "utf8_from 0 lo hi cp (of_nat (0xc0 + a) # bs) = utf8_from 1 0x80 0xbf a bs" if h: "2 \<le> a" "a < 32"
  proof -
    obtain b :: u8 where b: "of_nat (0xc0 + a) = b" "unat b = 0xc0 + a" using byte [of "0xc0 + a"] h by auto
    show ?thesis unfolding b(1) using lead [of b] b(2) h by (simp add: Let_def)
  qed
  show "utf8_from 0 lo hi cp (of_nat (0xe0 + a) # bs)
     = utf8_from 2 (if a = 0 then 0xa0 else 0x80) (if a = 13 then 0x9f else 0xbf) a bs" if h: "a < 16"
  proof -
    obtain b :: u8 where b: "of_nat (0xe0 + a) = b" "unat b = 0xe0 + a" using byte [of "0xe0 + a"] h by auto
    show ?thesis unfolding b(1) using lead [of b] b(2) h by (simp add: Let_def)
  qed
  show "utf8_from 0 lo hi cp (of_nat (0xf0 + a) # bs)
     = utf8_from 3 (if a = 0 then 0x90 else 0x80) (if a = 4 then 0x8f else 0xbf) a bs" if h: "a < 5"
  proof -
    obtain b :: u8 where b: "of_nat (0xf0 + a) = b" "unat b = 0xf0 + a" using byte [of "0xf0 + a"] h by auto
    show ?thesis unfolding b(1) using lead [of b] b(2) h by (simp add: Let_def)
  qed
qed

text \<open>The digits of a code point to the base 64.\<close>

lemma base64:
  fixes c :: nat
  shows "c div 4096 * 64 + c div 64 mod 64 = c div 64" "c div 262144 * 64 + c div 4096 mod 64 = c div 4096"
proof -
  have "c div 4096 = c div 64 div 64" "c div 262144 = c div 4096 div 64" by (simp_all add: div_mult2_eq [symmetric])
  then show "c div 4096 * 64 + c div 64 mod 64 = c div 64" "c div 262144 * 64 + c div 4096 mod 64 = c div 4096"
    by simp_all
qed

lemma utf8_from_char:
  assumes "scalar c"
  shows "utf8_from 0 lo hi cp (utf8_char c @ bs) = c # utf8_from 0 0x80 0xbf 0 bs"
proof -
  have c: "c < 0x110000" "c < 0xd800 \<or> 0xdfff < c" using assms by (auto simp: scalar_def)
  have l: "c mod 64 < 64" "c div 64 * 64 + c mod 64 = c" by simp_all
  consider "c < 0x80" | "0x80 \<le> c" "c < 0x800" | "0x800 \<le> c" "c < 0x10000" | "0x10000 \<le> c" by linarith
  then show ?thesis
  proof cases
    case 1
    then show ?thesis by (simp add: utf8_char_def utf8_lead)
  next
    case 2
    then have a: "2 \<le> c div 64" "c div 64 < 32" by linarith+
    have ch: "utf8_char c = [of_nat (0xc0 + c div 64), of_nat (0x80 + c mod 64)]"
      using 2 by (simp add: utf8_char_def)
    show ?thesis
      unfolding ch append_Cons append_Nil utf8_lead(2) [OF a]
      using utf8_next(1) [OF l(1), of 128 191 "c div 64" bs] l by simp
  next
    case 3
    define a m where "a = c div 4096" and "m = c div 64 mod 64"
    have am: "a * 64 + m = c div 64" "m < 64" "a < 16" using base64(1) [of c] 3 by (simp_all add: a_def m_def less_mult_imp_div_less)
    have "32 \<le> c div 64" "c div 64 < 864 \<or> 895 < c div 64" using 3 c(2) by linarith+
    then have lo: "(if a = 0 then 0xa0 else 0x80) \<le> 0x80 + m" and hi: "0x80 + m \<le> (if a = 13 then 0x9f else 0xbf)"
      using am by (auto split: if_splits)
    have ch: "utf8_char c = [of_nat (0xe0 + a), of_nat (0x80 + m), of_nat (0x80 + c mod 64)]"
      using 3 by (simp add: utf8_char_def a_def m_def)
    show ?thesis
      unfolding ch append_Cons append_Nil utf8_lead(3) [OF am(3)] utf8_next(2) [OF am(2) lo hi] am(1)
      using utf8_next(1) [OF l(1), of 128 191 "c div 64" bs] l by simp
  next
    case 4
    define a k m where "a = c div 262144" and "k = c div 4096 mod 64" and "m = c div 64 mod 64"
    have ak: "a * 64 + k = c div 4096" "k < 64" "a < 5" using base64(2) [of c] c(1) by (simp_all add: a_def k_def less_mult_imp_div_less)
    have km: "c div 4096 * 64 + m = c div 64" "m < 64" using base64(1) [of c] by (simp_all add: m_def)
    have "16 \<le> c div 4096" "c div 4096 < 272" using 4 c(1) by linarith+
    then have lo: "(if a = 0 then 0x90 else 0x80) \<le> 0x80 + k" and hi: "0x80 + k \<le> (if a = 4 then 0x8f else 0xbf)"
      using ak by (auto split: if_splits)
    have ch: "utf8_char c = [of_nat (0xf0 + a), of_nat (0x80 + k), of_nat (0x80 + m), of_nat (0x80 + c mod 64)]"
      using 4 by (simp add: utf8_char_def a_def k_def m_def)
    have m: "128 \<le> 128 + m" "128 + m \<le> 191" using km(2) by simp_all
    show ?thesis
      unfolding ch append_Cons append_Nil utf8_lead(4) [OF ak(3)] utf8_next(3) [OF ak(2) lo hi] ak(1)
        utf8_next(2) [OF km(2) m] km(1)
      using utf8_next(1) [OF l(1), of 128 191 "c div 64" bs] l by simp
  qed
qed

lemma utf8_from_encode:
  "list_all scalar s \<Longrightarrow> utf8_from 0 lo hi cp (utf8_encode s @ bs) = s @ utf8_from 0 0x80 0xbf 0 bs"
proof (induction s arbitrary: lo hi cp)
  case Nil
  then show ?case by (cases bs) (simp_all add: utf8_encode_def utf8_from.simps(2))
next
  case (Cons c s)
  then show ?case by (simp add: utf8_encode_def utf8_from_char)
qed

lemma utf8_round_trip:
  assumes "list_all scalar s" "take 3 (utf8_encode s) \<noteq> [0xef, 0xbb, 0xbf]"
  shows "utf8_decode (utf8_encode s) = s"
  using utf8_from_encode [OF assms(1), where bs = "[]"] assms(2) by (simp add: utf8_decode_def)

text \<open>No byte of an encoded text is zero unless the text has a zero.\<close>

lemma utf8_char_nonzero:
  assumes "scalar c" "c \<noteq> 0"
  shows "0 \<notin> set (utf8_char c)"
proof -
  have nz: "(of_nat n :: u8) \<noteq> 0" if "0 < n" "n < 256" for n
    using that unat_small [of n] by (metis less_numeral_extra(3) unsigned_0)
  have cont: "(of_nat (0x80 + n mod 64) :: u8) \<noteq> 0" for n
  proof (rule nz)
    have "n mod 64 < 64" by simp
    then show "0x80 + n mod 64 < 256" by linarith
  qed simp
  have lead: "c < 0x800 \<Longrightarrow> (of_nat (0xc0 + c div 64) :: u8) \<noteq> 0" "c < 0x10000 \<Longrightarrow> (of_nat (0xe0 + c div 4096) :: u8) \<noteq> 0"
    "(of_nat (0xf0 + c div 262144) :: u8) \<noteq> 0"
    using assms(1) by (intro nz; simp add: scalar_def; linarith)+
  show ?thesis
    using nz [of c] cont lead assms(2) unfolding utf8_char_def by (auto simp del: of_nat_add)
qed

end
