(* ===== verification/Ftp_Protocol.thy ===== *)
theory Ftp_Protocol
  imports Client_Base Utf8
begin

text \<open>
  \<open>src/mavlink/microservices/ftp/ftp-protocol.ts\<close>: the constants of MAVLink FTP and the payload
  carried in \<open>FILE_TRANSFER_PROTOCOL\<close>; and \<open>parseListing\<close> of \<open>ftp-client.ts\<close>, which reads the
  records of a directory page. Names and paths are lists of code points.
\<close>

section \<open>Constants\<close>

definition FTP_PAYLOAD_LEN :: nat where "FTP_PAYLOAD_LEN = 251"
definition FTP_HEADER_LEN :: nat where "FTP_HEADER_LEN = 12"
definition FTP_MAX_DATA :: nat where "FTP_MAX_DATA = FTP_PAYLOAD_LEN - FTP_HEADER_LEN"

definition OpTerminateSession :: nat where "OpTerminateSession = 1"
definition OpListDirectory :: nat where "OpListDirectory = 3"
definition OpOpenFileRO :: nat where "OpOpenFileRO = 4"
definition OpReadFile :: nat where "OpReadFile = 5"
definition OpCreateFile :: nat where "OpCreateFile = 6"
definition OpWriteFile :: nat where "OpWriteFile = 7"
definition OpRemoveFile :: nat where "OpRemoveFile = 8"
definition OpBurstReadFile :: nat where "OpBurstReadFile = 15"
definition OpAck :: nat where "OpAck = 128"
definition OpNak :: nat where "OpNak = 129"

definition NakFail :: nat where "NakFail = 1"
definition NakEndOfFile :: nat where "NakEndOfFile = 6"
definition NakUnknownCommand :: nat where "NakUnknownCommand = 7"

lemmas ftp_constants = FTP_PAYLOAD_LEN_def FTP_HEADER_LEN_def FTP_MAX_DATA_def OpTerminateSession_def
  OpListDirectory_def OpOpenFileRO_def OpReadFile_def OpCreateFile_def OpWriteFile_def OpRemoveFile_def
  OpBurstReadFile_def OpAck_def OpNak_def NakFail_def NakEndOfFile_def NakUnknownCommand_def

section \<open>Payloads\<close>

record ftp_payload =
  fp_seq :: nat
  fp_session :: nat
  fp_opcode :: nat
  fp_size :: nat
  fp_reqOpcode :: nat
  fp_burstComplete :: nat
  fp_offset :: nat
  fp_data :: bytes

record ftp_request =
  rq_seq :: nat
  rq_session :: nat
  rq_opcode :: nat
  rq_offset :: nat
  rq_size :: nat
  rq_data :: bytes

text \<open>
  The buffer, written field by field: \<open>le_bytes n\<close> keeps the low \<open>8 n\<close> bits of its argument, as the masks
  and \<open>setUint\<close> do. The defaults of \<open>size\<close> and \<open>data\<close> are the callers'.
\<close>

definition encodePayload :: "ftp_request \<Rightarrow> bytes" where
  "encodePayload req =
     (let part = take FTP_MAX_DATA (rq_data req)
      in le_bytes 2 (rq_seq req) @ le_bytes 1 (rq_session req) @ le_bytes 1 (rq_opcode req) @ le_bytes 1 (rq_size req) @
         [0, 0, 0] @ le_bytes 4 (rq_offset req) @ part @ replicate (FTP_MAX_DATA - length part) 0)"

definition payload_fields :: "bytes \<Rightarrow> ftp_payload" where
  "payload_fields bs =
     (let sz = le_nat (subarray 4 1 bs); dataLen = min sz FTP_MAX_DATA
      in \<lparr>fp_seq = le_nat (subarray 0 2 bs), fp_session = le_nat (subarray 2 1 bs), fp_opcode = le_nat (subarray 3 1 bs),
          fp_size = sz, fp_reqOpcode = le_nat (subarray 5 1 bs), fp_burstComplete = le_nat (subarray 6 1 bs),
          fp_offset = le_nat (subarray 8 4 bs), fp_data = subarray FTP_HEADER_LEN dataLen bs\<rparr>)"

definition decodePayload :: "jsnum list \<Rightarrow> ftp_payload" where
  "decodePayload raw =
     payload_fields (map js_word (take FTP_PAYLOAD_LEN raw) @ replicate (FTP_PAYLOAD_LEN - length raw) 0)"

definition readU32LE :: "bytes \<Rightarrow> nat" where
  "readU32LE bs = (if length bs < 4 then 0 else le_nat (subarray 0 4 bs))"

section \<open>The round trip\<close>

text \<open>A byte as the number the codec puts into an array field.\<close>

definition js_byte :: "u8 \<Rightarrow> jsnum" where
  "js_byte b = js_nat (unat b)"

lemma js_word_byte [simp]: "js_word (js_byte b) = b"
proof -
  have "js_trunc (js_nat n) = int n" for n by (simp add: js_trunc_def js_nat_def rat_trunc_def)
  then show ?thesis by (simp add: js_word_def js_byte_def)
qed

lemma map_js_word [simp]: "map js_word (map js_byte bs) = bs"
  by (simp add: comp_def)

lemma decode_buffer:
  "length bs \<le> FTP_PAYLOAD_LEN \<Longrightarrow>
   decodePayload (map js_byte bs) = payload_fields (bs @ replicate (FTP_PAYLOAD_LEN - length bs) 0)"
  by (simp add: decodePayload_def comp_def)

lemma encodePayload_length [simp]: "length (encodePayload req) = FTP_PAYLOAD_LEN"
  by (simp add: encodePayload_def Let_def ftp_constants)

text \<open>Zeros cut off the end, as the encoder of MAVLink 2 does, are put back.\<close>

lemma decode_truncated:
  assumes "length bs = FTP_PAYLOAD_LEN" "\<forall>i<length bs. n \<le> i \<longrightarrow> bs ! i = 0"
  shows "decodePayload (map js_byte (take n bs)) = decodePayload (map js_byte bs)"
proof -
  have "take n bs @ replicate (FTP_PAYLOAD_LEN - length (take n bs)) 0 = bs"
    using assms by (intro nth_equalityI) (auto simp: nth_append)
  then show ?thesis
    using assms(1) decode_buffer [of "take n bs"] decode_buffer [of bs] by simp
qed

text \<open>The bytes of a payload as a server sends it, with the fields that requests leave zero.\<close>

definition wire :: "ftp_payload \<Rightarrow> bytes" where
  "wire p =
     le_bytes 2 (fp_seq p) @ le_bytes 1 (fp_session p) @ le_bytes 1 (fp_opcode p) @ le_bytes 1 (fp_size p) @
     le_bytes 1 (fp_reqOpcode p) @ le_bytes 1 (fp_burstComplete p) @ [0] @ le_bytes 4 (fp_offset p) @
     fp_data p @ replicate (FTP_MAX_DATA - length (fp_data p)) 0"

definition payload_ok :: "ftp_payload \<Rightarrow> bool" where
  "payload_ok p =
     (fp_seq p < 65536 \<and> fp_session p < 256 \<and> fp_opcode p < 256 \<and> fp_reqOpcode p < 256 \<and> fp_burstComplete p < 256 \<and>
      fp_offset p < 2 ^ 32 \<and> fp_size p = length (fp_data p) \<and> length (fp_data p) \<le> FTP_MAX_DATA)"

lemma wire_length: "length (fp_data p) \<le> FTP_MAX_DATA \<Longrightarrow> length (wire p) = FTP_PAYLOAD_LEN"
  by (simp add: wire_def ftp_constants)

lemma decode_wire:
  assumes "payload_ok p"
  shows "decodePayload (map js_byte (wire p)) = p"
proof -
  define q where "q = fp_data p @ replicate (FTP_MAX_DATA - length (fp_data p)) (0 :: u8)"
  define A where "A = le_bytes 2 (fp_seq p)"
  define B where "B = le_bytes 1 (fp_session p)"
  define C where "C = le_bytes 1 (fp_opcode p)"
  define D where "D = le_bytes 1 (fp_size p)"
  define R where "R = le_bytes 1 (fp_reqOpcode p)"
  define Z where "Z = le_bytes 1 (fp_burstComplete p)"
  define E where "E = le_bytes 4 (fp_offset p)"
  note ok = assms [unfolded payload_ok_def]
  have len: "length A = 2" "length B = 1" "length C = 1" "length D = 1" "length R = 1" "length Z = 1" "length E = 4"
    by (simp_all add: A_def B_def C_def D_def E_def R_def Z_def)
  have w: "wire p = A @ B @ C @ D @ R @ Z @ [0] @ E @ q"
    by (simp add: wire_def A_def B_def C_def D_def E_def R_def Z_def q_def)
  have vals: "le_nat A = fp_seq p" "le_nat B = fp_session p" "le_nat C = fp_opcode p"
    "le_nat D = fp_size p" "le_nat E = fp_offset p" "le_nat R = fp_reqOpcode p" "le_nat Z = fp_burstComplete p"
    using ok by (simp_all add: A_def B_def C_def D_def E_def R_def Z_def le_nat_le_bytes ftp_constants del: le_bytes.simps)
  have s: "subarray 0 2 (wire p) = A" "subarray 2 1 (wire p) = B" "subarray 3 1 (wire p) = C" "subarray 4 1 (wire p) = D"
    "subarray 5 1 (wire p) = R" "subarray 6 1 (wire p) = Z" "subarray 8 4 (wire p) = E" "subarray 12 n (wire p) = take n q" for n
    using len by (simp_all add: w subarray_def)
  have q: "take (fp_size p) q = fp_data p" "min (fp_size p) FTP_MAX_DATA = fp_size p" using ok by (simp_all add: q_def)
  have "decodePayload (map js_byte (wire p)) = payload_fields (wire p)"
    using decode_buffer [of "wire p"] wire_length ok by simp
  then show ?thesis
    by (simp add: payload_fields_def Let_def FTP_HEADER_LEN_def s s [unfolded One_nat_def] vals q)
qed

text \<open>What a request looks like to a server.\<close>

definition sent_payload :: "ftp_request \<Rightarrow> ftp_payload" where
  "sent_payload req =
     \<lparr>fp_seq = rq_seq req, fp_session = rq_session req, fp_opcode = rq_opcode req, fp_size = rq_size req,
      fp_reqOpcode = 0, fp_burstComplete = 0, fp_offset = rq_offset req, fp_data = rq_data req\<rparr>"

lemma encode_wire: "length (rq_data req) \<le> FTP_MAX_DATA \<Longrightarrow> encodePayload req = wire (sent_payload req)"
  by (simp add: encodePayload_def wire_def sent_payload_def Let_def)

section \<open>Directory pages\<close>

record ftp_entry =
  fe_name :: text_points
  fe_size :: jsnum
  fe_dir :: bool

text \<open>The records of a page: the byte strings before each zero byte; a last one without a zero is ignored.\<close>

fun listing_records :: "bytes \<Rightarrow> bytes \<Rightarrow> bytes list" where
  "listing_records cur [] = []"
| "listing_records cur (b # bs) = (if b = 0 then cur # listing_records [] bs else listing_records (cur @ [b]) bs)"

text \<open>\<open>Number.parseInt (s, 10)\<close>: white space, a sign, and the longest run of digits.\<close>

definition white_point :: "nat \<Rightarrow> bool" where
  "white_point c =
     (c \<in> {9, 10, 11, 12, 13, 32, 0xa0, 0x1680, 0x2028, 0x2029, 0x202f, 0x205f, 0x3000, 0xfeff} \<or>
      (0x2000 \<le> c \<and> c \<le> 0x200a))"

definition digit_point :: "nat \<Rightarrow> bool" where
  "digit_point c = (48 \<le> c \<and> c \<le> 57)"

definition digits_value :: "nat list \<Rightarrow> nat" where
  "digits_value ds = foldl (\<lambda>n d. 10 * n + (d - 48)) 0 ds"

definition parseInt10 :: "text_points \<Rightarrow> jsnum" where
  "parseInt10 s =
     (let s1 = dropWhile white_point s;
          neg = (case s1 of c # _ \<Rightarrow> c = 45 | [] \<Rightarrow> False);
          s2 = (case s1 of c # r \<Rightarrow> if c = 45 \<or> c = 43 then r else s1 | [] \<Rightarrow> []);
          ds = takeWhile digit_point s2
      in if ds = [] then NaN
         else if digits_value ds = 0 then (if neg then NegZero else Num 0)
         else fl (if neg then - of_nat (digits_value ds) else of_nat (digits_value ds)))"

definition listing_entry :: "bytes \<Rightarrow> ftp_entry option" where
  "listing_entry r =
     (case r of
        [] \<Rightarrow> None
      | ty # rest \<Rightarrow>
          let txt = utf8_decode rest in
          if ty = 70 then
            let name = takeWhile (\<lambda>c. c \<noteq> 9) txt;
                sz = (if 9 \<in> set txt then parseInt10 (drop (length name + 1) txt) else Num 0)
            in Some \<lparr>fe_name = name, fe_size = (if js_val sz = None then Num 0 else sz), fe_dir = False\<rparr>
          else if ty = 68 then Some \<lparr>fe_name = txt, fe_size = Num 0, fe_dir = True\<rparr>
          else None)"

definition parseListing :: "bytes \<Rightarrow> ftp_entry list \<times> nat" where
  "parseListing page =
     (let rs = listing_records [] page in (List.map_filter listing_entry rs, length rs))"

end
