(* ===== verification/Ftp_Client.thy ===== *)
theory Ftp_Client
  imports Ftp_Protocol
begin

text \<open>
  \<open>src/mavlink/microservices/ftp/ftp-client.ts\<close>: listing, reading, writing and removing files. The client
  works on one operation at a time (\<open>enqueue\<close> chains them) and on one transaction of that operation at a
  time (the slot \<open>pending\<close>). Its \<open>async\<close> functions are given as the code between two \<open>await\<close>s: a
  phase holds the local variables at an \<open>await\<close> of a transaction, \<open>resume\<close> runs from there to the next
  \<open>await\<close> or to the end. A settled transaction makes its operation \<open>Ready\<close>; the continuation is a
  microtask, the event \<open>FtpMicrotask\<close>, which also starts the next operation of the queue. Other events
  may come before it, which is more than JavaScript allows.

  A transaction has at most one timer, so it is a delay or nothing. \<open>sendMessage\<close> may throw (the flag of the
  events that send): at the first attempt the transaction is rejected with what was thrown but stays in the slot \<open>pending\<close>,
  without a timer, until a reply, an abort, the disposal or the next transaction takes it out; at a later attempt
  the exception leaves the timer's handler and the transaction stays open without a timer. It may also
  reject later (\<open>FtpSendFailed\<close>). \<open>onProgress\<close> does not throw, and a file being written is not changed by its
  owner meanwhile.
\<close>

section \<open>Data\<close>

record ftp_target =
  ft_network :: nat
  ft_system :: nat
  ft_component :: nat

text \<open>\<open>FThrown\<close> is an exception that is not an \<open>FtpError\<close>.\<close>

datatype ftp_error = FTimeout | FAborted | FNak nat | FSendFailed | FThrown

record burst_result =
  br_frames :: "ftp_payload list"
  br_nak :: "nat option"
  br_complete :: bool

datatype tx_result = TxReply ftp_payload | TxBurst burst_result | TxError ftp_error

record transaction =
  tx_id :: nat
  tx_burst :: bool
  tx_request :: ftp_request
  tx_expectedSeq :: nat
  tx_highestSeq :: nat
  tx_frames :: "ftp_payload list"
  tx_attempts :: nat
  tx_timer :: "nat option"
  tx_signal :: "nat option"

datatype ftp_call =
    FList text_points
  | FRead text_points bool "nat option"
  | FWrite text_points bytes "nat option"
  | FRemove text_points "nat option"

text \<open>The local variables of a read after its file is open.\<close>

record read_vars =
  rv_path :: text_points
  rv_session :: nat
  rv_fileSize :: nat
  rv_chunks :: "bytes list"
  rv_offset :: nat
  rv_onProgress :: bool
  rv_signal :: "nat option"

text \<open>How the body of a \<open>try \<dots> finally\<close> ended.\<close>

datatype ftp_exit = Deliver text_points "bytes list" nat | Done | Throw ftp_error

datatype phase =
    Listing text_points "ftp_entry list" nat
  | Opening text_points bool "nat option"
  | Bursting read_vars nat nat
  | Reading read_vars
  | Creating text_points bytes "nat option"
  | Writing nat bytes nat "nat option"
  | Removing "nat option"
  | Closing nat ftp_exit

datatype ftp_value = Listed "ftp_entry list" | Content text_points bytes | Written | Removed

type_synonym ftp_outcome = "ftp_error + ftp_value"

datatype ftp_job = JIdle | Awaiting nat phase | Ready nat phase tx_result

record ftp_client =
  fc_target :: ftp_target
  fc_timeoutMs :: nat
  fc_maxRetries :: nat
  fc_chunkSize :: nat
  fc_pending :: "transaction option"
  fc_job :: ftp_job
  fc_queue :: "(nat \<times> ftp_call) list"
  fc_seq :: nat
  fc_disposed :: bool
  fc_aborted :: "nat list"
  fc_nextId :: nat
  fc_nextTx :: nat

datatype ftp_effect =
    FtpSend ftp_target bytes
  | FtpProgress nat nat nat
  | FtpSettle nat ftp_outcome

type_synonym ftp_state_result = "ftp_client \<times> ftp_effect list"

definition createFtpClient :: "ftp_target \<Rightarrow> nat option \<Rightarrow> nat option \<Rightarrow> nat option \<Rightarrow> ftp_client" where
  "createFtpClient g timeoutMs maxRetries chunkSize =
     \<lparr>fc_target = g,
      fc_timeoutMs = (case timeoutMs of Some n \<Rightarrow> n | None \<Rightarrow> 800),
      fc_maxRetries = (case maxRetries of Some n \<Rightarrow> n | None \<Rightarrow> 4),
      fc_chunkSize = min (case chunkSize of Some n \<Rightarrow> n | None \<Rightarrow> FTP_MAX_DATA) FTP_MAX_DATA,
      fc_pending = None, fc_job = JIdle, fc_queue = [], fc_seq = 0, fc_disposed = False, fc_aborted = [],
      fc_nextId = 0, fc_nextTx = 0\<rparr>"

section \<open>Sequence numbers\<close>

definition seq_delta :: "nat \<Rightarrow> nat \<Rightarrow> nat" where
  "seq_delta base cand = nat ((int cand - int base) mod 65536)"

definition seqAtOrAfter :: "nat \<Rightarrow> nat \<Rightarrow> bool" where
  "seqAtOrAfter base cand = (seq_delta base cand < 32768)"

definition seqAfter :: "nat \<Rightarrow> nat \<Rightarrow> bool" where
  "seqAfter base cand = (0 < seq_delta base cand \<and> seq_delta base cand < 32768)"

definition advanceSeqPast :: "nat \<Rightarrow> ftp_client \<Rightarrow> ftp_client" where
  "advanceSeqPast serverSeq C =
     (if fc_seq C = serverSeq \<or> seqAfter (fc_seq C) serverSeq then C\<lparr>fc_seq := (serverSeq + 1) mod 65536\<rparr> else C)"

section \<open>Transactions\<close>

text \<open>\<open>cleanup\<close> followed by \<open>resolve\<close> or \<open>reject\<close>: the slot is free and the operation can go on.\<close>

definition tx_settle :: "tx_result \<Rightarrow> ftp_client \<Rightarrow> ftp_client" where
  "tx_settle r C =
     (case fc_pending C of
        None \<Rightarrow> C
      | Some tx \<Rightarrow>
          (if tx_burst tx then advanceSeqPast (tx_highestSeq tx) C else C)
            \<lparr>fc_pending := None,
             fc_job := (case fc_job C of Awaiting i ph \<Rightarrow> Ready i ph r | j \<Rightarrow> j)\<rparr>)"

definition send_request :: "ftp_client \<Rightarrow> ftp_request \<Rightarrow> ftp_effect" where
  "send_request C req = FtpSend (fc_target C) (encodePayload req)"

text \<open>A transmission after the first one; \<open>sent\<close> is false when \<open>sendMessage\<close> throws.\<close>

definition reattempt :: "bool \<Rightarrow> transaction \<Rightarrow> ftp_client \<Rightarrow> ftp_state_result" where
  "reattempt sent tx C =
     (C\<lparr>fc_pending := Some (tx\<lparr>tx_attempts := tx_attempts tx + 1, tx_timer := (if sent then Some (fc_timeoutMs C) else None)\<rparr>)\<rparr>,
      if sent then [send_request C (tx_request tx)] else [])"

text \<open>
  \<open>transact\<close> and \<open>transactBurst\<close> up to their promise, for an operation that will await it in the phase
  \<open>ph\<close>; the size of a request is its default, the length of the data, except where given.
\<close>

record tx_spec =
  sp_opcode :: nat
  sp_session :: nat
  sp_offset :: nat
  sp_size :: nat
  sp_data :: bytes
  sp_burst :: bool
  sp_signal :: "nat option"

definition transact :: "bool \<Rightarrow> nat \<Rightarrow> phase \<Rightarrow> tx_spec \<Rightarrow> ftp_client \<Rightarrow> ftp_state_result" where
  "transact sent i ph sp C =
     (let reqSeq = fc_seq C;
          expected = (reqSeq + 1) mod 65536;
          C = C\<lparr>fc_seq := (reqSeq + 2) mod 65536, fc_nextTx := fc_nextTx C + 1\<rparr>;
          req = \<lparr>rq_seq = reqSeq, rq_session = sp_session sp, rq_opcode = sp_opcode sp, rq_offset = sp_offset sp,
                 rq_size = sp_size sp, rq_data = sp_data sp\<rparr>;
          tx = \<lparr>tx_id = fc_nextTx C, tx_burst = sp_burst sp, tx_request = req, tx_expectedSeq = expected, tx_highestSeq = expected,
                tx_frames = [], tx_attempts = 1, tx_timer = (if sent then Some (fc_timeoutMs C) else None), tx_signal = sp_signal sp\<rparr>
      in if (\<exists>s\<in>set_option (sp_signal sp). s \<in> set (fc_aborted C)) then (C\<lparr>fc_job := Ready i ph (TxError FAborted)\<rparr>, [])
         else if \<not> sent then (C\<lparr>fc_job := Ready i ph (TxError FThrown), fc_pending := Some tx\<rparr>, [])
         else (C\<lparr>fc_job := Awaiting i ph, fc_pending := Some tx\<rparr>, [send_request C req]))"

section \<open>The operations between their awaits\<close>

definition nak_code :: "ftp_payload \<Rightarrow> nat" where
  "nak_code p = (case fp_data p of [] \<Rightarrow> NakFail | b # _ \<Rightarrow> unat b)"

text \<open>What an operation does next: wait for a transaction, or end.\<close>

datatype ftp_next = Await phase tx_spec | Return ftp_outcome

definition request :: "nat \<Rightarrow> nat \<Rightarrow> nat \<Rightarrow> bytes \<Rightarrow> nat option \<Rightarrow> tx_spec" where
  "request opcode session offset d signal =
     \<lparr>sp_opcode = opcode, sp_session = session, sp_offset = offset, sp_size = length d, sp_data = d,
      sp_burst = False, sp_signal = signal\<rparr>"

definition read_request :: "nat \<Rightarrow> bool \<Rightarrow> ftp_client \<Rightarrow> read_vars \<Rightarrow> tx_spec" where
  "read_request opcode burst C v =
     \<lparr>sp_opcode = opcode, sp_session = rv_session v, sp_offset = rv_offset v, sp_size = fc_chunkSize C, sp_data = [],
      sp_burst = burst, sp_signal = rv_signal v\<rparr>"

definition terminate :: "nat \<Rightarrow> ftp_exit \<Rightarrow> ftp_next" where
  "terminate session x = Await (Closing session x) (request OpTerminateSession session 0 [] None)"

definition list_page :: "text_points \<Rightarrow> ftp_entry list \<Rightarrow> nat \<Rightarrow> ftp_next" where
  "list_page path entries offset =
     Await (Listing path entries offset) (request OpListDirectory 0 offset (utf8_encode path) None)"

definition read_done :: "read_vars \<Rightarrow> ftp_next" where
  "read_done v = terminate (rv_session v) (Deliver (rv_path v) (rv_chunks v) (rv_offset v))"

definition read_chunk :: "ftp_client \<Rightarrow> read_vars \<Rightarrow> ftp_next" where
  "read_chunk C v = Await (Reading v) (read_request OpReadFile False C v)"

definition burst_page :: "ftp_client \<Rightarrow> nat \<Rightarrow> nat \<Rightarrow> read_vars \<Rightarrow> ftp_next" where
  "burst_page C startOffset noProgress v =
     (if 0 < rv_fileSize v \<and> rv_fileSize v \<le> rv_offset v then read_done v
      else Await (Bursting v startOffset noProgress) (read_request OpBurstReadFile True C v))"

definition write_chunk_at :: "ftp_client \<Rightarrow> nat \<Rightarrow> bytes \<Rightarrow> nat \<Rightarrow> nat option \<Rightarrow> ftp_next" where
  "write_chunk_at C session d offset signal =
     (if offset < length d
      then Await (Writing session d offset signal)
             (request OpWriteFile session offset (subarray offset (fc_chunkSize C) d) signal)
      else terminate session Done)"

text \<open>The start of an operation.\<close>

definition start_call :: "ftp_client \<Rightarrow> ftp_call \<Rightarrow> ftp_next" where
  "start_call C call =
     (if fc_disposed C then Return (Inl FAborted)
      else case call of
        FList path \<Rightarrow> list_page path [] 0
      | FRead path prog signal \<Rightarrow> Await (Opening path prog signal) (request OpOpenFileRO 0 0 (utf8_encode path) signal)
      | FWrite path d signal \<Rightarrow> Await (Creating path d signal) (request OpCreateFile 0 0 (utf8_encode path) signal)
      | FRemove path signal \<Rightarrow> Await (Removing signal) (request OpRemoveFile 0 0 (utf8_encode path) signal))"

text \<open>\<open>appendContiguousBurstFrames\<close>: chunks, offset, reports of progress, end of file.\<close>

fun append_frames :: "nat \<Rightarrow> nat \<Rightarrow> ftp_payload list \<Rightarrow> bytes list \<Rightarrow> nat \<Rightarrow> bytes list \<times> nat \<times> (nat \<times> nat) list \<times> bool" where
  "append_frames cs fs [] chunks offset = (chunks, offset, [], False)"
| "append_frames cs fs (f # r) chunks offset =
     (if fp_offset f < offset then append_frames cs fs r chunks offset
      else if offset < fp_offset f then (chunks, offset, [], False)
      else if fp_data f = [] then (chunks, offset, [], True)
      else
        let chunks = chunks @ [fp_data f]; offset = offset + length (fp_data f);
            report = (offset, if 0 < fs then fs else offset)
        in if length (fp_data f) < cs then (chunks, offset, [report], True)
           else if 0 < fs \<and> fs \<le> offset then (chunks, offset, [report], True)
           else let (chunks, offset, ps, eof) = append_frames cs fs r chunks offset in (chunks, offset, report # ps, eof))"

definition appendContiguousBurstFrames ::
  "ftp_client \<Rightarrow> ftp_payload list \<Rightarrow> read_vars \<Rightarrow> read_vars \<times> (nat \<times> nat) list \<times> bool" where
  "appendContiguousBurstFrames C frames v =
     (let ordered = sort_key fp_offset (filter (\<lambda>f. fp_opcode f = OpAck) frames);
          (chunks, offset, ps, eof) = append_frames (fc_chunkSize C) (rv_fileSize v) ordered (rv_chunks v) (rv_offset v)
      in (v\<lparr>rv_chunks := chunks, rv_offset := offset\<rparr>, if rv_onProgress v then ps else [], eof))"

text \<open>\<open>concat\<close>: \<open>set\<close> throws a \<open>RangeError\<close> when a chunk does not fit.\<close>

fun set_chunks :: "bytes \<Rightarrow> nat \<Rightarrow> bytes list \<Rightarrow> bytes option" where
  "set_chunks out pos [] = Some out"
| "set_chunks out pos (c # cs) =
     (if length out < pos + length c then None
      else set_chunks (take pos out @ c @ drop (pos + length c) out) (pos + length c) cs)"

definition concat_chunks :: "bytes list \<Rightarrow> nat \<Rightarrow> bytes option" where
  "concat_chunks chunks n = set_chunks (replicate n 0) 0 chunks"

text \<open>The loop of \<open>readBurst\<close> after the burst requested at the offset of \<open>v\<close>.\<close>

definition resume_burst :: "ftp_client \<Rightarrow> read_vars \<Rightarrow> nat \<Rightarrow> nat \<Rightarrow> burst_result \<Rightarrow> (nat \<times> nat) list \<times> ftp_next" where
  "resume_burst C v startOffset noProgress res =
     (case br_nak res of
        Some code \<Rightarrow>
          if code = NakEndOfFile then ([], read_done v)
          else if rv_offset v = startOffset \<and> code = NakUnknownCommand then ([], read_chunk C v)
          else ([], terminate (rv_session v) (Throw (FNak code)))
      | None \<Rightarrow>
          let (v', ps, eof) = appendContiguousBurstFrames C (br_frames res) v;
              most = fc_maxRetries C + 1
          in if eof \<or> (0 < rv_fileSize v \<and> rv_fileSize v \<le> rv_offset v') then (ps, read_done v')
             else if rv_offset v < rv_offset v' then (ps, burst_page C startOffset 0 v')
             else if most < noProgress + 1 then (ps, read_chunk C v')
             else if \<not> br_complete res \<and> most < noProgress + 2 then (ps, read_chunk C v')
             else (ps, burst_page C startOffset (if br_complete res then noProgress + 1 else noProgress + 2) v'))"

definition resume_read :: "ftp_client \<Rightarrow> read_vars \<Rightarrow> ftp_payload \<Rightarrow> (nat \<times> nat) list \<times> ftp_next" where
  "resume_read C v p =
     (if fp_opcode p = OpNak then
        (if nak_code p = NakEndOfFile then ([], read_done v)
         else ([], terminate (rv_session v) (Throw (FNak (nak_code p)))))
      else if fp_data p = [] then ([], read_done v)
      else
        let v' = v\<lparr>rv_chunks := rv_chunks v @ [fp_data p], rv_offset := rv_offset v + length (fp_data p)\<rparr>;
            ps = (if rv_onProgress v
                  then [(rv_offset v', if 0 < rv_fileSize v then rv_fileSize v else rv_offset v')] else [])
        in if length (fp_data p) < fc_chunkSize C \<or> (0 < rv_fileSize v \<and> rv_fileSize v \<le> rv_offset v')
           then (ps, read_done v') else (ps, read_chunk C v'))"

definition exit_outcome :: "ftp_exit \<Rightarrow> ftp_outcome" where
  "exit_outcome x =
     (case x of
        Deliver path chunks n \<Rightarrow> (case concat_chunks chunks n of Some c \<Rightarrow> Inr (Content path c) | None \<Rightarrow> Inl FThrown)
      | Done \<Rightarrow> Inr Written
      | Throw e \<Rightarrow> Inl e)"

text \<open>A reply to a transaction that is not a burst.\<close>

definition resume_reply :: "ftp_client \<Rightarrow> phase \<Rightarrow> ftp_payload \<Rightarrow> (nat \<times> nat) list \<times> ftp_next" where
  "resume_reply C ph p =
     (case ph of
        Listing path entries offset \<Rightarrow>
          ([], if fp_opcode p = OpNak then
                 (if nak_code p = NakEndOfFile then Return (Inr (Listed entries)) else Return (Inl (FNak (nak_code p))))
               else
                 let (page, n) = parseListing (fp_data p)
                 in if n = 0 then Return (Inr (Listed (entries @ page))) else list_page path (entries @ page) (offset + n))
      | Opening path prog signal \<Rightarrow>
          ([], if fp_opcode p = OpNak then Return (Inl (FNak (nak_code p)))
               else burst_page C 0 0
                 \<lparr>rv_path = path, rv_session = fp_session p, rv_fileSize = readU32LE (fp_data p), rv_chunks = [], rv_offset = 0,
                  rv_onProgress = prog, rv_signal = signal\<rparr>)
      | Bursting v startOffset noProgress \<Rightarrow> ([], terminate (rv_session v) (Throw FThrown))
      | Reading v \<Rightarrow> resume_read C v p
      | Creating path d signal \<Rightarrow>
          ([], if fp_opcode p = OpNak then Return (Inl (FNak (nak_code p))) else write_chunk_at C (fp_session p) d 0 signal)
      | Writing session d offset signal \<Rightarrow>
          ([], if fp_opcode p = OpNak then terminate session (Throw (FNak (nak_code p)))
               else write_chunk_at C session d (offset + fc_chunkSize C) signal)
      | Removing signal \<Rightarrow>
          ([], if fp_opcode p = OpNak then Return (Inl (FNak (nak_code p))) else Return (Inr Removed))
      | Closing session x \<Rightarrow> ([], Return (exit_outcome x)))"

text \<open>A rejected transaction.\<close>

definition resume_error :: "ftp_client \<Rightarrow> phase \<Rightarrow> ftp_error \<Rightarrow> ftp_next" where
  "resume_error C ph e =
     (case ph of
        Bursting v startOffset noProgress \<Rightarrow>
          if e = FTimeout \<and> rv_offset v = startOffset then read_chunk C v else terminate (rv_session v) (Throw e)
      | Reading v \<Rightarrow> terminate (rv_session v) (Throw e)
      | Writing session d offset signal \<Rightarrow> terminate session (Throw e)
      | Closing session x \<Rightarrow> Return (exit_outcome x)
      | _ \<Rightarrow> Return (Inl e))"

text \<open>
  The answer of a transaction fits the phase: only a burst yields a burst result (\<open>ftp_answers_fit\<close>), so
  the branch of a burst result in another phase, and that of a reply in \<open>Bursting\<close>, are not taken.
\<close>

definition resume :: "ftp_client \<Rightarrow> phase \<Rightarrow> tx_result \<Rightarrow> (nat \<times> nat) list \<times> ftp_next" where
  "resume C ph r =
     (case r of
        TxReply p \<Rightarrow> resume_reply C ph p
      | TxError e \<Rightarrow> ([], resume_error C ph e)
      | TxBurst b \<Rightarrow>
          (case ph of Bursting v startOffset noProgress \<Rightarrow> resume_burst C v startOffset noProgress b
           | _ \<Rightarrow> ([], Return (Inl FThrown))))"

section \<open>Events\<close>

definition proceed :: "bool \<Rightarrow> nat \<Rightarrow> ftp_next \<Rightarrow> ftp_client \<Rightarrow> ftp_state_result" where
  "proceed sent i nxt C =
     (case nxt of
        Await ph sp \<Rightarrow> transact sent i ph sp C
      | Return out \<Rightarrow> (C\<lparr>fc_job := JIdle\<rparr>, [FtpSettle i out]))"

definition microtask :: "bool \<Rightarrow> ftp_client \<Rightarrow> ftp_state_result" where
  "microtask sent C =
     (case fc_job C of
        JIdle \<Rightarrow>
          (case fc_queue C of
             [] \<Rightarrow> (C, [])
           | (i, call) # q \<Rightarrow> proceed sent i (start_call C call) (C\<lparr>fc_queue := q\<rparr>))
      | Awaiting i ph \<Rightarrow> (C, [])
      | Ready i ph r \<Rightarrow>
          let (ps, nxt) = resume C ph r; (C', fs) = proceed sent i nxt C
          in (C', map (\<lambda>(d, n). FtpProgress i d n) ps @ fs))"

definition enqueue :: "ftp_call \<Rightarrow> ftp_client \<Rightarrow> ftp_client" where
  "enqueue call C = C\<lparr>fc_queue := fc_queue C @ [(fc_nextId C, call)], fc_nextId := fc_nextId C + 1\<rparr>"

definition ftp_timer :: "bool \<Rightarrow> ftp_client \<Rightarrow> ftp_state_result" where
  "ftp_timer sent C =
     (case fc_pending C of
        None \<Rightarrow> (C, [])
      | Some tx \<Rightarrow>
          if tx_timer tx = None then (C, [])
          else if tx_burst tx \<and> tx_frames tx \<noteq> [] then
            (tx_settle (TxBurst \<lparr>br_frames = tx_frames tx, br_nak = None, br_complete = False\<rparr>) C, [])
          else if fc_maxRetries C < tx_attempts tx then (tx_settle (TxError FTimeout) C, [])
          else reattempt sent tx C)"

text \<open>The callback of a burst.\<close>

definition burst_reply :: "ftp_payload \<Rightarrow> transaction \<Rightarrow> ftp_client \<Rightarrow> ftp_client" where
  "burst_reply p tx C =
     (if fp_opcode p = OpNak then
        tx_settle (TxBurst \<lparr>br_frames = tx_frames tx, br_nak = Some (nak_code p), br_complete = True\<rparr>) C
      else if fp_opcode p \<noteq> OpAck then C
      else
        let tx = tx\<lparr>tx_frames := tx_frames tx @ [p]\<rparr>; C = C\<lparr>fc_pending := Some tx\<rparr>
        in if fp_burstComplete p \<noteq> 0 \<or> fp_data p = []
           then tx_settle (TxBurst \<lparr>br_frames = tx_frames tx, br_nak = None, br_complete = True\<rparr>) C
           else C\<lparr>fc_pending := Some (tx\<lparr>tx_timer := Some (fc_timeoutMs C)\<rparr>)\<rparr>)"

definition asByteArray :: "field_value option \<Rightarrow> jsnum list option" where
  "asByteArray v = (case v of Some (FArr xs) \<Rightarrow> Some xs | _ \<Rightarrow> None)"

definition ftp_onReply :: "decoded_message \<Rightarrow> ftp_client \<Rightarrow> ftp_client" where
  "ftp_onReply msg C =
     (if dm_sysid msg \<noteq> ft_system (fc_target C) \<or> dm_compid msg \<noteq> ft_component (fc_target C) then C
      else case asByteArray (dm_fields msg ''payload'') of
        None \<Rightarrow> C
      | Some raw \<Rightarrow>
          (case fc_pending C of
             None \<Rightarrow> C
           | Some tx \<Rightarrow>
               let p = decodePayload raw
               in if fp_reqOpcode p \<noteq> rq_opcode (tx_request tx) then C
                  else if tx_burst tx then
                    (if fp_session p \<noteq> rq_session (tx_request tx) then C
                     else if \<not> seqAtOrAfter (tx_expectedSeq tx) (fp_seq p) then C
                     else
                       let tx = (if seqAfter (tx_highestSeq tx) (fp_seq p) then tx\<lparr>tx_highestSeq := fp_seq p\<rparr> else tx)
                       in burst_reply p tx (C\<lparr>fc_pending := Some tx\<rparr>))
                  else if fp_seq p \<noteq> tx_expectedSeq tx then C
                  else tx_settle (TxReply p) C))"

definition ftp_abort :: "nat \<Rightarrow> ftp_client \<Rightarrow> ftp_client" where
  "ftp_abort s C =
     (if s \<in> set (fc_aborted C) then C
      else
        let C = C\<lparr>fc_aborted := s # fc_aborted C\<rparr>
        in case fc_pending C of
             Some tx \<Rightarrow> if tx_signal tx = Some s then tx_settle (TxError FAborted) C else C
           | None \<Rightarrow> C)"

definition ftp_dispose :: "ftp_client \<Rightarrow> ftp_client" where
  "ftp_dispose C = (if fc_disposed C then C else tx_settle (TxError FAborted) (C\<lparr>fc_disposed := True\<rparr>))"

definition ftp_send_failed :: "nat \<Rightarrow> ftp_client \<Rightarrow> ftp_client" where
  "ftp_send_failed t C =
     (case fc_pending C of
        Some tx \<Rightarrow> if tx_id tx = t then tx_settle (TxError FSendFailed) C else C
      | None \<Rightarrow> C)"

datatype ftp_event =
    FtpCall ftp_call
  | FtpMicrotask bool
  | FtpTimer bool
  | FtpIn decoded_message
  | FtpSendFailed nat
  | FtpAbort nat
  | FtpDispose

definition ftp_step :: "ftp_client \<Rightarrow> ftp_event \<Rightarrow> ftp_state_result" where
  "ftp_step C e =
     (case e of
        FtpCall call \<Rightarrow> (enqueue call C, [])
      | FtpMicrotask sent \<Rightarrow> microtask sent C
      | FtpTimer sent \<Rightarrow> ftp_timer sent C
      | FtpIn msg \<Rightarrow>
          if fc_disposed C \<or> dm_name msg \<noteq> ''FILE_TRANSFER_PROTOCOL'' then (C, []) else (ftp_onReply msg C, [])
      | FtpSendFailed t \<Rightarrow> (ftp_send_failed t C, [])
      | FtpAbort s \<Rightarrow> (ftp_abort s C, [])
      | FtpDispose \<Rightarrow> (ftp_dispose C, []))"

end
