(* ===== verification/Ftp_Safety.thy ===== *)
theory Ftp_Safety
  imports Ftp_Client
begin

text \<open>
  The invariant of the FTP client (the slot of the transaction and the phase of the running operation
  agree), its ledger of promises, and the bound on how long an operation can go on when nothing answers.
\<close>

section \<open>The transaction fits the phase\<close>

fun bursting :: "phase \<Rightarrow> bool" where
  "bursting (Bursting v s n) = True"
| "bursting _ = False"

fun answers :: "phase \<Rightarrow> tx_result \<Rightarrow> bool" where
  "answers ph (TxReply p) = (\<not> bursting ph)"
| "answers ph (TxBurst b) = bursting ph"
| "answers ph (TxError e) = True"

definition ftp_ok :: "ftp_client \<Rightarrow> bool" where
  "ftp_ok C =
     (case fc_job C of
        JIdle \<Rightarrow> True
      | Awaiting i ph \<Rightarrow> (\<exists>tx. fc_pending C = Some tx \<and> tx_burst tx = bursting ph)
      | Ready i ph r \<Rightarrow> answers ph r)"

text \<open>An operation that awaits has its own transaction in the slot; otherwise what is in the slot was never sent.\<close>

text \<open>The requests of the operations ask for the kind of transaction their phase expects.\<close>

fun next_ok :: "ftp_next \<Rightarrow> bool" where
  "next_ok (Await ph sp) = (sp_burst sp = bursting ph)"
| "next_ok (Return out) = True"

lemma next_ok_simps [simp]:
  "next_ok (terminate s x)" "next_ok (list_page path es n)" "next_ok (read_done v)" "next_ok (read_chunk C v)"
  "next_ok (burst_page C s n v)" "next_ok (write_chunk_at C s d n sig)"
  by (simp_all add: terminate_def list_page_def read_done_def read_chunk_def burst_page_def write_chunk_at_def
      request_def read_request_def)

lemma start_next_ok [simp]: "next_ok (start_call C call)"
  by (simp add: start_call_def request_def split: ftp_call.split)

lemma resume_next_ok [simp]: "next_ok (snd (resume C ph r))"
  by (auto simp: resume_def resume_reply_def resume_error_def resume_burst_def resume_read_def Let_def
      split: tx_result.split phase.split option.split prod.split)

lemma advance_frame [simp]:
  "fc_pending (advanceSeqPast n C) = fc_pending C" "fc_job (advanceSeqPast n C) = fc_job C"
  "fc_queue (advanceSeqPast n C) = fc_queue C" "fc_nextId (advanceSeqPast n C) = fc_nextId C"
  "fc_chunkSize (advanceSeqPast n C) = fc_chunkSize C" "fc_maxRetries (advanceSeqPast n C) = fc_maxRetries C"
  "fc_timeoutMs (advanceSeqPast n C) = fc_timeoutMs C" "fc_target (advanceSeqPast n C) = fc_target C"
  "fc_disposed (advanceSeqPast n C) = fc_disposed C" "fc_aborted (advanceSeqPast n C) = fc_aborted C"
  by (simp_all add: advanceSeqPast_def)

text \<open>What every operation but the microtask and the call leaves alone.\<close>

lemma settle_frame [simp]:
  "fc_queue (tx_settle r C) = fc_queue C" "fc_nextId (tx_settle r C) = fc_nextId C"
  "fc_chunkSize (tx_settle r C) = fc_chunkSize C" "fc_maxRetries (tx_settle r C) = fc_maxRetries C"
  "fc_timeoutMs (tx_settle r C) = fc_timeoutMs C" "fc_target (tx_settle r C) = fc_target C"
  "fc_disposed (tx_settle r C) = fc_disposed C" "fc_aborted (tx_settle r C) = fc_aborted C"
  by (simp_all add: tx_settle_def split: option.split)

lemma settle_pending [simp]: "fc_pending (tx_settle r C) = None"
  by (simp add: tx_settle_def split: option.split)

lemma settle_job:
  "fc_job (tx_settle r C) =
     (case (fc_pending C, fc_job C) of (Some tx, Awaiting i ph) \<Rightarrow> Ready i ph r | (_, j) \<Rightarrow> j)"
  by (simp add: tx_settle_def split: option.split ftp_job.split)

lemma settle_running:
  "fc_pending C = Some tx \<Longrightarrow> fc_job C = Awaiting i ph \<Longrightarrow>
   fc_pending (tx_settle r C) = None \<and> fc_job (tx_settle r C) = Ready i ph r"
  by (simp add: settle_job)

lemma ftp_okE:
  assumes "ftp_ok C"
  obtains (idle) "fc_job C = JIdle"
  | (awaiting) i ph tx where "fc_job C = Awaiting i ph" "fc_pending C = Some tx" "tx_burst tx = bursting ph"
  | (ready) i ph r where "fc_job C = Ready i ph r" "answers ph r"
  using assms by (auto simp: ftp_ok_def split: ftp_job.splits)

text \<open>The payload of a message that \<open>onReply\<close> takes for an answer to the open transaction.\<close>

definition correlates :: "transaction \<Rightarrow> ftp_payload \<Rightarrow> bool" where
  "correlates tx p =
     (fp_reqOpcode p = rq_opcode (tx_request tx) \<and>
      (if tx_burst tx then fp_session p = rq_session (tx_request tx) \<and> seqAtOrAfter (tx_expectedSeq tx) (fp_seq p)
       else fp_seq p = tx_expectedSeq tx))"

definition accepted :: "ftp_client \<Rightarrow> ftp_event \<Rightarrow> ftp_payload option" where
  "accepted C e =
     (case e of
        FtpIn msg \<Rightarrow>
          (case (asByteArray (dm_fields msg ''payload''), fc_pending C) of
             (Some raw, Some tx) \<Rightarrow>
               if \<not> fc_disposed C \<and> dm_name msg = ''FILE_TRANSFER_PROTOCOL'' \<and> dm_sysid msg = ft_system (fc_target C) \<and>
                  dm_compid msg = ft_component (fc_target C) \<and> correlates tx (decodePayload raw)
               then Some (decodePayload raw) else None
           | _ \<Rightarrow> None)
      | _ \<Rightarrow> None)"

text \<open>
  An event that is not a call or a microtask, with the payload \<open>x\<close> it brings for the transaction: nothing
  happens, or the transaction changes, fails, is answered, or a burst ends.
\<close>

inductive moves :: "ftp_payload option \<Rightarrow> ftp_client \<Rightarrow> ftp_client \<Rightarrow> bool" for x C where
  same: "fc_job C' = fc_job C \<Longrightarrow> fc_pending C' = fc_pending C \<or> (\<forall>i ph. fc_job C \<noteq> Awaiting i ph) \<Longrightarrow> moves x C C'"
| changed: "fc_job C' = Awaiting i ph \<Longrightarrow> fc_pending C' = Some tx' \<Longrightarrow> fc_job C = Awaiting i ph \<Longrightarrow> fc_pending C = Some tx \<Longrightarrow>
    tx_burst tx' = tx_burst tx \<Longrightarrow> tx_request tx' = tx_request tx \<Longrightarrow> tx_frames tx' = tx_frames tx @ fs \<Longrightarrow>
    \<forall>f\<in>set fs. x = Some f \<and> fp_opcode f = OpAck \<Longrightarrow> moves x C C'"
| failed: "fc_job C' = Ready i ph (TxError e) \<Longrightarrow> fc_pending C' = None \<Longrightarrow> fc_job C = Awaiting i ph \<Longrightarrow> fc_pending C = Some tx \<Longrightarrow>
    moves x C C'"
| replied: "fc_job C' = Ready i ph (TxReply p) \<Longrightarrow> fc_pending C' = None \<Longrightarrow> fc_job C = Awaiting i ph \<Longrightarrow> fc_pending C = Some tx \<Longrightarrow>
    \<not> tx_burst tx \<Longrightarrow> x = Some p \<Longrightarrow> moves x C C'"
| burst: "fc_job C' = Ready i ph (TxBurst b) \<Longrightarrow> fc_pending C' = None \<Longrightarrow> fc_job C = Awaiting i ph \<Longrightarrow> fc_pending C = Some tx \<Longrightarrow>
    tx_burst tx \<Longrightarrow> br_frames b = tx_frames tx @ fs \<Longrightarrow> \<forall>f\<in>set fs. x = Some f \<and> fp_opcode f = OpAck \<Longrightarrow>
    br_nak b = None \<or> (\<exists>p. x = Some p \<and> br_nak b = Some (nak_code p) \<and> fp_opcode p = OpNak) \<Longrightarrow> moves x C C'"

lemma ftp_ok_moves: "ftp_ok C \<Longrightarrow> moves x C C' \<Longrightarrow> ftp_ok C'"
  by (erule moves.cases) (auto simp: ftp_ok_def split: ftp_job.splits)

definition is_quiet :: "ftp_event \<Rightarrow> bool" where
  "is_quiet e = (case e of FtpCall c \<Rightarrow> False | FtpMicrotask b \<Rightarrow> False | _ \<Rightarrow> True)"

lemma unmoved:
  assumes "ftp_ok C" "is_quiet e" "\<And>i ph. fc_job C \<noteq> Awaiting i ph"
  shows "moves (accepted C e) C (fst (ftp_step C e))"
proof -
  have stays: "fc_job (tx_settle r D) = fc_job C" if "fc_job D = fc_job C" for r D
    using that assms(3) by (auto simp: settle_job split: option.split ftp_job.split)
  have "fc_job (fst (ftp_step C e)) = fc_job C"
    using assms(2) stays
    by (cases e) (auto simp: ftp_step_def is_quiet_def ftp_timer_def ftp_onReply_def ftp_send_failed_def ftp_abort_def
        ftp_dispose_def reattempt_def burst_reply_def Let_def split: option.split)
  then show ?thesis using assms(3) by (auto intro: moves.same)
qed

lemma burst_moves:
  assumes "fc_job C = Awaiting i ph" "fc_pending C = Some tx" "tx_burst tx"
    and "fc_job D = Awaiting i ph" "fc_pending D = Some tx1" "tx_burst tx1" "tx_request tx1 = tx_request tx" "tx_frames tx1 = tx_frames tx"
  shows "moves (Some p) C (burst_reply p tx1 D)"
proof -
  consider "fp_opcode p = OpNak" | "fp_opcode p \<noteq> OpNak" "fp_opcode p \<noteq> OpAck"
    | "fp_opcode p = OpAck" "fp_burstComplete p \<noteq> 0 \<or> fp_data p = []" | "fp_opcode p = OpAck" "fp_burstComplete p = 0" "fp_data p \<noteq> []"
    by blast
  then show ?thesis
  proof cases
    case 1
    then show ?thesis
      using assms by (intro moves.burst [where fs = "[]" and b = "\<lparr>br_frames = tx_frames tx1, br_nak = Some (nak_code p), br_complete = True\<rparr>"])
        (auto simp: burst_reply_def settle_job)
  next
    case 2
    then show ?thesis using assms by (intro moves.changed [where fs = "[]" and tx = tx and tx' = tx1]) (auto simp: burst_reply_def)
  next
    case 3
    then show ?thesis
      using assms by (intro moves.burst [where fs = "[p]" and b = "\<lparr>br_frames = tx_frames tx @ [p], br_nak = None, br_complete = True\<rparr>"])
        (auto simp: burst_reply_def settle_job ftp_constants Let_def)
  next
    case 4
    then show ?thesis
      using assms
      by (intro moves.changed [where fs = "[p]" and tx = tx and tx' = "the (fc_pending (burst_reply p tx1 D))"])
        (auto simp: burst_reply_def Let_def ftp_constants)
  qed
qed

lemma settle_failed: "fc_job C = Awaiting i ph \<Longrightarrow> fc_pending C = Some tx \<Longrightarrow> fc_job D = Awaiting i ph \<Longrightarrow> fc_pending D = Some tx \<Longrightarrow>
    moves x C (tx_settle (TxError e) D)"
  by (auto intro: moves.failed simp: settle_job)

lemma reply_moves:
  assumes "fc_job C = Awaiting i ph" "fc_pending C = Some tx" "\<not> fc_disposed C" "dm_name msg = ''FILE_TRANSFER_PROTOCOL''"
  shows "moves (accepted C (FtpIn msg)) C (ftp_onReply msg C)"
proof (cases "accepted C (FtpIn msg)")
  case None
  then have "ftp_onReply msg C = C"
    using assms by (auto simp: accepted_def correlates_def ftp_onReply_def Let_def split: option.splits if_splits)
  then show ?thesis by (auto intro: moves.same)
next
  case (Some p)
  then obtain raw where raw: "asByteArray (dm_fields msg ''payload'') = Some raw" "decodePayload raw = p" "correlates tx p"
      "dm_sysid msg = ft_system (fc_target C)" "dm_compid msg = ft_component (fc_target C)"
    using assms by (auto simp: accepted_def split: option.splits if_splits)
  define tx1 where "tx1 = (if seqAfter (tx_highestSeq tx) (fp_seq p) then tx\<lparr>tx_highestSeq := fp_seq p\<rparr> else tx)"
  have tx1: "tx_burst tx1 = tx_burst tx" "tx_request tx1 = tx_request tx" "tx_frames tx1 = tx_frames tx" by (simp_all add: tx1_def)
  show ?thesis
  proof (cases "tx_burst tx")
    case True
    then have "ftp_onReply msg C = burst_reply p tx1 (C\<lparr>fc_pending := Some tx1\<rparr>)"
      using raw assms by (simp add: ftp_onReply_def correlates_def Let_def tx1_def)
    then show ?thesis unfolding Some using burst_moves [OF assms(1,2) True, of "C\<lparr>fc_pending := Some tx1\<rparr>" tx1 p] tx1 True assms by simp
  next
    case False
    then have "ftp_onReply msg C = tx_settle (TxReply p) C"
      using raw assms by (simp add: ftp_onReply_def correlates_def Let_def)
    then show ?thesis unfolding Some using assms False by (auto intro: moves.replied simp: settle_job)
  qed
qed

lemma timer_moves:
  assumes "fc_job C = Awaiting i ph" "fc_pending C = Some tx"
  shows "moves x C (fst (ftp_timer sent C))"
proof -
  have "moves x C (tx_settle (TxBurst \<lparr>br_frames = tx_frames tx, br_nak = None, br_complete = False\<rparr>) C)" if "tx_burst tx"
    using assms that by (intro moves.burst [where fs = "[]"]) (auto simp: settle_job)
  moreover have "moves x C (fst (reattempt sent tx C))"
    using assms
    by (intro moves.changed [where fs = "[]" and tx = tx and tx' = "the (fc_pending (fst (reattempt sent tx C)))"]) (auto simp: reattempt_def)
  ultimately show ?thesis using assms settle_failed [OF assms assms] by (auto simp: ftp_timer_def intro: moves.same)
qed

text \<open>The frame of the events: calls and microtasks aside, a step only moves the transaction.\<close>

lemma quiet_moves:
  assumes "ftp_ok C" "is_quiet e"
  shows "moves (accepted C e) C (fst (ftp_step C e))"
proof (cases "\<exists>i ph. fc_job C = Awaiting i ph")
  case False
  then show ?thesis using unmoved [OF assms] by blast
next
  case True
  then obtain i ph tx where j: "fc_job C = Awaiting i ph" "fc_pending C = Some tx" using assms(1) by (auto elim: ftp_okE)
  have same: "moves x C D" if "fc_job D = fc_job C" "fc_pending D = fc_pending C" for x D using that by (auto intro: moves.same)
  show ?thesis
    using assms(2) reply_moves [OF j] timer_moves [OF j] settle_failed [OF j] j
    by (cases e) (auto simp: ftp_step_def is_quiet_def ftp_send_failed_def ftp_abort_def ftp_dispose_def Let_def intro: same)
qed

section \<open>Promises\<close>

definition ftp_open :: "ftp_client \<Rightarrow> nat list" where
  "ftp_open C =
     (case fc_job C of JIdle \<Rightarrow> [] | Awaiting i ph \<Rightarrow> [i] | Ready i ph r \<Rightarrow> [i]) @ map fst (fc_queue C)"

definition ftp_settles :: "ftp_effect \<Rightarrow> nat option" where
  "ftp_settles f = (case f of FtpSettle i out \<Rightarrow> Some i | _ \<Rightarrow> None)"

lemma moves_open:
  assumes "moves x C C'" "fc_queue C' = fc_queue C"
  shows "ftp_open C' = ftp_open C"
  using assms by (cases rule: moves.cases) (auto simp: ftp_open_def)

lemma quiet_effects: "is_quiet e \<Longrightarrow> List.map_filter ftp_settles (snd (ftp_step C e)) = []"
  by (cases e) (auto simp: ftp_step_def is_quiet_def ftp_timer_def reattempt_def send_request_def ftp_settles_def split: option.split)

lemma quiet_frame:
  assumes "is_quiet e"
  shows "fc_queue (fst (ftp_step C e)) = fc_queue C" "fc_nextId (fst (ftp_step C e)) = fc_nextId C"
    "fc_chunkSize (fst (ftp_step C e)) = fc_chunkSize C" "fc_maxRetries (fst (ftp_step C e)) = fc_maxRetries C"
    "fc_target (fst (ftp_step C e)) = fc_target C"
  using assms
  by (cases e; auto simp: ftp_step_def is_quiet_def ftp_timer_def reattempt_def ftp_onReply_def burst_reply_def Let_def
      ftp_abort_def ftp_dispose_def ftp_send_failed_def split: option.split)+

lemma transact_frame [simp]:
  "fc_queue (fst (transact sent i ph sp C)) = fc_queue C" "fc_nextId (fst (transact sent i ph sp C)) = fc_nextId C"
  "fc_chunkSize (fst (transact sent i ph sp C)) = fc_chunkSize C" "fc_maxRetries (fst (transact sent i ph sp C)) = fc_maxRetries C"
  "fc_target (fst (transact sent i ph sp C)) = fc_target C"
  "List.map_filter ftp_settles (snd (transact sent i ph sp C)) = []"
  by (simp_all add: transact_def Let_def send_request_def ftp_settles_def)

lemma transact_ok:
  "sp_burst sp = bursting ph \<Longrightarrow> ftp_ok (fst (transact sent i ph sp C))"
  by (auto simp: transact_def Let_def ftp_ok_def)

lemma transact_open: "ftp_open (fst (transact sent i ph sp C)) = i # map fst (fc_queue C)"
  by (simp add: transact_def Let_def ftp_open_def)

lemma proceed_frame [simp]:
  "fc_queue (fst (proceed sent i nxt C)) = fc_queue C" "fc_nextId (fst (proceed sent i nxt C)) = fc_nextId C"
  "fc_chunkSize (fst (proceed sent i nxt C)) = fc_chunkSize C" "fc_maxRetries (fst (proceed sent i nxt C)) = fc_maxRetries C"
  "fc_target (fst (proceed sent i nxt C)) = fc_target C"
  by (simp_all add: proceed_def split: ftp_next.split)

lemma proceed_ok: "next_ok nxt \<Longrightarrow> ftp_ok (fst (proceed sent i nxt C))"
  by (auto simp: proceed_def transact_ok ftp_ok_def [of "C\<lparr>fc_job := JIdle\<rparr>"] split: ftp_next.split)

lemma proceed_ledger:
  "mset (List.map_filter ftp_settles (snd (proceed sent i nxt C))) + mset (ftp_open (fst (proceed sent i nxt C)))
   = mset (i # map fst (fc_queue C))"
  using transact_open [of sent i _ _ C]
  by (auto simp: proceed_def ftp_settles_def ftp_open_def [of "C\<lparr>fc_job := JIdle\<rparr>"] split: ftp_next.split)

lemma no_progress_settles [simp]: "List.map_filter ftp_settles (map (\<lambda>(d, n). FtpProgress i d n) ps) = []"
  by (induction ps) (auto simp: ftp_settles_def)

lemma microtask_frame [simp]:
  "fc_nextId (fst (microtask sent C)) = fc_nextId C" "fc_chunkSize (fst (microtask sent C)) = fc_chunkSize C"
  "fc_maxRetries (fst (microtask sent C)) = fc_maxRetries C" "fc_target (fst (microtask sent C)) = fc_target C"
  by (auto simp: microtask_def Let_def split_beta split: ftp_job.split list.split)

lemma microtask_ok: "ftp_ok C \<Longrightarrow> ftp_ok (fst (microtask sent C))"
  by (erule ftp_okE; cases "fc_queue C")
     (auto simp: microtask_def Let_def split_beta proceed_ok ftp_ok_def [of C])

lemma microtask_ledger:
  "mset (List.map_filter ftp_settles (snd (microtask sent C))) + mset (ftp_open (fst (microtask sent C))) = mset (ftp_open C)"
proof (cases "fc_job C")
  case JIdle
  then show ?thesis
    using proceed_ledger by (cases "fc_queue C") (auto simp: microtask_def ftp_open_def [of C])
next
  case (Ready i ph r)
  then show ?thesis
    using proceed_ledger [of sent i "snd (resume C ph r)" C] by (simp add: microtask_def Let_def split_beta ftp_open_def [of C])
qed (simp add: microtask_def)

lemma step_events: "is_quiet e \<or> (\<exists>c. e = FtpCall c) \<or> (\<exists>b. e = FtpMicrotask b)"
  by (cases e) (simp_all add: is_quiet_def)

definition is_ftp_call :: "ftp_event \<Rightarrow> bool" where
  "is_ftp_call e = (case e of FtpCall c \<Rightarrow> True | _ \<Rightarrow> False)"

lemma ftp_step_next: "fc_nextId (fst (ftp_step C e)) = fc_nextId C + (if is_ftp_call e then 1 else 0)"
  using step_events [of e] quiet_frame(2) [of e C]
  by (auto simp: is_ftp_call_def is_quiet_def ftp_step_def enqueue_def split: ftp_event.splits)

lemma ftp_step_ok: "ftp_ok C \<Longrightarrow> ftp_ok (fst (ftp_step C e))"
  using step_events [of e] quiet_moves [of C e] ftp_ok_moves [of C]
  by (auto simp: ftp_step_def microtask_ok) (auto simp: ftp_ok_def enqueue_def split: ftp_job.splits)

interpretation ftp: promise_ledger ftp_step ftp_ok ftp_open fc_nextId ftp_settles
proof
  show "ftp_ok (fst (ftp_step C e))" if "ftp_ok C" for C e using that by (rule ftp_step_ok)
  show "fc_nextId C \<le> fc_nextId (fst (ftp_step C e))" for C e by (simp add: ftp_step_next)
  show "mset (List.map_filter ftp_settles (snd (ftp_step C e))) + mset (ftp_open (fst (ftp_step C e)))
      = mset (ftp_open C) + mset [fc_nextId C..<fc_nextId (fst (ftp_step C e))]" if ok: "ftp_ok C" for C e
  proof -
    consider "is_quiet e" | c where "e = FtpCall c" | b where "e = FtpMicrotask b" using step_events by blast
    then show ?thesis
    proof cases
      case 1
      then show ?thesis
        using quiet_effects [of e C] quiet_frame [of e C] moves_open [OF quiet_moves [OF ok 1]] by simp
    next
      case 2
      then show ?thesis by (auto simp: ftp_step_def enqueue_def ftp_open_def split: ftp_job.split)
    next
      case 3
      then show ?thesis using microtask_ledger [of b C] by (simp add: ftp_step_def)
    qed
  qed
qed

lemma ftp_ok_init [simp]: "ftp_ok (createFtpClient g a b c)" "ftp_open (createFtpClient g a b c) = []"
  "fc_nextId (createFtpClient g a b c) = 0"
  by (simp_all add: ftp_ok_def createFtpClient_def ftp_open_def)

lemma ftp_calls: "fc_nextId (fst (run_steps ftp_step C es)) = fc_nextId C + length (filter is_ftp_call es)"
  by (induction es arbitrary: C) (simp_all add: Let_def split_beta ftp_step_next)

section \<open>Time-outs\<close>

text \<open>As long as \<open>sendMessage\<close> does not throw, an open transaction has its timer.\<close>

definition timed :: "ftp_client \<Rightarrow> bool" where
  "timed C = (\<forall>tx. fc_pending C = Some tx \<longrightarrow> tx_timer tx \<noteq> None)"

definition ftp_sends :: "ftp_event \<Rightarrow> bool" where
  "ftp_sends e = (case e of FtpMicrotask sent \<Rightarrow> sent | FtpTimer sent \<Rightarrow> sent | _ \<Rightarrow> True)"

lemma timed_simps [simp]: "fc_pending C = None \<Longrightarrow> timed C" "timed (C\<lparr>fc_pending := Some tx\<rparr>) = (tx_timer tx \<noteq> None)"
  by (simp_all add: timed_def)

lemma transact_timed: "timed C \<Longrightarrow> timed (fst (transact True i ph sp C))"
  by (simp add: transact_def Let_def timed_def)

lemma timed_other [simp]: "timed (C\<lparr>fc_job := j\<rparr>) = timed C" "timed (C\<lparr>fc_queue := q\<rparr>) = timed C"
  by (simp_all add: timed_def)

lemma proceed_timed: "timed C \<Longrightarrow> timed (fst (proceed True i nxt C))"
  by (simp add: proceed_def transact_timed split: ftp_next.split)

lemma microtask_timed: "timed C \<Longrightarrow> timed (fst (microtask True C))"
  by (simp add: microtask_def Let_def split_beta proceed_timed split: ftp_job.split list.split)

lemma burst_reply_timed: "fc_pending C = Some tx \<Longrightarrow> timed C \<Longrightarrow> timed (burst_reply p tx C)"
  by (simp add: burst_reply_def Let_def)

lemma onReply_timed: "timed C \<Longrightarrow> timed (ftp_onReply msg C)"
  by (auto simp: ftp_onReply_def Let_def timed_def [of C] intro!: burst_reply_timed split: option.split)

lemma ftp_step_timed:
  assumes "ftp_ok C" "timed C" "ftp_sends e"
  shows "timed (fst (ftp_step C e))"
proof -
  have "timed (C1\<lparr>fc_queue := q, fc_nextId := n\<rparr>) = timed C1" "timed (C1\<lparr>fc_disposed := d\<rparr>) = timed C1"
    "timed (C1\<lparr>fc_aborted := s\<rparr>) = timed C1" for C1 q n d s
    by (simp_all add: timed_def)
  moreover have "timed (fst (ftp_timer True C))"
    using assms(2) by (auto simp: ftp_timer_def reattempt_def split: option.split)
  ultimately show ?thesis
    using assms microtask_timed [OF assms(2)] onReply_timed [OF assms(2)]
    by (cases e) (auto simp: ftp_step_def ftp_sends_def enqueue_def ftp_send_failed_def ftp_abort_def Let_def ftp_dispose_def split: option.split)
qed

lemma ftp_run_timed:
  "ftp_ok C \<Longrightarrow> timed C \<Longrightarrow> list_all ftp_sends es \<Longrightarrow> timed (fst (run_steps ftp_step C es))"
  by (induction es arbitrary: C) (simp_all add: Let_def split_beta ftp_step_ok ftp_step_timed)

text \<open>
  Left alone, the running operation sees its timers and its microtasks. What is left for it then, with
  \<open>r\<close> retries: \<open>error_cost\<close> after the error of its transaction, \<open>answer_cost\<close> after an answer.
\<close>

definition ftp_fire :: "ftp_client \<Rightarrow> ftp_state_result" where
  "ftp_fire C = ftp_step C (case fc_job C of Awaiting i ph \<Rightarrow> FtpTimer True | _ \<Rightarrow> FtpMicrotask True)"

definition ftp_running :: "nat \<Rightarrow> ftp_client \<Rightarrow> bool" where
  "ftp_running i C = (case fc_job C of JIdle \<Rightarrow> False | Awaiting j ph \<Rightarrow> j = i | Ready j ph r \<Rightarrow> j = i)"

fun error_cost :: "nat \<Rightarrow> phase \<Rightarrow> nat" where
  "error_cost r (Reading v) = r + 2"
| "error_cost r (Writing s d n sig) = r + 2"
| "error_cost r (Bursting v s n) = 2 * r + 4"
| "error_cost r _ = 0"

fun answer_cost :: "nat \<Rightarrow> phase \<Rightarrow> nat" where
  "answer_cost r (Closing s x) = 0"
| "answer_cost r (Removing sig) = 0"
| "answer_cost r (Listing path es n) = r + 2"
| "answer_cost r (Opening path prog sig) = 3 * r + 6"
| "answer_cost r (Bursting v s n) = 3 * r + 6"
| "answer_cost r _ = 2 * r + 4"

definition ready_cost :: "nat \<Rightarrow> phase \<Rightarrow> tx_result \<Rightarrow> nat" where
  "ready_cost r ph res = 1 + (case res of TxError e \<Rightarrow> error_cost r ph | _ \<Rightarrow> answer_cost r ph)"

definition ftp_budget :: "ftp_client \<Rightarrow> nat" where
  "ftp_budget C =
     (let r = fc_maxRetries C in
      case fc_job C of
        JIdle \<Rightarrow> 0
      | Ready i ph res \<Rightarrow> ready_cost r ph res
      | Awaiting i ph \<Rightarrow>
          (case fc_pending C of
             None \<Rightarrow> 0
           | Some tx \<Rightarrow>
               if tx_burst tx \<and> tx_frames tx \<noteq> [] then 2 + answer_cost r ph
               else (r + 1 - tx_attempts tx) + 2 + error_cost r ph))"

text \<open>What an await may cost, by what the operation does next.\<close>

fun next_cost :: "nat \<Rightarrow> ftp_next \<Rightarrow> nat" where
  "next_cost r (Await ph sp) = r + 2 + error_cost r ph"
| "next_cost r (Return out) = 0"

lemma next_cost_simps [simp]:
  "next_cost r (terminate s x) = r + 2" "next_cost r (list_page path es n) = r + 2" "next_cost r (read_done v) = r + 2"
  "next_cost r (read_chunk C v) = 2 * r + 4" 
  by (simp_all add: terminate_def list_page_def read_done_def read_chunk_def)

lemma next_cost_loops [simp]: "next_cost r (burst_page C s n v) < 7 + 3 * r" "next_cost r (write_chunk_at C s d n sig) < 5 + 2 * r"
  by (simp_all add: burst_page_def write_chunk_at_def)

lemma resume_cost:
  assumes "answers ph res"
  shows "next_cost r (snd (resume C ph res)) < ready_cost r ph res"
proof (cases res)
  case (TxError e)
  then show ?thesis by (cases ph) (simp_all add: resume_def resume_error_def ready_cost_def)
next
  case (TxBurst b)
  then obtain v s n where "ph = Bursting v s n" using assms by (cases ph) auto
  then show ?thesis
    using TxBurst by (auto simp: resume_def resume_burst_def ready_cost_def Let_def split: option.split prod.split)
next
  case (TxReply p)
  then show ?thesis
    using assms by (cases ph) (auto simp: resume_def resume_reply_def resume_read_def ready_cost_def Let_def split: prod.split)
qed

lemma transact_cost:
  "ftp_budget (fst (transact sent i ph sp C)) \<le> fc_maxRetries C + 2 + error_cost (fc_maxRetries C) ph"
  by (simp add: transact_def Let_def ftp_budget_def ready_cost_def)

lemma settle_cost:
  assumes "fc_job C = Awaiting i ph" "fc_pending C = Some tx"
  shows "ftp_budget (tx_settle res C) = ready_cost (fc_maxRetries C) ph res"
  using settle_running [OF assms(2,1), of res] by (simp add: ftp_budget_def)

lemma proceed_budget: "ftp_budget (fst (proceed sent i nxt C)) \<le> next_cost (fc_maxRetries C) nxt"
  using transact_cost [of sent i _ _ C] by (auto simp: proceed_def ftp_budget_def split: ftp_next.split)

lemma fire_cost:
  assumes "ftp_ok C" "timed C" "ftp_running i C"
  shows "ftp_budget (fst (ftp_fire C)) < ftp_budget C"
  using assms(1)
proof (cases rule: ftp_okE)
  case idle
  then show ?thesis using assms(3) by (simp add: ftp_running_def)
next
  case (ready j ph r)
  then show ?thesis
    using resume_cost [of ph r "fc_maxRetries C" C] proceed_budget [of True j "snd (resume C ph r)" C]
    by (simp add: ftp_fire_def ftp_step_def microtask_def Let_def split_beta ftp_budget_def [of C])
next
  case (awaiting j ph tx)
  have t: "tx_timer tx \<noteq> None" using assms(2) awaiting by (simp add: timed_def)
  have "ftp_budget (fst (reattempt True tx C)) < ftp_budget C"
    if "\<not> (tx_burst tx \<and> tx_frames tx \<noteq> [])" "tx_attempts tx \<le> fc_maxRetries C"
    using that awaiting by (auto simp: reattempt_def ftp_budget_def Let_def)
  then show ?thesis
    using awaiting t
    by (auto simp: ftp_fire_def ftp_step_def ftp_timer_def settle_cost ready_cost_def ftp_budget_def [of C] Let_def)
qed

interpretation ftp_waits: patience ftp_fire "ftp_running i" "\<lambda>C. ftp_ok C \<and> timed C" ftp_budget for i
proof
  show "ftp_ok (fst (ftp_fire C)) \<and> timed (fst (ftp_fire C))" if "ftp_ok C \<and> timed C" for C
    using that by (simp add: ftp_fire_def ftp_step_ok ftp_step_timed ftp_sends_def split: ftp_job.split)
  show "ftp_budget (fst (ftp_fire C)) < ftp_budget C" if "ftp_ok C \<and> timed C" "ftp_running i C" for C
    using that fire_cost by blast
qed

lemma ready_cost_bound: "ready_cost r ph res \<le> 3 * r + 7"
  by (cases ph) (simp_all add: ready_cost_def split: tx_result.split)

lemma budget_bound: "ftp_budget C \<le> 3 * fc_maxRetries C + 8"
proof (cases "fc_job C")
  case (Awaiting i ph)
  have "error_cost r ph \<le> 2 * r + 4" "answer_cost r ph \<le> 3 * r + 6" for r by (cases ph; simp)+
  from this [of "fc_maxRetries C"] show ?thesis by (auto simp: ftp_budget_def Awaiting Let_def split: option.split)
next
  case (Ready i ph r)
  then show ?thesis using ready_cost_bound [of "fc_maxRetries C" ph r] by (simp add: ftp_budget_def)
qed (simp add: ftp_budget_def)

lemma fire_queue: "ftp_running i C \<Longrightarrow> fc_queue (fst (ftp_fire C)) = fc_queue C"
  using quiet_frame(1) [of "FtpTimer True" C]
  by (auto simp: ftp_fire_def ftp_running_def is_quiet_def ftp_step_def microtask_def Let_def split_beta split: ftp_job.splits)

lemma ftp_promises_count: "count (mset (ftp_open (fst (run_steps ftp_step (createFtpClient g a b c) es)))) i \<le> 1"
proof -
  have "count (mset (List.map_filter ftp_settles (snd (run_steps ftp_step (createFtpClient g a b c) es)))) i
      + count (mset (ftp_open (fst (run_steps ftp_step (createFtpClient g a b c) es)))) i \<le> 1"
    by (subst ftp.settled_once) simp_all
  then show ?thesis by (rule add_leD2)
qed

end
