(* ===== verification/Ftp_Runs.thy ===== *)
theory Ftp_Runs
  imports Ftp_Safety
begin

text \<open>
  How a property of the operations of the FTP client is proved over its runs: the locale
  \<open>ftp_operations\<close> takes an invariant of the phases, what is assumed of the replies that the client
  accepts, and a property of the outcomes; it asks that starting and resuming an operation keep them. Its
  theorem holds for any interleaving of the operations with timers, aborts, failures and disposal.
\<close>

section \<open>The request behind a phase\<close>

fun asks :: "nat \<Rightarrow> phase \<Rightarrow> ftp_request \<Rightarrow> bool" where
  "asks cs (Bursting v s n) req =
     (rq_opcode req = OpBurstReadFile \<and> rq_session req = rv_session v \<and> rq_offset req = rv_offset v \<and> rq_size req = cs)"
| "asks cs (Reading v) req =
     (rq_opcode req = OpReadFile \<and> rq_session req = rv_session v \<and> rq_offset req = rv_offset v \<and> rq_size req = cs)"
| "asks cs (Writing session d offset sig) req =
     (rq_opcode req = OpWriteFile \<and> rq_session req = session \<and> rq_offset req = offset \<and> offset < length d \<and>
      rq_data req = subarray offset cs d \<and> rq_size req = length (rq_data req))"
| "asks cs ph req = True"

definition spec_request :: "nat \<Rightarrow> tx_spec \<Rightarrow> ftp_request" where
  "spec_request q sp =
     \<lparr>rq_seq = q, rq_session = sp_session sp, rq_opcode = sp_opcode sp, rq_offset = sp_offset sp,
      rq_size = sp_size sp, rq_data = sp_data sp\<rparr>"

fun next_asks :: "nat \<Rightarrow> ftp_next \<Rightarrow> bool" where
  "next_asks cs (Await ph sp) = (\<forall>q. asks cs ph (spec_request q sp))"
| "next_asks cs (Return out) = True"

lemma next_asks_simps [simp]:
  "next_asks cs (terminate s x)" "next_asks cs (list_page path es n)" "next_asks cs (read_done v)"
  "next_asks (fc_chunkSize C) (read_chunk C v)" "next_asks (fc_chunkSize C) (burst_page C s n v)"
  "next_asks (fc_chunkSize C) (write_chunk_at C s d n sig)"
  by (simp_all add: terminate_def list_page_def read_done_def read_chunk_def burst_page_def write_chunk_at_def
      request_def read_request_def spec_request_def)

lemma start_next_asks [simp]: "next_asks cs (start_call C call)"
  by (simp add: start_call_def request_def split: ftp_call.split)

lemma resume_next_asks [simp]: "next_asks (fc_chunkSize C) (snd (resume C ph r))"
  by (auto simp: resume_def resume_reply_def resume_error_def resume_burst_def resume_read_def Let_def
      split: tx_result.split phase.split option.split prod.split)

section \<open>Assumptions on replies\<close>

text \<open>The assumption \<open>F\<close> on the payload accepted for a request in a phase, at an event and over a run.\<close>

definition reply_holds :: "(phase \<Rightarrow> ftp_request \<Rightarrow> ftp_payload \<Rightarrow> bool) \<Rightarrow> ftp_client \<Rightarrow> ftp_event \<Rightarrow> bool" where
  "reply_holds F C e =
     (case (accepted C e, fc_job C, fc_pending C) of
        (Some p, Awaiting i ph, Some tx) \<Rightarrow> F ph (tx_request tx) p
      | _ \<Rightarrow> True)"

fun replies_hold :: "(phase \<Rightarrow> ftp_request \<Rightarrow> ftp_payload \<Rightarrow> bool) \<Rightarrow> ftp_client \<Rightarrow> ftp_event list \<Rightarrow> bool" where
  "replies_hold F C [] = True"
| "replies_hold F C (e # es) = (reply_holds F C e \<and> replies_hold F (fst (ftp_step C e)) es)"

definition reply_fits :: "nat \<Rightarrow> (phase \<Rightarrow> ftp_request \<Rightarrow> ftp_payload \<Rightarrow> bool) \<Rightarrow> phase \<Rightarrow> ftp_payload \<Rightarrow> bool" where
  "reply_fits cs F ph p = (\<exists>req. asks cs ph req \<and> F ph req p)"

definition frames_fit :: "nat \<Rightarrow> (phase \<Rightarrow> ftp_request \<Rightarrow> ftp_payload \<Rightarrow> bool) \<Rightarrow> phase \<Rightarrow> ftp_payload list \<Rightarrow> bool" where
  "frames_fit cs F ph fs = (\<forall>f\<in>set fs. fp_opcode f = OpAck \<and> reply_fits cs F ph f)"

definition result_fits :: "nat \<Rightarrow> (phase \<Rightarrow> ftp_request \<Rightarrow> ftp_payload \<Rightarrow> bool) \<Rightarrow> phase \<Rightarrow> tx_result \<Rightarrow> bool" where
  "result_fits cs F ph r =
     (case r of
        TxReply p \<Rightarrow> reply_fits cs F ph p
      | TxBurst b \<Rightarrow> frames_fit cs F ph (br_frames b) \<and>
          (br_nak b = None \<or> (\<exists>p. br_nak b = Some (nak_code p) \<and> fp_opcode p = OpNak \<and> reply_fits cs F ph p))
      | TxError e \<Rightarrow> True)"

fun next_holds :: "(phase \<Rightarrow> bool) \<Rightarrow> (ftp_outcome \<Rightarrow> bool) \<Rightarrow> ftp_next \<Rightarrow> bool" where
  "next_holds P Q (Await ph sp) = P ph"
| "next_holds P Q (Return out) = Q out"

definition outcomes_hold :: "(nat \<Rightarrow> ftp_outcome \<Rightarrow> bool) \<Rightarrow> ftp_effect list \<Rightarrow> bool" where
  "outcomes_hold Q fs = (\<forall>i out. FtpSettle i out \<in> set fs \<longrightarrow> Q i out)"

lemma outcomes_simps [simp]:
  "outcomes_hold Q []" "outcomes_hold Q (fs @ gs) = (outcomes_hold Q fs \<and> outcomes_hold Q gs)"
  "outcomes_hold Q [FtpSettle i out] = Q i out" "outcomes_hold Q (map (\<lambda>(d, n). FtpProgress i d n) ps)"
  by (auto simp: outcomes_hold_def)

section \<open>Runs\<close>

definition ops_inv ::
  "nat \<Rightarrow> (nat \<Rightarrow> ftp_call \<Rightarrow> bool) \<Rightarrow> (nat \<Rightarrow> phase \<Rightarrow> bool) \<Rightarrow> (phase \<Rightarrow> ftp_request \<Rightarrow> ftp_payload \<Rightarrow> bool) \<Rightarrow> ftp_client \<Rightarrow> bool" where
  "ops_inv cs A P F C =
     (ftp_ok C \<and> fc_chunkSize C = cs \<and> (\<forall>(i, c)\<in>set (fc_queue C). A i c) \<and>
      (case fc_job C of
         JIdle \<Rightarrow> True
       | Awaiting i ph \<Rightarrow>
           P i ph \<and> (\<forall>tx. fc_pending C = Some tx \<longrightarrow> asks cs ph (tx_request tx) \<and> frames_fit cs F ph (tx_frames tx))
       | Ready i ph r \<Rightarrow> P i ph \<and> result_fits cs F ph r))"

lemma frames_fit_simps [simp]: "frames_fit cs F ph []" "frames_fit cs F ph (fs @ gs) = (frames_fit cs F ph fs \<and> frames_fit cs F ph gs)"
  by (auto simp: frames_fit_def)

lemma ops_inv_moves:
  assumes inv: "ops_inv cs A P F C" and m: "moves x C C'" and x: "x = accepted C e" "reply_holds F C e"
    and frame: "fc_queue C' = fc_queue C" "fc_chunkSize C' = fc_chunkSize C"
  shows "ops_inv cs A P F C'"
proof -
  have ok: "ftp_ok C'" using inv m ftp_ok_moves by (auto simp: ops_inv_def)
  have fits: "frames_fit cs F ph fs"
    if "\<forall>f\<in>set fs. x = Some f \<and> fp_opcode f = OpAck" "fc_job C = Awaiting i ph" "fc_pending C = Some tx" for fs i ph tx
    using that x inv by (auto simp: frames_fit_def reply_fits_def reply_holds_def ops_inv_def)
  have reply: "reply_fits cs F ph p" if "x = Some p" "fc_job C = Awaiting i ph" "fc_pending C = Some tx" for p i ph tx
    using that x inv by (auto simp: reply_fits_def reply_holds_def ops_inv_def)
  show ?thesis
    using m
  proof (cases rule: moves.cases)
    case same
    then show ?thesis using inv ok frame by (auto simp: ops_inv_def split: ftp_job.splits)
  next
    case (changed i ph tx' tx fs)
    then show ?thesis using inv ok frame fits [of fs i ph tx] by (auto simp: ops_inv_def)
  next
    case (failed i ph e tx)
    then show ?thesis using inv ok frame by (auto simp: ops_inv_def result_fits_def)
  next
    case (replied i ph p tx)
    then show ?thesis using inv ok frame reply by (auto simp: ops_inv_def result_fits_def)
  next
    case (burst i ph b tx fs)
    then show ?thesis using inv ok frame fits [of fs i ph tx] reply by (auto simp: ops_inv_def result_fits_def)
  qed
qed

text \<open>
  \<open>A i c\<close> relates the number of a promise to its call, \<open>P\<close> is the invariant of the phases of that
  operation, \<open>F\<close> the assumption on replies, \<open>Q\<close> the property of its outcome.
\<close>

locale ftp_operations =
  fixes cs :: nat
    and A :: "nat \<Rightarrow> ftp_call \<Rightarrow> bool"
    and P :: "nat \<Rightarrow> phase \<Rightarrow> bool"
    and F :: "phase \<Rightarrow> ftp_request \<Rightarrow> ftp_payload \<Rightarrow> bool"
    and Q :: "nat \<Rightarrow> ftp_outcome \<Rightarrow> bool"
  assumes starts: "fc_chunkSize C = cs \<Longrightarrow> A i call \<Longrightarrow> next_holds (P i) (Q i) (start_call C call)"
    and resumes: "fc_chunkSize C = cs \<Longrightarrow> P i ph \<Longrightarrow> answers ph r \<Longrightarrow> result_fits cs F ph r \<Longrightarrow>
      next_holds (P i) (Q i) (snd (resume C ph r))"
begin

lemma proceed_inv:
  assumes "fc_chunkSize C = cs" "\<forall>(i, c)\<in>set (fc_queue C). A i c"
    and "next_ok nxt" "next_asks cs nxt" "next_holds (P i) (Q i) nxt"
  shows "ops_inv cs A P F (fst (proceed sent i nxt C)) \<and> outcomes_hold Q (snd (proceed sent i nxt C))"
proof -
  have "ftp_ok (fst (proceed sent i nxt C))" using assms by (simp add: proceed_ok)
  then show ?thesis
    using assms
    by (cases nxt) (auto simp: ops_inv_def proceed_def transact_def Let_def result_fits_def spec_request_def send_request_def
        outcomes_hold_def split: if_splits)
qed

lemma microtask_inv:
  assumes "ops_inv cs A P F C"
  shows "ops_inv cs A P F (fst (microtask sent C)) \<and> outcomes_hold Q (snd (microtask sent C))"
proof (cases "fc_job C")
  case JIdle
  then show ?thesis
    using assms starts [of C] proceed_inv [of "C\<lparr>fc_queue := tl (fc_queue C)\<rparr>"]
    by (cases "fc_queue C") (auto simp: microtask_def ops_inv_def ftp_ok_def)
next
  case (Awaiting i ph)
  then show ?thesis using assms by (simp add: microtask_def)
next
  case (Ready i ph r)
  then have "next_holds (P i) (Q i) (snd (resume C ph r))" "fc_chunkSize C = cs" "\<forall>(i, c)\<in>set (fc_queue C). A i c"
    using assms resumes [of C i ph r] by (auto simp: ops_inv_def ftp_ok_def)
  then show ?thesis
    using Ready proceed_inv [of C "snd (resume C ph r)" i sent] resume_next_asks [of C ph r]
    by (simp add: microtask_def Let_def split_beta)
qed

lemma step_inv:
  assumes "ops_inv cs A P F C" "reply_holds F C e" "\<And>c. e = FtpCall c \<Longrightarrow> A (fc_nextId C) c"
  shows "ops_inv cs A P F (fst (ftp_step C e)) \<and> outcomes_hold Q (snd (ftp_step C e))"
proof -
  have ok: "ftp_ok C" using assms(1) by (simp add: ops_inv_def)
  consider "is_quiet e" | c where "e = FtpCall c" | b where "e = FtpMicrotask b" using step_events by blast
  then show ?thesis
  proof cases
    case 1
    then have "outcomes_hold Q (snd (ftp_step C e))"
      by (cases e) (auto simp: ftp_step_def is_quiet_def ftp_timer_def reattempt_def send_request_def outcomes_hold_def split: option.split)
    then show ?thesis
      using ops_inv_moves [OF assms(1) quiet_moves [OF ok 1] refl assms(2)] quiet_frame [OF 1] by simp
  next
    case 2
    then show ?thesis using assms ftp_step_ok [OF ok, of e] by (auto simp: ops_inv_def ftp_step_def enqueue_def split: ftp_job.splits)
  next
    case 3
    then show ?thesis using microtask_inv [OF assms(1)] by (simp add: ftp_step_def)
  qed
qed

lemma run_inv:
  assumes "ops_inv cs A P F C" "replies_hold F C es"
    and "\<And>k c. k < length (filter is_ftp_call es) \<Longrightarrow> filter is_ftp_call es ! k = FtpCall c \<Longrightarrow> A (fc_nextId C + k) c"
  shows "ops_inv cs A P F (fst (run_steps ftp_step C es)) \<and> outcomes_hold Q (snd (run_steps ftp_step C es))"
  using assms
proof (induction es arbitrary: C)
  case Nil
  then show ?case by simp
next
  case (Cons e es)
  have "A (fc_nextId C) c" if "e = FtpCall c" for c using Cons.prems(3) [of 0] that by (simp add: is_ftp_call_def)
  then have 1: "ops_inv cs A P F (fst (ftp_step C e)) \<and> outcomes_hold Q (snd (ftp_step C e))"
    using step_inv Cons.prems by simp
  have "A (fc_nextId (fst (ftp_step C e)) + k) c"
    if "k < length (filter is_ftp_call es)" "filter is_ftp_call es ! k = FtpCall c" for k c
    using Cons.prems(3) [of "if is_ftp_call e then Suc k else k" c] that by (auto simp: ftp_step_next split: if_splits)
  then have "ops_inv cs A P F (fst (run_steps ftp_step (fst (ftp_step C e)) es)) \<and>
      outcomes_hold Q (snd (run_steps ftp_step (fst (ftp_step C e)) es))"
    using Cons.IH 1 Cons.prems(2) by simp
  then show ?case using 1 by (simp add: Let_def split_beta)
qed

text \<open>From a new client: every settled outcome has the property.\<close>

lemma outcomes:
  assumes "replies_hold F (createFtpClient g a b c) es" "fc_chunkSize (createFtpClient g a b c) = cs"
    and "\<And>k x. k < length (filter is_ftp_call es) \<Longrightarrow> filter is_ftp_call es ! k = FtpCall x \<Longrightarrow> A k x"
    and "FtpSettle i out \<in> set (snd (run_steps ftp_step (createFtpClient g a b c) es))"
  shows "Q i out"
proof -
  have "ops_inv cs A P F (createFtpClient g a b c)"
    using assms(2) by (simp add: ops_inv_def) (simp add: createFtpClient_def)
  from run_inv [OF this assms(1)] assms(3,4) show ?thesis by (simp add: outcomes_hold_def)
qed

end

end
