(* ===== verification/Ftp_Properties.thy ===== *)
theory Ftp_Properties
  imports Ftp_Runs
begin

text \<open>
  What the FTP client guarantees: the round trip of payloads, its ledger of promises and its time-outs,
  that a file is read as it is, that every byte of a written file was acknowledged, and the two ways
  in which a listing or a burst can be misread.
\<close>

section \<open>Reads\<close>





definition vars_true :: "(text_points \<Rightarrow> bytes) \<Rightarrow> read_vars \<Rightarrow> bool" where
  "vars_true files v =
     (concat (rv_chunks v) = take (rv_offset v) (files (rv_path v)) \<and> rv_offset v \<le> length (files (rv_path v)) \<and>
      rv_fileSize v \<in> {0, length (files (rv_path v))})"

definition read_of :: "(nat \<Rightarrow> ftp_call option) \<Rightarrow> nat \<Rightarrow> text_points \<Rightarrow> bool" where
  "read_of calls i path = (\<exists>prog sig. calls i = Some (FRead path prog sig))"

fun read_phase :: "bool \<Rightarrow> (nat \<Rightarrow> ftp_call option) \<Rightarrow> (text_points \<Rightarrow> bytes) \<Rightarrow> nat \<Rightarrow> phase \<Rightarrow> bool" where
  "read_phase exact calls files i (Opening path prog sig) = read_of calls i path"
| "read_phase exact calls files i (Bursting v s n) = (vars_true files v \<and> read_of calls i (rv_path v))"
| "read_phase exact calls files i (Reading v) = (vars_true files v \<and> read_of calls i (rv_path v))"
| "read_phase exact calls files i (Closing s (Deliver path chunks n)) =
     (concat chunks = take n (files path) \<and> n \<le> length (files path) \<and> (exact \<longrightarrow> n = length (files path)) \<and> read_of calls i path)"
| "read_phase exact calls files i _ = True"

definition read_outcome :: "bool \<Rightarrow> (nat \<Rightarrow> ftp_call option) \<Rightarrow> (text_points \<Rightarrow> bytes) \<Rightarrow> nat \<Rightarrow> ftp_outcome \<Rightarrow> bool" where
  "read_outcome exact calls files i out =
     (case out of
        Inr (Content path c) \<Rightarrow> (\<exists>n\<le>length (files path). c = take n (files path)) \<and> (exact \<longrightarrow> c = files path) \<and> read_of calls i path
      | _ \<Rightarrow> True)"

abbreviation read_next :: "bool \<Rightarrow> (nat \<Rightarrow> ftp_call option) \<Rightarrow> (text_points \<Rightarrow> bytes) \<Rightarrow> nat \<Rightarrow> ftp_next \<Rightarrow> bool" where
  "read_next exact calls files i \<equiv> next_holds (read_phase exact calls files i) (read_outcome exact calls files i)"







lemma throw_true [simp]: "read_next exact calls files i (terminate s (Throw e))" "read_next exact calls files i (terminate s Done)"
  by (simp_all add: terminate_def)






section \<open>Writes\<close>

text \<open>The requests an operation awaited that were answered by something else than a \<open>Nak\<close>.\<close>

fun acknowledged :: "ftp_client \<Rightarrow> ftp_event list \<Rightarrow> ftp_request list" where
  "acknowledged C [] = []"
| "acknowledged C (e # es) =
     (case (accepted C e, fc_job C, fc_pending C) of
        (Some p, Awaiting i ph, Some tx) \<Rightarrow> if fp_opcode p \<noteq> OpNak then [tx_request tx] else []
      | _ \<Rightarrow> []) @ acknowledged (fst (ftp_step C e)) es"

definition write_request :: "nat \<Rightarrow> nat \<Rightarrow> bytes \<Rightarrow> nat \<Rightarrow> ftp_request \<Rightarrow> bool" where
  "write_request cs s d n req =
     (rq_opcode req = OpWriteFile \<and> rq_session req = s \<and> rq_offset req = n \<and> rq_data req = subarray n cs d \<and>
      rq_size req = length (rq_data req))"

definition chunks_acked :: "ftp_request set \<Rightarrow> nat \<Rightarrow> nat \<Rightarrow> bytes \<Rightarrow> nat \<Rightarrow> bool" where
  "chunks_acked G cs s d m = (\<forall>k<m. k * cs < length d \<longrightarrow> (\<exists>req\<in>G. write_request cs s d (k * cs) req))"

definition write_of :: "(nat \<Rightarrow> ftp_call option) \<Rightarrow> nat \<Rightarrow> bytes \<Rightarrow> bool" where
  "write_of calls i d = (\<exists>path sig. calls i = Some (FWrite path d sig))"

fun write_phase :: "(nat \<Rightarrow> ftp_call option) \<Rightarrow> ftp_request set \<Rightarrow> nat \<Rightarrow> nat \<Rightarrow> phase \<Rightarrow> bool" where
  "write_phase calls G cs i (Creating path d sig) = write_of calls i d"
| "write_phase calls G cs i (Writing s d offset sig) =
     (write_of calls i d \<and> (\<exists>m. offset = m * cs \<and> chunks_acked G cs s d m))"
| "write_phase calls G cs i (Closing s Done) =
     (\<exists>d m. write_of calls i d \<and> length d \<le> m * cs \<and> chunks_acked G cs s d m)"
| "write_phase calls G cs i _ = True"

definition write_outcome :: "(nat \<Rightarrow> ftp_call option) \<Rightarrow> ftp_request set \<Rightarrow> nat \<Rightarrow> nat \<Rightarrow> ftp_outcome \<Rightarrow> bool" where
  "write_outcome calls G cs i out =
     (out = Inr Written \<longrightarrow> (\<exists>s d m. write_of calls i d \<and> length d \<le> m * cs \<and> chunks_acked G cs s d m))"

lemma write_outcome_simps [simp]:
  "write_outcome calls G cs i (Inl e)" "write_outcome calls G cs i (Inr (Listed es))"
  "write_outcome calls G cs i (Inr (Content p c))" "write_outcome calls G cs i (Inr Removed)"
  by (simp_all add: write_outcome_def)

lemma write_next_other [simp]:
  "next_holds (write_phase calls G cs i) Q (terminate s (Throw e))" "next_holds (write_phase calls G cs i) Q (terminate s (Deliver p c n))"
  "next_holds (write_phase calls G cs i) Q (read_done v)" "next_holds (write_phase calls G cs i) Q (read_chunk C v)"
  "next_holds (write_phase calls G cs i) Q (burst_page C s n v)" "next_holds (write_phase calls G cs i) Q (list_page path es n)"
  by (simp_all add: terminate_def read_done_def read_chunk_def burst_page_def list_page_def)

lemma write_chunk_true:
  assumes "write_of calls i d" "chunks_acked G cs s d m"
  shows "next_holds (write_phase calls G cs i) Q (write_chunk_at C s d (m * cs) sig)"
proof (cases "m * cs < length d")
  case True
  then show ?thesis using assms by (auto simp: write_chunk_at_def)
next
  case False
  then have "length d \<le> m * cs" by simp
  then show ?thesis using assms by (auto simp: write_chunk_at_def terminate_def)
qed

interpretation writes: ftp_operations cs "\<lambda>i c. calls i = Some c" "write_phase calls G cs"
  "\<lambda>ph req p. fp_opcode p \<noteq> OpNak \<longrightarrow> req \<in> G" "write_outcome calls G cs"
  for cs calls G
proof
  fix C :: ftp_client and i call
  assume "calls i = Some call"
  then show "next_holds (write_phase calls G cs i) (write_outcome calls G cs i) (start_call C call)"
    by (auto simp: start_call_def write_of_def split: ftp_call.split)
next
  fix C :: ftp_client and i ph r
  assume cs: "fc_chunkSize C = cs" and P: "write_phase calls G cs i ph" and a: "answers ph r"
    and r: "result_fits cs (\<lambda>ph req p. fp_opcode p \<noteq> OpNak \<longrightarrow> req \<in> G) ph r"
  let ?holds = "next_holds (write_phase calls G cs i) (write_outcome calls G cs i)"
  have exit: "write_outcome calls G cs i (exit_outcome x)" if "ph = Closing s x" for s x
    using that P by (cases x) (auto simp: exit_outcome_def write_outcome_def split: option.split)
  show "?holds (snd (resume C ph r))"
  proof (cases r)
    case (TxError e)
    then show ?thesis using exit by (cases ph) (auto simp: resume_def resume_error_def)
  next
    case (TxBurst b)
    then obtain v s n where "ph = Bursting v s n" using a by (cases ph) auto
    then show ?thesis by (simp add: TxBurst resume_def resume_burst_def Let_def split: option.split prod.split)
  next
    case (TxReply p)
    have ack: "\<exists>req\<in>G. asks cs ph req" if "fp_opcode p \<noteq> OpNak" using r TxReply that by (auto simp: result_fits_def reply_fits_def)
    show ?thesis
    proof (cases ph)
      case (Creating path d sig)
      have "?holds (write_chunk_at C (fp_session p) d (0 * cs) sig)"
        using P Creating by (intro write_chunk_true) (simp_all add: chunks_acked_def)
      then show ?thesis by (simp add: TxReply Creating resume_def resume_reply_def)
    next
      case (Writing s d offset sig)
      then obtain m where m: "offset = m * cs" "chunks_acked G cs s d m" and d: "write_of calls i d" using P by auto
      have "chunks_acked G cs s d (Suc m)" if "fp_opcode p \<noteq> OpNak"
        using m ack [OF that] by (auto simp: chunks_acked_def Writing write_request_def less_Suc_eq)
      from write_chunk_true [OF d this] m(1) show ?thesis
        by (auto simp: TxReply Writing resume_def resume_reply_def cs add.commute)
    next
      case (Reading v)
      then show ?thesis by (simp add: TxReply resume_def resume_reply_def resume_read_def Let_def)
    qed (use TxReply exit in \<open>auto simp: resume_def resume_reply_def split: prod.split\<close>)
  qed
qed

lemma acknowledged_holds:
  "set (acknowledged C es) \<subseteq> G \<Longrightarrow> replies_hold (\<lambda>ph req p. fp_opcode p \<noteq> OpNak \<longrightarrow> req \<in> G) C es"
  by (induction es arbitrary: C) (auto simp: reply_holds_def split: option.splits ftp_job.split if_splits)

section \<open>Listings\<close>



definition list_of :: "(nat \<Rightarrow> ftp_call option) \<Rightarrow> nat \<Rightarrow> text_points \<Rightarrow> bool" where
  "list_of calls i path = (calls i = Some (FList path))"

fun list_phase :: "(nat \<Rightarrow> ftp_call option) \<Rightarrow> (text_points \<Rightarrow> bytes list) \<Rightarrow> nat \<Rightarrow> phase \<Rightarrow> bool" where
  "list_phase calls dirs i (Listing path es offset) =
     (list_of calls i path \<and> es = List.map_filter listing_entry (take offset (dirs path)))"
| "list_phase calls dirs i _ = True"

definition list_outcome :: "(nat \<Rightarrow> ftp_call option) \<Rightarrow> (text_points \<Rightarrow> bytes list) \<Rightarrow> nat \<Rightarrow> ftp_outcome \<Rightarrow> bool" where
  "list_outcome calls dirs i out =
     (case out of Inr (Listed es) \<Rightarrow> \<exists>path. list_of calls i path \<and> es = List.map_filter listing_entry (dirs path) | _ \<Rightarrow> True)"




lemma list_next_other [simp]:
  "next_holds (list_phase calls dirs i) Q (terminate s x)"
  "next_holds (list_phase calls dirs i) Q (read_done v)" "next_holds (list_phase calls dirs i) Q (read_chunk C v)"
  "next_holds (list_phase calls dirs i) Q (burst_page C s n v)" "next_holds (list_phase calls dirs i) Q (write_chunk_at C s d n sig)"
  by (simp_all add: terminate_def read_done_def read_chunk_def burst_page_def write_chunk_at_def)

lemma list_outcome_simps [simp]:
  "list_outcome calls dirs i (Inl e)" "list_outcome calls dirs i (Inr Written)"
  "list_outcome calls dirs i (Inr (Content p c))" "list_outcome calls dirs i (Inr Removed)"
  by (simp_all add: list_outcome_def)

lemma exit_list_outcome [simp]: "list_outcome calls dirs i (exit_outcome x)"
  by (simp add: exit_outcome_def split: ftp_exit.split option.split)



section \<open>Properties\<close>

abbreviation ftp_run :: "ftp_client \<Rightarrow> ftp_event list \<Rightarrow> ftp_state_result" where
  "ftp_run \<equiv> run_steps ftp_step"

text \<open>The call with the number \<open>i\<close> of a run, if there is one.\<close>

definition ftp_call_at :: "ftp_event list \<Rightarrow> nat \<Rightarrow> ftp_call option" where
  "ftp_call_at es i =
     (let cs = filter is_ftp_call es
      in if i < length cs then (case cs ! i of FtpCall c \<Rightarrow> Some c | _ \<Rightarrow> None) else None)"

lemma ftp_call_at_calls: "k < length (filter is_ftp_call es) \<Longrightarrow> filter is_ftp_call es ! k = FtpCall c \<Longrightarrow> ftp_call_at es k = Some c"
  by (simp add: ftp_call_at_def)



text \<open>
  C16. A write that resolves was acknowledged byte for byte: for each byte of the data its call gave, a
  \<open>WriteFile\<close> of one and the same session that carries this byte at its place in the file was answered, and
  not by a \<open>Nak\<close>. Nothing is assumed of the server.
\<close>

theorem ftp_write_is_acknowledged:
  assumes "FtpSettle i (Inr Written) \<in> set (snd (ftp_run (createFtpClient g a b c) es))"
  shows "\<exists>path d sig s. ftp_call_at es i = Some (FWrite path d sig) \<and>
    (\<forall>j<length d. \<exists>req\<in>set (acknowledged (createFtpClient g a b c) es).
       rq_opcode req = OpWriteFile \<and> rq_session req = s \<and> rq_offset req \<le> j \<and> j - rq_offset req < length (rq_data req) \<and>
       rq_data req ! (j - rq_offset req) = d ! j)"
proof -
  let ?C = "createFtpClient g a b c" and ?G = "set (acknowledged (createFtpClient g a b c) es)"
  have "write_outcome (ftp_call_at es) ?G (fc_chunkSize ?C) i (Inr Written)"
    by (rule writes.outcomes [OF acknowledged_holds [OF subset_refl] refl _ assms]) (rule ftp_call_at_calls)
  then obtain s d m where d: "write_of (ftp_call_at es) i d" "length d \<le> m * fc_chunkSize ?C" "chunks_acked ?G (fc_chunkSize ?C) s d m"
    by (auto simp: write_outcome_def)
  have "\<exists>req\<in>?G. rq_opcode req = OpWriteFile \<and> rq_session req = s \<and> rq_offset req \<le> j \<and>
      j - rq_offset req < length (rq_data req) \<and> rq_data req ! (j - rq_offset req) = d ! j" if j: "j < length d" for j
  proof -
    define n where "n = fc_chunkSize ?C"
    have "0 < n" "j < m * n" using j d(2) by (auto simp: n_def intro!: gr0I)
    then have k: "j div n < m" "j div n * n \<le> j" "j - j div n * n < n"
      by (simp_all add: less_mult_imp_div_less minus_div_mult_eq_mod)
    have "chunks_acked ?G n s d m" using d(3) by (simp add: n_def)
    moreover have "j div n * n < length d" by (rule le_less_trans [OF k(2) j])
    ultimately obtain req where req: "req \<in> ?G" "write_request n s d (j div n * n) req"
      using k(1) unfolding chunks_acked_def by blast
    define p where "p = j div n * n"
    have "p \<le> j" "j - p < n" "write_request n s d p req" using k(2,3) req(2) by (simp_all only: p_def)
    then show ?thesis using req(1) j by (intro bexI [of _ req]) (auto simp: write_request_def subarray_def)
  qed
  then show ?thesis using d(1) unfolding write_of_def by blast
qed


text \<open>
  Every call of the FTP client settles at most once and is never lost, over any interleaving of calls,
  microtasks, replies, timers, thrown and rejected sends, aborts and disposal: those that wait in the
  queue included.
\<close>

theorem ftp_promises_settle_once:
  "count (mset (List.map_filter ftp_settles (snd (ftp_run (createFtpClient g a b c) es)))) i
   + count (mset (ftp_open (fst (ftp_run (createFtpClient g a b c) es)))) i
   = (if i < length (filter is_ftp_call es) then 1 else 0)"
  using ftp.settled_once [of "createFtpClient g a b c" es i] ftp_calls [of "createFtpClient g a b c" es] by simp

text \<open>
  C18. No operation hangs while sending works: in any reachable state the running operation, left without a
  reply, is settled after at most \<open>3 * maxRetries + 9\<close> timers and microtasks, whatever it was doing; a read
  in a burst may use up the retries of the burst, of the sequential fallback and of the end of its session.
\<close>

theorem silent_ftp_ends:
  assumes "C = fst (ftp_run (createFtpClient g a b c) es)" "list_all ftp_sends es" "ftp_running i C"
    and "idle ftp_fire (ftp_running i) (3 * fc_maxRetries C + 9) C = (C', fs)"
  shows "i \<notin> set (ftp_open C') \<and> i \<in> set (List.map_filter ftp_settles fs)"
proof -
  have "timed (createFtpClient g a b c)" by (simp add: createFtpClient_def)
  then have ok: "ftp_ok C \<and> timed C"
    unfolding assms(1) by (intro conjI ftp.run_inv ftp_run_timed assms(2) ftp_ok_init(1))
  have C': "C' = fst (idle ftp_fire (ftp_running i) (3 * fc_maxRetries C + 9) C)" and fs: "fs = snd (idle ftp_fire (ftp_running i) (3 * fc_maxRetries C + 9) C)"
    using assms(4) by (simp_all del: idle.simps)
  have i: "i \<in> set (ftp_open C)" using assms(3) by (auto simp: ftp_open_def ftp_running_def split: ftp_job.splits)
  have "count (mset (ftp_open C)) i \<le> 1"
    using ftp_promises_count [of g a b c es i] by (simp add: assms(1))
  then have queue: "i \<notin> set (map fst (fc_queue C))"
    using assms(3) by (auto simp: ftp_open_def ftp_running_def count_eq_zero_iff simp del: mset_map split: ftp_job.splits)
  have "fc_queue C' = fc_queue C"
    unfolding C' by (rule ftp_waits.keeps [where Q = "\<lambda>D. fc_queue D = fc_queue C"]) (use ok fire_queue in auto)
  moreover have "\<not> ftp_running i C'"
    unfolding C' using ftp_waits.ends [OF ok] budget_bound [of C] by simp
  ultimately have notin: "i \<notin> set (ftp_open C')"
    using queue by (auto simp: ftp_open_def ftp_running_def split: ftp_job.splits)
  have "\<exists>es. idle ftp_fire (ftp_running i) (3 * fc_maxRetries C + 9) C = ftp_run C es"
    by (rule idle_run) (auto simp: ftp_fire_def)
  then obtain es' where r: "idle ftp_fire (ftp_running i) (3 * fc_maxRetries C + 9) C = ftp_run C es'" by blast
  then show ?thesis using ftp.left_settled [of C i es'] ok i notin C' fs by (simp del: idle.simps)
qed

text \<open>
  Continuations get the answers they are written for: in every reachable state an operation that awaits has its transaction in
  the slot, a burst exactly in the burst loop, and the answer of a settled transaction has the type its phase reads.
\<close>

theorem ftp_answers_fit:
  "case fc_job (fst (ftp_run (createFtpClient g a b c) es)) of
     JIdle \<Rightarrow> True
   | Awaiting i ph \<Rightarrow>
       \<exists>tx. fc_pending (fst (ftp_run (createFtpClient g a b c) es)) = Some tx \<and> tx_burst tx = bursting ph
   | Ready i ph r \<Rightarrow> answers ph r"
  using ftp.run_inv [of "createFtpClient g a b c" es, OF ftp_ok_init(1)] unfolding ftp_ok_def .

text \<open>
  The payload of a request is read back as sent, and still is when MAVLink 2 has cut zeros off its end
  (from any \<open>n\<close> on) or the codec has filled them in again.
\<close>

theorem ftp_payload_round_trip:
  assumes "rq_seq req < 65536" "rq_session req < 256" "rq_opcode req < 256" "rq_offset req < 2 ^ 32"
    and "length (rq_data req) \<le> FTP_MAX_DATA" "rq_size req = length (rq_data req)"
    and "\<forall>j<FTP_PAYLOAD_LEN. n \<le> j \<longrightarrow> encodePayload req ! j = 0"
  shows "decodePayload (map js_byte (take n (encodePayload req))) =
    \<lparr>fp_seq = rq_seq req, fp_session = rq_session req, fp_opcode = rq_opcode req, fp_size = rq_size req,
     fp_reqOpcode = 0, fp_burstComplete = 0, fp_offset = rq_offset req, fp_data = rq_data req\<rparr>"
proof -
  have "payload_ok (sent_payload req)" using assms by (simp add: payload_ok_def sent_payload_def ftp_constants)
  moreover have "decodePayload (map js_byte (take n (encodePayload req))) = decodePayload (map js_byte (encodePayload req))"
    using assms(7) by (intro decode_truncated) simp_all
  ultimately have "decodePayload (map js_byte (take n (encodePayload req))) = sent_payload req"
    using encode_wire [OF assms(5)] decode_wire by simp
  then show ?thesis by (simp add: sent_payload_def)
qed

section \<open>Witnesses\<close>

definition ftp_peer :: ftp_target where
  "ftp_peer = \<lparr>ft_network = 0, ft_system = 1, ft_component = 1\<rparr>"

definition ftp_new :: ftp_client where
  "ftp_new = createFtpClient ftp_peer None None None"

definition answer :: "nat \<Rightarrow> nat \<Rightarrow> nat \<Rightarrow> nat \<Rightarrow> nat \<Rightarrow> nat \<Rightarrow> bytes \<Rightarrow> ftp_payload" where
  "answer q session opcode reqOpcode burstComplete offset d =
     \<lparr>fp_seq = q, fp_session = session, fp_opcode = opcode, fp_size = length d, fp_reqOpcode = reqOpcode,
      fp_burstComplete = burstComplete, fp_offset = offset, fp_data = d\<rparr>"

definition from_peer :: "ftp_payload \<Rightarrow> ftp_event" where
  "from_peer p =
     FtpIn \<lparr>dm_sysid = 1, dm_compid = 1, dm_seq = 0, dm_msgId = 110, dm_name = ''FILE_TRANSFER_PROTOCOL'',
       dm_fields = [''payload'' \<mapsto> FArr (map js_byte (wire p))], dm_crcOk = True, dm_signed = False, dm_linkId = None,
       dm_rxTimeUs = 0, dm_raw = []\<rparr>"

lemma peer_accepted:
  "payload_ok p \<Longrightarrow> accepted C (from_peer p) =
     (case fc_pending C of
        None \<Rightarrow> None
      | Some tx \<Rightarrow>
          if \<not> fc_disposed C \<and> ft_system (fc_target C) = 1 \<and> ft_component (fc_target C) = 1 \<and> correlates tx p then Some p else None)"
  by (auto simp: accepted_def from_peer_def asByteArray_def decode_wire split: option.split)

lemma peer_step:
  "payload_ok p \<Longrightarrow> ft_system (fc_target C) = 1 \<Longrightarrow> ft_component (fc_target C) = 1 \<Longrightarrow> \<not> fc_disposed C \<Longrightarrow> fc_pending C = Some tx \<Longrightarrow>
   correlates tx p \<Longrightarrow> ftp_step C (from_peer p) =
     (if tx_burst tx then
        (let tx = (if seqAfter (tx_highestSeq tx) (fp_seq p) then tx\<lparr>tx_highestSeq := fp_seq p\<rparr> else tx)
         in burst_reply p tx (C\<lparr>fc_pending := Some tx\<rparr>))
      else tx_settle (TxReply p) C, [])"
  by (auto simp: ftp_step_def from_peer_def ftp_onReply_def asByteArray_def decode_wire correlates_def Let_def)

lemma step_evals:
  "ftp_step C (FtpCall call) = (enqueue call C, [])"
  "fc_job C = JIdle \<Longrightarrow> fc_queue C = (i, call) # q \<Longrightarrow>
   ftp_step C (FtpMicrotask sent) = proceed sent i (start_call C call) (C\<lparr>fc_queue := q\<rparr>)"
  "fc_job C = Ready i ph r \<Longrightarrow> resume C ph r = (ps, nxt) \<Longrightarrow> proceed sent i nxt C = (C', fs) \<Longrightarrow>
   ftp_step C (FtpMicrotask sent) = (C', map (\<lambda>(d, n). FtpProgress i d n) ps @ fs)"
  by (simp_all add: ftp_step_def microtask_def)

lemma accepted_none: "accepted C (FtpCall call) = None" "accepted C (FtpMicrotask sent) = None"
  by (simp_all add: accepted_def)

lemmas ftp_eval = peer_accepted peer_step payload_ok_def answer_def ftp_constants ftp_new_def createFtpClient_def ftp_peer_def
  step_evals accepted_none enqueue_def proceed_def start_call_def transact_def request_def Let_def send_request_def
  tx_settle_def resume_def resume_reply_def resume_error_def resume_read_def resume_burst_def burst_page_def read_chunk_def read_request_def
  read_done_def terminate_def burst_reply_def appendContiguousBurstFrames_def correlates_def seqAtOrAfter_def seqAfter_def
  seq_delta_def advanceSeqPast_def nak_code_def readU32LE_def subarray_def exit_outcome_def concat_chunks_def
  write_chunk_at_def list_page_def parseListing_def


definition burst_session :: "ftp_event list" where
  "burst_session =
     [FtpCall (FRead [47] False None), FtpMicrotask True, from_peer (answer 1 3 OpAck OpOpenFileRO 0 0 [2, 0, 0, 0]),
      FtpMicrotask True, from_peer (answer 3 3 OpAck OpBurstReadFile 1 0 [5, 6]), FtpMicrotask True,
      from_peer (answer 5 3 OpAck OpTerminateSession 0 0 []), FtpMicrotask True]"





text \<open>
  An end of file that closes a burst discards the burst: when the server sends the two bytes of a file of
  size 2 in a frame that does not end the burst, and then answers \<open>EndOfFile\<close>, the read resolves with no byte
  at all, although the data arrived and the size was known.
\<close>

theorem burst_eof_truncates:
  "snd (ftp_run (createFtpClient ftp_peer None None None)
     [FtpCall (FRead [47] False None), FtpMicrotask True, from_peer (answer 1 3 OpAck OpOpenFileRO 0 0 [2, 0, 0, 0]),
      FtpMicrotask True, from_peer (answer 3 3 OpAck OpBurstReadFile 0 0 [5, 6]),
      from_peer (answer 4 3 OpNak OpBurstReadFile 0 2 [6]), FtpMicrotask True,
      from_peer (answer 6 3 OpAck OpTerminateSession 0 0 []), FtpMicrotask True])
   = [FtpSend ftp_peer (encodePayload \<lparr>rq_seq = 0, rq_session = 0, rq_opcode = OpOpenFileRO, rq_offset = 0, rq_size = 1, rq_data = [47]\<rparr>),
      FtpSend ftp_peer (encodePayload \<lparr>rq_seq = 2, rq_session = 3, rq_opcode = OpBurstReadFile, rq_offset = 0, rq_size = 239, rq_data = []\<rparr>),
      FtpSend ftp_peer (encodePayload \<lparr>rq_seq = 5, rq_session = 3, rq_opcode = OpTerminateSession, rq_offset = 0, rq_size = 0, rq_data = []\<rparr>),
      FtpSettle 0 (Inr (Content [47] []))]"
proof -
  have "utf8_encode [47] = [47]" by (simp add: utf8_encode_def utf8_char_def scalar_def)
  then show ?thesis by (simp add: ftp_eval) (simp add: numeral_2_eq_2)
qed

definition write_session :: "ftp_event list" where
  "write_session =
     [FtpCall (FWrite [47] [9] None), FtpMicrotask True, from_peer (answer 1 4 OpAck OpCreateFile 0 0 []), FtpMicrotask True,
      from_peer (answer 3 4 OpAck OpWriteFile 0 0 []), FtpMicrotask True, from_peer (answer 5 4 OpAck OpTerminateSession 0 0 []),
      FtpMicrotask True]"

lemma write_session_resolves: "FtpSettle 0 (Inr Written) \<in> set (snd (ftp_run ftp_new write_session))"
  by (simp add: write_session_def ftp_eval)

theorem ftp_write_is_acknowledged_witness:
  "\<exists>path d sig s. ftp_call_at write_session 0 = Some (FWrite path d sig) \<and>
    (\<forall>j<length d. \<exists>req\<in>set (acknowledged (createFtpClient ftp_peer None None None) write_session).
       rq_opcode req = OpWriteFile \<and> rq_session req = s \<and> rq_offset req \<le> j \<and> j - rq_offset req < length (rq_data req) \<and>
       rq_data req ! (j - rq_offset req) = d ! j)"
  by (rule ftp_write_is_acknowledged [OF write_session_resolves [unfolded ftp_new_def]])


definition two_records :: "text_points \<Rightarrow> bytes list" where
  "two_records path = [[83], [68, 98]]"

lemma two_entries: "List.map_filter listing_entry (two_records [47]) = [\<lparr>fe_name = [98], fe_size = Num 0, fe_dir = True\<rparr>]"
  by (simp add: two_records_def listing_entry_def utf8_decode_def utf8_from.simps(2) Let_def)




definition in_burst :: ftp_client where
  "in_burst = fst (ftp_run (createFtpClient ftp_peer None None None) (take 4 burst_session))"

lemma in_burst_job: "ftp_running 0 in_burst"
  by (simp add: in_burst_def burst_session_def ftp_eval ftp_running_def)

theorem silent_ftp_ends_witness:
  "0 \<notin> set (ftp_open (fst (idle ftp_fire (ftp_running 0) (3 * fc_maxRetries in_burst + 9) in_burst))) \<and>
   0 \<in> set (List.map_filter ftp_settles (snd (idle ftp_fire (ftp_running 0) (3 * fc_maxRetries in_burst + 9) in_burst)))"
  by (rule silent_ftp_ends [OF in_burst_def _ in_burst_job])
    (simp_all add: burst_session_def ftp_sends_def from_peer_def del: idle.simps)

theorem ftp_payload_round_trip_witness:
  "decodePayload (map js_byte (take 14 (encodePayload \<lparr>rq_seq = 8, rq_session = 2, rq_opcode = OpWriteFile, rq_offset = 300, rq_size = 2, rq_data = [7, 8]\<rparr>)))
   = \<lparr>fp_seq = 8, fp_session = 2, fp_opcode = OpWriteFile, fp_size = 2, fp_reqOpcode = 0, fp_burstComplete = 0, fp_offset = 300, fp_data = [7, 8]\<rparr>"
proof -
  define req where "req = \<lparr>rq_seq = 8, rq_session = 2, rq_opcode = OpWriteFile, rq_offset = 300, rq_size = 2, rq_data = [7, 8 :: u8]\<rparr>"
  have four: "(4 :: nat) = Suc (Suc (Suc (Suc 0)))" by simp
  have "le_bytes 4 300 = [44, 1, 0, 0]" unfolding four by simp
  moreover have "le_bytes 2 8 = [8, 0]" "le_bytes 1 2 = [2]" "le_bytes 1 7 = [7]" by (simp_all add: numeral_2_eq_2)
  ultimately have "encodePayload req = [8, 0, 2, 7, 2, 0, 0, 0, 44, 1, 0, 0, 7, 8] @ replicate 237 0"
    by (simp add: req_def encodePayload_def Let_def ftp_constants del: le_bytes.simps)
  then have "\<forall>j<FTP_PAYLOAD_LEN. 14 \<le> j \<longrightarrow> encodePayload req ! j = 0"
    by (auto simp: nth_append ftp_constants)
  then show ?thesis
    using ftp_payload_round_trip [of req 14] by (simp add: req_def ftp_constants)
qed

end
