(* ===== verification/Task_Table.thy ===== *)
theory Task_Table
  imports Client_Base
begin

text \<open>
  Asynchronous calls without timers: each call has the number of its promise and the place at which it
  awaits something. A call is spawned, goes on from one \<open>await\<close> to the next, and finishes.
\<close>

record 'a tasks =
  tk_live :: "(nat \<times> 'a) list"
  tk_next :: nat

definition no_tasks :: "'a tasks" where
  "no_tasks = \<lparr>tk_live = [], tk_next = 0\<rparr>"

definition task :: "nat \<Rightarrow> 'a tasks \<Rightarrow> 'a option" where
  "task i T = map_of (tk_live T) i"

definition task_ids :: "'a tasks \<Rightarrow> nat list" where
  "task_ids T = map fst (tk_live T)"

definition spawn :: "'a \<Rightarrow> 'a tasks \<Rightarrow> 'a tasks" where
  "spawn a T = T\<lparr>tk_live := tk_live T @ [(tk_next T, a)], tk_next := tk_next T + 1\<rparr>"

text \<open>A call that ends in the task that made it: it takes a number only.\<close>

definition skip_number :: "'a tasks \<Rightarrow> 'a tasks" where
  "skip_number T = T\<lparr>tk_next := tk_next T + 1\<rparr>"

definition goto :: "nat \<Rightarrow> 'a \<Rightarrow> 'a tasks \<Rightarrow> 'a tasks" where
  "goto i a T = T\<lparr>tk_live := map (\<lambda>(j, b). (j, if j = i then a else b)) (tk_live T)\<rparr>"

definition finish :: "nat \<Rightarrow> 'a tasks \<Rightarrow> 'a tasks" where
  "finish i T = T\<lparr>tk_live := filter (\<lambda>(j, b). j \<noteq> i) (tk_live T)\<rparr>"

definition tasks_ok :: "'a tasks \<Rightarrow> bool" where
  "tasks_ok T = (distinct (task_ids T) \<and> (\<forall>i\<in>set (task_ids T). i < tk_next T))"

section \<open>Laws\<close>

lemma no_tasks_simps [simp]: "task_ids no_tasks = []" "tk_next no_tasks = 0" "tasks_ok no_tasks" "task i no_tasks = None"
  by (simp_all add: no_tasks_def task_ids_def tasks_ok_def task_def)

lemma task_ids_simps [simp]:
  "task_ids (spawn a T) = task_ids T @ [tk_next T]" "task_ids (goto i a T) = task_ids T"
  "task_ids (skip_number T) = task_ids T" "task_ids (finish i T) = filter (\<lambda>j. j \<noteq> i) (task_ids T)"
  by (auto simp: task_ids_def spawn_def goto_def skip_number_def finish_def comp_def case_prod_unfold filter_map)

lemma task_next_simps [simp]:
  "tk_next (spawn a T) = tk_next T + 1" "tk_next (goto i a T) = tk_next T"
  "tk_next (skip_number T) = tk_next T + 1" "tk_next (finish i T) = tk_next T"
  by (simp_all add: spawn_def goto_def skip_number_def finish_def)

lemma task_in: "task i T = Some a \<Longrightarrow> i \<in> set (task_ids T)"
  by (force simp: task_def task_ids_def dest: map_of_SomeD)

lemma tasks_ok_simps [simp]:
  "tasks_ok T \<Longrightarrow> tasks_ok (spawn a T)" "tasks_ok (goto i a T) = tasks_ok T" "tasks_ok T \<Longrightarrow> tasks_ok (skip_number T)"
  "tasks_ok T \<Longrightarrow> tasks_ok (finish i T)"
  by (auto simp: tasks_ok_def less_SucI)

lemma finish_ledger: "tasks_ok T \<Longrightarrow> task i T = Some a \<Longrightarrow> add_mset i (mset (task_ids (finish i T))) = mset (task_ids T)"
  using mset_remove_one [of id "task_ids T" i] task_in [of i T a] by (simp add: tasks_ok_def)

lemma task_skip [simp]: "task i (skip_number T) = task i T"
  by (simp add: task_def skip_number_def)

lemma task_spawn:
  assumes "tasks_ok T"
  shows "task i (spawn a T) = (if i = tk_next T then Some a else task i T)"
proof -
  have "tk_next T \<notin> fst ` set (tk_live T)" using assms by (auto simp: tasks_ok_def task_ids_def)
  then have "map_of (tk_live T) (tk_next T) = None" by (simp add: map_of_eq_None_iff)
  then show ?thesis by (simp add: task_def spawn_def map_add_def split: option.split)
qed

lemma task_goto: "task j (goto i a T) = (if j = i then map_option (\<lambda>_. a) (task j T) else task j T)"
proof -
  have "map_of (map (\<lambda>(j, b). (j, if j = i then a else b)) xs) j = (if j = i then map_option (\<lambda>_. a) (map_of xs j) else map_of xs j)" for xs
    by (induction xs) auto
  then show ?thesis by (simp add: task_def goto_def)
qed

lemma task_finish: "task j (finish i T) = (if j = i then None else task j T)"
proof -
  have "map_of (filter (\<lambda>(j, b). j \<noteq> i) xs) j = (if j = i then None else map_of xs j)" for xs :: "(nat \<times> 'a) list"
    by (induction xs) auto
  then show ?thesis by (simp add: task_def finish_def)
qed

text \<open>A predicate of all live calls.\<close>

definition tasks_all :: "(nat \<Rightarrow> 'a \<Rightarrow> bool) \<Rightarrow> 'a tasks \<Rightarrow> bool" where
  "tasks_all P T = (\<forall>(i, a)\<in>set (tk_live T). P i a)"

lemma tasks_allD: "tasks_all P T \<Longrightarrow> task i T = Some a \<Longrightarrow> P i a"
  by (auto simp: tasks_all_def task_def dest: map_of_SomeD)

lemma tasks_all_simps [simp]:
  "tasks_all P no_tasks" "tasks_all P (spawn a T) = (tasks_all P T \<and> P (tk_next T) a)"
  "tasks_all P (skip_number T) = tasks_all P T"
  by (auto simp: tasks_all_def no_tasks_def spawn_def skip_number_def)

lemma tasks_all_finish: "tasks_all P T \<Longrightarrow> tasks_all P (finish i T)"
  by (auto simp: tasks_all_def finish_def)

lemma tasks_all_goto: "tasks_all P T \<Longrightarrow> P i a \<Longrightarrow> tasks_all P (goto i a T)"
  by (auto simp: tasks_all_def goto_def)

lemma tasks_all_mono: "tasks_all P T \<Longrightarrow> (\<And>i a. P i a \<Longrightarrow> Q i a) \<Longrightarrow> tasks_all Q T"
  by (auto simp: tasks_all_def)

end
