(* ===== verification/Audit_Log.thy ===== *)
theory Audit_Log
  imports Utf8 Js_Text
begin

text \<open>
  \<open>src/core/audit\<close>: the log of vehicle actions, a list of entries, oldest first, of which the last
  \<open>maxEntries\<close> are kept. An id is the counter of the default \<open>idFactory\<close>, which writes it to the base 36
  behind an \<open>a\<close>. The clock is the argument \<open>now\<close>. A change notifies the listeners with the new list.
\<close>

datatype audit_kind = KindCommand | KindParamSet | KindMissionWrite

datatype audit_status = Pending | AuditOk | AuditError | Cancelled

record audit_entry =
  ae_id :: nat
  ae_tMs :: int
  ae_kind :: audit_kind
  ae_summary :: text_points
  ae_origin :: string
  ae_status :: audit_status
  ae_params :: "js_val option"
  ae_result :: "text_points option"
  ae_tEndMs :: "int option"

record audit_input =
  ai_kind :: audit_kind
  ai_summary :: text_points
  ai_origin :: "string option"
  ai_status :: "audit_status option"
  ai_params :: "js_val option"
  ai_result :: "text_points option"
  ai_tMs :: "int option"
  ai_tEndMs :: "int option"

record audit_patch =
  ap_status :: "audit_status option"
  ap_result :: "text_points option"
  ap_summary :: "text_points option"
  ap_tEndMs :: "int option"

record audit_log =
  al_maxEntries :: nat
  al_entries :: "audit_entry list"
  al_listeners :: "nat list"
  al_counter :: nat

definition DEFAULT_MAX_ENTRIES :: nat where
  "DEFAULT_MAX_ENTRIES = 1000"

definition createAuditLog :: "nat option \<Rightarrow> audit_log" where
  "createAuditLog maxEntries =
     \<lparr>al_maxEntries = max 1 (case maxEntries of Some n \<Rightarrow> n | None \<Rightarrow> DEFAULT_MAX_ENTRIES),
      al_entries = [], al_listeners = [], al_counter = 0\<rparr>"

definition freezeEntry :: "nat \<Rightarrow> int \<Rightarrow> audit_input \<Rightarrow> audit_entry" where
  "freezeEntry i tMs input =
     \<lparr>ae_id = i, ae_tMs = tMs, ae_kind = ai_kind input, ae_summary = ai_summary input,
      ae_origin = (case ai_origin input of Some x \<Rightarrow> x | None \<Rightarrow> ''ui''),
      ae_status = (case ai_status input of Some x \<Rightarrow> x | None \<Rightarrow> Pending),
      ae_params = ai_params input, ae_result = ai_result input, ae_tEndMs = ai_tEndMs input\<rparr>"

definition patchEntry :: "audit_patch \<Rightarrow> audit_entry \<Rightarrow> audit_entry" where
  "patchEntry p e =
     e\<lparr>ae_status := (case ap_status p of Some x \<Rightarrow> x | None \<Rightarrow> ae_status e),
       ae_summary := (case ap_summary p of Some x \<Rightarrow> x | None \<Rightarrow> ae_summary e),
       ae_result := (case ap_result p of Some x \<Rightarrow> Some x | None \<Rightarrow> ae_result e),
       ae_tEndMs := (case ap_tEndMs p of Some x \<Rightarrow> Some x | None \<Rightarrow> ae_tEndMs e)\<rparr>"

text \<open>The notifications of a change: listener and snapshot.\<close>

type_synonym audit_notes = "(nat \<times> audit_entry list) list"

definition audit_emit :: "audit_log \<Rightarrow> audit_notes" where
  "audit_emit L = map (\<lambda>l. (l, al_entries L)) (al_listeners L)"

definition audit_append :: "int \<Rightarrow> audit_input \<Rightarrow> audit_log \<Rightarrow> audit_log \<times> audit_entry \<times> audit_notes" where
  "audit_append now input L =
     (let tMs = (case ai_tMs input of Some t \<Rightarrow> t | None \<Rightarrow> now);
          i = al_counter L + 1;
          created = freezeEntry i tMs input;
          es = al_entries L @ [created];
          L = L\<lparr>al_counter := i, al_entries := drop (length es - al_maxEntries L) es\<rparr>
      in (L, created, audit_emit L))"

fun patch_first :: "nat \<Rightarrow> audit_patch \<Rightarrow> audit_entry list \<Rightarrow> audit_entry list option" where
  "patch_first i p [] = None"
| "patch_first i p (e # es) =
     (if ae_id e = i then Some (patchEntry p e # es) else map_option (\<lambda>es. e # es) (patch_first i p es))"

definition audit_update :: "nat \<Rightarrow> audit_patch \<Rightarrow> audit_log \<Rightarrow> audit_log \<times> audit_notes" where
  "audit_update i p L =
     (case patch_first i p (al_entries L) of
        None \<Rightarrow> (L, [])
      | Some es \<Rightarrow> let L = L\<lparr>al_entries := es\<rparr> in (L, audit_emit L))"

definition audit_clear :: "audit_log \<Rightarrow> audit_log \<times> audit_notes" where
  "audit_clear L = (if al_entries L = [] then (L, []) else let L = L\<lparr>al_entries := []\<rparr> in (L, audit_emit L))"

definition audit_subscribe :: "nat \<Rightarrow> audit_log \<Rightarrow> audit_log" where
  "audit_subscribe l L = (if l \<in> set (al_listeners L) then L else L\<lparr>al_listeners := al_listeners L @ [l]\<rparr>)"

definition audit_unsubscribe :: "nat \<Rightarrow> audit_log \<Rightarrow> audit_log" where
  "audit_unsubscribe l L = L\<lparr>al_listeners := filter (\<lambda>k. k \<noteq> l) (al_listeners L)\<rparr>"

section \<open>The invariant\<close>

text \<open>At most \<open>maxEntries\<close> entries, with increasing ids that were given out.\<close>

definition audit_ok :: "audit_log \<Rightarrow> bool" where
  "audit_ok L =
     (length (al_entries L) \<le> al_maxEntries L \<and> 0 < al_maxEntries L \<and> sorted_wrt (<) (map ae_id (al_entries L)) \<and>
      (\<forall>e\<in>set (al_entries L). ae_id e \<le> al_counter L))"

lemma audit_ok_create [simp]: "audit_ok (createAuditLog n)"
  by (simp add: audit_ok_def createAuditLog_def)

lemma patch_first_ids: "patch_first i p es = Some es' \<Longrightarrow> map ae_id es' = map ae_id es"
proof (induction es arbitrary: es')
  case (Cons e es)
  then show ?case by (auto simp: patchEntry_def split: if_splits)
qed simp

lemma patch_first_set:
  "patch_first i p es = Some es' \<Longrightarrow> e \<in> set es' \<Longrightarrow> e \<in> set es \<or> ae_id e = i \<and> (\<exists>e0\<in>set es. e = patchEntry p e0)"
proof (induction es arbitrary: es')
  case (Cons x es)
  then show ?case by (auto simp: patchEntry_def split: if_splits)
qed simp

lemma drop_ids: "sorted_wrt (<) (map ae_id es) \<Longrightarrow> sorted_wrt (<) (map ae_id (drop n es))"
  by (simp add: drop_map [symmetric] sorted_wrt_drop)

lemma audit_append_ok [simp]: "audit_ok L \<Longrightarrow> audit_ok (fst (audit_append now input L))"
  unfolding audit_append_def Let_def audit_ok_def fst_conv
  by (auto simp: freezeEntry_def sorted_wrt_append less_Suc_eq_le sorted_wrt_drop drop_map [symmetric] dest!: in_set_dropD)

lemma audit_update_ok [simp]:
  assumes "audit_ok L"
  shows "audit_ok (fst (audit_update i p L))"
proof (cases "patch_first i p (al_entries L)")
  case None
  then show ?thesis using assms by (simp add: audit_update_def)
next
  case (Some es)
  have ids: "map ae_id es = map ae_id (al_entries L)" using patch_first_ids [OF Some] .
  then have len: "length es = length (al_entries L)" by (metis length_map)
  have "ae_id ` set es = ae_id ` set (al_entries L)" using ids by (metis list.set_map)
  then have "ae_id e \<le> al_counter L" if "e \<in> set es" for e
    using assms that by (metis (no_types, lifting) audit_ok_def imageE imageI)
  then show ?thesis using assms ids len Some by (auto simp: audit_update_def audit_ok_def Let_def)
qed

lemma audit_clear_ok [simp]: "audit_ok L \<Longrightarrow> audit_ok (fst (audit_clear L))"
  by (simp add: audit_clear_def audit_ok_def Let_def)

end
