(* ===== verification/Js_Collections.thy ===== *)
theory Js_Collections
  imports Main
begin

text \<open>A JavaScript \<open>Set\<close>: a list without repetitions, in the order of insertion.\<close>

definition set_add :: "'a \<Rightarrow> 'a list \<Rightarrow> 'a list" where
  "set_add x s = (if x \<in> set s then s else s @ [x])"

definition js_set :: "'a list \<Rightarrow> 'a list" where
  "js_set xs = fold set_add xs []"

lemma set_add_simps [simp]: "set (set_add x s) = insert x (set s)" "distinct (set_add x s) = distinct s"
  by (auto simp: set_add_def)

end
