(* ===== verification/Permission_Broker.thy ===== *)
theory Permission_Broker
  imports Task_Table Audit_Log Js_Collections "HOL-Library.AList"
begin

text \<open>
  \<open>src/ext/permissions\<close> (\<open>broker.ts\<close>, \<open>grant-store.ts\<close>, \<open>risk.ts\<close>): what an extension may do. The \<open>async\<close>
  methods are cut at their \<open>await\<close>s into tasks; \<open>BContinue\<close> is the continuation of a read or a write of the
  grants, \<open>BConfirmed\<close> the answer of the operator, \<open>BReturned\<close> and \<open>BThrew\<close> the end of a handler. The
  key-value store takes requests in the order in which they are made: a read delivers what was
  stored when it was requested, a write is stored when it is requested. \<open>url\<close> stands for the
  parser of URLs (\<open>href\<close>, \<open>host\<close>, \<open>hostname\<close>).
\<close>

section \<open>Permissions\<close>

definition VEHICLE_AFFECTING_PERMISSIONS :: "string list" where
  "VEHICLE_AFFECTING_PERMISSIONS = [''command'', ''params:write'', ''mission:write'', ''mavlink:send'']"

definition HIGH_RISK_PERMISSIONS :: "string list" where
  "HIGH_RISK_PERMISSIONS = [''command'', ''params:write'', ''mission:write'', ''mavlink:send'', ''transport'', ''dialect'']"

definition isHighRiskPermission :: "string \<Rightarrow> bool" where
  "isHighRiskPermission perm = (perm \<in> set HIGH_RISK_PERMISSIONS)"

definition isVehicleAffectingPermission :: "string \<Rightarrow> bool" where
  "isVehicleAffectingPermission perm = (perm \<in> set VEHICLE_AFFECTING_PERMISSIONS)"

definition auditKindForPermission :: "string \<Rightarrow> audit_kind option" where
  "auditKindForPermission perm =
     (if perm = ''params:write'' then Some KindParamSet
      else if perm = ''mission:write'' then Some KindMissionWrite
      else if perm = ''command'' \<or> perm = ''mavlink:send'' then Some KindCommand
      else None)"

section \<open>The grant store\<close>

record grant_store =
  gs_cache :: "string \<rightharpoonup> string list"
  gs_stored :: "string \<rightharpoonup> string list"

text \<open>\<open>#ensure\<close> before and after its \<open>await\<close>: the cached set, or the value that the read will deliver.\<close>

datatype lookup = Cached "string list" | Fetched "string list option"

definition ensure_start :: "string \<Rightarrow> grant_store \<Rightarrow> lookup" where
  "ensure_start extId S = (case gs_cache S extId of Some c \<Rightarrow> Cached c | None \<Rightarrow> Fetched (gs_stored S extId))"

definition ensure_value :: "lookup \<Rightarrow> string list" where
  "ensure_value l = (case l of Cached c \<Rightarrow> c | Fetched v \<Rightarrow> js_set (case v of Some xs \<Rightarrow> xs | None \<Rightarrow> []))"

definition ensure_done :: "string \<Rightarrow> lookup \<Rightarrow> grant_store \<Rightarrow> grant_store" where
  "ensure_done extId l S = (case l of Cached c \<Rightarrow> S | Fetched v \<Rightarrow> S\<lparr>gs_cache := (gs_cache S)(extId \<mapsto> ensure_value l)\<rparr>)"

definition gs_persist :: "string \<Rightarrow> string list \<Rightarrow> grant_store \<Rightarrow> grant_store" where
  "gs_persist extId s S = S\<lparr>gs_cache := (gs_cache S)(extId \<mapsto> s), gs_stored := (gs_stored S)(extId \<mapsto> s)\<rparr>"

definition gs_clear :: "string \<Rightarrow> grant_store \<Rightarrow> grant_store" where
  "gs_clear extId S = S\<lparr>gs_cache := (gs_cache S)(extId := None), gs_stored := (gs_stored S)(extId := None)\<rparr>"

text \<open>The permissions an extension holds: what a read that starts now will yield.\<close>

definition effective_grants :: "string \<Rightarrow> grant_store \<Rightarrow> string list" where
  "effective_grants extId S = ensure_value (ensure_start extId S)"

section \<open>The broker\<close>

datatype denial = UnknownMethod | NotGranted | EgressBlocked | Declined | BadRequest

datatype call_error = Denied denial | HandlerError text_points | ConfirmError

record registration =
  rg_token :: nat
  rg_method :: string
  rg_required :: "string option"
  rg_net :: bool
  rg_auditKind :: "audit_kind option"
  rg_summary :: "text_points option"

record egress_target =
  et_url :: string
  et_host :: string
  et_hostname :: string

definition resolveEgressTarget :: "(string \<Rightarrow> egress_target option) \<Rightarrow> js_val list \<Rightarrow> egress_target option" where
  "resolveEgressTarget url args = (case args of JStr raw # _ \<Rightarrow> url raw | _ \<Rightarrow> None)"

definition isHostGranted :: "string list \<Rightarrow> egress_target \<Rightarrow> bool" where
  "isHostGranted granted t =
     (''net:*'' \<in> set granted \<or> ''net:'' @ et_host t \<in> set granted \<or> ''net:'' @ et_hostname t \<in> set granted)"

text \<open>The methods of the store that read first: \<open>list\<close>, \<open>isGranted\<close>, \<open>grant\<close>, \<open>revoke\<close>, and \<open>capabilitiesFor\<close>.\<close>

datatype store_call =
    SList
  | SIsGranted string
  | SGrant "string list"
  | SRevoke "string list"
  | SCapabilities

datatype broker_task =
    Checking string registration "js_val list" lookup
  | Confirming registration string "js_val list" nat
  | Running string "nat option"
  | StoreRead string store_call lookup
  | StoreWrite

datatype broker_value = Result js_val | Perms "string list" | IsGranted bool | StoreDone

record broker =
  br_apis :: "(string \<times> registration) list"
  br_tokens :: nat
  br_grants :: grant_store
  br_audit :: audit_log
  br_tasks :: "broker_task tasks"

datatype broker_effect =
    RunHandler nat string string "js_val list"
  | AskOperator nat text_points
  | RecordEgress string string string
  | AuditNote nat "audit_entry list"
  | BSettle nat "call_error + broker_value"

type_synonym broker_result = "broker \<times> broker_effect list"

definition createBroker :: "(string \<rightharpoonup> string list) \<Rightarrow> audit_log \<Rightarrow> broker" where
  "createBroker stored audit =
     \<lparr>br_apis = [], br_tokens = 0, br_grants = \<lparr>gs_cache = Map.empty, gs_stored = stored\<rparr>, br_audit = audit, br_tasks = no_tasks\<rparr>"

definition audit_notes :: "audit_notes \<Rightarrow> broker_effect list" where
  "audit_notes ns = map (\<lambda>(l, es). AuditNote l es) ns"

text \<open>A call that is over.\<close>

definition br_settle :: "nat \<Rightarrow> call_error + broker_value \<Rightarrow> broker \<Rightarrow> broker_result" where
  "br_settle i out B = (B\<lparr>br_tasks := finish i (br_tasks B)\<rparr>, [BSettle i out])"

definition registerApi :: "string \<Rightarrow> string option \<Rightarrow> bool \<Rightarrow> audit_kind option \<Rightarrow> text_points option \<Rightarrow> broker \<Rightarrow> broker" where
  "registerApi method required net kind summary B =
     (let reg = \<lparr>rg_token = br_tokens B, rg_method = method, rg_required = required, rg_net = net,
                 rg_auditKind = kind, rg_summary = summary\<rparr>
      in B\<lparr>br_tokens := br_tokens B + 1, br_apis := AList.update method reg (br_apis B)\<rparr>)"

text \<open>The disposer that \<open>registerApi\<close> returned for the registration with this token.\<close>

definition unregisterApi :: "string \<Rightarrow> nat \<Rightarrow> broker \<Rightarrow> broker" where
  "unregisterApi method token B =
     (case map_of (br_apis B) method of
        Some reg \<Rightarrow> if rg_token reg = token then B\<lparr>br_apis := AList.delete method (br_apis B)\<rparr> else B
      | None \<Rightarrow> B)"

definition registeredMethods :: "broker \<Rightarrow> string list" where
  "registeredMethods B = map fst (br_apis B)"

definition starts_with :: "'a list \<Rightarrow> 'a list \<Rightarrow> bool" where
  "starts_with p s = (take (length p) s = p)"

definition capabilitiesFor :: "string list \<Rightarrow> broker \<Rightarrow> string list" where
  "capabilitiesFor granted B =
     map rg_method
       (filter (\<lambda>reg. if rg_net reg then \<exists>p\<in>set granted. starts_with ''net:'' p
                      else case rg_required reg of None \<Rightarrow> True | Some p \<Rightarrow> p \<in> set granted)
         (map snd (br_apis B)))"

definition run_handler :: "nat \<Rightarrow> string \<Rightarrow> string \<Rightarrow> js_val list \<Rightarrow> nat option \<Rightarrow> broker \<Rightarrow> broker_result" where
  "run_handler i extId method args entry B =
     (B\<lparr>br_tasks := goto i (Running extId entry) (br_tasks B)\<rparr>, [RunHandler i extId method args])"

text \<open>\<open>${extId} \<rightarrow> ${method}\<close>, with the arrow of code point \<open>0x2192\<close>.\<close>

definition default_summary :: "string \<Rightarrow> string \<Rightarrow> text_points" where
  "default_summary extId method = map char_code extId @ [32, 0x2192, 32] @ map char_code method"

definition invokeAudited :: "int \<Rightarrow> nat \<Rightarrow> registration \<Rightarrow> string \<Rightarrow> string \<Rightarrow> js_val list \<Rightarrow> broker \<Rightarrow> broker_result" where
  "invokeAudited now i reg perm extId args B =
     (let kind = (case rg_auditKind reg of Some k \<Rightarrow> k
                  | None \<Rightarrow> (case auditKindForPermission perm of Some k \<Rightarrow> k | None \<Rightarrow> KindCommand));
          summary = (case rg_summary reg of Some s \<Rightarrow> s | None \<Rightarrow> default_summary extId (rg_method reg));
          (log, entry, ns) = audit_append now
            \<lparr>ai_kind = kind, ai_summary = summary, ai_origin = Some extId, ai_status = Some Pending, ai_params = None,
             ai_result = None, ai_tMs = None, ai_tEndMs = None\<rparr> (br_audit B)
      in (B\<lparr>br_audit := log, br_tasks := goto i (Confirming reg extId args (ae_id entry)) (br_tasks B)\<rparr>,
          audit_notes ns @ [AskOperator i summary]))"

text \<open>\<open>invoke\<close> after the grants were read.\<close>

definition check_call ::
  "(string \<Rightarrow> egress_target option) \<Rightarrow> int \<Rightarrow> nat \<Rightarrow> string \<Rightarrow> registration \<Rightarrow> js_val list \<Rightarrow> string list \<Rightarrow> broker \<Rightarrow> broker_result" where
  "check_call url now i extId reg args granted B =
     (if rg_net reg then
        (case resolveEgressTarget url args of
           None \<Rightarrow> br_settle i (Inl (Denied BadRequest)) B
         | Some t \<Rightarrow>
             if \<not> isHostGranted granted t then br_settle i (Inl (Denied EgressBlocked)) B
             else
               let (B, fs) = run_handler i extId (rg_method reg) args None B
               in (B, RecordEgress extId (et_url t) (et_host t) # fs))
      else case rg_required reg of
        None \<Rightarrow> run_handler i extId (rg_method reg) args None B
      | Some p \<Rightarrow>
          if p \<notin> set granted then br_settle i (Inl (Denied NotGranted)) B
          else if isVehicleAffectingPermission p then invokeAudited now i reg p extId args B
          else run_handler i extId (rg_method reg) args None B)"

definition invoke :: "string \<Rightarrow> string \<Rightarrow> js_val list \<Rightarrow> broker \<Rightarrow> broker_result" where
  "invoke extId method args B =
     (case map_of (br_apis B) method of
        None \<Rightarrow> (B\<lparr>br_tasks := skip_number (br_tasks B)\<rparr>, [BSettle (tk_next (br_tasks B)) (Inl (Denied UnknownMethod))])
      | Some reg \<Rightarrow>
          (B\<lparr>br_tasks := spawn (Checking extId reg args (ensure_start extId (br_grants B))) (br_tasks B)\<rparr>, []))"

definition audit_outcome :: "nat \<Rightarrow> audit_status \<Rightarrow> text_points \<Rightarrow> broker \<Rightarrow> broker_result" where
  "audit_outcome entry status result B =
     (let (log, ns) = audit_update entry
            \<lparr>ap_status = Some status, ap_result = Some result, ap_summary = None, ap_tEndMs = None\<rparr> (br_audit B)
      in (B\<lparr>br_audit := log\<rparr>, audit_notes ns))"

definition str :: "string \<Rightarrow> text_points" where
  "str s = map char_code s"

definition onConfirmed :: "nat \<Rightarrow> bool \<Rightarrow> broker \<Rightarrow> broker_result" where
  "onConfirmed i approved B =
     (case task i (br_tasks B) of
        Some (Confirming reg extId args entry) \<Rightarrow>
          if approved then run_handler i extId (rg_method reg) args (Some entry) B
          else
            let (B, fs) = audit_outcome entry Cancelled (str ''declined'') B; (B, gs) = br_settle i (Inl (Denied Declined)) B
            in (B, fs @ gs)
      | _ \<Rightarrow> (B, []))"

text \<open>The confirmation dialog failed: nothing catches that, so the entry stays as it is.\<close>

definition onConfirmFailed :: "nat \<Rightarrow> broker \<Rightarrow> broker_result" where
  "onConfirmFailed i B =
     (case task i (br_tasks B) of
        Some (Confirming reg extId args entry) \<Rightarrow> br_settle i (Inl ConfirmError) B
      | _ \<Rightarrow> (B, []))"

definition onHandled :: "nat \<Rightarrow> text_points + js_val \<Rightarrow> broker \<Rightarrow> broker_result" where
  "onHandled i res B =
     (case task i (br_tasks B) of
        Some (Running extId entry) \<Rightarrow>
          let (B, fs) = (case entry of
                None \<Rightarrow> (B, [])
              | Some e \<Rightarrow> (case res of Inr v \<Rightarrow> audit_outcome e AuditOk (str ''ok'') B | Inl msg \<Rightarrow> audit_outcome e AuditError msg B));
              (B, gs) = br_settle i (case res of Inr v \<Rightarrow> Inr (Result v) | Inl msg \<Rightarrow> Inl (HandlerError msg)) B
          in (B, fs @ gs)
      | _ \<Rightarrow> (B, []))"

text \<open>A write of the store: the call waits for it.\<close>

definition store_write :: "nat \<Rightarrow> string \<Rightarrow> string list \<Rightarrow> broker \<Rightarrow> broker_result" where
  "store_write i extId s B =
     (B\<lparr>br_grants := gs_persist extId s (br_grants B), br_tasks := goto i StoreWrite (br_tasks B)\<rparr>, [])"

definition store_continue :: "nat \<Rightarrow> string \<Rightarrow> store_call \<Rightarrow> string list \<Rightarrow> broker \<Rightarrow> broker_result" where
  "store_continue i extId c s B =
     (case c of
        SList \<Rightarrow> br_settle i (Inr (Perms s)) B
      | SIsGranted p \<Rightarrow> br_settle i (Inr (IsGranted (p \<in> set s))) B
      | SGrant ps \<Rightarrow> store_write i extId (fold set_add ps s) B
      | SRevoke ps \<Rightarrow> store_write i extId (filter (\<lambda>p. p \<notin> set ps) s) B
      | SCapabilities \<Rightarrow> br_settle i (Inr (Perms (capabilitiesFor s B))) B)"

definition broker_continue :: "(string \<Rightarrow> egress_target option) \<Rightarrow> int \<Rightarrow> nat \<Rightarrow> broker \<Rightarrow> broker_result" where
  "broker_continue url now i B =
     (case task i (br_tasks B) of
        Some (Checking extId reg args l) \<Rightarrow>
          check_call url now i extId reg args (ensure_value l) (B\<lparr>br_grants := ensure_done extId l (br_grants B)\<rparr>)
      | Some (StoreRead extId c l) \<Rightarrow>
          store_continue i extId c (ensure_value l) (B\<lparr>br_grants := ensure_done extId l (br_grants B)\<rparr>)
      | Some StoreWrite \<Rightarrow> br_settle i (Inr StoreDone) B
      | _ \<Rightarrow> (B, []))"

definition store_read :: "string \<Rightarrow> store_call \<Rightarrow> broker \<Rightarrow> broker" where
  "store_read extId c B =
     B\<lparr>br_tasks := spawn (StoreRead extId c (ensure_start extId (br_grants B))) (br_tasks B)\<rparr>"

text \<open>\<open>set\<close> and \<open>clear\<close> write at once.\<close>

definition store_set :: "string \<Rightarrow> string list \<Rightarrow> broker \<Rightarrow> broker" where
  "store_set extId ps B =
     B\<lparr>br_grants := gs_persist extId (js_set ps) (br_grants B), br_tasks := spawn StoreWrite (br_tasks B)\<rparr>"

definition store_clear :: "string \<Rightarrow> broker \<Rightarrow> broker" where
  "store_clear extId B =
     B\<lparr>br_grants := gs_clear extId (br_grants B), br_tasks := spawn StoreWrite (br_tasks B)\<rparr>"

text \<open>\<open>BAppend\<close> and \<open>BClearLog\<close> are other users of the audit log.\<close>

datatype broker_event =
    BRegister string "string option" bool "audit_kind option" "text_points option"
  | BUnregister string nat
  | BInvoke string string "js_val list"
  | BStore string store_call
  | BSet string "string list"
  | BClear string
  | BContinue int nat
  | BConfirmed nat bool
  | BConfirmFailed nat
  | BReturned nat js_val
  | BThrew nat text_points
  | BAppend int audit_input
  | BClearLog

definition broker_step :: "(string \<Rightarrow> egress_target option) \<Rightarrow> broker \<Rightarrow> broker_event \<Rightarrow> broker_result" where
  "broker_step url B e =
     (case e of
        BRegister method required net kind summary \<Rightarrow> (registerApi method required net kind summary B, [])
      | BUnregister method token \<Rightarrow> (unregisterApi method token B, [])
      | BInvoke extId method args \<Rightarrow> invoke extId method args B
      | BStore extId c \<Rightarrow> (store_read extId c B, [])
      | BSet extId ps \<Rightarrow> (store_set extId ps B, [])
      | BClear extId \<Rightarrow> (store_clear extId B, [])
      | BContinue now i \<Rightarrow> broker_continue url now i B
      | BConfirmed i approved \<Rightarrow> onConfirmed i approved B
      | BConfirmFailed i \<Rightarrow> onConfirmFailed i B
      | BReturned i v \<Rightarrow> onHandled i (Inr v) B
      | BThrew i msg \<Rightarrow> onHandled i (Inl msg) B
      | BAppend now input \<Rightarrow> (let (log, entry, ns) = audit_append now input (br_audit B) in (B\<lparr>br_audit := log\<rparr>, audit_notes ns))
      | BClearLog \<Rightarrow> (let (log, ns) = audit_clear (br_audit B) in (B\<lparr>br_audit := log\<rparr>, audit_notes ns)))"

end
