(* ===== verification/Broker_Properties.thy ===== *)
theory Broker_Properties
  imports Permission_Broker
begin

text \<open>
  What the permission broker guarantees: no handler runs without the permission and, for actions that
  affect the vehicle, the operator's approval; audited calls record their outcome; every promise settles once;
  and the interleavings in which a permission that was taken away comes back.
\<close>

section \<open>Promises\<close>

definition broker_ok :: "broker \<Rightarrow> bool" where
  "broker_ok B = tasks_ok (br_tasks B)"

definition broker_open :: "broker \<Rightarrow> nat list" where
  "broker_open B = task_ids (br_tasks B)"

definition broker_next :: "broker \<Rightarrow> nat" where
  "broker_next B = tk_next (br_tasks B)"

definition broker_settles :: "broker_effect \<Rightarrow> nat option" where
  "broker_settles f = (case f of BSettle i out \<Rightarrow> Some i | _ \<Rightarrow> None)"

text \<open>What a step may do to the table: nothing, one new call (settled at once or open), move one, or end one.\<close>

definition books :: "broker \<Rightarrow> broker_result \<Rightarrow> bool" where
  "books B r =
     (let s = List.map_filter broker_settles (snd r); T = br_tasks B; T' = br_tasks (fst r) in
      tasks_ok T' \<and> tk_next T \<le> tk_next T' \<and>
      mset s + mset (task_ids T') = mset (task_ids T) + mset [tk_next T..<tk_next T'])"

lemma settles_simps [simp]:
  "broker_settles (BSettle i out) = Some i" "broker_settles (RunHandler i x m as) = None" "broker_settles (AskOperator i s) = None"
  "broker_settles (RecordEgress a b c) = None" "broker_settles (AuditNote l es) = None"
  "List.map_filter broker_settles (audit_notes ns) = []"
proof -
  show "List.map_filter broker_settles (audit_notes ns) = []"
    by (induction ns) (auto simp: audit_notes_def broker_settles_def)
qed (simp_all add: broker_settles_def)

lemma books_same: "tasks_ok (br_tasks B) \<Longrightarrow> br_tasks (fst r) = br_tasks B \<Longrightarrow> List.map_filter broker_settles (snd r) = [] \<Longrightarrow> books B r"
  by (simp add: books_def)

lemma books_goto: "tasks_ok (br_tasks B) \<Longrightarrow> br_tasks (fst r) = goto i a (br_tasks B) \<Longrightarrow> List.map_filter broker_settles (snd r) = [] \<Longrightarrow> books B r"
  by (simp add: books_def)

lemma books_spawn: "tasks_ok (br_tasks B) \<Longrightarrow> br_tasks (fst r) = spawn a (br_tasks B) \<Longrightarrow> List.map_filter broker_settles (snd r) = [] \<Longrightarrow> books B r"
  by (simp add: books_def)

lemma books_finish: "tasks_ok (br_tasks B) \<Longrightarrow> task i (br_tasks B) = Some a \<Longrightarrow> br_tasks (fst r) = finish i (br_tasks B) \<Longrightarrow>
    List.map_filter broker_settles (snd r) = [i] \<Longrightarrow> books B r"
  using finish_ledger [of "br_tasks B" i a] by (simp add: books_def)

lemma check_books:
  assumes "tasks_ok (br_tasks B)" "task i (br_tasks B) = Some a" "br_tasks B1 = br_tasks B"
  shows "books B (check_call url now i extId reg args g B1)"
proof -
  have settle: "books B (br_settle i out B1)" for out by (rule books_finish [OF assms(1,2)]) (simp_all add: br_settle_def assms(3))
  have run: "books B (fst (run_handler i x m as e B1), fs @ snd (run_handler i x m as e B1))" if "List.map_filter broker_settles fs = []" for x m as e fs
    using that by (intro books_goto [OF assms(1)]) (simp_all add: run_handler_def assms(3))
  have run': "books B (run_handler i x m as e B1)" for x m as e
    using run [of "[]"] by simp
  have egress: "books B (fst (run_handler i x m as e B1), RecordEgress p q r # snd (run_handler i x m as e B1))" for x m as e p q r
    using run [of "[RecordEgress p q r]"] by simp
  have audited: "books B (invokeAudited now i reg p extId args B1)" for p
  proof -
    have "\<exists>a. br_tasks (fst (invokeAudited now i reg p extId args B1)) = goto i a (br_tasks B1)"
      and s: "List.map_filter broker_settles (snd (invokeAudited now i reg p extId args B1)) = []"
      by (auto simp: invokeAudited_def Let_def split_beta)
    then obtain a where "br_tasks (fst (invokeAudited now i reg p extId args B1)) = goto i a (br_tasks B)" using assms(3) by auto
    then show ?thesis using s by (rule books_goto [OF assms(1)])
  qed
  show ?thesis using settle run' egress audited by (auto simp: check_call_def Let_def split_beta split: option.split)
qed

lemma outcome_tasks [simp]: "br_tasks (fst (audit_outcome e st res B)) = br_tasks B" "List.map_filter broker_settles (snd (audit_outcome e st res B)) = []"
  by (auto simp: audit_outcome_def Let_def split_beta)

lemma broker_step_books:
  assumes "broker_ok B"
  shows "books B (broker_step url B e)"
proof -
  have T: "tasks_ok (br_tasks B)" using assms by (simp add: broker_ok_def)
  have same: "books B (B, [])" by (rule books_same [OF T]) simp_all
  show ?thesis
  proof (cases e)
    case (BInvoke x m as)
    then show ?thesis
      using T books_spawn [OF T]
      by (cases "map_of (br_apis B) m") (auto simp: broker_step_def invoke_def books_def [of B "(x, y)" for x y])
  next
    case (BContinue now i)
    have settle: "books B (br_settle i out B1)" if "task i (br_tasks B) = Some a" "br_tasks B1 = br_tasks B" for out B1 a
      by (rule books_finish [OF T that(1)]) (simp_all add: br_settle_def that)
    have store: "books B (store_continue i x c s B1)" if "task i (br_tasks B) = Some a" "br_tasks B1 = br_tasks B" for x c s B1 a
      using settle [OF that] that T by (auto simp: store_continue_def store_write_def intro!: books_goto split: store_call.split)
    show ?thesis
      using same settle store check_books [OF T]
      by (auto simp: BContinue broker_step_def broker_continue_def split: option.split broker_task.split)
  next
    case (BConfirmed i approved)
    have "books B (fst (br_settle i out (fst (audit_outcome en st res B))), snd (audit_outcome en st res B) @ snd (br_settle i out (fst (audit_outcome en st res B))))"
      if "task i (br_tasks B) = Some a" for out a en st res
      by (rule books_finish [OF T that]) (simp_all add: br_settle_def)
    moreover have "books B (run_handler i x m as en B)" for x m as en
      by (rule books_goto [OF T]) (simp_all add: run_handler_def)
    ultimately show ?thesis
      using same by (auto simp: BConfirmed broker_step_def onConfirmed_def Let_def split_beta split: option.split broker_task.split)
  next
    case (BConfirmFailed i)
    have "books B (br_settle i out B)" if "task i (br_tasks B) = Some a" for out a
      by (rule books_finish [OF T that]) (simp_all add: br_settle_def)
    then show ?thesis using same by (auto simp: BConfirmFailed broker_step_def onConfirmFailed_def split: option.split broker_task.split)
  next
    case (BReturned i v)
    have "books B (onHandled i (Inr v) B)"
    proof (cases "\<exists>x en. task i (br_tasks B) = Some (Running x en)")
      case True
      then obtain x en where "task i (br_tasks B) = Some (Running x en)" by blast
      then show ?thesis
        by (intro books_finish [OF T]) (auto simp: onHandled_def br_settle_def Let_def split_beta split: option.split)
    qed (use same in \<open>auto simp: onHandled_def split: option.split broker_task.split\<close>)
    then show ?thesis by (simp add: BReturned broker_step_def)
  next
    case (BThrew i v)
    have "books B (onHandled i (Inl v) B)"
    proof (cases "\<exists>x en. task i (br_tasks B) = Some (Running x en)")
      case True
      then obtain x en where "task i (br_tasks B) = Some (Running x en)" by blast
      then show ?thesis
        by (intro books_finish [OF T]) (auto simp: onHandled_def br_settle_def Let_def split_beta split: option.split)
    qed (use same in \<open>auto simp: onHandled_def split: option.split broker_task.split\<close>)
    then show ?thesis by (simp add: BThrew broker_step_def)
  qed (use T in \<open>auto simp: books_def broker_step_def registerApi_def unregisterApi_def store_read_def store_set_def store_clear_def
      Let_def split: option.split prod.split\<close>)
qed

interpretation calls: promise_ledger "broker_step url" broker_ok broker_open broker_next broker_settles for url
  by unfold_locales (use broker_step_books in \<open>auto simp: books_def broker_ok_def broker_open_def broker_next_def Let_def\<close>)

section \<open>Mediation\<close>

text \<open>What a registration asks for, in the words of \<open>broker.ts\<close>.\<close>

definition permits :: "(string \<Rightarrow> egress_target option) \<Rightarrow> registration \<Rightarrow> js_val list \<Rightarrow> string list \<Rightarrow> bool" where
  "permits url reg args granted =
     (if rg_net reg then \<exists>t. resolveEgressTarget url args = Some t \<and> isHostGranted granted t
      else \<forall>p. rg_required reg = Some p \<longrightarrow> p \<in> set granted)"

definition needs_operator :: "registration \<Rightarrow> bool" where
  "needs_operator reg = (\<not> rg_net reg \<and> (\<exists>p. rg_required reg = Some p \<and> isVehicleAffectingPermission p))"

text \<open>
  The call with the number \<open>i\<close>: the extension, the method's registration at that time, the arguments, and the
  permissions that the extension held when it made the call.
\<close>

fun broker_call ::
  "(string \<Rightarrow> egress_target option) \<Rightarrow> broker \<Rightarrow> broker_event list \<Rightarrow> nat \<Rightarrow> (string \<times> registration \<times> js_val list \<times> string list) option" where
  "broker_call url B [] i = None"
| "broker_call url B (e # es) i =
     (case e of
        BInvoke extId method args \<Rightarrow>
          if broker_next B = i
          then map_option (\<lambda>reg. (extId, reg, args, effective_grants extId (br_grants B))) (map_of (br_apis B) method)
          else broker_call url (fst (broker_step url B e)) es i
      | _ \<Rightarrow> broker_call url (fst (broker_step url B e)) es i)"

type_synonym call_info = "nat \<Rightarrow> (string \<times> registration \<times> js_val list \<times> string list) option"

definition mediated_task :: "(string \<Rightarrow> egress_target option) \<Rightarrow> call_info \<Rightarrow> nat \<Rightarrow> broker_task \<Rightarrow> bool" where
  "mediated_task url A i t =
     (case t of
        Checking extId reg args l \<Rightarrow> A i = Some (extId, reg, args, ensure_value l)
      | Confirming reg extId args entry \<Rightarrow> \<exists>g. A i = Some (extId, reg, args, g) \<and> permits url reg args g
      | _ \<Rightarrow> True)"

definition mediated_run :: "(string \<Rightarrow> egress_target option) \<Rightarrow> call_info \<Rightarrow> broker_event set \<Rightarrow> broker_effect list \<Rightarrow> bool" where
  "mediated_run url A E fs =
     (\<forall>i extId method args. RunHandler i extId method args \<in> set fs \<longrightarrow>
        (\<exists>reg g. A i = Some (extId, reg, args, g) \<and> rg_method reg = method \<and> permits url reg args g \<and>
           (needs_operator reg \<longrightarrow> BConfirmed i True \<in> E)))"

lemma mediated_run_simps [simp]:
  "mediated_run url A E []" "mediated_run url A E (fs @ gs) = (mediated_run url A E fs \<and> mediated_run url A E gs)"
  "mediated_run url A E (audit_notes ns)" "mediated_run url A E [BSettle i out]" "mediated_run url A E [AskOperator i s]"
  "mediated_run url A E (RecordEgress x y z # fs) = mediated_run url A E fs"
  by (auto simp: mediated_run_def audit_notes_def)

lemma settle_effects [simp]: "snd (br_settle i out B) = [BSettle i out]" "br_tasks (fst (br_settle i out B)) = finish i (br_tasks B)"
  by (simp_all add: br_settle_def)

lemma run_effects: "snd (run_handler i x m as en B) = [RunHandler i x m as]" "br_tasks (fst (run_handler i x m as en B)) = goto i (Running x en) (br_tasks B)"
  by (simp_all add: run_handler_def)

lemma outcome_effects [simp]: "mediated_run url A E (snd (audit_outcome e st res B))"
  by (auto simp: audit_outcome_def Let_def split_beta)

lemma mediated_simps [simp]:
  "mediated_task url A i (Running x en)" "mediated_task url A i StoreWrite" "mediated_task url A i (StoreRead x c l)"
  by (simp_all add: mediated_task_def)

lemma check_mediated:
  assumes A: "A i = Some (extId, reg, args, g)" and T: "tasks_all (mediated_task url A) (br_tasks B)"
  shows "tasks_all (mediated_task url A) (br_tasks (fst (check_call url now i extId reg args g B))) \<and>
    mediated_run url A E (snd (check_call url now i extId reg args g B))"
proof -
  have run: "mediated_run url A E [RunHandler i extId (rg_method reg) args]" if "permits url reg args g" "\<not> needs_operator reg"
    using A that by (simp add: mediated_run_def)
  have audited: "tasks_all (mediated_task url A) (br_tasks (fst (invokeAudited now i reg p extId args B))) \<and>
      mediated_run url A E (snd (invokeAudited now i reg p extId args B))" if "permits url reg args g" for p
    using A that T by (auto simp: invokeAudited_def Let_def split_beta mediated_task_def intro!: tasks_all_goto)
  have fin: "tasks_all (mediated_task url A) (finish i (br_tasks B))" using T by (rule tasks_all_finish)
  have go: "tasks_all (mediated_task url A) (goto i (Running extId None) (br_tasks B))" using T by (rule tasks_all_goto) simp
  show ?thesis
  proof (cases "rg_net reg")
    case True
    then show ?thesis
      using fin go run by (auto simp: check_call_def permits_def needs_operator_def Let_def split_beta run_effects split: option.split)
  next
    case net: False
    show ?thesis
    proof (cases "rg_required reg")
      case None
      then show ?thesis using net go run by (simp add: check_call_def permits_def needs_operator_def run_effects)
    next
      case (Some p)
      then show ?thesis
        using net go fin run audited [of p] by (auto simp: check_call_def permits_def needs_operator_def run_effects)
    qed
  qed
qed

lemma store_mediated:
  assumes "tasks_all (mediated_task url A) (br_tasks B)"
  shows "tasks_all (mediated_task url A) (br_tasks (fst (store_continue i x c s B))) \<and> mediated_run url A E (snd (store_continue i x c s B))"
  using assms by (auto simp: store_continue_def store_write_def intro: tasks_all_finish tasks_all_goto split: store_call.split)

lemma step_mediated:
  assumes T: "tasks_all (mediated_task url A) (br_tasks B)" and e: "e \<in> E"
    and call: "\<And>x m as reg. e = BInvoke x m as \<Longrightarrow> map_of (br_apis B) m = Some reg \<Longrightarrow>
      A (broker_next B) = Some (x, reg, as, effective_grants x (br_grants B))"
  shows "tasks_all (mediated_task url A) (br_tasks (fst (broker_step url B e))) \<and> mediated_run url A E (snd (broker_step url B e))"
proof (cases e)
  case (BInvoke x m as)
  then show ?thesis
    using T call by (auto simp: broker_step_def invoke_def mediated_task_def broker_next_def effective_grants_def split: option.split)
next
  case (BContinue now i)
  have c: "tasks_all (mediated_task url A) (br_tasks (B\<lparr>br_grants := G\<rparr>))" for G using T by simp
  show ?thesis
    using T check_mediated [OF _ c] store_mediated [OF c] tasks_allD [OF T, of i]
    by (auto simp: BContinue broker_step_def broker_continue_def mediated_task_def intro: tasks_all_finish split: option.split broker_task.split)
next
  case (BConfirmed i approved)
  have "mediated_run url A E [RunHandler i x (rg_method reg) as]" if "task i (br_tasks B) = Some (Confirming reg x as en)" approved for reg x as en
    using tasks_allD [OF T that(1)] e BConfirmed that(2) by (auto simp: mediated_run_def mediated_task_def)
  then show ?thesis
    using T by (auto simp: BConfirmed broker_step_def onConfirmed_def run_effects Let_def split_beta
        intro: tasks_all_finish tasks_all_goto split: option.split broker_task.split)
next
  case (BConfirmFailed i)
  then show ?thesis using T by (auto simp: broker_step_def onConfirmFailed_def intro: tasks_all_finish split: option.split broker_task.split)
next
  case (BReturned i v)
  then show ?thesis
    using T by (auto simp: broker_step_def onHandled_def Let_def split_beta intro: tasks_all_finish split: option.split broker_task.split)
next
  case (BThrew i v)
  then show ?thesis
    using T by (auto simp: broker_step_def onHandled_def Let_def split_beta intro: tasks_all_finish split: option.split broker_task.split)
qed (use T in \<open>auto simp: broker_step_def registerApi_def unregisterApi_def store_read_def store_set_def store_clear_def Let_def
    split: option.split prod.split\<close>)

lemma call_before: "broker_ok B \<Longrightarrow> broker_call url B es i = Some c \<Longrightarrow> broker_next B \<le> i"
proof (induction es arbitrary: B)
  case (Cons e es)
  have "broker_next B \<le> broker_next (fst (broker_step url B e))" "broker_ok (fst (broker_step url B e))"
    using calls.next_step [OF Cons.prems(1)] calls.inv_step [OF Cons.prems(1)] by simp_all
  then show ?case using Cons by (fastforce split: broker_event.splits if_splits)
qed simp

lemma call_next:
  assumes "broker_ok B" "broker_call url (fst (broker_step url B e)) es i = Some c"
  shows "broker_call url B (e # es) i = Some c"
proof -
  have "broker_next (fst (broker_step url B e)) = broker_next B + 1" if "e = BInvoke x m as" for x m as
    using that by (auto simp: broker_step_def invoke_def broker_next_def split: option.split)
  moreover have "broker_next (fst (broker_step url B e)) \<le> i"
    using call_before [OF calls.inv_step [OF assms(1)] assms(2)] .
  ultimately show ?thesis using assms(2) by (auto split: broker_event.split)
qed

lemma run_mediated:
  assumes "broker_ok B" "tasks_all (mediated_task url A) (br_tasks B)" "set es \<subseteq> E"
    and "\<And>i c. broker_call url B es i = Some c \<Longrightarrow> A i = Some c"
  shows "mediated_run url A E (snd (run_steps (broker_step url) B es))"
  using assms
proof (induction es arbitrary: B)
  case (Cons e es)
  have call: "A (broker_next B) = Some (x, reg, as, effective_grants x (br_grants B))"
    if "e = BInvoke x m as" "map_of (br_apis B) m = Some reg" for x m as reg
    using Cons.prems(4) [of "broker_next B"] that by simp
  have 1: "tasks_all (mediated_task url A) (br_tasks (fst (broker_step url B e))) \<and> mediated_run url A E (snd (broker_step url B e))"
    using Cons.prems(2,3) call by (intro step_mediated) auto
  have "A i = Some c" if "broker_call url (fst (broker_step url B e)) es i = Some c" for i c
    using Cons.prems(4) call_next [OF Cons.prems(1) that] by blast
  then have "mediated_run url A E (snd (run_steps (broker_step url) (fst (broker_step url B e)) es))"
    using Cons.IH [of "fst (broker_step url B e)"] 1 Cons.prems calls.inv_step by auto
  then show ?case using 1 by (simp add: Let_def split_beta)
qed simp

lemma broker_ok_create [simp]: "broker_ok (createBroker stored lg)" "broker_open (createBroker stored lg) = []"
  "broker_next (createBroker stored lg) = 0"
  by (simp_all add: broker_ok_def createBroker_def broker_open_def broker_next_def)

section \<open>Audit\<close>

definition task_entry :: "broker_task \<Rightarrow> (string \<times> nat) option" where
  "task_entry t = (case t of Confirming reg extId args e \<Rightarrow> Some (extId, e) | Running extId (Some e) \<Rightarrow> Some (extId, e) | _ \<Rightarrow> None)"

text \<open>The entry of a call, as long as the log keeps it.\<close>

definition awaits_entry :: "audit_log \<Rightarrow> string \<Rightarrow> nat \<Rightarrow> bool" where
  "awaits_entry L extId e =
     (e \<le> al_counter L \<and> (\<forall>x\<in>set (al_entries L). ae_id x = e \<longrightarrow> ae_status x = Pending \<and> ae_origin x = extId))"

text \<open>The calls with an entry: number, extension, entry.\<close>

definition entry_slots :: "broker_task tasks \<Rightarrow> (nat \<times> string \<times> nat) set" where
  "entry_slots T = {(i, x, e). \<exists>t. (i, t) \<in> set (tk_live T) \<and> task_entry t = Some (x, e)}"

definition audited_slots :: "(nat \<times> string \<times> nat) set \<Rightarrow> audit_log \<Rightarrow> bool" where
  "audited_slots S L =
     (audit_ok L \<and> (\<forall>i x e. (i, x, e) \<in> S \<longrightarrow> awaits_entry L x e) \<and>
      (\<forall>i x j y e. (i, x, e) \<in> S \<longrightarrow> (j, y, e) \<in> S \<longrightarrow> i = j))"

lemma audited_slotsD:
  assumes "audited_slots S L"
  shows "audit_ok L" "(i, x, e) \<in> S \<Longrightarrow> awaits_entry L x e" "(i, x, e) \<in> S \<Longrightarrow> (j, y, e) \<in> S \<Longrightarrow> i = j"
  using assms unfolding audited_slots_def by metis+

definition audited :: "broker \<Rightarrow> bool" where
  "audited B = audited_slots (entry_slots (br_tasks B)) (br_audit B)"

lemma task_entry_simps [simp]:
  "task_entry (Checking x reg as l) = None" "task_entry (Confirming reg x as e) = Some (x, e)" "task_entry (Running x None) = None"
  "task_entry (Running x (Some e)) = Some (x, e)" "task_entry (StoreRead x c l) = None" "task_entry StoreWrite = None"
  by (simp_all add: task_entry_def)

lemma slots_spawn [simp]: "task_entry t = None \<Longrightarrow> entry_slots (spawn t T) = entry_slots T"
  by (auto simp: entry_slots_def spawn_def)

lemma slots_skip [simp]: "entry_slots (skip_number T) = entry_slots T"
  by (simp add: entry_slots_def skip_number_def)

lemma slots_finish: "entry_slots (finish i T) = {p \<in> entry_slots T. fst p \<noteq> i}"
  by (auto simp: entry_slots_def finish_def)

lemma slots_goto: "entry_slots (goto i t T) \<subseteq> {p \<in> entry_slots T. fst p \<noteq> i} \<union> {(i, x, e) | x e. task_entry t = Some (x, e)}"
  by (fastforce simp: entry_slots_def goto_def split: if_splits)

lemma slot_of: "task i T = Some t \<Longrightarrow> task_entry t = Some (x, e) \<Longrightarrow> (i, x, e) \<in> entry_slots T"
  by (auto simp: entry_slots_def task_def dest: map_of_SomeD)

lemma audited_subset: "audited_slots S L \<Longrightarrow> S' \<subseteq> S \<Longrightarrow> audited_slots S' L"
  unfolding audited_slots_def by blast

lemma awaits_append: "awaits_entry L x e \<Longrightarrow> awaits_entry (fst (audit_append now input L)) x e"
  unfolding audit_append_def Let_def fst_conv awaits_entry_def by (auto simp: freezeEntry_def dest!: in_set_dropD)

lemma audited_append: "audited_slots S L \<Longrightarrow> audited_slots S (fst (audit_append now input L))"
  by (auto simp: audited_slots_def awaits_append)

lemma append_entry:
  assumes "audit_append now input L = (L', created, ns)"
  shows "ae_id created = al_counter L + 1" "al_counter L' = al_counter L + 1"
    "\<And>x. x \<in> set (al_entries L') \<Longrightarrow> x = created \<or> x \<in> set (al_entries L)"
    "ae_status created = (case ai_status input of Some s \<Rightarrow> s | None \<Rightarrow> Pending)" "ae_origin created = (case ai_origin input of Some s \<Rightarrow> s | None \<Rightarrow> ''ui'')"
  using assms unfolding audit_append_def Let_def by (auto simp: freezeEntry_def dest!: in_set_dropD)

lemma audited_new:
  assumes S: "audited_slots S L" and a: "audit_append now input L = (L', created, ns)"
    and input: "ai_status input = Some Pending" "ai_origin input = Some x"
  shows "audited_slots (insert (i, x, ae_id created) {p \<in> S. fst p \<noteq> i}) L'"
proof -
  note new = append_entry [OF a]
  have L': "audited_slots S L'" using audited_append [OF S, of now input] a by simp
  have old: "e \<noteq> ae_id created" if "(j, y, e) \<in> S" for j y e
  proof -
    have "e \<le> al_counter L" using S that by (auto simp: audited_slots_def awaits_entry_def)
    then show ?thesis using new(1) by simp
  qed
  have "ae_id z \<le> al_counter L" if "z \<in> set (al_entries L)" for z using S that by (simp add: audited_slots_def audit_ok_def)
  then have "z = created" if "z \<in> set (al_entries L')" "ae_id z = ae_id created" for z
    using new(1,3) that by fastforce
  then have aw: "awaits_entry L' x (ae_id created)" using new input by (auto simp: awaits_entry_def)
  show ?thesis
    unfolding audited_slots_def
  proof (intro conjI allI impI)
    show "audit_ok L'" using L' by (simp add: audited_slots_def)
    show "awaits_entry L' y e" if "(j, y, e) \<in> insert (i, x, ae_id created) {p \<in> S. fst p \<noteq> i}" for j y e
      using that aw L' by (auto simp: audited_slots_def)
    show "j = k" if "(j, y, e) \<in> insert (i, x, ae_id created) {p \<in> S. fst p \<noteq> i}"
        "(k, z, e) \<in> insert (i, x, ae_id created) {p \<in> S. fst p \<noteq> i}" for j y k z e
      using that old L' by (auto simp: audited_slots_def)
  qed
qed

lemma awaits_update: "awaits_entry L x e \<Longrightarrow> e \<noteq> e' \<Longrightarrow> awaits_entry (fst (audit_update e' p L)) x e"
  by (auto simp: audit_update_def awaits_entry_def Let_def split: option.split dest: patch_first_set)

lemma audited_update:
  assumes "audited_slots S L" "(i, x, e) \<in> S"
  shows "audited_slots {p \<in> S. fst p \<noteq> i} (fst (audit_update e p L))"
  unfolding audited_slots_def
proof (intro conjI allI impI)
  show "audit_ok (fst (audit_update e p L))" using audited_slotsD(1) [OF assms(1)] by simp
  fix j y k z e'
  assume j: "(j, y, e') \<in> {p \<in> S. fst p \<noteq> i}"
  then have S: "(j, y, e') \<in> S" "j \<noteq> i" by simp_all
  then have "e' \<noteq> e" using audited_slotsD(3) [OF assms(1) S(1)] assms(2) by blast
  then show "awaits_entry (fst (audit_update e p L)) y e'"
    using audited_slotsD(2) [OF assms(1) S(1)] by (rule awaits_update [rotated])
  assume "(k, z, e') \<in> {p \<in> S. fst p \<noteq> i}"
  then have "(k, z, e') \<in> S" by simp
  with S(1) show "j = k" by (rule audited_slotsD(3) [OF assms(1)])
qed

lemma audited_clear: "audited_slots S L \<Longrightarrow> audited_slots S (fst (audit_clear L))"
  by (auto simp: audited_slots_def audit_clear_def Let_def awaits_entry_def audit_ok_def)

lemma invoke_audited:
  assumes "audited B"
  shows "audited (fst (invokeAudited now i reg p x args B))"
proof -
  define input where "input = \<lparr>ai_kind = (case rg_auditKind reg of Some k \<Rightarrow> k
        | None \<Rightarrow> (case auditKindForPermission p of Some k \<Rightarrow> k | None \<Rightarrow> KindCommand)),
      ai_summary = (case rg_summary reg of Some s \<Rightarrow> s | None \<Rightarrow> default_summary x (rg_method reg)), ai_origin = Some x,
      ai_status = Some Pending, ai_params = None, ai_result = None, ai_tMs = None, ai_tEndMs = None\<rparr>"
  obtain L' created ns where a: "audit_append now input (br_audit B) = (L', created, ns)" by (metis prod_cases3)
  have "fst (invokeAudited now i reg p x args B) = B\<lparr>br_audit := L', br_tasks := goto i (Confirming reg x args (ae_id created)) (br_tasks B)\<rparr>"
    using a by (simp add: invokeAudited_def Let_def input_def)
  moreover have "audited_slots (entry_slots (goto i (Confirming reg x args (ae_id created)) (br_tasks B))) L'"
  proof (rule audited_subset)
    show "audited_slots (insert (i, x, ae_id created) {p \<in> entry_slots (br_tasks B). fst p \<noteq> i}) L'"
      by (rule audited_new [OF assms [unfolded audited_def] a]) (simp_all add: input_def)
    show "entry_slots (goto i (Confirming reg x args (ae_id created)) (br_tasks B))
        \<subseteq> insert (i, x, ae_id created) {p \<in> entry_slots (br_tasks B). fst p \<noteq> i}"
      using slots_goto [of i "Confirming reg x args (ae_id created)" "br_tasks B"] by auto
  qed
  ultimately show ?thesis by (simp add: audited_def)
qed

lemma audited_finish: "audited B \<Longrightarrow> br_audit B' = br_audit B \<Longrightarrow> br_tasks B' = finish i (br_tasks B) \<Longrightarrow> audited B'"
  unfolding audited_def by (auto simp: slots_finish intro: audited_subset)

lemma audited_plain: "audited B \<Longrightarrow> br_audit B' = br_audit B \<Longrightarrow> br_tasks B' = goto i t (br_tasks B) \<Longrightarrow> task_entry t = None \<Longrightarrow> audited B'"
  unfolding audited_def using slots_goto [of i t "br_tasks B"] by (auto intro: audited_subset)

lemma check_audited: "audited B \<Longrightarrow> audited (fst (check_call url now i x reg args g B))"
  using invoke_audited [of B]
  by (auto simp: check_call_def br_settle_def run_handler_def Let_def intro: audited_finish [where B = B] audited_plain [where B = B and t = "Running x None"]
      split: option.split)

lemma store_audited: "audited B \<Longrightarrow> audited (fst (store_continue i x c s B))"
  by (auto simp: store_continue_def br_settle_def store_write_def intro: audited_finish [where B = B] audited_plain [where B = B and t = StoreWrite]
      split: store_call.split)

lemma outcome_audited:
  assumes "audited B" "task i (br_tasks B) = Some t" "task_entry t = Some (x, e)"
  shows "audited (fst (br_settle i out (fst (audit_outcome e st res B))))"
proof -
  have "br_audit (fst (br_settle i out (fst (audit_outcome e st res B))))
      = fst (audit_update e \<lparr>ap_status = Some st, ap_result = Some res, ap_summary = None, ap_tEndMs = None\<rparr> (br_audit B))"
    by (simp add: br_settle_def audit_outcome_def Let_def split_beta)
  then show ?thesis
    using audited_update [OF assms(1) [unfolded audited_def] slot_of [OF assms(2,3)]] by (simp add: audited_def slots_finish)
qed

lemma step_audited:
  assumes B: "audited B"
  shows "audited (fst (broker_step url B e))"
proof (cases e)
  case (BInvoke x m as)
  then show ?thesis using B by (auto simp: broker_step_def invoke_def audited_def split: option.split)
next
  case (BContinue now i)
  have G: "audited (B\<lparr>br_grants := G\<rparr>)" for G using B by (simp add: audited_def)
  show ?thesis
    using B G check_audited store_audited
    by (auto simp: BContinue broker_step_def broker_continue_def br_settle_def intro: audited_finish [where B = B] split: option.split broker_task.split)
next
  case (BConfirmed i approved)
  have "audited (B\<lparr>br_tasks := goto i (Running x (Some en)) (br_tasks B)\<rparr>)"
    if "task i (br_tasks B) = Some (Confirming reg x as en)" for reg x as en
    using slot_of [OF that] slots_goto [of i "Running x (Some en)" "br_tasks B"] B
    by (auto simp: audited_def intro!: audited_subset [of "entry_slots (br_tasks B)"])
  then show ?thesis
    using B outcome_audited [OF B]
    by (auto simp: BConfirmed broker_step_def onConfirmed_def run_handler_def Let_def split_beta split: option.split broker_task.split)
next
  case (BConfirmFailed i)
  then show ?thesis using B by (auto simp: broker_step_def onConfirmFailed_def br_settle_def intro: audited_finish [where B = B] split: option.split broker_task.split)
next
  case (BReturned i v)
  have "audited (fst (br_settle i out B))" for out using B by (auto simp: br_settle_def intro: audited_finish [where B = B])
  then show ?thesis
    using B outcome_audited [OF B] by (auto simp: BReturned broker_step_def onHandled_def Let_def split_beta split: option.split broker_task.split)
next
  case (BThrew i v)
  have "audited (fst (br_settle i out B))" for out using B by (auto simp: br_settle_def intro: audited_finish [where B = B])
  then show ?thesis
    using B outcome_audited [OF B] by (auto simp: BThrew broker_step_def onHandled_def Let_def split_beta split: option.split broker_task.split)
next
  case (BAppend now input)
  then show ?thesis using B audited_append [of _ "br_audit B" now input] by (auto simp: broker_step_def audited_def Let_def split_beta)
next
  case BClearLog
  then show ?thesis using B audited_clear by (auto simp: broker_step_def audited_def Let_def split_beta)
qed (use B in \<open>auto simp: broker_step_def registerApi_def unregisterApi_def store_read_def store_set_def store_clear_def Let_def
    audited_def split: option.split\<close>)

lemma run_audited: "audited B \<Longrightarrow> audited (fst (run_steps (broker_step url) B es))"
  by (induction es arbitrary: B) (simp_all add: Let_def split_beta step_audited)

lemma update_entry:
  assumes "sorted_wrt (<) (map ae_id es)" "patch_first i p es = Some es'" "x \<in> set es'" "ae_id x = i"
  shows "\<exists>x0. x = patchEntry p x0"
  using assms
proof (induction es arbitrary: es')
  case (Cons y es)
  have bigger: "i < ae_id z" if "ae_id y = i" "z \<in> set es" for z using Cons.prems(1) that by auto
  show ?case using Cons bigger by (fastforce split: if_splits)
qed simp

lemma registered_under_name:
  "(\<forall>(m, reg)\<in>set (br_apis B). rg_method reg = m) \<and> distinct (map fst (br_apis B)) \<Longrightarrow>
   (\<forall>(m, reg)\<in>set (br_apis (fst (broker_step url B e))). rg_method reg = m) \<and> distinct (map fst (br_apis (fst (broker_step url B e))))"
proof -
  assume B: "(\<forall>(m, reg)\<in>set (br_apis B). rg_method reg = m) \<and> distinct (map fst (br_apis B))"
  have update: "\<forall>(m, reg)\<in>set (AList.update k r xs). rg_method reg = m" if "\<forall>(m, reg)\<in>set xs. rg_method reg = m" "rg_method r = k"
    for k r and xs :: "(string \<times> registration) list"
    using that by (induction xs) auto
  have delete: "\<forall>(m, reg)\<in>set (AList.delete k xs). rg_method reg = m" if "\<forall>(m, reg)\<in>set xs. rg_method reg = m"
    for k and xs :: "(string \<times> registration) list"
    using that by (auto simp: AList.delete_eq)
  have frame: "br_apis (fst (check_call url now i x reg as g B1)) = br_apis B1" "br_apis (fst (store_continue i x c s B1)) = br_apis B1"
    "br_apis (fst (audit_outcome en st res B1)) = br_apis B1" "br_apis (fst (br_settle i out B1)) = br_apis B1"
    for now i x reg as g B1 c s en st res out
    by (auto simp: check_call_def br_settle_def run_handler_def invokeAudited_def store_continue_def store_write_def audit_outcome_def Let_def split_beta
        split: option.split store_call.split)
  show ?thesis
  proof (cases e)
    case (BRegister m req net k s)
    define reg where "reg = \<lparr>rg_token = br_tokens B, rg_method = m, rg_required = req, rg_net = net, rg_auditKind = k, rg_summary = s\<rparr>"
    have "br_apis (fst (broker_step url B e)) = AList.update m reg (br_apis B)"
      by (simp add: BRegister broker_step_def registerApi_def Let_def reg_def)
    moreover have "rg_method reg = m" by (simp add: reg_def)
    ultimately show ?thesis using B update [of "br_apis B" reg m] by (simp add: distinct_update)
  next
    case (BUnregister m t)
    then show ?thesis using B by (auto simp: broker_step_def unregisterApi_def distinct_delete intro!: delete split: option.split)
  qed (use B frame in \<open>auto simp: broker_step_def invoke_def store_read_def store_set_def store_clear_def broker_continue_def onConfirmed_def
      onConfirmFailed_def onHandled_def run_handler_def Let_def split_beta split: option.split broker_task.split\<close>)
qed

section \<open>Properties\<close>

abbreviation broker_run :: "(string \<Rightarrow> egress_target option) \<Rightarrow> broker \<Rightarrow> broker_event list \<Rightarrow> broker_result" where
  "broker_run url \<equiv> run_steps (broker_step url)"

text \<open>
  C19. Complete mediation: whenever a handler runs for the call \<open>i\<close>, that call was made with this extension and
  these arguments to a method that was then registered; the extension held the permission the method asks
  for when it made the call (for network methods: one for the host of the URL); and if the permission is one that affects the
  vehicle, the operator approved this very call. This holds over any interleaving of calls, grants, revocations,
  registrations and answers.
\<close>

theorem broker_mediates:
  assumes "RunHandler i extId method args \<in> set (snd (broker_run url (createBroker stored lg) es))"
  shows "\<exists>reg granted. broker_call url (createBroker stored lg) es i = Some (extId, reg, args, granted) \<and>
    rg_method reg = method \<and> permits url reg args granted \<and> (needs_operator reg \<longrightarrow> BConfirmed i True \<in> set es)"
proof -
  have "mediated_run url (broker_call url (createBroker stored lg) es) (set es) (snd (broker_run url (createBroker stored lg) es))"
    by (rule run_mediated) (simp_all add: createBroker_def broker_ok_def)
  with assms show ?thesis by (fastforce simp: mediated_run_def)
qed

text \<open>
  C20. The audit log tells what happened: while the handler of an audited call runs, its entry, if the log still
  keeps it, is pending and names the extension; when the handler returns the entry becomes \<open>ok\<close>, when it throws the
  entry becomes an error with the message, in the same step that settles the call.
\<close>

theorem vehicle_actions_are_audited:
  assumes "B = fst (broker_run url (createBroker stored (createAuditLog n)) es)" "task i (br_tasks B) = Some (Running extId (Some e))"
  shows "(\<forall>x\<in>set (al_entries (br_audit B)). ae_id x = e \<longrightarrow> ae_status x = Pending \<and> ae_origin x = extId) \<and>
    (\<forall>v. BSettle i (Inr (Result v)) \<in> set (snd (broker_step url B (BReturned i v))) \<and>
       (\<forall>x\<in>set (al_entries (br_audit (fst (broker_step url B (BReturned i v))))). ae_id x = e \<longrightarrow> ae_status x = AuditOk)) \<and>
    (\<forall>msg. BSettle i (Inl (HandlerError msg)) \<in> set (snd (broker_step url B (BThrew i msg))) \<and>
       (\<forall>x\<in>set (al_entries (br_audit (fst (broker_step url B (BThrew i msg))))). ae_id x = e \<longrightarrow>
          ae_status x = AuditError \<and> ae_result x = Some msg))"
proof -
  have "audited (createBroker stored (createAuditLog n))"
    by (simp add: audited_def audited_slots_def createBroker_def entry_slots_def no_tasks_def)
  then have B: "audited B" unfolding assms(1) by (rule run_audited)
  have pending: "awaits_entry (br_audit B) extId e"
    using audited_slotsD(2) [OF B [unfolded audited_def] slot_of [OF assms(2)]] by simp
  have ids: "sorted_wrt (<) (map ae_id (al_entries (br_audit B)))"
    using audited_slotsD(1) [OF B [unfolded audited_def]] by (simp add: audit_ok_def)
  have updated: "ae_status x = st \<and> ae_result x = Some res"
    if "x \<in> set (al_entries (br_audit (fst (audit_outcome e st res B))))" "ae_id x = e" for x st res
  proof (cases "patch_first e \<lparr>ap_status = Some st, ap_result = Some res, ap_summary = None, ap_tEndMs = None\<rparr> (al_entries (br_audit B))")
    case None
    have "e \<notin> ae_id ` set es" if "patch_first e p es = None" for p es using that by (induction es) (auto split: if_splits)
    then show ?thesis using None that by (auto simp: audit_outcome_def audit_update_def)
  next
    case (Some es')
    then show ?thesis using update_entry [OF ids Some _ that(2)] that(1) by (auto simp: audit_outcome_def audit_update_def Let_def patchEntry_def)
  qed
  have audit: "br_audit (fst (br_settle i out B1)) = br_audit B1" for out B1 by (simp add: br_settle_def)
  show ?thesis
    using pending assms(2) updated
    by (simp add: awaits_entry_def broker_step_def onHandled_def Let_def split_beta audit)
qed

text \<open>
  Every call of the broker and of the grant store settles at most once and is never lost, over any
  interleaving of its events.
\<close>

theorem broker_promises_settle_once:
  "count (mset (List.map_filter broker_settles (snd (broker_run url (createBroker stored lg) es)))) i
   + count (mset (broker_open (fst (broker_run url (createBroker stored lg) es)))) i
   = (if i < broker_next (fst (broker_run url (createBroker stored lg) es)) then 1 else 0)"
  using calls.settled_once [of "createBroker stored lg" url es i] by simp

text \<open>
  The proxy shows what the broker allows: in every reachable state, a method without network access is listed
  for a set of permissions exactly when a call with these permissions is not refused as \<open>not-granted\<close>.
\<close>

theorem capabilities_match_invoke:
  assumes "B = fst (broker_run url (createBroker stored lg) es)" "map_of (br_apis B) method = Some reg" "\<not> rg_net reg"
  shows "(method \<in> set (capabilitiesFor granted B))
    = (BSettle i (Inl (Denied NotGranted)) \<notin> set (snd (check_call url now i extId reg args granted B)))"
proof -
  have names: "(\<forall>(m, reg)\<in>set (br_apis B). rg_method reg = m) \<and> distinct (map fst (br_apis B))"
    unfolding assms(1)
  proof (induction es rule: rev_induct)
    case Nil
    then show ?case by (simp add: createBroker_def)
  next
    case (snoc e es)
    then show ?case using registered_under_name [of "fst (broker_run url (createBroker stored lg) es)" url e]
      by (simp add: run_steps_append Let_def split_beta)
  qed
  then have reg: "rg_method reg = method" "(method, reg') \<in> set (br_apis B) \<Longrightarrow> reg' = reg" for reg'
    using assms(2) map_of_SomeD [OF assms(2)] by (auto dest: map_of_is_SomeI)
  have "(method \<in> set (capabilitiesFor granted B)) = (case rg_required reg of None \<Rightarrow> True | Some p \<Rightarrow> p \<in> set granted)"
  proof -
    have "reg' = reg" if "(m, reg') \<in> set (br_apis B)" "rg_method reg' = method" for m reg'
      using that names reg(2) by auto
    then have only: "{r \<in> snd ` set (br_apis B). rg_method r = method} = {reg}"
      using map_of_SomeD [OF assms(2)] reg(1) by force
    have "(method \<in> set (capabilitiesFor granted B))
        = (\<exists>r\<in>{r \<in> snd ` set (br_apis B). rg_method r = method}.
             if rg_net r then \<exists>p\<in>set granted. starts_with ''net:'' p else case rg_required r of None \<Rightarrow> True | Some p \<Rightarrow> p \<in> set granted)"
      unfolding capabilitiesFor_def set_map set_filter by blast
    then show ?thesis unfolding only using assms(3) by simp
  qed
  then show ?thesis
    using assms(3) by (auto simp: check_call_def br_settle_def run_handler_def invokeAudited_def audit_notes_def Let_def split_beta split: option.split)
qed

text \<open>A call that waits for its read keeps waiting, with what it will read, until it is continued.\<close>

lemma waiting_step:
  assumes "broker_ok B" "task i (br_tasks B) = Some (StoreRead x c l)" "\<forall>t. e \<noteq> BContinue t i"
  shows "task i (br_tasks (fst (broker_step url B e))) = Some (StoreRead x c l)"
proof -
  have T: "tasks_ok (br_tasks B)" using assms(1) by (simp add: broker_ok_def)
  have new: "i \<noteq> tk_next (br_tasks B)" using T task_in [OF assms(2)] by (auto simp: tasks_ok_def)
  have check: "task i (br_tasks (fst (check_call url now j y reg as g C))) = task i (br_tasks C)" if "i \<noteq> j" for now j y reg as g C
    using that by (simp add: check_call_def br_settle_def run_handler_def invokeAudited_def Let_def split_beta task_goto task_finish
        split: option.split)
  have store: "task i (br_tasks (fst (store_continue j y d s C))) = task i (br_tasks C)" if "i \<noteq> j" for j y d s C
    using that by (simp add: store_continue_def store_write_def br_settle_def task_goto task_finish split: store_call.split)
  show ?thesis
  proof (cases e)
    case (BContinue now j)
    then have "i \<noteq> j" using assms(3) by blast
    then show ?thesis using assms(2) check store
      by (simp add: BContinue broker_step_def broker_continue_def task_finish br_settle_def split: option.split broker_task.split)
  next
    case (BConfirmed j approved)
    then show ?thesis using assms(2)
      by (cases "i = j") (auto simp: broker_step_def onConfirmed_def run_handler_def task_goto task_finish Let_def split_beta
          split: option.split broker_task.split)
  next
    case (BConfirmFailed j)
    then show ?thesis using assms(2)
      by (cases "i = j") (auto simp: broker_step_def onConfirmFailed_def task_finish split: option.split broker_task.split)
  next
    case (BReturned j v)
    then show ?thesis using assms(2)
      by (cases "i = j") (auto simp: broker_step_def onHandled_def task_finish Let_def split_beta split: option.split broker_task.split)
  next
    case (BThrew j v)
    then show ?thesis using assms(2)
      by (cases "i = j") (auto simp: broker_step_def onHandled_def task_finish Let_def split_beta split: option.split broker_task.split)
  qed (use assms(2) T new in \<open>auto simp: broker_step_def invoke_def registerApi_def unregisterApi_def store_read_def store_set_def
      store_clear_def task_spawn Let_def split: option.split prod.split\<close>)
qed

lemma waiting_run:
  "\<lbrakk>broker_ok B; task i (br_tasks B) = Some (StoreRead x c l); \<forall>t. BContinue t i \<notin> set es\<rbrakk> \<Longrightarrow>
   task i (br_tasks (fst (run_steps (broker_step url) B es))) = Some (StoreRead x c l)"
proof (induction es arbitrary: B)
  case (Cons e es)
  have "broker_ok (fst (broker_step url B e))" using Cons.prems(1) by (rule calls.inv_step)
  moreover have "task i (br_tasks (fst (broker_step url B e))) = Some (StoreRead x c l)"
    using Cons.prems by (intro waiting_step) auto
  ultimately show ?case using Cons.IH Cons.prems(3) by (simp add: split_beta Let_def)
qed simp

lemma persisted_grants: "effective_grants x (gs_persist x s S) = s"
  by (simp add: effective_grants_def ensure_start_def ensure_value_def gs_persist_def)

text \<open>
  C21. A permission that was taken away comes back. In any reachable state let a call read the grants of an extension: \<open>grant\<close>, or
  a read that finds no cached set. Whatever happens before that call goes on, revocations, \<open>set\<close> and \<open>clear\<close> that have run to
  their end included, once it goes on the extension holds every permission again that it held when the call was made: after
  \<open>grant\<close> it holds, in the cache and in the store, just these and the new ones; after a read it holds just these, although
  the store keeps what was written meanwhile. So a revocation made after a \<open>grant\<close> that is under way is undone, and after a
  \<open>set\<close> during a read the extension still may do what the stored grants forbid.
\<close>

theorem revoked_permission_comes_back:
  assumes "B = fst (broker_run url (createBroker stored lg) es)" "held = effective_grants x (br_grants B)"
    "c = SGrant ps \<or> c \<in> {SList, SCapabilities, SIsGranted q} \<and> gs_cache (br_grants B) x = None"
    "\<forall>t. BContinue t (broker_next B) \<notin> set mid" "C = fst (broker_run url B (BStore x c # mid))"
    "D = fst (broker_step url C (BContinue now (broker_next B)))"
  shows "effective_grants x (br_grants D) = (case c of SGrant ps \<Rightarrow> fold set_add ps held | _ \<Rightarrow> held) \<and>
    gs_stored (br_grants D) x = (case c of SGrant ps \<Rightarrow> Some (fold set_add ps held) | _ \<Rightarrow> gs_stored (br_grants C) x)"
proof -
  let ?l = "ensure_start x (br_grants B)"
  have "broker_ok B" unfolding assms(1) by (rule calls.run_inv) (simp add: createBroker_def broker_ok_def)
  then have ok: "tasks_ok (br_tasks B)" by (simp add: broker_ok_def)
  have "task (broker_next B) (br_tasks (fst (broker_step url B (BStore x c)))) = Some (StoreRead x c ?l)"
    using ok by (simp add: broker_step_def store_read_def task_spawn broker_next_def)
  moreover have "broker_ok (fst (broker_step url B (BStore x c)))" using \<open>broker_ok B\<close> by (rule calls.inv_step)
  ultimately have wait: "task (broker_next B) (br_tasks C) = Some (StoreRead x c ?l)"
    using waiting_run [of "fst (broker_step url B (BStore x c))" "broker_next B" x c ?l mid url] assms(4,5)
    by (simp add: split_beta Let_def)
  have yields: "ensure_value ?l = held" by (simp add: assms(2) effective_grants_def)
  show ?thesis
  proof (cases "\<exists>ps. c = SGrant ps")
    case True
    then obtain ps' where "c = SGrant ps'" by blast
    then have "br_grants D = gs_persist x (fold set_add ps' held) (ensure_done x ?l (br_grants C))"
      using wait yields by (simp add: assms(6) broker_step_def broker_continue_def store_continue_def store_write_def)
    then show ?thesis using persisted_grants \<open>c = SGrant ps'\<close> by (simp add: gs_persist_def)
  next
    case False
    then have c: "c \<in> {SList, SCapabilities, SIsGranted q}" "gs_cache (br_grants B) x = None" using assms(3) by auto
    then have "br_grants D = ensure_done x ?l (br_grants C)"
      using wait by (auto simp: assms(6) broker_step_def broker_continue_def store_continue_def br_settle_def)
    moreover have "?l = Fetched (gs_stored (br_grants B) x)" using c(2) by (simp add: ensure_start_def)
    ultimately show ?thesis using yields False c(1) by (auto simp: ensure_done_def effective_grants_def ensure_start_def ensure_value_def)
  qed
qed

section \<open>Witnesses\<close>

definition no_url :: "string \<Rightarrow> egress_target option" where
  "no_url s = None"

text \<open>An extension with the permission \<open>command\<close> arms the vehicle, and the operator approves.\<close>

definition arm_session :: "broker_event list" where
  "arm_session =
     [BRegister ''arm'' (Some ''command'') False None None, BInvoke ''x'' ''arm'' [], BContinue 7 0, BConfirmed 0 True]"

lemmas broker_eval = createBroker_def broker_step_def registerApi_def invoke_def ensure_start_def broker_continue_def task_def spawn_def
  no_tasks_def check_call_def ensure_value_def js_set_def set_add_def ensure_done_def isVehicleAffectingPermission_def
  VEHICLE_AFFECTING_PERMISSIONS_def invokeAudited_def audit_append_def createAuditLog_def freezeEntry_def goto_def onConfirmed_def
  run_handler_def Let_def DEFAULT_MAX_ENTRIES_def

lemma arm_session_runs:
  "RunHandler 0 ''x'' ''arm'' [] \<in> set (snd (broker_run no_url (createBroker [''x'' \<mapsto> [''command'']] (createAuditLog None)) arm_session))"
  by (simp add: arm_session_def broker_eval)

theorem broker_mediates_witness:
  "\<exists>reg granted. broker_call no_url (createBroker [''x'' \<mapsto> [''command'']] (createAuditLog None)) arm_session 0 = Some (''x'', reg, [], granted) \<and>
    rg_method reg = ''arm'' \<and> permits no_url reg [] granted \<and> (needs_operator reg \<longrightarrow> BConfirmed 0 True \<in> set arm_session)"
  by (rule broker_mediates [OF arm_session_runs])

definition armed_broker :: broker where
  "armed_broker = fst (broker_run no_url (createBroker [''x'' \<mapsto> [''command'']] (createAuditLog None)) arm_session)"

lemma armed_broker_task: "task 0 (br_tasks armed_broker) = Some (Running ''x'' (Some 1))"
  "map_of (br_apis armed_broker) ''arm'' = Some \<lparr>rg_token = 0, rg_method = ''arm'', rg_required = Some ''command'', rg_net = False,
     rg_auditKind = None, rg_summary = None\<rparr>"
  by (simp_all add: armed_broker_def arm_session_def broker_eval)

lemma armed_broker_entries:
  "map ae_id (al_entries (br_audit armed_broker)) = [1]"
  "map ae_id (al_entries (br_audit (fst (broker_step url armed_broker (BReturned 0 v))))) = [1]"
  "map ae_id (al_entries (br_audit (fst (broker_step url armed_broker (BThrew 0 msg))))) = [1]"
  by (simp_all add: armed_broker_def arm_session_def broker_eval onHandled_def audit_outcome_def audit_update_def patchEntry_def
      br_settle_def)

lemma singleton_hd: "map f xs = [k] \<Longrightarrow> hd xs \<in> set xs \<and> f (hd xs) = k"
  by (cases xs) auto

theorem vehicle_actions_are_audited_witness:
  "ae_status (hd (al_entries (br_audit armed_broker))) = Pending \<and> ae_origin (hd (al_entries (br_audit armed_broker))) = ''x'' \<and>
   BSettle 0 (Inr (Result (JStr ''done''))) \<in> set (snd (broker_step no_url armed_broker (BReturned 0 (JStr ''done'')))) \<and>
   ae_status (hd (al_entries (br_audit (fst (broker_step no_url armed_broker (BReturned 0 (JStr ''done''))))))) = AuditOk \<and>
   BSettle 0 (Inl (HandlerError [69])) \<in> set (snd (broker_step no_url armed_broker (BThrew 0 [69]))) \<and>
   ae_status (hd (al_entries (br_audit (fst (broker_step no_url armed_broker (BThrew 0 [69])))))) = AuditError"
  using vehicle_actions_are_audited [OF armed_broker_def armed_broker_task(1)]
    singleton_hd [OF armed_broker_entries(1)] singleton_hd [OF armed_broker_entries(2) [of no_url "JStr ''done''"]]
    singleton_hd [OF armed_broker_entries(3) [of no_url "[69]"]]
  by blast

theorem capabilities_match_invoke_witness:
  "(''arm'' \<in> set (capabilitiesFor [''map''] armed_broker))
    = (BSettle 5 (Inl (Denied NotGranted)) \<notin> set (snd (check_call no_url 0 5 ''x''
        \<lparr>rg_token = 0, rg_method = ''arm'', rg_required = Some ''command'', rg_net = False, rg_auditKind = None, rg_summary = None\<rparr> [] [''map''] armed_broker)))"
  by (rule capabilities_match_invoke [OF armed_broker_def armed_broker_task(2)]) simp

text \<open>The permission \<open>command\<close> is revoked while a \<open>grant\<close> of another one is under way.\<close>

theorem revoked_permission_comes_back_witness:
  "effective_grants ''x'' (br_grants (fst (broker_run no_url (createBroker [''x'' \<mapsto> [''command'']] (createAuditLog None))
     [BStore ''x'' (SGrant [''map'']), BStore ''x'' (SRevoke [''command'']), BContinue 0 1, BContinue 0 1]))) = [] \<and>
   effective_grants ''x'' (br_grants (fst (broker_step no_url (fst (broker_run no_url (createBroker [''x'' \<mapsto> [''command'']] (createAuditLog None))
     [BStore ''x'' (SGrant [''map'']), BStore ''x'' (SRevoke [''command'']), BContinue 0 1, BContinue 0 1])) (BContinue 0 0)))) = [''command'', ''map'']"
proof -
  let ?B = "createBroker [''x'' \<mapsto> [''command'']] (createAuditLog None)"
  have "broker_next (fst (broker_run no_url ?B [])) = 0" by (simp add: createBroker_def broker_next_def)
  then show ?thesis
    using revoked_permission_comes_back [of ?B no_url "[''x'' \<mapsto> [''command'']]" "createAuditLog None" "[]" _ "''x''"
      "SGrant [''map'']" "[''map'']" _ "[BStore ''x'' (SRevoke [''command'']), BContinue 0 1, BContinue 0 1]" _ _ 0, OF _ refl _ _ refl refl]
    by (simp add: broker_eval effective_grants_def store_read_def store_continue_def store_write_def gs_persist_def br_settle_def finish_def)
qed

end
