(* ===== verification/Js_Math.thy ===== *)
theory Js_Math
  imports Js_Number
begin

text \<open>
  More of the numbers of JavaScript: division, the functions of \<open>Math\<close> the components use, and which rationals
  are doubles.
\<close>

section \<open>Exact results\<close>

lemma fl_dec_mag:
  assumes "b \<noteq> 0" "b < f_inf 52 11"
  shows "fl (dec_mag 52 11 b) = Num (dec_mag 52 11 b)" "fl (- dec_mag 52 11 b) = Num (- dec_mag 52 11 b)"
proof -
  have pos: "0 < dec_mag 52 11 b" using assms(1) by (rule dec_mag_pos)
  have enc: "enc_mag 52 11 (dec_mag 52 11 b) = b" using assms by (rule enc_dec_mag) simp
  have less: "b < 2 ^ 63" using assms(2) by (simp add: f_inf_def)
  show "fl (dec_mag 52 11 b) = Num (dec_mag 52 11 b)"
    using pos enc less assms by (simp add: fl_def f64_bits_def f64_of_bits_def enc_float_def dec_float_def Let_def)
  show "fl (- dec_mag 52 11 b) = Num (- dec_mag 52 11 b)"
    using pos enc less assms by (simp add: fl_def f64_bits_def f64_of_bits_def enc_float_def dec_float_def Let_def)
qed

lemma nat_is_double:
  assumes "0 < n" "n < 2 ^ 53"
  obtains b where "b \<noteq> 0" "b < f_inf 52 11" "dec_mag 52 11 b = of_nat n"
proof -
  define k where "k = ilog2 n"
  have k: "2 ^ k \<le> n" "n < 2 ^ Suc k" using ilog2_bounds [OF assms(1)] by (auto simp: k_def)
  have "(2 :: nat) ^ k < 2 ^ 53" using k(1) assms(2) by linarith
  then have k52: "k \<le> 52" using power_strict_increasing_iff [of "2 :: nat" k 53] by linarith
  define m where "m = (n - 2 ^ k) * 2 ^ (52 - k)"
  define b where "b = (k + 1023) * 2 ^ 52 + m"
  have "n - 2 ^ k < 2 ^ k" using k by simp
  then have "m < 2 ^ k * 2 ^ (52 - k)" by (simp add: m_def)
  then have m: "m < 2 ^ 52" using k52 by (simp flip: power_add)
  have parts: "b div 2 ^ 52 = k + 1023" "b mod 2 ^ 52 = m"
    unfolding b_def using m by (simp_all only: div_mult_self3 mod_mult_self3 mod_less div_less add_0_right)
  have "2 ^ 52 + m = n * 2 ^ (52 - k)"
  proof -
    have "(2 :: nat) ^ 52 = 2 ^ k * 2 ^ (52 - k)" using k52 by (simp flip: power_add)
    then have "2 ^ 52 + m = (2 ^ k + (n - 2 ^ k)) * 2 ^ (52 - k)" by (simp add: m_def add_mult_distrib)
    then show ?thesis using k(1) by simp
  qed
  then have "of_nat (2 ^ 52 + m) = (of_nat n :: rat) * 2 ^ (52 - k)" by (metis of_nat_mult of_nat_numeral of_nat_power)
  moreover have "(2 :: rat) ^ (52 - k) * 2 powi (int k - 52) = 1"
    using k52 by (simp add: power_int_def nat_diff_distrib' field_simps flip: power_add)
  ultimately have "dec_mag 52 11 b = of_nat n"
    unfolding dec_mag_def Let_def parts by (simp add: f_bias_def mult.assoc)
  moreover have "b \<noteq> 0" by (simp add: b_def)
  moreover have "b < f_inf 52 11" using k52 m by (simp add: b_def f_inf_def)
  ultimately show ?thesis using that by blast
qed

lemma fl_int [simp]: "\<bar>i\<bar> < 2 ^ 53 \<Longrightarrow> fl (of_int i) = Num (of_int i)"
proof (cases i "0 :: int" rule: linorder_cases)
  case less
  assume "\<bar>i\<bar> < 2 ^ 53"
  then obtain b where "b \<noteq> 0" "b < f_inf 52 11" "dec_mag 52 11 b = of_nat (nat (- i))"
    using less by (elim nat_is_double [of "nat (- i)", rotated 2]) auto
  then show ?thesis using fl_dec_mag(2) [of b] less by simp
next
  case equal
  then show ?thesis by (simp add: fl_def f64_bits_def f64_of_bits_def enc_float_def dec_float_def f_inf_def)
next
  case greater
  assume "\<bar>i\<bar> < 2 ^ 53"
  then obtain b where "b \<noteq> 0" "b < f_inf 52 11" "dec_mag 52 11 b = of_nat (nat i)"
    using greater by (elim nat_is_double [of "nat i", rotated 2]) auto
  then show ?thesis using fl_dec_mag(1) [of b] greater by simp
qed

lemma fl_nat: "n < 2 ^ 53 \<Longrightarrow> fl (of_nat n) = Num (of_nat n)"
  using fl_int [of "int n"] by simp

lemma fl_numeral [simp]: "fl 0 = Num 0" "fl 1 = Num 1"
  "(numeral w :: int) < 2 ^ 53 \<Longrightarrow> fl (numeral w) = Num (numeral w)"
  "(numeral w :: int) < 2 ^ 53 \<Longrightarrow> fl (- numeral w) = Num (- numeral w)"
  using fl_int [of 0] fl_int [of 1] fl_int [of "numeral w"] fl_int [of "- numeral w"] by simp_all

section \<open>Division\<close>

definition js_div :: "jsnum \<Rightarrow> jsnum \<Rightarrow> jsnum" where
  "js_div x y =
     (let sign = (js_neg x \<noteq> js_neg y) in
      case (js_val x, js_val y) of
        (Some a, Some b) \<Rightarrow>
          if b = 0 then (if a = 0 then NaN else if sign then NegInf else PosInf)
          else if a = 0 then (if sign then NegZero else Num 0)
          else fl (a / b)
      | (None, Some b) \<Rightarrow> if x = NaN then NaN else if sign then NegInf else PosInf
      | (Some a, None) \<Rightarrow> if y = NaN then NaN else if sign then NegZero else Num 0
      | (None, None) \<Rightarrow> NaN)"

section \<open>Rounding keeps the order\<close>

lemma floor_log2_mono: "0 < q \<Longrightarrow> q \<le> r \<Longrightarrow> floor_log2 q \<le> floor_log2 r"
  using floor_log2_bounds [of q] floor_log2_bounds [of r] powi_mono_less [of "floor_log2 q" "floor_log2 r"] by linarith

lemma round_half_even_mono: "q \<le> r \<Longrightarrow> round_half_even q \<le> round_half_even r"
proof -
  assume le: "q \<le> r"
  have bounds: "\<lfloor>x\<rfloor> \<le> round_half_even x \<and> round_half_even x \<le> \<lfloor>x\<rfloor> + 1" for x
    by (simp add: round_half_even_def Let_def)
  show ?thesis
  proof (cases "\<lfloor>q\<rfloor> = \<lfloor>r\<rfloor>")
    case True
    then show ?thesis using le by (auto simp: round_half_even_def Let_def)
  next
    case False
    then have "\<lfloor>q\<rfloor> + 1 \<le> \<lfloor>r\<rfloor>" using floor_mono [OF le] by simp
    then show ?thesis using bounds [of q] bounds [of r] by linarith
  qed
qed

lemma enc_mag_mono:
  assumes "0 < q" "q \<le> r"
  shows "enc_mag p w q \<le> enc_mag p w r"
proof -
  define lo where "lo = 1 - f_bias w"
  define e f where "e = max (floor_log2 q) lo" and "f = max (floor_log2 r) lo"
  define m n where "m = round_half_even (q * 2 powi (int p - e))" and "n = round_half_even (r * 2 powi (int p - f))"
  have ef: "e \<le> f" using floor_log2_mono [OF assms] by (simp add: e_def f_def)
  have "e * 2 ^ p + m \<le> f * 2 ^ p + n"
  proof (cases "e = f")
    case True
    have "m \<le> n" unfolding m_def n_def True using assms(2) by (intro round_half_even_mono mult_right_mono) simp_all
    then show ?thesis using True by simp
  next
    case False
    then have less: "e + 1 \<le> f" and fr: "f = floor_log2 r" using ef by (auto simp: e_def f_def)
    have "q < 2 powi (e + 1)"
    proof -
      have "q < 2 powi (floor_log2 q + 1)" using floor_log2_bounds [OF assms(1)] by simp
      also have "\<dots> \<le> 2 powi (e + 1)" by (intro power_int_increasing) (simp_all add: e_def)
      finally show ?thesis .
    qed
    then have "q * 2 powi (int p - e) \<le> 2 powi (e + 1) * 2 powi (int p - e)" by (intro mult_right_mono) simp_all
    also have "2 powi (e + 1) * 2 powi (int p - e) = (2 :: rat) powi int (p + 1)" by (subst power_int_add [symmetric]) simp_all
    also have "\<dots> = of_int (2 ^ (p + 1))" by (simp only: power_int_of_nat of_int_power of_int_numeral)
    finally have "m \<le> round_half_even (of_int (2 ^ (p + 1)))" unfolding m_def by (rule round_half_even_mono)
    then have m: "m \<le> 2 ^ (p + 1)" using round_half_even_int by metis
    have "of_int (2 ^ p) = (2 :: rat) powi int p" by (simp only: power_int_of_nat of_int_power of_int_numeral)
    also have "\<dots> = 2 powi f * 2 powi (int p - f)" by (subst power_int_add [symmetric]) simp_all
    also have "\<dots> \<le> r * 2 powi (int p - f)"
      using floor_log2_bounds [of r] assms unfolding fr by (intro mult_right_mono) simp_all
    finally have "round_half_even (of_int (2 ^ p)) \<le> n" unfolding n_def by (rule round_half_even_mono)
    then have n: "2 ^ p \<le> n" using round_half_even_int by metis
    have "(e + 1) * 2 ^ p \<le> f * 2 ^ p" using less by (intro mult_right_mono) simp_all
    then show ?thesis using m n by (simp add: algebra_simps)
  qed
  then have "(e + f_bias w - 1) * 2 ^ p + m \<le> (f + f_bias w - 1) * 2 ^ p + n" by (simp add: algebra_simps)
  then show ?thesis
    unfolding enc_mag_def Let_def lo_def [symmetric] e_def [symmetric] f_def [symmetric] m_def [symmetric] n_def [symmetric]
    by (intro min.mono nat_mono) simp_all
qed

lemma dec_mag_mono:
  assumes "0 < w" "b \<le> c" "c < f_inf p w" "b \<noteq> 0"
  shows "dec_mag p w b \<le> dec_mag p w c"
proof (rule ccontr)
  assume "\<not> dec_mag p w b \<le> dec_mag p w c"
  then have less: "dec_mag p w c < dec_mag p w b" by simp
  have c0: "c \<noteq> 0" using assms by simp
  have "enc_mag p w (dec_mag p w c) \<le> enc_mag p w (dec_mag p w b)"
    using less dec_mag_pos [OF c0] by (intro enc_mag_mono) simp_all
  then have "c \<le> b" using assms c0 by (simp add: enc_dec_mag)
  then have "b = c" using assms by simp
  then show False using less by simp
qed

lemma fl_pos:
  "0 < q \<Longrightarrow> fl q = (if enc_mag 52 11 q = f_inf 52 11 then PosInf else if enc_mag 52 11 q = 0 then Num 0
     else Num (dec_mag 52 11 (enc_mag 52 11 q)))"
  "0 < q \<Longrightarrow> fl (- q) = (if enc_mag 52 11 q = f_inf 52 11 then NegInf else if enc_mag 52 11 q = 0 then NegZero
     else Num (- dec_mag 52 11 (enc_mag 52 11 q)))"
proof -
  have le: "enc_mag 52 11 q \<le> f_inf 52 11" by (rule enc_mag_le)
  moreover have less: "f_inf 52 11 < 2 ^ 63" using f_inf_less [of 52 11] by simp
  moreover have "f_inf 52 11 \<noteq> 0" by (simp add: f_inf_def)
  ultimately show
    "0 < q \<Longrightarrow> fl q = (if enc_mag 52 11 q = f_inf 52 11 then PosInf else if enc_mag 52 11 q = 0 then Num 0
       else Num (dec_mag 52 11 (enc_mag 52 11 q)))"
    "0 < q \<Longrightarrow> fl (- q) = (if enc_mag 52 11 q = f_inf 52 11 then NegInf else if enc_mag 52 11 q = 0 then NegZero
       else Num (- dec_mag 52 11 (enc_mag 52 11 q)))"
    by (simp_all add: fl_def f64_bits_def f64_of_bits_def enc_float_def dec_float_def Let_def)
qed

lemma double_bits:
  assumes "fl B = Num B" "0 < B"
  obtains b where "b \<noteq> 0" "b < f_inf 52 11" "B = dec_mag 52 11 b"
proof -
  have "enc_mag 52 11 B \<noteq> 0" "enc_mag 52 11 B \<noteq> f_inf 52 11" "B = dec_mag 52 11 (enc_mag 52 11 B)"
    using assms by (auto simp: fl_pos split: if_splits)
  then show ?thesis using that enc_mag_le [of 52 11 B] by simp
qed

lemma fl_upper:
  assumes "0 < q" "q \<le> B" "fl B = Num B"
  shows "\<exists>r. fl q = Num r \<and> 0 \<le> r \<and> r \<le> B" "\<exists>r. js_val (fl (- q)) = Some r \<and> r \<le> 0 \<and> - B \<le> r"
proof -
  have B: "0 < B" using assms by simp
  obtain b where b: "b \<noteq> 0" "b < f_inf 52 11" "B = dec_mag 52 11 b" using double_bits [OF assms(3) B] .
  have "enc_mag 52 11 q \<le> enc_mag 52 11 B" by (rule enc_mag_mono [OF assms(1,2)])
  then have le: "enc_mag 52 11 q \<le> b" using b by (simp add: enc_dec_mag)
  have fin: "enc_mag 52 11 q \<noteq> f_inf 52 11" using le b by simp
  have c: "enc_mag 52 11 q \<noteq> 0 \<Longrightarrow> dec_mag 52 11 (enc_mag 52 11 q) \<le> B"
    unfolding b(3) using le b(2) by (intro dec_mag_mono) simp_all
  have d: "enc_mag 52 11 q \<noteq> 0 \<Longrightarrow> 0 < dec_mag 52 11 (enc_mag 52 11 q)" by (rule dec_mag_pos)
  show "\<exists>r. fl q = Num r \<and> 0 \<le> r \<and> r \<le> B" "\<exists>r. js_val (fl (- q)) = Some r \<and> r \<le> 0 \<and> - B \<le> r"
    using fin c d B by (auto simp: fl_pos [OF assms(1)] less_imp_le)
qed

lemma fl_lower:
  assumes "0 < B" "B \<le> q" "fl B = Num B"
  shows "fl q = PosInf \<or> (\<exists>r. fl q = Num r \<and> B \<le> r)"
proof -
  have q: "0 < q" using assms by simp
  obtain b where b: "b \<noteq> 0" "b < f_inf 52 11" "B = dec_mag 52 11 b" using double_bits [OF assms(3,1)] .
  have "enc_mag 52 11 B \<le> enc_mag 52 11 q" by (rule enc_mag_mono [OF assms(1,2)])
  then have le: "b \<le> enc_mag 52 11 q" using b by (simp add: enc_dec_mag)
  show ?thesis
  proof (cases "enc_mag 52 11 q = f_inf 52 11")
    case False
    then have "enc_mag 52 11 q < f_inf 52 11" using enc_mag_le [of 52 11 q] by simp
    then have "B \<le> dec_mag 52 11 (enc_mag 52 11 q)" unfolding b(3) using le b(1) by (intro dec_mag_mono) simp_all
    then show ?thesis using False le b(1) by (simp add: fl_pos [OF q])
  qed (simp add: fl_pos [OF q])
qed

section \<open>Bounds of results\<close>

text \<open>A finite number of magnitude at most \<open>B\<close>.\<close>

definition js_within :: "rat \<Rightarrow> jsnum \<Rightarrow> bool" where
  "js_within B x = (case js_val x of Some r \<Rightarrow> \<bar>r\<bar> \<le> B | None \<Rightarrow> False)"

lemma js_within_simps [simp]: "js_within B (Num q) = (\<bar>q\<bar> \<le> B)" "js_within B NegZero = (0 \<le> B)" "\<not> js_within B NaN"
  "\<not> js_within B PosInf" "\<not> js_within B NegInf"
  by (simp_all add: js_within_def)

lemma js_within_mono: "js_within A x \<Longrightarrow> A \<le> B \<Longrightarrow> js_within B x"
  by (auto simp: js_within_def split: option.splits)

lemma js_within_fl:
  assumes "\<bar>q\<bar> \<le> B" "fl B = Num B" "0 < B"
  shows "js_within B (fl q)"
proof (cases q "0 :: rat" rule: linorder_cases)
  case less
  then show ?thesis using fl_upper(2) [of "- q" B] assms by (auto simp: js_within_def)
next
  case equal
  then show ?thesis using assms by simp
next
  case greater
  then show ?thesis using fl_upper(1) [of q B] assms by auto
qed

lemma js_within_add:
  assumes "js_within A x" "js_within B y" "fl (A + B) = Num (A + B)" "0 < A + B"
  shows "js_within (A + B) (js_add x y)"
proof -
  have AB: "0 \<le> A" "0 \<le> B" using assms(1,2) by (cases x; cases y; auto)+
  show ?thesis
    using assms AB by (cases x; cases y) (auto intro!: js_within_fl)
qed

lemma js_within_uminus: "js_within A x \<Longrightarrow> js_within A (js_uminus x)"
  by (cases x) auto

lemma js_within_sub:
  "js_within A x \<Longrightarrow> js_within B y \<Longrightarrow> fl (A + B) = Num (A + B) \<Longrightarrow> 0 < A + B \<Longrightarrow> js_within (A + B) (js_sub x y)"
  unfolding js_sub_def by (rule js_within_add [OF _ js_within_uminus])

lemma js_within_mul:
  assumes "js_within A x" "js_within B y" "fl (A * B) = Num (A * B)" "0 < A * B"
  shows "js_within (A * B) (js_mul x y)"
proof -
  obtain a b where ab: "js_val x = Some a" "js_val y = Some b" "\<bar>a\<bar> \<le> A" "\<bar>b\<bar> \<le> B"
    using assms(1,2) by (auto simp: js_within_def split: option.splits)
  have "\<bar>a * b\<bar> \<le> A * B" unfolding abs_mult using ab by (intro mult_mono) auto
  then have "js_within (A * B) (fl (a * b))" using assms by (intro js_within_fl)
  moreover have "x \<noteq> NaN" "y \<noteq> NaN" using ab by auto
  ultimately show ?thesis using ab assms(4) by (simp add: js_mul_def Let_def)
qed

lemma js_within_div:
  assumes "js_val x = Some a" "js_val y = Some b" "\<bar>a\<bar> \<le> \<bar>b\<bar>" "b \<noteq> 0"
  shows "js_within 1 (js_div x y)"
proof -
  have "\<bar>a / b\<bar> \<le> 1" using assms(3,4) by (simp add: abs_divide)
  then have "js_within 1 (fl (a / b))" by (rule js_within_fl) simp_all
  then show ?thesis using assms by (simp add: js_div_def Let_def)
qed

section \<open>Functions of \<open>Math\<close>\<close>

definition js_sign :: "jsnum \<Rightarrow> jsnum" where
  "js_sign x = (if x = NaN \<or> js_val x = Some 0 then x else if js_neg x then Num (-1) else Num 1)"

definition js_is_finite :: "jsnum \<Rightarrow> bool" where
  "js_is_finite x = (js_val x \<noteq> None)"

lemma js_within_sign: "x \<noteq> NaN \<Longrightarrow> js_within 1 (js_sign x)"
  by (cases x) (auto simp: js_sign_def)

lemma fl_not_NaN: "fl q \<noteq> NaN"
  by (cases q "0 :: rat" rule: linorder_cases) (use fl_pos [of q] fl_pos [of "- q"] in auto)

end
