(* ===== verification/Manual_Control.thy ===== *)
theory Manual_Control
  imports Client_Base Js_Math Js_Text Js_Collections "HOL-Library.AList"
begin

text \<open>
  \<open>src/mavlink/microservices/manual\<close> (\<open>transform.ts\<close>, \<open>manual-control-service.ts\<close>) and the gate of
  \<open>src/ui/shell/connection/manual-wiring.tsx\<close>: a gamepad as \<open>RC_CHANNELS_OVERRIDE\<close> or \<open>MANUAL_CONTROL\<close> frames.
  What the injected functions return at a call (the gamepad, the clock, the target, the armed state, the
  transport) is part of the event. \<open>react\<close> stands for the listeners, of button actions and of activity: the calls a
  listener makes back into the service while it is notified. Such calls notify listeners in turn; \<open>n\<close> bounds how deep
  these notifications nest, so a run in which they nest at most \<open>n\<close> deep is a run of the model with that \<open>n\<close> (deeper ones
  are cut off), and what is proved is proved for every \<open>n\<close>. The promise of a send is dropped by the code, its failure
  swallowed. Beside the frames and notifications the effects record the writes to \<open>active\<close> (\<open>MOn\<close>, \<open>MOff\<close>), the transport
  the gate saw (\<open>MGate\<close>) and which function sent a frame (\<open>Sticks\<close>, \<open>Release\<close>).
\<close>

section \<open>The shape of an axis\<close>

record axis_shape =
  sh_reverse :: bool
  sh_deadzone :: jsnum
  sh_expo :: jsnum
  sh_trim :: jsnum

record pulse_range =
  pr_min :: jsnum
  pr_center :: jsnum
  pr_max :: jsnum

definition DEFAULT_PULSE_RANGE :: pulse_range where
  "DEFAULT_PULSE_RANGE = \<lparr>pr_min = Num 1000, pr_center = Num 1500, pr_max = Num 2000\<rparr>"

definition MANUAL_FULL_SCALE :: jsnum where
  "MANUAL_FULL_SCALE = Num 1000"

definition RC_OVERRIDE_IGNORE :: jsnum where
  "RC_OVERRIDE_IGNORE = Num 0"

definition RC_OVERRIDE_IGNORE_MAX :: jsnum where
  "RC_OVERRIDE_IGNORE_MAX = Num 65535"

definition js_clamp :: "jsnum \<Rightarrow> jsnum \<Rightarrow> jsnum \<Rightarrow> jsnum" where
  "js_clamp v lo hi = (if js_lt v lo then lo else if js_lt hi v then hi else v)"

definition isIgnoredPulse :: "jsnum \<Rightarrow> bool" where
  "isIgnoredPulse pulse = (js_eq pulse RC_OVERRIDE_IGNORE \<or> js_eq pulse RC_OVERRIDE_IGNORE_MAX)"

definition apply_deadzone :: "jsnum \<Rightarrow> jsnum \<Rightarrow> jsnum" where
  "apply_deadzone deadzone v =
     (let dz = js_clamp deadzone (Num 0) (Num 1)
      in if js_lt (Num 0) dz then
           if js_le (Num 1) dz then Num 0
           else let mag = js_abs v
                in if js_le mag dz then Num 0
                   else js_mul (js_sign v) (js_div (js_sub mag dz) (js_sub (Num 1) dz))
         else v)"

definition apply_expo :: "jsnum \<Rightarrow> jsnum \<Rightarrow> jsnum" where
  "apply_expo ex v =
     (let e = js_clamp ex (Num 0) (Num 1)
      in if js_lt (Num 0) e
         then js_add (js_mul (js_sub (Num 1) e) v) (js_mul (js_mul (js_mul e v) v) v)
         else v)"

definition shapeAxis :: "jsnum \<Rightarrow> axis_shape \<Rightarrow> jsnum" where
  "shapeAxis raw shape =
     (let v = js_clamp raw (Num (-1)) (Num 1);
          v = apply_deadzone (sh_deadzone shape) v;
          v = apply_expo (sh_expo shape) v;
          v = (if sh_reverse shape then js_uminus v else v);
          v = (if \<not> js_eq (sh_trim shape) (Num 0) then js_clamp (js_add v (sh_trim shape)) (Num (-1)) (Num 1) else v)
      in js_clamp v (Num (-1)) (Num 1))"

definition axisToPulse :: "jsnum \<Rightarrow> pulse_range \<Rightarrow> jsnum" where
  "axisToPulse value r =
     (let v = js_clamp value (Num (-1)) (Num 1);
          us = (if js_le (Num 0) v then js_add (pr_center r) (js_mul v (js_sub (pr_max r) (pr_center r)))
                else js_add (pr_center r) (js_mul v (js_sub (pr_center r) (pr_min r))))
      in js_clamp (js_round us) (pr_min r) (pr_max r))"

definition axisToManual :: "jsnum \<Rightarrow> jsnum" where
  "axisToManual value =
     js_clamp (js_round (js_mul (js_clamp value (Num (-1)) (Num 1)) MANUAL_FULL_SCALE)) (js_uminus MANUAL_FULL_SCALE) MANUAL_FULL_SCALE"

section \<open>Configuration\<close>

datatype manual_mode = ModeRc | ModeManual

record gamepad =
  gp_axes :: "jsnum list"
  gp_buttons :: "bool list"
  gp_connected :: "bool option"

record rc_mapping =
  rm_axis :: nat
  rm_channel :: int
  rm_shape :: axis_shape
  rm_range :: "pulse_range option"

record axis_mapping =
  am_axis :: nat
  am_shape :: axis_shape

record manual_axes =
  ma_x :: "axis_mapping option"
  ma_y :: "axis_mapping option"
  ma_z :: "axis_mapping option"
  ma_r :: "axis_mapping option"

record button_binding =
  bb_button :: nat
  bb_bit :: "int option"
  bb_action :: "string option"

record manual_config =
  mc_mode :: manual_mode
  mc_rateHz :: jsnum
  mc_rcChannels :: "rc_mapping list"
  mc_manualAxes :: manual_axes
  mc_buttons :: "button_binding list"
  mc_requireArmed :: bool
  mc_releaseOnStop :: bool

text \<open>\<open>Partial<ManualControlConfig>\<close>.\<close>

record manual_patch =
  mp_mode :: "manual_mode option"
  mp_rateHz :: "jsnum option"
  mp_rcChannels :: "rc_mapping list option"
  mp_manualAxes :: "manual_axes option"
  mp_buttons :: "button_binding list option"
  mp_requireArmed :: "bool option"
  mp_releaseOnStop :: "bool option"

record manual_target =
  mt_sysid :: nat
  mt_compid :: nat

definition DEFAULT_RATE_HZ :: jsnum where "DEFAULT_RATE_HZ = Num 25"
definition MIN_RATE_HZ :: jsnum where "MIN_RATE_HZ = Num 1"
definition MAX_RATE_HZ :: jsnum where "MAX_RATE_HZ = Num 50"
definition RC_OVERRIDE_CHANNELS :: nat where "RC_OVERRIDE_CHANNELS = 18"

definition no_axes :: manual_axes where
  "no_axes = \<lparr>ma_x = None, ma_y = None, ma_z = None, ma_r = None\<rparr>"

definition DEFAULT_MANUAL_CONFIG :: manual_config where
  "DEFAULT_MANUAL_CONFIG =
     \<lparr>mc_mode = ModeRc, mc_rateHz = DEFAULT_RATE_HZ, mc_rcChannels = [], mc_manualAxes = no_axes, mc_buttons = [],
      mc_requireArmed = False, mc_releaseOnStop = True\<rparr>"

definition DEFAULT_TARGET :: manual_target where
  "DEFAULT_TARGET = \<lparr>mt_sysid = 1, mt_compid = 1\<rparr>"

definition clampRate :: "jsnum \<Rightarrow> jsnum" where
  "clampRate hz = js_clamp (if js_is_finite hz then hz else DEFAULT_RATE_HZ) MIN_RATE_HZ MAX_RATE_HZ"

definition or_keep :: "'a option \<Rightarrow> 'a \<Rightarrow> 'a" where
  "or_keep new old = (case new of Some x \<Rightarrow> x | None \<Rightarrow> old)"

text \<open>\<open>{ ...config, ...patch }\<close> with the rate clamped when it is given.\<close>

definition merge_config :: "manual_config \<Rightarrow> manual_patch \<Rightarrow> manual_config" where
  "merge_config c p =
     \<lparr>mc_mode = or_keep (mp_mode p) (mc_mode c),
      mc_rateHz = (case mp_rateHz p of Some hz \<Rightarrow> clampRate hz | None \<Rightarrow> mc_rateHz c),
      mc_rcChannels = or_keep (mp_rcChannels p) (mc_rcChannels c),
      mc_manualAxes = or_keep (mp_manualAxes p) (mc_manualAxes c),
      mc_buttons = or_keep (mp_buttons p) (mc_buttons c),
      mc_requireArmed = or_keep (mp_requireArmed p) (mc_requireArmed c),
      mc_releaseOnStop = or_keep (mp_releaseOnStop p) (mc_releaseOnStop c)\<rparr>"

definition readAxis :: "gamepad \<Rightarrow> nat \<Rightarrow> jsnum" where
  "readAxis gp i = (if i < length (gp_axes gp) then gp_axes gp ! i else Num 0)"

definition isPressed :: "gamepad \<Rightarrow> nat \<Rightarrow> bool" where
  "isPressed gp i = (i < length (gp_buttons gp) \<and> gp_buttons gp ! i)"

section \<open>The service\<close>

datatype stop_reason = StopUser | StopGamepad | StopDispose

record manual_service =
  ms_config :: manual_config
  ms_active :: bool
  ms_disposed :: bool
  ms_lastSendAt :: "jsnum option"
  ms_prevPressed :: "nat \<rightharpoonup> bool"
  ms_activeListeners :: "nat list"
  ms_actionListeners :: "nat list"

datatype frame_kind = Sticks | Release

datatype manual_effect =
    MSend frame_kind string "(string \<times> jsnum) list"
  | MOn
  | MOff
  | MGate "string option"
  | MActive nat bool "stop_reason option"
  | MAction nat string
  | MBlocked
  | MWarn

type_synonym manual_result = "manual_service \<times> manual_effect list"

definition createManualControlService :: "manual_patch \<Rightarrow> manual_service" where
  "createManualControlService p =
     \<lparr>ms_config = merge_config DEFAULT_MANUAL_CONFIG p, ms_active = False, ms_disposed = False, ms_lastSendAt = None,
      ms_prevPressed = Map.empty, ms_activeListeners = [], ms_actionListeners = []\<rparr>"

definition setConfig :: "manual_patch \<Rightarrow> manual_service \<Rightarrow> manual_service" where
  "setConfig p M = M\<lparr>ms_config := merge_config (ms_config M) p\<rparr>"

definition chan_name :: "nat \<Rightarrow> string" where
  "chan_name ch = ''chan'' @ nat_to_string ch @ ''_raw''"

definition or_target :: "manual_target option \<Rightarrow> manual_target" where
  "or_target t = (case t of Some t \<Rightarrow> t | None \<Rightarrow> DEFAULT_TARGET)"

definition blankOverride :: "manual_target option \<Rightarrow> (string \<times> jsnum) list" where
  "blankOverride t =
     [(''target_system'', js_nat (mt_sysid (or_target t))), (''target_component'', js_nat (mt_compid (or_target t)))]
     @ map (\<lambda>ch. (chan_name ch, RC_OVERRIDE_IGNORE)) [1..<Suc RC_OVERRIDE_CHANNELS]"

definition manual_frame ::
  "manual_target option \<Rightarrow> jsnum \<Rightarrow> jsnum \<Rightarrow> jsnum \<Rightarrow> jsnum \<Rightarrow> jsnum \<Rightarrow> (string \<times> jsnum) list" where
  "manual_frame t x y z r buttons =
     [(''target'', js_nat (mt_sysid (or_target t))), (''x'', x), (''y'', y), (''z'', z), (''r'', r), (''buttons'', buttons)]"

definition sendRelease :: "manual_target option \<Rightarrow> manual_service \<Rightarrow> manual_effect list" where
  "sendRelease t M =
     (case mc_mode (ms_config M) of
        ModeRc \<Rightarrow> [MSend Release ''RC_CHANNELS_OVERRIDE'' (blankOverride t)]
      | ModeManual \<Rightarrow> [MSend Release ''MANUAL_CONTROL'' (manual_frame t (Num 0) (Num 0) (Num 0) (Num 0) (Num 0))])"

text \<open>
  \<open>start\<close>, \<open>stop\<close> and \<open>dispose\<close>, given what notifying the listeners of activity does (\<open>emit\<close>).
\<close>

type_synonym manual_emit = "bool \<Rightarrow> stop_reason option \<Rightarrow> manual_service \<Rightarrow> manual_result"

definition manual_start :: "manual_emit \<Rightarrow> manual_service \<Rightarrow> manual_result" where
  "manual_start emit M =
     (if ms_disposed M \<or> ms_active M then (M, [])
      else let (M, fs) = emit True None (M\<lparr>ms_active := True, ms_lastSendAt := None, ms_prevPressed := Map.empty\<rparr>)
           in (M, MOn # fs))"

definition manual_stop :: "manual_emit \<Rightarrow> stop_reason \<Rightarrow> manual_target option \<Rightarrow> manual_service \<Rightarrow> manual_result" where
  "manual_stop emit reason t M =
     (if \<not> ms_active M then (M, [])
      else
        let M = M\<lparr>ms_active := False, ms_lastSendAt := None, ms_prevPressed := Map.empty\<rparr>;
            release = (if mc_releaseOnStop (ms_config M) then sendRelease t M else []);
            (M, fs) = emit False (Some reason) M
        in (M, MOff # release @ fs))"

definition manual_dispose :: "manual_emit \<Rightarrow> manual_target option \<Rightarrow> manual_service \<Rightarrow> manual_result" where
  "manual_dispose emit t M =
     (if ms_disposed M then (M, [])
      else let (M, fs) = manual_stop emit StopDispose t (M\<lparr>ms_disposed := True\<rparr>)
           in (M\<lparr>ms_activeListeners := [], ms_actionListeners := []\<rparr>, fs))"

section \<open>The gate\<close>

datatype suitability = SuitableOk | SuitableWarn | SuitableBlocked

definition transportSuitability :: "string option \<Rightarrow> suitability" where
  "transportSuitability factoryId =
     (case factoryId of
        Some f \<Rightarrow> if f = ''serial'' \<or> f = ''bluetooth'' then SuitableOk
                  else if f = ''websocket'' \<or> f = ''webrtc'' then SuitableWarn else SuitableBlocked
      | None \<Rightarrow> SuitableBlocked)"

definition gated_start :: "manual_emit \<Rightarrow> string option \<Rightarrow> manual_service \<Rightarrow> manual_result" where
  "gated_start emit factoryId M =
     (let (N, fs) = (case transportSuitability factoryId of
                       SuitableBlocked \<Rightarrow> (M, [MBlocked])
                     | SuitableWarn \<Rightarrow> let (N, fs) = manual_start emit M in (N, MWarn # fs)
                     | SuitableOk \<Rightarrow> manual_start emit M)
      in (N, MGate factoryId # fs))"

section \<open>Listeners\<close>

text \<open>What a listener calls, and the target at that time.\<close>

datatype manual_call = CStart "string option" | CStop "manual_target option" | CSetConfig manual_patch | CDispose "manual_target option"

datatype notice = Activity bool "stop_reason option" | ButtonAction string

definition perform :: "manual_emit \<Rightarrow> manual_call \<Rightarrow> manual_service \<Rightarrow> manual_result" where
  "perform emit c M =
     (case c of
        CStart f \<Rightarrow> gated_start emit f M
      | CStop t \<Rightarrow> manual_stop emit StopUser t M
      | CSetConfig p \<Rightarrow> (setConfig p M, [])
      | CDispose t \<Rightarrow> manual_dispose emit t M)"

text \<open>The loop over a \<open>Set\<close> of listeners skips those that were removed meanwhile.\<close>

fun notify ::
  "(manual_call \<Rightarrow> manual_service \<Rightarrow> manual_result) \<Rightarrow> (nat \<Rightarrow> manual_call list) \<Rightarrow> (manual_service \<Rightarrow> nat list) \<Rightarrow>
   (nat \<Rightarrow> manual_effect) \<Rightarrow> nat list \<Rightarrow> manual_service \<Rightarrow> manual_result" where
  "notify call calls listeners note [] M = (M, [])"
| "notify call calls listeners note (l # ls) M =
     (if l \<in> set (listeners M) then
        let (M1, fs) = run_steps (\<lambda>M c. call c M) M (calls l); (M2, gs) = notify call calls listeners note ls M1
        in (M2, note l # fs @ gs)
      else notify call calls listeners note ls M)"

type_synonym reactions = "nat \<Rightarrow> notice \<Rightarrow> manual_call list"

primrec emitActive :: "reactions \<Rightarrow> nat \<Rightarrow> manual_emit" where
  "emitActive react 0 b reason M = (M, map (\<lambda>l. MActive l b reason) (ms_activeListeners M))"
| "emitActive react (Suc n) b reason M =
     notify (perform (emitActive react n)) (\<lambda>l. react l (Activity b reason)) ms_activeListeners (\<lambda>l. MActive l b reason)
       (ms_activeListeners M) M"

section \<open>Frames\<close>

definition set_channel :: "gamepad \<Rightarrow> rc_mapping \<Rightarrow> (string \<times> jsnum) list \<Rightarrow> (string \<times> jsnum) list" where
  "set_channel gp m fs =
     (if rm_channel m < 1 \<or> int RC_OVERRIDE_CHANNELS < rm_channel m then fs
      else AList.update (chan_name (nat (rm_channel m)))
             (axisToPulse (shapeAxis (readAxis gp (rm_axis m)) (rm_shape m)) (or_keep (rm_range m) DEFAULT_PULSE_RANGE)) fs)"

definition sendRcOverride :: "manual_target option \<Rightarrow> gamepad \<Rightarrow> manual_service \<Rightarrow> manual_effect list" where
  "sendRcOverride t gp M =
     [MSend Sticks ''RC_CHANNELS_OVERRIDE'' (fold (set_channel gp) (mc_rcChannels (ms_config M)) (blankOverride t))]"

definition axis_value :: "gamepad \<Rightarrow> axis_mapping option \<Rightarrow> jsnum" where
  "axis_value gp m = (case m of None \<Rightarrow> Num 0 | Some m \<Rightarrow> axisToManual (shapeAxis (readAxis gp (am_axis m)) (am_shape m)))"

definition button_bit :: "gamepad \<Rightarrow> button_binding \<Rightarrow> nat \<Rightarrow> nat" where
  "button_bit gp b m =
     (case bb_bit b of
        None \<Rightarrow> m
      | Some k \<Rightarrow> if k < 0 \<or> 15 < k then m
                  else if isPressed gp (bb_button b) then or m (push_bit (nat k) 1) else m)"

definition buttonMask :: "gamepad \<Rightarrow> manual_service \<Rightarrow> nat" where
  "buttonMask gp M = fold (button_bit gp) (mc_buttons (ms_config M)) 0"

definition sendManualControl :: "manual_target option \<Rightarrow> gamepad \<Rightarrow> manual_service \<Rightarrow> manual_effect list" where
  "sendManualControl t gp M =
     (let axes = mc_manualAxes (ms_config M)
      in [MSend Sticks ''MANUAL_CONTROL''
            (manual_frame t (axis_value gp (ma_x axes)) (axis_value gp (ma_y axes)) (axis_value gp (ma_z axes)) (axis_value gp (ma_r axes))
              (js_nat (buttonMask gp M)))])"

section \<open>One animation frame\<close>

definition dispatch_button :: "reactions \<Rightarrow> nat \<Rightarrow> gamepad \<Rightarrow> button_binding \<Rightarrow> manual_service \<Rightarrow> manual_result" where
  "dispatch_button react n gp b M =
     (let pressed = isPressed gp (bb_button b);
          was = (ms_prevPressed M (bb_button b) = Some True);
          M = M\<lparr>ms_prevPressed := (ms_prevPressed M)(bb_button b \<mapsto> pressed)\<rparr>
      in case bb_action b of
           Some act \<Rightarrow>
             if pressed \<and> \<not> was
             then notify (perform (emitActive react n)) (\<lambda>l. react l (ButtonAction act)) ms_actionListeners (\<lambda>l. MAction l act)
                    (ms_actionListeners M) M
             else (M, [])
         | None \<Rightarrow> (M, []))"

fun dispatchActions :: "reactions \<Rightarrow> nat \<Rightarrow> gamepad \<Rightarrow> button_binding list \<Rightarrow> manual_service \<Rightarrow> manual_result" where
  "dispatchActions react n gp [] M = (M, [])"
| "dispatchActions react n gp (b # bs) M =
     (let (M1, fs) = dispatch_button react n gp b M; (M2, gs) = dispatchActions react n gp bs M1 in (M2, fs @ gs))"

text \<open>The state of the world a tick reads: the pad, the clock, the target, whether the vehicle is armed.\<close>

record tick_input =
  tk_pad :: "gamepad option"
  tk_now :: jsnum
  tk_target :: "manual_target option"
  tk_armed :: bool

definition send_interval :: "manual_config \<Rightarrow> jsnum" where
  "send_interval c = js_div (Num 1000) (mc_rateHz c)"

definition too_soon :: "jsnum \<Rightarrow> manual_service \<Rightarrow> bool" where
  "too_soon t M = (case ms_lastSendAt M of None \<Rightarrow> False | Some l \<Rightarrow> js_lt (js_sub t l) (send_interval (ms_config M)))"

text \<open>\<open>tick\<close> after the actions were dispatched.\<close>

definition send_control :: "tick_input \<Rightarrow> gamepad \<Rightarrow> manual_service \<Rightarrow> manual_result" where
  "send_control k gp M =
     (if mc_requireArmed (ms_config M) \<and> \<not> tk_armed k then (M, [])
      else if too_soon (tk_now k) M then (M, [])
      else let M = M\<lparr>ms_lastSendAt := Some (tk_now k)\<rparr>
           in (M, case mc_mode (ms_config M) of
                    ModeRc \<Rightarrow> sendRcOverride (tk_target k) gp M
                  | ModeManual \<Rightarrow> sendManualControl (tk_target k) gp M))"

definition manual_tick :: "reactions \<Rightarrow> nat \<Rightarrow> tick_input \<Rightarrow> manual_service \<Rightarrow> manual_result" where
  "manual_tick react n k M =
     (if \<not> ms_active M then (M, [])
      else case tk_pad k of
        None \<Rightarrow> manual_stop (emitActive react n) StopGamepad (tk_target k) M
      | Some gp \<Rightarrow>
          if gp_connected gp = Some False then manual_stop (emitActive react n) StopGamepad (tk_target k) M
          else
            let (M1, fs) = dispatchActions react n gp (mc_buttons (ms_config M)) M; (M2, gs) = send_control k gp M1
            in (M2, fs @ gs))"

section \<open>Events\<close>

datatype manual_event =
    MTick tick_input
  | MCall manual_call
  | MListenActive nat
  | MListenAction nat
  | MUnlistenActive nat
  | MUnlistenAction nat

definition manual_step :: "reactions \<Rightarrow> nat \<Rightarrow> manual_service \<Rightarrow> manual_event \<Rightarrow> manual_result" where
  "manual_step react n M e =
     (case e of
        MTick k \<Rightarrow> manual_tick react n k M
      | MCall c \<Rightarrow> perform (emitActive react n) c M
      | MListenActive l \<Rightarrow> (M\<lparr>ms_activeListeners := set_add l (ms_activeListeners M)\<rparr>, [])
      | MListenAction l \<Rightarrow> (M\<lparr>ms_actionListeners := set_add l (ms_actionListeners M)\<rparr>, [])
      | MUnlistenActive l \<Rightarrow> (M\<lparr>ms_activeListeners := remove1 l (ms_activeListeners M)\<rparr>, [])
      | MUnlistenAction l \<Rightarrow> (M\<lparr>ms_actionListeners := remove1 l (ms_actionListeners M)\<rparr>, []))"

end
