(* ===== verification/Manual_Properties.thy ===== *)
theory Manual_Properties
  imports Manual_Control
begin

text \<open>
  Manual control is safe: what is sent fits the fields of the messages, the sticks are sent only by a tick of the
  service in an activation that passed the gate and not too often, and stopping releases the vehicle, whatever the listeners
  call; with the exceptions stated at the end.
\<close>

section \<open>Axes and pulses are in range\<close>

definition is_double :: "jsnum \<Rightarrow> bool" where
  "is_double x = (case js_val x of Some q \<Rightarrow> fl q = Num q | None \<Rightarrow> True)"

definition shape_ok :: "axis_shape \<Rightarrow> bool" where
  "shape_ok s = (sh_trim s \<noteq> NaN \<and> is_double (sh_deadzone s))"

definition int_between :: "int \<Rightarrow> int \<Rightarrow> jsnum \<Rightarrow> bool" where
  "int_between lo hi x = (case js_val x of Some q \<Rightarrow> q = of_int \<lfloor>q\<rfloor> \<and> lo \<le> \<lfloor>q\<rfloor> \<and> \<lfloor>q\<rfloor> \<le> hi | None \<Rightarrow> False)"

lemma int_between_Num [simp]: "int_between lo hi (Num (of_int i)) = (lo \<le> i \<and> i \<le> hi)"
  by (simp add: int_between_def)

lemma clamp_bounds:
  assumes "v \<noteq> NaN" "a \<le> b"
  shows "\<exists>q. js_val (js_clamp v (Num a) (Num b)) = Some q \<and> a \<le> q \<and> q \<le> b \<and>
    (js_clamp v (Num a) (Num b) = v \<or> js_clamp v (Num a) (Num b) = Num a \<or> js_clamp v (Num a) (Num b) = Num b)"
  using assms by (cases v) (auto simp: js_clamp_def)

lemma clamp_unit: "v \<noteq> NaN \<Longrightarrow> js_within 1 (js_clamp v (Num (-1)) (Num 1))"
  using clamp_bounds [of v "-1" 1] by (auto simp: js_within_def)

lemma deadzone_gap:
  assumes "fl q = Num q" "0 \<le> q" "q < 1"
  shows "\<exists>r. js_val (js_sub (Num 1) (Num q)) = Some r \<and> 0 < r \<and> r \<le> 1"
proof (cases "q = 0")
  case False
  define e where "e = (2 :: rat) powi (- 53)"
  have one: "dec_mag 52 11 (1023 * 2 ^ 52) = 1" by (simp add: dec_mag_def f_bias_def)
  have below: "dec_mag 52 11 (1023 * 2 ^ 52 - 1) = 1 - e"
    by (simp add: dec_mag_def Let_def f_bias_def e_def power_int_def power_divide)
  have tiny: "dec_mag 52 11 (970 * 2 ^ 52) = e" by (simp add: dec_mag_def f_bias_def e_def)
  obtain b where b: "b \<noteq> 0" "b < f_inf 52 11" "q = dec_mag 52 11 b" using double_bits [OF assms(1)] assms False by auto
  have "\<not> 1023 * 2 ^ 52 \<le> b"
    using dec_mag_mono [of 11 "1023 * 2 ^ 52" b 52] b one assms(3) by auto
  then have "q \<le> 1 - e" unfolding b(3) below [symmetric] using b(1) by (intro dec_mag_mono) (simp_all add: f_inf_def)
  moreover have "fl e = Num e" using fl_dec_mag(1) [of "970 * 2 ^ 52", unfolded tiny] by (simp add: f_inf_def)
  moreover have "0 < e" by (simp add: e_def)
  ultimately have "fl (1 - q) = PosInf \<or> (\<exists>r. fl (1 - q) = Num r \<and> e \<le> r)" by (intro fl_lower) simp_all
  moreover obtain r where "fl (1 - q) = Num r" "r \<le> 1" using fl_upper(1) [of "1 - q" 1] assms by auto
  ultimately show ?thesis using \<open>0 < e\<close> False by (auto simp: js_sub_def)
qed (simp add: js_sub_def)

lemma abs_unit: "js_within 1 v \<Longrightarrow> \<exists>a. js_abs v = Num a \<and> 0 \<le> a \<and> a \<le> 1"
  by (cases v) (auto simp: js_abs_def)

lemma deadzone_unit:
  assumes "js_within 1 v" "is_double dz"
  shows "js_within 1 (apply_deadzone dz v)"
proof -
  define d where "d = js_clamp dz (Num 0) (Num 1)"
  define mag where "mag = js_abs v"
  have split: "js_within 1 (apply_deadzone dz v)"
    if live: "js_lt (Num 0) d \<Longrightarrow> \<not> js_le (Num 1) d \<Longrightarrow> \<not> js_le mag d \<Longrightarrow>
      js_within 1 (js_mul (js_sign v) (js_div (js_sub mag d) (js_sub (Num 1) d)))"
    using assms(1) live by (auto simp: apply_deadzone_def Let_def simp flip: d_def mag_def)
  show ?thesis
  proof (rule split)
    assume d: "js_lt (Num 0) d" "\<not> js_le (Num 1) d" and m: "\<not> js_le mag d"
    have "dz \<noteq> NaN" using d(1) by (auto simp: d_def js_clamp_def)
    then obtain q where q: "js_val d = Some q" "0 \<le> q" "q \<le> 1" "d = dz \<or> d = Num 0 \<or> d = Num 1"
      using clamp_bounds [of dz 0 1] by (auto simp: d_def)
    have dq: "d = Num q" "0 < q" "q < 1" "d = dz" using q d by (cases d; auto simp: js_le_def)+
    have double: "fl q = Num q" using assms(2) dq by (simp add: is_double_def)
    obtain a where a: "mag = Num a" "0 \<le> a" "a \<le> 1" using abs_unit [OF assms(1)] unfolding mag_def by blast
    have aq: "q < a" using m a(1) dq(1) by (auto simp: js_le_def)
    obtain g where g: "js_val (js_sub (Num 1) d) = Some g" "0 < g" "g \<le> 1"
      using deadzone_gap [OF double] dq by auto
    have sub: "js_sub mag d = fl (a - q)" "js_sub (Num 1) d = fl (1 - q)" using dq a by (simp_all add: js_sub_def)
    have gap: "fl g = Num g" "fl (1 - q) = Num g"
    proof -
      have "fl (1 - q) = Num g" using g(1,2) sub(2) by (cases "fl (1 - q)") auto
      then show "fl (1 - q) = Num g" .
      then have "enc_mag 52 11 (1 - q) \<noteq> 0 \<and> enc_mag 52 11 (1 - q) \<noteq> f_inf 52 11 \<and> g = dec_mag 52 11 (enc_mag 52 11 (1 - q))"
        using dq(3) g(2) by (auto simp: fl_pos split: if_splits)
      then show "fl g = Num g" using fl_dec_mag(1) [of "enc_mag 52 11 (1 - q)"] enc_mag_le [of 52 11 "1 - q"] by simp
    qed
    have "js_val (fl (a - q)) = Some x \<Longrightarrow> \<bar>x\<bar> \<le> g" for x
    proof -
      assume x: "js_val (fl (a - q)) = Some x"
      have "enc_mag 52 11 (a - q) \<le> enc_mag 52 11 (1 - q)" using aq a dq by (intro enc_mag_mono) simp_all
      moreover have "enc_mag 52 11 (1 - q) \<noteq> f_inf 52 11" "g = dec_mag 52 11 (enc_mag 52 11 (1 - q))"
        using gap(2) dq(3) g(2) by (auto simp: fl_pos split: if_splits)
      moreover have "enc_mag 52 11 (1 - q) < f_inf 52 11" using calculation(2) enc_mag_le [of 52 11 "1 - q"] by simp
      ultimately show "\<bar>x\<bar> \<le> g"
        using x aq g(2) dec_mag_mono [of 11 "enc_mag 52 11 (a - q)" "enc_mag 52 11 (1 - q)" 52] dec_mag_pos [of "enc_mag 52 11 (a - q)" 52 11]
        by (auto simp: fl_pos split: if_splits)
    qed
    moreover obtain x where "js_val (fl (a - q)) = Some x" using fl_upper(1) [of "a - q" 1] aq a dq by auto
    ultimately have "js_within 1 (js_div (js_sub mag d) (js_sub (Num 1) d))"
      using g sub by (intro js_within_div) auto
    moreover have "js_within 1 (js_sign v)" using assms(1) by (intro js_within_sign) auto
    ultimately show "js_within 1 (js_mul (js_sign v) (js_div (js_sub mag d) (js_sub (Num 1) d)))"
      using js_within_mul [of 1 _ 1] by simp
  qed
qed

lemma expo_finite: "js_within 1 v \<Longrightarrow> js_within 2 (apply_expo ex v)"
proof -
  assume v: "js_within 1 v"
  define e where "e = js_clamp ex (Num 0) (Num 1)"
  have "js_within 2 (js_add (js_mul (js_sub (Num 1) e) v) (js_mul (js_mul (js_mul e v) v) v))" if "js_lt (Num 0) e"
  proof -
    have "ex \<noteq> NaN" using that by (auto simp: e_def js_clamp_def)
    then obtain q where q: "js_val e = Some q" "0 \<le> q" "q \<le> 1" using clamp_bounds [of ex 0 1] by (auto simp: e_def)
    then have e: "js_within 1 e" by (simp add: js_within_def)
    have "js_within 1 (js_sub (Num 1) e)" using q by (cases e) (auto simp: js_sub_def intro: js_within_fl)
    then have "js_within 1 (js_mul (js_sub (Num 1) e) v)" using v js_within_mul [of 1 _ 1] by simp
    moreover have "js_within 1 (js_mul (js_mul (js_mul e v) v) v)" using e v js_within_mul [of 1 _ 1] by simp
    ultimately show ?thesis using js_within_add [of 1 _ 1] by simp
  qed
  then show ?thesis using v js_within_mono [OF v, of 2] by (auto simp: apply_expo_def Let_def simp flip: e_def)
qed

lemma finite_not_NaN: "js_within B v \<Longrightarrow> v \<noteq> NaN"
  by auto

lemma shape_unit:
  assumes "shape_ok s" "raw \<noteq> NaN"
  shows "js_within 1 (shapeAxis raw s)"
proof -
  define a where "a = apply_deadzone (sh_deadzone s) (js_clamp raw (Num (-1)) (Num 1))"
  define b where "b = apply_expo (sh_expo s) a"
  define c where "c = (if sh_reverse s then js_uminus b else b)"
  have "js_within 1 a" using assms clamp_unit deadzone_unit by (simp add: a_def shape_ok_def)
  then have "js_within 2 b" by (simp add: b_def expo_finite)
  then have c: "js_within 2 c" by (simp add: c_def js_within_uminus)
  have "js_add c (sh_trim s) \<noteq> NaN" using c assms(1) fl_not_NaN by (cases c; cases "sh_trim s") (auto simp: shape_ok_def)
  then have "js_within 1 (js_clamp (js_add c (sh_trim s)) (Num (-1)) (Num 1))" by (rule clamp_unit)
  then show ?thesis
    unfolding shapeAxis_def Let_def a_def [symmetric] b_def [symmetric] c_def [symmetric]
    using c finite_not_NaN by (auto intro!: clamp_unit)
qed

lemma round_int: "js_val v = Some q \<Longrightarrow> \<exists>i. js_val (js_round v) = Some (of_int i) \<and> js_round v \<noteq> NaN"
  by (cases v) (auto simp: js_round_def js_int_def Let_def intro: exI [of _ 0])

lemma clamp_int:
  assumes "js_within B v" "lo \<le> hi"
  shows "int_between lo hi (js_clamp (js_round v) (Num (of_int lo)) (Num (of_int hi)))"
proof -
  obtain q where "js_val v = Some q" using assms(1) by (auto simp: js_within_def split: option.splits)
  then obtain i where i: "js_val (js_round v) = Some (of_int i)" "js_round v \<noteq> NaN" using round_int by blast
  then show ?thesis
    using assms(2) by (cases "js_round v") (auto simp: js_clamp_def int_between_def)
qed

text \<open>Pulses are whole microseconds that fit an unsigned 16-bit field.\<close>

definition is_pulse :: "jsnum \<Rightarrow> bool" where
  "is_pulse x = (case x of Num q \<Rightarrow> q = of_int \<lfloor>q\<rfloor> \<and> 0 \<le> q \<and> q \<le> 65535 | _ \<Rightarrow> False)"

definition range_ok :: "pulse_range \<Rightarrow> bool" where
  "range_ok r = (is_pulse (pr_min r) \<and> is_pulse (pr_center r) \<and> is_pulse (pr_max r) \<and> js_le (pr_min r) (pr_max r))"

lemma is_pulseE:
  assumes "is_pulse x"
  obtains i where "x = Num (of_int i)" "0 \<le> i" "i \<le> 65535"
  using assms
proof (cases x)
  case (Num q)
  then show ?thesis using assms that [of "\<lfloor>q\<rfloor>"] by (auto simp: is_pulse_def le_floor_iff floor_le_iff)
qed (simp_all add: is_pulse_def)

lemma pulse_fits:
  assumes "js_within 1 v" "range_ok r"
  shows "int_between 0 65535 (axisToPulse v r)"
proof -
  obtain lo where lo: "pr_min r = Num (of_int lo)" "0 \<le> lo" "lo \<le> 65535" using assms(2) by (auto simp: range_ok_def elim: is_pulseE)
  obtain mid where mid: "pr_center r = Num (of_int mid)" "0 \<le> mid" "mid \<le> 65535" using assms(2) by (auto simp: range_ok_def elim: is_pulseE)
  obtain hi where hi: "pr_max r = Num (of_int hi)" "0 \<le> hi" "hi \<le> 65535" using assms(2) by (auto simp: range_ok_def elim: is_pulseE)
  have le: "lo \<le> hi" using assms(2) lo hi by (auto simp: range_ok_def js_le_def)
  define w where "w = js_clamp v (Num (-1)) (Num 1)"
  have w: "js_within 1 w" using assms(1) finite_not_NaN clamp_unit by (simp add: w_def)
  have diff: "js_within 65535 (js_sub (Num (of_int a)) (Num (of_int b)))" if "0 \<le> a" "a \<le> 65535" "0 \<le> b" "b \<le> 65535" for a b :: int
  proof -
    have "js_sub (Num (of_int a)) (Num (of_int b)) = Num (of_int (a - b))"
      using that fl_int [of "a - b"] by (simp add: js_sub_def)
    moreover have "\<bar>of_int (a - b) :: rat\<bar> \<le> 65535" using that by (simp add: abs_le_iff)
    ultimately show ?thesis by simp
  qed
  have us: "js_within (65535 + 65535) (js_add (pr_center r) (js_mul w (js_sub (Num (of_int a)) (Num (of_int b)))))"
    if "0 \<le> a" "a \<le> 65535" "0 \<le> b" "b \<le> 65535" for a b :: int
  proof (rule js_within_add)
    show "js_within 65535 (pr_center r)" using mid by simp
    show "js_within 65535 (js_mul w (js_sub (Num (of_int a)) (Num (of_int b))))"
      using js_within_mul [OF w diff [OF that]] by simp
  qed simp_all
  have "int_between lo hi (axisToPulse v r)"
    using us [of hi mid] us [of mid lo] lo mid hi clamp_int [OF _ le]
    unfolding axisToPulse_def Let_def w_def [symmetric] by auto
  then show ?thesis using lo hi by (auto simp: int_between_def split: option.splits)
qed

lemma manual_fits: "js_within 1 v \<Longrightarrow> int_between (-1000) 1000 (axisToManual v)"
proof -
  assume "js_within 1 v"
  then have "js_within 1 (js_clamp v (Num (-1)) (Num 1))" using finite_not_NaN clamp_unit by blast
  then have "js_within 1000 (js_mul (js_clamp v (Num (-1)) (Num 1)) MANUAL_FULL_SCALE)"
    using js_within_mul [of 1 _ 1000 MANUAL_FULL_SCALE] by (simp add: MANUAL_FULL_SCALE_def)
  from clamp_int [OF this, of "-1000" 1000] show ?thesis by (simp add: axisToManual_def MANUAL_FULL_SCALE_def)
qed

section \<open>Every frame fits its message\<close>

definition rc_ok :: "rc_mapping list \<Rightarrow> bool" where
  "rc_ok ms = list_all (\<lambda>m. shape_ok (rm_shape m) \<and> range_ok (or_keep (rm_range m) DEFAULT_PULSE_RANGE)) ms"

definition axis_ok :: "axis_mapping option \<Rightarrow> bool" where
  "axis_ok m = (case m of None \<Rightarrow> True | Some m \<Rightarrow> shape_ok (am_shape m))"

definition axes_ok :: "manual_axes \<Rightarrow> bool" where
  "axes_ok a = (axis_ok (ma_x a) \<and> axis_ok (ma_y a) \<and> axis_ok (ma_z a) \<and> axis_ok (ma_r a))"

definition config_ok :: "manual_config \<Rightarrow> bool" where
  "config_ok c = (rc_ok (mc_rcChannels c) \<and> axes_ok (mc_manualAxes c))"

definition patch_ok :: "manual_patch \<Rightarrow> bool" where
  "patch_ok p = (rc_ok (or_keep (mp_rcChannels p) []) \<and> axes_ok (or_keep (mp_manualAxes p) no_axes))"

definition pad_ok :: "gamepad \<Rightarrow> bool" where
  "pad_ok gp = (NaN \<notin> set (gp_axes gp))"

definition rc_fields :: "string list" where
  "rc_fields = [''target_system'', ''target_component''] @ map chan_name [1..<19]"

definition frame_fits :: "string \<Rightarrow> (string \<times> jsnum) list \<Rightarrow> bool" where
  "frame_fits name fs =
     (if name = ''RC_CHANNELS_OVERRIDE'' then
        map fst fs = rc_fields \<and> list_all (\<lambda>(k, v). take 4 k = ''chan'' \<longrightarrow> int_between 0 65535 v) fs
      else
        name = ''MANUAL_CONTROL'' \<and> map fst fs = [''target'', ''x'', ''y'', ''z'', ''r'', ''buttons''] \<and>
        list_all (\<lambda>(k, v). k \<in> {''x'', ''y'', ''z'', ''r''} \<longrightarrow> int_between (-1000) 1000 v) fs \<and>
        list_all (\<lambda>(k, v). k = ''buttons'' \<longrightarrow> int_between 0 65535 v) fs)"

lemma merge_ok: "config_ok c \<Longrightarrow> patch_ok p \<Longrightarrow> config_ok (merge_config c p)"
  by (cases "mp_rcChannels p"; cases "mp_manualAxes p") (simp_all add: patch_ok_def config_ok_def merge_config_def or_keep_def)

lemma range_default [simp]: "range_ok DEFAULT_PULSE_RANGE"
  by (simp add: range_ok_def is_pulse_def DEFAULT_PULSE_RANGE_def js_le_def)

lemma config_default: "config_ok DEFAULT_MANUAL_CONFIG"
  by (simp add: config_ok_def DEFAULT_MANUAL_CONFIG_def no_axes_def rc_ok_def axes_ok_def axis_ok_def)

lemma axis_finite: "pad_ok gp \<Longrightarrow> readAxis gp i \<noteq> NaN"
  by (auto simp: readAxis_def pad_ok_def in_set_conv_nth)

lemma upto_18: "[1..<Suc RC_OVERRIDE_CHANNELS] = [1, 2, 3, 4, 5, 6, 7, 8, 9, 10, 11, 12, 13, 14, 15, 16, 17, 18]"
  by (simp add: RC_OVERRIDE_CHANNELS_def upt_conv_Cons)

lemma blank_fits: "frame_fits ''RC_CHANNELS_OVERRIDE'' (blankOverride t)"
  by (auto simp: frame_fits_def blankOverride_def rc_fields_def RC_OVERRIDE_CHANNELS_def RC_OVERRIDE_IGNORE_def list_all_iff
      int_between_def)

lemma update_values: "list_all (\<lambda>(k, v). P k v) fs \<Longrightarrow> P k v \<Longrightarrow> list_all (\<lambda>(k, v). P k v) (AList.update k v fs)"
  by (induction fs) auto

lemma chan_in_fields: "1 \<le> ch \<Longrightarrow> ch \<le> int RC_OVERRIDE_CHANNELS \<Longrightarrow> chan_name (nat ch) \<in> set rc_fields"
proof -
  assume "1 \<le> ch" "ch \<le> int RC_OVERRIDE_CHANNELS"
  then have "nat ch \<in> set [1..<19]" by (auto simp: RC_OVERRIDE_CHANNELS_def)
  then show ?thesis unfolding rc_fields_def set_append set_map by blast
qed

lemma set_channel_fits:
  assumes "frame_fits ''RC_CHANNELS_OVERRIDE'' fs" "pad_ok gp" "shape_ok (rm_shape m)"
    "range_ok (or_keep (rm_range m) DEFAULT_PULSE_RANGE)"
  shows "frame_fits ''RC_CHANNELS_OVERRIDE'' (set_channel gp m fs)"
proof (cases "rm_channel m < 1 \<or> int RC_OVERRIDE_CHANNELS < rm_channel m")
  case False
  have "int_between 0 65535 (axisToPulse (shapeAxis (readAxis gp (rm_axis m)) (rm_shape m)) (or_keep (rm_range m) DEFAULT_PULSE_RANGE))"
    using assms axis_finite by (intro pulse_fits shape_unit)
  then have "list_all (\<lambda>(k, v). take 4 k = ''chan'' \<longrightarrow> int_between 0 65535 v) (set_channel gp m fs)"
    using assms(1) False by (simp add: frame_fits_def set_channel_def update_values)
  moreover have "chan_name (nat (rm_channel m)) \<in> set (map fst fs)"
    using assms(1) False chan_in_fields by (simp add: frame_fits_def)
  then have "map fst (set_channel gp m fs) = map fst fs" using False by (simp add: set_channel_def update_keys)
  ultimately show ?thesis using assms(1) by (simp add: frame_fits_def)
qed (use assms(1) in \<open>simp add: set_channel_def\<close>)

lemma override_fits:
  assumes "config_ok c" "pad_ok gp"
  shows "frame_fits ''RC_CHANNELS_OVERRIDE'' (fold (set_channel gp) (mc_rcChannels c) (blankOverride t))"
proof -
  have "rc_ok ms \<Longrightarrow> frame_fits ''RC_CHANNELS_OVERRIDE'' fs \<Longrightarrow> frame_fits ''RC_CHANNELS_OVERRIDE'' (fold (set_channel gp) ms fs)" for ms fs
    by (induction ms arbitrary: fs) (simp_all add: set_channel_fits assms(2) rc_ok_def)
  then show ?thesis using assms(1) blank_fits by (simp add: config_ok_def)
qed

lemma or_16: "a < 2 ^ 16 \<Longrightarrow> b < 2 ^ 16 \<Longrightarrow> or a b < (2 :: nat) ^ 16"
  by (simp only: take_bit_or flip: take_bit_nat_eq_self_iff)

lemma button_bit_fits: "m0 < 2 ^ 16 \<Longrightarrow> button_bit gp b m0 < 2 ^ 16"
proof -
  assume m: "m0 < 2 ^ 16"
  have "push_bit (nat k) 1 < (2 :: nat) ^ 16" if "\<not> k < 0" "\<not> 15 < k" for k :: int
    using that power_strict_increasing_iff [of "2 :: nat" "nat k" 16] by (simp add: push_bit_eq_mult)
  then have "or m0 (push_bit (nat k) 1) < 2 ^ 16" if "\<not> k < 0" "\<not> 15 < k" for k :: int
    using m that by (intro or_16) blast+
  then show ?thesis using m unfolding button_bit_def by (cases "bb_bit b") auto
qed

lemma mask_fits: "buttonMask gp M < 2 ^ 16"
proof -
  have "m0 < 2 ^ 16 \<Longrightarrow> fold (button_bit gp) bs m0 < 2 ^ 16" for bs m0
  proof (induction bs arbitrary: m0)
    case (Cons b bs)
    then show ?case using button_bit_fits by (simp only: fold_simps)
  qed simp
  then show ?thesis by (simp add: buttonMask_def)
qed

lemma axis_value_fits:
  assumes "pad_ok gp" "axis_ok m"
  shows "int_between (-1000) 1000 (axis_value gp m)"
proof (cases m)
  case None
  then show ?thesis by (simp add: axis_value_def int_between_def)
next
  case (Some a)
  then show ?thesis using assms by (simp add: axis_value_def axis_ok_def manual_fits shape_unit axis_finite)
qed

lemma manual_frame_fits:
  "\<lbrakk>int_between (-1000) 1000 x; int_between (-1000) 1000 y; int_between (-1000) 1000 z; int_between (-1000) 1000 r;
    int_between 0 65535 b\<rbrakk> \<Longrightarrow> frame_fits ''MANUAL_CONTROL'' (manual_frame t x y z r b)"
  by (simp add: frame_fits_def manual_frame_def)

lemma release_fits: "MSend d n vs \<in> set (sendRelease t M) \<Longrightarrow> frame_fits n vs"
  using blank_fits [of t] manual_frame_fits [of "Num 0" "Num 0" "Num 0" "Num 0" "Num 0" t]
  by (auto simp: sendRelease_def int_between_def split: manual_mode.splits)

lemma control_fits:
  assumes "config_ok (ms_config M)" "pad_ok gp"
  shows "MSend d n vs \<in> set (sendRcOverride t gp M) \<Longrightarrow> frame_fits n vs" "MSend d n vs \<in> set (sendManualControl t gp M) \<Longrightarrow> frame_fits n vs"
proof -
  have "frame_fits ''MANUAL_CONTROL'' (manual_frame t (axis_value gp (ma_x a)) (axis_value gp (ma_y a)) (axis_value gp (ma_z a))
      (axis_value gp (ma_r a)) (js_nat (buttonMask gp M)))" if "a = mc_manualAxes (ms_config M)" for a
    using assms that mask_fits [of gp M] axis_value_fits [OF assms(2)]
    by (intro manual_frame_fits) (simp_all add: config_ok_def axes_ok_def js_nat_def int_between_def)
  then show "MSend d n vs \<in> set (sendManualControl t gp M) \<Longrightarrow> frame_fits n vs" by (simp add: sendManualControl_def Let_def)
  show "MSend d n vs \<in> set (sendRcOverride t gp M) \<Longrightarrow> frame_fits n vs"
    using override_fits [OF assms] by (simp add: sendRcOverride_def)
qed

section \<open>Laws of all calls\<close>

text \<open>
  A law relates the state before and after some calls by their effects. It is proved of the parts of the calls, and holds
  of every call with whatever listeners it notifies, to any depth. \<open>patch\<close> is what is assumed of the configurations.
\<close>

fun call_ok :: "(manual_patch \<Rightarrow> bool) \<Rightarrow> manual_call \<Rightarrow> bool" where
  "call_ok patch (CSetConfig p) = patch p"
| "call_ok patch _ = True"

definition react_ok :: "(manual_patch \<Rightarrow> bool) \<Rightarrow> reactions \<Rightarrow> bool" where
  "react_ok patch react = (\<forall>l x. \<forall>c\<in>set (react l x). call_ok patch c)"

definition gate_effects :: "string option \<Rightarrow> manual_effect list" where
  "gate_effects f = (if transportSuitability f = SuitableWarn then [MGate f, MWarn] else [MGate f])"

definition release_effects :: "manual_target option \<Rightarrow> manual_service \<Rightarrow> manual_effect list" where
  "release_effects t M = (if mc_releaseOnStop (ms_config M) then sendRelease t M else [])"

text \<open>The tick \<open>k\<close> finds a pad.\<close>

definition pad_of :: "tick_input \<Rightarrow> gamepad option" where
  "pad_of k = (case tk_pad k of Some gp \<Rightarrow> if gp_connected gp = Some False then None else Some gp | None \<Rightarrow> None)"

lemma tick_cases:
  "manual_tick react n k M =
     (if \<not> ms_active M then (M, [])
      else case pad_of k of
        None \<Rightarrow> manual_stop (emitActive react n) StopGamepad (tk_target k) M
      | Some gp \<Rightarrow>
          let (M1, fs) = dispatchActions react n gp (mc_buttons (ms_config M)) M; (M2, gs) = send_control k gp M1 in (M2, fs @ gs))"
  by (simp add: manual_tick_def pad_of_def split: option.split)

locale manual_law =
  fixes law :: "manual_service \<Rightarrow> manual_effect list \<Rightarrow> manual_service \<Rightarrow> bool" and patch :: "manual_patch \<Rightarrow> bool"
  assumes idle: "law M [] M"
    and seq: "law M fs N \<Longrightarrow> law N gs L \<Longrightarrow> law M (fs @ gs) L"
    and noted: "law M [MActive l b r] M" "law M [MAction l a] M" "law M [MBlocked] M"
    and gate: "law M (gate_effects f) M"
    and turn_on: "transportSuitability f \<noteq> SuitableBlocked \<Longrightarrow> \<not> ms_active M \<Longrightarrow>
      law M (gate_effects f @ [MOn]) (M\<lparr>ms_active := True, ms_lastSendAt := None, ms_prevPressed := Map.empty\<rparr>)"
    and turn_off: "ms_active M \<Longrightarrow>
      law M (MOff # release_effects t M) (M\<lparr>ms_active := False, ms_lastSendAt := None, ms_prevPressed := Map.empty\<rparr>)"
    and configure: "patch p \<Longrightarrow> law M [] (setConfig p M)"
    and disposed: "law M [] (M\<lparr>ms_disposed := True\<rparr>)"
    and listeners: "law M [] (M\<lparr>ms_activeListeners := x\<rparr>)" "law M [] (M\<lparr>ms_actionListeners := x\<rparr>)"
    and pressed: "law M [] (M\<lparr>ms_prevPressed := z\<rparr>)"
begin

definition holds :: "manual_service \<Rightarrow> manual_result \<Rightarrow> bool" where
  "holds M R = law M (snd R) (fst R)"

lemma holds_same: "holds M (M, [])"
  by (simp add: holds_def idle)

lemma stop_holds:
  assumes emit: "\<And>b r M. holds M (emit b r M)"
  shows "holds M (manual_stop emit reason t M)"
proof (cases "ms_active M")
  case True
  let ?N = "M\<lparr>ms_active := False, ms_lastSendAt := None, ms_prevPressed := Map.empty\<rparr>"
  have "law M ((MOff # release_effects t M) @ snd (emit False (Some reason) ?N)) (fst (emit False (Some reason) ?N))"
    using seq [OF turn_off [OF True] emit [unfolded holds_def]] .
  moreover have "sendRelease t ?N = sendRelease t M" by (simp add: sendRelease_def split: manual_mode.split)
  ultimately show ?thesis using True by (auto simp: holds_def manual_stop_def release_effects_def split_beta Let_def split: if_splits)
qed (simp add: manual_stop_def holds_same)

lemma start_holds:
  assumes emit: "\<And>b r M. holds M (emit b r M)"
  shows "holds M (gated_start emit f M)"
proof -
  let ?N = "M\<lparr>ms_active := True, ms_lastSendAt := None, ms_prevPressed := Map.empty\<rparr>"
  have on: "law M ((gate_effects f @ [MOn]) @ snd (emit True None ?N)) (fst (emit True None ?N))"
    if "transportSuitability f \<noteq> SuitableBlocked" "\<not> ms_active M"
    using seq [OF turn_on [OF that] emit [unfolded holds_def]] .
  have blocked: "law M (gate_effects f @ [MBlocked]) M" using seq [OF gate noted(3)] .
  show ?thesis
    using on blocked gate [of M f]
    by (cases "transportSuitability f") (auto simp: holds_def gated_start_def manual_start_def gate_effects_def Let_def split_beta)
qed

lemma dispose_holds:
  assumes emit: "\<And>b r M. holds M (emit b r M)"
  shows "holds M (manual_dispose emit t M)"
proof (cases "ms_disposed M")
  case False
  let ?R = "manual_stop emit StopDispose t (M\<lparr>ms_disposed := True\<rparr>)"
  have "law M ([] @ snd ?R) (fst ?R)" using seq [OF disposed stop_holds [OF emit, unfolded holds_def]] .
  from seq [OF seq [OF this listeners(1)] listeners(2)] False show ?thesis by (simp add: holds_def manual_dispose_def split_beta Let_def)
qed (simp add: manual_dispose_def holds_same)

lemma perform_holds: "(\<And>b r M. holds M (emit b r M)) \<Longrightarrow> call_ok patch c \<Longrightarrow> holds M (perform emit c M)"
  by (cases c) (simp_all add: perform_def start_holds stop_holds dispose_holds configure holds_def [of _ "(_, [])"])

lemma calls_hold:
  assumes "\<And>M c. c \<in> set cs \<Longrightarrow> holds M (call c M)"
  shows "holds M (run_steps (\<lambda>M c. call c M) M cs)"
  using assms
proof (induction cs arbitrary: M)
  case (Cons c cs)
  then have "law M (snd (call c M)) (fst (call c M))"
    "law (fst (call c M)) (snd (run_steps (\<lambda>M c. call c M) (fst (call c M)) cs)) (fst (run_steps (\<lambda>M c. call c M) (fst (call c M)) cs))"
    by (simp_all add: holds_def)
  from seq [OF this] show ?case by (simp add: holds_def split_beta Let_def)
qed (simp add: holds_same)

lemma notify_holds:
  assumes call: "\<And>M l c. c \<in> set (calls l) \<Longrightarrow> holds M (call c M)" and marked: "\<And>l M. law M [mark l] M"
  shows "holds M (notify call calls ls mark xs M)"
proof (induction xs arbitrary: M)
  case (Cons l xs)
  let ?R = "run_steps (\<lambda>M c. call c M) M (calls l)"
  have "law M ([mark l] @ snd ?R) (fst ?R)" using seq [OF marked] calls_hold [of "calls l" call M] call by (simp add: holds_def)
  from seq [OF this Cons.IH [of "fst ?R", unfolded holds_def]] Cons.IH [of M] show ?case
    by (simp add: holds_def split_beta Let_def)
qed (simp add: holds_same)

lemma emit_holds:
  assumes "react_ok patch react"
  shows "holds M (emitActive react n b r M)"
proof (induction n arbitrary: b r M)
  case 0
  have "law M (map (\<lambda>l. MActive l b r) ls) M" for ls
  proof (induction ls)
    case (Cons l ls)
    from seq [OF noted(1) this] show ?case by simp
  qed (simp add: idle)
  then show ?case by (simp add: holds_def)
next
  case (Suc n)
  then show ?case using assms by (auto simp: react_ok_def intro!: notify_holds perform_holds noted)
qed

lemma dispatch_holds:
  assumes "react_ok patch react"
  shows "holds M (dispatchActions react n gp bs M)"
proof (induction bs arbitrary: M)
  case (Cons b bs)
  have one: "holds M (dispatch_button react n gp b M)" for M
  proof -
    define N where "N = M\<lparr>ms_prevPressed := (ms_prevPressed M)(bb_button b \<mapsto> isPressed gp (bb_button b))\<rparr>"
    have "law M [] N" unfolding N_def by (rule pressed)
    moreover have "law N (snd (notify (perform (emitActive react n)) (\<lambda>l. react l (ButtonAction a)) ms_actionListeners (\<lambda>l. MAction l a) ls N))
        (fst (notify (perform (emitActive react n)) (\<lambda>l. react l (ButtonAction a)) ms_actionListeners (\<lambda>l. MAction l a) ls N))" for a ls
      using assms emit_holds [OF assms] by (intro notify_holds [unfolded holds_def] perform_holds [unfolded holds_def] noted)
        (auto simp: react_ok_def holds_def)
    ultimately show ?thesis using seq [of M "[]" N] unfolding dispatch_button_def Let_def N_def [symmetric]
      by (auto simp: holds_def split: option.split)
  qed
  from seq [OF one [of M, unfolded holds_def] Cons.IH [unfolded holds_def]] show ?case
    by (simp add: holds_def split_beta Let_def)
qed (simp add: holds_same)

lemma step_holds:
  assumes "react_ok patch react" "\<forall>c. e = MCall c \<longrightarrow> call_ok patch c" "\<forall>k. e = MTick k \<longrightarrow> pad_of k = None \<or> \<not> ms_active M"
  shows "holds M (manual_step react n M e)"
proof (cases e)
  case (MTick k)
  then show ?thesis using assms emit_holds [OF assms(1)]
    by (cases "ms_active M") (simp_all add: manual_step_def tick_cases holds_same stop_holds)
next
  case (MCall c)
  then show ?thesis using assms emit_holds [OF assms(1)] by (simp add: manual_step_def perform_holds)
qed (simp_all add: manual_step_def holds_def listeners)

lemma tick_holds:
  assumes "react_ok patch react" "ms_active M" "pad_of k = Some gp"
  obtains N fs where "law M fs N" "manual_step react n M (MTick k) = (fst (send_control k gp N), fs @ snd (send_control k gp N))"
proof -
  let ?D = "dispatchActions react n gp (mc_buttons (ms_config M)) M"
  have "law M (snd ?D) (fst ?D)" using dispatch_holds [OF assms(1)] by (simp add: holds_def)
  moreover have "manual_step react n M (MTick k) = (fst (send_control k gp (fst ?D)), snd ?D @ snd (send_control k gp (fst ?D)))"
    using assms(2,3) by (simp add: manual_step_def tick_cases split_beta Let_def)
  ultimately show ?thesis by (rule that)
qed

end

section \<open>The frames and the rate\<close>

definition effects_ok :: "(string \<Rightarrow> (string \<times> jsnum) list \<Rightarrow> bool) \<Rightarrow> manual_effect list \<Rightarrow> bool" where
  "effects_ok frame fs = list_all (\<lambda>f. case f of MSend d n vs \<Rightarrow> frame n vs | _ \<Rightarrow> True) fs"

lemma effects_ok_simps [simp]:
  "effects_ok frame []" "effects_ok frame (fs @ gs) = (effects_ok frame fs \<and> effects_ok frame gs)"
  "effects_ok frame (MActive l b r # fs) = effects_ok frame fs" "effects_ok frame (MAction l a # fs) = effects_ok frame fs"
  "effects_ok frame (MBlocked # fs) = effects_ok frame fs" "effects_ok frame (MWarn # fs) = effects_ok frame fs"
  "effects_ok frame (MOn # fs) = effects_ok frame fs" "effects_ok frame (MOff # fs) = effects_ok frame fs"
  "effects_ok frame (MGate f # fs) = effects_ok frame fs"
  "effects_ok frame (MSend d n vs # fs) = (frame n vs \<and> effects_ok frame fs)"
  by (simp_all add: effects_ok_def)

lemma effects_okI: "(\<And>d n vs. MSend d n vs \<in> set fs \<Longrightarrow> frame n vs) \<Longrightarrow> effects_ok frame fs"
  by (auto simp: effects_ok_def list_all_iff split: manual_effect.split)

lemma gate_ok [simp]: "effects_ok frame (gate_effects f)"
  by (simp add: gate_effects_def)

definition fits_law :: "manual_service \<Rightarrow> manual_effect list \<Rightarrow> manual_service \<Rightarrow> bool" where
  "fits_law M fs N = (config_ok (ms_config M) \<longrightarrow> config_ok (ms_config N) \<and> effects_ok frame_fits fs)"

interpretation fitting: manual_law fits_law patch_ok
  by unfold_locales
    (auto simp: fits_law_def release_effects_def setConfig_def intro!: effects_okI intro: merge_ok release_fits)

fun event_ok :: "(manual_patch \<Rightarrow> bool) \<Rightarrow> (gamepad \<Rightarrow> bool) \<Rightarrow> manual_event \<Rightarrow> bool" where
  "event_ok patch pad (MTick k) = (case tk_pad k of Some gp \<Rightarrow> pad gp | None \<Rightarrow> True)"
| "event_ok patch pad (MCall c) = call_ok patch c"
| "event_ok patch pad _ = True"

lemma control_fits_law: "pad_ok gp \<Longrightarrow> fits_law M (snd (send_control k gp M)) (fst (send_control k gp M))"
  using control_fits [of "M\<lparr>ms_lastSendAt := Some (tk_now k)\<rparr>" gp]
  by (auto simp: fits_law_def send_control_def Let_def intro!: effects_okI split: manual_mode.splits)

lemma fits_step:
  assumes "react_ok patch_ok react" "event_ok patch_ok pad_ok e"
  shows "fits_law M (snd (manual_step react n M e)) (fst (manual_step react n M e))"
proof (cases "\<exists>k gp. e = MTick k \<and> ms_active M \<and> pad_of k = Some gp")
  case True
  then obtain k gp where k: "e = MTick k" "ms_active M" "pad_of k = Some gp" by blast
  obtain N fs where N: "fits_law M fs N" "manual_step react n M (MTick k) = (fst (send_control k gp N), fs @ snd (send_control k gp N))"
    using fitting.tick_holds [OF assms(1) k(2,3)] .
  have "pad_ok gp" using assms(2) k by (auto simp: pad_of_def split: option.splits if_splits)
  then show ?thesis using fitting.seq [OF N(1) control_fits_law] N(2) k(1) by simp
next
  case False
  then have "\<forall>k. e = MTick k \<longrightarrow> pad_of k = None \<or> \<not> ms_active M" by (metis not_None_eq)
  moreover have "\<forall>c. e = MCall c \<longrightarrow> call_ok patch_ok c" using assms(2) by auto
  ultimately show ?thesis using fitting.step_holds [OF assms(1)] by (simp add: fitting.holds_def)
qed

lemma fits_run:
  assumes "react_ok patch_ok react" "\<forall>e\<in>set es. event_ok patch_ok pad_ok e"
  shows "fits_law M (snd (run_steps (manual_step react n) M es)) (fst (run_steps (manual_step react n) M es))"
  using assms(2)
proof (induction es arbitrary: M)
  case (Cons e es)
  have "fits_law M (snd (manual_step react n M e)) (fst (manual_step react n M e))" using fits_step [OF assms(1)] Cons.prems by simp
  from fitting.seq [OF this Cons.IH] Cons.prems show ?case by (simp add: split_beta Let_def)
qed (simp add: fitting.idle)

text \<open>The rate is always within its bounds, whatever is configured.\<close>

definition rate_ok :: "manual_config \<Rightarrow> bool" where
  "rate_ok c = (case js_val (mc_rateHz c) of Some q \<Rightarrow> 1 \<le> q \<and> q \<le> 50 | None \<Rightarrow> False)"

lemma clamped_rate: "\<exists>q. js_val (clampRate hz) = Some q \<and> 1 \<le> q \<and> q \<le> 50"
proof -
  have "(if js_is_finite hz then hz else DEFAULT_RATE_HZ) \<noteq> NaN" by (simp add: js_is_finite_def DEFAULT_RATE_HZ_def) auto
  from clamp_bounds [OF this, of 1 50] show ?thesis by (auto simp: clampRate_def MIN_RATE_HZ_def MAX_RATE_HZ_def)
qed

lemma rate_merge: "rate_ok c \<Longrightarrow> rate_ok (merge_config c p)"
  using clamped_rate [of "the (mp_rateHz p)"] by (cases "mp_rateHz p") (auto simp: rate_ok_def merge_config_def)

lemma interval_bound:
  assumes "rate_ok c"
  shows "send_interval c = PosInf \<or> (\<exists>r. send_interval c = Num r \<and> 20 \<le> r)"
proof -
  obtain q where q: "js_val (mc_rateHz c) = Some q" "1 \<le> q" "q \<le> 50" using assms by (auto simp: rate_ok_def split: option.splits)
  then have "mc_rateHz c = Num q" by (cases "mc_rateHz c") auto
  then have "send_interval c = fl (1000 / q)" using q by (simp add: send_interval_def js_div_def Let_def)
  moreover have "20 \<le> 1000 / q" using q by (simp add: field_simps)
  ultimately show ?thesis using fl_lower [of 20 "1000 / q"] by simp
qed

section \<open>Activations\<close>

definition is_frame :: "manual_effect \<Rightarrow> bool" where
  "is_frame f = (case f of MSend d n vs \<Rightarrow> True | _ \<Rightarrow> False)"

definition is_sticks :: "manual_effect \<Rightarrow> bool" where
  "is_sticks f = (case f of MSend d n vs \<Rightarrow> d = Sticks | _ \<Rightarrow> False)"

definition frames_of :: "manual_effect list \<Rightarrow> manual_effect list" where
  "frames_of fs = filter is_frame fs"

definition sticks_of :: "manual_effect list \<Rightarrow> manual_effect list" where
  "sticks_of fs = filter is_sticks fs"

text \<open>Whether the service is active after the effects, from whether it was before.\<close>

fun turned :: "bool \<Rightarrow> manual_effect list \<Rightarrow> bool" where
  "turned a [] = a"
| "turned a (MOn # fs) = turned True fs"
| "turned a (MOff # fs) = turned False fs"
| "turned a (f # fs) = turned a fs"

text \<open>Every activation comes right after the gate saw a link that is not blocked.\<close>

definition gated :: "manual_effect list \<Rightarrow> bool" where
  "gated fs = (\<forall>xs ys. fs = xs @ MOn # ys \<longrightarrow> (\<exists>zs f. xs = zs @ gate_effects f \<and> transportSuitability f \<noteq> SuitableBlocked))"

lemma turned_append [simp]: "turned a (fs @ gs) = turned (turned a fs) gs"
  by (induction a fs rule: turned.induct) simp_all

lemma turned_off: "MOn \<notin> set fs \<Longrightarrow> \<not> turned False fs"
  by (induction "False" fs rule: turned.induct) simp_all

lemma turned_on: "MOff \<notin> set fs \<Longrightarrow> turned True fs"
  by (induction "True" fs rule: turned.induct) simp_all

lemma gated_quiet: "MOn \<notin> set fs \<Longrightarrow> gated fs"
  by (auto simp: gated_def)

lemma gated_append:
  assumes "gated fs" "gated gs"
  shows "gated (fs @ gs)"
proof -
  have "\<exists>zs f. xs = zs @ gate_effects f \<and> transportSuitability f \<noteq> SuitableBlocked" if "fs @ gs = xs @ MOn # ys" for xs ys
    using that unfolding append_eq_append_conv2
  proof (elim exE disjE conjE)
    fix us assume us: "fs = xs @ us" "us @ gs = MOn # ys"
    show ?thesis
    proof (cases us)
      case Nil
      then obtain zs f where "[] = zs @ gate_effects f" using assms(2) us unfolding gated_def by fastforce
      then show ?thesis by (simp add: gate_effects_def split: if_splits)
    next
      case (Cons u vs)
      then show ?thesis using assms(1) us unfolding gated_def by simp
    qed
  next
    fix us assume us: "fs @ us = xs" "gs = us @ MOn # ys"
    then obtain zs f where "us = zs @ gate_effects f" "transportSuitability f \<noteq> SuitableBlocked"
      using assms(2) unfolding gated_def by blast
    then show ?thesis using us(1) by (intro exI [of _ "fs @ zs"] exI [of _ f]) simp
  qed
  then show ?thesis by (simp add: gated_def)
qed

lemma gate_effects_plain [simp]: "MOn \<notin> set (gate_effects f)" "MOff \<notin> set (gate_effects f)"
  "turned a (gate_effects f) = a" "frames_of (gate_effects f) = []" "sticks_of (gate_effects f) = []"
  by (simp_all add: gate_effects_def frames_of_def is_frame_def sticks_of_def is_sticks_def)

lemma frames_simps [simp]:
  "frames_of [] = []" "frames_of (fs @ gs) = frames_of fs @ frames_of gs" "frames_of (MActive l b r # fs) = frames_of fs"
  "frames_of (MAction l a # fs) = frames_of fs" "frames_of (MBlocked # fs) = frames_of fs" "frames_of (MWarn # fs) = frames_of fs"
  "frames_of (MOn # fs) = frames_of fs" "frames_of (MOff # fs) = frames_of fs" "frames_of (MGate f # fs) = frames_of fs"
  "frames_of (MSend d n vs # fs) = MSend d n vs # frames_of fs"
  by (simp_all add: frames_of_def is_frame_def)

lemma sticks_simps [simp]:
  "sticks_of [] = []" "sticks_of (fs @ gs) = sticks_of fs @ sticks_of gs" "sticks_of (MActive l b r # fs) = sticks_of fs"
  "sticks_of (MAction l a # fs) = sticks_of fs" "sticks_of (MBlocked # fs) = sticks_of fs" "sticks_of (MWarn # fs) = sticks_of fs"
  "sticks_of (MOn # fs) = sticks_of fs" "sticks_of (MOff # fs) = sticks_of fs" "sticks_of (MGate f # fs) = sticks_of fs"
  "sticks_of (MSend d n vs # fs) = (if d = Sticks then MSend d n vs # sticks_of fs else sticks_of fs)"
  by (simp_all add: sticks_of_def is_sticks_def)

lemma release_plain [simp]: "MOn \<notin> set (release_effects t M)" "turned a (release_effects t M) = a" "sticks_of (release_effects t M) = []"
  "frames_of (release_effects t M) = release_effects t M"
  by (simp_all add: release_effects_def sendRelease_def split: manual_mode.split)

text \<open>
  The law of activations, of all calls but the sending of the sticks: the marks \<open>MOn\<close>, \<open>MOff\<close> tell whether the service is
  active, activations passed the gate, no stick is moved, an inactive service that is not started sends nothing, and a
  service that stays active keeps the time of its last frame.
\<close>

definition active_law :: "manual_service \<Rightarrow> manual_effect list \<Rightarrow> manual_service \<Rightarrow> bool" where
  "active_law M fs N \<longleftrightarrow> ms_active N = turned (ms_active M) fs \<and> gated fs \<and> sticks_of fs = [] \<and>
     (\<not> ms_active M \<longrightarrow> MOn \<notin> set fs \<longrightarrow> frames_of fs = []) \<and>
     (ms_active M \<longrightarrow> MOn \<notin> set fs \<longrightarrow> MOff \<notin> set fs \<longrightarrow> ms_lastSendAt N = ms_lastSendAt M) \<and>
     (rate_ok (ms_config M) \<longrightarrow> rate_ok (ms_config N))"

lemma active_seq:
  assumes "active_law M fs N" "active_law N gs L"
  shows "active_law M (fs @ gs) L"
proof -
  have "frames_of gs = []" if "\<not> ms_active M" "MOn \<notin> set (fs @ gs)"
    using assms that turned_off [of fs] by (simp add: active_law_def)
  moreover have "ms_lastSendAt L = ms_lastSendAt M" if "ms_active M" "MOn \<notin> set (fs @ gs)" "MOff \<notin> set (fs @ gs)"
    using assms that turned_on [of fs] by (simp add: active_law_def)
  ultimately show ?thesis using assms gated_append by (simp add: active_law_def)
qed

interpretation active: manual_law active_law "\<lambda>_. True"
proof
  show "active_law M (gate_effects f @ [MOn]) (M\<lparr>ms_active := True, ms_lastSendAt := None, ms_prevPressed := Map.empty\<rparr>)"
    if "transportSuitability f \<noteq> SuitableBlocked" "\<not> ms_active M" for M f
  proof -
    have "xs = gate_effects f" if "gate_effects f @ [MOn] = xs @ MOn # ys" for xs ys
      using that gate_effects_plain(1) [of f] by (cases ys rule: rev_cases) auto
    then have "gated (gate_effects f @ [MOn])" using that unfolding gated_def by (metis append_Nil)
    then show ?thesis using that by (simp add: active_law_def)
  qed
  show "active_law M (MOff # release_effects t M) (M\<lparr>ms_active := False, ms_lastSendAt := None, ms_prevPressed := Map.empty\<rparr>)"
    if "ms_active M" for M t using that by (simp add: active_law_def gated_quiet)
  show "active_law M (fs @ gs) L" if "active_law M fs N" "active_law N gs L" for M fs N gs L
    using that by (rule active_seq)
qed (simp_all add: active_law_def gated_quiet setConfig_def rate_merge)

lemma no_call_restriction: "call_ok (\<lambda>_. True) c"
  by (cases c) simp_all

lemma no_restriction: "react_ok (\<lambda>_. True) react"
  by (simp add: react_ok_def no_call_restriction)

text \<open>Sending the sticks.\<close>

definition may_send :: "tick_input \<Rightarrow> manual_service \<Rightarrow> bool" where
  "may_send k M \<longleftrightarrow> (mc_requireArmed (ms_config M) \<longrightarrow> tk_armed k) \<and> \<not> too_soon (tk_now k) M"

lemma control_cases:
  "if may_send k M then fst (send_control k gp M) = M\<lparr>ms_lastSendAt := Some (tk_now k)\<rparr> \<and> sticks_of (snd (send_control k gp M)) \<noteq> []
   else send_control k gp M = (M, [])"
  by (auto simp: may_send_def send_control_def Let_def sendRcOverride_def sendManualControl_def split: manual_mode.split)

lemma control_marks: "MOn \<notin> set (snd (send_control k gp M))" "MOff \<notin> set (snd (send_control k gp M))"
  "turned a (snd (send_control k gp M)) = a"
  by (auto simp: send_control_def Let_def sendRcOverride_def sendManualControl_def split: manual_mode.split)

lemma control_fields [simp]: "ms_active (fst (send_control k gp M)) = ms_active M" "ms_config (fst (send_control k gp M)) = ms_config M"
  by (simp_all add: send_control_def Let_def)

text \<open>A step is under the law of activations, but for the frame of the sticks a tick sends.\<close>

lemma active_step:
  obtains (plain) "active_law M (snd (manual_step react n M e)) (fst (manual_step react n M e))"
  | (tick) k gp N fs where "e = MTick k" "pad_of k = Some gp" "ms_active M" "active_law M fs N"
      "manual_step react n M e = (fst (send_control k gp N), fs @ snd (send_control k gp N))"
proof (cases "\<exists>k gp. e = MTick k \<and> ms_active M \<and> pad_of k = Some gp")
  case True
  then obtain k gp where k: "e = MTick k" "ms_active M" "pad_of k = Some gp" by blast
  then show ?thesis using active.tick_holds [OF no_restriction k(2,3), of react n] tick by metis
next
  case False
  then have tick: "\<forall>k. e = MTick k \<longrightarrow> pad_of k = None \<or> \<not> ms_active M" by (metis not_None_eq)
  then show ?thesis using plain active.step_holds [OF no_restriction _ tick] by (simp add: active.holds_def no_call_restriction)
qed

lemma step_marks:
  "ms_active (fst (manual_step react n M e)) = turned (ms_active M) (snd (manual_step react n M e)) \<and>
   gated (snd (manual_step react n M e)) \<and> (rate_ok (ms_config M) \<longrightarrow> rate_ok (ms_config (fst (manual_step react n M e))))"
proof (cases rule: active_step [of M react n e])
  case plain
  then show ?thesis by (simp add: active_law_def)
next
  case (tick k gp N fs)
  have "gated (fs @ snd (send_control k gp N))"
    using tick(4) by (intro gated_append gated_quiet [of "snd _"] control_marks) (simp add: active_law_def)
  then show ?thesis using tick by (simp add: active_law_def control_marks)
qed

lemma run_marks:
  "ms_active (fst (run_steps (manual_step react n) M es)) = turned (ms_active M) (snd (run_steps (manual_step react n) M es)) \<and>
   gated (snd (run_steps (manual_step react n) M es)) \<and>
   (rate_ok (ms_config M) \<longrightarrow> rate_ok (ms_config (fst (run_steps (manual_step react n) M es))))"
proof (induction es arbitrary: M)
  case (Cons e es)
  then show ?case using step_marks [of react n M e] by (simp add: split_beta Let_def gated_append)
qed (simp add: gated_quiet)

text \<open>An inactive service that is not started sends nothing.\<close>

lemma inactive_run:
  assumes "\<not> ms_active M" "MOn \<notin> set (snd (run_steps (manual_step react n) M es))"
  shows "frames_of (snd (run_steps (manual_step react n) M es)) = []"
  using assms
proof (induction es arbitrary: M)
  case (Cons e es)
  let ?R = "manual_step react n M e"
  have on: "MOn \<notin> set (snd ?R)" using Cons.prems(2) by (simp add: split_beta Let_def)
  have "active_law M (snd ?R) (fst ?R)" using Cons.prems(1) by (cases rule: active_step [of M react n e]) simp_all
  then have "\<not> ms_active (fst ?R)" "frames_of (snd ?R) = []" using on Cons.prems(1) turned_off by (simp_all add: active_law_def)
  then show ?case using Cons.IH [of "fst ?R"] Cons.prems(2) by (simp add: split_beta Let_def)
qed simp

text \<open>In one activation the time of the last frame of the sticks is kept until the next one.\<close>

lemma time_kept:
  assumes "ms_active M \<longrightarrow> ms_lastSendAt M = Some t" "MOn \<notin> set (snd (run_steps (manual_step react n) M es))"
    "sticks_of (snd (run_steps (manual_step react n) M es)) = []"
  shows "ms_active (fst (run_steps (manual_step react n) M es)) \<longrightarrow> ms_lastSendAt (fst (run_steps (manual_step react n) M es)) = Some t"
  using assms
proof (induction es arbitrary: M)
  case (Cons e es)
  let ?R = "manual_step react n M e"
  have on: "MOn \<notin> set (snd ?R)" and st: "sticks_of (snd ?R) = []" using Cons.prems(2,3) by (simp_all add: split_beta Let_def)
  have law: "active_law M (snd ?R) (fst ?R)"
  proof (cases rule: active_step [of M react n e])
    case (tick k gp N fs)
    then have "send_control k gp N = (N, [])" using st control_cases [of k N gp] by (auto split: if_splits)
    then show ?thesis using tick by simp
  qed
  have "ms_lastSendAt (fst ?R) = Some t" if active: "ms_active (fst ?R)"
  proof -
    have "MOff \<notin> set (snd ?R)"
    proof
      assume "MOff \<in> set (snd ?R)"
      then obtain xs ys where "snd ?R = xs @ MOff # ys" using split_list by fastforce
      then have "\<not> ms_active (fst ?R)" using law on turned_off [of ys] by (simp add: active_law_def)
      with active show False by simp
    qed
    moreover have "ms_active M" using law on active turned_off by (cases "ms_active M") (simp_all add: active_law_def)
    ultimately show ?thesis using law on Cons.prems(1) by (simp add: active_law_def)
  qed
  then show ?case using Cons.IH [of "fst ?R"] Cons.prems(2,3) by (simp add: split_beta Let_def)
qed simp

text \<open>The events that stop an active service, with the target of the release.\<close>

definition stop_target :: "manual_event \<Rightarrow> manual_target option option" where
  "stop_target e =
     (case e of
        MCall (CStop t) \<Rightarrow> Some t
      | MCall (CDispose t) \<Rightarrow> Some t
      | MTick k \<Rightarrow> if pad_of k = None then Some (tk_target k) else None
      | _ \<Rightarrow> None)"

lemma stop_step:
  assumes "ms_active M" "\<not> ms_disposed M" "stop_target e = Some t"
  shows "\<exists>N fs. active_law (N :: manual_service) fs (fst (manual_step react n M e)) \<and> \<not> ms_active N \<and>
    snd (manual_step react n M e) = MOff # release_effects t M @ fs"
proof -
  have stop: "\<exists>N fs. active_law (N :: manual_service) fs (fst (manual_stop (emitActive react n) reason t M)) \<and> \<not> ms_active N \<and>
    snd (manual_stop (emitActive react n) reason t M) = MOff # release_effects t M @ fs" if "ms_active M" for M and t :: "manual_target option" and reason
  proof -
    let ?N = "M\<lparr>ms_active := False, ms_lastSendAt := None, ms_prevPressed := Map.empty\<rparr>"
    have "sendRelease t ?N = sendRelease t M" by (simp add: sendRelease_def split: manual_mode.split)
    then have "fst (manual_stop (emitActive react n) reason t M) = fst (emitActive react n False (Some reason) ?N)"
      "snd (manual_stop (emitActive react n) reason t M) = MOff # release_effects t M @ snd (emitActive react n False (Some reason) ?N)"
      using that by (simp_all add: manual_stop_def release_effects_def split_beta Let_def)
    then show ?thesis using active.emit_holds [OF no_restriction, of ?N react n False "Some reason"]
      by (intro exI [of _ ?N] exI [of _ "snd (emitActive react n False (Some reason) ?N)"]) (simp add: active.holds_def)
  qed
  have dispose: "\<exists>N fs. active_law (N :: manual_service) fs (fst (manual_dispose (emitActive react n) t M)) \<and> \<not> ms_active N \<and>
    snd (manual_dispose (emitActive react n) t M) = MOff # release_effects t M @ fs"
  proof -
    let ?D = "M\<lparr>ms_disposed := True\<rparr>"
    obtain N fs where N: "active_law N fs (fst (manual_stop (emitActive react n) StopDispose t ?D))" "\<not> ms_active N"
      "snd (manual_stop (emitActive react n) StopDispose t ?D) = MOff # release_effects t ?D @ fs"
      using stop [of ?D StopDispose t] assms(1) by auto
    have "release_effects t ?D = release_effects t M"
      by (simp add: release_effects_def sendRelease_def split: manual_mode.split)
    then show ?thesis using active_seq [OF active_seq [OF N(1) active.listeners(1)] active.listeners(2)] N(2,3) assms(2)
      by (intro exI [of _ N] exI [of _ fs]) (simp add: manual_dispose_def split_beta Let_def)
  qed
  show ?thesis
    using assms stop dispose
    by (auto simp: stop_target_def manual_step_def perform_def tick_cases split: manual_event.splits manual_call.splits if_splits)
qed


section \<open>Properties\<close>

abbreviation manual_run :: "reactions \<Rightarrow> nat \<Rightarrow> manual_patch \<Rightarrow> manual_event list \<Rightarrow> manual_result" where
  "manual_run react n p es \<equiv> run_steps (manual_step react n) (createManualControlService p) es"

lemma created [simp]: "\<not> ms_active (createManualControlService p)" "ms_config (createManualControlService p) = merge_config DEFAULT_MANUAL_CONFIG p"
  by (simp_all add: createManualControlService_def)

text \<open>A service that is active in the end was turned on last.\<close>

lemma turned_on_last: "turned False fs \<Longrightarrow> \<exists>pre post. fs = pre @ MOn # post \<and> MOn \<notin> set post \<and> MOff \<notin> set post"
proof (induction fs rule: rev_induct)
  case (snoc f fs)
  consider "f = MOn" | "f = MOff" | "f \<noteq> MOn" "f \<noteq> MOff" by blast
  then show ?case
  proof cases
    case 1
    then show ?thesis by (intro exI [of _ fs] exI [of _ "[]"]) simp
  next
    case 2
    then show ?thesis using snoc.prems by simp
  next
    case 3
    then have "turned a [f] = a" for a by (cases f) simp_all
    then obtain pre post where "fs = pre @ MOn # post" "MOn \<notin> set post" "MOff \<notin> set post" using snoc by auto
    then show ?thesis using 3 by (intro exI [of _ pre] exI [of _ "post @ [f]"]) auto
  qed
qed simp

lemma sticks_mem: "MSend Sticks nm vs \<in> set fs \<Longrightarrow> sticks_of fs \<noteq> []"
  by (auto simp: sticks_of_def is_sticks_def filter_empty_conv intro!: bexI [of _ "MSend Sticks nm vs"])

text \<open>Whatever sends the sticks is a tick of the active service, and what it found.\<close>

lemma sticks_tick:
  assumes "sticks_of (snd (manual_step react n M e)) \<noteq> []"
  obtains k gp N fs where "e = MTick k" "pad_of k = Some gp" "ms_active M" "active_law M fs N" "may_send k N"
    "manual_step react n M e = (N\<lparr>ms_lastSendAt := Some (tk_now k)\<rparr>, fs @ snd (send_control k gp N))"
proof (cases rule: active_step [of M react n e])
  case plain
  then show ?thesis using assms by (simp add: active_law_def)
next
  case (tick k gp N fs)
  then have "sticks_of (snd (send_control k gp N)) \<noteq> []" using assms by (simp add: active_law_def)
  then have "may_send k N" "fst (send_control k gp N) = N\<lparr>ms_lastSendAt := Some (tk_now k)\<rparr>"
    using control_cases [of k N gp] by (auto split: if_splits)
  then show ?thesis using tick that by simp
qed

text \<open>
  C22. Whatever the sticks, the clock and the listeners do, every frame that is sent has the fields of its message with values
  in range: pulses of a whole number of microseconds between 0 and 65535 on all 18 channels, axes between -1000
  and 1000, a mask of 16 bits. This needs that no axis of a pad is NaN, that the configured pulses are themselves in range
  and that no trim is NaN; the arithmetic is that of doubles.
\<close>

theorem manual_frames_fit:
  assumes "patch_ok p" "\<forall>e\<in>set es. event_ok patch_ok pad_ok e" "react_ok patch_ok react"
    "MSend d nm vs \<in> set (snd (manual_run react n p es))"
  shows "frame_fits nm vs"
proof -
  have "config_ok (ms_config (createManualControlService p))" using config_default assms(1) by (simp add: merge_ok)
  then have "effects_ok frame_fits (snd (manual_run react n p es))"
    using fits_run [OF assms(3,2), of "createManualControlService p" n] by (simp add: fits_law_def)
  then show ?thesis using assms(4) by (fastforce simp: effects_ok_def list_all_iff)
qed

text \<open>
  C23. A frame of the sticks is sent only by a tick that finds the service active and a connected pad, and only if the
  vehicle is armed, where the configuration at that moment asks for that. The activation is the latest one: since it the
  service was not stopped, and right before it the gate was asked and saw a link that is not blocked. This holds for whatever calls
  the listeners of actions and of activity make. What is not excluded: a listener that stops the service during the tick
  itself does not keep that tick from sending (the second run of \<open>release_can_miss\<close>); then, and only then, the service is
  not active afterwards.
\<close>

theorem manual_control_is_gated:
  assumes "manual_run react n p es = (M, fs)" "MSend Sticks nm vs \<in> set (snd (manual_step react n M e))"
  shows "\<exists>k gp f pre post. e = MTick k \<and> tk_pad k = Some gp \<and> gp_connected gp \<noteq> Some False \<and> ms_active M \<and>
    (mc_requireArmed (ms_config (fst (manual_step react n M e))) \<longrightarrow> tk_armed k) \<and>
    fs = pre @ gate_effects f @ MOn # post \<and> transportSuitability f \<noteq> SuitableBlocked \<and> MOn \<notin> set post \<and> MOff \<notin> set post \<and>
    (ms_active (fst (manual_step react n M e)) \<or> MOff \<in> set (snd (manual_step react n M e)))"
proof -
  obtain k gp N gs where k: "e = MTick k" "pad_of k = Some gp" "ms_active M" "active_law M gs N" "may_send k N"
    "manual_step react n M e = (N\<lparr>ms_lastSendAt := Some (tk_now k)\<rparr>, gs @ snd (send_control k gp N))"
    using sticks_tick [OF sticks_mem [OF assms(2)]] .
  have "tk_pad k = Some gp \<and> gp_connected gp \<noteq> Some False" using k(2) by (auto simp: pad_of_def split: option.splits if_splits)
  moreover have "mc_requireArmed (ms_config (fst (manual_step react n M e))) \<longrightarrow> tk_armed k" using k(5,6) by (simp add: may_send_def)
  moreover obtain pre f post where "fs = pre @ gate_effects f @ MOn # post" "transportSuitability f \<noteq> SuitableBlocked"
    "MOn \<notin> set post" "MOff \<notin> set post"
  proof -
    have "turned False fs" "gated fs"
      using run_marks [of react n "createManualControlService p" es] assms(1) k(3) by simp_all
    then show ?thesis using turned_on_last [of fs] that unfolding gated_def by (metis append.assoc)
  qed
  moreover have "ms_active (fst (manual_step react n M e)) \<or> MOff \<in> set (snd (manual_step react n M e))"
    using k(3,4,6) turned_on [of gs] by (auto simp: active_law_def)
  ultimately show ?thesis using k(1,3) by blast
qed

text \<open>
  C24. Stopping is final. When the active service is stopped, disposed of, or finds no pad, it is turned off, and what it sends
  from then on until it is started again is exactly one release (nothing, if the configuration turned that off): the override
  frame that gives all 18 channels back, or the neutral \<open>MANUAL_CONTROL\<close>, by the mode of that moment. This holds for whatever
  the listeners call. It is about these three ways to stop: a listener that stops the service in the middle of a tick is the
  exception shown by \<open>release_can_miss\<close>.
\<close>

theorem manual_stop_releases:
  assumes "ms_active M" "\<not> ms_disposed M" "stop_target e = Some t" "MOn \<notin> set (snd (run_steps (manual_step react n) M (e # es)))"
    "release = (case mc_mode (ms_config M) of
        ModeRc \<Rightarrow> MSend Release ''RC_CHANNELS_OVERRIDE''
          ([(''target_system'', js_nat (mt_sysid (or_target t))), (''target_component'', js_nat (mt_compid (or_target t)))]
           @ map (\<lambda>ch. (''chan'' @ nat_to_string ch @ ''_raw'', Num 0)) [1..<19])
      | ModeManual \<Rightarrow> MSend Release ''MANUAL_CONTROL''
          [(''target'', js_nat (mt_sysid (or_target t))), (''x'', Num 0), (''y'', Num 0), (''z'', Num 0), (''r'', Num 0), (''buttons'', Num 0)])"
  shows "\<exists>rest. snd (run_steps (manual_step react n) M (e # es)) = MOff # rest \<and>
    frames_of rest = (if mc_releaseOnStop (ms_config M) then [release] else [])"
proof -
  obtain N gs where N: "active_law N gs (fst (manual_step react n M e))" "\<not> ms_active N"
    "snd (manual_step react n M e) = MOff # release_effects t M @ gs"
    using stop_step [OF assms(1-3)] by blast
  let ?R = "run_steps (manual_step react n) (fst (manual_step react n M e)) es"
  have on: "MOn \<notin> set gs" "MOn \<notin> set (snd ?R)" using assms(4) N(3) by (simp_all add: split_beta Let_def)
  have "frames_of gs = []" "\<not> ms_active (fst (manual_step react n M e))"
    using N(1,2) on(1) turned_off by (simp_all add: active_law_def)
  moreover have "frames_of (snd ?R) = []" using calculation(2) on(2) by (rule inactive_run)
  moreover have "release_effects t M = (if mc_releaseOnStop (ms_config M) then [release] else [])"
    by (simp add: release_effects_def sendRelease_def assms(5) blankOverride_def manual_frame_def chan_name_def RC_OVERRIDE_IGNORE_def
        RC_OVERRIDE_CHANNELS_def split: manual_mode.split)
  ultimately show ?thesis using N(3) release_plain(4) [of t M] by (simp add: split_beta Let_def)
qed

text \<open>
  C25. Two successive frames of the sticks in one activation are at least 20 milliseconds apart, however fast the service is
  pumped, whatever rate was configured or is configured meanwhile and whatever the listeners call: if no frame of the sticks is
  sent and the service is not started between two ticks that send one, and the second tick does not itself restart it, the
  clock has moved on by no less than 20. A restart clears the limiter: the first frame after it is sent at once.
\<close>

theorem manual_rate_is_bounded:
  assumes "M = fst (manual_run react n p es)" "sticks_of (snd (manual_step react n M (MTick k))) \<noteq> []"
    "run_steps (manual_step react n) (fst (manual_step react n M (MTick k))) es' = (L, between)" "MOn \<notin> set between" "sticks_of between = []"
    "sticks_of (snd (manual_step react n L (MTick k'))) \<noteq> []"
    "MOn \<notin> set (snd (manual_step react n L (MTick k')))" "MOff \<notin> set (snd (manual_step react n L (MTick k')))"
  shows "\<not> js_lt (js_sub (tk_now k') (tk_now k)) (Num 20)"
proof -
  let ?N = "fst (manual_step react n M (MTick k))"
  have first: "ms_lastSendAt ?N = Some (tk_now k)" using sticks_tick [OF assms(2)] by (metis fst_conv manual_event.inject(1)
        manual_service.select_convs(4) manual_service.surjective manual_service.update_convs(4))
  obtain gp N gs where N: "ms_active L" "active_law L gs N" "may_send k' N"
    "manual_step react n L (MTick k') = (N\<lparr>ms_lastSendAt := Some (tk_now k')\<rparr>, gs @ snd (send_control k' gp N))"
    using sticks_tick [OF assms(6)] by (metis manual_event.inject(1))
  have "ms_lastSendAt L = Some (tk_now k)" using time_kept [of ?N "tk_now k" react n es'] first assms(3-5) N(1) by simp
  then have "ms_lastSendAt N = Some (tk_now k)" using N assms(7,8) by (simp add: active_law_def)
  then have late: "\<not> js_lt (js_sub (tk_now k') (tk_now k)) (send_interval (ms_config N))"
    using N(3) by (simp add: may_send_def too_soon_def)
  have "rate_ok (ms_config (createManualControlService p))"
    unfolding created by (rule rate_merge) (simp add: rate_ok_def DEFAULT_MANUAL_CONFIG_def DEFAULT_RATE_HZ_def)
  then have "rate_ok (ms_config M)" using run_marks assms(1) by blast
  then have "rate_ok (ms_config ?N)" using step_marks by blast
  then have "rate_ok (ms_config L)" using run_marks [of react n ?N es'] assms(3) by simp
  then have "rate_ok (ms_config N)" using N(2) by (simp add: active_law_def)
  from interval_bound [OF this] late show ?thesis by (cases "js_sub (tk_now k') (tk_now k)") auto
qed


text \<open>
  The release can miss the vehicle. When the mode of an active service is changed from channel overrides to
  \<open>MANUAL_CONTROL\<close>, stopping sends a neutral \<open>MANUAL_CONTROL\<close> and no override frame, so that the channels stay overridden. And when
  a listener of a button action stops the service during a tick, that tick goes on: the frame of the sticks follows the release,
  and the service is stopped with channel 3 overridden.
\<close>

definition throttle_patch :: manual_patch where
  "throttle_patch =
     \<lparr>mp_mode = None, mp_rateHz = None,
      mp_rcChannels = Some [\<lparr>rm_axis = 0, rm_channel = 3,
        rm_shape = \<lparr>sh_reverse = False, sh_deadzone = Num 0, sh_expo = Num 0, sh_trim = Num 0\<rparr>, rm_range = None\<rparr>],
      mp_manualAxes = None, mp_buttons = Some [\<lparr>bb_button = 0, bb_bit = None, bb_action = Some ''off''\<rparr>],
      mp_requireArmed = None, mp_releaseOnStop = None\<rparr>"

definition to_manual :: manual_patch where
  "to_manual =
     \<lparr>mp_mode = Some ModeManual, mp_rateHz = None, mp_rcChannels = None, mp_manualAxes = None, mp_buttons = None,
      mp_requireArmed = None, mp_releaseOnStop = None\<rparr>"

definition centred_tick :: "bool \<Rightarrow> rat \<Rightarrow> tick_input" where
  "centred_tick pressed t =
     \<lparr>tk_pad = Some \<lparr>gp_axes = [Num 0], gp_buttons = [pressed], gp_connected = Some True\<rparr>, tk_now = Num t, tk_target = None, tk_armed = False\<rparr>"

definition no_calls :: reactions where
  "no_calls l x = []"

text \<open>A listener that stops the service on a button and, when it is stopped, calls \<open>stop\<close> again.\<close>

definition stops :: reactions where
  "stops l x = (case x of ButtonAction a \<Rightarrow> [CStop None] | Activity b r \<Rightarrow> if b then [] else [CStop None])"

definition throttle_frame :: "(string \<times> jsnum) list" where
  "throttle_frame = AList.update (chan_name 3) (Num 1500) (blankOverride None)"

lemma centred_pulse:
  "axisToPulse (shapeAxis (Num 0) \<lparr>sh_reverse = False, sh_deadzone = Num 0, sh_expo = Num 0, sh_trim = Num 0\<rparr>) DEFAULT_PULSE_RANGE = Num 1500"
proof -
  have "\<lfloor>3001 / 2 :: rat\<rfloor> = 1500" by (simp add: floor_eq_iff)
  then show ?thesis
    by (simp add: axisToPulse_def shapeAxis_def apply_deadzone_def apply_expo_def js_clamp_def js_le_def DEFAULT_PULSE_RANGE_def
      js_sub_def js_mul_def js_round_def js_int_def Let_def)
qed

lemmas manual_eval = createManualControlService_def merge_config_def or_keep_def DEFAULT_MANUAL_CONFIG_def manual_step_def perform_def
  gated_start_def transportSuitability_def manual_start_def manual_tick_def centred_tick_def dispatch_button_def
  isPressed_def Let_def send_control_def too_soon_def sendRcOverride_def set_channel_def RC_OVERRIDE_CHANNELS_def readAxis_def
  centred_pulse manual_stop_def sendRelease_def setConfig_def throttle_patch_def to_manual_def no_calls_def stops_def set_add_def

theorem release_can_miss:
  "frames_of (snd (manual_run no_calls 0 throttle_patch
      [MCall (CStart (Some ''serial'')), MTick (centred_tick False 0), MCall (CSetConfig to_manual), MCall (CStop None)]))
   = [MSend Sticks ''RC_CHANNELS_OVERRIDE'' throttle_frame,
      MSend Release ''MANUAL_CONTROL'' (manual_frame None (Num 0) (Num 0) (Num 0) (Num 0) (Num 0))]"
  "frames_of (snd (manual_run stops (Suc 0) throttle_patch
      [MListenAction 0, MCall (CStart (Some ''serial'')), MTick (centred_tick True 0)]))
   = [MSend Release ''RC_CHANNELS_OVERRIDE'' (blankOverride None), MSend Sticks ''RC_CHANNELS_OVERRIDE'' throttle_frame]"
  by (simp_all add: manual_eval throttle_frame_def)

section \<open>Witnesses\<close>

definition flying :: manual_service where
  "flying = fst (manual_run no_calls 0 throttle_patch [MCall (CStart (Some ''serial''))])"

lemma throttle_patch_ok: "patch_ok throttle_patch"
  by (simp add: patch_ok_def throttle_patch_def or_keep_def rc_ok_def shape_ok_def is_double_def axes_ok_def axis_ok_def no_axes_def)

lemma quiet_listeners: "react_ok patch no_calls"
  by (simp add: react_ok_def no_calls_def)

lemma throttle_sent:
  "MSend Sticks ''RC_CHANNELS_OVERRIDE'' throttle_frame
     \<in> set (snd (manual_run no_calls 0 throttle_patch [MCall (CStart (Some ''serial'')), MTick (centred_tick False 0)]))"
  by (simp add: manual_eval throttle_frame_def)

theorem manual_frames_fit_witness: "frame_fits ''RC_CHANNELS_OVERRIDE'' throttle_frame"
  by (rule manual_frames_fit [OF throttle_patch_ok _ quiet_listeners throttle_sent])
    (simp_all add: centred_tick_def pad_ok_def)

lemma flying_run: "manual_run no_calls 0 throttle_patch [MCall (CStart (Some ''serial''))] = (flying, [MGate (Some ''serial''), MOn])"
  by (simp add: flying_def manual_eval)

lemma flying_active: "ms_active flying" "\<not> ms_disposed flying" "mc_mode (ms_config flying) = ModeRc" "mc_releaseOnStop (ms_config flying)"
  by (simp_all add: flying_def manual_eval)

lemma flying_frame:
  "snd (manual_step no_calls 0 flying (MTick (centred_tick False 0))) = [MSend Sticks ''RC_CHANNELS_OVERRIDE'' throttle_frame]"
  by (simp add: flying_def manual_eval throttle_frame_def)

lemma flying_again:
  "snd (manual_step no_calls 0 (fst (manual_step no_calls 0 flying (MTick (centred_tick False 0)))) (MTick (centred_tick False 100)))
   = [MSend Sticks ''RC_CHANNELS_OVERRIDE'' throttle_frame]"
  by (simp add: flying_def manual_eval throttle_frame_def send_interval_def js_div_def js_sub_def DEFAULT_RATE_HZ_def)

theorem manual_rate_is_bounded_witness: "\<not> js_lt (js_sub (tk_now (centred_tick False 100)) (tk_now (centred_tick False 0))) (Num 20)"
  by (rule manual_rate_is_bounded [OF flying_def, where es' = "[]", OF _ run_steps.simps(1)]) (simp_all add: flying_frame flying_again)

theorem manual_control_is_gated_witness:
  "\<exists>k gp f pre post. MTick (centred_tick False 0) = MTick k \<and> tk_pad k = Some gp \<and> gp_connected gp \<noteq> Some False \<and> ms_active flying \<and>
    [MGate (Some ''serial''), MOn] = pre @ gate_effects f @ MOn # post \<and> transportSuitability f \<noteq> SuitableBlocked"
proof -
  have "MSend Sticks ''RC_CHANNELS_OVERRIDE'' throttle_frame \<in> set (snd (manual_step no_calls 0 flying (MTick (centred_tick False 0))))"
    by (simp add: flying_frame)
  from manual_control_is_gated [OF flying_run this] show ?thesis by blast
qed

lemma stays_off: "MOn \<notin> set (snd (run_steps (manual_step stops (Suc 0)) flying [MCall (CStop None), MTick (centred_tick True 0)]))"
  by (simp add: flying_def manual_eval)

theorem manual_stop_releases_witness:
  "\<exists>rest. snd (run_steps (manual_step stops (Suc 0)) flying [MCall (CStop None), MTick (centred_tick True 0)]) = MOff # rest \<and>
    frames_of rest = [MSend Release ''RC_CHANNELS_OVERRIDE''
      ([(''target_system'', Num 1), (''target_component'', Num 1)] @ map (\<lambda>ch. (''chan'' @ nat_to_string ch @ ''_raw'', Num 0)) [1..<19])]"
  using manual_stop_releases [OF flying_active(1,2) _ stays_off refl] flying_active(3,4)
  by (simp add: stop_target_def or_target_def DEFAULT_TARGET_def js_nat_def)

end
