(* ===== verification/Log_Expression.thy ===== *)
theory Log_Expression
  imports Js_Text Js_Math
begin

text \<open>
  \<open>src/data/log-query/expression.ts\<close>: the arithmetic expressions over logged series (\<open>ATT.Roll - ATT.DesRoll\<close>):
  scanner, parser, evaluation, and the series an expression needs. The class \<open>Parser\<close> with its index is a set of
  functions on the tokens that are left; past the last token \<open>peek\<close> sees the end.
\<close>

section \<open>Expressions\<close>

datatype expression =
    Number jsnum
  | Ref string string
  | Unary char expression
  | Binary char expression expression

datatype token = TNum jsnum | TIdent string | TSym char | TEof

datatype syntax_error =
    UnexpectedToken
  | ExpectedOperand
  | ExpectedField
  | ExpectedSymbol char
  | UnexpectedCharacter char
  | ExpectedNumber
  | InvalidNumber string

type_synonym parse_result = "syntax_error + (expression \<times> token list)"

abbreviation "PLUS \<equiv> CHR ''+''"
abbreviation "MINUS \<equiv> CHR ''-''"
abbreviation "TIMES \<equiv> CHR ''*''"
abbreviation "SLASH \<equiv> CHR ''/''"
abbreviation "LPAR \<equiv> CHR ''(''"
abbreviation "RPAR \<equiv> CHR '')''"
abbreviation "DOT \<equiv> CHR ''.''"

section \<open>Evaluation\<close>

definition apply_operator :: "char \<Rightarrow> jsnum \<Rightarrow> jsnum \<Rightarrow> jsnum" where
  "apply_operator c x y =
     (if c = PLUS then js_add x y else if c = MINUS then js_sub x y else if c = TIMES then js_mul x y else js_div x y)"

fun evaluateExpression :: "expression \<Rightarrow> (string \<Rightarrow> string \<Rightarrow> jsnum) \<Rightarrow> jsnum" where
  "evaluateExpression (Number v) resolve = v"
| "evaluateExpression (Ref m f) resolve = resolve m f"
| "evaluateExpression (Unary c e) resolve =
     (let v = evaluateExpression e resolve in if c = MINUS then js_uminus v else v)"
| "evaluateExpression (Binary c l r) resolve =
     apply_operator c (evaluateExpression l resolve) (evaluateExpression r resolve)"

fun visit_refs :: "expression \<Rightarrow> (string \<times> string) list" where
  "visit_refs (Number v) = []"
| "visit_refs (Ref m f) = [(m, f)]"
| "visit_refs (Unary c e) = visit_refs e"
| "visit_refs (Binary c l r) = visit_refs l @ visit_refs r"

definition ref_key :: "string \<times> string \<Rightarrow> string" where
  "ref_key p = fst p @ [CHR 0x00] @ snd p"

definition note_ref :: "string \<times> string \<Rightarrow> string list \<times> (string \<times> string) list \<Rightarrow> string list \<times> (string \<times> string) list" where
  "note_ref p s = (if ref_key p \<in> set (fst s) then s else (ref_key p # fst s, snd s @ [p]))"

definition collectSeriesRefs :: "expression \<Rightarrow> (string \<times> string) list" where
  "collectSeriesRefs e = snd (fold note_ref (visit_refs e) ([], []))"

section \<open>Scanner\<close>

definition isOperator :: "char \<Rightarrow> bool" where
  "isOperator c = (c \<in> {PLUS, MINUS, TIMES, SLASH})"

definition isSymbol :: "char \<Rightarrow> bool" where
  "isSymbol c = (isOperator c \<or> c = LPAR \<or> c = RPAR \<or> c = DOT)"

definition isIdentStart :: "char \<Rightarrow> bool" where
  "isIdentStart c = (let k = char_code c in (65 \<le> k \<and> k \<le> 90) \<or> (97 \<le> k \<and> k \<le> 122) \<or> k = 95)"

definition isIdentPart :: "char \<Rightarrow> bool" where
  "isIdentPart c = (isIdentStart c \<or> is_digit c)"

text \<open>The exponent at the start of a string, if there is a whole one, and what follows.\<close>

definition scan_exponent :: "string \<Rightarrow> string \<times> string" where
  "scan_exponent s =
     (case s of
        [] \<Rightarrow> ([], [])
      | c # t \<Rightarrow>
          if c = CHR ''e'' \<or> c = CHR ''E'' then
            let sg = (case t of [] \<Rightarrow> [] | d # _ \<Rightarrow> if d = PLUS \<or> d = MINUS then [d] else []);
                u = drop (length sg) t; ds = takeWhile is_digit u
            in if ds = [] then ([], s) else (c # sg @ ds, dropWhile is_digit u)
          else ([], s))"

definition scan_fraction :: "string \<Rightarrow> string \<times> string" where
  "scan_fraction s =
     (case s of
        [] \<Rightarrow> ([], [])
      | c # t \<Rightarrow> if c = DOT then (c # takeWhile is_digit t, dropWhile is_digit t) else ([], s))"

definition scanNumber :: "string \<Rightarrow> syntax_error + (jsnum \<times> string)" where
  "scanNumber s =
     (let ip = takeWhile is_digit s;
          (fp, r) = scan_fraction (dropWhile is_digit s);
          (ex, rest) = scan_exponent r;
          raw = ip @ fp @ ex
      in if ip = [] \<and> length fp \<le> 1 then Inl ExpectedNumber
         else if js_val (str_to_num raw) = None then Inl (InvalidNumber raw)
         else Inr (str_to_num raw, rest))"

lemma scan_parts: "fst (scan_exponent s) @ snd (scan_exponent s) = s" "fst (scan_fraction s) @ snd (scan_fraction s) = s"
proof -
  show "fst (scan_fraction s) @ snd (scan_fraction s) = s"
    by (simp add: scan_fraction_def split: list.split)
  show "fst (scan_exponent s) @ snd (scan_exponent s) = s"
  proof (cases s)
    case (Cons c t)
    define sg where "sg = (case t of [] \<Rightarrow> [] | d # _ \<Rightarrow> if d = PLUS \<or> d = MINUS then [d] else [])"
    have "sg @ drop (length sg) t = t" by (auto simp: sg_def split: list.split)
    then show ?thesis
      by (simp add: Cons scan_exponent_def Let_def flip: sg_def)
  qed (simp add: scan_exponent_def)
qed

lemma scanNumber_split:
  assumes "scanNumber s = Inr (v, rest)"
  obtains raw where "s = raw @ rest" "raw \<noteq> []" "v = str_to_num raw"
proof -
  define ip fp r ex where "ip = takeWhile is_digit s" and "fp = fst (scan_fraction (dropWhile is_digit s))"
    and "r = snd (scan_fraction (dropWhile is_digit s))" and "ex = fst (scan_exponent r)"
  have "s = ip @ fp @ ex @ snd (scan_exponent r)"
    using scan_parts(1) [of r] scan_parts(2) [of "dropWhile is_digit s"] takeWhile_dropWhile_id [of is_digit s]
    by (simp add: ip_def fp_def r_def ex_def)
  moreover have "rest = snd (scan_exponent r)" "\<not> (ip = [] \<and> length fp \<le> 1)" "v = str_to_num (ip @ fp @ ex)"
    using assms by (auto simp: scanNumber_def Let_def split_beta ip_def fp_def r_def ex_def split: if_splits)
  ultimately show ?thesis by (intro that [of "ip @ fp @ ex"]) auto
qed

lemma scanNumber_shorter: "scanNumber s = Inr (v, rest) \<Longrightarrow> length rest < length s"
  by (erule scanNumber_split) simp

function tokenize :: "string \<Rightarrow> syntax_error + token list" where
  "tokenize [] = Inr [TEof]"
| "tokenize (c # cs) =
     (if is_space c then tokenize cs
      else if is_digit c \<or> (c = DOT \<and> cs \<noteq> [] \<and> is_digit (hd cs)) then
        (case scanNumber (c # cs) of
           Inl e \<Rightarrow> Inl e
         | Inr (v, rest) \<Rightarrow> map_sum id (\<lambda>ts. TNum v # ts) (tokenize rest))
      else if isSymbol c then map_sum id (\<lambda>ts. TSym c # ts) (tokenize cs)
      else if isIdentStart c then
        map_sum id (\<lambda>ts. TIdent (c # takeWhile isIdentPart cs) # ts) (tokenize (dropWhile isIdentPart cs))
      else Inl (UnexpectedCharacter c))"
  by pat_completeness auto
termination
  by (relation "measure length") (auto simp: less_Suc_eq_le length_dropWhile_le dest: scanNumber_shorter)

declare tokenize.simps(2) [simp del]

section \<open>Parser\<close>

definition expectSymbol :: "char \<Rightarrow> token list \<Rightarrow> syntax_error + token list" where
  "expectSymbol c ts =
     (case ts of
        TSym d # r \<Rightarrow> if d = c then Inr r else Inl (ExpectedSymbol c)
      | _ \<Rightarrow> Inl (ExpectedSymbol c))"

definition parseRef :: "string \<Rightarrow> token list \<Rightarrow> parse_result" where
  "parseRef message ts =
     (case expectSymbol DOT ts of
        Inl e \<Rightarrow> Inl e
      | Inr r \<Rightarrow> (case r of TIdent f # r' \<Rightarrow> Inr (Ref message f, r') | _ \<Rightarrow> Inl ExpectedField))"

text \<open>The operator at the front, if it is one of the given two.\<close>

definition matchOperator :: "char \<Rightarrow> char \<Rightarrow> token list \<Rightarrow> (char \<times> token list) option" where
  "matchOperator a b ts = (case ts of TSym c # r \<Rightarrow> if c = a \<or> c = b then Some (c, r) else None | _ \<Rightarrow> None)"

lemma matchOperator_Some: "matchOperator a b ts = Some (c, r) \<longleftrightarrow> ts = TSym c # r \<and> (c = a \<or> c = b)"
  by (auto simp: matchOperator_def split: list.splits token.splits if_splits)

function (domintros) parseAdditive :: "token list \<Rightarrow> parse_result"
  and additiveLoop :: "expression \<Rightarrow> token list \<Rightarrow> parse_result"
  and parseMultiplicative :: "token list \<Rightarrow> parse_result"
  and multiplicativeLoop :: "expression \<Rightarrow> token list \<Rightarrow> parse_result"
  and parseUnary :: "token list \<Rightarrow> parse_result"
  and parsePrimary :: "token list \<Rightarrow> parse_result" where
  "parseAdditive ts =
     (case parseMultiplicative ts of Inl x \<Rightarrow> Inl x | Inr (e, r) \<Rightarrow> additiveLoop e r)"
| "additiveLoop e ts =
     (case matchOperator PLUS MINUS ts of
        None \<Rightarrow> Inr (e, ts)
      | Some (c, r) \<Rightarrow>
          (case parseMultiplicative r of Inl x \<Rightarrow> Inl x | Inr (e', r') \<Rightarrow> additiveLoop (Binary c e e') r'))"
| "parseMultiplicative ts =
     (case parseUnary ts of Inl x \<Rightarrow> Inl x | Inr (e, r) \<Rightarrow> multiplicativeLoop e r)"
| "multiplicativeLoop e ts =
     (case matchOperator TIMES SLASH ts of
        None \<Rightarrow> Inr (e, ts)
      | Some (c, r) \<Rightarrow>
          (case parseUnary r of Inl x \<Rightarrow> Inl x | Inr (e', r') \<Rightarrow> multiplicativeLoop (Binary c e e') r'))"
| "parseUnary ts =
     (case matchOperator PLUS MINUS ts of
        Some (c, r) \<Rightarrow> (case parseUnary r of Inl x \<Rightarrow> Inl x | Inr (e, r') \<Rightarrow> Inr (Unary c e, r'))
      | None \<Rightarrow> parsePrimary ts)"
| "parsePrimary ts =
     (case ts of
        TNum v # r \<Rightarrow> Inr (Number v, r)
      | TIdent m # r \<Rightarrow> parseRef m r
      | TSym c # r \<Rightarrow>
          if c = LPAR then
            (case parseAdditive r of
               Inl x \<Rightarrow> Inl x
             | Inr (e, r') \<Rightarrow> (case expectSymbol RPAR r' of Inl x \<Rightarrow> Inl x | Inr r'' \<Rightarrow> Inr (e, r'')))
          else Inl ExpectedOperand
      | _ \<Rightarrow> Inl ExpectedOperand)"
  by pat_completeness auto

text \<open>An operand consumes at least one token, a loop never gives one back.\<close>

lemma expectSymbol_shorter: "expectSymbol c ts = Inr r \<Longrightarrow> length r < length ts"
  by (auto simp: expectSymbol_def split: list.splits token.splits if_splits)

lemma parseRef_shorter: "parseRef m ts = Inr (e, r) \<Longrightarrow> length r < length ts"
  by (auto simp: parseRef_def split: sum.splits list.splits token.splits dest: expectSymbol_shorter)

lemmas parse_pinduct = parseAdditive_additiveLoop_parseMultiplicative_multiplicativeLoop_parseUnary_parsePrimary.pinduct
lemmas parse_psimps = parseAdditive.psimps additiveLoop.psimps parseMultiplicative.psimps multiplicativeLoop.psimps
  parseUnary.psimps parsePrimary.psimps

definition consumes :: "token list \<Rightarrow> parse_result \<Rightarrow> bool" where
  "consumes ts res = (\<forall>e r. res = Inr (e, r) \<longrightarrow> length r < length ts)"

definition keeps_or_consumes :: "token list \<Rightarrow> parse_result \<Rightarrow> bool" where
  "keeps_or_consumes ts res = (\<forall>e r. res = Inr (e, r) \<longrightarrow> length r \<le> length ts)"

lemma parse_consumes:
  "parseAdditive_additiveLoop_parseMultiplicative_multiplicativeLoop_parseUnary_parsePrimary_dom (Inl (Inl ts)) \<Longrightarrow> consumes ts (parseAdditive ts)"
  "parseAdditive_additiveLoop_parseMultiplicative_multiplicativeLoop_parseUnary_parsePrimary_dom (Inl (Inr (Inl (e, ts)))) \<Longrightarrow> keeps_or_consumes ts (additiveLoop e ts)"
  "parseAdditive_additiveLoop_parseMultiplicative_multiplicativeLoop_parseUnary_parsePrimary_dom (Inl (Inr (Inr ts))) \<Longrightarrow> consumes ts (parseMultiplicative ts)"
  "parseAdditive_additiveLoop_parseMultiplicative_multiplicativeLoop_parseUnary_parsePrimary_dom (Inr (Inl (e, ts))) \<Longrightarrow> keeps_or_consumes ts (multiplicativeLoop e ts)"
  "parseAdditive_additiveLoop_parseMultiplicative_multiplicativeLoop_parseUnary_parsePrimary_dom (Inr (Inr (Inl ts))) \<Longrightarrow> consumes ts (parseUnary ts)"
  "parseAdditive_additiveLoop_parseMultiplicative_multiplicativeLoop_parseUnary_parsePrimary_dom (Inr (Inr (Inr ts))) \<Longrightarrow> consumes ts (parsePrimary ts)"
proof (induction ts and e ts and ts and e ts and ts and ts rule: parse_pinduct)
  case (1 ts)
  then show ?case by (fastforce simp: parse_psimps consumes_def keeps_or_consumes_def split: sum.splits)
next
  case (2 e ts)
  then show ?case by (fastforce simp: parse_psimps consumes_def keeps_or_consumes_def matchOperator_Some split: sum.splits option.splits)
next
  case (3 ts)
  then show ?case by (fastforce simp: parse_psimps consumes_def keeps_or_consumes_def split: sum.splits)
next
  case (4 e ts)
  then show ?case by (fastforce simp: parse_psimps consumes_def keeps_or_consumes_def matchOperator_Some split: sum.splits option.splits)
next
  case (5 ts)
  note def = parseUnary.psimps [OF 5(1)]
  show ?case
  proof (cases "matchOperator PLUS MINUS ts")
    case None
    then show ?thesis using 5(2) [OF None] by (simp add: def)
  next
    case (Some p)
    obtain c r where p: "p = (c, r)" by (cases p)
    have "consumes r (parseUnary r)" using 5(3) [OF Some p [symmetric]] .
    moreover have "length ts = Suc (length r)" using Some p by (auto simp: matchOperator_Some)
    ultimately show ?thesis using Some p by (auto simp: def consumes_def split: sum.splits)
  qed
next
  case (6 ts)
  note def = parsePrimary.psimps [OF 6(1)]
  show ?case
  proof (cases ts)
    case Nil
    then show ?thesis unfolding consumes_def def by simp
  next
    case (Cons t r)
    show ?thesis
    proof (cases t)
      case (TIdent m)
      then show ?thesis unfolding consumes_def def using Cons by (auto dest: parseRef_shorter)
    next
      case (TSym c)
      show ?thesis
      proof (cases "c = LPAR")
        case True
        have "consumes r (parseAdditive r)" using 6(2) [OF Cons TSym True] .
        then show ?thesis
          unfolding consumes_def def using True Cons TSym
          by (auto split: sum.splits dest!: expectSymbol_shorter)
      next
        case False
        then show ?thesis unfolding consumes_def def using Cons TSym by simp
      qed
    qed (unfold consumes_def def, use Cons in auto)
  qed
qed

termination parseAdditive
proof (relation "measures [\<lambda>x. case x of
      Inl (Inl ts) \<Rightarrow> length ts | Inl (Inr (Inl (e, ts))) \<Rightarrow> length ts | Inl (Inr (Inr ts)) \<Rightarrow> length ts
    | Inr (Inl (e, ts)) \<Rightarrow> length ts | Inr (Inr (Inl ts)) \<Rightarrow> length ts | Inr (Inr (Inr ts)) \<Rightarrow> length ts,
    \<lambda>x. case x of
      Inl (Inl ts) \<Rightarrow> 4 | Inl (Inr (Inl (e, ts))) \<Rightarrow> 3 | Inl (Inr (Inr ts)) \<Rightarrow> 3
    | Inr (Inl (e, ts)) \<Rightarrow> 2 | Inr (Inr (Inl ts)) \<Rightarrow> 2 | Inr (Inr (Inr ts)) \<Rightarrow> 1]", goal_cases)
qed (auto simp: matchOperator_Some consumes_def dest: parse_consumes)

section \<open>The parser of an input\<close>

definition parseExpression :: "string \<Rightarrow> syntax_error + expression" where
  "parseExpression input =
     (case tokenize input of
        Inl e \<Rightarrow> Inl e
      | Inr ts \<Rightarrow>
          (case parseAdditive ts of
             Inl e \<Rightarrow> Inl e
           | Inr (e, r) \<Rightarrow> if r = [] \<or> hd r = TEof then Inr e else Inl UnexpectedToken))"

end
