(* ===== verification/Expression_Properties.thy ===== *)
theory Expression_Properties
  imports Log_Expression
begin

text \<open>
  The expression language of logs: what is written down is what is read, with the usual precedence and
  associativity, and the series collected from an expression are all that its value depends on.
\<close>

declare parseAdditive.simps [simp del] additiveLoop.simps [simp del] parseMultiplicative.simps [simp del]
  multiplicativeLoop.simps [simp del] parseUnary.simps [simp del] parsePrimary.simps [simp del]

section \<open>Writing tokens\<close>

definition is_sum :: "char \<Rightarrow> bool" where
  "is_sum c = (c = PLUS \<or> c = MINUS)"

definition is_product :: "char \<Rightarrow> bool" where
  "is_product c = (c = TIMES \<or> c = SLASH)"

fun well_formed :: "expression \<Rightarrow> bool" where
  "well_formed (Unary c e) = (is_sum c \<and> well_formed e)"
| "well_formed (Binary c l r) = ((is_sum c \<or> is_product c) \<and> well_formed l \<and> well_formed r)"
| "well_formed _ = True"

definition parens :: "bool \<Rightarrow> token list \<Rightarrow> token list" where
  "parens b ts = (if b then TSym LPAR # ts @ [TSym RPAR] else ts)"

text \<open>
  With as few parentheses as the grammar needs, at the level of a sum (0), a product (1), a sign (2)
  or an operand (3).
\<close>

fun tokens_of :: "nat \<Rightarrow> expression \<Rightarrow> token list" where
  "tokens_of lv (Number v) = [TNum v]"
| "tokens_of lv (Ref m f) = [TIdent m, TSym DOT, TIdent f]"
| "tokens_of lv (Unary c e) = parens (2 < lv) (TSym c # tokens_of 2 e)"
| "tokens_of lv (Binary c l r) =
     (if is_sum c then parens (0 < lv) (tokens_of 0 l @ TSym c # tokens_of 1 r)
      else parens (1 < lv) (tokens_of 1 l @ TSym c # tokens_of 2 r))"

definition no_product :: "token list \<Rightarrow> bool" where
  "no_product ts = (matchOperator TIMES SLASH ts = None)"

definition reads :: "expression \<Rightarrow> bool" where
  "reads e =
     ((\<forall>rest. no_product rest \<longrightarrow> parseAdditive (tokens_of 0 e @ rest) = additiveLoop e rest) \<and>
      (\<forall>rest. parseMultiplicative (tokens_of 1 e @ rest) = multiplicativeLoop e rest) \<and>
      (\<forall>rest. parseUnary (tokens_of 2 e @ rest) = Inr (e, rest)) \<and>
      (\<forall>rest. parsePrimary (tokens_of 3 e @ rest) = Inr (e, rest)))"

lemma loop_stops:
  "no_product rest \<Longrightarrow> multiplicativeLoop e rest = Inr (e, rest)"
  "matchOperator PLUS MINUS rest = None \<Longrightarrow> additiveLoop e rest = Inr (e, rest)"
  by (simp_all add: no_product_def multiplicativeLoop.simps additiveLoop.simps)

lemma match_simps [simp]:
  "matchOperator a b (TNum v # ts) = None" "matchOperator a b (TIdent m # ts) = None" "matchOperator a b (TEof # ts) = None"
  "matchOperator a b (TSym c # ts) = (if c = a \<or> c = b then Some (c, ts) else None)" "matchOperator a b [] = None"
  by (simp_all add: matchOperator_def)

text \<open>From the tighter levels to the looser ones.\<close>

lemma reads_unary:
  assumes "\<And>rest. parsePrimary (ts @ rest) = Inr (e, rest)" "\<And>rest. matchOperator PLUS MINUS (ts @ rest) = None"
  shows "parseUnary (ts @ rest) = Inr (e, rest)"
  using assms by (simp add: parseUnary.simps)

lemma reads_product: "(\<And>rest. parseUnary (ts @ rest) = Inr (e, rest)) \<Longrightarrow> parseMultiplicative (ts @ rest) = multiplicativeLoop e rest"
  by (simp add: parseMultiplicative.simps)

lemma reads_sum:
  "(\<And>rest. parseMultiplicative (ts @ rest) = multiplicativeLoop e rest) \<Longrightarrow> no_product rest \<Longrightarrow>
   parseAdditive (ts @ rest) = additiveLoop e rest"
  by (simp add: parseAdditive.simps loop_stops)

lemma reads_parens:
  assumes "\<And>rest. no_product rest \<Longrightarrow> parseAdditive (ts @ rest) = additiveLoop e rest"
  shows "parsePrimary (parens True ts @ rest) = Inr (e, rest)"
  using assms [of "TSym RPAR # rest"]
  by (simp add: parens_def parsePrimary.simps no_product_def loop_stops expectSymbol_def)

lemma reads_operand:
  assumes "\<And>lv. tokens_of lv e = ts" "\<And>rest. parsePrimary (ts @ rest) = Inr (e, rest)" "\<And>rest. matchOperator PLUS MINUS (ts @ rest) = None"
  shows "reads e"
proof -
  have u: "parseUnary (ts @ rest) = Inr (e, rest)" for rest using assms(2,3) by (rule reads_unary)
  have p: "parseMultiplicative (ts @ rest) = multiplicativeLoop e rest" for rest using u by (rule reads_product)
  show ?thesis using assms(1,2) u p reads_sum [OF p] by (simp add: reads_def)
qed

lemma reads_all: "well_formed e \<Longrightarrow> reads e"
proof (induction e)
  case (Number v)
  show ?case by (rule reads_operand [of _ "[TNum v]"]) (simp_all add: parsePrimary.simps)
next
  case (Ref m f)
  show ?case
    by (rule reads_operand [of _ "[TIdent m, TSym DOT, TIdent f]"])
      (simp_all add: parsePrimary.simps parseRef_def expectSymbol_def)
next
  case (Unary c e)
  define ts where "ts = TSym c # tokens_of 2 e"
  have "parseUnary (tokens_of 2 e @ rest) = Inr (e, rest)" for rest using Unary by (simp add: reads_def)
  then have u: "parseUnary (ts @ rest) = Inr (Unary c e, rest)" for rest
    using Unary.prems by (subst parseUnary.simps) (auto simp: ts_def is_sum_def)
  have p: "parseMultiplicative (ts @ rest) = multiplicativeLoop (Unary c e) rest" for rest using u by (rule reads_product)
  note s = reads_sum [OF p]
  show ?case using u p s reads_parens [OF s] by (simp add: reads_def parens_def flip: ts_def)
next
  case (Binary c l r)
  have l: "reads l" and r: "reads r" using Binary by simp_all
  show ?case
  proof (cases "is_sum c")
    case True
    define ts where "ts = tokens_of 0 l @ TSym c # tokens_of 1 r"
    have s: "parseAdditive (ts @ rest) = additiveLoop (Binary c l r) rest" if "no_product rest" for rest
    proof -
      have "parseAdditive (ts @ rest) = additiveLoop l (TSym c # tokens_of 1 r @ rest)"
        using l True by (auto simp: reads_def ts_def no_product_def is_sum_def)
      also have "\<dots> = additiveLoop (Binary c l r) rest"
        using r True that by (subst additiveLoop.simps) (auto simp: reads_def is_sum_def loop_stops)
      finally show ?thesis .
    qed
    have b: "parsePrimary (parens True ts @ rest) = Inr (Binary c l r, rest)" for rest using s by (rule reads_parens)
    have u: "parseUnary (parens True ts @ rest) = Inr (Binary c l r, rest)" for rest
      using b by (rule reads_unary) (simp add: parens_def)
    have p: "parseMultiplicative (parens True ts @ rest) = multiplicativeLoop (Binary c l r) rest" for rest using u by (rule reads_product)
    have "tokens_of lv (Binary c l r) = parens (0 < lv) ts" for lv using True by (simp add: ts_def)
    then show ?thesis using s b u p by (simp add: reads_def parens_def del: tokens_of.simps)
  next
    case False
    define ts where "ts = tokens_of 1 l @ TSym c # tokens_of 2 r"
    have c: "c = TIMES \<or> c = SLASH" using False Binary.prems by (simp add: is_product_def)
    have p: "parseMultiplicative (ts @ rest) = multiplicativeLoop (Binary c l r) rest" for rest
    proof -
      have "parseMultiplicative (ts @ rest) = multiplicativeLoop l (TSym c # tokens_of 2 r @ rest)"
        using l by (simp add: reads_def ts_def)
      also have "\<dots> = multiplicativeLoop (Binary c l r) rest"
        using r c by (subst multiplicativeLoop.simps) (auto simp: reads_def)
      finally show ?thesis .
    qed
    note s = reads_sum [OF p]
    have b: "parsePrimary (parens True ts @ rest) = Inr (Binary c l r, rest)" for rest using s by (rule reads_parens)
    have u: "parseUnary (parens True ts @ rest) = Inr (Binary c l r, rest)" for rest
      using b by (rule reads_unary) (simp add: parens_def)
    have "tokens_of lv (Binary c l r) = parens (1 < lv) ts" for lv using False by (simp add: ts_def)
    then show ?thesis using s b u p by (simp add: reads_def parens_def del: tokens_of.simps)
  qed
qed

section \<open>Writing text\<close>

text \<open>Numbers as natural numbers in decimal, a space after each token.\<close>

datatype lexeme = LNum nat | LIdent string | LSym char

definition lexeme_token :: "lexeme \<Rightarrow> token" where
  "lexeme_token l = (case l of LNum n \<Rightarrow> TNum (fl (of_nat n)) | LIdent s \<Rightarrow> TIdent s | LSym c \<Rightarrow> TSym c)"

definition lexeme_text :: "lexeme \<Rightarrow> string" where
  "lexeme_text l = (case l of LNum n \<Rightarrow> nat_to_string n | LIdent s \<Rightarrow> s | LSym c \<Rightarrow> [c])"

definition ident_ok :: "string \<Rightarrow> bool" where
  "ident_ok s = (s \<noteq> [] \<and> isIdentStart (hd s) \<and> list_all isIdentPart s)"

definition lexeme_ok :: "lexeme \<Rightarrow> bool" where
  "lexeme_ok l = (case l of LNum n \<Rightarrow> js_val (fl (of_nat n)) \<noteq> None | LIdent s \<Rightarrow> ident_ok s | LSym c \<Rightarrow> isSymbol c)"

definition text_of :: "lexeme list \<Rightarrow> string" where
  "text_of ls = concat (map (\<lambda>l. lexeme_text l @ '' '') ls)"

lemma is_digit_of [simp]: "d < (10 :: nat) \<Longrightarrow> is_digit (char_of (48 + d))"
  by (simp add: is_digit_def)

lemma nat_digits: "list_all is_digit (nat_to_string n)"
proof (induction n rule: nat_to_string.induct)
  case (1 n)
  then show ?case by (subst nat_to_string.simps) (simp add: list_all_iff)
qed

lemma digit_cases:
  assumes "is_digit c"
  obtains "c = CHR ''0''" | "c = CHR ''1''" | "c = CHR ''2''" | "c = CHR ''3''" | "c = CHR ''4''"
    | "c = CHR ''5''" | "c = CHR ''6''" | "c = CHR ''7''" | "c = CHR ''8''" | "c = CHR ''9''"
proof -
  have c: "c = char_of (char_code c)" by (simp add: char_code_def)
  have "char_code c = 48 \<or> char_code c = 49 \<or> char_code c = 50 \<or> char_code c = 51 \<or> char_code c = 52 \<or> char_code c = 53 \<or>
      char_code c = 54 \<or> char_code c = 55 \<or> char_code c = 56 \<or> char_code c = 57"
    using assms unfolding is_digit_def by presburger
  then show ?thesis
    using that c by (elim disjE) (simp_all add: char_of_def bit_0)
qed

lemma digits_no_space: "list_all is_digit s \<Longrightarrow> str_trim s = s"
proof -
  have no: "\<not> is_space c" if "is_digit c" for c using that by (auto simp: is_digit_def is_space_def)
  have drop: "dropWhile is_space u = u" if "list_all is_digit u" for u using that no by (cases u) auto
  assume s: "list_all is_digit s"
  then have "list_all is_digit (rev s)" by simp
  then show ?thesis using s by (simp add: str_trim_def drop)
qed

lemma takeWhile_digits:
  assumes "list_all is_digit s"
  shows "takeWhile is_digit s = s" "dropWhile is_digit s = []"
    "takeWhile is_digit (s @ CHR '' '' # t) = s" "dropWhile is_digit (s @ CHR '' '' # t) = CHR '' '' # t"
  using assms by (induction s) (auto simp: is_digit_def char_code_def)

lemma parse_radix_digits:
  assumes "list_all is_digit s"
  shows "parse_radix s = None"
proof -
  consider "s = []" | c where "s = [c]" | c d r where "s = c # d # r" by (cases s rule: remdups_adj.cases) auto
  then show ?thesis
  proof cases
    case (3 c d r)
    then have "is_digit c" "is_digit d" using assms by simp_all
    then show ?thesis using 3
      by (elim digit_cases) (simp_all add: parse_radix_def)
  next
    case (2 c)
    then have "is_digit c" using assms by simp
    then show ?thesis using 2 by (elim digit_cases) (simp_all add: parse_radix_def)
  qed (simp add: parse_radix_def)
qed

lemma number_of_digits: "str_to_num (nat_to_string n) = fl (of_nat n)"
proof -
  define s where "s = nat_to_string n"
  have d: "list_all is_digit s" and v: "digits_acc 10 0 s = Some n" and ne: "s \<noteq> []"
    by (simp_all add: s_def nat_digits digits_nat_to_string)
  have u: "parse_udecimal s = Some (of_nat n)"
    unfolding parse_udecimal_def takeWhile_digits(1,2) [OF d] Let_def using v ne by (simp add: parse_exponent_def pow10_def)
  obtain c r where s: "s = c # r" using ne by (cases s) auto
  then have c: "is_digit c" using d by simp
  then have "s \<noteq> ''Infinity''" using s by (elim digit_cases) auto
  then have "parse_unsigned s = fl (of_nat n)" using u by (simp add: parse_unsigned_def)
  moreover have "str_to_num s = (case parse_radix s of Some n \<Rightarrow> fl (of_nat n) | None \<Rightarrow> parse_unsigned s)"
    unfolding str_to_num_def Let_def digits_no_space [OF d] unfolding s using c by (elim digit_cases) simp_all
  ultimately show ?thesis using parse_radix_digits [OF d] by (simp add: s_def)
qed

lemma scanNumber_digits:
  assumes "js_val (fl (of_nat n)) \<noteq> None"
  shows "scanNumber (nat_to_string n @ CHR '' '' # t) = Inr (fl (of_nat n), CHR '' '' # t)"
  using assms nat_digits [of n] nat_to_string_nonempty [of n]
  by (simp add: scanNumber_def takeWhile_digits scan_fraction_def scan_exponent_def number_of_digits Let_def)

lemma space_props [simp]: "is_space CHR '' ''" "\<not> isIdentPart CHR '' ''" "\<not> is_digit CHR '' ''"
  by (simp_all add: is_space_def isIdentPart_def isIdentStart_def is_digit_def char_code_def)

lemma tokenize_space [simp]: "tokenize (CHR '' '' # t) = tokenize t"
  by (simp add: tokenize.simps(2))

lemma ident_start_props:
  assumes "isIdentStart c"
  shows "\<not> is_space c" "\<not> is_digit c" "c \<noteq> DOT" "\<not> isSymbol c"
  using assms by (auto simp: isIdentStart_def is_space_def is_digit_def isSymbol_def isOperator_def char_code_def)

lemma symbol_props:
  assumes "isSymbol c"
  shows "\<not> is_space c" "\<not> is_digit c"
  using assms by (auto simp: is_space_def is_digit_def isSymbol_def isOperator_def char_code_def)

lemma takeWhile_ident:
  assumes "list_all isIdentPart s"
  shows "takeWhile isIdentPart (s @ CHR '' '' # t) = s" "dropWhile isIdentPart (s @ CHR '' '' # t) = CHR '' '' # t"
  using assms by (induction s) auto

lemma tokenize_lexeme:
  assumes "lexeme_ok l"
  shows "tokenize (lexeme_text l @ CHR '' '' # t) = map_sum id (\<lambda>ts. lexeme_token l # ts) (tokenize t)"
proof (cases l)
  case (LNum n)
  obtain c r where n: "nat_to_string n = c # r" using nat_to_string_nonempty [of n] by (cases "nat_to_string n") auto
  then have "is_digit c" using nat_digits [of n] by simp
  then have "\<not> is_space c" "is_digit c" by (auto simp: is_space_def is_digit_def)
  then show ?thesis
    using scanNumber_digits [of n t] assms n LNum by (simp add: lexeme_text_def lexeme_token_def lexeme_ok_def tokenize.simps(2))
next
  case (LIdent s)
  then obtain c r where s: "s = c # r" "isIdentStart c" "list_all isIdentPart r"
    using assms by (cases s) (auto simp: lexeme_ok_def ident_ok_def)
  then show ?thesis
    using LIdent ident_start_props [OF s(2)] by (simp add: lexeme_text_def lexeme_token_def tokenize.simps(2) takeWhile_ident)
next
  case (LSym c)
  then have "isSymbol c" using assms by (simp add: lexeme_ok_def)
  then show ?thesis using LSym symbol_props [of c] by (simp add: lexeme_text_def lexeme_token_def tokenize.simps(2))
qed

lemma tokenize_text:
  "list_all lexeme_ok ls \<Longrightarrow> tokenize (text_of ls) = Inr (map lexeme_token ls @ [TEof])"
  by (induction ls) (simp_all add: text_of_def tokenize_lexeme)

section \<open>The names of a parsed expression\<close>

fun names_in :: "expression \<Rightarrow> string set" where
  "names_in (Number v) = {}"
| "names_in (Ref m f) = {m, f}"
| "names_in (Unary c e) = names_in e"
| "names_in (Binary c l r) = names_in l \<union> names_in r"

definition idents :: "token list \<Rightarrow> string set" where
  "idents ts = {s. TIdent s \<in> set ts}"

lemma idents_simps [simp]:
  "idents [] = {}" "idents (TNum v # ts) = idents ts" "idents (TSym c # ts) = idents ts" "idents (TEof # ts) = idents ts"
  "idents (TIdent s # ts) = insert s (idents ts)"
  by (auto simp: idents_def)

definition names_from :: "token list \<Rightarrow> expression set \<Rightarrow> parse_result \<Rightarrow> bool" where
  "names_from ts E res = (\<forall>e r. res = Inr (e, r) \<longrightarrow> names_in e \<subseteq> idents ts \<union> (\<Union>e\<in>E. names_in e) \<and> idents r \<subseteq> idents ts)"

lemma expectSymbol_Inr: "expectSymbol c ts = Inr r \<longleftrightarrow> ts = TSym c # r"
  by (auto simp: expectSymbol_def split: list.splits token.splits if_splits)

lemma parse_names:
  "names_from ts {} (parseAdditive ts)"
  "names_from ts {e} (additiveLoop e ts)"
  "names_from ts {} (parseMultiplicative ts)"
  "names_from ts {e} (multiplicativeLoop e ts)"
  "names_from ts {} (parseUnary ts)"
  "names_from ts {} (parsePrimary ts)"
proof (induction ts and e ts and ts and e ts and ts and ts
    rule: parseAdditive_additiveLoop_parseMultiplicative_multiplicativeLoop_parseUnary_parsePrimary.induct)
  case (1 ts)
  then show ?case by (subst parseAdditive.simps) (fastforce simp: names_from_def split: sum.splits)
next
  case (2 e ts)
  then show ?case by (subst additiveLoop.simps) (fastforce simp: names_from_def matchOperator_Some split: sum.splits option.splits)
next
  case (3 ts)
  then show ?case by (subst parseMultiplicative.simps) (fastforce simp: names_from_def split: sum.splits)
next
  case (4 e ts)
  then show ?case by (subst multiplicativeLoop.simps) (fastforce simp: names_from_def matchOperator_Some split: sum.splits option.splits)
next
  case (5 ts)
  then show ?case by (subst parseUnary.simps) (fastforce simp: names_from_def matchOperator_Some split: sum.splits option.splits)
next
  case (6 ts)
  then show ?case
    by (subst parsePrimary.simps)
      (fastforce simp: names_from_def parseRef_def expectSymbol_Inr split: sum.splits list.splits token.splits if_splits)
qed

section \<open>The series of a parsed expression\<close>

definition no_nul :: "string \<Rightarrow> bool" where
  "no_nul s = (CHR 0x00 \<notin> set s)"

lemma ident_part_nonzero: "isIdentPart c \<Longrightarrow> c \<noteq> CHR 0x00" "\<not> isIdentStart CHR 0x00"
  by (auto simp: isIdentPart_def isIdentStart_def is_digit_def char_code_def)

lemma map_sum_Inr: "map_sum id f x = Inr y \<longleftrightarrow> (\<exists>z. x = Inr z \<and> y = f z)"
  by (cases x) auto

lemma tokenize_idents: "tokenize s = Inr ts \<Longrightarrow> \<forall>x\<in>idents ts. no_nul x"
proof (induction s arbitrary: ts rule: tokenize.induct)
  case 1
  then show ?case by auto
next
  case (2 c cs)
  have word: "no_nul (c # takeWhile isIdentPart cs)" if "isIdentStart c"
    using that by (auto simp: no_nul_def ident_part_nonzero(2) dest!: set_takeWhileD dest: ident_part_nonzero(1))
  show ?case
    using 2 word by (auto simp: tokenize.simps(2) map_sum_Inr split: if_splits sum.splits)
qed

lemma parse_no_nul:
  assumes "parseExpression input = Inr e"
  shows "\<forall>x\<in>names_in e. no_nul x"
proof -
  obtain ts r where "tokenize input = Inr ts" "parseAdditive ts = Inr (e, r)"
    using assms by (auto simp: parseExpression_def split: sum.splits if_splits)
  then show ?thesis using tokenize_idents [of input ts] parse_names(1) [of ts] by (auto simp: names_from_def)
qed

lemma refs_names: "p \<in> set (visit_refs e) \<Longrightarrow> fst p \<in> names_in e \<and> snd p \<in> names_in e"
  by (induction e) auto

lemma append_nul_inj: "no_nul a \<Longrightarrow> no_nul a' \<Longrightarrow> a @ [CHR 0x00] @ b = a' @ [CHR 0x00] @ b' \<Longrightarrow> a = a' \<and> b = b'"
proof (induction a arbitrary: a')
  case Nil
  then show ?case by (cases a') (auto simp: no_nul_def)
next
  case (Cons x a)
  then show ?case by (cases a') (auto simp: no_nul_def)
qed

lemma ref_key_inj: "no_nul (fst p) \<Longrightarrow> no_nul (fst q) \<Longrightarrow> ref_key p = ref_key q \<Longrightarrow> p = q"
  using append_nul_inj [of "fst p" "fst q" "snd p" "snd q"] by (cases p; cases q) (simp add: ref_key_def)

lemma note_refs:
  assumes "\<forall>p\<in>set ps \<union> set seen. no_nul (fst p)" "set keys = ref_key ` set seen" "distinct seen"
  shows "distinct (snd (fold note_ref ps (keys, seen))) \<and> set (snd (fold note_ref ps (keys, seen))) = set ps \<union> set seen"
  using assms
proof (induction ps arbitrary: keys seen)
  case (Cons p ps)
  have known: "ref_key p \<in> set keys \<longleftrightarrow> p \<in> set seen" using Cons.prems ref_key_inj [of p] by auto
  show ?case
  proof (cases "p \<in> set seen")
    case True
    then show ?thesis using Cons.IH [of seen keys] Cons.prems known by (auto simp: note_ref_def)
  next
    case False
    then show ?thesis using Cons.IH [of "seen @ [p]" "ref_key p # keys"] Cons.prems known by (simp add: note_ref_def)
  qed
qed simp

lemma collected: "\<forall>x\<in>names_in e. no_nul x \<Longrightarrow> distinct (collectSeriesRefs e) \<and> set (collectSeriesRefs e) = set (visit_refs e)"
  using note_refs [of "visit_refs e" "[]" "[]"] refs_names [of _ e] by (auto simp: collectSeriesRefs_def)

lemma evaluate_refs: "\<forall>(m, f)\<in>set (visit_refs e). g m f = h m f \<Longrightarrow> evaluateExpression e g = evaluateExpression e h"
  by (induction e) auto

section \<open>Properties\<close>

text \<open>An expression that can be written down: operators of the grammar, identifiers as names, natural numbers.\<close>

fun writable :: "expression \<Rightarrow> bool" where
  "writable (Number v) = (case v of Num q \<Rightarrow> q = of_nat (nat \<lfloor>q\<rfloor>) \<and> q < 2 ^ 53 | _ \<Rightarrow> False)"
| "writable (Ref m f) = (ident_ok m \<and> ident_ok f)"
| "writable (Unary c e) = writable e"
| "writable (Binary c l r) = (writable l \<and> writable r)"

definition token_lexeme :: "token \<Rightarrow> lexeme" where
  "token_lexeme t = (case t of TNum v \<Rightarrow> LNum (case v of Num q \<Rightarrow> nat \<lfloor>q\<rfloor> | _ \<Rightarrow> 0) | TIdent s \<Rightarrow> LIdent s | TSym c \<Rightarrow> LSym c | TEof \<Rightarrow> LSym DOT)"

definition write_expression :: "expression \<Rightarrow> string" where
  "write_expression e = text_of (map token_lexeme (tokens_of 0 e))"

lemma writable_tokens:
  "writable e \<Longrightarrow> well_formed e \<Longrightarrow> t \<in> set (tokens_of lv e) \<Longrightarrow> lexeme_ok (token_lexeme t) \<and> lexeme_token (token_lexeme t) = t"
proof (induction e arbitrary: lv)
  case (Number v)
  then obtain q where q: "v = Num q" "q = of_nat (nat \<lfloor>q\<rfloor>)" "q < 2 ^ 53" by (cases v) auto
  define n where "n = nat \<lfloor>q\<rfloor>"
  have "(of_nat n :: rat) < of_nat (2 ^ 53)" using q(2,3) by (simp add: n_def)
  then have "n < 2 ^ 53" by (simp only: of_nat_less_iff)
  then have "fl (of_nat (nat \<lfloor>q\<rfloor>)) = Num q" using fl_nat [of n] q(2) by (simp add: n_def)
  then show ?case using Number.prems q(1) by (simp add: token_lexeme_def lexeme_ok_def lexeme_token_def)
next
  case (Ref m f)
  then show ?case by (auto simp: token_lexeme_def lexeme_ok_def lexeme_token_def isSymbol_def)
next
  case (Unary c e)
  then show ?case
    by (fastforce simp: token_lexeme_def lexeme_ok_def lexeme_token_def isSymbol_def isOperator_def is_sum_def parens_def split: if_splits)
next
  case (Binary c l r)
  then show ?case
    by (fastforce simp: token_lexeme_def lexeme_ok_def lexeme_token_def isSymbol_def isOperator_def is_sum_def is_product_def parens_def
        split: if_splits)
qed

text \<open>
  C37. The parser reads an expression as it was meant: an expression tree written with as few parentheses as the usual
  precedence and the left association of the operators need is parsed to that very tree.
\<close>

theorem expression_round_trip:
  assumes "well_formed e" "writable e"
  shows "parseExpression (write_expression e) = Inr e"
proof -
  have "list_all lexeme_ok (map token_lexeme (tokens_of 0 e))" "map (lexeme_token \<circ> token_lexeme) (tokens_of 0 e) = tokens_of 0 e"
    using writable_tokens [OF assms(2,1)] by (auto simp: list_all_iff intro: map_idI)
  then have "tokenize (write_expression e) = Inr (tokens_of 0 e @ [TEof])"
    unfolding write_expression_def by (simp add: tokenize_text)
  moreover have "parseAdditive (tokens_of 0 e @ [TEof]) = Inr (e, [TEof])"
    using reads_all [OF assms(1)] by (simp add: reads_def no_product_def loop_stops)
  ultimately show ?thesis by (simp add: parseExpression_def)
qed

text \<open>
  The series collected from a parsed expression are exactly those it refers to, each one once, and they
  are all that its value depends on.
\<close>

theorem series_refs_suffice:
  assumes "parseExpression input = Inr e" "\<forall>(m, f)\<in>set (collectSeriesRefs e). g m f = h m f"
  shows "evaluateExpression e g = evaluateExpression e h \<and> distinct (collectSeriesRefs e) \<and>
    set (collectSeriesRefs e) = set (visit_refs e)"
  using assms(2) collected [OF parse_no_nul [OF assms(1)]] evaluate_refs [of e g h] by auto

section \<open>Witnesses\<close>

text \<open>\<open>2 * (ATT.Roll - ATT.DesRoll)\<close>\<close>

definition roll_error :: expression where
  "roll_error = Binary TIMES (Number (Num 2)) (Binary MINUS (Ref ''ATT'' ''Roll'') (Ref ''ATT'' ''DesRoll''))"

lemma roll_error_ok: "well_formed roll_error" "writable roll_error"
  by code_simp+

theorem expression_round_trip_witness: "parseExpression (write_expression roll_error) = Inr roll_error"
  by (rule expression_round_trip [OF roll_error_ok])

lemma roll_error_parsed:
  "parseExpression ''ATT.Roll - ATT.DesRoll'' = Inr (Binary MINUS (Ref ''ATT'' ''Roll'') (Ref ''ATT'' ''DesRoll''))"
  by code_simp

theorem series_refs_suffice_witness:
  "(let e = Binary MINUS (Ref ''ATT'' ''Roll'') (Ref ''ATT'' ''DesRoll'') in
    evaluateExpression e (\<lambda>m f. if m = ''ATT'' then Num 1 else NaN) = evaluateExpression e (\<lambda>m f. Num 1) \<and>
    distinct (collectSeriesRefs e) \<and> set (collectSeriesRefs e) = set (visit_refs e))"
  unfolding Let_def by (rule series_refs_suffice [OF roll_error_parsed]) code_simp

end
