(* ===== verification/Message_Rpc.thy ===== *)
theory Message_Rpc
  imports Client_Base Js_Text Utf8 "HOL-Library.AList"
begin

text \<open>
  \<open>src/core/bus\<close> (\<open>protocol.ts\<close>, \<open>rpc.ts\<close>): requests and streams between two threads over \<open>postMessage\<close>. An endpoint is
  one \<open>PostMessageRpc\<close>; an event is one task of its thread. A handler is a number, the index of its \<open>AbortController\<close>;
  that its promise settles (\<open>RFinish\<close>), that it sends (\<open>RSend\<close>) or that the call itself throws (\<open>RThrow\<close>) is an event. \<open>posts\<close> says whether \<open>postMessage\<close> accepts the message of the event
  or throws (a value that cannot be cloned, a closed port). A \<open>Map\<close> is an association list in the order of insertion.
\<close>

section \<open>The wire protocol\<close>

record marshaled =
  me_name :: text_points
  me_message :: text_points
  me_stack :: "text_points option"

datatype thrown = ThrownError marshaled | ThrownString text_points | ThrownOther text_points

datatype envelope =
    Req nat string bool js_val
  | Cancel nat
  | Res nat js_val
  | Msg nat js_val
  | End nat
  | Err nat marshaled

text \<open>What arrives at an endpoint: a value that \<open>isRpcEnvelope\<close> accepts, or something else that shares the port.\<close>

datatype posted = Envelope envelope | Foreign

definition text_of_string :: "string \<Rightarrow> text_points" where
  "text_of_string s = map char_code s"

definition marshalError :: "thrown \<Rightarrow> marshaled" where
  "marshalError err =
     (case err of
        ThrownError e \<Rightarrow> e
      | ThrownString s \<Rightarrow> \<lparr>me_name = text_of_string ''Error'', me_message = s, me_stack = None\<rparr>
      | ThrownOther s \<Rightarrow> \<lparr>me_name = text_of_string ''Error'', me_message = s, me_stack = None\<rparr>)"

text \<open>An \<open>Error\<close> by its name, message and stack; without a stack in the message it keeps that of its own construction (\<open>None\<close>).\<close>

definition unmarshalError :: "marshaled \<Rightarrow> thrown" where
  "unmarshalError m = ThrownError m"

section \<open>An endpoint\<close>

record rpc_pending =
  rq_promise :: nat
  rq_signal :: bool

record rpc_handler =
  rh_id :: nat
  rh_stream :: bool
  rh_aborted :: bool
  rh_done :: bool

record rpc =
  rp_nextId :: nat
  rp_promises :: nat
  rp_callHandlers :: "string list"
  rp_streamHandlers :: "string list"
  rp_calls :: "(nat \<times> rpc_pending) list"
  rp_streams :: "(nat \<times> rpc_pending) list"
  rp_inbound :: "(nat \<times> nat) list"
  rp_handlers :: "rpc_handler list"
  rp_disposed :: bool

datatype rpc_reason = RemoteError thrown | AbortReason js_val | PostFailed | RpcDisposed

datatype rpc_effect =
    Post envelope
  | Invoke nat bool string js_val
  | SignalAbort nat
  | Deliver nat js_val
  | RpcSettle nat "rpc_reason + js_val option"

type_synonym rpc_result = "rpc \<times> rpc_effect list"

definition createRpc :: rpc where
  "createRpc =
     \<lparr>rp_nextId = 1, rp_promises = 0, rp_callHandlers = [], rp_streamHandlers = [], rp_calls = [], rp_streams = [],
      rp_inbound = [], rp_handlers = [], rp_disposed = False\<rparr>"

definition rpc_post :: "envelope \<Rightarrow> rpc \<Rightarrow> rpc_effect list" where
  "rpc_post e R = (if rp_disposed R then [] else [Post e])"

section \<open>The caller\<close>

definition add_pending :: "bool \<Rightarrow> nat \<Rightarrow> rpc_pending \<Rightarrow> rpc \<Rightarrow> rpc" where
  "add_pending stream i q R =
     (if stream then R\<lparr>rp_streams := AList.update i q (rp_streams R)\<rparr> else R\<lparr>rp_calls := AList.update i q (rp_calls R)\<rparr>)"

definition find_pending_rpc :: "bool \<Rightarrow> nat \<Rightarrow> rpc \<Rightarrow> rpc_pending option" where
  "find_pending_rpc stream i R = map_of (if stream then rp_streams R else rp_calls R) i"

definition drop_pending :: "bool \<Rightarrow> nat \<Rightarrow> rpc \<Rightarrow> rpc" where
  "drop_pending stream i R =
     (if stream then R\<lparr>rp_streams := AList.delete i (rp_streams R)\<rparr> else R\<lparr>rp_calls := AList.delete i (rp_calls R)\<rparr>)"

text \<open>\<open>finish\<close> and the \<open>resolve\<close> or \<open>reject\<close> of the entry.\<close>

definition settle_pending :: "bool \<Rightarrow> nat \<Rightarrow> rpc_reason + js_val option \<Rightarrow> rpc \<Rightarrow> rpc_result" where
  "settle_pending stream i out R =
     (case find_pending_rpc stream i R of
        Some q \<Rightarrow> (drop_pending stream i R, [RpcSettle (rq_promise q) out])
      | None \<Rightarrow> (R, []))"

text \<open>
  \<open>call\<close> and \<open>stream\<close>. \<open>signal\<close> is the abort signal given, with its reason when it is aborted already. A disposed endpoint
  posts nothing, so that nothing can fail there.
\<close>

definition rpc_request :: "bool \<Rightarrow> string \<Rightarrow> js_val \<Rightarrow> js_val option option \<Rightarrow> bool \<Rightarrow> rpc \<Rightarrow> rpc_result" where
  "rpc_request stream method req signal posts R =
     (let p = rp_promises R; R = R\<lparr>rp_promises := p + 1\<rparr>
      in case signal of
           Some (Some reason) \<Rightarrow> (R, [RpcSettle p (Inl (AbortReason reason))])
         | _ \<Rightarrow>
             let i = rp_nextId R;
                 R = add_pending stream i \<lparr>rq_promise = p, rq_signal = (signal \<noteq> None)\<rparr> (R\<lparr>rp_nextId := i + 1\<rparr>)
             in if posts \<or> rp_disposed R then (R, rpc_post (Req i method stream req) R)
                else settle_pending stream i (Inl PostFailed) R)"

text \<open>The listener \<open>onAbort\<close> of the request \<open>i\<close>.\<close>

definition rpc_abort :: "bool \<Rightarrow> nat \<Rightarrow> js_val \<Rightarrow> rpc \<Rightarrow> rpc_result" where
  "rpc_abort stream i reason R =
     (case find_pending_rpc stream i R of
        Some q \<Rightarrow>
          if rq_signal q then
            let (R', fs) = settle_pending stream i (Inl (AbortReason reason)) R in (R', rpc_post (Cancel i) R @ fs)
          else (R, [])
      | None \<Rightarrow> (R, []))"

section \<open>The handler\<close>

definition failInbound :: "nat \<Rightarrow> thrown \<Rightarrow> rpc \<Rightarrow> rpc_result" where
  "failInbound i err R = (R\<lparr>rp_inbound := AList.delete i (rp_inbound R)\<rparr>, rpc_post (Err i (marshalError err)) R)"

definition no_handler :: "bool \<Rightarrow> string \<Rightarrow> thrown" where
  "no_handler stream method =
     ThrownError \<lparr>me_name = text_of_string ''Error'',
       me_message = text_of_string ((if stream then ''No stream handler for '' else ''No handler for '') @ [CHR 0x22] @ method @ [CHR 0x22]),
       me_stack = None\<rparr>"

text \<open>
  The call of the handler, \<open>Invoke\<close>, gives a promise, whose end is \<open>rpc_finish\<close>, or throws before there is one, in the same task:
  \<open>rpc_throw\<close>.
\<close>

definition onRequest :: "nat \<Rightarrow> string \<Rightarrow> bool \<Rightarrow> js_val \<Rightarrow> rpc \<Rightarrow> rpc_result" where
  "onRequest i method stream req R =
     (let c = length (rp_handlers R);
          h = \<lparr>rh_id = i, rh_stream = stream, rh_aborted = False, rh_done = False\<rparr>;
          known = (method \<in> set (if stream then rp_streamHandlers R else rp_callHandlers R))
      in if known
         then (R\<lparr>rp_handlers := rp_handlers R @ [h], rp_inbound := AList.update i c (rp_inbound R)\<rparr>, [Invoke c stream method req])
         else failInbound i (no_handler stream method)
                (R\<lparr>rp_handlers := rp_handlers R @ [h\<lparr>rh_done := True\<rparr>], rp_inbound := AList.update i c (rp_inbound R)\<rparr>))"

definition abort_handler :: "nat \<Rightarrow> rpc \<Rightarrow> rpc" where
  "abort_handler c R = R\<lparr>rp_handlers := (rp_handlers R)[c := (rp_handlers R ! c)\<lparr>rh_aborted := True\<rparr>]\<rparr>"

definition onCancel :: "nat \<Rightarrow> rpc \<Rightarrow> rpc_result" where
  "onCancel i R =
     (case map_of (rp_inbound R) i of
        Some c \<Rightarrow> (abort_handler c (R\<lparr>rp_inbound := AList.delete i (rp_inbound R)\<rparr>), [SignalAbort c])
      | None \<Rightarrow> (R, []))"

text \<open>The \<open>send\<close> of a streaming handler; it may be called after the handler returned. When \<open>postMessage\<close> throws the handler sees it and nothing else changes.\<close>

definition rpc_send :: "nat \<Rightarrow> js_val \<Rightarrow> rpc \<Rightarrow> rpc_result" where
  "rpc_send c v R =
     (if c < length (rp_handlers R) \<and> rh_stream (rp_handlers R ! c) \<and> \<not> rh_aborted (rp_handlers R ! c)
      then (R, rpc_post (Msg (rh_id (rp_handlers R ! c)) v) R) else (R, []))"

text \<open>The promise of a handler settles. When \<open>postMessage\<close> throws the entry of \<open>inbound\<close> stays.\<close>

definition handler_reply :: "rpc_handler \<Rightarrow> thrown + js_val \<Rightarrow> envelope" where
  "handler_reply h out =
     (case out of
        Inr v \<Rightarrow> if rh_stream h then End (rh_id h) else Res (rh_id h) v
      | Inl err \<Rightarrow> Err (rh_id h) (marshalError err))"

definition rpc_finish :: "nat \<Rightarrow> thrown + js_val \<Rightarrow> bool \<Rightarrow> rpc \<Rightarrow> rpc_result" where
  "rpc_finish c out posts R =
     (if c < length (rp_handlers R) \<and> \<not> rh_done (rp_handlers R ! c) then
        let h = rp_handlers R ! c;
            R = R\<lparr>rp_handlers := (rp_handlers R)[c := h\<lparr>rh_done := True\<rparr>]\<rparr>;
            D = R\<lparr>rp_inbound := AList.delete (rh_id h) (rp_inbound R)\<rparr>
        in if rh_aborted h then (D, [])
           else if posts \<or> rp_disposed R then (D, rpc_post (handler_reply h out) R)
           else (R, [])
      else (R, []))"

text \<open>
  A handler that throws before it returns a promise: \<open>dispatch\<close> is left with the exception, no \<open>then\<close> is attached, nothing is posted and
  the entry of \<open>inbound\<close> stays.
\<close>

definition rpc_throw :: "nat \<Rightarrow> rpc \<Rightarrow> rpc" where
  "rpc_throw c R =
     (if c < length (rp_handlers R) \<and> \<not> rh_done (rp_handlers R ! c)
      then R\<lparr>rp_handlers := (rp_handlers R)[c := (rp_handlers R ! c)\<lparr>rh_done := True\<rparr>]\<rparr> else R)"

section \<open>Dispatch and disposal\<close>

definition onFailure :: "nat \<Rightarrow> marshaled \<Rightarrow> rpc \<Rightarrow> rpc_result" where
  "onFailure i e R =
     (let err = unmarshalError e
      in case find_pending_rpc False i R of
           Some q \<Rightarrow> settle_pending False i (Inl (RemoteError err)) R
         | None \<Rightarrow> settle_pending True i (Inl (RemoteError err)) R)"

definition onStreamMsg :: "nat \<Rightarrow> js_val \<Rightarrow> rpc \<Rightarrow> rpc_result" where
  "onStreamMsg i v R = (case find_pending_rpc True i R of Some q \<Rightarrow> (R, [Deliver (rq_promise q) v]) | None \<Rightarrow> (R, []))"

definition dispatch :: "posted \<Rightarrow> rpc \<Rightarrow> rpc_result" where
  "dispatch p R =
     (if rp_disposed R then (R, [])
      else case p of
        Foreign \<Rightarrow> (R, [])
      | Envelope e \<Rightarrow>
          (case e of
             Req i method stream req \<Rightarrow> onRequest i method stream req R
           | Cancel i \<Rightarrow> onCancel i R
           | Res i v \<Rightarrow> settle_pending False i (Inr (Some v)) R
           | Msg i v \<Rightarrow> onStreamMsg i v R
           | End i \<Rightarrow> settle_pending True i (Inr None) R
           | Err i m \<Rightarrow> onFailure i m R))"

definition abort_inbound :: "nat list \<Rightarrow> rpc \<Rightarrow> rpc" where
  "abort_inbound cs R = fold abort_handler cs R"

definition rpc_dispose :: "rpc \<Rightarrow> rpc_result" where
  "rpc_dispose R =
     (if rp_disposed R then (R, [])
      else
        let pending = map (rq_promise \<circ> snd) (rp_calls R @ rp_streams R);
            cs = map snd (rp_inbound R)
        in (abort_inbound cs (R\<lparr>rp_disposed := True, rp_calls := [], rp_streams := [], rp_inbound := [], rp_callHandlers := [],
              rp_streamHandlers := []\<rparr>),
            map (\<lambda>p. RpcSettle p (Inl RpcDisposed)) pending @ map SignalAbort cs))"

datatype rpc_event =
    RRequest bool string js_val "js_val option option" bool
  | RAbort bool nat js_val
  | RReceive posted
  | RSend nat js_val
  | RFinish nat "thrown + js_val" bool
  | RThrow nat
  | RHandle bool string
  | RDispose

definition rpc_step :: "rpc \<Rightarrow> rpc_event \<Rightarrow> rpc_result" where
  "rpc_step R e =
     (case e of
        RRequest stream method req signal posts \<Rightarrow> rpc_request stream method req signal posts R
      | RAbort stream i reason \<Rightarrow> rpc_abort stream i reason R
      | RReceive p \<Rightarrow> dispatch p R
      | RSend c v \<Rightarrow> rpc_send c v R
      | RFinish c out posts \<Rightarrow> rpc_finish c out posts R
      | RThrow c \<Rightarrow> (rpc_throw c R, [])
      | RHandle stream method \<Rightarrow>
          (if stream then R\<lparr>rp_streamHandlers := method # rp_streamHandlers R\<rparr>
           else R\<lparr>rp_callHandlers := method # rp_callHandlers R\<rparr>, [])
      | RDispose \<Rightarrow> rpc_dispose R)"

end
