(* ===== verification/Rpc_System.thy ===== *)
theory Rpc_System
  imports Message_Rpc
begin

text \<open>
  Two endpoints and the two directions of a port between them: messages arrive once and in the order in which they
  were posted. \<open>Local b e\<close> is an event of the thread \<open>b\<close> (a call, an abort, a handler that settles), \<open>Arrive b\<close> the arrival of
  the next message at \<open>b\<close>. A thread cannot forge an envelope.
\<close>

record rpc_system =
  sy_end :: "bool \<Rightarrow> rpc"
  sy_chan :: "bool \<Rightarrow> envelope list"

datatype rpc_sys_event = Local bool rpc_event | Arrive bool

definition posts_of :: "rpc_effect list \<Rightarrow> envelope list" where
  "posts_of fs = List.map_filter (\<lambda>f. case f of Post e \<Rightarrow> Some e | _ \<Rightarrow> None) fs"

definition local_event :: "rpc_event \<Rightarrow> bool" where
  "local_event e = (case e of RReceive (Envelope x) \<Rightarrow> False | _ \<Rightarrow> True)"

definition happen :: "bool \<Rightarrow> rpc_event \<Rightarrow> rpc_system \<Rightarrow> rpc_system \<times> (bool \<times> rpc_effect) list" where
  "happen b e S =
     (let (R, fs) = rpc_step (sy_end S b) e
      in (S\<lparr>sy_end := (sy_end S)(b := R), sy_chan := (sy_chan S)((\<not> b) := sy_chan S (\<not> b) @ posts_of fs)\<rparr>, map (Pair b) fs))"

definition rpc_sys_step :: "rpc_system \<Rightarrow> rpc_sys_event \<Rightarrow> rpc_system \<times> (bool \<times> rpc_effect) list" where
  "rpc_sys_step S ev =
     (case ev of
        Local b e \<Rightarrow> if local_event e then happen b e S else (S, [])
      | Arrive b \<Rightarrow>
          (case sy_chan S b of
             [] \<Rightarrow> (S, [])
           | x # q \<Rightarrow> happen b (RReceive (Envelope x)) (S\<lparr>sy_chan := (sy_chan S)(b := q)\<rparr>)))"

definition rpc_system_init :: rpc_system where
  "rpc_system_init = \<lparr>sy_end = \<lambda>_. createRpc, sy_chan = \<lambda>_. []\<rparr>"

section \<open>Posts\<close>

lemma posts_simps [simp]:
  "posts_of [] = []" "posts_of (Post e # fs) = e # posts_of fs" "posts_of (Invoke c s m r # fs) = posts_of fs"
  "posts_of (SignalAbort c # fs) = posts_of fs" "posts_of (Deliver p v # fs) = posts_of fs"
  "posts_of (RpcSettle p out # fs) = posts_of fs" "posts_of (fs @ gs) = posts_of fs @ posts_of gs"
  by (simp_all add: posts_of_def map_filter_simps List.map_filter_def)

section \<open>The flow of one direction\<close>

text \<open>
  Of each request there is at most one token: the request on its way, a handler that works on it, or the reply on its way
  back, with the kind of the request (a stream or not) where it shows.
\<close>

type_synonym rpc_token = "nat \<times> bool option"

fun req_token :: "envelope \<Rightarrow> rpc_token option" where
  "req_token (Req i m s r) = Some (i, Some s)"
| "req_token _ = None"

definition live_token :: "rpc_handler \<Rightarrow> rpc_token option" where
  "live_token h = (if rh_aborted h \<or> rh_done h then None else Some (rh_id h, Some (rh_stream h)))"

fun final_token :: "envelope \<Rightarrow> rpc_token option" where
  "final_token (Res i v) = Some (i, Some False)"
| "final_token (End i) = Some (i, Some True)"
| "final_token (Err i m) = Some (i, None)"
| "final_token _ = None"

definition toks :: "('a \<Rightarrow> rpc_token option) \<Rightarrow> 'a list \<Rightarrow> rpc_token multiset" where
  "toks f xs = mset (List.map_filter f xs)"

lemma toks_simps [simp]:
  "toks f [] = {#}" "toks f (x # xs) = (case f x of Some k \<Rightarrow> {#k#} | None \<Rightarrow> {#}) + toks f xs"
  "toks f (xs @ ys) = toks f xs + toks f ys"
  by (simp_all add: toks_def map_filter_simps List.map_filter_def split: option.split)

lemma toks_update:
  "c < length xs \<Longrightarrow> toks f (xs[c := y]) + (case f (xs ! c) of Some k \<Rightarrow> {#k#} | None \<Rightarrow> {#})
     = toks f xs + (case f y of Some k \<Rightarrow> {#k#} | None \<Rightarrow> {#})"
proof (induction xs arbitrary: c)
  case (Cons x xs)
  then show ?case by (cases c) (auto simp: ac_simps split: option.split)
qed simp

definition awaited :: "bool \<Rightarrow> nat \<Rightarrow> rpc \<Rightarrow> bool" where
  "awaited stream i A = (find_pending_rpc stream i A \<noteq> None)"

text \<open>What the caller \<open>A\<close> awaits is on its way.\<close>

definition on_the_way :: "rpc_token multiset \<Rightarrow> rpc \<Rightarrow> bool" where
  "on_the_way T A =
     ((\<forall>i. count (image_mset fst T) i \<le> 1) \<and> (\<forall>x\<in>#T. fst x < rp_nextId A) \<and>
      (\<forall>s i. awaited s i A \<longrightarrow> i < rp_nextId A \<and> \<not> awaited (\<not> s) i A \<and> ((i, Some s) \<in># T \<or> (i, None) \<in># T)))"

lemma wayD:
  assumes "on_the_way T A"
  shows "count (image_mset fst T) i \<le> 1" "x \<in># T \<Longrightarrow> fst x < rp_nextId A" "awaited s i A \<Longrightarrow> i < rp_nextId A"
    "awaited s i A \<Longrightarrow> \<not> awaited (\<not> s) i A" "awaited s i A \<Longrightarrow> (i, Some s) \<in># T \<or> (i, None) \<in># T"
  using assms unfolding on_the_way_def by blast+

lemma wayI:
  assumes "\<And>i. count (image_mset fst T) i \<le> 1" "\<And>x. x \<in># T \<Longrightarrow> fst x < rp_nextId A" "\<And>s i. awaited s i A \<Longrightarrow> i < rp_nextId A"
    "\<And>s i. awaited s i A \<Longrightarrow> \<not> awaited (\<not> s) i A" "\<And>s i. awaited s i A \<Longrightarrow> (i, Some s) \<in># T \<or> (i, None) \<in># T"
  shows "on_the_way T A"
  using assms unfolding on_the_way_def by blast

lemma way_less:
  assumes "on_the_way T A" "rp_nextId A' = rp_nextId A" "\<And>s i. awaited s i A' \<Longrightarrow> awaited s i A"
  shows "on_the_way T A'"
proof (rule wayI)
  show "\<not> awaited (\<not> s) i A'" if "awaited s i A'" for s i
    using wayD(4) [OF assms(1) assms(3) [OF that]] assms(3) by blast
  show "i < rp_nextId A'" if "awaited s i A'" for s i using wayD(3) [OF assms(1) assms(3) [OF that]] assms(2) by simp
  show "(i, Some s) \<in># T \<or> (i, None) \<in># T" if "awaited s i A'" for s i using wayD(5) [OF assms(1) assms(3) [OF that]] .
qed (use wayD(1,2) [OF assms(1)] assms(2) in auto)

lemma way_used:
  assumes "on_the_way (add_mset (i, k) T) A"
  shows "(i, k') \<notin># T"
proof
  assume "(i, k') \<in># T"
  then obtain T' where "T = add_mset (i, k') T'" by (metis insert_DiffM)
  then show False using wayD(1) [OF assms, of i] by simp
qed

lemma way_remove:
  assumes "on_the_way (add_mset (i, k) T) A" "\<And>s. \<not> awaited s i A"
  shows "on_the_way T A"
proof (rule wayI)
  show "count (image_mset fst T) j \<le> 1" for j using wayD(1) [OF assms(1), of j] by (simp split: if_splits)
  show "(j, Some s) \<in># T \<or> (j, None) \<in># T" if "awaited s j A" for s j
    using wayD(5) [OF assms(1) that] that assms(2) by auto
qed (use wayD [OF assms(1)] in auto)

lemma way_kind: "on_the_way (add_mset (i, Some s) T) A \<Longrightarrow> on_the_way (add_mset (i, None) T) A"
  by (rule wayI) (use wayD [of "add_mset (i, Some s) T" A] in \<open>fastforce+\<close>)

lemma way_awaited: "on_the_way (add_mset (i, Some k) T) A \<Longrightarrow> awaited s i A \<Longrightarrow> s = k"
  using wayD(5) [of "add_mset (i, Some k) T" A s i] way_used [of i "Some k" T A] by auto

definition flow :: "rpc \<Rightarrow> envelope list \<Rightarrow> rpc \<Rightarrow> envelope list \<Rightarrow> bool" where
  "flow A Q H P =
     (on_the_way (toks req_token Q + toks live_token (rp_handlers H) + toks final_token P) A \<and>
      (\<forall>i. Cancel i \<in> set Q \<longrightarrow> i < rp_nextId A \<and> (\<forall>s. \<not> awaited s i A)) \<and>
      (\<forall>(i, c)\<in>set (rp_inbound H). c < length (rp_handlers H) \<and> rh_id (rp_handlers H ! c) = i) \<and>
      \<not> rp_disposed A \<and> \<not> rp_disposed H)"

lemma flowD:
  assumes "flow A Q H P"
  shows "on_the_way (toks req_token Q + toks live_token (rp_handlers H) + toks final_token P) A"
    "Cancel i \<in> set Q \<Longrightarrow> i < rp_nextId A \<and> \<not> awaited s i A"
    "(i, c) \<in> set (rp_inbound H) \<Longrightarrow> c < length (rp_handlers H) \<and> rh_id (rp_handlers H ! c) = i"
    "\<not> rp_disposed A" "\<not> rp_disposed H"
  using assms unfolding flow_def by fast+

lemma flowI:
  assumes "on_the_way (toks req_token Q + toks live_token (rp_handlers H) + toks final_token P) A"
    "\<And>i s. Cancel i \<in> set Q \<Longrightarrow> i < rp_nextId A \<and> \<not> awaited s i A"
    "\<And>i c. (i, c) \<in> set (rp_inbound H) \<Longrightarrow> c < length (rp_handlers H) \<and> rh_id (rp_handlers H ! c) = i"
    "\<not> rp_disposed A" "\<not> rp_disposed H"
  shows "flow A Q H P"
  unfolding flow_def using assms by blast

lemma awaited_simps [simp]:
  "awaited s i (R\<lparr>rp_promises := p\<rparr>) = awaited s i R" "awaited s i (R\<lparr>rp_nextId := n\<rparr>) = awaited s i R"
  "awaited s i (R\<lparr>rp_handlers := hs\<rparr>) = awaited s i R" "awaited s i (R\<lparr>rp_inbound := ib\<rparr>) = awaited s i R"
  "awaited s i (R\<lparr>rp_callHandlers := ms\<rparr>) = awaited s i R" "awaited s i (R\<lparr>rp_streamHandlers := ms\<rparr>) = awaited s i R"
  by (simp_all add: awaited_def find_pending_rpc_def)

lemma awaited_add: "awaited s i (add_pending s' j q R) = (awaited s i R \<or> (s = s' \<and> i = j))"
  by (auto simp: awaited_def find_pending_rpc_def add_pending_def update_conv')

lemma awaited_drop: "awaited s i (drop_pending s' j R) = (awaited s i R \<and> \<not> (s = s' \<and> i = j))"
  by (auto simp: awaited_def find_pending_rpc_def drop_pending_def delete_conv' restrict_map_def)

lemma frame_pending [simp]:
  "rp_nextId (add_pending s i q R) = rp_nextId R" "rp_handlers (add_pending s i q R) = rp_handlers R"
  "rp_inbound (add_pending s i q R) = rp_inbound R" "rp_disposed (add_pending s i q R) = rp_disposed R"
  "rp_nextId (drop_pending s i R) = rp_nextId R" "rp_handlers (drop_pending s i R) = rp_handlers R"
  "rp_inbound (drop_pending s i R) = rp_inbound R" "rp_disposed (drop_pending s i R) = rp_disposed R"
  "rp_promises (add_pending s i q R) = rp_promises R" "rp_promises (drop_pending s i R) = rp_promises R"
  by (simp_all add: add_pending_def drop_pending_def)

lemma settle_cases:
  "fst (settle_pending s i out R) = (if awaited s i R then drop_pending s i R else R)" "posts_of (snd (settle_pending s i out R)) = []"
  by (auto simp: settle_pending_def awaited_def split: option.splits)

lemma flow_init: "flow createRpc [] createRpc []"
  by (rule flowI) (simp_all add: createRpc_def on_the_way_def awaited_def find_pending_rpc_def)

section \<open>The flow is kept\<close>

lemma no_toks: "\<forall>x\<in>set xs. f x = None \<Longrightarrow> toks f xs = {#}"
  by (induction xs) auto

text \<open>The caller posts no new request and forgets none, or forgets the one it cancels.\<close>

lemma flow_caller:
  assumes "flow A Q H P" "rp_nextId A' = rp_nextId A" "\<And>s i. awaited s i A' \<Longrightarrow> awaited s i A" "\<not> rp_disposed A'"
    "\<forall>x\<in>set out. req_token x = None" "\<And>i s. Cancel i \<in> set out \<Longrightarrow> i < rp_nextId A \<and> \<not> awaited s i A'"
  shows "flow A' (Q @ out) H P"
proof (rule flowI)
  show "on_the_way (toks req_token (Q @ out) + toks live_token (rp_handlers H) + toks final_token P) A'"
    using way_less [OF flowD(1) [OF assms(1)] assms(2,3)] assms(5) by (simp add: no_toks)
  show "i < rp_nextId A' \<and> \<not> awaited s i A'" if "Cancel i \<in> set (Q @ out)" for i s
    using that flowD(2) [OF assms(1), of i s] assms(2,3,6) by auto
qed (use flowD(3-5) [OF assms(1)] assms(4) in auto)

lemma flow_request:
  assumes "flow A Q H P" "i = rp_nextId A"
  shows "flow (add_pending s i q (A\<lparr>rp_promises := p, rp_nextId := i + 1\<rparr>)) (Q @ [Req i m s r]) H P"
proof -
  define T where "T = toks req_token Q + toks live_token (rp_handlers H) + toks final_token P"
  define A' where "A' = add_pending s i q (A\<lparr>rp_promises := p, rp_nextId := i + 1\<rparr>)"
  have T: "on_the_way T A" unfolding T_def by (rule flowD(1) [OF assms(1)])
  have A': "rp_nextId A' = i + 1" "awaited s' j A' = (awaited s' j A \<or> s' = s \<and> j = i)" "\<not> rp_disposed A'" for s' j
    using flowD(4) [OF assms(1)] by (simp_all add: A'_def awaited_add)
  have new: "\<not> awaited s' i A" for s' using wayD(3) [OF T] assms(2) by blast
  have fresh: "count (image_mset fst T) i = 0"
    using wayD(2) [OF T] assms(2) by (force simp: count_eq_zero_iff)
  have "on_the_way (add_mset (i, Some s) T) A'"
  proof (rule wayI)
    show "count (image_mset fst (add_mset (i, Some s) T)) j \<le> 1" for j
      using wayD(1) [OF T, of j] fresh by (cases "j = i") simp_all
    show "\<not> awaited (\<not> s') j A'" if "awaited s' j A'" for s' j
      using that new wayD(4) [OF T] by (auto simp: A')
    show "(j, Some s') \<in># add_mset (i, Some s) T \<or> (j, None) \<in># add_mset (i, Some s) T" if "awaited s' j A'" for s' j
      using that wayD(5) [OF T] by (auto simp: A')
  qed (use wayD [OF T] assms(2) in \<open>fastforce simp: A'\<close>)+
  moreover have "Cancel i \<notin> set Q" using flowD(2) [OF assms(1)] assms(2) by blast
  ultimately have "flow A' (Q @ [Req i m s r]) H P"
    using flowD(2-5) [OF assms(1)] A'(3) assms(2) by (intro flowI) (auto simp: T_def A' less_Suc_eq)
  then show ?thesis by (simp add: A'_def)
qed

text \<open>The peer acts as a caller itself.\<close>

lemma flow_peer:
  assumes "flow A Q H P" "rp_handlers H' = rp_handlers H" "rp_inbound H' = rp_inbound H" "\<not> rp_disposed H'"
    "\<forall>x\<in>set out. final_token x = None"
  shows "flow A Q H' (P @ out)"
  by (rule flowI) (use flowD [OF assms(1)] assms(2-5) in \<open>simp_all add: no_toks\<close>)

text \<open>A handler settles or is aborted, or a request arrives: a token moves.\<close>

definition inbound_ok :: "rpc_handler list \<Rightarrow> (nat \<times> nat) list \<Rightarrow> bool" where
  "inbound_ok hs ib = (\<forall>(i, c)\<in>set ib. c < length hs \<and> rh_id (hs ! c) = i)"

lemma inbound_flow: "flow A Q H P \<Longrightarrow> inbound_ok (rp_handlers H) (rp_inbound H)"
  using flowD(3) by (fastforce simp: inbound_ok_def)

lemma update_set: "set (AList.update k v al) \<subseteq> insert (k, v) (set al)"
  by (induction al) auto

lemma inbound_simps:
  "inbound_ok hs ib \<Longrightarrow> inbound_ok hs (AList.delete i ib)"
  "inbound_ok hs ib \<Longrightarrow> inbound_ok (hs @ [h]) ib"
  "inbound_ok hs ib \<Longrightarrow> rh_id h = rh_id (hs ! c) \<Longrightarrow> inbound_ok (hs[c := h]) ib"
  "inbound_ok (hs @ [h]) ib \<Longrightarrow> rh_id h = i \<Longrightarrow> c = length hs \<Longrightarrow> inbound_ok (hs @ [h]) (AList.update i c ib)"
proof -
  show "inbound_ok hs ib \<Longrightarrow> inbound_ok hs (AList.delete i ib)" by (auto simp: inbound_ok_def AList.delete_eq)
  show "inbound_ok hs ib \<Longrightarrow> inbound_ok (hs @ [h]) ib" by (fastforce simp: inbound_ok_def nth_append)
  show "inbound_ok hs ib \<Longrightarrow> rh_id h = rh_id (hs ! c) \<Longrightarrow> inbound_ok (hs[c := h]) ib"
    unfolding inbound_ok_def by (cases "c < length hs") (fastforce simp: nth_list_update)+
  show "inbound_ok (hs @ [h]) (AList.update i c ib)" if "inbound_ok (hs @ [h]) ib" "rh_id h = i" "c = length hs"
    using that update_set [of i c ib] by (fastforce simp: inbound_ok_def)
qed

lemma flow_moved:
  assumes "flow A Q H P"
    "on_the_way (toks req_token Q + toks live_token (rp_handlers H) + toks final_token P) A \<Longrightarrow>
     on_the_way (toks req_token Q' + toks live_token (rp_handlers H') + toks final_token P') A"
    "set Q' \<subseteq> set Q" "\<not> rp_disposed H'" "inbound_ok (rp_handlers H') (rp_inbound H')"
  shows "flow A Q' H' P'"
  by (rule flowI) (use assms(2) [OF flowD(1) [OF assms(1)]] flowD(2,4) [OF assms(1)] assms(3-5) in \<open>auto simp: inbound_ok_def\<close>)

lemma flow_request_arrives:
  assumes "flow A (Req i m s r # Q) H P"
  shows "flow A Q (fst (onRequest i m s r H)) (P @ posts_of (snd (onRequest i m s r H)))"
proof (rule flow_moved [OF assms])
  show "inbound_ok (rp_handlers (fst (onRequest i m s r H))) (rp_inbound (fst (onRequest i m s r H)))"
    using inbound_flow [OF assms]
    by (auto simp: onRequest_def failInbound_def Let_def intro!: inbound_simps(1) inbound_simps(4) [OF inbound_simps(2)])
  define T where "T = toks req_token Q + toks live_token (rp_handlers H) + toks final_token P"
  assume "on_the_way (toks req_token (Req i m s r # Q) + toks live_token (rp_handlers H) + toks final_token P) A"
  then have T: "on_the_way (add_mset (i, Some s) T) A" by (simp add: T_def)
  show "on_the_way (toks req_token Q + toks live_token (rp_handlers (fst (onRequest i m s r H)))
      + toks final_token (P @ posts_of (snd (onRequest i m s r H)))) A"
    using T way_kind [OF T] flowD(5) [OF assms]
    by (simp add: onRequest_def failInbound_def rpc_post_def Let_def live_token_def T_def)
qed (use flowD(5) [OF assms] in \<open>auto simp: onRequest_def failInbound_def Let_def\<close>)

lemma flow_cancel_arrives:
  assumes "flow A (Cancel i # Q) H P"
  shows "flow A Q (fst (onCancel i H)) (P @ posts_of (snd (onCancel i H)))"
proof (cases "map_of (rp_inbound H) i")
  case None
  then show ?thesis using assms by (auto simp: onCancel_def intro!: flow_moved [OF assms] flowD(5) [OF assms] inbound_flow)
next
  case (Some c)
  have c: "c < length (rp_handlers H)" "rh_id (rp_handlers H ! c) = i"
    using inbound_flow [OF assms] map_of_SomeD [OF Some] by (auto simp: inbound_ok_def)
  have gone: "\<not> awaited s i A" for s using flowD(2) [OF assms] by simp
  define h where "h = rp_handlers H ! c"
  define hs where "hs = (rp_handlers H)[c := h\<lparr>rh_aborted := True\<rparr>]"
  have H': "rp_handlers (fst (onCancel i H)) = hs" "rp_inbound (fst (onCancel i H)) = AList.delete i (rp_inbound H)"
    "rp_disposed (fst (onCancel i H)) = rp_disposed H" "posts_of (snd (onCancel i H)) = []"
    using Some by (simp_all add: onCancel_def abort_handler_def hs_def h_def)
  show ?thesis
  proof (rule flow_moved [OF assms])
    assume T: "on_the_way (toks req_token (Cancel i # Q) + toks live_token (rp_handlers H) + toks final_token P) A"
    have u: "toks live_token hs + (case live_token h of Some k \<Rightarrow> {#k#} | None \<Rightarrow> {#}) = toks live_token (rp_handlers H)"
      using toks_update [OF c(1), of live_token "h\<lparr>rh_aborted := True\<rparr>"] by (simp add: hs_def h_def live_token_def)
    have "on_the_way (toks req_token Q + toks live_token hs + toks final_token P) A"
    proof (cases "live_token h")
      case None
      then show ?thesis using T u by simp
    next
      case (Some k)
      then have "k = (i, Some (rh_stream h))" using c by (auto simp: live_token_def h_def split: if_splits)
      then have "on_the_way (add_mset (i, Some (rh_stream h)) (toks req_token Q + toks live_token hs + toks final_token P)) A"
        using T Some by (simp flip: u)
      then show ?thesis using gone by (rule way_remove)
    qed
    then show "on_the_way (toks req_token Q + toks live_token (rp_handlers (fst (onCancel i H)))
      + toks final_token (P @ posts_of (snd (onCancel i H)))) A" by (simp add: H')
  qed (use flowD(5) [OF assms] inbound_flow [OF assms] in \<open>auto simp: H' hs_def h_def intro!: inbound_simps\<close>)
qed

lemma flow_finish:
  assumes "flow A Q H P"
  shows "flow A Q (fst (rpc_finish c out True H)) (P @ posts_of (snd (rpc_finish c out True H)))"
proof (cases "c < length (rp_handlers H) \<and> \<not> rh_done (rp_handlers H ! c)")
  case False
  then have "rpc_finish c out True H = (H, [])" by (auto simp: rpc_finish_def)
  then show ?thesis using assms by simp
next
  case True
  define h where "h = rp_handlers H ! c"
  define hs where "hs = (rp_handlers H)[c := h\<lparr>rh_done := True\<rparr>]"
  have H': "rp_handlers (fst (rpc_finish c out True H)) = hs" "rp_disposed (fst (rpc_finish c out True H)) = rp_disposed H"
    "rp_inbound (fst (rpc_finish c out True H)) = AList.delete (rh_id h) (rp_inbound H)"
    "posts_of (snd (rpc_finish c out True H)) = (if rh_aborted h then [] else [handler_reply h out])"
    using True flowD(5) [OF assms] by (simp_all add: rpc_finish_def Let_def hs_def h_def rpc_post_def)
  show ?thesis
  proof (rule flow_moved [OF assms])
    assume T: "on_the_way (toks req_token Q + toks live_token (rp_handlers H) + toks final_token P) A"
    have u: "toks live_token (rp_handlers H) = toks live_token hs + (if rh_aborted h then {#} else {#(rh_id h, Some (rh_stream h))#})"
      using toks_update [of c "rp_handlers H" live_token "h\<lparr>rh_done := True\<rparr>"] True
      by (cases "rh_aborted h") (simp_all add: hs_def h_def live_token_def)
    define T' where "T' = toks req_token Q + toks live_token hs + toks final_token P"
    have "on_the_way (toks req_token Q + toks live_token hs + toks final_token (P @ [handler_reply h out])) A" if "\<not> rh_aborted h"
    proof -
      have "on_the_way (add_mset (rh_id h, Some (rh_stream h)) T') A" using T that by (simp add: u T'_def)
      note this way_kind [OF this]
      then show ?thesis by (cases out; cases "rh_stream h") (simp_all add: handler_reply_def T'_def)
    qed
    then show "on_the_way (toks req_token Q + toks live_token (rp_handlers (fst (rpc_finish c out True H)))
      + toks final_token (P @ posts_of (snd (rpc_finish c out True H)))) A"
      using T by (cases "rh_aborted h") (simp_all add: H' u)
  qed (use flowD(5) [OF assms] inbound_flow [OF assms] in \<open>auto simp: H' hs_def h_def intro!: inbound_simps\<close>)
qed

text \<open>A reply arrives: nothing awaits its id any more.\<close>

lemma flow_reply_arrives:
  assumes "flow A Q H (x # P)" "final_token x = Some (i, k)" "rp_nextId A' = rp_nextId A" "\<not> rp_disposed A'"
    "\<And>s j. awaited s j A' \<Longrightarrow> awaited s j A \<and> j \<noteq> i"
  shows "flow A' Q H P"
proof (rule flowI)
  define T where "T = toks req_token Q + toks live_token (rp_handlers H) + toks final_token P"
  have "on_the_way (add_mset (i, k) T) A" using flowD(1) [OF assms(1)] assms(2) by (simp add: T_def)
  then have "on_the_way (add_mset (i, k) T) A'" using assms(5) by (intro way_less [OF _ assms(3)]) blast+
  then have "on_the_way T A'" by (rule way_remove) (use assms(5) in blast)
  then show "on_the_way (toks req_token Q + toks live_token (rp_handlers H) + toks final_token P) A'" by (simp add: T_def)
  show "j < rp_nextId A' \<and> \<not> awaited s j A'" if "Cancel j \<in> set Q" for j s
    using flowD(2) [OF assms(1) that] assms(3,5) by auto
qed (use flowD(3-5) [OF assms(1)] assms(4) in auto)


section \<open>The system\<close>

lemma flow_pass:
  "flow A Q H (x # P) \<Longrightarrow> final_token x = None \<Longrightarrow> flow A Q H P"
  "flow A (x # Q) H P \<Longrightarrow> req_token x = None \<Longrightarrow> flow A Q H P"
  by (auto simp: flow_def)

text \<open>No endpoint is disposed, every message can be posted, and no handler throws before it returns its promise.\<close>

definition clean :: "rpc_event \<Rightarrow> bool" where
  "clean e = (case e of RDispose \<Rightarrow> False | RThrow c \<Rightarrow> False | RRequest s m r sg posts \<Rightarrow> posts | RFinish c out posts \<Rightarrow> posts | _ \<Rightarrow> True)"

definition clean_event :: "rpc_sys_event \<Rightarrow> bool" where
  "clean_event ev = (case ev of Local b e \<Rightarrow> clean e | Arrive b \<Rightarrow> True)"

text \<open>The two roles of the endpoint \<open>R\<close> at an event, with the messages \<open>out\<close> that it posts.\<close>

lemma request_flows:
  assumes "flow R Q H P" "flow H' P' R Q'" "R' = fst (rpc_request s m r sg True R)" "out = posts_of (snd (rpc_request s m r sg True R))"
  shows "flow R' (Q @ out) H P" "flow H' P' R' (Q' @ out)"
proof -
  note alive = flowD(4) [OF assms(1)]
  have refused: "R' = R\<lparr>rp_promises := rp_promises R + 1\<rparr> \<and> out = []" if "sg = Some (Some reason)" for reason
    using that by (simp add: assms(3,4) rpc_request_def Let_def)
  have asked: "R' = add_pending s (rp_nextId R) \<lparr>rq_promise = rp_promises R, rq_signal = (sg \<noteq> None)\<rparr>
      (R\<lparr>rp_promises := rp_promises R + 1, rp_nextId := rp_nextId R + 1\<rparr>) \<and> out = [Req (rp_nextId R) m s r]"
    if "\<And>reason. sg \<noteq> Some (Some reason)"
    using that alive by (auto simp: assms(3,4) rpc_request_def rpc_post_def Let_def split: option.splits)
  show "flow R' (Q @ out) H P"
  proof (cases "\<exists>reason. sg = Some (Some reason)")
    case True
    then show ?thesis using refused alive flow_caller [OF assms(1), of R' "[]"] by auto
  next
    case False
    then show ?thesis using asked flow_request [OF assms(1)] by auto
  qed
  show "flow H' P' R' (Q' @ out)"
    by (rule flow_peer [OF assms(2)]) (use refused asked alive in \<open>cases "\<exists>reason. sg = Some (Some reason)"; auto\<close>)+
qed

lemma abort_flows:
  assumes "flow R Q H P" "flow H' P' R Q'" "R' = fst (rpc_abort s i r R)" "out = posts_of (snd (rpc_abort s i r R))"
  shows "flow R' (Q @ out) H P" "flow H' P' R' (Q' @ out)"
proof -
  note alive = flowD(4) [OF assms(1)]
  have R': "(R' = R \<and> out = []) \<or> (R' = drop_pending s i R \<and> out = [Cancel i] \<and> awaited s i R)"
    using alive by (auto simp: assms(3,4) rpc_abort_def settle_pending_def awaited_def rpc_post_def split: option.splits)
  have none: "i < rp_nextId R \<and> \<not> awaited s' i (drop_pending s i R)" if "awaited s i R" for s'
    using that wayD(3,4) [OF flowD(1) [OF assms(1)] that] by (cases "s' = s") (auto simp: awaited_drop)
  from R' show "flow R' (Q @ out) H P"
  proof (elim disjE conjE)
    assume drop: "R' = drop_pending s i R" "out = [Cancel i]" "awaited s i R"
    show ?thesis
    proof (rule flow_caller [OF assms(1)])
      show "j < rp_nextId R \<and> \<not> awaited s' j R'" if "Cancel j \<in> set out" for j s' using that none [OF drop(3)] drop by simp
    qed (use alive in \<open>simp_all add: drop awaited_drop\<close>)
  qed (use assms(1) in simp)
  show "flow H' P' R' (Q' @ out)" by (rule flow_peer [OF assms(2)]) (use R' alive in auto)
qed

lemma rpc_frame:
  "rp_nextId (fst (rpc_finish c res posts R)) = rp_nextId R" "awaited s i (fst (rpc_finish c res posts R)) = awaited s i R"
  "rp_nextId (fst (onRequest i m s' r R)) = rp_nextId R" "awaited s j (fst (onRequest i m s' r R)) = awaited s j R"
  "rp_nextId (fst (onCancel i R)) = rp_nextId R" "awaited s j (fst (onCancel i R)) = awaited s j R"
  "rp_disposed (fst (rpc_finish c res posts R)) = rp_disposed R" "rp_disposed (fst (onRequest i m s' r R)) = rp_disposed R"
  "rp_disposed (fst (onCancel i R)) = rp_disposed R" "fst (rpc_send c v R) = R" "fst (onStreamMsg i v R) = R"
  by (auto simp: rpc_finish_def onRequest_def failInbound_def onCancel_def abort_handler_def rpc_send_def onStreamMsg_def Let_def
      awaited_def find_pending_rpc_def split: option.splits)

lemma rpc_outs:
  "x \<in> set (posts_of (snd (rpc_finish c res posts R))) \<Longrightarrow> req_token x = None \<and> x \<noteq> Cancel i"
  "x \<in> set (posts_of (snd (onRequest j m s r R))) \<Longrightarrow> req_token x = None \<and> x \<noteq> Cancel i"
  "x \<in> set (posts_of (snd (onCancel j R))) \<Longrightarrow> req_token x = None \<and> x \<noteq> Cancel i"
  "x \<in> set (posts_of (snd (rpc_send c v R))) \<Longrightarrow> req_token x = None \<and> x \<noteq> Cancel i \<and> final_token x = None"
  by (auto simp: rpc_finish_def onRequest_def failInbound_def onCancel_def rpc_send_def onStreamMsg_def handler_reply_def rpc_post_def
      Let_def split: option.splits sum.splits if_splits)


lemma handle_flows:
  assumes "flow R Q H P" "flow H P R Q" "R' = fst (rpc_step R (RHandle s m))"
  shows "flow R' Q H P" "flow H P R' Q"
  using flow_caller [OF assms(1), of R' "[]"] flow_peer [OF assms(2), of R' "[]"] flowD(4) [OF assms(1)]
  by (auto simp: assms(3) rpc_step_def)

lemma local_flows:
  assumes "flow R Q H P" "flow H P R Q" "clean e" "local_event e" "R' = fst (rpc_step R e)" "out = posts_of (snd (rpc_step R e))"
  shows "flow R' (Q @ out) H P \<and> flow H P R' (Q @ out)"
proof (cases e)
  case (RRequest s m r sg posts)
  then have "posts" using assms(3) by (simp add: clean_def)
  then show ?thesis using RRequest assms(5,6) request_flows [OF assms(1,2)] by (simp add: rpc_step_def)
next
  case (RAbort s i r)
  then show ?thesis using assms(5,6) abort_flows [OF assms(1,2)] by (simp add: rpc_step_def)
next
  case (RReceive p)
  then have "p = Foreign" using assms(4) by (cases p) (simp_all add: local_event_def)
  then show ?thesis using RReceive assms(1,2,5,6) by (simp add: rpc_step_def dispatch_def)
next
  case (RSend c v)
  have "flow R (Q @ out) H P"
    by (rule flow_caller [OF assms(1)]) (use RSend assms(6) flowD(4) [OF assms(1)] rpc_outs(4) in \<open>force simp: rpc_step_def\<close>)+
  moreover have "flow H P R (Q @ out)"
    by (rule flow_peer [OF assms(2)]) (use RSend assms(6) flowD(4) [OF assms(1)] rpc_outs(4) in \<open>force simp: rpc_step_def\<close>)+
  ultimately show ?thesis using RSend assms(5) by (simp add: rpc_step_def rpc_frame)
next
  case (RFinish c res posts)
  then have e: "R' = fst (rpc_finish c res True R)" "out = posts_of (snd (rpc_finish c res True R))"
    using assms(3,5,6) by (simp_all add: clean_def rpc_step_def)
  have "flow R' (Q @ out) H P"
    by (rule flow_caller [OF assms(1)]) (use flowD(4) [OF assms(1)] rpc_outs(1) in \<open>force simp: e rpc_frame\<close>)+
  then show ?thesis using flow_finish [OF assms(2)] by (simp add: e)
next
  case (RHandle s m)
  then have "out = []" using assms(6) by (simp add: rpc_step_def)
  then show ?thesis using handle_flows [OF assms(1,2)] RHandle assms(5) by simp
qed (use assms(3) in \<open>simp_all add: clean_def\<close>)

lemma settle_gone: "awaited s j (fst (settle_pending s' i out R)) \<Longrightarrow> awaited s j R \<and> (s, j) \<noteq> (s', i)"
  by (cases "s = s'") (auto simp: settle_cases awaited_drop split: if_splits)

lemma failure_gone:
  assumes "flow R Q H P" "awaited s j (fst (onFailure i m R))"
  shows "awaited s j R \<and> j \<noteq> i"
proof -
  have k: "awaited b i R \<Longrightarrow> \<not> awaited (\<not> b) i R" for b using wayD(4) [OF flowD(1) [OF assms(1)]] .
  have "onFailure i m R = settle_pending (\<not> awaited False i R) i (Inl (RemoteError (unmarshalError m))) R"
    by (auto simp: onFailure_def awaited_def Let_def split: option.splits)
  then have "awaited s j R \<and> (s, j) \<noteq> (\<not> awaited False i R, i)" using assms(2) settle_gone by metis
  then show ?thesis using k [of True] by (cases s) auto
qed

lemma settle_pending_frame [simp]:
  "rp_nextId (fst (settle_pending s i out R)) = rp_nextId R" "rp_handlers (fst (settle_pending s i out R)) = rp_handlers R"
  "rp_inbound (fst (settle_pending s i out R)) = rp_inbound R" "rp_disposed (fst (settle_pending s i out R)) = rp_disposed R"
  by (simp_all add: settle_cases)

lemma reply_flows:
  assumes "flow R Q H (x # P)" "flow H (x # P) R Q" "final_token x = Some (i, k)"
    "R' = fst (dispatch (Envelope x) R)" "out = posts_of (snd (dispatch (Envelope x) R))"
  shows "flow R' (Q @ out) H P \<and> flow H P R' (Q @ out)"
proof -
  note alive = flowD(4) [OF assms(1)]
  define s where "s = (case x of Res i v \<Rightarrow> False | End i \<Rightarrow> True | _ \<Rightarrow> \<not> awaited False i R)"
  define res where "res = (case x of Res i v \<Rightarrow> Inr (Some v) | Err i m \<Rightarrow> Inl (RemoteError (unmarshalError m)) | _ \<Rightarrow> Inr None)"
  have d: "dispatch (Envelope x) R = settle_pending s i res R" "req_token x = None"
    using assms(3) alive
    by (cases x; auto simp: dispatch_def onFailure_def Let_def s_def res_def awaited_def split: option.splits)+
  have out: "out = []" using assms(5) d(1) by (simp add: settle_cases)
  have gone: "awaited s' j R \<and> j \<noteq> i" if "awaited s' j R'" for s' j
  proof (cases "\<exists>m. x = Err i m")
    case True
    then obtain m where m: "x = Err i m" by blast
    then have "R' = fst (onFailure i m R)" using assms(4) alive by (simp add: dispatch_def)
    then show ?thesis using failure_gone [OF assms(1)] that by blast
  next
    case False
    then have "k = Some s" using assms(3) by (cases x) (auto simp: s_def)
    then have "on_the_way (add_mset (i, Some s) (toks req_token Q + toks live_token (rp_handlers H) + toks final_token P)) R"
      using flowD(1) [OF assms(1)] assms(3) by simp
    note way_awaited [OF this]
    then show ?thesis using that settle_gone [of s' j s i res R] assms(4) d(1) by auto
  qed
  have "flow R' Q H P" by (rule flow_reply_arrives [OF assms(1,3)]) (use gone alive assms(4) d(1) in auto)
  moreover have "flow H P R' Q"
    using flow_peer [OF flow_pass(2) [OF assms(2) d(2)], of R' "[]"] assms(4) d(1) alive by simp
  ultimately show ?thesis by (simp add: out)
qed

lemma arrive_flows:
  assumes "flow R Q H (x # P)" "flow H (x # P) R Q"
    "R' = fst (dispatch (Envelope x) R)" "out = posts_of (snd (dispatch (Envelope x) R))"
  shows "flow R' (Q @ out) H P \<and> flow H P R' (Q @ out)"
proof (cases "final_token x")
  case (Some k)
  then show ?thesis using reply_flows [OF assms(1,2) _ assms(3,4)] by (cases k) simp
next
  case None
  note alive = flowD(4) [OF assms(1)] and pass = flow_pass(1) [OF assms(1) None]
  have keep: "flow R' (Q @ out) H P"
    if "rp_nextId R' = rp_nextId R" "\<And>s j. awaited s j R' = awaited s j R" "\<not> rp_disposed R'"
      "\<And>y j. y \<in> set out \<Longrightarrow> req_token y = None \<and> y \<noteq> Cancel j"
    by (rule flow_caller [OF pass]) (use that in auto)
  show ?thesis
  proof (cases x)
    case (Req i m s r)
    then have e: "R' = fst (onRequest i m s r R)" "out = posts_of (snd (onRequest i m s r R))"
      using assms(3,4) alive by (simp_all add: dispatch_def)
    have "flow R' (Q @ out) H P" by (rule keep) (use alive rpc_outs(2) in \<open>auto simp: e rpc_frame\<close>)
    then show ?thesis using flow_request_arrives [OF assms(2) [unfolded Req]] by (simp add: e)
  next
    case (Cancel i)
    then have e: "R' = fst (onCancel i R)" "out = posts_of (snd (onCancel i R))"
      using assms(3,4) alive by (simp_all add: dispatch_def)
    have "flow R' (Q @ out) H P" by (rule keep) (use alive rpc_outs(3) in \<open>auto simp: e rpc_frame\<close>)
    then show ?thesis using flow_cancel_arrives [OF assms(2) [unfolded Cancel]] by (simp add: e)
  next
    case (Msg i v)
    have "posts_of (snd (onStreamMsg i v R)) = []" by (auto simp: onStreamMsg_def split: option.split)
    then have e: "R' = R" "out = []" using assms(3,4) alive Msg by (simp_all add: dispatch_def rpc_frame)
    then show ?thesis using pass flow_pass(2) [OF assms(2)] Msg by simp
  qed (use None in simp_all)
qed

definition sys_ok :: "rpc_system \<Rightarrow> bool" where
  "sys_ok S = (\<forall>b. flow (sy_end S b) (sy_chan S (\<not> b)) (sy_end S (\<not> b)) (sy_chan S b))"

lemma sys_okD:
  assumes "sys_ok S"
  shows "flow (sy_end S b) (sy_chan S (\<not> b)) (sy_end S (\<not> b)) (sy_chan S b)"
    "flow (sy_end S (\<not> b)) (sy_chan S b) (sy_end S b) (sy_chan S (\<not> b))"
  using assms [unfolded sys_ok_def, rule_format, of b] assms [unfolded sys_ok_def, rule_format, of "\<not> b"] by simp_all

lemma happen_ok:
  assumes "flow R (sy_chan S (\<not> b) @ posts_of fs) (sy_end S (\<not> b)) (sy_chan S b)"
    "flow (sy_end S (\<not> b)) (sy_chan S b) R (sy_chan S (\<not> b) @ posts_of fs)" "rpc_step (sy_end S b) e = (R, fs)"
  shows "sys_ok (fst (happen b e S))"
  unfolding sys_ok_def
proof
  fix d
  show "flow (sy_end (fst (happen b e S)) d) (sy_chan (fst (happen b e S)) (\<not> d)) (sy_end (fst (happen b e S)) (\<not> d))
      (sy_chan (fst (happen b e S)) d)"
    using assms by (cases "d = b"; cases b) (simp_all add: happen_def)
qed

lemma sys_step_ok:
  assumes "sys_ok S" "clean_event ev"
  shows "sys_ok (fst (rpc_sys_step S ev))"
proof (cases ev)
  case (Local b e)
  note local_flows [OF sys_okD [OF assms(1), of b], of e]
  then show ?thesis using assms Local
    by (cases "rpc_step (sy_end S b) e") (auto simp: rpc_sys_step_def clean_event_def intro!: happen_ok)
next
  case (Arrive b)
  show ?thesis
  proof (cases "sy_chan S b")
    case Nil
    then show ?thesis using assms Arrive by (simp add: rpc_sys_step_def)
  next
    case (Cons x P)
    define S' where "S' = S\<lparr>sy_chan := (sy_chan S)(b := P)\<rparr>"
    note arrive_flows [OF sys_okD [OF assms(1), of b, unfolded Cons]]
    then have "sys_ok (fst (happen b (RReceive (Envelope x)) S'))"
      by (cases "dispatch (Envelope x) (sy_end S b)") (auto intro!: happen_ok simp: S'_def rpc_step_def)
    then show ?thesis using Arrive Cons by (simp add: rpc_sys_step_def S'_def)
  qed
qed

lemma sys_run_ok:
  "sys_ok S \<Longrightarrow> \<forall>ev\<in>set es. clean_event ev \<Longrightarrow> sys_ok (fst (run_steps rpc_sys_step S es))"
proof (induction es arbitrary: S)
  case (Cons ev es)
  then show ?case using sys_step_ok [of S ev] by (simp add: split_beta Let_def)
qed simp

lemma sys_init_ok: "sys_ok rpc_system_init"
  using flow_init by (simp add: sys_ok_def rpc_system_init_def)

end
