(* ===== verification/Rpc_Ledger.thy ===== *)
theory Rpc_Ledger
  imports Rpc_System
begin

text \<open>
  The promises that an endpoint hands out (calls and streams): each is settled once or still pending. An endpoint of a
  system lives a run of its own, and a system with nothing on its way and no handler at work has nothing pending.
\<close>

section \<open>The ledger of an endpoint\<close>

definition rpc_ok :: "rpc \<Rightarrow> bool" where
  "rpc_ok R = (distinct (map fst (rp_calls R)) \<and> distinct (map fst (rp_streams R)) \<and>
     fst ` set (rp_calls R) \<subseteq> {..<rp_nextId R} \<and> fst ` set (rp_streams R) \<subseteq> {..<rp_nextId R})"

definition rpc_open :: "rpc \<Rightarrow> nat list" where
  "rpc_open R = map (rq_promise \<circ> snd) (rp_calls R @ rp_streams R)"

fun rpc_settles :: "rpc_effect \<Rightarrow> nat option" where
  "rpc_settles (RpcSettle p out) = Some p"
| "rpc_settles _ = None"

definition rpc_settled :: "rpc_effect list \<Rightarrow> nat multiset" where
  "rpc_settled fs = mset (List.map_filter rpc_settles fs)"

lemma settled_simps [simp]:
  "rpc_settled [] = {#}" "rpc_settled (f # fs) = (case rpc_settles f of Some p \<Rightarrow> {#p#} | None \<Rightarrow> {#}) + rpc_settled fs"
  "rpc_settled (fs @ gs) = rpc_settled fs + rpc_settled gs" "rpc_settled (rpc_post e R) = {#}"
  by (simp_all add: rpc_settled_def List.map_filter_def rpc_post_def split: option.split)

lemma rpc_settled_map: "rpc_settled (map (\<lambda>x. RpcSettle (f x) out) xs) = image_mset f (mset xs)"
  by (induction xs) simp_all

lemma settled_aborts: "rpc_settled (map (\<lambda>x. SignalAbort (f x)) xs) = {#}"
  by (induction xs) simp_all

lemma alist_pick:
  "distinct (map fst al) \<Longrightarrow> map_of al i = Some q \<Longrightarrow> mset (map f al) = add_mset (f (i, q)) (mset (map f (AList.delete i al)))"
proof (induction al)
  case (Cons x al)
  obtain j r where x: "x = (j, r)" by (cases x)
  have "AList.delete i al = al" if "j = i" using Cons.prems(1) that by (simp add: x AList.delete_eq filter_id_conv) force
  then show ?case using Cons by (auto simp: x)
qed simp

lemma alist_keys: "fst ` set al \<subseteq> M \<Longrightarrow> fst ` set (AList.delete i al) \<subseteq> M" "distinct (map fst al) \<Longrightarrow> distinct (map fst (AList.delete i al))"
  by (auto simp: AList.delete_eq distinct_map_filter)

lemma alist_new: "i \<notin> set (map fst al) \<Longrightarrow> AList.update i q al = al @ [(i, q)]"
  by (induction al) auto

lemma rpc_ok_frame [simp]:
  "rpc_ok (R\<lparr>rp_promises := p\<rparr>) = rpc_ok R" "rpc_open (R\<lparr>rp_promises := p\<rparr>) = rpc_open R"
  by (simp_all add: rpc_ok_def rpc_open_def)

text \<open>The account of a step: what it settles and what stays open is what was open.\<close>

definition balanced :: "rpc \<Rightarrow> rpc_result \<Rightarrow> bool" where
  "balanced R r = (rpc_ok (fst r) \<and> rp_promises (fst r) = rp_promises R \<and>
     rpc_settled (snd r) + mset (rpc_open (fst r)) = mset (rpc_open R))"

lemma drop_ok: "rpc_ok R \<Longrightarrow> rpc_ok (drop_pending s i R)"
  unfolding rpc_ok_def drop_pending_def by (simp add: alist_keys)

lemma settle_balanced:
  assumes "rpc_ok R"
  shows "balanced R (settle_pending s i out R)"
proof (cases "find_pending_rpc s i R")
  case (Some q)
  then have "mset (rpc_open R) = add_mset (rq_promise q) (mset (rpc_open (drop_pending s i R)))"
    using assms alist_pick [of "rp_calls R" i q "rq_promise \<circ> snd"] alist_pick [of "rp_streams R" i q "rq_promise \<circ> snd"]
    by (cases s) (simp_all add: rpc_open_def rpc_ok_def find_pending_rpc_def drop_pending_def)
  then show ?thesis using Some drop_ok [OF assms] by (simp add: balanced_def settle_pending_def)
qed (use assms in \<open>simp add: balanced_def settle_pending_def\<close>)

lemma same_balanced:
  assumes "rpc_ok R" "rp_calls R' = rp_calls R" "rp_streams R' = rp_streams R" "rp_nextId R' = rp_nextId R"
    "rp_promises R' = rp_promises R" "rpc_settled fs = {#}"
  shows "balanced R (R', fs)"
  using assms by (simp add: balanced_def rpc_ok_def rpc_open_def)

lemma dispatch_balanced: "rpc_ok R \<Longrightarrow> balanced R (dispatch p R)"
  by (auto simp: dispatch_def onRequest_def failInbound_def onCancel_def abort_handler_def onStreamMsg_def onFailure_def Let_def
      settle_balanced intro!: same_balanced split: posted.split envelope.split option.split)

lemma abort_inbound_frame [simp]:
  "rp_calls (abort_inbound cs R) = rp_calls R" "rp_streams (abort_inbound cs R) = rp_streams R" "rp_nextId (abort_inbound cs R) = rp_nextId R"
  "rp_promises (abort_inbound cs R) = rp_promises R"
  unfolding abort_inbound_def by (induction cs arbitrary: R) (simp_all add: abort_handler_def)

lemma request_account:
  assumes "rpc_ok R" "r = rpc_request s m v sg posts R"
  shows "rpc_ok (fst r) \<and> rp_promises (fst r) = rp_promises R + 1 \<and>
    rpc_settled (snd r) + mset (rpc_open (fst r)) = add_mset (rp_promises R) (mset (rpc_open R))"
proof (cases "\<exists>reason. sg = Some (Some reason)")
  case True
  then show ?thesis using assms by (auto simp: rpc_request_def Let_def)
next
  case False
  define q where "q = \<lparr>rq_promise = rp_promises R, rq_signal = (sg \<noteq> None)\<rparr>"
  define i where "i = rp_nextId R"
  define R' where "R' = add_pending s i q (R\<lparr>rp_promises := rp_promises R + 1, rp_nextId := i + 1\<rparr>)"
  have r: "r = (if posts \<or> rp_disposed R' then (R', rpc_post (Req i m s v) R') else settle_pending s i (Inl PostFailed) R')"
    using False by (cases sg; auto simp: assms(2) rpc_request_def Let_def R'_def q_def i_def split: option.split)
  have new: "i \<notin> set (map fst (rp_calls R))" "i \<notin> set (map fst (rp_streams R))"
    using assms(1) by (auto simp: rpc_ok_def i_def)
  have ok: "rpc_ok R'" using assms(1) new 
    by (simp add: rpc_ok_def R'_def add_pending_def alist_new) (auto simp: i_def subset_eq less_Suc_eq)
  have acc: "mset (rpc_open R') = add_mset (rp_promises R) (mset (rpc_open R))" "rp_promises R' = rp_promises R + 1"
    using new by (simp_all add: rpc_open_def R'_def add_pending_def alist_new q_def)
  show ?thesis using settle_balanced [OF ok, of s i "Inl PostFailed"] ok acc by (simp add: r balanced_def)
qed

lemma step_balanced:
  assumes "rpc_ok R" "\<And>s m v sg posts. e \<noteq> RRequest s m v sg posts"
  shows "balanced R (rpc_step R e)"
proof (cases e)
  case (RAbort s i r)
  then show ?thesis
    using settle_balanced [OF assms(1), of s i "Inl (AbortReason r)"] same_balanced [OF assms(1), of R "[]"]
    by (auto simp: rpc_step_def rpc_abort_def balanced_def split: option.split prod.split)
next
  case (RReceive p)
  then show ?thesis using dispatch_balanced [OF assms(1)] by (simp add: rpc_step_def)
next
  case RDispose
  then show ?thesis using same_balanced [OF assms(1), of R "[]"]
    by (auto simp: rpc_step_def rpc_dispose_def balanced_def Let_def rpc_ok_def rpc_open_def rpc_settled_map settled_aborts comp_def)
qed (use assms in \<open>auto simp: rpc_step_def rpc_send_def rpc_finish_def rpc_throw_def Let_def intro!: same_balanced\<close>)

interpretation rpcs: promise_ledger rpc_step rpc_ok rpc_open rp_promises rpc_settles
proof
  fix R e
  assume R: "rpc_ok R"
  define r where "r = rpc_step R e"
  consider s m v sg posts where "e = RRequest s m v sg posts" | "\<And>s m v sg posts. e \<noteq> RRequest s m v sg posts"
    by (cases e) auto
  then have "rpc_ok (fst r) \<and> rp_promises R \<le> rp_promises (fst r) \<and>
    rpc_settled (snd r) + mset (rpc_open (fst r)) = mset (rpc_open R) + mset [rp_promises R..<rp_promises (fst r)]"
  proof cases
    case (1 s m v sg posts)
    then show ?thesis using request_account [OF R, of r s m v sg posts] by (simp add: r_def rpc_step_def)
  next
    case 2
    then show ?thesis using step_balanced [OF R, of e] by (simp add: balanced_def r_def)
  qed
  then show "rpc_ok (fst (rpc_step R e))" "rp_promises R \<le> rp_promises (fst (rpc_step R e))"
    "mset (List.map_filter rpc_settles (snd (rpc_step R e))) + mset (rpc_open (fst (rpc_step R e)))
      = mset (rpc_open R) + mset [rp_promises R..<rp_promises (fst (rpc_step R e))]"
    by (simp_all add: r_def rpc_settled_def)
qed


section \<open>Nothing is forgotten\<close>

text \<open>An endpoint of a system lives a run of its own.\<close>

definition effects_of :: "bool \<Rightarrow> (bool \<times> rpc_effect) list \<Rightarrow> rpc_effect list" where
  "effects_of b fs = map snd (filter (\<lambda>f. fst f = b) fs)"

lemma effects_simps [simp]:
  "effects_of b [] = []" "effects_of b (fs @ gs) = effects_of b fs @ effects_of b gs"
  "effects_of b (map (Pair d) hs) = (if d = b then hs else [])"
  by (simp_all add: effects_of_def filter_map comp_def)

lemma happen_parts:
  "sy_end (fst (happen b e S)) b = fst (rpc_step (sy_end S b) e)" "d \<noteq> b \<Longrightarrow> sy_end (fst (happen b e S)) d = sy_end S d"
  "effects_of d (snd (happen b e S)) = (if d = b then snd (rpc_step (sy_end S b) e) else [])"
  by (auto simp: happen_def split_beta Let_def)

lemma step_projects:
  "\<exists>es. sy_end (fst (rpc_sys_step S ev)) b = fst (run_steps rpc_step (sy_end S b) es) \<and>
     effects_of b (snd (rpc_sys_step S ev)) = snd (run_steps rpc_step (sy_end S b) es)"
proof -
  have h: "\<exists>es. sy_end (fst (happen d e S')) b = fst (run_steps rpc_step (sy_end S' b) es) \<and>
      effects_of b (snd (happen d e S')) = snd (run_steps rpc_step (sy_end S' b) es)" for d e S'
  proof (cases "d = b")
    case True
    then show ?thesis by (intro exI [of _ "[e]"]) (simp add: happen_parts split_beta Let_def)
  next
    case False
    then show ?thesis by (intro exI [of _ "[]"]) (simp add: happen_parts)
  qed
  have none: "\<exists>es. sy_end S b = fst (run_steps rpc_step (sy_end S b) es) \<and> [] = snd (run_steps rpc_step (sy_end S b) es)"
    by (intro exI [of _ "[]"]) simp
  show ?thesis
    using h [of _ _ S] none h [of d "RReceive (Envelope x)" "S\<lparr>sy_chan := (sy_chan S)(d := q)\<rparr>" for d x q]
    by (cases ev) (simp_all add: rpc_sys_step_def split: list.split)
qed

lemma run_projects:
  "\<exists>es. sy_end (fst (run_steps rpc_sys_step S evs)) b = fst (run_steps rpc_step (sy_end S b) es) \<and>
     effects_of b (snd (run_steps rpc_sys_step S evs)) = snd (run_steps rpc_step (sy_end S b) es)"
proof (induction evs arbitrary: S)
  case Nil
  show ?case by (intro exI [of _ "[]"]) simp
next
  case (Cons ev evs)
  obtain es where es: "sy_end (fst (rpc_sys_step S ev)) b = fst (run_steps rpc_step (sy_end S b) es)"
    "effects_of b (snd (rpc_sys_step S ev)) = snd (run_steps rpc_step (sy_end S b) es)" using step_projects by blast
  obtain es' where es': "sy_end (fst (run_steps rpc_sys_step (fst (rpc_sys_step S ev)) evs)) b
      = fst (run_steps rpc_step (sy_end (fst (rpc_sys_step S ev)) b) es')"
    "effects_of b (snd (run_steps rpc_sys_step (fst (rpc_sys_step S ev)) evs))
      = snd (run_steps rpc_step (sy_end (fst (rpc_sys_step S ev)) b) es')" using Cons.IH by blast
  show ?case
    using es es' run_steps_append [of rpc_step "sy_end S b" es es']
    by (intro exI [of _ "es @ es'"]) (simp add: split_beta Let_def)
qed

definition idle_peer :: "rpc \<Rightarrow> bool" where
  "idle_peer H = list_all (\<lambda>h. rh_aborted h \<or> rh_done h) (rp_handlers H)"

lemma quiet_open:
  assumes "flow A [] H []" "idle_peer H"
  shows "rpc_open A = []"
proof -
  have "toks live_token (rp_handlers H) = {#}"
    using assms(2) by (intro no_toks) (auto simp: idle_peer_def live_token_def list_all_iff)
  then have "\<not> awaited s i A" for s i using wayD(5) [OF flowD(1) [OF assms(1)], of s i] by auto
  then have "map_of (rp_calls A) i = None" "map_of (rp_streams A) i = None" for i
    unfolding awaited_def find_pending_rpc_def by (metis (full_types))+
  then have "map_of (rp_calls A) = Map.empty" "map_of (rp_streams A) = Map.empty" by blast+
  then show ?thesis by (simp add: rpc_open_def)
qed

lemma settled_or_open:
  "rpc_settled (snd (run_steps rpc_step createRpc es)) + mset (rpc_open (fst (run_steps rpc_step createRpc es)))
     = mset [0..<rp_promises (fst (run_steps rpc_step createRpc es))]"
  using rpcs.run_ledger [of createRpc es] by (simp add: rpc_settled_def rpc_ok_def rpc_open_def createRpc_def)

end
