(* ===== verification/Rpc_Trace.thy ===== *)
theory Rpc_Trace
  imports Rpc_Ledger
begin

text \<open>
  The history of a system of two endpoints: which request each pending entry, each request on its way, each handler and each
  reply belongs to. A reply is the value that the handler of its own request returned.
\<close>

section \<open>What a step of an endpoint adds\<close>

lemma find_simps:
  "find_pending_rpc s i (add_pending s' j q R) = (if s = s' \<and> i = j then Some q else find_pending_rpc s i R)"
  "find_pending_rpc s i (drop_pending s' j R) = (if s = s' \<and> i = j then None else find_pending_rpc s i R)"
  "find_pending_rpc s i (R\<lparr>rp_promises := p\<rparr>) = find_pending_rpc s i R" "find_pending_rpc s i (R\<lparr>rp_nextId := n\<rparr>) = find_pending_rpc s i R"
  "find_pending_rpc s i (R\<lparr>rp_handlers := hs\<rparr>) = find_pending_rpc s i R" "find_pending_rpc s i (R\<lparr>rp_inbound := ib\<rparr>) = find_pending_rpc s i R"
  "find_pending_rpc s i (R\<lparr>rp_callHandlers := ms\<rparr>) = find_pending_rpc s i R"
  "find_pending_rpc s i (R\<lparr>rp_streamHandlers := ms\<rparr>) = find_pending_rpc s i R"
  by (auto simp: find_pending_rpc_def add_pending_def drop_pending_def update_conv' delete_conv')

definition opens :: "bool \<Rightarrow> nat \<Rightarrow> string \<Rightarrow> js_val \<Rightarrow> rpc_event \<Rightarrow> rpc \<Rightarrow> bool" where
  "opens s i m r e R = ((\<exists>posts sg. e = RRequest s m r sg posts \<and> (\<forall>reason. sg \<noteq> Some (Some reason))) \<and> i = rp_nextId R)"

lemma settle_find: "find_pending_rpc s i (fst (settle_pending s' j out R)) = Some q \<Longrightarrow> find_pending_rpc s i R = Some q"
  by (auto simp: settle_cases find_simps split: if_splits)

lemma request_find:
  assumes "find_pending_rpc s i (fst (rpc_request s' m r sg posts R)) = Some q"
  shows "find_pending_rpc s i R = Some q \<or>
    (s = s' \<and> i = rp_nextId R \<and> rq_promise q = rp_promises R \<and> (\<forall>reason. sg \<noteq> Some (Some reason)))"
proof (cases "\<exists>reason. sg = Some (Some reason)")
  case True
  then show ?thesis using assms by (auto simp: rpc_request_def Let_def find_simps)
next
  case False
  define j where "j = rp_nextId R"
  define q' where "q' = \<lparr>rq_promise = rp_promises R, rq_signal = (sg \<noteq> None)\<rparr>"
  define R' where "R' = add_pending s' j q' (R\<lparr>rp_promises := rp_promises R + 1, rp_nextId := j + 1\<rparr>)"
  have "rpc_request s' m r sg posts R
      = (if posts \<or> rp_disposed R' then (R', rpc_post (Req j m s' r) R') else settle_pending s' j (Inl PostFailed) R')"
    using False by (cases sg; auto simp: rpc_request_def Let_def R'_def q'_def j_def split: option.split)
  then have "find_pending_rpc s i R' = Some q" using assms settle_find [of s i s' j "Inl PostFailed" R' q] by (simp split: if_splits)
  then show ?thesis using False by (auto simp: R'_def find_simps q'_def j_def split: if_splits)
qed

lemma abort_inbound_find [simp]: "find_pending_rpc s i (abort_inbound cs R) = find_pending_rpc s i R"
  by (simp add: find_pending_rpc_def)

lemma step_find:
  assumes "find_pending_rpc s i (fst (rpc_step R e)) = Some q"
  shows "find_pending_rpc s i R = Some q \<or> (\<exists>m r. opens s i m r e R) \<and> rq_promise q = rp_promises R"
proof (cases e)
  case (RRequest s' m r sg posts)
  then show ?thesis using assms request_find [of s i s' m r sg posts R q] by (auto simp: rpc_step_def opens_def)
next
  case (RAbort s' j reason)
  then show ?thesis using assms settle_find [of s i s' j _ R q]
    by (simp add: rpc_step_def rpc_abort_def split_beta split: option.splits if_splits)
next
  case (RReceive p)
  then show ?thesis using assms settle_find [of s i _ _ _ R q]
    by (auto simp: rpc_step_def dispatch_def onRequest_def failInbound_def onCancel_def abort_handler_def onStreamMsg_def
        onFailure_def Let_def find_simps split: posted.splits envelope.splits option.splits if_splits)
next
  case (RFinish c res posts)
  then show ?thesis using assms by (auto simp: rpc_step_def rpc_finish_def Let_def find_simps split: if_splits)
next
  case RDispose
  then show ?thesis using assms
    by (auto simp: rpc_step_def rpc_dispose_def Let_def find_pending_rpc_def split: if_splits)
qed (use assms in \<open>auto simp: rpc_step_def rpc_send_def rpc_throw_def find_simps split: if_splits\<close>)

lemma settle_no_post [simp]: "Post x \<notin> set (snd (settle_pending s i out R))"
  by (auto simp: settle_pending_def split: option.split)

lemma step_req:
  assumes "Post (Req i m s r) \<in> set (snd (rpc_step R e))"
  shows "opens s i m r e R"
proof (cases e)
  case (RRequest s' m' r' sg posts)
  then show ?thesis using assms
    by (auto simp: rpc_step_def opens_def rpc_request_def rpc_post_def Let_def split: option.splits if_splits)
next
  case (RAbort s' j reason)
  then show ?thesis using assms settle_no_post [of "Req i m s r" s' j "Inl (AbortReason reason)" R]
    by (simp add: rpc_step_def rpc_abort_def rpc_post_def split_beta split: option.splits if_splits)
next
  case (RReceive p)
  then show ?thesis using assms
    by (auto simp: rpc_step_def dispatch_def onRequest_def failInbound_def onCancel_def onStreamMsg_def onFailure_def rpc_post_def
        Let_def split: posted.splits envelope.splits option.splits if_splits)
qed (use assms in \<open>auto simp: rpc_step_def rpc_send_def rpc_throw_def rpc_finish_def handler_reply_def rpc_post_def rpc_dispose_def Let_def
    split: if_splits sum.splits\<close>)

lemma step_res:
  assumes "Post (Res i v) \<in> set (snd (rpc_step R e))"
  shows "\<exists>c posts. e = RFinish c (Inr v) posts \<and> c < length (rp_handlers R) \<and> rh_id (rp_handlers R ! c) = i \<and> \<not> rh_stream (rp_handlers R ! c)"
proof (cases e)
  case (RRequest s' m' r' sg posts)
  then show ?thesis using assms
    by (auto simp: rpc_step_def rpc_request_def rpc_post_def Let_def split: option.splits if_splits)
next
  case (RAbort s' j reason)
  then show ?thesis using assms settle_no_post [of "Res i v" s' j "Inl (AbortReason reason)" R]
    by (simp add: rpc_step_def rpc_abort_def rpc_post_def split_beta split: option.splits if_splits)
next
  case (RReceive p)
  then show ?thesis using assms
    by (auto simp: rpc_step_def dispatch_def onRequest_def failInbound_def onCancel_def onStreamMsg_def onFailure_def rpc_post_def
        Let_def split: posted.splits envelope.splits option.splits if_splits)
next
  case (RFinish c res posts)
  then show ?thesis using assms
    by (auto simp: rpc_step_def rpc_finish_def handler_reply_def rpc_post_def Let_def split: if_splits sum.splits)
qed (use assms in \<open>auto simp: rpc_step_def rpc_send_def rpc_throw_def rpc_post_def rpc_dispose_def Let_def split: if_splits\<close>)

lemma nth_update: "xs[d := y] ! c = (if d = c \<and> c < length xs then y else xs ! c)"
  by (cases "d < length xs") (auto simp: nth_list_update list_update_beyond)

lemma abort_inbound_handlers:
  "length (rp_handlers (abort_inbound cs R)) = length (rp_handlers R) \<and>
   rh_id (rp_handlers (abort_inbound cs R) ! c) = rh_id (rp_handlers R ! c) \<and>
   rh_stream (rp_handlers (abort_inbound cs R) ! c) = rh_stream (rp_handlers R ! c)"
proof (induction cs arbitrary: R)
  case (Cons d cs)
  have "rp_handlers (abort_handler d R) = (rp_handlers R)[d := (rp_handlers R ! d)\<lparr>rh_aborted := True\<rparr>]"
    by (simp add: abort_handler_def)
  then have "rh_id (rp_handlers (abort_handler d R) ! c) = rh_id (rp_handlers R ! c)"
    "rh_stream (rp_handlers (abort_handler d R) ! c) = rh_stream (rp_handlers R ! c)"
    "length (rp_handlers (abort_handler d R)) = length (rp_handlers R)"
    by (simp_all add: nth_update)
  moreover have "abort_inbound (d # cs) R = abort_inbound cs (abort_handler d R)" by (simp add: abort_inbound_def)
  ultimately show ?case using Cons.IH by simp
qed (simp_all add: abort_inbound_def)

lemma request_frame:
  "rp_handlers (fst (rpc_request s m r sg posts R)) = rp_handlers R"
  "rp_nextId (fst (rpc_request s m r sg posts R)) = (if \<exists>reason. sg = Some (Some reason) then rp_nextId R else rp_nextId R + 1)"
  by (cases sg; auto simp: rpc_request_def Let_def split: option.split)+

text \<open>A new handler works on the request that arrives; the others keep theirs.\<close>

lemma step_handlers:
  assumes "c < length (rp_handlers (fst (rpc_step R e)))" "h = rp_handlers (fst (rpc_step R e)) ! c"
  shows "(c < length (rp_handlers R) \<and> rh_id h = rh_id (rp_handlers R ! c) \<and> rh_stream h = rh_stream (rp_handlers R ! c)) \<or>
    (\<exists>m r. e = RReceive (Envelope (Req (rh_id h) m (rh_stream h) r)) \<and> c = length (rp_handlers R))"
proof (cases e)
  case (RRequest s' m' r' sg posts)
  then show ?thesis using assms by (simp add: rpc_step_def request_frame)
next
  case (RAbort s' j reason)
  then show ?thesis using assms by (auto simp: rpc_step_def rpc_abort_def split_beta split: option.splits if_splits)
next
  case (RReceive p)
  then show ?thesis using assms
    by (auto simp: rpc_step_def dispatch_def onRequest_def failInbound_def onCancel_def abort_handler_def onStreamMsg_def
        onFailure_def Let_def nth_append less_Suc_eq nth_update
        split: posted.splits envelope.splits option.splits if_splits)
next
  case (RFinish d res posts)
  then show ?thesis using assms
    by (auto simp: rpc_step_def rpc_finish_def Let_def nth_update split: if_splits)
next
  case (RThrow d)
  then show ?thesis using assms by (auto simp: rpc_step_def rpc_throw_def nth_update split: if_splits)
next
  case RDispose
  then show ?thesis using assms abort_inbound_handlers
    by (auto simp: rpc_step_def rpc_dispose_def Let_def split: if_splits)
qed (use assms in \<open>auto simp: rpc_step_def rpc_send_def rpc_throw_def split: if_splits\<close>)

lemma step_nextId:
  "rp_nextId R \<le> rp_nextId (fst (rpc_step R e))" "opens s i m r e R \<Longrightarrow> rp_nextId (fst (rpc_step R e)) = i + 1"
proof -
  show "rp_nextId (fst (rpc_step R e)) = i + 1" if "opens s i m r e R"
    using that by (auto simp: opens_def rpc_step_def request_frame)
  show "rp_nextId R \<le> rp_nextId (fst (rpc_step R e))"
  proof (cases e)
    case (RReceive p)
    then show ?thesis
      by (auto simp: rpc_step_def dispatch_def rpc_frame onFailure_def Let_def split: posted.splits envelope.splits option.split)
  qed (auto simp: rpc_step_def request_frame rpc_abort_def rpc_frame rpc_dispose_def rpc_throw_def Let_def split_beta split: option.split)
qed

lemma settle_value:
  assumes "RpcSettle p (Inr (Some v)) \<in> set (snd (settle_pending s i out R))"
  shows "out = Inr (Some v) \<and> (\<exists>q. find_pending_rpc s i R = Some q \<and> rq_promise q = p)"
  using assms by (auto simp: settle_pending_def split: option.splits)

lemma step_value:
  assumes "RpcSettle p (Inr (Some v)) \<in> set (snd (rpc_step R e))"
  shows "\<exists>i q. e = RReceive (Envelope (Res i v)) \<and> find_pending_rpc False i R = Some q \<and> rq_promise q = p"
proof (cases e)
  case (RRequest s m r sg posts)
  then show ?thesis using assms settle_value [of p v]
    by (auto simp: rpc_step_def rpc_request_def rpc_post_def Let_def split: option.splits if_splits)
next
  case (RAbort s j reason)
  then show ?thesis using assms settle_value [of p v s j "Inl (AbortReason reason)" R]
    by (auto simp: rpc_step_def rpc_abort_def rpc_post_def split_beta split: option.splits if_splits)
next
  case (RReceive x)
  then show ?thesis using assms
    by (auto simp: rpc_step_def dispatch_def onRequest_def failInbound_def onCancel_def onStreamMsg_def onFailure_def rpc_post_def
        Let_def dest!: settle_value split: posted.splits envelope.splits option.splits if_splits)
qed (use assms in \<open>auto simp: rpc_step_def rpc_send_def rpc_throw_def rpc_finish_def rpc_post_def rpc_dispose_def Let_def split: if_splits\<close>)


section \<open>The walk of a system\<close>

text \<open>A walk lists the events with the states they met.\<close>

type_synonym rpc_walk = "(rpc_system \<times> rpc_sys_event) list"

fun walk_of :: "rpc_system \<Rightarrow> rpc_sys_event list \<Rightarrow> rpc_walk" where
  "walk_of S [] = []"
| "walk_of S (ev # es) = (S, ev) # walk_of (fst (rpc_sys_step S ev)) es"

lemma walk_append: "walk_of S (es @ [ev]) = walk_of S es @ [(fst (run_steps rpc_sys_step S es), ev)]"
  by (induction es arbitrary: S) (simp_all add: split_beta Let_def)

text \<open>\<open>b\<close> asked: the call or stream with the promise \<open>p\<close> has the id \<open>i\<close>. \<open>b\<close> took: its handler \<open>c\<close> works on the request \<open>i\<close>.
  \<open>b\<close> gave: the handler \<open>c\<close> returned \<open>v\<close>.\<close>

definition asked :: "bool \<Rightarrow> rpc_walk \<Rightarrow> nat \<Rightarrow> nat \<Rightarrow> bool \<Rightarrow> string \<Rightarrow> js_val \<Rightarrow> bool" where
  "asked b W p i s m r = (\<exists>S e. (S, Local b e) \<in> set W \<and> opens s i m r e (sy_end S b) \<and> rp_promises (sy_end S b) = p)"

definition took :: "bool \<Rightarrow> rpc_walk \<Rightarrow> nat \<Rightarrow> nat \<Rightarrow> bool \<Rightarrow> string \<Rightarrow> js_val \<Rightarrow> bool" where
  "took b W c i s m r = (\<exists>S q. (S, Arrive b) \<in> set W \<and> sy_chan S b = Req i m s r # q \<and> length (rp_handlers (sy_end S b)) = c)"

definition gave :: "bool \<Rightarrow> rpc_walk \<Rightarrow> nat \<Rightarrow> js_val \<Rightarrow> bool" where
  "gave b W c v = (\<exists>S posts. (S, Local b (RFinish c (Inr v) posts)) \<in> set W \<and> c < length (rp_handlers (sy_end S b)))"

text \<open>\<open>c\<close> is the peer's handler of a request of \<open>b\<close>.\<close>

definition works :: "bool \<Rightarrow> rpc_walk \<Rightarrow> nat \<Rightarrow> nat \<Rightarrow> bool \<Rightarrow> bool" where
  "works b W c i s = (\<exists>p m r. asked b W p i s m r \<and> took (\<not> b) W c i s m r)"

lemma walk_mono:
  "asked b W p i s m r \<Longrightarrow> asked b (W @ V) p i s m r" "took b W c i s m r \<Longrightarrow> took b (W @ V) c i s m r"
  "gave b W c v \<Longrightarrow> gave b (W @ V) c v" "works b W c i s \<Longrightarrow> works b (W @ V) c i s"
proof -
  show mono: "asked b W p i s m r \<Longrightarrow> asked b (W @ V) p i s m r" "took b W c i s m r \<Longrightarrow> took b (W @ V) c i s m r"
    "gave b W c v \<Longrightarrow> gave b (W @ V) c v" for b p i s m r c v
    by (auto simp: asked_def took_def gave_def)
  show "works b W c i s \<Longrightarrow> works b (W @ V) c i s" unfolding works_def using mono(1,2) by blast
qed

definition traced :: "bool \<Rightarrow> rpc_walk \<Rightarrow> rpc_system \<Rightarrow> bool" where
  "traced b W S =
     ((\<forall>p i s m r. asked b W p i s m r \<longrightarrow> i < rp_nextId (sy_end S b)) \<and>
      (\<forall>p i s m r p' s' m' r'. asked b W p i s m r \<longrightarrow> asked b W p' i s' m' r' \<longrightarrow> p = p' \<and> s = s' \<and> m = m' \<and> r = r') \<and>
      (\<forall>s i q. find_pending_rpc s i (sy_end S b) = Some q \<longrightarrow> (\<exists>m r. asked b W (rq_promise q) i s m r)) \<and>
      (\<forall>i m s r. Req i m s r \<in> set (sy_chan S (\<not> b)) \<longrightarrow> (\<exists>p. asked b W p i s m r)) \<and>
      (\<forall>c < length (rp_handlers (sy_end S (\<not> b))).
         works b W c (rh_id (rp_handlers (sy_end S (\<not> b)) ! c)) (rh_stream (rp_handlers (sy_end S (\<not> b)) ! c))) \<and>
      (\<forall>i v. Res i v \<in> set (sy_chan S b) \<longrightarrow>
         (\<exists>c. works b W c i False \<and> gave (\<not> b) W c v)))"

lemma tracedD:
  assumes "traced b W S"
  shows "asked b W p i s m r \<Longrightarrow> i < rp_nextId (sy_end S b)"
    "asked b W p i s m r \<Longrightarrow> asked b W p' i s' m' r' \<Longrightarrow> p = p' \<and> s = s' \<and> m = m' \<and> r = r'"
    "find_pending_rpc s i (sy_end S b) = Some q \<Longrightarrow> \<exists>m r. asked b W (rq_promise q) i s m r"
    "Req i m s r \<in> set (sy_chan S (\<not> b)) \<Longrightarrow> \<exists>p. asked b W p i s m r"
    "c < length (rp_handlers (sy_end S (\<not> b))) \<Longrightarrow>
       works b W c (rh_id (rp_handlers (sy_end S (\<not> b)) ! c)) (rh_stream (rp_handlers (sy_end S (\<not> b)) ! c))"
    "Res i v \<in> set (sy_chan S b) \<Longrightarrow> \<exists>c. works b W c i False \<and> gave (\<not> b) W c v"
  subgoal using assms unfolding traced_def by (elim conjE) metis
  subgoal using assms unfolding traced_def by (elim conjE) metis
  subgoal using assms unfolding traced_def by (elim conjE) metis
  subgoal using assms unfolding traced_def by (elim conjE) metis
  subgoal using assms unfolding traced_def by (elim conjE) metis
  subgoal using assms unfolding traced_def by (elim conjE) metis
  done

text \<open>The parts of a state after an event, from those before.\<close>

lemma posts_set: "x \<in> set (posts_of fs) = (Post x \<in> set fs)"
  by (induction fs) (auto simp: posts_of_def List.map_filter_def split: rpc_effect.splits)

lemma sys_step_cases [consumes 1]:
  assumes "rpc_sys_step S ev = (S', fs)"
  obtains "S' = S" "fs = []" "\<And>d e. ev = Local d e \<Longrightarrow> \<not> local_event e"
  | d e where "ev = Local d e" "local_event e" "S' = fst (happen d e S)" "fs = map (Pair d) (snd (rpc_step (sy_end S d) e))"
      "\<And>x. x \<in> set (sy_chan S' d) \<Longrightarrow> x \<in> set (sy_chan S d)" "sy_end S' d = fst (rpc_step (sy_end S d) e)"
      "sy_end S' (\<not> d) = sy_end S (\<not> d)"
      "\<And>x. x \<in> set (sy_chan S' (\<not> d)) \<Longrightarrow> x \<in> set (sy_chan S (\<not> d)) \<or> Post x \<in> set (snd (rpc_step (sy_end S d) e))"
  | d x q e where "ev = Arrive d" "sy_chan S d = x # q" "e = RReceive (Envelope x)"
      "fs = map (Pair d) (snd (rpc_step (sy_end S d) e))"
      "\<And>x. x \<in> set (sy_chan S' d) \<Longrightarrow> x \<in> set (sy_chan S d)" "sy_end S' d = fst (rpc_step (sy_end S d) e)"
      "sy_end S' (\<not> d) = sy_end S (\<not> d)"
      "\<And>x. x \<in> set (sy_chan S' (\<not> d)) \<Longrightarrow> x \<in> set (sy_chan S (\<not> d)) \<or> Post x \<in> set (snd (rpc_step (sy_end S d) e))"
proof (cases ev)
  case (Local d e)
  show thesis
  proof (cases "local_event e")
    case True
    then have "S' = fst (happen d e S)" "fs = snd (happen d e S)" using assms Local by (simp_all add: rpc_sys_step_def)
    then show thesis using that(2) [OF Local True]
      by (auto simp: happen_def split_beta Let_def posts_set split: if_splits)
  next
    case False
    then show thesis using that(1) assms Local by (simp add: rpc_sys_step_def)
  qed
next
  case (Arrive d)
  show thesis
  proof (cases "sy_chan S d")
    case Nil
    then show thesis using that(1) assms Arrive by (simp add: rpc_sys_step_def)
  next
    case (Cons x q)
    then show thesis using that(3) [OF Arrive Cons refl] assms Arrive
      by (auto simp: rpc_sys_step_def happen_def split_beta Let_def posts_set)
  qed
qed


lemma tracedI:
  assumes "\<And>p i s m r. asked b W p i s m r \<Longrightarrow> i < rp_nextId (sy_end S b)"
    "\<And>p i s m r p' s' m' r'. asked b W p i s m r \<Longrightarrow> asked b W p' i s' m' r' \<Longrightarrow> p = p' \<and> s = s' \<and> m = m' \<and> r = r'"
    "\<And>s i q. find_pending_rpc s i (sy_end S b) = Some q \<Longrightarrow> \<exists>m r. asked b W (rq_promise q) i s m r"
    "\<And>i m s r. Req i m s r \<in> set (sy_chan S (\<not> b)) \<Longrightarrow> \<exists>p. asked b W p i s m r"
    "\<And>c. c < length (rp_handlers (sy_end S (\<not> b))) \<Longrightarrow>
       works b W c (rh_id (rp_handlers (sy_end S (\<not> b)) ! c)) (rh_stream (rp_handlers (sy_end S (\<not> b)) ! c))"
    "\<And>i v. Res i v \<in> set (sy_chan S b) \<Longrightarrow> \<exists>c. works b W c i False \<and> gave (\<not> b) W c v"
  shows "traced b W S"
  unfolding traced_def using assms by (intro conjI allI impI) blast+

lemma asked_step:
  "asked b (W @ [(S, ev)]) p i s m r =
     (asked b W p i s m r \<or> (\<exists>e. ev = Local b e \<and> opens s i m r e (sy_end S b) \<and> p = rp_promises (sy_end S b)))"
  by (auto simp: asked_def)

lemma opens_unique: "opens s i m r e R \<Longrightarrow> opens s' i' m' r' e R \<Longrightarrow> s = s' \<and> i = i' \<and> m = m' \<and> r = r'"
  by (auto simp: opens_def)

text \<open>The caller acts.\<close>

lemma traced_caller:
  assumes "traced b W S" "ev = Local b e \<or> ev = Arrive b" "\<And>s i m r. opens s i m r e (sy_end S b) \<Longrightarrow> ev = Local b e"
    "\<And>e'. ev = Local b e' \<Longrightarrow> e' = e"
    "sy_end S' b = fst (rpc_step (sy_end S b) e)" "sy_end S' (\<not> b) = sy_end S (\<not> b)"
    "\<And>x. x \<in> set (sy_chan S' b) \<Longrightarrow> x \<in> set (sy_chan S b)"
    "\<And>x. x \<in> set (sy_chan S' (\<not> b)) \<Longrightarrow> x \<in> set (sy_chan S (\<not> b)) \<or> Post x \<in> set (snd (rpc_step (sy_end S b) e))"
  shows "traced b (W @ [(S, ev)]) S'"
proof (rule tracedI)
  have new: "asked b (W @ [(S, ev)]) p i s m r =
      (asked b W p i s m r \<or> (opens s i m r e (sy_end S b) \<and> p = rp_promises (sy_end S b)))" for p i s m r
    unfolding asked_step using assms(2-4) by blast
  have fresh: "asked b W p i s m r \<Longrightarrow> \<not> opens s' i m' r' e (sy_end S b)" for p i s m r s' m' r'
    using tracedD(1) [OF assms(1)] by (fastforce simp: opens_def)
  show "i < rp_nextId (sy_end S' b)" if "asked b (W @ [(S, ev)]) p i s m r" for p i s m r
    using that tracedD(1) [OF assms(1), of p i s m r] step_nextId [where R = "sy_end S b" and e = e] unfolding new assms(5) by fastforce
  show "p = p' \<and> s = s' \<and> m = m' \<and> r = r'"
    if "asked b (W @ [(S, ev)]) p i s m r" "asked b (W @ [(S, ev)]) p' i s' m' r'" for p i s m r p' s' m' r'
    using that fresh opens_unique tracedD(2) [OF assms(1)] unfolding new by metis
  show "\<exists>m r. asked b (W @ [(S, ev)]) (rq_promise q) i s m r" if "find_pending_rpc s i (sy_end S' b) = Some q" for s i q
    using step_find [OF that [unfolded assms(5)]] tracedD(3) [OF assms(1)] unfolding new by metis
  show "\<exists>p. asked b (W @ [(S, ev)]) p i s m r" if "Req i m s r \<in> set (sy_chan S' (\<not> b))" for i m s r
    using assms(8) [OF that] step_req tracedD(4) [OF assms(1)] unfolding new by metis
  show "works b (W @ [(S, ev)]) c (rh_id (rp_handlers (sy_end S' (\<not> b)) ! c)) (rh_stream (rp_handlers (sy_end S' (\<not> b)) ! c))"
    if "c < length (rp_handlers (sy_end S' (\<not> b)))" for c
    using tracedD(5) [OF assms(1)] that walk_mono(4) unfolding assms(6) by blast
  show "\<exists>c. works b (W @ [(S, ev)]) c i False \<and> gave (\<not> b) (W @ [(S, ev)]) c v" if "Res i v \<in> set (sy_chan S' b)" for i v
    using tracedD(6) [OF assms(1) assms(7) [OF that]] walk_mono(3,4) by blast
qed

text \<open>The peer acts.\<close>

lemma traced_peer:
  assumes "traced b W S" "(ev = Local (\<not> b) e \<and> local_event e) \<or> (\<exists>x q. ev = Arrive (\<not> b) \<and> sy_chan S (\<not> b) = x # q \<and> e = RReceive (Envelope x))"
    "sy_end S' (\<not> b) = fst (rpc_step (sy_end S (\<not> b)) e)" "sy_end S' b = sy_end S b"
    "\<And>x. x \<in> set (sy_chan S' (\<not> b)) \<Longrightarrow> x \<in> set (sy_chan S (\<not> b))"
    "\<And>x. x \<in> set (sy_chan S' b) \<Longrightarrow> x \<in> set (sy_chan S b) \<or> Post x \<in> set (snd (rpc_step (sy_end S (\<not> b)) e))"
  shows "traced b (W @ [(S, ev)]) S'"
proof (rule tracedI)
  have new: "asked b (W @ [(S, ev)]) p i s m r = asked b W p i s m r" for p i s m r
    unfolding asked_step using assms(2) by auto
  show "i < rp_nextId (sy_end S' b)" if "asked b (W @ [(S, ev)]) p i s m r" for p i s m r
    using that tracedD(1) [OF assms(1)] unfolding new assms(4) by blast
  show "p = p' \<and> s = s' \<and> m = m' \<and> r = r'"
    if "asked b (W @ [(S, ev)]) p i s m r" "asked b (W @ [(S, ev)]) p' i s' m' r'" for p i s m r p' s' m' r'
    using that tracedD(2) [OF assms(1)] unfolding new by metis
  show "\<exists>m r. asked b (W @ [(S, ev)]) (rq_promise q) i s m r" if "find_pending_rpc s i (sy_end S' b) = Some q" for s i q
    using that tracedD(3) [OF assms(1)] unfolding new assms(4) by blast
  show "\<exists>p. asked b (W @ [(S, ev)]) p i s m r" if "Req i m s r \<in> set (sy_chan S' (\<not> b))" for i m s r
    using tracedD(4) [OF assms(1) assms(5) [OF that]] unfolding new .
  show "works b (W @ [(S, ev)]) c (rh_id (rp_handlers (sy_end S' (\<not> b)) ! c)) (rh_stream (rp_handlers (sy_end S' (\<not> b)) ! c))"
    if c: "c < length (rp_handlers (sy_end S' (\<not> b)))" for c
    using step_handlers [OF c [unfolded assms(3)] refl]
  proof (elim disjE conjE exE)
    assume "c < length (rp_handlers (sy_end S (\<not> b)))"
      "rh_id (rp_handlers (fst (rpc_step (sy_end S (\<not> b)) e)) ! c) = rh_id (rp_handlers (sy_end S (\<not> b)) ! c)"
      "rh_stream (rp_handlers (fst (rpc_step (sy_end S (\<not> b)) e)) ! c) = rh_stream (rp_handlers (sy_end S (\<not> b)) ! c)"
    then show ?thesis using walk_mono(4) [OF tracedD(5) [OF assms(1)]] by (simp add: assms(3))
  next
    fix m r
    define h where "h = rp_handlers (fst (rpc_step (sy_end S (\<not> b)) e)) ! c"
    assume e: "e = RReceive (Envelope (Req (rh_id (rp_handlers (fst (rpc_step (sy_end S (\<not> b)) e)) ! c)) m
        (rh_stream (rp_handlers (fst (rpc_step (sy_end S (\<not> b)) e)) ! c)) r))" and len: "c = length (rp_handlers (sy_end S (\<not> b)))"
    have e': "e = RReceive (Envelope (Req (rh_id h) m (rh_stream h) r))" using e unfolding h_def .
    then obtain q where q: "ev = Arrive (\<not> b)" "sy_chan S (\<not> b) = Req (rh_id h) m (rh_stream h) r # q"
      using assms(2) by (auto simp: local_event_def)
    then obtain p where "asked b W p (rh_id h) (rh_stream h) m r" using tracedD(4) [OF assms(1)] by fastforce
    moreover have "took (\<not> b) (W @ [(S, ev)]) c (rh_id h) (rh_stream h) m r" using q len by (auto simp: took_def)
    ultimately show ?thesis unfolding assms(3) h_def [symmetric] works_def new by blast
  qed
  show "\<exists>c. works b (W @ [(S, ev)]) c i False \<and> gave (\<not> b) (W @ [(S, ev)]) c v" if "Res i v \<in> set (sy_chan S' b)" for i v
    using assms(6) [OF that]
  proof
    assume "Res i v \<in> set (sy_chan S b)"
    then show ?thesis using tracedD(6) [OF assms(1)] walk_mono(3,4) by blast
  next
    assume "Post (Res i v) \<in> set (snd (rpc_step (sy_end S (\<not> b)) e))"
    then obtain c posts where c: "e = RFinish c (Inr v) posts" "c < length (rp_handlers (sy_end S (\<not> b)))"
      "rh_id (rp_handlers (sy_end S (\<not> b)) ! c) = i" "\<not> rh_stream (rp_handlers (sy_end S (\<not> b)) ! c)"
      using step_res by blast
    have "works b (W @ [(S, ev)]) c i False" using walk_mono(4) [OF tracedD(5) [OF assms(1) c(2)]] c(3,4) by simp
    moreover have "gave (\<not> b) (W @ [(S, ev)]) c v" using assms(2) c(1,2) by (auto simp: gave_def)
    ultimately show ?thesis by blast
  qed
qed


lemma traced_step:
  assumes "traced b W S" "rpc_sys_step S ev = (S', fs)"
  shows "traced b (W @ [(S, ev)]) S'"
  using assms(2)
proof (cases rule: sys_step_cases)
  case 1
  have new: "asked b (W @ [(S, ev)]) p i s m r = asked b W p i s m r" for p i s m r
    unfolding asked_step using 1(3) by (auto simp: opens_def local_event_def)
  show ?thesis
    unfolding 1(1)
  proof (rule tracedI; (unfold new)?)
    show "p = p' \<and> s = s' \<and> m = m' \<and> r = r'" if "asked b W p i s m r" "asked b W p' i s' m' r'" for p i s m r p' s' m' r'
      using tracedD(2) [OF assms(1) that] .
    show "\<exists>c. works b (W @ [(S, ev)]) c i False \<and> gave (\<not> b) (W @ [(S, ev)]) c v" if "Res i v \<in> set (sy_chan S b)" for i v
      using tracedD(6) [OF assms(1) that] walk_mono(3,4) by meson
  qed (fact tracedD [OF assms(1)] walk_mono(4) [OF tracedD(5) [OF assms(1)]])+
next
  case (2 d e)
  show ?thesis
  proof (cases "d = b")
    case True
    show ?thesis by (rule traced_caller [OF assms(1), of _ e]) (use 2 True in auto)
  next
    case False
    then have "(\<not> d) = b" "d = (\<not> b)" by auto
    then show ?thesis by (intro traced_peer [OF assms(1), of _ e]) (use 2 in auto)
  qed
next
  case (3 d x q e)
  show ?thesis
  proof (cases "d = b")
    case True
    show ?thesis by (rule traced_caller [OF assms(1), of _ e]) (use 3 True in \<open>auto simp: opens_def\<close>)
  next
    case False
    then have "(\<not> d) = b" "d = (\<not> b)" by auto
    then show ?thesis by (intro traced_peer [OF assms(1), of _ e]) (use 3 in auto)
  qed
qed

lemma traced_init: "traced b [] rpc_system_init"
  by (rule tracedI) (auto simp: rpc_system_init_def createRpc_def find_pending_rpc_def asked_def split: if_splits)

lemma traced_run: "traced b (walk_of rpc_system_init es) (fst (run_steps rpc_sys_step rpc_system_init es))"
proof (induction es rule: rev_induct)
  case (snoc ev es)
  show ?case
    using traced_step [OF snoc surjective_pairing, of ev]
    by (simp add: walk_append run_steps_append split_beta Let_def)
qed (simp add: traced_init)

lemma value_authentic:
  assumes "(b, RpcSettle p (Inr (Some v))) \<in> set (snd (run_steps rpc_sys_step rpc_system_init es))"
  shows "\<exists>i m r c. asked b (walk_of rpc_system_init es) p i False m r \<and> took (\<not> b) (walk_of rpc_system_init es) c i False m r \<and>
    gave (\<not> b) (walk_of rpc_system_init es) c v"
  using assms
proof (induction es rule: rev_induct)
  case (snoc ev es)
  define S where "S = fst (run_steps rpc_sys_step rpc_system_init es)"
  define W where "W = walk_of rpc_system_init es"
  obtain S' fs where step: "rpc_sys_step S ev = (S', fs)" by (cases "rpc_sys_step S ev")
  have W': "walk_of rpc_system_init (es @ [ev]) = W @ [(S, ev)]" by (simp add: walk_append W_def S_def)
  have "(b, RpcSettle p (Inr (Some v))) \<in> set (snd (run_steps rpc_sys_step rpc_system_init es)) \<or>
      (b, RpcSettle p (Inr (Some v))) \<in> set fs"
    using snoc.prems step by (simp add: run_steps_append split_beta Let_def S_def)
  then show ?case
  proof
    assume "(b, RpcSettle p (Inr (Some v))) \<in> set (snd (run_steps rpc_sys_step rpc_system_init es))"
    then obtain i m r c where "asked b W p i False m r" "took (\<not> b) W c i False m r" "gave (\<not> b) W c v"
      using snoc.IH unfolding W_def by blast
    then show ?thesis unfolding W' by (meson walk_mono(1-3))
  next
    assume eff: "(b, RpcSettle p (Inr (Some v))) \<in> set fs"
    have t: "traced b W S" unfolding W_def S_def by (rule traced_run)
    from step have "\<exists>i q. Res i v \<in> set (sy_chan S b) \<and> find_pending_rpc False i (sy_end S b) = Some q \<and> rq_promise q = p"
    proof (cases rule: sys_step_cases)
      case (2 d e)
      then show ?thesis using eff step_value [of p v "sy_end S b" e] by (auto simp: local_event_def)
    next
      case (3 d x q e)
      then have "d = b" "RpcSettle p (Inr (Some v)) \<in> set (snd (rpc_step (sy_end S b) e))" using eff by auto
      then obtain i q' where "x = Res i v" "find_pending_rpc False i (sy_end S b) = Some q'" "rq_promise q' = p"
        using step_value [of p v "sy_end S b" e] 3(3) by blast
      then show ?thesis using 3(2) \<open>d = b\<close> by (intro exI [of _ i] exI [of _ q']) simp
    qed (use eff in simp)
    then obtain i q where q: "Res i v \<in> set (sy_chan S b)" "find_pending_rpc False i (sy_end S b) = Some q" "rq_promise q = p"
      by blast
    obtain c p' m r where c: "gave (\<not> b) W c v" "asked b W p' i False m r" "took (\<not> b) W c i False m r"
      using tracedD(6) [OF t q(1)] unfolding works_def by blast
    moreover have "asked b W p i False m r" using tracedD(3) [OF t q(2)] tracedD(2) [OF t c(2)] c(2) q(3) by metis
    ultimately show ?thesis unfolding W' by (meson walk_mono(1-3))
  qed
qed simp

end
