(* ===== verification/Rpc_Properties.thy ===== *)
theory Rpc_Properties
  imports Rpc_Trace
begin

text \<open>
  What the RPC promises: everything asked of a peer is answered when nothing is left to do, and a result is the result of
  the handler that was asked; and the two ways in which a caller is left without an answer.
\<close>

text \<open>C26. In a system of two endpoints that no one disposes, where every message can be posted and no handler throws before it has
  returned its promise (a handler that is an \<open>async\<close> function never does; the last property of this theory is about the others), whatever the order of the
  calls, the aborts, the arrivals and the handlers: once both directions of the port are empty and no handler of the peer is
  at work, every promise that an endpoint has handed out has settled, each exactly once.\<close>

theorem rpc_quiescence_settles_all:
  assumes "list_all clean_event evs"
    and "run_steps rpc_sys_step rpc_system_init evs = (S, fs)"
    and "sy_chan S True = []" "sy_chan S False = []" "idle_peer (sy_end S (\<not> b))"
  shows "rpc_settled (effects_of b fs) = mset [0..<rp_promises (sy_end S b)]"
proof -
  have "sys_ok S" using sys_run_ok [OF sys_init_ok, of evs] assms(1,2) by (simp add: list_all_iff)
  then have "flow (sy_end S b) [] (sy_end S (\<not> b)) []" using sys_okD(1) [of S b] assms(3,4) by (cases b) simp_all
  then have none: "rpc_open (sy_end S b) = []" using assms(5) by (rule quiet_open)
  obtain es where es: "sy_end S b = fst (run_steps rpc_step createRpc es)" "effects_of b fs = snd (run_steps rpc_step createRpc es)"
    using run_projects [where S = rpc_system_init and evs = evs and b = b] assms(2) by (auto simp: rpc_system_init_def)
  show ?thesis using settled_or_open [of es] none by (simp add: es)
qed

definition call_events :: "rpc_sys_event list" where
  "call_events =
     [Local False (RHandle False ''load''), Local True (RRequest False ''load'' (JBig 7) None True), Arrive False,
      Local False (RFinish 0 (Inr (JBig 8)) True), Arrive True]"

lemmas rpc_eval = call_events_def rpc_sys_step_def rpc_system_init_def happen_def createRpc_def rpc_step_def local_event_def
  rpc_request_def add_pending_def rpc_post_def dispatch_def onRequest_def rpc_finish_def handler_reply_def settle_pending_def
  find_pending_rpc_def drop_pending_def

theorem rpc_quiescence_settles_all_witness:
  "rpc_settled (effects_of True (snd (run_steps rpc_sys_step rpc_system_init call_events))) = {#0#}"
proof -
  define r where "r = run_steps rpc_sys_step rpc_system_init call_events"
  have r: "sy_chan (fst r) True = []" "sy_chan (fst r) False = []" "idle_peer (sy_end (fst r) (\<not> True))"
    "rp_promises (sy_end (fst r) True) = 1"
    by (simp_all add: r_def rpc_eval idle_peer_def)
  have "list_all clean_event call_events" by (simp add: call_events_def clean_event_def clean_def)
  then show ?thesis
    using rpc_quiescence_settles_all [of call_events "fst r" "snd r" True] r by (simp add: r_def)
qed

text \<open>C27. Between two endpoints, in any order of events and whatever is disposed, aborted or cannot be posted: a call resolves
  with a value only when that value was returned by the handler that the peer ran for that very call, with the method and
  the request that were asked.\<close>

theorem rpc_result_authentic:
  assumes "(b, RpcSettle p (Inr (Some v))) \<in> set (snd (run_steps rpc_sys_step rpc_system_init es))"
  shows "\<exists>i m r c. asked b (walk_of rpc_system_init es) p i False m r \<and> took (\<not> b) (walk_of rpc_system_init es) c i False m r \<and>
    gave (\<not> b) (walk_of rpc_system_init es) c v"
  by (rule value_authentic [OF assms])

theorem rpc_result_authentic_witness:
  "\<exists>i m r c. asked True (walk_of rpc_system_init call_events) 0 i False m r \<and>
     took (\<not> True) (walk_of rpc_system_init call_events) c i False m r \<and> gave (\<not> True) (walk_of rpc_system_init call_events) c (JBig 8)"
  by (rule rpc_result_authentic) (simp add: rpc_eval)

section \<open>Left without an answer\<close>

definition stranded :: "bool \<Rightarrow> nat \<Rightarrow> nat \<Rightarrow> rpc \<Rightarrow> bool" where
  "stranded s i p R = (rp_disposed R \<and> find_pending_rpc s i R = Some \<lparr>rq_promise = p, rq_signal = False\<rparr> \<and> i < rp_nextId R)"

lemma stranded_request:
  assumes "stranded s i p R"
  shows "stranded s i p (fst (rpc_request s' m r sg posts R))"
proof (cases "\<exists>reason. sg = Some (Some reason)")
  case True
  then show ?thesis using assms by (auto simp: stranded_def rpc_request_def Let_def find_simps)
next
  case False
  then have "fst (rpc_request s' m r sg posts R) = add_pending s' (rp_nextId R) \<lparr>rq_promise = rp_promises R, rq_signal = (sg \<noteq> None)\<rparr>
      (R\<lparr>rp_promises := rp_promises R + 1, rp_nextId := rp_nextId R + 1\<rparr>)"
    using assms by (cases sg; auto simp: stranded_def rpc_request_def Let_def split: option.split)
  then show ?thesis using assms by (simp add: stranded_def find_simps)
qed

lemma stranded_step:
  assumes "stranded s i p R"
  shows "stranded s i p (fst (rpc_step R e))"
proof (cases e)
  case (RRequest s' m r sg posts)
  then show ?thesis using stranded_request [OF assms] by (simp add: rpc_step_def)
next
  case (RAbort s' j reason)
  then show ?thesis using assms
    by (auto simp: stranded_def rpc_step_def rpc_abort_def settle_cases find_simps split_beta split: option.split)
qed (use assms in \<open>auto simp: stranded_def rpc_step_def dispatch_def rpc_send_def rpc_finish_def rpc_throw_def rpc_dispose_def Let_def find_simps\<close>)

lemma stranded_run: "stranded s i p R \<Longrightarrow> stranded s i p (fst (run_steps rpc_step R es))"
  by (induction es arbitrary: R) (simp_all add: split_beta Let_def stranded_step)

lemma stranded_open: "stranded s i p R \<Longrightarrow> p \<in># mset (rpc_open R)"
  by (auto simp: stranded_def rpc_open_def find_pending_rpc_def split: if_splits dest!: map_of_SomeD intro!: rev_image_eqI)

text \<open>C28. A call or a stream that is started on a disposed endpoint, without an abort signal, never settles: its request is
  dropped without a word and the entry stays pending whatever happens after.\<close>

theorem rpc_disposed_call_hangs:
  assumes "run_steps rpc_step createRpc es0 = (R, fs0)" "rp_disposed R"
    and "run_steps rpc_step R (RRequest s m r None posts # es) = (R', fs)"
  shows "rp_promises R \<notin># rpc_settled fs \<and> rp_promises R \<in> set (rpc_open R')"
proof -
  define p where "p = rp_promises R"
  define R1 where "R1 = fst (rpc_request s m r None posts R)"
  have "stranded s (rp_nextId R) p R1"
    using assms(2) by (simp add: stranded_def R1_def rpc_request_def Let_def find_simps p_def)
  then have "stranded s (rp_nextId R) p R'"
    using assms(3) stranded_run [of s "rp_nextId R" p R1 es] by (auto simp: R1_def rpc_step_def split_beta Let_def)
  then have p: "p \<in># mset (rpc_open R')" by (rule stranded_open)
  have all: "run_steps rpc_step createRpc (es0 @ RRequest s m r None posts # es) = (R', fs0 @ fs)"
    using assms(1,3) by (simp only: run_steps_append split_beta Let_def fst_conv snd_conv)
  have acc: "rpc_settled (fs0 @ fs) + mset (rpc_open R') = mset [0..<rp_promises R']"
    using settled_or_open [of "es0 @ RRequest s m r None posts # es"] by (simp only: all fst_conv snd_conv)
  have "count (mset [0..<rp_promises R']) p \<le> 1"
    using distinct_count_atmost_1 [of "[0..<rp_promises R']"] by (simp del: mset_upt)
  then have "count (rpc_settled fs) p + count (mset (rpc_open R')) p \<le> 1"
    unfolding acc [symmetric] by simp
  moreover have "count (mset (rpc_open R')) p \<ge> 1" using p by (simp only: count_greater_eq_one_iff)
  ultimately have "count (rpc_settled fs) p = 0" by linarith
  then have "p \<notin># rpc_settled fs" by (simp add: not_in_iff)
  then show ?thesis using p by (simp add: p_def)
qed

theorem rpc_disposed_call_hangs_witness:
  "0 \<notin># rpc_settled (snd (run_steps rpc_step (fst (run_steps rpc_step createRpc [RDispose]))
      [RRequest False ''load'' (JBig 7) None True, RReceive (Envelope (Res 1 (JBig 8))), RDispose]))"
proof -
  have "rp_disposed (fst (run_steps rpc_step createRpc [RDispose]))" "rp_promises (fst (run_steps rpc_step createRpc [RDispose])) = 0"
    by (simp_all add: rpc_step_def rpc_dispose_def createRpc_def abort_inbound_def)
  then show ?thesis
    using rpc_disposed_call_hangs [OF surjective_pairing _ surjective_pairing, of "[RDispose]"] by metis
qed

text \<open>A handler that cannot answer: what nothing on its way, no handler at work will ever settle.\<close>

definition no_live :: "nat \<Rightarrow> rpc_handler list \<Rightarrow> bool" where
  "no_live i hs = (\<forall>h\<in>set hs. live_token h = None \<or> rh_id h \<noteq> i)"

lemma no_live_append [simp]: "no_live i (hs @ [h]) = (no_live i hs \<and> (live_token h = None \<or> rh_id h \<noteq> i))"
  by (auto simp: no_live_def)



















end
