(* ===== verification/Data_Flash.thy ===== *)
theory Data_Flash
  imports Field_Codec Js_Math "HOL-Library.AList"
begin

text \<open>
  \<open>src/data/dataflash\<close> (\<open>types.ts\<close>, \<open>decoder.ts\<close>): the streaming decoder of ArduPilot's binary logs. A \<open>Map\<close> is an
  association list in the order of insertion, an object of fields one in the order of its keys (names that are numbers,
  which JavaScript lists first, and \<open>__proto__\<close> are not treated apart). The three callbacks are the events of a feed; what
  a callback does is outside.
\<close>

section \<open>Types\<close>

datatype df_value = DfNum jsnum | DfStr string | DfBig int | DfArr "jsnum list"

record df_record =
  dr_type :: nat
  dr_name :: string
  dr_offset :: nat
  dr_length :: nat
  dr_fields :: "(string \<times> df_value) list"
  dr_units :: "(string \<times> string) option"

record df_format =
  ff_type :: nat
  ff_length :: nat
  ff_name :: string
  ff_format :: string
  ff_columns :: "string list"

record df_unit =
  du_id :: jsnum
  du_label :: string

record df_multiplier =
  dm_id :: jsnum
  dm_multiplier :: jsnum

record df_units =
  fu_type :: jsnum
  fu_unitIds :: string
  fu_multIds :: string

record df_metadata =
  md_units :: "df_unit list"
  md_multipliers :: "df_multiplier list"
  md_formatUnits :: "df_units list"

record df_type_info =
  ti_format :: df_format
  ti_fieldFormats :: string
  ti_units :: "df_units option"

record field_decoder =
  fd_code :: char
  fd_size :: nat
  fd_decode :: "bytes \<Rightarrow> nat \<Rightarrow> df_value"

record df_compiled = df_format +
  cf_decoders :: "field_decoder list"
  cf_bodyBytes :: nat

text \<open>The four maps of the decoder, and the decoder.\<close>

record df_tables =
  tb_formats :: "(nat \<times> df_compiled) list"
  tb_units :: "(jsnum \<times> df_unit) list"
  tb_multipliers :: "(jsnum \<times> df_multiplier) list"
  tb_formatUnits :: "(jsnum \<times> df_units) list"

record df_decoder =
  df_maxBufferBytes :: nat
  df_buffer :: bytes
  df_streamOffset :: nat
  df_tables :: df_tables

datatype df_event = OnFormat df_format | OnRecord df_record | OnMetadata df_metadata

section \<open>Constants and creation\<close>

definition HEADER_0 :: u8 where "HEADER_0 = 0xa3"
definition HEADER_1 :: u8 where "HEADER_1 = 0x95"
definition HEADER_BYTES :: nat where "HEADER_BYTES = 3"
definition FMT_TYPE :: nat where "FMT_TYPE = 128"
definition FMT_BODY_BYTES :: nat where "FMT_BODY_BYTES = 86"
definition FMT_PACKET_BYTES :: nat where "FMT_PACKET_BYTES = HEADER_BYTES + FMT_BODY_BYTES"
definition DEFAULT_MAX_BUFFER_BYTES :: nat where "DEFAULT_MAX_BUFFER_BYTES = 1024"

definition no_tables :: df_tables where
  "no_tables = \<lparr>tb_formats = [], tb_units = [], tb_multipliers = [], tb_formatUnits = []\<rparr>"

definition createDecoder :: "nat option \<Rightarrow> df_decoder" where
  "createDecoder maxBufferBytes =
     \<lparr>df_maxBufferBytes = max FMT_PACKET_BYTES (case maxBufferBytes of Some n \<Rightarrow> n | None \<Rightarrow> DEFAULT_MAX_BUFFER_BYTES),
      df_buffer = [], df_streamOffset = 0, df_tables = no_tables\<rparr>"

section \<open>Strings and fields\<close>

text \<open>The bytes up to the first zero, as characters (\<open>c_string\<close>); then \<open>trim\<close>.\<close>

definition df_readString :: "bytes \<Rightarrow> nat \<Rightarrow> nat \<Rightarrow> string" where
  "df_readString bs offset len = str_trim (c_string (take (min (length bs) (offset + len) - offset) (drop offset bs)))"

definition readViewString :: "bytes \<Rightarrow> nat \<Rightarrow> nat \<Rightarrow> string" where
  "readViewString dv offset len = str_trim (c_string (subarray offset len dv))"

text \<open>\<open>split\<close> at every comma.\<close>

fun split_commas :: "string \<Rightarrow> string list" where
  "split_commas [] = [[]]"
| "split_commas (c # s) = (let r = split_commas s in if c = CHR '','' then [] # r else (c # hd r) # tl r)"

section \<open>Formats\<close>

definition view_uint :: "nat \<Rightarrow> bytes \<Rightarrow> nat \<Rightarrow> jsnum" where
  "view_uint n dv offset = js_nat (le_nat (subarray offset n dv))"

definition view_int :: "nat \<Rightarrow> bytes \<Rightarrow> nat \<Rightarrow> jsnum" where
  "view_int n dv offset = js_int (signed n (le_nat (subarray offset n dv)))"

definition decoderFor :: "char \<Rightarrow> char + field_decoder" where
  "decoderFor code =
     (let dec = (\<lambda>n f. Inr \<lparr>fd_code = code, fd_size = n, fd_decode = f\<rparr>) in
      if code = CHR ''a'' then dec 64 (\<lambda>v off. DfArr (map (\<lambda>i. view_int 2 v (off + i * 2)) [0..<32]))
      else if code = CHR ''b'' then dec 1 (\<lambda>v off. DfNum (view_int 1 v off))
      else if code = CHR ''B'' \<or> code = CHR ''M'' then dec 1 (\<lambda>v off. DfNum (view_uint 1 v off))
      else if code = CHR ''h'' then dec 2 (\<lambda>v off. DfNum (view_int 2 v off))
      else if code = CHR ''H'' then dec 2 (\<lambda>v off. DfNum (view_uint 2 v off))
      else if code = CHR ''i'' then dec 4 (\<lambda>v off. DfNum (view_int 4 v off))
      else if code = CHR ''I'' then dec 4 (\<lambda>v off. DfNum (view_uint 4 v off))
      else if code = CHR ''f'' then dec 4 (\<lambda>v off. DfNum (f32_of_bits (le_nat (subarray off 4 v))))
      else if code = CHR ''d'' then dec 8 (\<lambda>v off. DfNum (f64_of_bits (le_nat (subarray off 8 v))))
      else if code = CHR ''n'' then dec 4 (\<lambda>v off. DfStr (readViewString v off 4))
      else if code = CHR ''N'' then dec 16 (\<lambda>v off. DfStr (readViewString v off 16))
      else if code = CHR ''Z'' then dec 64 (\<lambda>v off. DfStr (readViewString v off 64))
      else if code = CHR ''c'' then dec 2 (\<lambda>v off. DfNum (js_div (view_int 2 v off) (js_nat 100)))
      else if code = CHR ''C'' then dec 2 (\<lambda>v off. DfNum (js_div (view_uint 2 v off) (js_nat 100)))
      else if code = CHR ''e'' then dec 4 (\<lambda>v off. DfNum (js_div (view_int 4 v off) (js_nat 100)))
      else if code = CHR ''E'' then dec 4 (\<lambda>v off. DfNum (js_div (view_uint 4 v off) (js_nat 100)))
      else if code = CHR ''L'' then dec 4 (\<lambda>v off. DfNum (js_div (view_int 4 v off) (js_nat 10000000)))
      else if code = CHR ''q'' then dec 8 (\<lambda>v off. DfBig (signed 8 (le_nat (subarray off 8 v))))
      else if code = CHR ''Q'' then dec 8 (\<lambda>v off. DfBig (int (le_nat (subarray off 8 v))))
      else Inl code)"

definition parseFmt :: "bytes \<Rightarrow> df_format option" where
  "parseFmt body =
     (if length body < FMT_BODY_BYTES then None
      else
        let type = unat (body ! 0); len = unat (body ! 1)
        in if len < HEADER_BYTES then None
           else Some \<lparr>ff_type = type, ff_length = len, ff_name = df_readString body 2 4, ff_format = df_readString body 6 16,
                  ff_columns = filter (\<lambda>c. 0 < length c) (map str_trim (split_commas (df_readString body 22 64)))\<rparr>)"

fun decoders_for :: "string \<Rightarrow> char + field_decoder list" where
  "decoders_for [] = Inr []"
| "decoders_for (c # cs) =
     (case decoderFor c of Inl e \<Rightarrow> Inl e | Inr d \<Rightarrow> (case decoders_for cs of Inl e \<Rightarrow> Inl e | Inr ds \<Rightarrow> Inr (d # ds)))"

definition compileFormat :: "df_format \<Rightarrow> char + df_compiled" where
  "compileFormat f =
     (case decoders_for (ff_format f) of
        Inl e \<Rightarrow> Inl e
      | Inr ds \<Rightarrow>
          Inr \<lparr>ff_type = ff_type f, ff_length = ff_length f, ff_name = ff_name f, ff_format = ff_format f, ff_columns = ff_columns f,
            cf_decoders = ds, cf_bodyBytes = foldl (\<lambda>sum d. sum + fd_size d) 0 ds\<rparr>)"

section \<open>Records\<close>

definition column_name :: "string list \<Rightarrow> nat \<Rightarrow> string" where
  "column_name columns i = (if i < length columns then columns ! i else ''field'' @ nat_to_string i)"

fun decode_cells :: "string list \<Rightarrow> bytes \<Rightarrow> nat \<Rightarrow> nat \<Rightarrow> field_decoder list \<Rightarrow> (string \<times> df_value) list \<Rightarrow> (string \<times> df_value) list" where
  "decode_cells columns body i cursor [] fs = fs"
| "decode_cells columns body i cursor (d # ds) fs =
     (if length body < cursor + fd_size d then fs
      else decode_cells columns body (i + 1) (cursor + fd_size d) ds (AList.update (column_name columns i) (fd_decode d body cursor) fs))"

definition decodeRecord :: "df_compiled \<Rightarrow> bytes \<Rightarrow> nat \<Rightarrow> df_record" where
  "decodeRecord f body offset =
     \<lparr>dr_type = ff_type f, dr_name = ff_name f, dr_offset = offset, dr_length = ff_length f,
      dr_fields = decode_cells (ff_columns f) body 0 0 (cf_decoders f) [], dr_units = None\<rparr>"

section \<open>Metadata\<close>

fun numberField :: "(string \<times> df_value) list \<Rightarrow> string list \<Rightarrow> jsnum option" where
  "numberField fs [] = None"
| "numberField fs (n # ns) =
     (case map_of fs n of Some (DfNum x) \<Rightarrow> if js_is_finite x then Some x else numberField fs ns | _ \<Rightarrow> numberField fs ns)"

fun stringField :: "(string \<times> df_value) list \<Rightarrow> string list \<Rightarrow> string option" where
  "stringField fs [] = None"
| "stringField fs (n # ns) = (case map_of fs n of Some (DfStr s) \<Rightarrow> Some s | _ \<Rightarrow> stringField fs ns)"

text \<open>The keys of a \<open>Map\<close> do not tell the two zeros apart.\<close>

definition number_key :: "jsnum \<Rightarrow> jsnum" where
  "number_key x = (if x = NegZero then Num 0 else x)"

definition captureUnit :: "(string \<times> df_value) list \<Rightarrow> df_tables \<Rightarrow> df_tables option" where
  "captureUnit fs T =
     (case (numberField fs [''Id'', ''ID''], stringField fs [''Label'', ''Unit'', ''Units'']) of
        (Some i, Some label) \<Rightarrow> Some (T\<lparr>tb_units := AList.update (number_key i) \<lparr>du_id = i, du_label = label\<rparr> (tb_units T)\<rparr>)
      | _ \<Rightarrow> None)"

definition captureMultiplier :: "(string \<times> df_value) list \<Rightarrow> df_tables \<Rightarrow> df_tables option" where
  "captureMultiplier fs T =
     (case (numberField fs [''Id'', ''ID''], numberField fs [''Mult'', ''Multiplier'', ''Value'']) of
        (Some i, Some m) \<Rightarrow> Some (T\<lparr>tb_multipliers := AList.update (number_key i) \<lparr>dm_id = i, dm_multiplier = m\<rparr> (tb_multipliers T)\<rparr>)
      | _ \<Rightarrow> None)"

definition captureFormatUnits :: "(string \<times> df_value) list \<Rightarrow> df_tables \<Rightarrow> df_tables option" where
  "captureFormatUnits fs T =
     (case (numberField fs [''Id'', ''ID'', ''Type''], stringField fs [''UnitIds'', ''Units'', ''Unit''],
            stringField fs [''MultIds'', ''Mults'', ''Multipliers'', ''Mult'']) of
        (Some t, Some us, Some ms) \<Rightarrow>
          Some (T\<lparr>tb_formatUnits := AList.update (number_key t) \<lparr>fu_type = t, fu_unitIds = us, fu_multIds = ms\<rparr> (tb_formatUnits T)\<rparr>)
      | _ \<Rightarrow> None)"

definition captureMetadata :: "df_record \<Rightarrow> df_tables \<Rightarrow> df_tables option" where
  "captureMetadata r T =
     (if dr_name r = ''UNIT'' then captureUnit (dr_fields r) T
      else if dr_name r = ''MULT'' then captureMultiplier (dr_fields r) T
      else if dr_name r = ''FMTU'' then captureFormatUnits (dr_fields r) T
      else None)"

definition getMetadata :: "df_tables \<Rightarrow> df_metadata" where
  "getMetadata T =
     \<lparr>md_units = sort_key du_id (map snd (tb_units T)), md_multipliers = sort_key dm_id (map snd (tb_multipliers T)),
      md_formatUnits = sort_key fu_type (map snd (tb_formatUnits T))\<rparr>"

definition getTypes :: "df_tables \<Rightarrow> df_type_info list" where
  "getTypes T =
     map (\<lambda>f. \<lparr>ti_format = df_format.truncate f, ti_fieldFormats = map fd_code (cf_decoders f),
          ti_units = map_of (tb_formatUnits T) (js_nat (ff_type f))\<rparr>)
       (sort_key ff_type (map snd (tb_formats T)))"

lemma update_subset: "set (AList.update k v al) \<subseteq> insert (k, v) (set al)"
  by (induction al) auto

lemma update_new: "k \<notin> fst ` set al \<Longrightarrow> AList.update k v al = al @ [(k, v)]"
  by (induction al) auto

section \<open>The scan of a buffer\<close>

function findHeader :: "bytes \<Rightarrow> nat \<Rightarrow> nat option" where
  "findHeader bs i =
     (if i + 1 < length bs then if bs ! i = HEADER_0 \<and> bs ! (i + 1) = HEADER_1 then Some i else findHeader bs (i + 1) else None)"
  by auto
termination findHeader by (relation "measure (\<lambda>(bs, i). length bs - i)") auto

declare findHeader.simps [simp del]

text \<open>How the loop goes on after one packet: at another position, or it ends for want of a header, for want of bytes, or by an
  exception.\<close>

datatype df_next = Continue nat | NoHeader | Rest nat | Unsupported char

definition format_for :: "df_tables \<Rightarrow> nat \<Rightarrow> df_compiled option" where
  "format_for T type = (if type = FMT_TYPE then None else map_of (tb_formats T) type)"

definition packet_length :: "df_tables \<Rightarrow> nat \<Rightarrow> nat option" where
  "packet_length T type = (if type = FMT_TYPE then Some FMT_PACKET_BYTES else map_option ff_length (format_for T type))"

definition with_units :: "df_tables \<Rightarrow> df_record \<Rightarrow> df_record" where
  "with_units T r =
     (case map_of (tb_formatUnits T) (js_nat (dr_type r)) of
        None \<Rightarrow> r | Some u \<Rightarrow> r\<lparr>dr_units := Some (fu_unitIds u, fu_multIds u)\<rparr>)"

text \<open>A whole packet: its body, and where it stands in the stream.\<close>

definition df_process :: "df_compiled option \<Rightarrow> bytes \<Rightarrow> nat \<Rightarrow> df_tables \<Rightarrow> char + df_tables \<times> df_event list" where
  "df_process format body packetOffset T =
     (case format of
        None \<Rightarrow>
          (case parseFmt body of
             None \<Rightarrow> Inr (T, [])
           | Some f \<Rightarrow>
               (case compileFormat f of
                  Inl c \<Rightarrow> Inl c
                | Inr cf \<Rightarrow> Inr (T\<lparr>tb_formats := AList.update (ff_type cf) cf (tb_formats T)\<rparr>, [OnFormat f])))
      | Some cf \<Rightarrow>
          let r = with_units T (decodeRecord cf body packetOffset)
          in case captureMetadata r T of
               None \<Rightarrow> Inr (T, [OnRecord r])
             | Some T' \<Rightarrow> Inr (T', [OnRecord r, OnMetadata (getMetadata T')]))"

definition df_packet_at :: "nat \<Rightarrow> bytes \<Rightarrow> nat \<Rightarrow> df_tables \<Rightarrow> df_tables \<times> df_event list \<times> df_next" where
  "df_packet_at streamOffset buf p T =
     (if length buf - p < HEADER_BYTES then (T, [], Rest p)
      else
        let type = unat (buf ! (p + 2))
        in case packet_length T type of
             None \<Rightarrow> (T, [], Continue (p + 1))
           | Some len \<Rightarrow>
               if len < HEADER_BYTES then (T, [], Continue (p + 1))
               else if length buf - p < len then (T, [], Rest p)
               else
                 (case df_process (format_for T type) (subarray (p + HEADER_BYTES) (len - HEADER_BYTES) buf) (streamOffset + p) T of
                    Inl c \<Rightarrow> (T, [], Unsupported c)
                  | Inr (T', fs) \<Rightarrow> (T', fs, Continue (p + len))))"

definition df_packet :: "nat \<Rightarrow> bytes \<Rightarrow> nat \<Rightarrow> df_tables \<Rightarrow> df_tables \<times> df_event list \<times> df_next" where
  "df_packet streamOffset buf pos T =
     (case findHeader buf pos of None \<Rightarrow> (T, [], NoHeader) | Some p \<Rightarrow> df_packet_at streamOffset buf p T)"

lemma findHeader_bounds: "findHeader bs i = Some p \<Longrightarrow> i \<le> p \<and> p + 1 < length bs"
proof (induction bs i rule: findHeader.induct)
  case (1 bs i)
  then show ?case using findHeader.simps [of bs i] by (auto split: if_splits)
qed

lemma df_packet_advances: "df_packet so buf pos T = (T', fs, Continue q) \<Longrightarrow> pos < q \<and> q \<le> length buf"
  by (auto simp: df_packet_def df_packet_at_def HEADER_BYTES_def Let_def dest!: findHeader_bounds split: option.splits if_splits sum.splits)

function df_scan :: "nat \<Rightarrow> bytes \<Rightarrow> nat \<Rightarrow> df_tables \<Rightarrow> df_tables \<times> df_event list \<times> df_next" where
  "df_scan so buf pos T =
     (if pos < length buf then
        (case df_packet so buf pos T of
           (T', fs, Continue q) \<Rightarrow> let (T'', gs, x) = df_scan so buf q T' in (T'', fs @ gs, x)
         | stop \<Rightarrow> stop)
      else (T, [], Rest pos))"
  by auto
termination df_scan
  by (relation "measure (\<lambda>(so, buf, pos, T). length buf - pos)") (auto dest!: df_packet_advances [OF sym])

declare df_scan.simps [simp del]

section \<open>Feeding\<close>

definition enforceBoundedBuffer :: "df_decoder \<Rightarrow> df_decoder" where
  "enforceBoundedBuffer D =
     (if length (df_buffer D) \<le> df_maxBufferBytes D then D
      else let keepStart = length (df_buffer D) - df_maxBufferBytes D
           in D\<lparr>df_streamOffset := df_streamOffset D + keepStart, df_buffer := drop keepStart (df_buffer D)\<rparr>)"

definition df_append :: "bytes \<Rightarrow> df_decoder \<Rightarrow> df_decoder" where
  "df_append chunk D = D\<lparr>df_buffer := df_buffer D @ chunk\<rparr>"

definition df_consume :: "nat \<Rightarrow> df_decoder \<Rightarrow> df_decoder" where
  "df_consume n D = D\<lparr>df_streamOffset := df_streamOffset D + n, df_buffer := drop n (df_buffer D)\<rparr>"

text \<open>The records returned are those of the events; a format with an unknown character throws (\<open>Inl\<close>).\<close>

definition records_of :: "df_event list \<Rightarrow> df_record list" where
  "records_of fs = List.map_filter (\<lambda>f. case f of OnRecord r \<Rightarrow> Some r | _ \<Rightarrow> None) fs"

definition df_feed :: "bytes \<Rightarrow> df_decoder \<Rightarrow> df_decoder \<times> df_event list \<times> (char + df_record list)" where
  "df_feed chunk D =
     (if chunk = [] then (D, [], Inr [])
      else
        let D = df_append chunk D;
            (T, fs, x) = df_scan (df_streamOffset D) (df_buffer D) 0 (df_tables D);
            D = D\<lparr>df_tables := T\<rparr>
        in case x of
             Unsupported c \<Rightarrow> (D, fs, Inl c)
           | Rest pos \<Rightarrow> (enforceBoundedBuffer (df_consume pos D), fs, Inr (records_of fs))
           | _ \<Rightarrow>
               let keep = (if last (df_buffer D) = HEADER_0 then 1 else 0)
               in (enforceBoundedBuffer (df_consume (length (df_buffer D) - keep) D), fs, Inr (records_of fs)))"

definition df_finish :: "df_decoder \<Rightarrow> df_decoder" where
  "df_finish D = D\<lparr>df_streamOffset := df_streamOffset D + length (df_buffer D), df_buffer := []\<rparr>"

end
