(* ===== verification/Flash_Stream.thy ===== *)
theory Flash_Stream
  imports Data_Flash
begin

text \<open>
  How a log may be cut: the scan of a buffer depends on the bytes from its position on and their place in the stream
  (\<open>scan_shift\<close>), and a scan that ran out of bytes goes on when more arrive (\<open>scan_more\<close>). So the chunks of a log do not
  matter, as long as the carry-over is never cut.
\<close>

section \<open>Headers\<close>

definition header_at :: "bytes \<Rightarrow> nat \<Rightarrow> bool" where
  "header_at bs i = (i + 1 < length bs \<and> bs ! i = HEADER_0 \<and> bs ! (i + 1) = HEADER_1)"

lemma findHeader_eq:
  "findHeader bs i = (if header_at bs i then Some i else if i + 1 < length bs then findHeader bs (i + 1) else None)"
  by (subst findHeader.simps) (auto simp: header_at_def)

lemma findHeader_Some: "findHeader bs i = Some p \<longleftrightarrow> i \<le> p \<and> header_at bs p \<and> (\<forall>k. i \<le> k \<and> k < p \<longrightarrow> \<not> header_at bs k)"
proof (induction bs i rule: findHeader.induct)
  case (1 bs i)
  show ?case
  proof (cases "i + 1 < length bs \<and> \<not> header_at bs i")
    case True
    then have "findHeader bs (i + 1) = Some p \<longleftrightarrow> i + 1 \<le> p \<and> header_at bs p \<and> (\<forall>k. i + 1 \<le> k \<and> k < p \<longrightarrow> \<not> header_at bs k)"
      using 1 by (simp add: header_at_def)
    then show ?thesis using True unfolding findHeader_eq [of bs i]
      by simp (metis Suc_leD Suc_leI le_neq_implies_less)
  next
    case False
    then show ?thesis unfolding findHeader_eq [of bs i] by (auto simp: header_at_def not_less)
  qed
qed

lemma findHeader_None: "findHeader bs i = None \<longleftrightarrow> (\<forall>k\<ge>i. \<not> header_at bs k)"
proof -
  have "(\<exists>p. findHeader bs i = Some p) \<longleftrightarrow> (\<exists>k\<ge>i. header_at bs k)"
  proof
    assume "\<exists>k\<ge>i. header_at bs k"
    then obtain k where k: "i \<le> k" "header_at bs k" by blast
    define p where "p = (LEAST k. i \<le> k \<and> header_at bs k)"
    have "i \<le> p \<and> header_at bs p" unfolding p_def by (rule LeastI [of _ k]) (use k in simp)
    moreover have "\<not> header_at bs k" if "i \<le> k" "k < p" for k using that not_less_Least unfolding p_def by blast
    ultimately show "\<exists>p. findHeader bs i = Some p" unfolding findHeader_Some by blast
  qed (auto simp: findHeader_Some)
  then show ?thesis by auto
qed

lemma header_append: "p + 1 < length bs \<Longrightarrow> header_at (bs @ ys) p = header_at bs p"
  by (simp add: header_at_def nth_append)

lemma header_less: "header_at bs p \<Longrightarrow> p + 1 < length bs"
  by (simp add: header_at_def)

lemma findHeader_append: "findHeader bs i = Some p \<Longrightarrow> findHeader (bs @ ys) i = Some p"
proof -
  assume "findHeader bs i = Some p"
  then have p: "i \<le> p" "header_at bs p" "\<And>k. i \<le> k \<Longrightarrow> k < p \<Longrightarrow> \<not> header_at bs k" unfolding findHeader_Some by blast+
  have "header_at (bs @ ys) k = header_at bs k" if "k \<le> p" for k
    using header_less [OF p(2)] that by (intro header_append) simp
  then show "findHeader (bs @ ys) i = Some p" unfolding findHeader_Some using p by simp
qed

lemma header_shift: "header_at (xs @ bs) (length xs + p) = header_at bs p"
  by (simp add: header_at_def nth_append)

lemma findHeader_shift: "findHeader (xs @ bs) (length xs + i) = map_option ((+) (length xs)) (findHeader bs i)"
proof (cases "findHeader bs i")
  case None
  then have "\<not> header_at (xs @ bs) k" if "length xs + i \<le> k" for k
    using that header_shift [of xs bs "k - length xs"] unfolding findHeader_None by simp
  then have "findHeader (xs @ bs) (length xs + i) = None" by (simp add: findHeader_None)
  then show ?thesis using None by simp
next
  case (Some p)
  then have p: "i \<le> p" "header_at bs p" "\<And>k. i \<le> k \<Longrightarrow> k < p \<Longrightarrow> \<not> header_at bs k" unfolding findHeader_Some by blast+
  have "\<not> header_at (xs @ bs) k" if "length xs + i \<le> k" "k < length xs + p" for k
    using that p(3) [of "k - length xs"] header_shift [of xs bs "k - length xs"] by simp
  then have "findHeader (xs @ bs) (length xs + i) = Some (length xs + p)"
    unfolding findHeader_Some using p(1,2) header_shift by simp
  then show ?thesis using Some by simp
qed

text \<open>Without a header only a last byte that could begin one matters.\<close>

lemma findHeader_kept:
  assumes "findHeader bs i = None" "i < length bs" "k = length bs - (if last bs = HEADER_0 then 1 else 0)"
  shows "findHeader (bs @ ys) i = findHeader (bs @ ys) k"
proof -
  have k: "i \<le> k" "k \<le> length bs" using assms(2,3) by auto
  have none: "\<not> header_at (bs @ ys) j" if "i \<le> j" "j < k" for j
  proof (cases "j + 1 < length bs")
    case True
    then show ?thesis using assms(1) that header_append unfolding findHeader_None by metis
  next
    case False
    then have "j = length bs - 1" "last bs \<noteq> HEADER_0" using that assms(2,3) by (auto split: if_splits)
    moreover have "last bs = bs ! (length bs - 1)" using assms(2) by (intro last_conv_nth) auto
    moreover have "j < length bs" using calculation(1) assms(2) by simp
    then have "(bs @ ys) ! j = bs ! j" by (simp only: nth_append if_True)
    ultimately show ?thesis by (simp add: header_at_def)
  qed
  show ?thesis
  proof (cases "findHeader (bs @ ys) k")
    case None
    then have "findHeader (bs @ ys) i = None" using none unfolding findHeader_None by (metis not_le)
    then show ?thesis using None by simp
  next
    case (Some p)
    then have "findHeader (bs @ ys) i = Some p" using none k(1) unfolding findHeader_Some by (metis not_le le_trans)
    then show ?thesis using Some by simp
  qed
qed

section \<open>One packet\<close>

fun shift_next :: "nat \<Rightarrow> df_next \<Rightarrow> df_next" where
  "shift_next n (Continue q) = Continue (n + q)"
| "shift_next n (Rest p) = Rest (n + p)"
| "shift_next n NoHeader = NoHeader"
| "shift_next n (Unsupported c) = Unsupported c"

lemma packet_shift:
  "df_packet so (xs @ buf) (length xs + pos) T =
     (let (T', fs, x) = df_packet (so + length xs) buf pos T in (T', fs, shift_next (length xs) x))"
proof (cases "findHeader buf pos")
  case None
  then show ?thesis by (simp add: df_packet_def findHeader_shift)
next
  case (Some p)
  have "df_packet_at so (xs @ buf) (length xs + p) T =
      (let (T', fs, x) = df_packet_at (so + length xs) buf p T in (T', fs, shift_next (length xs) x))"
    by (simp add: df_packet_at_def nth_append Let_def add.assoc split: option.split sum.split)
  then show ?thesis using Some by (simp add: df_packet_def findHeader_shift)
qed

lemma packet_more:
  assumes "df_packet so buf pos T = (T', fs, x)" "x \<noteq> NoHeader" "\<And>p. x \<noteq> Rest p"
  shows "df_packet so (buf @ ys) pos T = (T', fs, x)"
proof (cases "findHeader buf pos")
  case None
  then show ?thesis using assms by (simp add: df_packet_def)
next
  case (Some p)
  have x: "df_packet_at so buf p T = (T', fs, x)" using assms(1) Some by (simp add: df_packet_def)
  have long: "\<not> length (buf @ ys) - p < n" if "\<not> length buf - p < n" for n using that by simp
  have sub: "subarray (p + HEADER_BYTES) (n - HEADER_BYTES) (buf @ ys) = subarray (p + HEADER_BYTES) (n - HEADER_BYTES) buf"
    if "\<not> length buf - p < n" "\<not> n < HEADER_BYTES" for n
    by (rule subarray_append_left) (use that findHeader_bounds [OF Some] in \<open>simp add: HEADER_BYTES_def\<close>)
  have enough: "\<not> length buf - p < HEADER_BYTES" using assms(3) [of p] x by (auto simp: df_packet_at_def)
  then have "p + 2 < length buf" by (simp add: HEADER_BYTES_def)
  then have e: "(buf @ ys) ! (p + 2) = buf ! (p + 2)" by (simp add: nth_append)
  have "df_packet_at so (buf @ ys) p T = (T', fs, x)"
  proof (cases "packet_length T (unat (buf ! (p + 2)))")
    case None
    then show ?thesis using x enough long [OF enough] unfolding df_packet_at_def Let_def e by simp
  next
    case (Some n)
    have "n < HEADER_BYTES \<or> \<not> length buf - p < n"
      using x enough Some assms(3) unfolding df_packet_at_def Let_def by (auto split: if_splits)
    then show ?thesis using x enough long [OF enough] long [of n] sub [of n] Some unfolding df_packet_at_def Let_def e
      by (cases "n < HEADER_BYTES") simp_all
  qed
  then show ?thesis using findHeader_append [OF Some] by (simp add: df_packet_def)
qed

lemma packet_Rest:
  assumes "df_packet so buf pos T = (T', fs, Rest p)"
  shows "T' = T \<and> fs = [] \<and> findHeader buf pos = Some p"
  using assms by (auto simp: df_packet_def df_packet_at_def Let_def split: option.splits if_splits sum.splits)

lemma packet_NoHeader: "df_packet so buf pos T = (T', fs, NoHeader) \<Longrightarrow> T' = T \<and> fs = [] \<and> findHeader buf pos = None"
  by (auto simp: df_packet_def df_packet_at_def Let_def split: option.splits if_splits sum.splits)

lemma packet_at: "findHeader buf pos = findHeader buf q \<Longrightarrow> df_packet so buf pos T = df_packet so buf q T"
  by (simp add: df_packet_def)

section \<open>The scan\<close>

lemma scan_Continue:
  "pos < length buf \<Longrightarrow> df_packet so buf pos T = (T', fs, Continue q) \<Longrightarrow>
     df_scan so buf pos T = (let (T'', gs, x) = df_scan so buf q T' in (T'', fs @ gs, x))"
  by (subst df_scan.simps) simp

lemma scan_stop:
  "pos < length buf \<Longrightarrow> df_packet so buf pos T = (T', fs, x) \<Longrightarrow> (\<And>q. x \<noteq> Continue q) \<Longrightarrow> df_scan so buf pos T = (T', fs, x)"
proof -
  assume a: "pos < length buf" "df_packet so buf pos T = (T', fs, x)" and n: "\<And>q. x \<noteq> Continue q"
  show "df_scan so buf pos T = (T', fs, x)" using a n by (subst df_scan.simps) (cases x; use n in auto)
qed

lemma scan_end: "length buf \<le> pos \<Longrightarrow> df_scan so buf pos T = (T, [], Rest pos)"
  by (subst df_scan.simps) simp

lemma scan_induct [case_names finished stopped moved]:
  assumes "\<And>pos T. length buf \<le> pos \<Longrightarrow> P pos T (T, [], Rest pos)"
    "\<And>pos T T' fs x. pos < length buf \<Longrightarrow> df_packet so buf pos T = (T', fs, x) \<Longrightarrow> (\<And>q. x \<noteq> Continue q) \<Longrightarrow> P pos T (T', fs, x)"
    "\<And>pos T T' fs q T'' gs x. pos < length buf \<Longrightarrow> df_packet so buf pos T = (T', fs, Continue q) \<Longrightarrow>
       df_scan so buf q T' = (T'', gs, x) \<Longrightarrow> P q T' (T'', gs, x) \<Longrightarrow> P pos T (T'', fs @ gs, x)"
  shows "P pos T (df_scan so buf pos T)"
proof (induction "length buf - pos" arbitrary: pos T rule: less_induct)
  case (less pos T)
  obtain T' fs x where p: "df_packet so buf pos T = (T', fs, x)" by (metis prod_cases3)
  consider "length buf \<le> pos" | q where "pos < length buf" "x = Continue q" | "pos < length buf" "\<And>q. x \<noteq> Continue q"
    by (meson not_le)
  then show ?case
  proof cases
    case 1
    then show ?thesis using assms(1) by (simp add: scan_end)
  next
    case (2 q)
    obtain T'' gs y where s: "df_scan so buf q T' = (T'', gs, y)" by (metis prod_cases3)
    have "P q T' (T'', gs, y)"
      using less.hyps [of q T'] df_packet_advances [OF p [unfolded 2(2)]] 2(1) s by (simp add: diff_less_mono2)
    then show ?thesis using assms(3) [OF 2(1) p [unfolded 2(2)] s] scan_Continue [OF 2(1) p [unfolded 2(2)]] s by simp
  next
    case 3
    then show ?thesis using assms(2) [OF 3(1) p 3(2)] scan_stop [OF 3(1) p 3(2)] by simp
  qed
qed

lemma scan_shift:
  "df_scan so (xs @ buf) (length xs + pos) T =
     (let (T', fs, x) = df_scan (so + length xs) buf pos T in (T', fs, shift_next (length xs) x))"
proof -
  define goal where "goal = (\<lambda>pos T r. df_scan so (xs @ buf) (length xs + pos) T = (let (T', fs, x) = r in (T', fs, shift_next (length xs) x)))"
  have "goal pos T (df_scan (so + length xs) buf pos T)"
  proof (induction rule: scan_induct)
    case (finished pos T)
    then show ?case by (simp add: goal_def scan_end)
  next
    case (stopped pos T T' fs x)
    have "df_packet so (xs @ buf) (length xs + pos) T = (T', fs, shift_next (length xs) x)"
      by (simp add: packet_shift stopped(2))
    moreover have "shift_next (length xs) x \<noteq> Continue q" for q using stopped(3) by (cases x) auto
    ultimately show ?case unfolding goal_def using stopped(1) scan_stop [of "length xs + pos" "xs @ buf"] by simp
  next
    case (moved pos T T' fs q T'' gs x)
    have "df_packet so (xs @ buf) (length xs + pos) T = (T', fs, Continue (length xs + q))"
      by (simp add: packet_shift moved(2))
    then show ?case using moved(1,4) scan_Continue [of "length xs + pos" "xs @ buf"] by (simp add: goal_def)
  qed
  then show ?thesis by (simp add: goal_def)
qed

text \<open>Where a scan that ran out of bytes goes on.\<close>

definition resume_at :: "bytes \<Rightarrow> df_next \<Rightarrow> nat" where
  "resume_at buf x = (case x of Rest p \<Rightarrow> p | _ \<Rightarrow> length buf - (if last buf = HEADER_0 then 1 else 0))"

definition starved :: "df_next \<Rightarrow> bool" where
  "starved x = (case x of Rest p \<Rightarrow> True | NoHeader \<Rightarrow> True | _ \<Rightarrow> False)"

lemma scan_skip:
  assumes "findHeader buf pos = findHeader buf q" "pos < length buf" "q < length buf"
  shows "df_scan so buf pos T = df_scan so buf q T"
  using assms by (simp add: df_scan.simps [of so buf pos] df_scan.simps [of so buf q] packet_at [OF assms(1)])

lemma scan_more:
  assumes "df_scan so buf pos T = (T', fs, x)" "starved x" "ys \<noteq> []" "pos \<le> length buf"
  shows "df_scan so (buf @ ys) pos T = (let (T'', gs, y) = df_scan so (buf @ ys) (resume_at buf x) T' in (T'', fs @ gs, y))"
proof -
  define goal where "goal = (\<lambda>pos T r. case r of (T', fs, x) \<Rightarrow> starved x \<longrightarrow> pos \<le> length buf \<longrightarrow>
    df_scan so (buf @ ys) pos T = (let (T'', gs, y) = df_scan so (buf @ ys) (resume_at buf x) T' in (T'', fs @ gs, y)))"
  have "goal pos T (df_scan so buf pos T)"
  proof (induction rule: scan_induct)
    case (finished pos T)
    then show ?case by (simp add: goal_def resume_at_def)
  next
    case (stopped pos T T' fs x)
    show ?case
    proof (cases "x = NoHeader")
      case True
      then have none: "T' = T" "fs = []" "findHeader buf pos = None" using packet_NoHeader stopped(2) by blast+
      have k: "resume_at buf x < length (buf @ ys)" using assms(3) True stopped(1)
        by (cases ys) (auto simp: resume_at_def)
      have "findHeader (buf @ ys) pos = findHeader (buf @ ys) (resume_at buf x)"
        by (rule findHeader_kept [OF none(3) stopped(1)]) (simp add: True resume_at_def)
      then show ?thesis using scan_skip [OF _ _ k] stopped(1) none by (simp add: goal_def)
    next
      case False
      show ?thesis
      proof (cases "\<exists>p. x = Rest p")
        case True
        then obtain p where x: "x = Rest p" by blast
        then have p: "T' = T" "fs = []" "findHeader buf pos = Some p" using packet_Rest stopped(2) by blast+
        have "p < length buf" using findHeader_bounds [OF p(3)] by simp
        moreover have "findHeader (buf @ ys) p = Some p"
          using findHeader_append [OF p(3)] unfolding findHeader_Some by simp
        ultimately show ?thesis
          using scan_skip [of "buf @ ys" pos p so T] findHeader_append [OF p(3), of ys] stopped(1) p x
          by (simp add: goal_def resume_at_def)
      next
        case False
        then show ?thesis using \<open>x \<noteq> NoHeader\<close> stopped(3) by (cases x) (auto simp: goal_def starved_def)
      qed
    qed
  next
    case (moved pos T T' fs q T'' gs x)
    have "df_packet so (buf @ ys) pos T = (T', fs, Continue q)" using moved(2) by (rule packet_more) simp_all
    then have "df_scan so (buf @ ys) pos T = (let (T'', gs, y) = df_scan so (buf @ ys) q T' in (T'', fs @ gs, y))"
      using moved(1) by (intro scan_Continue) simp_all
    then show ?case using moved(4) df_packet_advances [OF moved(2)] by (auto simp: goal_def split_beta Let_def)
  qed
  then show ?thesis using assms by (simp add: goal_def)
qed

lemma scan_throws:
  assumes "df_scan so buf pos T = (T', fs, Unsupported c)"
  shows "df_scan so (buf @ ys) pos T = (T', fs, Unsupported c)"
proof -
  define goal where "goal = (\<lambda>pos T r. case r of (T', fs, x) \<Rightarrow> x = Unsupported c \<longrightarrow> df_scan so (buf @ ys) pos T = (T', fs, x))"
  have "goal pos T (df_scan so buf pos T)"
  proof (induction rule: scan_induct)
    case (finished pos T)
    then show ?case by (simp add: goal_def)
  next
    case (stopped pos T T' fs x)
    show ?case
    proof (cases "x = Unsupported c")
      case True
      then have "df_packet so (buf @ ys) pos T = (T', fs, x)" using stopped(2) by (intro packet_more) simp_all
      then show ?thesis using scan_stop [of pos "buf @ ys"] stopped(1) True by (simp add: goal_def)
    qed (simp add: goal_def)
  next
    case (moved pos T T' fs q T'' gs x)
    have "df_packet so (buf @ ys) pos T = (T', fs, Continue q)" using moved(2) by (rule packet_more) simp_all
    then show ?case using scan_Continue [of pos "buf @ ys"] moved(1,4) by (simp add: goal_def)
  qed
  then show ?thesis using assms by (simp add: goal_def)
qed


section \<open>What is left over is short\<close>

definition df_tables_ok :: "df_tables \<Rightarrow> bool" where
  "df_tables_ok T = (\<forall>(k, cf)\<in>set (tb_formats T). ff_length cf < 256)"

lemma parseFmt_length: "parseFmt body = Some f \<Longrightarrow> ff_length f < 256 \<and> 3 \<le> ff_length f"
  by (auto simp: parseFmt_def Let_def HEADER_BYTES_def split: if_splits)

lemma compile_length: "compileFormat f = Inr cf \<Longrightarrow> ff_length cf = ff_length f \<and> ff_type cf = ff_type f"
  by (auto simp: compileFormat_def split: sum.splits)

lemma captureMetadata_formats: "captureMetadata r T = Some T' \<Longrightarrow> tb_formats T' = tb_formats T"
  by (auto simp: captureMetadata_def captureUnit_def captureMultiplier_def captureFormatUnits_def split: if_splits option.splits)

lemma process_ok:
  assumes "df_tables_ok T" "df_process format body off T = Inr (T', fs)"
  shows "df_tables_ok T'"
proof (cases format)
  case None
  then show ?thesis
    using assms update_subset parseFmt_length compile_length
    by (fastforce simp: df_process_def df_tables_ok_def split: option.splits sum.splits)
next
  case (Some cf)
  then show ?thesis
    using assms captureMetadata_formats by (fastforce simp: df_process_def df_tables_ok_def Let_def split: option.splits)
qed

lemma packet_ok: "df_tables_ok T \<Longrightarrow> df_packet so buf pos T = (T', fs, x) \<Longrightarrow> df_tables_ok T'"
  by (auto simp: df_packet_def df_packet_at_def Let_def dest: process_ok split: option.splits if_splits sum.splits)

lemma length_bound: "df_tables_ok T \<Longrightarrow> packet_length T type = Some n \<Longrightarrow> n < 256"
  by (auto simp: packet_length_def format_for_def FMT_PACKET_BYTES_def HEADER_BYTES_def FMT_BODY_BYTES_def df_tables_ok_def
      split: if_splits dest!: map_of_SomeD)

lemma packet_left: "df_tables_ok T \<Longrightarrow> df_packet so buf pos T = (T', fs, Rest p) \<Longrightarrow> p \<le> length buf \<and> length buf - p < 255"
  using length_bound
  by (auto simp: df_packet_def df_packet_at_def Let_def HEADER_BYTES_def dest!: findHeader_bounds split: option.splits if_splits sum.splits)
    (force+)

lemma scan_left:
  assumes "df_scan so buf 0 T = (T', fs, x)" "df_tables_ok T"
  shows "df_tables_ok T'" "x = Rest p \<Longrightarrow> p \<le> length buf \<and> length buf - p < 255" "x \<noteq> Continue q"
proof -
  define goal where "goal = (\<lambda>pos T r. case r of (T', fs :: df_event list, x) \<Rightarrow> df_tables_ok T \<longrightarrow> pos \<le> length buf \<longrightarrow>
    df_tables_ok T' \<and> (\<forall>p. x = Rest p \<longrightarrow> p \<le> length buf \<and> length buf - p < 255) \<and> (\<forall>q. x \<noteq> Continue q))"
  have "goal 0 T (df_scan so buf 0 T)"
  proof (induction rule: scan_induct)
    case (finished pos T)
    then show ?case by (simp add: goal_def)
  next
    case (stopped pos T T' fs x)
    then show ?case using packet_ok packet_left unfolding goal_def by fast
  next
    case (moved pos T T' fs q T'' gs x)
    then show ?case using packet_ok df_packet_advances [OF moved(2)] unfolding goal_def by fast
  qed
  then show "df_tables_ok T'" "x = Rest p \<Longrightarrow> p \<le> length buf \<and> length buf - p < 255" "x \<noteq> Continue q"
    using assms by (auto simp: goal_def)
qed

section \<open>Chunks\<close>

fun df_feeds :: "bytes list \<Rightarrow> df_decoder \<Rightarrow> df_decoder \<times> df_event list \<times> (char + df_record list)" where
  "df_feeds [] D = (D, [], Inr [])"
| "df_feeds (c # cs) D =
     (case df_feed c D of
        (D', fs, Inl e) \<Rightarrow> (D', fs, Inl e)
      | (D', fs, Inr rs) \<Rightarrow> (case df_feeds cs D' of (D'', gs, r) \<Rightarrow> (D'', fs @ gs, map_sum id ((@) rs) r)))"

definition df_roomy :: "df_decoder \<Rightarrow> bool" where
  "df_roomy D = (df_tables_ok (df_tables D) \<and> 255 \<le> df_maxBufferBytes D)"

lemma feed_starved:
  assumes "chunk \<noteq> []" "df_scan (df_streamOffset D) (df_buffer D @ chunk) 0 (df_tables D) = (T, fs, x)" "starved x"
  shows "df_feed chunk D = (enforceBoundedBuffer (df_consume (resume_at (df_buffer D @ chunk) x)
      (D\<lparr>df_buffer := df_buffer D @ chunk, df_tables := T\<rparr>)), fs, Inr (records_of fs))"
  using assms by (cases x) (simp_all add: df_feed_def df_append_def starved_def resume_at_def Let_def)

text \<open>A feed, without the bound that never applies to a roomy decoder.\<close>

lemma feed_scan:
  assumes "df_roomy D" "chunk \<noteq> []" "df_scan (df_streamOffset D) (df_buffer D @ chunk) 0 (df_tables D) = (T, fs, x)"
  shows "starved x \<Longrightarrow> df_feed chunk D
      = (D\<lparr>df_tables := T, df_streamOffset := df_streamOffset D + resume_at (df_buffer D @ chunk) x,
           df_buffer := drop (resume_at (df_buffer D @ chunk) x) (df_buffer D @ chunk)\<rparr>, fs, Inr (records_of fs))"
    "x = Unsupported c \<Longrightarrow> df_feed chunk D = (D\<lparr>df_tables := T, df_buffer := df_buffer D @ chunk\<rparr>, fs, Inl c)"
    "starved x \<or> (\<exists>c. x = Unsupported c)"
proof -
  note left = scan_left [OF assms(3)]
  have ok: "df_tables_ok (df_tables D)" "255 \<le> df_maxBufferBytes D" using assms(1) by (simp_all add: df_roomy_def)
  show "starved x \<or> (\<exists>c. x = Unsupported c)" using left(3) [OF ok(1)] by (cases x) (auto simp: starved_def)
  show "x = Unsupported c \<Longrightarrow> df_feed chunk D = (D\<lparr>df_tables := T, df_buffer := df_buffer D @ chunk\<rparr>, fs, Inl c)"
    using assms(2,3) by (simp add: df_feed_def df_append_def)
  show "df_feed chunk D
      = (D\<lparr>df_tables := T, df_streamOffset := df_streamOffset D + resume_at (df_buffer D @ chunk) x,
           df_buffer := drop (resume_at (df_buffer D @ chunk) x) (df_buffer D @ chunk)\<rparr>, fs, Inr (records_of fs))" if "starved x"
  proof -
    have "length (df_buffer D @ chunk) - resume_at (df_buffer D @ chunk) x < 255"
      using left(2) [OF ok(1)] that by (cases x) (auto simp: resume_at_def starved_def)
    then show ?thesis using feed_starved [OF assms(2,3) that] ok(2) by (simp add: df_consume_def enforceBoundedBuffer_def)
  qed
qed

lemma resume_bound: "starved x \<Longrightarrow> (\<And>p. x = Rest p \<Longrightarrow> p \<le> length buf) \<Longrightarrow> resume_at buf x \<le> length buf"
  by (cases x) (auto simp: resume_at_def starved_def)

text \<open>Cutting a chunk in two.\<close>

lemma feed_split:
  assumes "df_roomy D" "df_feed (c1 @ c2) D = (D', fs, Inr rs)"
  shows "\<exists>D1 fs1 rs1 fs2 rs2. df_feed c1 D = (D1, fs1, Inr rs1) \<and> df_roomy D1 \<and> df_feed c2 D1 = (D', fs2, Inr rs2) \<and>
    fs = fs1 @ fs2 \<and> rs = rs1 @ rs2"
proof (cases "c1 = [] \<or> c2 = []")
  case True
  then show ?thesis
  proof
    assume "c1 = []"
    then show ?thesis using assms by (simp add: df_feed_def)
  next
    assume c2: "c2 = []"
    obtain T fs' x where s: "df_scan (df_streamOffset D) (df_buffer D @ c1) 0 (df_tables D) = (T, fs', x)" by (metis prod_cases3)
    have "df_roomy D'"
    proof (cases "c1 = []")
      case True
      then show ?thesis using assms c2 by (simp add: df_feed_def)
    next
      case False
      then show ?thesis
        using feed_scan [OF assms(1) False s] scan_left(1) [OF s] assms c2 by (auto simp: df_roomy_def)
    qed
    then show ?thesis using assms c2 by (simp add: df_feed_def [of "[]"])
  qed
next
  case False
  define buf where "buf = df_buffer D @ c1"
  obtain T1 fs1 x1 where s1: "df_scan (df_streamOffset D) buf 0 (df_tables D) = (T1, fs1, x1)" by (metis prod_cases3)
  note f1 = feed_scan [OF assms(1) _ s1 [unfolded buf_def]]
  have ok: "df_tables_ok (df_tables D)" using assms(1) by (simp add: df_roomy_def)
  have "\<nexists>c. x1 = Unsupported c"
  proof
    assume "\<exists>c. x1 = Unsupported c"
    then obtain c where "x1 = Unsupported c" by blast
    then have t: "df_scan (df_streamOffset D) (df_buffer D @ (c1 @ c2)) 0 (df_tables D) = (T1, fs1, Unsupported c)"
      using scan_throws [of _ buf] s1 by (simp add: buf_def)
    show False using feed_scan(2) [OF assms(1) _ t] assms(2) False by simp
  qed
  then have starved: "starved x1" using f1(3) False by blast
  define p where "p = resume_at buf x1"
  have p: "p \<le> length buf" unfolding p_def by (rule resume_bound [OF starved]) (use scan_left(2) [OF s1 ok] in blast)
  define D1 where "D1 = D\<lparr>df_tables := T1, df_streamOffset := df_streamOffset D + p, df_buffer := drop p buf\<rparr>"
  have feed1: "df_feed c1 D = (D1, fs1, Inr (records_of fs1))" using f1(1) starved False by (simp add: D1_def p_def buf_def)
  have roomy: "df_roomy D1" using assms(1) scan_left(1) [OF s1 ok] by (simp add: df_roomy_def D1_def)
  obtain T2 fs2 x2 where s2: "df_scan (df_streamOffset D1) (df_buffer D1 @ c2) 0 (df_tables D1) = (T2, fs2, x2)" by (metis prod_cases3)
  note f2 = feed_scan [OF roomy _ s2]
  have split: "buf @ c2 = take p buf @ (df_buffer D1 @ c2)" "length (take p buf) = p" using p by (simp_all add: D1_def)
  have "df_scan (df_streamOffset D) (buf @ c2) p T1 = (T2, fs2, shift_next p x2)"
    using scan_shift [of "df_streamOffset D" "take p buf" "df_buffer D1 @ c2" 0 T1, folded split(1), unfolded split(2)] s2
    by (simp add: D1_def)
  then have scan: "df_scan (df_streamOffset D) (df_buffer D @ (c1 @ c2)) 0 (df_tables D) = (T2, fs1 @ fs2, shift_next p x2)"
    using scan_more [OF s1 starved, of c2] False by (simp add: buf_def p_def)
  note whole = feed_scan [OF assms(1) _ scan]
  have "\<nexists>c. x2 = Unsupported c" using whole(2) assms(2) False by auto
  then have st2: "starved x2" using f2(3) False by blast
  then have st: "starved (shift_next p x2)" by (cases x2) (simp_all add: starved_def)
  have resume: "resume_at (buf @ c2) (shift_next p x2) = p + resume_at (df_buffer D1 @ c2) x2"
  proof (cases x2)
    case NoHeader
    have "last (buf @ c2) = last (df_buffer D1 @ c2)" "length (df_buffer D1 @ c2) \<noteq> 0" using False by simp_all
    then show ?thesis using NoHeader p by (auto simp: resume_at_def D1_def)
  qed (use st2 in \<open>simp_all add: resume_at_def starved_def\<close>)
  have "drop (p + n) (buf @ c2) = drop n (df_buffer D1 @ c2)" for n
    using p by (simp add: D1_def add.commute flip: drop_drop)
  then have "df_feed c2 D1 = (D', fs2, Inr (records_of fs2)) \<and> fs = fs1 @ fs2 \<and> rs = records_of fs1 @ records_of fs2"
    using whole(1) [OF _ st] f2(1) [OF _ st2] False assms(2) resume
    by (auto simp: buf_def [symmetric] D1_def [symmetric] records_of_def map_filter_def) (simp add: D1_def add.assoc buf_def)
  then show ?thesis using feed1 roomy by blast
qed

lemma feeds_concat:
  "df_roomy D \<Longrightarrow> df_feed (concat cs) D = (D', fs, Inr rs) \<Longrightarrow> df_feeds cs D = (D', fs, Inr rs)"
proof (induction cs arbitrary: D fs rs)
  case Nil
  then show ?case by (simp add: df_feed_def)
next
  case (Cons c cs)
  obtain D1 fs1 rs1 fs2 rs2 where s: "df_feed c D = (D1, fs1, Inr rs1)" "df_roomy D1"
    "df_feed (concat cs) D1 = (D', fs2, Inr rs2)" "fs = fs1 @ fs2" "rs = rs1 @ rs2"
    using feed_split [OF Cons.prems(1), of c "concat cs"] Cons.prems(2) by auto
  then show ?case using Cons.IH [OF s(2,3)] by simp
qed

end
