(* ===== verification/Flash_Log.thy ===== *)
theory Flash_Log
  imports Flash_Stream
begin

text \<open>
  Logs as a flight controller writes them: FMT packets, and records of the formats defined before. What the decoder makes of
  their bytes is \<open>log_events\<close>.
\<close>

section \<open>Cells\<close>

definition number_codes :: "(char \<times> field_kind) list" where
  "number_codes =
     [(CHR ''b'', I8), (CHR ''B'', U8), (CHR ''M'', U8), (CHR ''h'', I16), (CHR ''H'', U16), (CHR ''i'', I32), (CHR ''I'', U32),
      (CHR ''f'', F32), (CHR ''d'', F64)]"

definition text_codes :: "(char \<times> nat) list" where
  "text_codes = [(CHR ''n'', 4), (CHR ''N'', 16), (CHR ''Z'', 64)]"

definition code_size :: "char \<Rightarrow> nat" where
  "code_size c = (case decoderFor c of Inr d \<Rightarrow> fd_size d | Inl e \<Rightarrow> 0)"

definition number_bytes :: "field_kind \<Rightarrow> jsnum \<Rightarrow> bytes" where
  "number_bytes k x =
     (if k = F32 then le_bytes 4 (f32_bits x) else if k = F64 then le_bytes 8 (f64_bits x) else int_bytes (kind_size k) x)"

definition cell_bytes :: "char \<Rightarrow> df_value \<Rightarrow> bytes" where
  "cell_bytes c v =
     (case v of
        DfNum x \<Rightarrow> (case map_of number_codes c of Some k \<Rightarrow> number_bytes k x | None \<Rightarrow> [])
      | DfStr s \<Rightarrow> char_bytes s (code_size c)
      | DfBig i \<Rightarrow> le_bytes 8 (nat (i mod 2 ^ 64))
      | DfArr xs \<Rightarrow> concat (map (int_bytes 2) xs))"

definition text_ok :: "nat \<Rightarrow> string \<Rightarrow> bool" where
  "text_ok n s = (length s \<le> n \<and> list_all (\<lambda>c. char_code c \<noteq> 0) s \<and> str_trim s = s)"

definition cell_ok :: "char \<Rightarrow> df_value \<Rightarrow> bool" where
  "cell_ok c v =
     (case v of
        DfNum x \<Rightarrow> (case map_of number_codes c of Some k \<Rightarrow> num_ok k x | None \<Rightarrow> False)
      | DfStr s \<Rightarrow> (case map_of text_codes c of Some n \<Rightarrow> text_ok n s | None \<Rightarrow> False)
      | DfBig i \<Rightarrow> (c = CHR ''q'' \<and> - (2 ^ 63) \<le> i \<and> i < 2 ^ 63) \<or> (c = CHR ''Q'' \<and> 0 \<le> i \<and> i < 2 ^ 64)
      | DfArr xs \<Rightarrow> c = CHR ''a'' \<and> length xs = 32 \<and> list_all (num_ok I16) xs)"

lemma text_read: "text_ok n s \<Longrightarrow> str_trim (c_string (char_bytes s n)) = s"
  by (simp add: text_ok_def char_bytes_split c_string_chars)

lemma view_sub: "subarray off n body = bs \<Longrightarrow> view_uint n body off = js_nat (le_nat bs)"
  "subarray off n body = bs \<Longrightarrow> view_int n body off = js_int (signed n (le_nat bs))"
  by (simp_all add: view_uint_def view_int_def)

lemma int_view: "num_ok I16 x \<Longrightarrow> js_int (signed 2 (le_nat (int_bytes 2 x))) = x"
  by (auto simp: num_ok_def dest!: int_in_Num intro!: signed_read)

lemma number_view:
  assumes "map_of number_codes c = Some k" "num_ok k x" "decoderFor c = Inr d" "subarray off (fd_size d) body = number_bytes k x"
  shows "fd_decode d body off = DfNum x"
proof -
  have "(c, k) \<in> set number_codes" using assms(1) by (rule map_of_SomeD)
  then show ?thesis
    using assms(2-4)
    by (auto simp: number_codes_def decoderFor_def number_bytes_def num_ok_def kind_size_def f32_read f64_read view_sub
        dest!: int_in_Num intro!: unsigned_read signed_read)
qed


lemma pieces:
  "length xs = n \<Longrightarrow> i < n \<Longrightarrow> (\<And>x. length (f x) = 2) \<Longrightarrow> subarray (i * 2) 2 (concat (map f xs)) = f (xs ! i)"
proof (induction xs arbitrary: i n)
  case (Cons x xs)
  show ?case
  proof (cases i)
    case 0
    then show ?thesis using Cons.prems(3) [of x] by (simp add: subarray_def)
  next
    case (Suc j)
    then show ?thesis using Cons.IH [of "length xs" j] Cons.prems by (simp add: Cons.prems(3))
  qed
qed simp

lemma number_length:
  assumes "map_of number_codes c = Some k" "decoderFor c = Inr d"
  shows "length (number_bytes k x) = fd_size d"
proof -
  have "(c, k) \<in> set number_codes" using assms(1) by (rule map_of_SomeD)
  then show ?thesis using assms(2) by (auto simp: number_codes_def decoderFor_def number_bytes_def kind_size_def)
qed

lemma cell_length:
  assumes "cell_ok c v" "decoderFor c = Inr d"
  shows "length (cell_bytes c v) = fd_size d"
proof (cases v)
  case (DfNum x)
  then show ?thesis using assms number_length by (auto simp: cell_ok_def cell_bytes_def split: option.splits)
next
  case (DfStr s)
  then obtain n where n: "map_of text_codes c = Some n" "text_ok n s"
    using assms(1) by (auto simp: cell_ok_def split: option.splits)
  then have "fd_size d = n" using assms(2) by (auto simp: text_codes_def decoderFor_def split: if_splits)
  then show ?thesis using assms(2) n(2) DfStr by (simp add: cell_bytes_def code_size_def text_ok_def char_bytes_split)
next
  case (DfBig i)
  then show ?thesis using assms by (auto simp: cell_ok_def cell_bytes_def decoderFor_def)
next
  case (DfArr xs)
  then show ?thesis using assms
    by (auto simp: cell_ok_def cell_bytes_def decoderFor_def length_concat comp_def sum_list_triv)
qed

lemma cell_read:
  assumes "cell_ok c v" "decoderFor c = Inr d" "subarray off (fd_size d) body = cell_bytes c v"
  shows "fd_decode d body off = v"
proof (cases v)
  case (DfNum x)
  then obtain k where "map_of number_codes c = Some k" "num_ok k x" "cell_bytes c v = number_bytes k x"
    using assms(1) by (auto simp: cell_ok_def cell_bytes_def split: option.splits)
  then show ?thesis using number_view assms(2,3) DfNum by metis
next
  case (DfStr s)
  then obtain n where n: "map_of text_codes c = Some n" "text_ok n s"
    using assms(1) by (auto simp: cell_ok_def split: option.splits)
  then have "fd_size d = n \<and> fd_decode d body off = DfStr (readViewString body off n)"
    using assms(2) by (auto simp: text_codes_def decoderFor_def split: if_splits)
  then show ?thesis using assms(2,3) n(2) DfStr
    by (simp add: readViewString_def cell_bytes_def code_size_def text_read)
next
  case (DfBig i)
  then show ?thesis using assms big_read [of i] signed_big_read [of i]
    by (auto simp: cell_ok_def cell_bytes_def decoderFor_def)
next
  case (DfArr xs)
  then have c: "c = CHR ''a''" "length xs = 32" "\<And>x. x \<in> set xs \<Longrightarrow> num_ok I16 x"
    using assms(1) by (auto simp: cell_ok_def list_all_iff)
  then have d: "fd_size d = 64" "fd_decode d body off = DfArr (map (\<lambda>i. view_int 2 body (off + i * 2)) [0..<32])"
    using assms(2) by (auto simp: decoderFor_def)
  have "view_int 2 body (off + i * 2) = xs ! i" if "i < 32" for i
  proof -
    have "subarray (off + i * 2) 2 body = subarray (i * 2) 2 (cell_bytes c v)"
      using that subarray_subarray [of "i * 2" 2 64 off body] assms(3) d(1) by simp
    also have "\<dots> = int_bytes 2 (xs ! i)" using that c(2) DfArr by (simp add: cell_bytes_def pieces)
    finally show ?thesis using int_view c that by (simp add: view_sub)
  qed
  then have "map (\<lambda>i. view_int 2 body (off + i * 2)) [0..<32] = xs" using c(2) by (intro nth_equalityI) simp_all
  then show ?thesis using d DfArr by simp
qed

section \<open>Formats and records\<close>

fun join_commas :: "string list \<Rightarrow> string" where
  "join_commas [] = []"
| "join_commas [c] = c"
| "join_commas (c # cs) = c @ CHR '','' # join_commas cs"

definition known_code :: "char \<Rightarrow> bool" where
  "known_code c = (case decoderFor c of Inr d \<Rightarrow> True | Inl e \<Rightarrow> False)"

definition column_ok :: "string \<Rightarrow> bool" where
  "column_ok c = (c \<noteq> [] \<and> CHR '','' \<notin> set c \<and> str_trim c = c)"

text \<open>A format that an FMT packet can hold, and one whose records can be read.\<close>

definition fmt_writable :: "df_format \<Rightarrow> bool" where
  "fmt_writable f =
     (ff_type f < 256 \<and> 3 \<le> ff_length f \<and> ff_length f < 256 \<and> text_ok 4 (ff_name f) \<and> text_ok 16 (ff_format f) \<and>
      text_ok 64 (join_commas (ff_columns f)) \<and> list_all column_ok (ff_columns f))"

definition fmt_ok :: "df_format \<Rightarrow> bool" where
  "fmt_ok f =
     (fmt_writable f \<and> ff_type f \<noteq> FMT_TYPE \<and> ff_length f = 3 + sum_list (map code_size (ff_format f)) \<and>
      list_all known_code (ff_format f) \<and> distinct (ff_columns f) \<and>
      length (ff_columns f) = length (ff_format f) \<and> ff_name f \<notin> {''UNIT'', ''MULT'', ''FMTU''})"

definition fmt_body :: "df_format \<Rightarrow> bytes" where
  "fmt_body f = [of_nat (ff_type f), of_nat (ff_length f)] @ char_bytes (ff_name f) 4 @ char_bytes (ff_format f) 16
     @ char_bytes (join_commas (ff_columns f)) 64"

definition rec_body :: "df_format \<Rightarrow> df_value list \<Rightarrow> bytes" where
  "rec_body f vs = concat (map2 cell_bytes (ff_format f) vs)"

definition rec_ok :: "df_format \<Rightarrow> df_value list \<Rightarrow> bool" where
  "rec_ok f vs = (length vs = length (ff_format f) \<and> list_all2 cell_ok (ff_format f) vs)"

lemma split_nonempty: "split_commas s \<noteq> []"
  by (induction s) (auto simp: Let_def)

lemma split_no_comma: "CHR '','' \<notin> set c \<Longrightarrow> split_commas (c @ s) = (c @ hd (split_commas s)) # tl (split_commas s)"
  by (induction c) (auto simp: Let_def split_nonempty)

lemma split_join: "cs \<noteq> [] \<Longrightarrow> list_all column_ok cs \<Longrightarrow> split_commas (join_commas cs) = cs"
proof (induction cs rule: join_commas.induct)
  case (2 c)
  then show ?case using split_no_comma [of c "[]"] by (simp add: column_ok_def)
next
  case (3 c d cs)
  then show ?case using split_no_comma [of c "CHR '','' # join_commas (d # cs)"] by (simp add: column_ok_def Let_def)
qed simp

lemma columns_read: "list_all column_ok cs \<Longrightarrow> filter (\<lambda>c. 0 < length c) (map str_trim (split_commas (join_commas cs))) = cs"
proof (cases "cs = []")
  case True
  then show ?thesis by (simp add: str_trim_def)
next
  case False
  assume ok: "list_all column_ok cs"
  then have "map str_trim cs = cs" by (intro map_idI) (auto simp: column_ok_def list_all_iff)
  moreover have "filter (\<lambda>c. 0 < length c) cs = cs" using ok by (auto simp: filter_id_conv column_ok_def list_all_iff)
  ultimately show ?thesis using split_join [OF False ok] by simp
qed

lemma length_char_cell: "text_ok n s \<Longrightarrow> length (char_bytes s n) = n"
  by (simp add: text_ok_def char_bytes_split)

lemma of_nat_byte: "n < 256 \<Longrightarrow> unat (of_nat n :: u8) = n"
  by (simp add: unat_of_nat take_bit_eq_mod)

lemma fmt_read:
  assumes "fmt_writable f"
  shows "length (fmt_body f) = FMT_BODY_BYTES" "parseFmt (fmt_body f) = Some f"
proof -
  define ns where "ns = char_bytes (ff_name f) 4"
  define fs where "fs = char_bytes (ff_format f) 16"
  define cs where "cs = char_bytes (join_commas (ff_columns f)) 64"
  have len: "length ns = 4" "length fs = 16" "length cs = 64"
    using assms by (simp_all add: fmt_writable_def ns_def fs_def cs_def length_char_cell)
  have body: "fmt_body f = [of_nat (ff_type f), of_nat (ff_length f)] @ ns @ fs @ cs"
    by (simp add: fmt_body_def ns_def fs_def cs_def)
  show "length (fmt_body f) = FMT_BODY_BYTES" using len by (simp add: body FMT_BODY_BYTES_def)
  have texts: "str_trim (c_string ns) = ff_name f" "str_trim (c_string fs) = ff_format f"
    "str_trim (c_string cs) = join_commas (ff_columns f)"
    using assms by (simp_all add: fmt_writable_def ns_def fs_def cs_def text_read)
  have parts: "take 4 (drop 2 (fmt_body f)) = ns" "take 16 (drop 6 (fmt_body f)) = fs" "take 64 (drop 22 (fmt_body f)) = cs"
    using len by (simp_all add: body numeral_eq_Suc)
  have "df_readString (fmt_body f) 2 4 = ff_name f" "df_readString (fmt_body f) 6 16 = ff_format f"
    "df_readString (fmt_body f) 22 64 = join_commas (ff_columns f)"
    using len parts texts by (simp_all add: df_readString_def body)
  moreover have "fmt_body f ! 0 = of_nat (ff_type f)" "fmt_body f ! 1 = of_nat (ff_length f)" "length (fmt_body f) = 86"
    using len by (simp_all add: body)
  moreover have "ff_type f < 256" "ff_length f < 256" "3 \<le> ff_length f" "list_all column_ok (ff_columns f)"
    using assms by (simp_all add: fmt_writable_def)
  ultimately show "parseFmt (fmt_body f) = Some f"
    using columns_read [of "ff_columns f"] by (simp add: parseFmt_def FMT_BODY_BYTES_def HEADER_BYTES_def of_nat_byte)
qed


lemma ok_writable: "fmt_ok f \<Longrightarrow> fmt_writable f"
  by (simp add: fmt_ok_def)

lemma compile_known:
  assumes "list_all known_code cs"
  shows "decoders_for cs = Inr (map (\<lambda>c. projr (decoderFor c)) cs)"
  using assms by (induction cs) (auto simp: known_code_def split: sum.splits)

lemma record_cells:
  assumes "list_all2 cell_ok cs vs" "list_all known_code cs" "length columns = i + length cs" "distinct columns"
    "fst ` set fs \<inter> set (drop i columns) = {}"
  shows "decode_cells columns (pre @ concat (map2 cell_bytes cs vs)) i (length pre) (map (\<lambda>c. projr (decoderFor c)) cs) fs
    = fs @ zip (drop i columns) vs"
  using assms
proof (induction cs arbitrary: vs pre i fs)
  case (Cons c cs)
  obtain v ws where vs: "vs = v # ws" "cell_ok c v" "list_all2 cell_ok cs ws" using Cons.prems(1) by (auto simp: list_all2_Cons1)
  obtain d where d: "decoderFor c = Inr d" using Cons.prems(2) by (auto simp: known_code_def split: sum.splits)
  define rest where "rest = concat (map2 cell_bytes cs ws)"
  define body where "body = pre @ cell_bytes c v @ rest"
  have len: "length (cell_bytes c v) = fd_size d" using vs(2) d by (rule cell_length)
  have sub: "subarray (length pre) (fd_size d) body = cell_bytes c v" by (simp add: body_def subarray_def len)
  have read: "fd_decode d body (length pre) = v" using cell_read [OF vs(2) d sub] .
  have i: "i < length columns" using Cons.prems(3) by simp
  then have col: "column_name columns i = columns ! i" "drop i columns = columns ! i # drop (i + 1) columns"
    by (simp_all add: column_name_def Cons_nth_drop_Suc)
  have new: "columns ! i \<notin> fst ` set fs" using Cons.prems(5) col(2) by auto
  have "columns ! i \<notin> set (drop (i + 1) columns)" using Cons.prems(4) col(2) by (metis distinct.simps(2) distinct_drop)
  then have "decode_cells columns ((pre @ cell_bytes c v) @ rest) (i + 1) (length (pre @ cell_bytes c v))
      (map (\<lambda>c. projr (decoderFor c)) cs) (fs @ [(columns ! i, v)]) = (fs @ [(columns ! i, v)]) @ zip (drop (i + 1) columns) ws"
    unfolding rest_def by (intro Cons.IH) (use Cons.prems vs(3) col(2) in auto)
  then show ?case
    using len read col new d by (simp add: vs(1) body_def [symmetric] rest_def [symmetric]) (simp add: body_def update_new)
qed simp


section \<open>Logs\<close>

datatype log_item = Fmt df_format | Rec nat "df_value list"

fun item_bytes :: "(nat \<rightharpoonup> df_format) \<Rightarrow> log_item \<Rightarrow> bytes" where
  "item_bytes F (Fmt f) = [HEADER_0, HEADER_1, of_nat FMT_TYPE] @ fmt_body f"
| "item_bytes F (Rec t vs) = [HEADER_0, HEADER_1, of_nat t] @ rec_body (the (F t)) vs"

fun item_ok :: "(nat \<rightharpoonup> df_format) \<Rightarrow> log_item \<Rightarrow> bool" where
  "item_ok F (Fmt f) = fmt_ok f"
| "item_ok F (Rec t vs) = (case F t of Some f \<Rightarrow> rec_ok f vs | None \<Rightarrow> False)"

fun item_event :: "nat \<Rightarrow> (nat \<rightharpoonup> df_format) \<Rightarrow> log_item \<Rightarrow> df_event" where
  "item_event off F (Fmt f) = OnFormat f"
| "item_event off F (Rec t vs) =
     (let f = the (F t) in OnRecord \<lparr>dr_type = t, dr_name = ff_name f, dr_offset = off, dr_length = ff_length f,
        dr_fields = zip (ff_columns f) vs, dr_units = None\<rparr>)"

fun item_formats :: "log_item \<Rightarrow> (nat \<rightharpoonup> df_format) \<Rightarrow> (nat \<rightharpoonup> df_format)" where
  "item_formats (Fmt f) F = F(ff_type f \<mapsto> f)"
| "item_formats (Rec t vs) F = F"

fun log_bytes :: "(nat \<rightharpoonup> df_format) \<Rightarrow> log_item list \<Rightarrow> bytes" where
  "log_bytes F [] = []"
| "log_bytes F (it # its) = item_bytes F it @ log_bytes (item_formats it F) its"

fun log_is_ok :: "(nat \<rightharpoonup> df_format) \<Rightarrow> log_item list \<Rightarrow> bool" where
  "log_is_ok F [] = True"
| "log_is_ok F (it # its) = (item_ok F it \<and> log_is_ok (item_formats it F) its)"

fun log_events :: "nat \<Rightarrow> (nat \<rightharpoonup> df_format) \<Rightarrow> log_item list \<Rightarrow> df_event list" where
  "log_events off F [] = []"
| "log_events off F (it # its) = item_event off F it # log_events (off + length (item_bytes F it)) (item_formats it F) its"

text \<open>The decoder knows the formats \<open>F\<close>.\<close>

definition knows :: "(nat \<rightharpoonup> df_format) \<Rightarrow> df_tables \<Rightarrow> bool" where
  "knows F T = (tb_formatUnits T = [] \<and> (\<forall>t. map_of (tb_formats T) t = map_option (\<lambda>f. projr (compileFormat f)) (F t)) \<and>
     (\<forall>t f. F t = Some f \<longrightarrow> ff_type f = t \<and> fmt_ok f))"

lemma compile_ok:
  assumes "fmt_ok f"
  shows "\<exists>cf. compileFormat f = Inr cf \<and> cf_decoders cf = map (\<lambda>c. projr (decoderFor c)) (ff_format f) \<and> ff_type cf = ff_type f \<and>
    ff_length cf = ff_length f \<and> ff_name cf = ff_name f \<and> ff_columns cf = ff_columns f"
  using assms by (simp add: compileFormat_def compile_known fmt_ok_def)

lemma rec_length:
  assumes "list_all2 cell_ok cs vs" "list_all known_code cs"
  shows "length (concat (map2 cell_bytes cs vs)) = sum_list (map code_size cs)"
  using assms
proof (induction rule: list_all2_induct)
  case (Cons c cs v vs)
  then obtain d where "decoderFor c = Inr d" by (auto simp: known_code_def split: sum.splits)
  then show ?case using Cons cell_length [of c v d] by (simp add: code_size_def)
qed simp

lemma item_packet:
  assumes "knows F T" "item_ok F it"
  shows "\<exists>T'. knows (item_formats it F) T' \<and>
    df_packet so (item_bytes F it @ rest) 0 T = (T', [item_event so F it], Continue (length (item_bytes F it)))"
proof (cases it)
  case (Fmt f)
  then have ok: "fmt_ok f" using assms(2) by simp
  obtain cf where cf: "compileFormat f = Inr cf" "ff_type cf = ff_type f" using compile_ok [OF ok] by blast
  define T' where "T' = T\<lparr>tb_formats := AList.update (ff_type f) cf (tb_formats T)\<rparr>"
  have k: "knows (F(ff_type f \<mapsto> f)) T'" using assms(1) ok cf by (auto simp: knows_def T'_def update_conv')
  define buf where "buf = item_bytes F it @ rest"
  have buf: "buf = [HEADER_0, HEADER_1, of_nat FMT_TYPE] @ fmt_body f @ rest" by (simp add: buf_def Fmt)
  have len: "length (fmt_body f) = 86" using fmt_read(1) [OF ok_writable [OF ok]] by (simp add: FMT_BODY_BYTES_def)
  have hdr: "findHeader buf 0 = Some 0" by (subst findHeader.simps) (simp add: buf)
  have sub: "subarray 3 86 buf = fmt_body f" using len by (simp add: buf subarray_def)
  have type: "unat (buf ! 2) = FMT_TYPE" by (simp add: buf FMT_TYPE_def)
  have c: "FMT_PACKET_BYTES = 89" "HEADER_BYTES = 3" by (simp_all add: FMT_PACKET_BYTES_def HEADER_BYTES_def FMT_BODY_BYTES_def)
  have long: "89 \<le> length buf" using len by (simp add: buf)
  have process: "df_process None (fmt_body f) so T = Inr (T', [OnFormat f])"
    using cf fmt_read(2) [OF ok_writable [OF ok]] by (simp add: df_process_def T'_def)
  have "df_packet so buf 0 T = (T', [OnFormat f], Continue 89)"
    unfolding df_packet_def hdr option.case df_packet_at_def Let_def add_0 type packet_length_def format_for_def c if_True simp_thms
    using long sub process by simp
  then show ?thesis using k len Fmt by (auto simp: buf_def)
next
  case (Rec t vs)
  then obtain f where f: "F t = Some f" "rec_ok f vs" using assms(2) by (auto split: option.splits)
  then have t: "ff_type f = t" "fmt_ok f" using assms(1) by (auto simp: knows_def)
  obtain cf where cf: "compileFormat f = Inr cf" "cf_decoders cf = map (\<lambda>c. projr (decoderFor c)) (ff_format f)"
    "ff_type cf = t" "ff_length cf = ff_length f" "ff_name cf = ff_name f" "ff_columns cf = ff_columns f"
    using compile_ok [OF t(2)] t(1) by blast
  have lookup: "map_of (tb_formats T) t = Some cf" "tb_formatUnits T = []" using assms(1) f(1) cf(1) by (auto simp: knows_def)
  define buf where "buf = item_bytes F it @ rest"
  have buf: "buf = [HEADER_0, HEADER_1, of_nat t] @ rec_body f vs @ rest" by (simp add: buf_def Rec f(1))
  have len: "3 + length (rec_body f vs) = ff_length f"
    using f(2) t(2) rec_length by (simp add: rec_body_def rec_ok_def fmt_ok_def)
  have hdr: "findHeader buf 0 = Some 0" by (subst findHeader.simps) (simp add: buf)
  have body: "subarray 3 (ff_length f - 3) buf = rec_body f vs" using len by (simp add: buf subarray_def flip: len)
  have type: "unat (buf ! 2) = t" "t \<noteq> FMT_TYPE" using t of_nat_byte [of t] by (simp_all add: buf fmt_ok_def fmt_writable_def)
  have "decode_cells (ff_columns f) ([] @ concat (map2 cell_bytes (ff_format f) vs)) 0 (length ([] :: bytes))
      (map (\<lambda>c. projr (decoderFor c)) (ff_format f)) [] = [] @ zip (drop 0 (ff_columns f)) vs"
    by (rule record_cells) (use f(2) t(2) in \<open>simp_all add: rec_ok_def fmt_ok_def\<close>)
  then have dec: "decodeRecord cf (rec_body f vs) so = \<lparr>dr_type = t, dr_name = ff_name f, dr_offset = so, dr_length = ff_length f,
      dr_fields = zip (ff_columns f) vs, dr_units = None\<rparr>"
    by (simp add: decodeRecord_def cf rec_body_def)
  have process: "df_process (Some cf) (rec_body f vs) so T = Inr (T, [item_event so F it])"
    using t(2) lookup(2) f(1) Rec by (simp add: df_process_def with_units_def dec captureMetadata_def fmt_ok_def)
  have "length buf \<ge> ff_length f" "length buf \<ge> 3" "ff_length f \<ge> 3" using len by (simp_all add: buf flip: len)
  then have "df_packet so buf 0 T = (T, [item_event so F it], Continue (ff_length f))"
    unfolding df_packet_def hdr option.case df_packet_at_def Let_def add_0 type(1) packet_length_def format_for_def HEADER_BYTES_def
    using type(2) lookup(1) cf(4) process body by simp
  moreover have "length (item_bytes F it) = ff_length f" using len Rec f(1) by simp
  moreover have "knows (item_formats it F) T" using assms(1) Rec by simp
  ultimately show ?thesis by (auto simp: buf_def)
qed

lemma item_positive: "0 < length (item_bytes F it)"
  by (cases it) simp_all

lemma log_scan:
  "knows F T \<Longrightarrow> log_is_ok F its \<Longrightarrow> \<exists>T'. df_scan so (log_bytes F its) 0 T = (T', log_events so F its, Rest (length (log_bytes F its)))"
proof (induction its arbitrary: so F T)
  case Nil
  then show ?case by (simp add: scan_end)
next
  case (Cons it its)
  define b where "b = item_bytes F it"
  define rest where "rest = log_bytes (item_formats it F) its"
  obtain T1 where T1: "knows (item_formats it F) T1" "df_packet so (b @ rest) 0 T = (T1, [item_event so F it], Continue (length b))"
    using item_packet [of F T it so rest] Cons.prems unfolding b_def by auto
  obtain T2 where T2: "df_scan (so + length b) rest 0 T1
      = (T2, log_events (so + length b) (item_formats it F) its, Rest (length rest))"
    using Cons.IH [OF T1(1)] Cons.prems(2) unfolding rest_def by auto
  have "df_scan so (b @ rest) (length b) T1 = (T2, log_events (so + length b) (item_formats it F) its, Rest (length b + length rest))"
    using scan_shift [of so b rest 0 T1] T2 by simp
  then have "df_scan so (b @ rest) 0 T = (T2, item_event so F it # log_events (so + length b) (item_formats it F) its, Rest (length b + length rest))"
    using scan_Continue [OF _ T1(2)] item_positive [of F it] by (simp add: b_def)
  then show ?case by (simp add: b_def [symmetric] rest_def [symmetric])
qed

end
