(* ===== verification/Flash_Properties.thy ===== *)
theory Flash_Properties
  imports Flash_Log
begin

text \<open>What the decoder of DataFlash logs guarantees, and what it does not.\<close>

lemma create_roomy: "df_roomy (createDecoder None)"
  by (simp add: df_roomy_def df_tables_ok_def createDecoder_def no_tables_def DEFAULT_MAX_BUFFER_BYTES_def)

text \<open>C30. A log of FMT packets and of records of the formats defined before them (numbers, integers of 64 bits, texts and
  arrays), however it is cut into chunks, is decoded to exactly its formats and records, in order, each with the values that
  were written under the names of its columns and with its place in the stream; nothing is left over. The logs are those over the
  format characters other than c, C, e, E (scaled by a hundredth) and L (scaled degrees), and without the packets UNIT, MULT and
  FMTU, which carry the metadata of units.\<close>

theorem flash_log_round_trip:
  assumes "log_is_ok Map.empty its" "concat cs = log_bytes Map.empty its"
  shows "\<exists>D. df_feeds cs (createDecoder None) = (D, log_events 0 Map.empty its, Inr (records_of (log_events 0 Map.empty its))) \<and>
    df_buffer D = [] \<and> df_streamOffset D = length (concat cs)"
proof -
  define D0 where "D0 = createDecoder None"
  have D0: "df_buffer D0 = []" "df_streamOffset D0 = 0" "df_tables D0 = no_tables" by (simp_all add: D0_def createDecoder_def)
  have "knows Map.empty no_tables" by (simp add: knows_def no_tables_def)
  then obtain T where T: "df_scan 0 (concat cs) 0 no_tables = (T, log_events 0 Map.empty its, Rest (length (concat cs)))"
    using log_scan [OF _ assms(1)] assms(2) by metis
  have "\<exists>D. df_feed (concat cs) D0 = (D, log_events 0 Map.empty its, Inr (records_of (log_events 0 Map.empty its))) \<and>
      df_buffer D = [] \<and> df_streamOffset D = length (concat cs)"
  proof (cases "concat cs = []")
    case True
    then have "its = []" using assms(2) item_positive by (cases its) auto
    then show ?thesis using True D0 by (simp add: df_feed_def records_of_def List.map_filter_def)
  next
    case False
    then show ?thesis
      using feed_scan(1) [of D0 "concat cs" T] create_roomy T D0 by (simp add: D0_def [symmetric] starved_def resume_at_def)
  qed
  then show ?thesis using feeds_concat [OF create_roomy] by (auto simp: D0_def)
qed

definition sample_format :: df_format where
  "sample_format = \<lparr>ff_type = 5, ff_length = 10, ff_name = ''BAT'', ff_format = ''Bhn'', ff_columns = [''Id'', ''Temp'', ''Tag'']\<rparr>"

definition sample_log :: "log_item list" where
  "sample_log = [Fmt sample_format, Rec 5 [DfNum (js_int 7), DfNum (js_int (- 40)), DfStr ''ok'']]"

theorem flash_log_round_trip_witness:
  "\<exists>D. df_feeds (map (\<lambda>b. [b]) (log_bytes Map.empty sample_log)) (createDecoder None)
      = (D, log_events 0 Map.empty sample_log, Inr (records_of (log_events 0 Map.empty sample_log))) \<and>
    df_buffer D = [] \<and> df_streamOffset D = length (concat (map (\<lambda>b. [b]) (log_bytes Map.empty sample_log)))"
proof (rule flash_log_round_trip)
  show "log_is_ok Map.empty sample_log"
    by (simp add: sample_log_def sample_format_def fmt_ok_def fmt_writable_def rec_ok_def cell_ok_def number_codes_def text_codes_def num_ok_def text_ok_def
        known_code_def column_ok_def code_size_def decoderFor_def FMT_TYPE_def str_trim_def is_space_def char_code_def)
  show "concat (map (\<lambda>b. [b]) (log_bytes Map.empty sample_log)) = log_bytes Map.empty sample_log"
    by (induction "log_bytes Map.empty sample_log") simp_all
qed

text \<open>C31. For any bytes, garbage included, that are fed whole without an exception (no refused format): when the decoder may keep
  255 bytes, feeding them in chunks yields the same events, the same records and the same decoder as feeding them whole.\<close>

theorem flash_chunks_irrelevant:
  assumes "df_roomy D" "df_feed (concat cs) D = (D', fs, Inr rs)"
  shows "df_feeds cs D = (D', fs, Inr rs)"
  using assms by (rule feeds_concat)

theorem flash_chunks_irrelevant_witness:
  "df_feeds [[163], [149, 7], [163]] (createDecoder None)
     = (createDecoder None\<lparr>df_buffer := [163], df_streamOffset := 3\<rparr>, [], Inr [])"
proof (rule flash_chunks_irrelevant [OF create_roomy])
  have f: "findHeader [163, 149, 7, 163] 0 = Some 0" "findHeader [163, 149, 7, 163] 1 = None"
    by (simp_all add: findHeader.simps HEADER_0_def HEADER_1_def)
  then have "df_scan 0 [163, 149, 7, 163] 0 no_tables = (no_tables, [], NoHeader)"
    by (simp add: df_scan.simps df_packet_def df_packet_at_def HEADER_BYTES_def packet_length_def format_for_def FMT_TYPE_def no_tables_def)
  then show "df_feed (concat [[163], [149, 7], [163]]) (createDecoder None)
      = (createDecoder None\<lparr>df_buffer := [163], df_streamOffset := 3\<rparr>, [], Inr [])"
    by (simp add: df_feed_def df_append_def createDecoder_def df_consume_def enforceBoundedBuffer_def HEADER_0_def records_of_def
        List.map_filter_def DEFAULT_MAX_BUFFER_BYTES_def Let_def FMT_PACKET_BYTES_def HEADER_BYTES_def FMT_BODY_BYTES_def)
qed

lemma bounded_enforced: "length (df_buffer (enforceBoundedBuffer D)) \<le> df_maxBufferBytes D"
  "df_maxBufferBytes (enforceBoundedBuffer D) = df_maxBufferBytes D"
  "df_streamOffset (enforceBoundedBuffer D) + length (df_buffer (enforceBoundedBuffer D)) = df_streamOffset D + length (df_buffer D)"
  by (simp_all add: enforceBoundedBuffer_def Let_def)

lemma feed_bounded:
  assumes "df_feed chunk D = (D', fs, Inr rs)" "df_tables_ok (df_tables D)" "length (df_buffer D) \<le> df_maxBufferBytes D"
  shows "length (df_buffer D') \<le> df_maxBufferBytes D' \<and> df_tables_ok (df_tables D') \<and>
    df_streamOffset D' + length (df_buffer D') = df_streamOffset D + length (df_buffer D) + length chunk"
proof (cases "chunk = []")
  case True
  then show ?thesis using assms by (simp add: df_feed_def)
next
  case False
  define buf where "buf = df_buffer D @ chunk"
  obtain T gs x where s: "df_scan (df_streamOffset D) buf 0 (df_tables D) = (T, gs, x)" by (metis prod_cases3)
  note left = scan_left [OF s assms(2)]
  have x: "starved x"
    using left(3) assms(1) False s by (cases x) (auto simp: df_feed_def df_append_def starved_def buf_def)
  have "resume_at buf x \<le> length buf" by (rule resume_bound [OF x]) (use left(2) in blast)
  define E where "E = df_consume (resume_at buf x) (D\<lparr>df_buffer := buf, df_tables := T\<rparr>)"
  have "D' = enforceBoundedBuffer E" using feed_starved [OF False s [unfolded buf_def] x] assms(1) by (simp add: buf_def E_def)
  moreover have "df_tables (enforceBoundedBuffer E) = T" by (simp add: enforceBoundedBuffer_def Let_def E_def df_consume_def)
  moreover have "df_maxBufferBytes E = df_maxBufferBytes D" by (simp add: E_def df_consume_def)
  moreover have "df_streamOffset E + length (df_buffer E) = df_streamOffset D + length buf"
    using \<open>resume_at buf x \<le> length buf\<close> by (simp add: E_def df_consume_def)
  ultimately show ?thesis using left(1) bounded_enforced [of E] by (simp add: buf_def)
qed

lemma feeds_bounded:
  assumes "df_feeds cs D = (D', fs, Inr rs)" "df_tables_ok (df_tables D)" "length (df_buffer D) \<le> df_maxBufferBytes D"
  shows "length (df_buffer D') \<le> df_maxBufferBytes D' \<and>
    df_streamOffset D' + length (df_buffer D') = df_streamOffset D + length (df_buffer D) + length (concat cs)"
  using assms
proof (induction cs arbitrary: D fs rs)
  case (Cons c cs)
  obtain D1 fs1 rs1 fs2 rs2 where s: "df_feed c D = (D1, fs1, Inr rs1)" "df_feeds cs D1 = (D', fs2, Inr rs2)"
    using Cons.prems(1) by (auto split: prod.splits sum.splits simp: map_sum_def)
  then show ?case using feed_bounded [OF s(1) Cons.prems(2,3)] Cons.IH [OF s(2)] by simp
qed simp

text \<open>C32. Whatever is fed and whatever the bound: as long as no format is refused, the decoder keeps no more bytes than its bound,
  and accounts for every byte: those it went past (its offset in the stream) and those it keeps are those it was fed.\<close>

theorem flash_carry_is_bounded:
  assumes "df_feeds cs (createDecoder bound) = (D, fs, Inr rs)"
  shows "length (df_buffer D) \<le> df_maxBufferBytes D \<and> df_streamOffset D + length (df_buffer D) = length (concat cs)"
  using feeds_bounded [OF assms] by (simp add: createDecoder_def df_tables_ok_def no_tables_def)

theorem flash_carry_is_bounded_witness:
  "length (df_buffer (createDecoder None\<lparr>df_buffer := [163], df_streamOffset := 3\<rparr>)) \<le> df_maxBufferBytes (createDecoder None)"
  using flash_carry_is_bounded [OF feeds_concat [OF create_roomy, of "[[163, 149, 7, 163]]"], of _ "[]" "[]"]
  by (simp add: createDecoder_def DEFAULT_MAX_BUFFER_BYTES_def)

lemma unknown_scan:
  assumes "buf = [HEADER_0, HEADER_1, of_nat FMT_TYPE] @ body @ rest" "length body = FMT_BODY_BYTES"
    and "parseFmt body = Some f" "compileFormat f = Inl c"
  shows "df_scan so buf 0 T = (T, [], Unsupported c)"
proof -
  have hdr: "findHeader buf 0 = Some 0" by (subst findHeader.simps) (simp add: assms(1))
  have type: "unat (buf ! 2) = FMT_TYPE" by (simp add: assms(1) FMT_TYPE_def)
  have n: "FMT_PACKET_BYTES = 89" "HEADER_BYTES = 3" by (simp_all add: FMT_PACKET_BYTES_def HEADER_BYTES_def FMT_BODY_BYTES_def)
  have sub: "subarray 3 86 buf = body" "89 \<le> length buf" using assms(1,2) by (simp_all add: subarray_def FMT_BODY_BYTES_def)
  have process: "df_process None body so T = Inl c" using assms(3,4) by (simp add: df_process_def)
  have "df_packet so buf 0 T = (T, [], Unsupported c)"
    unfolding df_packet_def hdr option.case df_packet_at_def Let_def add_0 type packet_length_def format_for_def n if_True simp_thms
    using sub process by simp
  then show ?thesis by (intro scan_stop) (use sub(2) in auto)
qed

lemma unknown_feed:
  assumes "df_buffer D @ chunk = [HEADER_0, HEADER_1, of_nat FMT_TYPE] @ body @ rest" "length body = FMT_BODY_BYTES"
    and "parseFmt body = Some f" "compileFormat f = Inl c" "chunk \<noteq> []"
  shows "df_feed chunk D = (D\<lparr>df_buffer := df_buffer D @ chunk\<rparr>, [], Inl c)"
  using unknown_scan [OF assms(1-4)] assms(5) by (simp add: df_feed_def df_append_def)

text \<open>C33. When the buffer begins with an FMT packet that announces a format with an unknown character, the decoder throws and keeps the packet: every later
  chunk throws again, no record is ever returned any more, and the buffer grows with all that is fed, past any bound.\<close>

theorem flash_unknown_code_blocks:
  assumes "df_buffer D = [HEADER_0, HEADER_1, of_nat FMT_TYPE] @ body @ rest" "length body = FMT_BODY_BYTES"
    and "parseFmt body = Some f" "compileFormat f = Inl c" "list_all (\<lambda>ch. ch \<noteq> []) cs" "chunk \<noteq> []"
  shows "df_feed chunk (foldl (\<lambda>D ch. fst (df_feed ch D)) D cs) = (D\<lparr>df_buffer := df_buffer D @ concat cs @ chunk\<rparr>, [], Inl c)"
proof -
  have "foldl (\<lambda>D ch. fst (df_feed ch D)) D cs = D\<lparr>df_buffer := df_buffer D @ concat cs\<rparr>"
    using assms(1,5)
  proof (induction cs arbitrary: D rest)
    case (Cons ch cs)
    have "df_feed ch D = (D\<lparr>df_buffer := df_buffer D @ ch\<rparr>, [], Inl c)"
      by (rule unknown_feed [OF _ assms(2-4)]) (use Cons.prems in auto)
    then show ?case using Cons.IH [of "D\<lparr>df_buffer := df_buffer D @ ch\<rparr>" "rest @ ch"] Cons.prems by simp
  qed simp
  moreover have "df_feed chunk (D\<lparr>df_buffer := df_buffer D @ concat cs\<rparr>)
      = (D\<lparr>df_buffer := df_buffer D @ concat cs, df_buffer := df_buffer D @ concat cs @ chunk\<rparr>, [], Inl c)"
    using unknown_feed [of "D\<lparr>df_buffer := df_buffer D @ concat cs\<rparr>" chunk body "rest @ concat cs @ chunk", OF _ assms(2-4) assms(6)] assms(1)
    by simp
  ultimately show ?thesis by simp
qed

definition refused_format :: df_format where
  "refused_format = \<lparr>ff_type = 9, ff_length = 10, ff_name = ''X'', ff_format = ''?'', ff_columns = [''A'']\<rparr>"

theorem flash_unknown_code_blocks_witness:
  "let D = createDecoder None\<lparr>df_buffer := [HEADER_0, HEADER_1, of_nat FMT_TYPE] @ fmt_body refused_format\<rparr>
   in df_feed [1] (foldl (\<lambda>D ch. fst (df_feed ch D)) D [[2, 3]]) = (D\<lparr>df_buffer := df_buffer D @ [2, 3, 1]\<rparr>, [], Inl (CHR 0x3F))"
proof -
  define D where "D = createDecoder None\<lparr>df_buffer := [HEADER_0, HEADER_1, of_nat FMT_TYPE] @ fmt_body refused_format\<rparr>"
  have "fmt_writable refused_format"
    by (simp add: fmt_writable_def refused_format_def text_ok_def column_ok_def str_trim_def is_space_def char_code_def)
  note read = fmt_read [OF this]
  moreover have "compileFormat refused_format = Inl (CHR 0x3F)"
    by (simp add: compileFormat_def refused_format_def decoderFor_def)
  ultimately show ?thesis
    using flash_unknown_code_blocks [of D "fmt_body refused_format" "[]" refused_format "CHR 0x3F" "[[2, 3]]" "[1]"]
    by (simp add: D_def)
qed

end
