(* ===== verification/Log_Query.thy ===== *)
theory Log_Query
  imports Log_Expression Data_Flash
begin

text \<open>
  \<open>src/data/log-query\<close> (\<open>types.ts\<close>, \<open>downsample.ts\<close>, \<open>engine.ts\<close>): the columnar index over decoded logs and its queries. A
  \<open>Float64Array\<close> is a list of numbers, an index a natural number (products of indices are below \<open>2 ^ 53\<close>, where the
  arithmetic of the code is exact). The list of descriptors, ordered by the locale, is left out.
\<close>

section \<open>Types\<close>

record log_descriptor =
  ld_message :: string
  ld_field :: string
  ld_unit :: "string option"

record log_range =
  lr_fromUs :: "jsnum option"
  lr_toUs :: "jsnum option"

record log_point =
  lp_t :: jsnum
  lp_min :: jsnum
  lp_max :: jsnum
  lp_first :: jsnum
  lp_last :: jsnum
  lp_mean :: jsnum
  lp_count :: nat
  lp_value :: "jsnum option"

section \<open>Slices\<close>

function lower_from :: "jsnum list \<Rightarrow> jsnum \<Rightarrow> nat \<Rightarrow> nat \<Rightarrow> nat" where
  "lower_from values target low high =
     (if low < high then
        let mid = low + (high - low) div 2
        in if js_lt (values ! mid) target then lower_from values target (mid + 1) high else lower_from values target low mid
      else low)"
  by auto
termination lower_from by (relation "measure (\<lambda>(vs, x, low, high). high - low)") auto

function upper_from :: "jsnum list \<Rightarrow> jsnum \<Rightarrow> nat \<Rightarrow> nat \<Rightarrow> nat" where
  "upper_from values target low high =
     (if low < high then
        let mid = low + (high - low) div 2
        in if js_le (values ! mid) target then upper_from values target (mid + 1) high else upper_from values target low mid
      else low)"
  by auto
termination upper_from by (relation "measure (\<lambda>(vs, x, low, high). high - low)") auto

declare lower_from.simps [simp del] upper_from.simps [simp del]

definition lowerBound :: "jsnum list \<Rightarrow> jsnum \<Rightarrow> nat" where
  "lowerBound values target = lower_from values target 0 (length values)"

definition upperBound :: "jsnum list \<Rightarrow> jsnum \<Rightarrow> nat" where
  "upperBound values target = upper_from values target 0 (length values)"

definition rangeBounds :: "jsnum list \<Rightarrow> log_range option \<Rightarrow> nat \<times> nat" where
  "rangeBounds timesUs rng =
     (let from = (case Option.bind rng lr_fromUs of Some x \<Rightarrow> x | None \<Rightarrow> NegInf);
          to = (case Option.bind rng lr_toUs of Some x \<Rightarrow> x | None \<Rightarrow> PosInf)
      in if \<not> js_is_finite from \<and> \<not> js_is_finite to then (0, length timesUs)
         else if js_lt to from then (0, 0)
         else
           let start = (if js_is_finite from then lowerBound timesUs from else 0);
               stop = (if js_is_finite to then upperBound timesUs to else length timesUs)
           in (start, max start stop))"

definition full_point :: "jsnum list \<Rightarrow> jsnum list \<Rightarrow> nat \<Rightarrow> log_point" where
  "full_point timesUs values i =
     (let v = values ! i
      in \<lparr>lp_t = timesUs ! i, lp_min = v, lp_max = v, lp_first = v, lp_last = v, lp_mean = v, lp_count = 1, lp_value = Some v\<rparr>)"

definition fullResolution :: "jsnum list \<Rightarrow> jsnum list \<Rightarrow> nat \<Rightarrow> nat \<Rightarrow> log_point list" where
  "fullResolution timesUs values start stop = map (full_point timesUs values) [start..<stop]"

record log_bucket =
  lb_last :: jsnum
  lb_min :: jsnum
  lb_max :: jsnum
  lb_sum :: jsnum
  lb_finiteCount :: nat

definition bucket_value :: "jsnum \<Rightarrow> log_bucket \<Rightarrow> log_bucket" where
  "bucket_value value b =
     (let b = (if js_lt value (lb_min b) then b\<lparr>lb_min := value\<rparr> else b);
          b = (if js_lt (lb_max b) value then b\<lparr>lb_max := value\<rparr> else b);
          b = (if js_is_finite value then b\<lparr>lb_sum := js_add (lb_sum b) value, lb_finiteCount := lb_finiteCount b + 1\<rparr> else b)
      in b\<lparr>lb_last := value\<rparr>)"

definition bucket_point :: "jsnum list \<Rightarrow> jsnum list \<Rightarrow> nat \<Rightarrow> nat \<Rightarrow> log_point" where
  "bucket_point timesUs values bucketStart bucketEnd =
     (let first = values ! bucketStart;
          b = fold (\<lambda>i. bucket_value (values ! i)) [bucketStart..<bucketEnd]
                \<lparr>lb_last = first, lb_min = first, lb_max = first, lb_sum = Num 0, lb_finiteCount = 0\<rparr>
      in \<lparr>lp_t = js_div (js_add (timesUs ! bucketStart) (timesUs ! (bucketEnd - 1))) (Num 2), lp_min = lb_min b, lp_max = lb_max b,
          lp_first = first, lp_last = lb_last b,
          lp_mean = (if lb_finiteCount b = 0 then NaN else js_div (lb_sum b) (js_nat (lb_finiteCount b))),
          lp_count = bucketEnd - bucketStart, lp_value = None\<rparr>)"

definition bucket_start :: "nat \<Rightarrow> nat \<Rightarrow> nat \<Rightarrow> nat \<Rightarrow> nat" where
  "bucket_start start rawCount bucketCount bucket = start + bucket * rawCount div bucketCount"

definition downsampleMinMax :: "jsnum list \<Rightarrow> jsnum list \<Rightarrow> nat \<Rightarrow> nat \<Rightarrow> nat \<Rightarrow> log_point list" where
  "downsampleMinMax timesUs values start stop maxPoints =
     (let rawCount = stop - start;
          bucketCount = max 1 (min maxPoints rawCount);
          at_bucket = bucket_start start rawCount bucketCount
      in map (\<lambda>k. bucket_point timesUs values (at_bucket k) (at_bucket (k + 1)))
           (filter (\<lambda>k. at_bucket k < at_bucket (k + 1)) [0..<bucketCount]))"

text \<open>\<open>Math.floor\<close> of the limit. NaN passes the three tests and yields no bucket at all.\<close>

definition js_floor :: "jsnum \<Rightarrow> jsnum" where
  "js_floor x = (case x of Num q \<Rightarrow> js_int \<lfloor>q\<rfloor> | _ \<Rightarrow> x)"

definition pointsForSlice :: "jsnum list \<Rightarrow> jsnum list \<Rightarrow> nat \<Rightarrow> nat \<Rightarrow> jsnum option \<Rightarrow> log_point list" where
  "pointsForSlice timesUs values start stop maxPoints =
     (let count = stop - start
      in if count = 0 then []
         else case map_option js_floor maxPoints of
           None \<Rightarrow> fullResolution timesUs values start stop
         | Some limit \<Rightarrow>
             if js_le limit (Num 0) \<or> js_le (js_nat count) limit then fullResolution timesUs values start stop
             else if limit = NaN then [] else downsampleMinMax timesUs values start stop (nat (js_trunc limit)))"

section \<open>Building the index\<close>

record mutable_series =
  ms_message :: string
  ms_field :: string
  ms_times :: "jsnum list"
  ms_values :: "jsnum list"
  ms_ordered :: bool
  ms_lastTime :: "jsnum option"
  ms_unit :: "string option"

record frozen_series =
  fz_descriptor :: log_descriptor
  fz_timesUs :: "jsnum list"
  fz_values :: "jsnum list"

definition MAX_SAFE :: int where "MAX_SAFE = 9007199254740991"

definition dataValueToNumber :: "df_value \<Rightarrow> jsnum option" where
  "dataValueToNumber v =
     (case v of
        DfNum x \<Rightarrow> if js_is_finite x then Some x else None
      | DfBig i \<Rightarrow>
          if MAX_SAFE < i \<or> i < - MAX_SAFE then None
          else let converted = js_of_bigint i in if js_is_finite converted then Some converted else None
      | _ \<Rightarrow> None)"

definition timestampUs :: "df_record \<Rightarrow> nat \<Rightarrow> jsnum" where
  "timestampUs r synthetic =
     (case Option.bind (map_of (dr_fields r) ''TimeUS'') dataValueToNumber of Some t \<Rightarrow> t | None \<Rightarrow> js_nat synthetic)"

definition seriesKey :: "string \<Rightarrow> string \<Rightarrow> string" where
  "seriesKey message field = message @ [CHR 0x00] @ field"

definition unitLookup :: "df_metadata option \<Rightarrow> (nat \<rightharpoonup> string)" where
  "unitLookup metadata =
     (case metadata of
        None \<Rightarrow> Map.empty
      | Some md \<Rightarrow> fold (\<lambda>u m i. if js_eq (du_id u) (js_nat i) then Some (du_label u) else m i) (md_units md) Map.empty)"

definition unitForField :: "df_record \<Rightarrow> nat \<Rightarrow> (nat \<rightharpoonup> string) \<Rightarrow> string option" where
  "unitForField r fieldIndex units =
     (case dr_units r of
        None \<Rightarrow> None
      | Some (unitIds, _) \<Rightarrow>
          if length unitIds \<le> fieldIndex then None
          else let c = unitIds ! fieldIndex in Some (case units (char_code c) of Some u \<Rightarrow> u | None \<Rightarrow> [c]))"

definition new_series :: "string \<Rightarrow> string \<Rightarrow> mutable_series" where
  "new_series message field =
     \<lparr>ms_message = message, ms_field = field, ms_times = [], ms_values = [], ms_ordered = True, ms_lastTime = None, ms_unit = None\<rparr>"

definition add_sample :: "jsnum \<Rightarrow> jsnum \<Rightarrow> string option \<Rightarrow> mutable_series \<Rightarrow> mutable_series" where
  "add_sample t value u s =
     s\<lparr>ms_ordered := (ms_ordered s \<and> \<not> (case ms_lastTime s of Some l \<Rightarrow> js_lt t l | None \<Rightarrow> False)), ms_lastTime := Some t,
       ms_unit := (if ms_unit s = None then u else ms_unit s), ms_times := ms_times s @ [t], ms_values := ms_values s @ [value]\<rparr>"

type_synonym series_map = "(string \<times> mutable_series) list"

definition add_field :: "df_record \<Rightarrow> jsnum \<Rightarrow> (nat \<rightharpoonup> string) \<Rightarrow> nat \<times> string \<times> df_value \<Rightarrow> series_map \<Rightarrow> series_map" where
  "add_field r t units entry m =
     (case entry of
        (fieldIndex, field, rawValue) \<Rightarrow>
          (case dataValueToNumber rawValue of
             None \<Rightarrow> m
           | Some value \<Rightarrow>
               let key = seriesKey (dr_name r) field;
                   bucket = (case map_of m key of Some b \<Rightarrow> b | None \<Rightarrow> new_series (dr_name r) field)
               in AList.update key (add_sample t value (unitForField r fieldIndex units) bucket) m))"

definition add_record :: "(nat \<rightharpoonup> string) \<Rightarrow> nat \<Rightarrow> df_record \<Rightarrow> series_map \<Rightarrow> series_map" where
  "add_record units synthetic r m =
     fold (add_field r (timestampUs r synthetic) units) (enumerate 0 (dr_fields r)) m"

definition freezeSeries :: "mutable_series \<Rightarrow> frozen_series" where
  "freezeSeries s =
     (let descriptor = \<lparr>ld_message = ms_message s, ld_field = ms_field s, ld_unit = ms_unit s\<rparr>
      in if ms_ordered s then \<lparr>fz_descriptor = descriptor, fz_timesUs = ms_times s, fz_values = ms_values s\<rparr>
         else
           let indices = sort_key (\<lambda>i. the (js_val (ms_times s ! i))) [0..<length (ms_times s)]
           in \<lparr>fz_descriptor = descriptor, fz_timesUs = map ((!) (ms_times s)) indices, fz_values = map ((!) (ms_values s)) indices\<rparr>)"

type_synonym log_index = "(string \<times> frozen_series) list"

definition buildLogQueryIndex :: "df_record list \<Rightarrow> df_metadata option \<Rightarrow> log_index" where
  "buildLogQueryIndex records metadata =
     (let units = unitLookup metadata;
          m = fold (\<lambda>(synthetic, r). add_record units synthetic r) (enumerate 0 records) []
      in fold (\<lambda>s. AList.update (seriesKey (ld_message (fz_descriptor s)) (ld_field (fz_descriptor s))) s)
           (map (freezeSeries \<circ> snd) m) [])"

section \<open>Queries\<close>

datatype query_error = UnknownSeries string string | EmptySeries | NoReference | BadExpression syntax_error

definition requireSeries :: "string \<Rightarrow> string \<Rightarrow> log_index \<Rightarrow> query_error + frozen_series" where
  "requireSeries message field ix =
     (case map_of ix (seriesKey message field) of Some s \<Rightarrow> Inr s | None \<Rightarrow> Inl (UnknownSeries message field))"

definition querySeries :: "string \<Rightarrow> string \<Rightarrow> log_range option \<Rightarrow> jsnum option \<Rightarrow> log_index \<Rightarrow> query_error + log_point list" where
  "querySeries message field rng maxPoints ix =
     (case requireSeries message field ix of
        Inl e \<Rightarrow> Inl e
      | Inr s \<Rightarrow>
          let (start, stop) = rangeBounds (fz_timesUs s) rng
          in Inr (pointsForSlice (fz_timesUs s) (fz_values s) start stop maxPoints))"

definition getSeries :: "string \<Rightarrow> string \<Rightarrow> log_index \<Rightarrow> query_error + jsnum list \<times> jsnum list" where
  "getSeries message field ix =
     (case requireSeries message field ix of Inl e \<Rightarrow> Inl e | Inr s \<Rightarrow> Inr (fz_timesUs s, fz_values s))"

definition nearestValue :: "frozen_series \<Rightarrow> jsnum \<Rightarrow> query_error + jsnum" where
  "nearestValue s t =
     (let len = length (fz_timesUs s)
      in if len = 0 then Inl EmptySeries
         else
           let insertion = lowerBound (fz_timesUs s) t
           in if insertion \<le> 0 then Inr (fz_values s ! 0)
              else if len \<le> insertion then Inr (fz_values s ! (len - 1))
              else
                let beforeT = fz_timesUs s ! (insertion - 1); afterT = fz_timesUs s ! insertion
                in Inr (if js_le (js_sub t beforeT) (js_sub afterT t) then fz_values s ! (insertion - 1) else fz_values s ! insertion))"

fun buildReferenceLookup :: "(string \<times> string) list \<Rightarrow> log_index \<Rightarrow> query_error + (string \<times> frozen_series) list" where
  "buildReferenceLookup [] ix = Inr []"
| "buildReferenceLookup ((message, field) # refs) ix =
     (case requireSeries message field ix of
        Inl e \<Rightarrow> Inl e
      | Inr s \<Rightarrow> (case buildReferenceLookup refs ix of Inl e \<Rightarrow> Inl e | Inr l \<Rightarrow> Inr ((seriesKey message field, s) # l)))"

text \<open>An expression visits all its references, so that the first series without samples throws wherever it stands.\<close>

definition resolve_at :: "(string \<times> frozen_series) list \<Rightarrow> jsnum \<Rightarrow> string \<Rightarrow> string \<Rightarrow> query_error + jsnum" where
  "resolve_at lookup t message field =
     (case map_of lookup (seriesKey message field) of Some s \<Rightarrow> nearestValue s t | None \<Rightarrow> Inl (UnknownSeries message field))"

definition evaluate_at :: "expression \<Rightarrow> (string \<times> frozen_series) list \<Rightarrow> jsnum \<Rightarrow> query_error + jsnum" where
  "evaluate_at expr lookup t =
     (case List.map_filter (\<lambda>(m, f). case resolve_at lookup t m f of Inl e \<Rightarrow> Some e | Inr v \<Rightarrow> None) (visit_refs expr) of
        e # es \<Rightarrow> Inl e
      | [] \<Rightarrow> Inr (evaluateExpression expr (\<lambda>m f. projr (resolve_at lookup t m f))))"

fun evaluateOnBase :: "expression \<Rightarrow> (string \<times> frozen_series) list \<Rightarrow> jsnum list \<Rightarrow> query_error + (jsnum \<times> jsnum) list" where
  "evaluateOnBase expr lookup [] = Inr []"
| "evaluateOnBase expr lookup (t # ts) =
     (case evaluate_at expr lookup t of
        Inl e \<Rightarrow> Inl e
      | Inr value \<Rightarrow>
          (case evaluateOnBase expr lookup ts of
             Inl e \<Rightarrow> Inl e | Inr out \<Rightarrow> Inr (if js_is_finite value then (t, value) # out else out)))"

definition evaluateDerived :: "string \<Rightarrow> log_range option \<Rightarrow> jsnum option \<Rightarrow> log_index \<Rightarrow> query_error + log_point list" where
  "evaluateDerived expr rng maxPoints ix =
     (case parseExpression expr of
        Inl e \<Rightarrow> Inl (BadExpression e)
      | Inr parsed \<Rightarrow>
          (case collectSeriesRefs parsed of
             [] \<Rightarrow> Inl NoReference
           | (message, field) # refs \<Rightarrow>
               (case requireSeries message field ix of
                  Inl e \<Rightarrow> Inl e
                | Inr base \<Rightarrow>
                    let (start, stop) = rangeBounds (fz_timesUs base) rng
                    in if stop \<le> start then Inr []
                       else
                         (case buildReferenceLookup ((message, field) # refs) ix of
                            Inl e \<Rightarrow> Inl e
                          | Inr lookup \<Rightarrow>
                              (case evaluateOnBase parsed lookup (subarray start (stop - start) (fz_timesUs base)) of
                                 Inl e \<Rightarrow> Inl e
                               | Inr derived \<Rightarrow>
                                   Inr (pointsForSlice (map fst derived) (map snd derived) 0 (length derived) maxPoints))))))"

end
