(* ===== verification/Query_Properties.thy ===== *)
theory Query_Properties
  imports Log_Query
begin

text \<open>
  What the log queries return: the index holds the samples of the records in the order of time, a range query is a filter,
  and downsampling loses neither samples nor extremes.
\<close>

section \<open>Binary search\<close>

function bisect :: "(nat \<Rightarrow> bool) \<Rightarrow> nat \<Rightarrow> nat \<Rightarrow> nat" where
  "bisect below low high =
     (if low < high then
        let mid = low + (high - low) div 2 in if below mid then bisect below (mid + 1) high else bisect below low mid
      else low)"
  by auto
termination bisect by (relation "measure (\<lambda>(P, low, high). high - low)") auto

declare bisect.simps [simp del]

lemma lower_bisect: "lower_from vs x low high = bisect (\<lambda>i. js_lt (vs ! i) x) low high"
proof (induction vs x low high rule: lower_from.induct)
  case (1 vs x low high)
  then show ?case
    by (subst lower_from.simps, subst bisect.simps) (auto simp: Let_def)
qed

lemma upper_bisect: "upper_from vs x low high = bisect (\<lambda>i. js_le (vs ! i) x) low high"
proof (induction vs x low high rule: upper_from.induct)
  case (1 vs x low high)
  then show ?case
    by (subst upper_from.simps, subst bisect.simps) (auto simp: Let_def)
qed

lemma bisect_spec:
  assumes "low \<le> high" "\<And>i j. i \<le> j \<Longrightarrow> j < high \<Longrightarrow> below j \<Longrightarrow> below i"
  shows "low \<le> bisect below low high \<and> bisect below low high \<le> high \<and> (\<forall>i. low \<le> i \<and> i < bisect below low high \<longrightarrow> below i) \<and>
    (\<forall>i. bisect below low high \<le> i \<and> i < high \<longrightarrow> \<not> below i)"
  using assms
proof (induction below low high rule: bisect.induct)
  case (1 below low high)
  show ?case
  proof (cases "low < high")
    case True
    define mid where "mid = low + (high - low) div 2"
    have mid: "low \<le> mid" "mid < high" using True by (simp_all add: mid_def)
    show ?thesis
    proof (cases "below mid")
      case b: True
      have e: "bisect below low high = bisect below (mid + 1) high" using True b by (subst bisect.simps) (simp add: mid_def Let_def)
      define r where "r = bisect below (mid + 1) high"
      have "mid + 1 \<le> high" using mid by simp
      then have r: "mid + 1 \<le> r" "r \<le> high" "\<forall>i. mid + 1 \<le> i \<and> i < r \<longrightarrow> below i" "\<forall>i. r \<le> i \<and> i < high \<longrightarrow> \<not> below i"
        using 1(1) [OF True mid_def b] 1(4) unfolding r_def by blast+
      have "below i" if "low \<le> i" "i < r" for i
        using 1(4) [of i mid] r(3) that mid(2) b by (cases "i \<le> mid") simp_all
      then show ?thesis using r mid unfolding e r_def [symmetric] by simp
    next
      case b: False
      have e: "bisect below low high = bisect below low mid" using True b by (subst bisect.simps) (simp add: mid_def Let_def)
      define r where "r = bisect below low mid"
      have dec: "below i" if "i \<le> j" "j < mid" "below j" for i j using 1(4) that mid(2) by (meson less_trans)
      have r: "low \<le> r" "r \<le> mid" "\<forall>i. low \<le> i \<and> i < r \<longrightarrow> below i" "\<forall>i. r \<le> i \<and> i < mid \<longrightarrow> \<not> below i"
        using 1(2) [OF True mid_def b mid(1)] dec unfolding r_def by blast+
      have "\<not> below i" if "r \<le> i" "i < high" for i
        using 1(4) [of mid i] r(4) that b by (cases "i < mid") auto
      then show ?thesis using r mid unfolding e r_def [symmetric] by simp
    qed
  next
    case False
    then show ?thesis using 1(3) by (subst (1 2 3 4) bisect.simps) auto
  qed
qed

text \<open>A cut of a list: what is below it, and what is not.\<close>

lemma cut_filter:
  assumes "k \<le> length xs" "\<And>i. i < k \<Longrightarrow> P (xs ! i)" "\<And>i. k \<le> i \<Longrightarrow> i < length xs \<Longrightarrow> \<not> P (xs ! i)"
  shows "filter P xs = take k xs"
proof -
  have "filter P (take k xs) = take k xs" using assms(1,2) by (auto simp: filter_id_conv in_set_conv_nth)
  moreover have "filter P (drop k xs) = []" using assms(3) by (auto simp: filter_empty_conv in_set_conv_nth)
  ultimately show ?thesis by (metis append_Nil2 append_take_drop_id filter_append)
qed

section \<open>Finite times in order\<close>

definition js_value :: "jsnum \<Rightarrow> rat" where
  "js_value x = the (js_val x)"

definition ordered_times :: "jsnum list \<Rightarrow> bool" where
  "ordered_times ts = (list_all js_is_finite ts \<and> sorted (map js_value ts))"

lemma finite_order:
  assumes "js_is_finite x" "js_is_finite y"
  shows "js_lt x y \<longleftrightarrow> js_value x < js_value y" "js_le x y \<longleftrightarrow> js_value x \<le> js_value y"
  using assms by (cases x; cases y; auto simp: js_is_finite_def js_value_def js_le_def)+

lemma ordered_nth:
  assumes "ordered_times ts"
  shows "i \<le> j \<Longrightarrow> j < length ts \<Longrightarrow> js_value (ts ! i) \<le> js_value (ts ! j)" "i < length ts \<Longrightarrow> js_is_finite (ts ! i)"
  using assms by (auto simp: ordered_times_def list_all_length dest: sorted_nth_mono [of "map js_value ts" i j])

lemma bound_specs:
  assumes "ordered_times ts" "js_is_finite x"
  shows "lowerBound ts x \<le> length ts" "i < lowerBound ts x \<Longrightarrow> js_lt (ts ! i) x"
    "lowerBound ts x \<le> i \<Longrightarrow> i < length ts \<Longrightarrow> \<not> js_lt (ts ! i) x"
    "upperBound ts x \<le> length ts" "i < upperBound ts x \<Longrightarrow> js_le (ts ! i) x"
    "upperBound ts x \<le> i \<Longrightarrow> i < length ts \<Longrightarrow> \<not> js_le (ts ! i) x"
proof -
  have lt: "js_lt (ts ! i) x" if "i \<le> j" "j < length ts" "js_lt (ts ! j) x" for i j
    using that ordered_nth [OF assms(1)] assms(2) by (fastforce simp: finite_order)
  have le: "js_le (ts ! i) x" if "i \<le> j" "j < length ts" "js_le (ts ! j) x" for i j
    using that ordered_nth [OF assms(1)] assms(2) by (fastforce simp: finite_order)
  note l = bisect_spec [of 0 "length ts" "\<lambda>i. js_lt (ts ! i) x", OF _ lt, simplified, folded lower_bisect lowerBound_def]
  note u = bisect_spec [of 0 "length ts" "\<lambda>i. js_le (ts ! i) x", OF _ le, simplified, folded upper_bisect upperBound_def]
  show "lowerBound ts x \<le> length ts" "i < lowerBound ts x \<Longrightarrow> js_lt (ts ! i) x"
    "lowerBound ts x \<le> i \<Longrightarrow> i < length ts \<Longrightarrow> \<not> js_lt (ts ! i) x" using l by simp_all
  show "upperBound ts x \<le> length ts" "i < upperBound ts x \<Longrightarrow> js_le (ts ! i) x"
    "upperBound ts x \<le> i \<Longrightarrow> i < length ts \<Longrightarrow> \<not> js_le (ts ! i) x" using u by simp_all
qed


section \<open>The content of the index\<close>

text \<open>The samples of a field that the records hold, in the order of the records.\<close>

definition record_samples :: "string \<Rightarrow> string \<Rightarrow> nat \<times> df_record \<Rightarrow> (jsnum \<times> jsnum) list" where
  "record_samples m f kr =
     (case kr of (k, r) \<Rightarrow>
        if dr_name r = m
        then List.map_filter (\<lambda>(g, raw). if g = f then map_option (Pair (timestampUs r k)) (dataValueToNumber raw) else None) (dr_fields r)
        else [])"

definition log_samples :: "df_record list \<Rightarrow> string \<Rightarrow> string \<Rightarrow> (jsnum \<times> jsnum) list" where
  "log_samples records m f = concat (map (record_samples m f) (enumerate 0 records))"

definition nul_free :: "string \<Rightarrow> bool" where
  "nul_free s = (CHR 0x00 \<notin> set s)"

lemma key_inj: "nul_free m \<Longrightarrow> nul_free m' \<Longrightarrow> seriesKey m f = seriesKey m' f' \<longleftrightarrow> m = m' \<and> f = f'"
proof
  assume a: "nul_free m" "nul_free m'" "seriesKey m f = seriesKey m' f'"
  have "takeWhile (\<lambda>c. c \<noteq> CHR 0x00) (seriesKey m f) = m" "takeWhile (\<lambda>c. c \<noteq> CHR 0x00) (seriesKey m' f') = m'"
    using a(1,2) by (auto simp: seriesKey_def nul_free_def takeWhile_eq_all_conv intro!: takeWhile_append2 [THEN trans])
  then have "m = m'" using a(3) by simp
  then show "m = m' \<and> f = f'" using a(3) by (simp add: seriesKey_def)
qed simp

definition collected :: "series_map \<Rightarrow> string \<Rightarrow> string \<Rightarrow> (jsnum \<times> jsnum) list" where
  "collected M m f = (case map_of M (seriesKey m f) of None \<Rightarrow> [] | Some s \<Rightarrow> zip (ms_times s) (ms_values s))"

definition series_ok :: "string \<times> mutable_series \<Rightarrow> bool" where
  "series_ok ks =
     (case ks of (k, s) \<Rightarrow>
        k = seriesKey (ms_message s) (ms_field s) \<and> length (ms_values s) = length (ms_times s) \<and> ms_times s \<noteq> [] \<and>
        ms_lastTime s = Some (last (ms_times s)) \<and> list_all js_is_finite (ms_times s) \<and>
        ms_ordered s = sorted (map js_value (ms_times s)))"

definition map_ok :: "series_map \<Rightarrow> bool" where
  "map_ok M = (distinct (map fst M) \<and> list_all series_ok M)"

lemma finite_number: "dataValueToNumber v = Some x \<Longrightarrow> js_is_finite x"
  by (auto simp: dataValueToNumber_def Let_def split: df_value.splits if_splits)

lemma finite_nat [simp]: "js_is_finite (js_nat n)"
  by (simp add: js_is_finite_def js_nat_def)

lemma finite_time: "js_is_finite (timestampUs r k)"
  by (auto simp: timestampUs_def Option.bind_eq_Some_conv split: option.split dest: finite_number)

lemma sorted_last: "sorted (xs @ [x :: rat]) = (sorted xs \<and> (xs = [] \<or> last xs \<le> x))"
  by (induction xs) (auto simp: sorted_append, (meson last_in_set order_trans)?)

lemma add_sample_ok:
  assumes "s = new_series m f \<or> series_ok (seriesKey m f, s)" "js_is_finite t"
  shows "series_ok (seriesKey m f, add_sample t v u s)"
proof -
  have "\<not> js_lt t (last (ms_times s)) \<longleftrightarrow> js_value (last (ms_times s)) \<le> js_value t" if "ms_times s \<noteq> []" "list_all js_is_finite (ms_times s)"
    using finite_order(1) [OF assms(2), of "last (ms_times s)"] that by (auto simp: list_all_iff)
  then show ?thesis using assms
    by (auto simp: series_ok_def add_sample_def new_series_def sorted_last last_map seriesKey_def)
qed

lemma map_update_ok: "map_ok M \<Longrightarrow> series_ok (k, s) \<Longrightarrow> map_ok (AList.update k s M)"
  by (auto simp: map_ok_def distinct_update list_all_iff dest!: subsetD [OF update_subset])

lemma add_field_ok:
  assumes "map_ok M" "js_is_finite t"
  shows "map_ok (add_field r t units e M)"
proof (cases e)
  case (fields i g raw)
  show ?thesis
  proof (cases "dataValueToNumber raw")
    case (Some v)
    define s where "s = (case map_of M (seriesKey (dr_name r) g) of Some b \<Rightarrow> b | None \<Rightarrow> new_series (dr_name r) g)"
    have "s = new_series (dr_name r) g \<or> series_ok (seriesKey (dr_name r) g, s)"
      using assms(1) by (auto simp: s_def map_ok_def list_all_iff split: option.split dest!: map_of_SomeD)
    then show ?thesis using add_sample_ok [OF _ assms(2)] map_update_ok [OF assms(1)] fields Some
      by (simp add: add_field_def s_def Let_def)
  qed (use assms fields in \<open>simp add: add_field_def\<close>)
qed

lemma add_field_collected:
  assumes "map_ok M" "nul_free (dr_name r)" "nul_free m"
  shows "collected (add_field r t units (i, g, raw) M) m f = collected M m f @
    (if dr_name r = m \<and> g = f then (case dataValueToNumber raw of Some v \<Rightarrow> [(t, v)] | None \<Rightarrow> []) else [])"
proof (cases "dataValueToNumber raw")
  case None
  then show ?thesis by (simp add: add_field_def)
next
  case (Some v)
  define s where "s = (case map_of M (seriesKey (dr_name r) g) of Some b \<Rightarrow> b | None \<Rightarrow> new_series (dr_name r) g)"
  have len: "length (ms_times s) = length (ms_values s)"
    using assms(1) by (auto simp: s_def map_ok_def list_all_iff series_ok_def new_series_def split: option.split dest!: map_of_SomeD)
  have "collected (AList.update (seriesKey (dr_name r) g) (add_sample t v u s) M) m f
      = (if dr_name r = m \<and> g = f then zip (ms_times s) (ms_values s) @ [(t, v)] else collected M m f)" for u
    using key_inj [OF assms(2,3), of g f] len by (auto simp: collected_def update_conv' add_sample_def)
  moreover have "collected M m f = zip (ms_times s) (ms_values s)" if "dr_name r = m \<and> g = f"
    using that by (auto simp: collected_def s_def new_series_def split: option.split)
  ultimately show ?thesis using Some by (simp add: add_field_def s_def [symmetric] Let_def)
qed

lemma add_record_spec:
  assumes "map_ok M" "nul_free (dr_name r)" "nul_free m"
  shows "map_ok (add_record units k r M) \<and> collected (add_record units k r M) m f = collected M m f @ record_samples m f (k, r)"
proof -
  have "map_ok (fold (add_field r (timestampUs r k) units) (enumerate n fs) M) \<and>
      collected (fold (add_field r (timestampUs r k) units) (enumerate n fs) M) m f = collected M m f @
        (if dr_name r = m then List.map_filter (\<lambda>(g, raw). if g = f then map_option (Pair (timestampUs r k)) (dataValueToNumber raw) else None) fs
         else [])" for n fs
    using assms(1)
  proof (induction fs arbitrary: n M)
    case (Cons x fs)
    obtain g raw where x: "x = (g, raw)" by (cases x)
    show ?case
      using Cons.IH [OF add_field_ok [OF Cons.prems finite_time [of r k], of r units "(n, g, raw)"], of "Suc n"]
        add_field_collected [OF Cons.prems assms(2,3), of "timestampUs r k" units n g raw f]
      by (auto simp: x map_filter_simps List.map_filter_def split: option.split)
  qed (simp add: List.map_filter_def)
  then show ?thesis by (simp add: add_record_def record_samples_def)
qed

lemma records_spec:
  assumes "map_ok M" "list_all (\<lambda>r. nul_free (dr_name r)) records" "nul_free m"
  shows "map_ok (fold (\<lambda>(k, r). add_record units k r) (enumerate n records) M) \<and>
    collected (fold (\<lambda>(k, r). add_record units k r) (enumerate n records) M) m f
      = collected M m f @ concat (map (record_samples m f) (enumerate n records))"
  using assms(1,2)
proof (induction records arbitrary: n M)
  case (Cons r records)
  then show ?case
    using add_record_spec [OF Cons.prems(1) _ assms(3), of r units n f] Cons.IH [of "add_record units n r M" "Suc n"] by simp
qed simp


text \<open>Freezing sorts the samples by time, samples of the same time in the order of the records.\<close>

lemma insort_map: "insort_key f (g x) (map g xs) = map g (insort_key (f \<circ> g) x xs)"
  by (induction xs) simp_all

lemma sort_key_map: "sort_key f (map g xs) = map g (sort_key (f \<circ> g) xs)"
  by (induction xs) (simp_all add: insort_map comp_def)

lemma sort_key_sorted: "sorted (map f xs) \<Longrightarrow> sort_key f xs = xs"
  by (induction xs) (auto simp: insort_is_Cons)

definition frozen_samples :: "frozen_series \<Rightarrow> (jsnum \<times> jsnum) list" where
  "frozen_samples s = zip (fz_timesUs s) (fz_values s)"

definition by_time :: "(jsnum \<times> jsnum) list \<Rightarrow> (jsnum \<times> jsnum) list" where
  "by_time xs = sort_key (js_value \<circ> fst) xs"

lemma freeze_spec:
  assumes "series_ok (k, s)"
  shows "frozen_samples (freezeSeries s) = by_time (zip (ms_times s) (ms_values s))"
    "length (fz_values (freezeSeries s)) = length (fz_timesUs (freezeSeries s))"
    "seriesKey (ld_message (fz_descriptor (freezeSeries s))) (ld_field (fz_descriptor (freezeSeries s))) = k"
proof -
  define n where "n = length (ms_times s)"
  have len: "length (ms_values s) = n" "length (ms_times s) = n" using assms by (simp_all add: series_ok_def n_def)
  show "frozen_samples (freezeSeries s) = by_time (zip (ms_times s) (ms_values s))"
  proof (cases "ms_ordered s")
    case True
    then have "sorted (map (js_value \<circ> fst) (zip (ms_times s) (ms_values s)))"
      using assms len by (simp add: series_ok_def flip: map_map)
    then show ?thesis using True by (simp add: freezeSeries_def frozen_samples_def by_time_def sort_key_sorted)
  next
    case False
    define g where "g = (\<lambda>i. (ms_times s ! i, ms_values s ! i))"
    have "zip (ms_times s) (ms_values s) = map g [0..<n]" using len by (intro nth_equalityI) (simp_all add: g_def)
    then have "by_time (zip (ms_times s) (ms_values s)) = map g (sort_key (\<lambda>i. the (js_val (ms_times s ! i))) [0..<n])"
      by (simp add: by_time_def sort_key_map comp_def g_def js_value_def)
    then show ?thesis using False len
      by (simp add: freezeSeries_def frozen_samples_def zip_map_map Let_def g_def zip_same_conv_map)
  qed
  show "length (fz_values (freezeSeries s)) = length (fz_timesUs (freezeSeries s))"
    using len by (simp add: freezeSeries_def Let_def)
  show "seriesKey (ld_message (fz_descriptor (freezeSeries s))) (ld_field (fz_descriptor (freezeSeries s))) = k"
    using assms by (simp add: freezeSeries_def Let_def series_ok_def)
qed

lemma rebuild: "distinct (map fst al @ map kf xs) \<Longrightarrow> fold (\<lambda>s. AList.update (kf s) s) xs al = al @ map (\<lambda>s. (kf s, s)) xs"
proof (induction xs arbitrary: al)
  case (Cons x xs)
  then show ?case using Cons.IH [of "al @ [(kf x, x)]"] by (simp add: update_new)
qed simp

lemma index_lookup:
  assumes "list_all (\<lambda>r. nul_free (dr_name r)) records" "nul_free m"
  shows "(case map_of (buildLogQueryIndex records md) (seriesKey m f) of
      None \<Rightarrow> log_samples records m f = []
    | Some s \<Rightarrow> frozen_samples s = by_time (log_samples records m f) \<and> log_samples records m f \<noteq> [] \<and>
        length (fz_values s) = length (fz_timesUs s))"
proof -
  define M where "M = fold (\<lambda>(k, r). add_record (unitLookup md) k r) (enumerate 0 records) []"
  have M: "map_ok M" "collected M m f = log_samples records m f"
    using records_spec [of "[]" records m "unitLookup md" 0 f] assms
    by (simp_all add: M_def map_ok_def collected_def log_samples_def)
  define kf where "kf = (\<lambda>s :: frozen_series. seriesKey (ld_message (fz_descriptor s)) (ld_field (fz_descriptor s)))"
  have keys: "kf (freezeSeries s) = k" if "(k, s) \<in> set M" for k s
    using that M(1) freeze_spec(3) by (auto simp: map_ok_def list_all_iff kf_def)
  then have "map kf (map (freezeSeries \<circ> snd) M) = map fst M" by (auto simp: comp_def)
  then have "distinct (map kf (map (freezeSeries \<circ> snd) M))" using M(1) by (simp only: map_ok_def)
  then have "fold (\<lambda>s. AList.update (kf s) s) (map (freezeSeries \<circ> snd) M) [] = map (\<lambda>s. (kf s, s)) (map (freezeSeries \<circ> snd) M)"
    using rebuild [of "[]" kf] by simp
  moreover have "map (\<lambda>s. (kf s, s)) (map (freezeSeries \<circ> snd) M) = map (\<lambda>(k, s). (k, freezeSeries s)) M"
    using keys by auto
  ultimately have "buildLogQueryIndex records md = map (\<lambda>(k, s). (k, freezeSeries s)) M"
    unfolding buildLogQueryIndex_def Let_def M_def [symmetric] kf_def by (simp only:)
  then have look: "map_of (buildLogQueryIndex records md) (seriesKey m f) = map_option freezeSeries (map_of M (seriesKey m f))"
    by (simp add: map_of_map)
  show ?thesis
  proof (cases "map_of M (seriesKey m f)")
    case None
    then show ?thesis using look M(2) by (simp add: collected_def)
  next
    case (Some s)
    then have ok: "series_ok (seriesKey m f, s)" using M(1) by (auto simp: map_ok_def list_all_iff dest: map_of_SomeD)
    then have "zip (ms_times s) (ms_values s) \<noteq> []" by (auto simp: series_ok_def)
    moreover have z: "zip (ms_times s) (ms_values s) = log_samples records m f" using M(2) Some by (simp add: collected_def)
    ultimately have "log_samples records m f \<noteq> []" by (simp only: not_False_eq_True)
    then show ?thesis using look Some freeze_spec(1,2) [OF ok] z by simp
  qed
qed

lemma by_time_simps [simp]: "set (by_time xs) = set xs" "length (by_time xs) = length xs" "by_time xs = [] \<longleftrightarrow> xs = []"
proof -
  show "set (by_time xs) = set xs" "length (by_time xs) = length xs" by (simp_all add: by_time_def)
  then show "by_time xs = [] \<longleftrightarrow> xs = []" by (metis length_0_conv)
qed

lemma sample_finite: "(t, v) \<in> set (log_samples records m f) \<Longrightarrow> js_is_finite t \<and> js_is_finite v"
  by (auto simp: log_samples_def record_samples_def List.map_filter_def finite_time split: if_splits dest!: finite_number)

lemma by_time_ordered: "ordered_times (map fst (by_time (log_samples records m f)))"
proof -
  have "sorted (map (js_value \<circ> fst) (by_time (log_samples records m f)))" unfolding by_time_def by (rule sorted_sort_key)
  then show ?thesis using sample_finite by (fastforce simp: ordered_times_def list_all_iff)
qed

lemma frozen_parts:
  assumes "frozen_samples s = xs" "length (fz_values s) = length (fz_timesUs s)"
  shows "fz_timesUs s = map fst xs" "fz_values s = map snd xs"
  using assms by (auto simp: frozen_samples_def)

text \<open>Of every field of every message the index holds exactly the numeric samples of the records, sorted by their time, those
  of the same time in the order of the records; a field without numeric samples is unknown.\<close>

lemma index_holds_samples_lemma:
  assumes "list_all (\<lambda>r. nul_free (dr_name r)) records" "nul_free m"
  shows "getSeries m f (buildLogQueryIndex records md) =
    (let xs = by_time (log_samples records m f) in if xs = [] then Inl (UnknownSeries m f) else Inr (map fst xs, map snd xs))"
proof (cases "map_of (buildLogQueryIndex records md) (seriesKey m f)")
  case None
  then show ?thesis using index_lookup [OF assms, where md = md and f = f] by (simp add: getSeries_def requireSeries_def)
next
  case (Some s)
  then have "frozen_samples s = by_time (log_samples records m f)" "log_samples records m f \<noteq> []"
    "length (fz_values s) = length (fz_timesUs s)" using index_lookup [OF assms, where md = md and f = f] by simp_all
  then show ?thesis using Some frozen_parts [of s] by (simp add: getSeries_def requireSeries_def Let_def)
qed


section \<open>Ranges\<close>

definition sample_point :: "jsnum \<times> jsnum \<Rightarrow> log_point" where
  "sample_point tv = (case tv of (t, v) \<Rightarrow>
     \<lparr>lp_t = t, lp_min = v, lp_max = v, lp_first = v, lp_last = v, lp_mean = v, lp_count = 1, lp_value = Some v\<rparr>)"

lemma full_slice:
  assumes "b \<le> length xs"
  shows "fullResolution (map fst xs) (map snd xs) a b = map sample_point (map ((!) xs) [a..<b])"
  using assms by (simp add: fullResolution_def full_point_def sample_point_def split_beta Let_def)

lemma slice_filter:
  assumes "a \<le> b" "b \<le> length xs" "\<And>i. i < length xs \<Longrightarrow> P (xs ! i) \<longleftrightarrow> a \<le> i \<and> i < b"
  shows "filter P xs = map ((!) xs) [a..<b]"
proof -
  have "filter P xs = map ((!) xs) (filter (\<lambda>i. P (xs ! i)) [0..<length xs])"
    by (subst map_nth [symmetric], subst filter_map) (simp add: comp_def)
  also have "filter (\<lambda>i. P (xs ! i)) [0..<length xs] = filter (\<lambda>i. a \<le> i \<and> i < b) [0..<length xs]"
    using assms(3) by (intro filter_cong) simp_all
  also have "[0..<length xs] = [0..<a] @ [a..<b] @ [b..<length xs]"
    using assms(1,2) by (metis append.assoc le0 le_Suc_ex upt_add_eq_append)
  finally show ?thesis by (simp add: filter_empty_conv)
qed

lemma query_form:
  assumes "list_all (\<lambda>r. nul_free (dr_name r)) records" "nul_free m" "xs = by_time (log_samples records m f)" "xs \<noteq> []"
  shows "querySeries m f rng mp (buildLogQueryIndex records md) =
    (let (a, b) = rangeBounds (map fst xs) rng in Inr (pointsForSlice (map fst xs) (map snd xs) a b mp))"
proof -
  have g: "getSeries m f (buildLogQueryIndex records md) = Inr (map fst xs, map snd xs)"
    using index_holds_samples_lemma [OF assms(1,2)] assms(3,4) by (simp add: Let_def)
  then obtain s where "requireSeries m f (buildLogQueryIndex records md) = Inr s" "fz_timesUs s = map fst xs" "fz_values s = map snd xs"
    by (auto simp: getSeries_def split: sum.splits)
  then show ?thesis by (simp add: querySeries_def)
qed

lemma range_bounds:
  assumes "ordered_times ts" "js_is_finite lo" "js_is_finite hi"
  shows "\<exists>a b. rangeBounds ts (Some \<lparr>lr_fromUs = Some lo, lr_toUs = Some hi\<rparr>) = (a, b) \<and> a \<le> b \<and> b \<le> length ts \<and>
    (\<forall>i<length ts. (js_le lo (ts ! i) \<and> js_le (ts ! i) hi) = (a \<le> i \<and> i < b))"
proof (cases "js_lt hi lo")
  case True
  have "\<not> (js_le lo (ts ! i) \<and> js_le (ts ! i) hi)" if "i < length ts" for i
    using True ordered_nth(2) [OF assms(1) that] assms(2,3) by (auto simp: finite_order)
  then show ?thesis using True assms(2,3) by (simp add: rangeBounds_def)
next
  case False
  note lo = bound_specs [OF assms(1,2)] and hi = bound_specs [OF assms(1,3)]
  have not_lt: "js_le lo (ts ! i) = (\<not> js_lt (ts ! i) lo)" if "i < length ts" for i
    using ordered_nth(2) [OF assms(1) that] assms(2) by (auto simp: finite_order)
  have "(js_le lo (ts ! i) \<and> js_le (ts ! i) hi) = (lowerBound ts lo \<le> i \<and> i < upperBound ts hi)" if "i < length ts" for i
    using that not_lt [OF that] lo(2,3) hi(5,6) by (meson not_le)
  then show ?thesis using False assms(2,3) lo(1) hi(4) by (auto simp: rangeBounds_def Let_def)
qed


section \<open>Buckets\<close>

definition bucket_holds :: "jsnum list \<Rightarrow> log_bucket \<Rightarrow> bool" where
  "bucket_holds vs b = (lb_min b \<in> set vs \<and> lb_max b \<in> set vs \<and> lb_last b = last vs \<and>
     (\<forall>v\<in>set vs. js_value (lb_min b) \<le> js_value v \<and> js_value v \<le> js_value (lb_max b)))"

lemma bucket_step:
  assumes "bucket_holds vs b" "list_all js_is_finite (v # vs)"
  shows "bucket_holds (vs @ [v]) (bucket_value v b)"
proof -
  have fin: "js_is_finite (lb_min b)" "js_is_finite (lb_max b)" "js_is_finite v"
    using assms by (auto simp: bucket_holds_def list_all_iff)
  have parts: "lb_last (bucket_value v b) = v" "lb_min (bucket_value v b) = (if js_lt v (lb_min b) then v else lb_min b)"
    "lb_max (bucket_value v b) = (if js_lt (lb_max b) v then v else lb_max b)"
    by (simp_all add: bucket_value_def Let_def)
  show ?thesis
    using assms(1) fin unfolding bucket_holds_def parts by (fastforce simp: finite_order)
qed

lemma bucket_steps:
  assumes "bucket_holds vs b" "list_all js_is_finite (vs @ ws)"
  shows "bucket_holds (vs @ ws) (fold bucket_value ws b)"
  using assms
proof (induction ws arbitrary: vs b)
  case (Cons w ws)
  then show ?case using Cons.IH [of "vs @ [w]" "bucket_value w b"] bucket_step [of vs b w] by simp
qed simp

lemma bucket_point_spec:
  assumes "i < j" "j \<le> length vs" "list_all js_is_finite vs"
  shows "lp_count (bucket_point ts vs i j) = j - i" "lp_first (bucket_point ts vs i j) = vs ! i" "lp_last (bucket_point ts vs i j) = vs ! (j - 1)"
    "lp_min (bucket_point ts vs i j) \<in> set vs" "lp_max (bucket_point ts vs i j) \<in> set vs"
    "i \<le> k \<Longrightarrow> k < j \<Longrightarrow> js_le (lp_min (bucket_point ts vs i j)) (vs ! k) \<and> js_le (vs ! k) (lp_max (bucket_point ts vs i j))"
proof -
  define ws where "ws = map ((!) vs) [i..<j]"
  have sub: "set ws \<subseteq> set vs" using assms(2) by (auto simp: ws_def)
  have ws: "ws = vs ! i # map ((!) vs) [Suc i..<j]" using assms(1) by (simp add: ws_def upt_conv_Cons)
  define b where "b = \<lparr>lb_last = vs ! i, lb_min = vs ! i, lb_max = vs ! i, lb_sum = Num 0, lb_finiteCount = 0\<rparr>"
  define r where "r = fold (\<lambda>i. bucket_value (vs ! i)) [i..<j] b"
  have fin: "js_is_finite v" if "v \<in> set ws" for v using that sub assms(3) by (auto simp: list_all_iff)
  have "r = fold bucket_value ws b" by (simp add: r_def ws_def fold_map comp_def)
  also have "\<dots> = fold bucket_value (map ((!) vs) [Suc i..<j]) (bucket_value (vs ! i) b)" by (simp add: ws)
  finally have r: "r = fold bucket_value (map ((!) vs) [Suc i..<j]) (bucket_value (vs ! i) b)" .
  have "bucket_holds [vs ! i] (bucket_value (vs ! i) b)"
    using fin [of "vs ! i"] ws by (simp add: bucket_holds_def bucket_value_def b_def Let_def finite_order)
  then have "bucket_holds ([vs ! i] @ map ((!) vs) [Suc i..<j]) r"
    unfolding r by (rule bucket_steps) (use fin ws in \<open>auto simp: list_all_iff\<close>)
  then have h: "bucket_holds ws r" by (simp add: ws)
  have p: "bucket_point ts vs i j = \<lparr>lp_t = js_div (js_add (ts ! i) (ts ! (j - 1))) (Num 2), lp_min = lb_min r, lp_max = lb_max r,
      lp_first = vs ! i, lp_last = lb_last r, lp_mean = (if lb_finiteCount r = 0 then NaN else js_div (lb_sum r) (js_nat (lb_finiteCount r))),
      lp_count = j - i, lp_value = None\<rparr>"
    by (simp add: bucket_point_def Let_def r_def b_def)
  show "lp_count (bucket_point ts vs i j) = j - i" "lp_first (bucket_point ts vs i j) = vs ! i" by (simp_all add: p)
  show "lp_last (bucket_point ts vs i j) = vs ! (j - 1)"
    using h assms(1) by (simp add: p bucket_holds_def ws_def last_map)
  show "lp_min (bucket_point ts vs i j) \<in> set vs" "lp_max (bucket_point ts vs i j) \<in> set vs"
    using h sub by (auto simp: p bucket_holds_def)
  show "js_le (lp_min (bucket_point ts vs i j)) (vs ! k) \<and> js_le (vs ! k) (lp_max (bucket_point ts vs i j))" if "i \<le> k" "k < j"
  proof -
    have k: "vs ! k \<in> set ws" using that by (auto simp: ws_def)
    then show ?thesis using h fin by (auto simp: p bucket_holds_def finite_order)
  qed
qed

text \<open>The cuts of the buckets.\<close>

lemma cut_step:
  assumes "0 < c" "c \<le> n"
  shows "bucket_start 0 n c k < bucket_start 0 n c (k + 1)"
proof -
  have "k * n div c + 1 = (k * n + c) div c" using assms(1) by simp
  also have "\<dots> \<le> (k + 1) * n div c" using assms(2) by (intro div_le_mono) simp
  finally show ?thesis by (simp add: bucket_start_def)
qed

lemma cut_ends: "0 < c \<Longrightarrow> bucket_start 0 n c 0 = 0" "0 < c \<Longrightarrow> bucket_start 0 n c c = n"
  by (simp_all add: bucket_start_def)

lemma steps_mono:
  assumes "\<And>k. g k < g (Suc k)" "i \<le> j"
  shows "g i \<le> (g j :: nat)"
  using lift_Suc_mono_le [of g i j] assms(2) less_imp_le [OF assms(1)] by simp

lemma steps_sum:
  assumes "\<And>k. g k < g (Suc k)"
  shows "sum_list (map (\<lambda>k. g (Suc k) - g k) [0..<c]) = g c - (g 0 :: nat)"
proof (induction c)
  case (Suc c)
  have "g 0 \<le> g c" using steps_mono [of g 0 c] assms by simp
  then show ?case using Suc less_imp_le [OF assms [of c]] by simp
qed simp

lemma steps_cover:
  assumes "g 0 \<le> i" "i < (g c :: nat)"
  shows "\<exists>k<c. g k \<le> i \<and> i < g (Suc k)"
  using assms
proof (induction c)
  case (Suc c)
  then show ?case by (cases "i < g c") (auto intro: less_SucI)
qed simp

definition keeps_samples :: "log_point list \<Rightarrow> jsnum list \<Rightarrow> bool" where
  "keeps_samples out vs =
     (sum_list (map lp_count out) = length vs \<and> lp_first (hd out) = hd vs \<and> lp_last (last out) = last vs \<and>
      list_all (\<lambda>v. list_ex (\<lambda>p. js_le (lp_min p) v \<and> js_le v (lp_max p)) out) vs \<and>
      list_all (\<lambda>p. lp_min p \<in> set vs \<and> lp_max p \<in> set vs) out)"

lemma downsample_keeps:
  assumes "1 \<le> n" "n < length vs" "list_all js_is_finite vs"
  shows "length (downsampleMinMax ts vs 0 (length vs) n) = n \<and> keeps_samples (downsampleMinMax ts vs 0 (length vs) n) vs"
proof -
  define g where "g = bucket_start 0 (length vs) n"
  define p where "p = (\<lambda>k. bucket_point ts vs (g k) (g (Suc k)))"
  have ne: "vs \<noteq> []" using assms(2) by auto
  have n: "max 1 (min n (length vs)) = n" using assms(1,2) by simp
  have step: "g k < g (Suc k)" for k using cut_step [of n "length vs" k] assms(1,2) by (simp add: g_def)
  have ends: "g 0 = 0" "g n = length vs" unfolding g_def using cut_ends assms(1) by simp_all
  have out: "downsampleMinMax ts vs 0 (length vs) n = map p [0..<n]"
    using step n by (simp add: downsampleMinMax_def Let_def g_def [symmetric] p_def)
  have top: "g (Suc k) \<le> length vs" if "k < n" for k using steps_mono [of g "Suc k" n] step that ends(2) by simp
  have spec: "lp_count (p k) = g (Suc k) - g k" "lp_first (p k) = vs ! g k" "lp_last (p k) = vs ! (g (Suc k) - 1)"
    "lp_min (p k) \<in> set vs" "lp_max (p k) \<in> set vs"
    "g k \<le> i \<Longrightarrow> i < g (Suc k) \<Longrightarrow> js_le (lp_min (p k)) (vs ! i) \<and> js_le (vs ! i) (lp_max (p k))" if "k < n" for k i
    using bucket_point_spec [OF step top [OF that] assms(3)] by (simp_all add: p_def)
  have "map lp_count (map p [0..<n]) = map (\<lambda>k. g (Suc k) - g k) [0..<n]" using spec(1) by simp
  then have "sum_list (map lp_count (map p [0..<n])) = length vs" using steps_sum [of g n] step ends by (simp only: diff_zero)
  moreover have "lp_first (hd (map p [0..<n])) = hd vs"
    using spec(2) [of 0] ends(1) assms(1) ne by (simp add: hd_map hd_conv_nth)
  moreover have "lp_last (last (map p [0..<n])) = last vs"
    using spec(3) [of "n - 1"] ends(2) assms(1) ne by (simp add: last_map last_conv_nth)
  moreover have "list_ex (\<lambda>q. js_le (lp_min q) v \<and> js_le v (lp_max q)) (map p [0..<n])" if v: "v \<in> set vs" for v
  proof -
    obtain i where i: "i < length vs" "v = vs ! i" using v by (metis in_set_conv_nth)
    obtain k where k: "k < n" "g k \<le> i" "i < g (Suc k)" using steps_cover [of g i n] ends i(1) by auto
    then show ?thesis using spec(6) [OF k] i(2) by (auto simp: list_ex_iff)
  qed
  moreover have "lp_min q \<in> set vs \<and> lp_max q \<in> set vs" if "q \<in> set (map p [0..<n])" for q
    using that spec(4,5) by auto
  ultimately show ?thesis by (simp add: out keeps_samples_def list_all_iff)
qed

lemma full_keeps:
  assumes "xs \<noteq> []" "list_all js_is_finite (map snd xs)"
  shows "length (fullResolution (map fst xs) (map snd xs) 0 (length xs)) = length xs \<and>
    keeps_samples (fullResolution (map fst xs) (map snd xs) 0 (length xs)) (map snd xs)"
proof -
  have f: "fullResolution (map fst xs) (map snd xs) 0 (length xs) = map sample_point xs"
    using full_slice [of "length xs" xs 0] by (simp add: map_nth)
  have "sum_list (map lp_count (map sample_point xs)) = length xs"
    by (induction xs) (auto simp: sample_point_def)
  then show ?thesis unfolding f using assms
    by (auto simp: keeps_samples_def list_all_iff list_ex_iff sample_point_def hd_map last_map split_beta finite_order)
qed


section \<open>The properties\<close>

text \<open>C34. Of every field of every message the index holds exactly the numeric samples of the records, sorted by their time, those
  of the same time in the order of the records; a field without numeric samples is unknown.\<close>

theorem index_holds_samples:
  assumes "list_all (\<lambda>r. nul_free (dr_name r)) records" "nul_free m"
  shows "getSeries m f (buildLogQueryIndex records md) =
    (let xs = by_time (log_samples records m f) in if xs = [] then Inl (UnknownSeries m f) else Inr (map fst xs, map snd xs))"
  by (rule index_holds_samples_lemma [OF assms])

text \<open>C35. A query over a range of times returns the samples of the field whose time lies in the range, ends included, in the order
  of time, and none else: the binary searches are a filter.\<close>

theorem range_query_filters:
  assumes "list_all (\<lambda>r. nul_free (dr_name r)) records" "nul_free m" "log_samples records m f \<noteq> []" "js_is_finite lo" "js_is_finite hi"
  shows "querySeries m f (Some \<lparr>lr_fromUs = Some lo, lr_toUs = Some hi\<rparr>) None (buildLogQueryIndex records md) =
    Inr (map sample_point (filter (\<lambda>(t, v). js_le lo t \<and> js_le t hi) (by_time (log_samples records m f))))"
proof -
  define xs where "xs = by_time (log_samples records m f)"
  have xs: "xs \<noteq> []" "ordered_times (map fst xs)" using assms(3) by_time_ordered by (simp_all add: xs_def)
  obtain a b where ab: "rangeBounds (map fst xs) (Some \<lparr>lr_fromUs = Some lo, lr_toUs = Some hi\<rparr>) = (a, b)" "a \<le> b" "b \<le> length xs"
    "\<And>i. i < length xs \<Longrightarrow> (js_le lo (map fst xs ! i) \<and> js_le (map fst xs ! i) hi) = (a \<le> i \<and> i < b)"
    using range_bounds [OF xs(2) assms(4,5)] by auto
  have "filter (\<lambda>(t, v). js_le lo t \<and> js_le t hi) xs = map ((!) xs) [a..<b]"
    by (rule slice_filter [OF ab(2,3)]) (use ab(4) in \<open>auto simp: split_beta\<close>)
  moreover have "pointsForSlice (map fst xs) (map snd xs) a b None = map sample_point (map ((!) xs) [a..<b])"
    using full_slice [OF ab(3), of a] ab(2) by (simp add: pointsForSlice_def)
  ultimately show ?thesis
    using query_form [OF assms(1,2) xs_def xs(1)] ab(1) by (simp add: xs_def [symmetric])
qed

text \<open>C36. A query of a whole field with a limit of \<open>n\<close> points returns at most \<open>n\<close> points that stand for all samples: their counts add
  up to the number of samples, they begin with the first and end with the last, every sample lies between the minimum and the
  maximum of a point, and each of these extremes is a sample.\<close>

theorem downsampling_keeps_samples:
  assumes "list_all (\<lambda>r. nul_free (dr_name r)) records" "nul_free m" "log_samples records m f \<noteq> []" "1 \<le> n"
    and "querySeries m f None (Some (js_nat n)) (buildLogQueryIndex records md) = Inr out"
  shows "length out \<le> n \<and> keeps_samples out (map snd (by_time (log_samples records m f)))"
proof -
  define xs where "xs = by_time (log_samples records m f)"
  have xs: "xs \<noteq> []" "list_all js_is_finite (map snd xs)"
    using assms(3) sample_finite by (auto simp: xs_def list_all_iff)
  have out: "out = pointsForSlice (map fst xs) (map snd xs) 0 (length xs) (Some (js_nat n))"
    using query_form [OF assms(1,2) xs_def xs(1)] assms(5) by (simp add: rangeBounds_def js_is_finite_def)
  have "js_floor (js_nat n) = js_nat n" "\<not> js_le (js_nat n) (Num 0)" "js_trunc (js_nat n) = int n"
    using assms(4) js_lt_nat(3) [of n 0] by (simp_all add: js_floor_def js_nat_def js_int_def js_trunc_def rat_trunc_def)
  then have out': "out = (if length xs \<le> n then fullResolution (map fst xs) (map snd xs) 0 (length xs)
      else downsampleMinMax (map fst xs) (map snd xs) 0 (length (map snd xs)) n)"
    using out xs(1) by (simp add: pointsForSlice_def) (simp add: js_nat_def)
  show ?thesis
  proof (cases "length xs \<le> n")
    case True
    then show ?thesis using out' full_keeps [OF xs] by (simp add: xs_def [symmetric])
  next
    case False
    then show ?thesis using out' downsample_keeps [OF assms(4) _ xs(2), of "map fst xs"] by (simp add: xs_def [symmetric])
  qed
qed

definition attitude_log :: "df_record list" where
  "attitude_log = map (\<lambda>(t, v). \<lparr>dr_type = 1, dr_name = ''ATT'', dr_offset = 0, dr_length = 11,
     dr_fields = [(''TimeUS'', DfNum (js_int t)), (''Roll'', DfNum (js_int v))], dr_units = None\<rparr>) [(20, 5), (10, 3), (30, 4)]"

lemma attitude_ok: "list_all (\<lambda>r. nul_free (dr_name r)) attitude_log" "nul_free ''ATT''"
  by (simp_all add: attitude_log_def nul_free_def)

lemma finite_int [simp]: "js_is_finite (js_int i)"
  by (simp add: js_is_finite_def js_int_def)

lemma value_int [simp]: "js_value (js_int i) = of_int i"
  by (simp add: js_value_def js_int_def)

lemma attitude_samples: "by_time (log_samples attitude_log ''ATT'' ''Roll'') = map (\<lambda>(t, v). (js_int t, js_int v)) [(10, 3), (20, 5), (30, 4)]"
proof -
  have "log_samples attitude_log ''ATT'' ''Roll'' = [(js_int 20, js_int 5), (js_int 10, js_int 3), (js_int 30, js_int 4)]"
    by (simp add: attitude_log_def log_samples_def record_samples_def List.map_filter_def dataValueToNumber_def timestampUs_def)
  then show ?thesis by (simp add: by_time_def)
qed

lemma attitude_nonempty: "log_samples attitude_log ''ATT'' ''Roll'' \<noteq> []"
proof
  assume "log_samples attitude_log ''ATT'' ''Roll'' = []"
  then have "by_time (log_samples attitude_log ''ATT'' ''Roll'') = []" by simp
  then show False unfolding attitude_samples by simp
qed

theorem index_holds_samples_witness:
  "getSeries ''ATT'' ''Roll'' (buildLogQueryIndex attitude_log None)
     = Inr (map js_int [10, 20, 30], map js_int [3, 5, 4])"
  using index_holds_samples [OF attitude_ok, of "''Roll''" None] unfolding attitude_samples by simp

theorem range_query_filters_witness:
  "querySeries ''ATT'' ''Roll'' (Some \<lparr>lr_fromUs = Some (js_int 15), lr_toUs = Some (js_int 25)\<rparr>) None
     (buildLogQueryIndex attitude_log None) = Inr [sample_point (js_int 20, js_int 5)]"
  using range_query_filters [OF attitude_ok attitude_nonempty, of "js_int 15" "js_int 25" None] unfolding attitude_samples
  by (simp add: finite_order)

theorem downsampling_keeps_samples_witness:
  "\<exists>out. querySeries ''ATT'' ''Roll'' None (Some (js_nat 2)) (buildLogQueryIndex attitude_log None) = Inr out \<and>
     length out \<le> 2 \<and> keeps_samples out (map js_int [3, 5, 4])"
proof -
  obtain out where out: "querySeries ''ATT'' ''Roll'' None (Some (js_nat 2)) (buildLogQueryIndex attitude_log None) = Inr out"
    using query_form [OF attitude_ok refl, of "''Roll''" None "Some (js_nat 2)" None] attitude_nonempty
    by (cases "rangeBounds (map fst (by_time (log_samples attitude_log ''ATT'' ''Roll''))) None") simp
  have "length out \<le> 2 \<and> keeps_samples out (map snd (by_time (log_samples attitude_log ''ATT'' ''Roll'')))"
    by (rule downsampling_keeps_samples [OF attitude_ok attitude_nonempty _ out]) simp
  then show ?thesis using out unfolding attitude_samples by (intro exI [of _ out]) simp
qed

end
