(* ===== verification/Spec2Isabelle.thy ===== *)
theory Spec2Isabelle
  imports Codec_Properties Command_Properties Param_Properties Mission_Properties Log_Properties Ftp_Properties Broker_Properties
    Manual_Properties Expression_Properties Rpc_Properties
    Flash_Properties Query_Properties
begin

text \<open>
  A verification library for MVPlanner, a browser ground station for MAVLink vehicles. The
  MAVLink layer of the program is modelled from its TypeScript source (paths below are under
  \<open>src/src/\<close>); the theories are layered like the code.

  \<^bold>\<open>Foundations.\<close> \<open>Prelude\<close> holds byte sequences, little-endian numbers, and the error sum;
  \<open>Js_Number\<close> the numbers of JavaScript (rationals, a negative zero, NaN, infinities, the IEEE
  formats used by DataView); \<open>Js_Text\<close> JavaScript values and the string-to-number conversions; \<open>Js_Math\<close>
  proves that rounding to doubles keeps the order, with division and more of \<open>Math\<close>; \<open>Js_Collections\<close> holds \<open>Set\<close>.

  \<^bold>\<open>The codec\<close> (\<open>mavlink/codec\<close>). \<open>Crc\<close>, \<open>Sha256\<close>, \<open>Field_Codec\<close>, \<open>Signing\<close>, \<open>Encode_Frame\<close>,
  \<open>Stream_Parser\<close> and \<open>Mav_Codec\<close> model the files of the same names; \<open>Frame_Round_Trip\<close> relates the
  encoder to the parser, and \<open>Codec_Properties\<close> states what the codec guarantees. \<open>Fips_Sha\<close> is SHA-256 as FIPS 180-4 states it,
  with the constants as fractions of roots; nothing in it is taken from the code, and \<open>Sha256\<close> proves that the code computes it.

  \<^bold>\<open>The microservices\<close> (\<open>mavlink/microservices\<close>). A client is a state record with a table of pending
  operations and a timer table; one event is one JavaScript task (a call, a message, a timer, an abort,
  the failure of a send), and yields the list of observable effects (messages sent, promises settled,
  callbacks run). \<open>Client_Base\<close> holds the timers and the locale \<open>promise_ledger\<close>, which every client
  interprets: over any run, the promises handed out are those settled plus those still open.
  \<open>Mode_Maps\<close> and \<open>Command_Client\<close> model the flight modes and the command protocol, \<open>Command_Safety\<close>
  proves the client's invariants and \<open>Command_Properties\<close> states the properties; \<open>Param_Client\<close> models
  the parameter protocol, \<open>Param_Safety\<close> its ledger and timers, \<open>Param_History\<close> what a fetch was told of since its call,
  computed from the messages of the run alone, and \<open>Param_Properties\<close> states the properties: a fetch resolves with that history. \<open>Op_Table\<close> is the table of operations the later clients share: opening, closing, timing and
  awaiting operations, with the laws that keep its ledger. \<open>Mission_Client\<close> models the transfer of missions
  over it, \<open>Mission_Safety\<close> proves its ledger and time-outs, \<open>Mission_Properties\<close> its properties.
  \<open>Byte_Ranges\<close> holds the received ranges of a download and the contract of such a cover (\<open>byte_cover\<close>);
  \<open>Log_Client\<close>, \<open>Log_Safety\<close> and \<open>Log_Properties\<close> model and verify the log download in the same three steps.
  \<open>Utf8\<close> holds the text encoder and decoder; \<open>Ftp_Protocol\<close> the payloads and directory records of MAVLink FTP;
  \<open>Ftp_Client\<close> its client, whose \<open>async\<close> functions are cut at their \<open>await\<close>s into phases; \<open>Ftp_Safety\<close> its
  ledger and time-outs; \<open>Ftp_Runs\<close> the locale \<open>ftp_operations\<close>, by which \<open>Ftp_Properties\<close> proves three
  properties of the operations (reads, writes, listings) over all runs. A request whose send throws at once leaves the
  transaction in \<open>pending\<close>, as in the code. A burst that a truthful server ends by the error EndOfFile loses its data, so a read
  yields a prefix of the file, and the whole of it when that does not happen.
  \<open>Manual_Control\<close> models the manual control by a gamepad with its transport gate. The listeners of activity and of actions
  may call the service back while they are notified (\<open>react\<close> says what each calls, to any depth \<open>n\<close> of such calls);
  \<open>Manual_Properties\<close> proves, through the locale \<open>manual_guarantee\<close> for what every step keeps, what a frame contains, that
  the sticks are sent only in an activation the gate let through, what is sent when the service stops, and the distance of frames.

  \<^bold>\<open>Extensions\<close> (\<open>ext/permissions\<close>, \<open>core/audit\<close>). \<open>Task_Table\<close> holds the suspended \<open>async\<close> calls of a component,
  with the laws of its ledger; \<open>Audit_Log\<close> the log of vehicle actions; \<open>Permission_Broker\<close> the grants of the
  extensions and the broker that mediates their calls; \<open>Broker_Properties\<close> states that no handler runs without its
  permission and approval, what the log then holds, and that a grant under way undoes any revocation made meanwhile.

  \<^bold>\<open>The message port\<close> (\<open>core/bus\<close>). \<open>Message_Rpc\<close> models one endpoint of the RPC over \<open>postMessage\<close>; \<open>Rpc_System\<close> two of
  them with a queue of messages in each direction, and keeps account of where each request is (on its way, at work, answered);
  \<open>Rpc_Ledger\<close> the promises of an endpoint; \<open>Rpc_Trace\<close> the history of a system; \<open>Rpc_Properties\<close> its guarantees,
  and the calls that hang: those made on a disposed endpoint, and those whose handler throws before it has returned a promise or
  whose answer cannot be posted.

  \<^bold>\<open>Log analysis\<close> (\<open>data/log-query\<close>, \<open>data/dataflash\<close>). \<open>Log_Expression\<close> models the scanner, the parser and the evaluation of
  expressions over logged series; \<open>Expression_Properties\<close> proves that what is written is what is read.
  \<open>Data_Flash\<close> (\<open>data/dataflash\<close>) models the streaming decoder of binary logs: \<open>Flash_Stream\<close> shows that chunks do not matter,
  \<open>Flash_Log\<close> writes logs and follows the decoder over them, \<open>Flash_Properties\<close> states the results. \<open>Log_Query\<close> models the index
  over decoded logs, its range queries, downsampling and derived series, and \<open>Query_Properties\<close> what they return.

  \<^bold>\<open>Not modelled.\<close> The user interface, the workers, transports, storage, the geometry of missions
  and surveys, the file formats, and the generated dialect tables: they are input and output, or trigonometry
  in doubles, or not reached yet. Messages of errors are reduced to their reason.
\<close>

end
